(* ===== verification/Prelude.thy ===== *)
theory Prelude
  imports Main "HOL-Library.Word" "HOL-Library.Monad_Syntax"
begin

text \<open>
  Shared vocabulary of the development: names of the C integer types, the
  result type of a C function that may fail to return, a few facts on lists,
  options and machine words that several components use, and the collections
  of simplification rules to which the components add.

  A C function that may stop the program (a failed assertion, a null or
  dangling pointer, an array access out of range) or that may not return at all
  is modelled as a function into \<^typ>\<open>'a option\<close>: \<^const>\<open>None\<close> is
  "does not return normally", and the do notation of the option monad is the
  sequencing of the statements.
\<close>

unbundle bit_operations_syntax

type_synonym u8 = "8 word"
type_synonym u16 = "16 word"
type_synonym u32 = "32 word"
type_synonym u64 = "64 word"

text \<open>Rules that execute the guards of the models.\<close>

named_theorems exec_simps
named_theorems frame_simps
named_theorems inv_intros

definition assert_c :: "bool \<Rightarrow> unit option" where
  "assert_c b = (if b then Some () else None)"

lemma assert_c_simps [simp, exec_simps]:
  "assert_c True = Some ()"
  "assert_c False = None"
  by (simp_all add: assert_c_def)

lemma assert_c_eq_Some [simp]: "assert_c b = Some u \<longleftrightarrow> b"
  by (simp add: assert_c_def)

lemma assert_c_bind [simp]: "Option.bind (assert_c b) f = (if b then f () else None)"
  by (simp add: assert_c_def)

lemma bind_eq_SomeE:
  assumes "Option.bind m f = Some y"
  obtains x where "m = Some x" and "f x = Some y"
  using assms by (cases m) auto

text \<open>Reading and writing an array: an index out of range is not a normal return.\<close>

definition aget :: "'a list \<Rightarrow> nat \<Rightarrow> 'a option" where
  "aget xs i = (if i < length xs then Some (xs ! i) else None)"

definition aset :: "'a list \<Rightarrow> nat \<Rightarrow> 'a \<Rightarrow> 'a list option" where
  "aset xs i v = (if i < length xs then Some (xs[i := v]) else None)"

lemma aget_Some [simp]: "aget xs i = Some v \<longleftrightarrow> i < length xs \<and> xs ! i = v"
  by (auto simp: aget_def)

lemma aget_None [simp]: "aget xs i = None \<longleftrightarrow> length xs \<le> i"
  by (auto simp: aget_def)

lemma aset_Some [simp]: "aset xs i v = Some ys \<longleftrightarrow> i < length xs \<and> ys = xs[i := v]"
  by (auto simp: aset_def)

lemma aset_None [simp]: "aset xs i v = None \<longleftrightarrow> length xs \<le> i"
  by (auto simp: aset_def)

lemma aget_in [exec_simps]: "i < length xs \<Longrightarrow> aget xs i = Some (xs ! i)"
  by (simp add: aget_def)

lemma aset_in [exec_simps]: "i < length xs \<Longrightarrow> aset xs i v = Some (xs[i := v])"
  by (simp add: aset_def)

text \<open>Integers in memory, the low byte first.\<close>

definition le16_bytes :: "u16 \<Rightarrow> u8 list" where
  "le16_bytes w = [ucast w, ucast (drop_bit 8 w)]"

definition le32_bytes :: "u32 \<Rightarrow> u8 list" where
  "le32_bytes w = [ucast w, ucast (drop_bit 8 w), ucast (drop_bit 16 w), ucast (drop_bit 24 w)]"

definition le16_val :: "u8 list \<Rightarrow> u16" where
  "le16_val b = ucast (b ! 0) OR push_bit 8 (ucast (b ! 1))"

definition le32_val :: "u8 list \<Rightarrow> u32" where
  "le32_val b = ucast (b ! 0) OR push_bit 8 (ucast (b ! 1)) OR push_bit 16 (ucast (b ! 2)) OR
     push_bit 24 (ucast (b ! 3))"

lemma length_le_bytes [simp]: "length (le16_bytes w) = 2" "length (le32_bytes v) = 4"
  by (simp_all add: le16_bytes_def le32_bytes_def)

lemma le16_roundtrip [simp]: "le16_val (le16_bytes w) = w"
  by (rule bit_word_eqI) (auto simp: le16_val_def le16_bytes_def bit_simps)

lemma le32_roundtrip [simp]: "le32_val (le32_bytes w) = w"
proof (rule bit_word_eqI)
  fix n assume "n < LENGTH(32)"
  then consider "n < 8" | "8 \<le> n" "n < 16" | "16 \<le> n" "n < 24" | "24 \<le> n" "n < 32"
    by fastforce
  then show "bit (le32_val (le32_bytes w)) n \<longleftrightarrow> bit w n"
    by cases (auto simp: le32_val_def le32_bytes_def bit_simps)
qed

text \<open>Joining a list of texts with a separator between neighbours.\<close>

fun join_with :: "'a list \<Rightarrow> 'a list list \<Rightarrow> 'a list" where
  "join_with sep [] = []"
| "join_with sep [x] = x"
| "join_with sep (x # y # zs) = x @ sep @ join_with sep (y # zs)"

lemma join_with_Cons:
  "xs \<noteq> [] \<Longrightarrow> join_with sep (x # xs) = x @ sep @ join_with sep xs"
  by (cases xs) auto

lemma join_with_eq_Nil_iff:
  "sep \<noteq> [] \<Longrightarrow> join_with sep xs = [] \<longleftrightarrow> xs = [] \<or> xs = [[]]"
  by (induction sep xs rule: join_with.induct) auto

text \<open>
  A first-in first-out container seen through its operations; \<open>new\<close>, \<open>push\<close>, \<open>pop\<close> and
  \<open>front\<close> may abort. Both queues of the shell meet this contract.
\<close>

fun push_all :: "('q \<Rightarrow> 'a option \<Rightarrow> 'q option) \<Rightarrow> 'q \<Rightarrow> 'a list \<Rightarrow> 'q option" where
  "push_all push q [] = Some q"
| "push_all push q (x # xs) = do { q' \<leftarrow> push q (Some x); push_all push q' xs }"

fun drain :: "('q \<Rightarrow> 'a option) \<Rightarrow> ('q \<Rightarrow> 'q option) \<Rightarrow> nat \<Rightarrow> 'q \<Rightarrow> ('a list \<times> 'q) option" where
  "drain front pop 0 q = Some ([], q)"
| "drain front pop (Suc n) q = do {
     x \<leftarrow> front q;
     q' \<leftarrow> pop q;
     (xs, q'') \<leftarrow> drain front pop n q';
     Some (x # xs, q'') }"

locale fifo =
  fixes elems :: "'q \<Rightarrow> 'a list"
    and push :: "'q \<Rightarrow> 'a option \<Rightarrow> 'q option"
    and pop :: "'q \<Rightarrow> 'q option"
    and front :: "'q \<Rightarrow> 'a option"
    and len :: "'q \<Rightarrow> nat"
  assumes len_elems: "len q = length (elems q)"
    and push_null: "push q None = None"
    and push_elems: "\<exists>q'. push q (Some x) = Some q' \<and> elems q' = elems q @ [x]"
    and pop_elems: "elems q = x # xs \<Longrightarrow> \<exists>q'. pop q = Some q' \<and> elems q' = xs"
    and pop_empty: "elems q = [] \<Longrightarrow> pop q = None"
    and front_elems: "elems q = x # xs \<Longrightarrow> front q = Some x"
    and front_empty: "elems q = [] \<Longrightarrow> front q = None"
begin

lemma push_all_elems: "\<exists>q'. push_all push q xs = Some q' \<and> elems q' = elems q @ xs"
proof (induction xs arbitrary: q)
  case (Cons x xs)
  obtain q1 where q1: "push q (Some x) = Some q1" "elems q1 = elems q @ [x]"
    using push_elems by blast
  obtain q2 where "push_all push q1 xs = Some q2" "elems q2 = elems q1 @ xs"
    using Cons.IH by blast
  with q1 show ?case by simp
qed simp

lemma drain_elems:
  "elems q = xs @ ys \<Longrightarrow> \<exists>q'. drain front pop (length xs) q = Some (xs, q') \<and> elems q' = ys"
proof (induction xs arbitrary: q)
  case (Cons x xs)
  obtain q1 where q1: "pop q = Some q1" "elems q1 = xs @ ys"
    using pop_elems [of q x "xs @ ys"] Cons.prems by auto
  from Cons.IH [OF q1(2)] obtain q2
    where "drain front pop (length xs) q1 = Some (xs, q2)" "elems q2 = ys"
    by blast
  with q1 front_elems [of q x "xs @ ys"] Cons.prems show ?case by simp
qed simp

lemma drain_all: "\<exists>q'. drain front pop (len q) q = Some (elems q, q') \<and> elems q' = []"
  using drain_elems [of q "elems q" "[]"] by (simp add: len_elems)

lemma fifo_order:
  assumes "elems q = []"
  shows "\<exists>q1 q2. push_all push q xs = Some q1 \<and> drain front pop (len q1) q1 = Some (xs, q2)
           \<and> elems q2 = []"
proof -
  obtain q1 where q1: "push_all push q xs = Some q1" "elems q1 = xs"
    using push_all_elems [of q xs] assms by auto
  then show ?thesis using drain_all [of q1] by auto
qed

lemma drain_too_many: "drain front pop (Suc (len q)) q = None"
proof -
  have "drain front pop (Suc (length xs)) q = None" if "elems q = xs" for xs
    using that
  proof (induction xs arbitrary: q)
    case Nil
    then show ?case by (simp add: front_empty)
  next
    case (Cons x xs)
    obtain q1 where q1: "pop q = Some q1" "elems q1 = xs"
      using pop_elems [OF Cons.prems] by blast
    from Cons.IH [OF q1(2)] have "drain front pop (Suc (length xs)) q1 = None" .
    with q1 front_elems [OF Cons.prems] show ?case
      by (simp del: drain.simps add: drain.simps(2) [of front pop "Suc (length xs)" q])
  qed
  then show ?thesis by (simp add: len_elems)
qed

end

end
