(* ===== verification/Command.thy ===== *)
theory Command
  imports Prelude
begin

text \<open>
  The two abstract data types of the shell, \<open>lab1/command.c\<close>: a simple command
  (a queue of words and two optional redirections) and a pipeline (a queue of
  simple commands and the flag that says whether the shell waits).

  The GLib queues are lists, front first. A C string is a \<^typ>\<open>string\<close>, a pointer
  that may be null an option. An \<open>assert\<close> that fails ends the program:
  the operation is then \<^const>\<open>None\<close>.
\<close>

section \<open>Simple commands\<close>

record scommand =
  cmd_args :: "string list"
  redir_in :: "string option"
  redir_out :: "string option"

definition scommand_length :: "scommand \<Rightarrow> nat" where
  "scommand_length self = length (cmd_args self)"

definition scommand_is_empty :: "scommand \<Rightarrow> bool" where
  "scommand_is_empty self = (scommand_length self = 0)"

definition scommand_get_redir_in :: "scommand \<Rightarrow> string option" where
  "scommand_get_redir_in self = (case redir_in self of None \<Rightarrow> None | Some f \<Rightarrow> Some f)"

definition scommand_get_redir_out :: "scommand \<Rightarrow> string option" where
  "scommand_get_redir_out self = (case redir_out self of None \<Rightarrow> None | Some f \<Rightarrow> Some f)"

definition scommand_new :: "scommand option" where
  "scommand_new = do {
     let scmd = \<lparr>cmd_args = [], redir_in = None, redir_out = None\<rparr>;
     assert_c (scommand_is_empty scmd \<and> scommand_get_redir_in scmd = None \<and>
               scommand_get_redir_out scmd = None);
     Some scmd }"

definition scommand_push_back :: "scommand \<Rightarrow> string option \<Rightarrow> scommand option" where
  "scommand_push_back self argument = do {
     arg \<leftarrow> argument;
     let self' = self\<lparr>cmd_args := cmd_args self @ [arg]\<rparr>;
     assert_c (\<not> scommand_is_empty self');
     Some self' }"

definition scommand_pop_front :: "scommand \<Rightarrow> scommand option" where
  "scommand_pop_front self = do {
     assert_c (\<not> scommand_is_empty self);
     Some (self\<lparr>cmd_args := tl (cmd_args self)\<rparr>) }"

definition scommand_set_redir_in :: "scommand \<Rightarrow> string option \<Rightarrow> scommand" where
  "scommand_set_redir_in self filename =
     (case filename of Some f \<Rightarrow> self\<lparr>redir_in := Some f\<rparr> | None \<Rightarrow> self\<lparr>redir_in := None\<rparr>)"

definition scommand_set_redir_out :: "scommand \<Rightarrow> string option \<Rightarrow> scommand" where
  "scommand_set_redir_out self filename =
     (case filename of Some f \<Rightarrow> self\<lparr>redir_out := Some f\<rparr> | None \<Rightarrow> self\<lparr>redir_out := None\<rparr>)"

definition scommand_front :: "scommand \<Rightarrow> string option" where
  "scommand_front self = do {
     assert_c (\<not> scommand_is_empty self);
     Some (hd (cmd_args self)) }"

text \<open>
  The printing loop runs \<open>i\<close> from 0 and reads the \<open>i\<close>-th word of the queue; the
  model keeps the words still to be printed and the number of them.
\<close>

fun scommand_to_string_loop :: "nat \<Rightarrow> nat \<Rightarrow> string list \<Rightarrow> string \<Rightarrow> string" where
  "scommand_to_string_loop i length_cmd [] acc = acc"
| "scommand_to_string_loop i length_cmd (arg # rest) acc =
     scommand_to_string_loop (Suc i) length_cmd rest
       (acc @ arg @ (if i \<noteq> length_cmd - 1 then '' '' else []))"

definition scommand_to_string :: "scommand \<Rightarrow> string option" where
  "scommand_to_string self = do {
     let s = scommand_to_string_loop 0 (length (cmd_args self)) (cmd_args self) [];
     let s = s @ (case redir_out self of None \<Rightarrow> [] | Some f \<Rightarrow> '' > '' @ f);
     let s = s @ (case redir_in self of None \<Rightarrow> [] | Some f \<Rightarrow> '' < '' @ f);
     assert_c (scommand_is_empty self \<or> scommand_get_redir_in self = None \<or>
               scommand_get_redir_out self = None \<or> length s > 0);
     Some s }"

section \<open>Pipelines\<close>

record pipeline =
  scmds :: "scommand list"
  wait :: bool

definition pipeline_length :: "pipeline \<Rightarrow> nat" where
  "pipeline_length self = length (scmds self)"

definition pipeline_is_empty :: "pipeline \<Rightarrow> bool" where
  "pipeline_is_empty self = (pipeline_length self = 0)"

definition pipeline_get_wait :: "pipeline \<Rightarrow> bool" where
  "pipeline_get_wait self = wait self"

definition pipeline_new :: pipeline where
  "pipeline_new = \<lparr>scmds = [], wait = True\<rparr>"

definition pipeline_push_back :: "pipeline \<Rightarrow> scommand option \<Rightarrow> pipeline option" where
  "pipeline_push_back self sc = do {
     c \<leftarrow> sc;
     let self' = self\<lparr>scmds := scmds self @ [c]\<rparr>;
     assert_c (\<not> pipeline_is_empty self');
     Some self' }"

definition pipeline_pop_front :: "pipeline \<Rightarrow> pipeline option" where
  "pipeline_pop_front self = do {
     assert_c (\<not> pipeline_is_empty self);
     Some (self\<lparr>scmds := tl (scmds self)\<rparr>) }"

definition pipeline_set_wait :: "pipeline \<Rightarrow> bool \<Rightarrow> pipeline" where
  "pipeline_set_wait self w = self\<lparr>wait := w\<rparr>"

definition pipeline_front :: "pipeline \<Rightarrow> scommand option" where
  "pipeline_front self = do {
     assert_c (\<not> pipeline_is_empty self);
     Some (hd (scmds self)) }"

fun pipeline_to_string_loop ::
  "nat \<Rightarrow> nat \<Rightarrow> bool \<Rightarrow> scommand list \<Rightarrow> string \<Rightarrow> string option" where
  "pipeline_to_string_loop i length_pipeline w [] acc = Some acc"
| "pipeline_to_string_loop i length_pipeline w (sc # rest) acc = do {
     sc_str \<leftarrow> scommand_to_string sc;
     let acc = acc @ sc_str;
     pipeline_to_string_loop (Suc i) length_pipeline w rest
       (if i < length_pipeline - 1 then acc @ '' | ''
        else if w = False then acc @ '' &'' else acc) }"

definition pipeline_to_string :: "pipeline \<Rightarrow> string option" where
  "pipeline_to_string self = do {
     s \<leftarrow> pipeline_to_string_loop 0 (length (scmds self)) (pipeline_get_wait self) (scmds self) [];
     assert_c (pipeline_is_empty self \<or> pipeline_get_wait self \<or> length s > 0);
     Some s }"

section \<open>Facts\<close>

lemmas scommand_defs =
  scommand_length_def scommand_is_empty_def scommand_get_redir_in_def
  scommand_get_redir_out_def scommand_push_back_def scommand_pop_front_def scommand_front_def

lemmas pipeline_defs =
  pipeline_length_def pipeline_is_empty_def pipeline_get_wait_def pipeline_push_back_def
  pipeline_pop_front_def pipeline_front_def pipeline_set_wait_def pipeline_new_def

lemma scommand_get_redir [simp]:
  "scommand_get_redir_in sc = redir_in sc"
  "scommand_get_redir_out sc = redir_out sc"
  by (simp_all add: scommand_defs split: option.split)

lemma scommand_set_redir [simp]:
  "scommand_set_redir_in sc f = sc\<lparr>redir_in := f\<rparr>"
  "scommand_set_redir_out sc f = sc\<lparr>redir_out := f\<rparr>"
  by (simp_all add: scommand_set_redir_in_def scommand_set_redir_out_def split: option.split)

lemma scommand_is_empty_iff [simp]: "scommand_is_empty sc \<longleftrightarrow> cmd_args sc = []"
  by (simp add: scommand_defs)

lemma pipeline_is_empty_iff [simp]: "pipeline_is_empty p \<longleftrightarrow> scmds p = []"
  by (simp add: pipeline_defs)

lemma scommand_new_eq: "scommand_new = Some \<lparr>cmd_args = [], redir_in = None, redir_out = None\<rparr>"
  by (simp add: scommand_new_def)

interpretation sc: fifo cmd_args scommand_push_back scommand_pop_front scommand_front scommand_length
  by unfold_locales (auto simp: scommand_defs)

interpretation pl: fifo scmds pipeline_push_back pipeline_pop_front pipeline_front pipeline_length
  by unfold_locales (auto simp: pipeline_defs)

lemma scommand_to_string_loop_eq:
  "i + length args = n \<Longrightarrow> scommand_to_string_loop i n args acc = acc @ join_with '' '' args"
proof (induction args arbitrary: i acc)
  case (Cons a args)
  then have IH: "scommand_to_string_loop (Suc i) n args acc' = acc' @ join_with '' '' args" for acc'
    by simp
  from Cons.prems have "i \<noteq> n - 1 \<longleftrightarrow> args \<noteq> []" by auto
  then show ?case
    by (simp add: IH join_with_Cons)
qed simp

definition redir_text :: "scommand \<Rightarrow> string" where
  "redir_text sc =
     (case redir_out sc of None \<Rightarrow> [] | Some f \<Rightarrow> '' > '' @ f) @
     (case redir_in sc of None \<Rightarrow> [] | Some f \<Rightarrow> '' < '' @ f)"

definition scommand_text :: "scommand \<Rightarrow> string" where
  "scommand_text sc = join_with '' '' (cmd_args sc) @ redir_text sc"

lemma scommand_to_string_eq: "scommand_to_string sc = Some (scommand_text sc)"
  by (auto simp: scommand_to_string_def scommand_text_def redir_text_def
      scommand_to_string_loop_eq split: option.split)

lemma pipeline_to_string_loop_eq:
  "i + length cs = n \<Longrightarrow> pipeline_to_string_loop i n w cs acc =
     Some (acc @ join_with '' | '' (map scommand_text cs) @
           (if cs \<noteq> [] \<and> \<not> w then '' &'' else []))"
proof (induction cs arbitrary: i acc)
  case (Cons c cs)
  then have IH: "pipeline_to_string_loop (Suc i) n w cs acc' =
      Some (acc' @ join_with '' | '' (map scommand_text cs) @
            (if cs \<noteq> [] \<and> \<not> w then '' &'' else []))" for acc'
    by simp
  from Cons.prems have "i < n - 1 \<longleftrightarrow> cs \<noteq> []" by (cases cs) auto
  then show ?case
    by (auto simp: IH scommand_to_string_eq join_with_Cons)
qed simp

text \<open>
  C33. \<open>pipeline_to_string\<close> never trips its assertion: for every pipeline it returns the texts of
  the commands, in queue order, with " | " between neighbours, followed by " &" exactly when the
  pipeline is not empty and is not waited for.
\<close>

theorem pipeline_to_string_text:
  "pipeline_to_string p =
     Some (join_with '' | '' (map scommand_text (scmds p)) @
           (if scmds p \<noteq> [] \<and> \<not> wait p then '' &'' else []))"
  by (auto simp: pipeline_to_string_def pipeline_to_string_loop_eq pipeline_defs)

end
