(* ===== verification/Parsing.thy ===== *)
theory Parsing
  imports Command
begin

text \<open>
  The parsing of a command line, \<open>lab1/parsing.c\<close>. The lexical analyser
  (\<open>parser.h\<close>) ships as object code only, so it is a parameter: a record of its
  operations over an arbitrary state. What \<open>parser.h\<close> documents of them is the predicate
  \<open>parser_ok\<close>, relative to a function that reads the tokens still ahead. A loop that
  calls the analyser may not end: the loops are partial functions.
\<close>

datatype arg_kind_t = ARG_NORMAL | ARG_INPUT | ARG_OUTPUT

record 'p parser_ops =
  parser_next_argument :: "'p \<Rightarrow> (arg_kind_t \<times> string) option \<times> 'p"
  parser_op_background :: "'p \<Rightarrow> bool \<times> 'p"
  parser_skip_blanks :: "'p \<Rightarrow> 'p"
  parser_op_pipe :: "'p \<Rightarrow> bool \<times> 'p"
  parser_garbage :: "'p \<Rightarrow> bool \<times> 'p"
  parser_at_eof :: "'p \<Rightarrow> bool"

section \<open>The code\<close>

definition take_arg :: "scommand \<Rightarrow> arg_kind_t \<Rightarrow> string \<Rightarrow> scommand option" where
  "take_arg command arg_type arg =
     (if arg_type = ARG_NORMAL then scommand_push_back command (Some arg)
      else if arg_type = ARG_INPUT then Some (scommand_set_redir_in command (Some arg))
      else if arg_type = ARG_OUTPUT then Some (scommand_set_redir_out command (Some arg))
      else Some command)"

partial_function (option) parse_scommand_loop ::
  "'p parser_ops \<Rightarrow> 'p \<Rightarrow> scommand \<Rightarrow> (scommand \<times> 'p) option" where
  "parse_scommand_loop ops p command =
     (case parser_next_argument ops p of
        (None, p') \<Rightarrow> Some (command, p')
      | (Some (arg_type, arg), p') \<Rightarrow> do {
          command' \<leftarrow> take_arg command arg_type arg;
          parse_scommand_loop ops p' command' })"

definition parse_scommand :: "'p parser_ops \<Rightarrow> 'p \<Rightarrow> (scommand option \<times> 'p) option" where
  "parse_scommand ops p = do {
     command \<leftarrow> scommand_new;
     (command, p) \<leftarrow> parse_scommand_loop ops p command;
     Some (if scommand_is_empty command then None else Some command, p) }"

text \<open>The loop body pushes the command just read, so it is entered with \<open>cmd\<close> not null.\<close>

partial_function (option) parse_pipeline_loop ::
  "'p parser_ops \<Rightarrow> 'p \<Rightarrow> pipeline \<Rightarrow> scommand option \<Rightarrow> bool \<Rightarrow> bool \<Rightarrow> (pipeline \<times> 'p) option"
where
  "parse_pipeline_loop ops p result cmd another_pipe error =
     (if another_pipe \<and> \<not> error then do {
        result \<leftarrow> pipeline_push_back result cmd;
        let p = parser_skip_blanks ops p;
        let (another_pipe, p) = parser_op_pipe ops p;
        (cmd, p) \<leftarrow> parse_scommand ops p;
        parse_pipeline_loop ops p result cmd another_pipe (cmd = None) }
      else Some (result, p))"

definition parse_pipeline :: "'p parser_ops \<Rightarrow> 'p \<Rightarrow> (pipeline option \<times> 'p) option" where
  "parse_pipeline ops p = do {
     assert_c (\<not> parser_at_eof ops p);
     let result = pipeline_new;
     let p = parser_skip_blanks ops p;
     (cmd, p) \<leftarrow> parse_scommand ops p;
     (result, p) \<leftarrow> parse_pipeline_loop ops p result cmd True (cmd = None);
     let (is_background, p) = parser_op_background ops p;
     let result = pipeline_set_wait result (\<not> is_background);
     let (garbage, p) = parser_garbage ops p;
     Some (if pipeline_is_empty result then None else Some result, p) }"

section \<open>What the lexical analyser promises\<close>

text \<open>
  The tokens ahead in the input. Blanks separate tokens and are not tokens; \<open>OTHER\<close> is a
  symbol the grammar of the shell has no use for.
\<close>

datatype token = ARG arg_kind_t string | PIPE | AMP | OTHER | EOL

fun is_arg :: "token \<Rightarrow> bool" where
  "is_arg (ARG k s) = True"
| "is_arg t = False"

definition parser_ok :: "'p parser_ops \<Rightarrow> ('p \<Rightarrow> token list) \<Rightarrow> bool" where
  "parser_ok ops toks \<longleftrightarrow>
     (\<forall>p. (case toks p of
             ARG k s # ts \<Rightarrow> fst (parser_next_argument ops p) = Some (k, s) \<and>
                             toks (snd (parser_next_argument ops p)) = ts
           | _ \<Rightarrow> fst (parser_next_argument ops p) = None \<and>
                  toks (snd (parser_next_argument ops p)) = toks p)) \<and>
     (\<forall>p. toks (parser_skip_blanks ops p) = toks p) \<and>
     (\<forall>p. (case toks p of
             PIPE # ts \<Rightarrow> fst (parser_op_pipe ops p) \<and> toks (snd (parser_op_pipe ops p)) = ts
           | _ \<Rightarrow> \<not> fst (parser_op_pipe ops p) \<and> toks (snd (parser_op_pipe ops p)) = toks p)) \<and>
     (\<forall>p. (case toks p of
             AMP # ts \<Rightarrow> fst (parser_op_background ops p) \<and>
                         toks (snd (parser_op_background ops p)) = ts
           | _ \<Rightarrow> \<not> fst (parser_op_background ops p) \<and>
                  toks (snd (parser_op_background ops p)) = toks p)) \<and>
     (\<forall>p. fst (parser_garbage ops p) = (takeWhile (\<lambda>t. t \<noteq> EOL) (toks p) \<noteq> []) \<and>
          toks (snd (parser_garbage ops p)) = tl (dropWhile (\<lambda>t. t \<noteq> EOL) (toks p))) \<and>
     (\<forall>p. parser_at_eof ops p \<longleftrightarrow> toks p = [])"

text \<open>One concrete analyser: its state is the list of tokens itself.\<close>

fun tok_next :: "token list \<Rightarrow> (arg_kind_t \<times> string) option \<times> token list" where
  "tok_next (ARG k s # ts) = (Some (k, s), ts)"
| "tok_next ts = (None, ts)"

definition tok_eat :: "token \<Rightarrow> token list \<Rightarrow> bool \<times> token list" where
  "tok_eat t ts = (if ts \<noteq> [] \<and> hd ts = t then (True, tl ts) else (False, ts))"

definition tok_ops :: "token list parser_ops" where
  "tok_ops = \<lparr>parser_next_argument = tok_next,
              parser_op_background = tok_eat AMP,
              parser_skip_blanks = (\<lambda>ts. ts),
              parser_op_pipe = tok_eat PIPE,
              parser_garbage = (\<lambda>ts. (takeWhile (\<lambda>t. t \<noteq> EOL) ts \<noteq> [],
                                      tl (dropWhile (\<lambda>t. t \<noteq> EOL) ts))),
              parser_at_eof = (\<lambda>ts. ts = [])\<rparr>"

lemma tok_ops_ok: "parser_ok tok_ops (\<lambda>ts. ts)"
proof -
  have *: "case ts of ARG k s # r \<Rightarrow> fst (tok_next ts) = Some (k, s) \<and> snd (tok_next ts) = r
       | _ \<Rightarrow> fst (tok_next ts) = None \<and> snd (tok_next ts) = ts" for ts
    by (cases ts rule: tok_next.cases) auto
  show ?thesis
    unfolding parser_ok_def tok_ops_def
    using * by (auto simp: tok_eat_def split: list.splits token.splits)
qed

section \<open>Facts about the parser\<close>

text \<open>The command that a run of arguments denotes; a later redirection replaces an earlier one.\<close>

fun add_arg :: "scommand \<Rightarrow> token \<Rightarrow> scommand" where
  "add_arg c (ARG ARG_NORMAL s) = c\<lparr>cmd_args := cmd_args c @ [s]\<rparr>"
| "add_arg c (ARG ARG_INPUT s) = c\<lparr>redir_in := Some s\<rparr>"
| "add_arg c (ARG ARG_OUTPUT s) = c\<lparr>redir_out := Some s\<rparr>"
| "add_arg c t = c"

abbreviation empty_scommand :: scommand where
  "empty_scommand \<equiv> \<lparr>cmd_args = [], redir_in = None, redir_out = None\<rparr>"

definition spec_scommand :: "token list \<Rightarrow> scommand option" where
  "spec_scommand ts =
     (let c = foldl add_arg empty_scommand (takeWhile is_arg ts)
      in if cmd_args c = [] then None else Some c)"

text \<open>
  The commands of a line and the tokens left: commands are read while the
  previous one was well formed and followed by a pipe symbol.
\<close>

function spec_cmds :: "token list \<Rightarrow> scommand list \<times> token list" where
  "spec_cmds ts =
     (case spec_scommand ts of
        None \<Rightarrow> ([], dropWhile is_arg ts)
      | Some c \<Rightarrow> (case dropWhile is_arg ts of
            PIPE # r \<Rightarrow> (let (cs, r') = spec_cmds r in (c # cs, r'))
          | r \<Rightarrow> ([c], r)))"
  by pat_completeness auto
termination
proof (relation "measure length")
  fix ts c r :: "token list" and x x21 x22
  assume "dropWhile is_arg ts = x21 # x22"
  then have "length (x21 # x22) \<le> length ts"
    by (metis length_dropWhile_le)
  then show "(x22, ts) \<in> measure length" by simp
qed simp

declare spec_cmds.simps [simp del]

lemma take_arg_eq: "is_arg (ARG k s) \<Longrightarrow> take_arg c k s = Some (add_arg c (ARG k s))"
  by (cases k) (auto simp: take_arg_def scommand_defs)

lemma parser_ok_next:
  assumes "parser_ok ops toks"
  shows "toks p = ARG k s # ts \<Longrightarrow>
           \<exists>p'. parser_next_argument ops p = (Some (k, s), p') \<and> toks p' = ts"
    and "\<not> (\<exists>k s ts. toks p = ARG k s # ts) \<Longrightarrow>
           \<exists>p'. parser_next_argument ops p = (None, p') \<and> toks p' = toks p"
proof -
  have next_ok: "case toks p of ARG k s # ts \<Rightarrow> fst (parser_next_argument ops p) = Some (k, s) \<and>
                             toks (snd (parser_next_argument ops p)) = ts
           | _ \<Rightarrow> fst (parser_next_argument ops p) = None \<and>
                  toks (snd (parser_next_argument ops p)) = toks p"
    using assms unfolding parser_ok_def by blast
  obtain r p' where r: "parser_next_argument ops p = (r, p')" by fastforce
  show "\<exists>p'. parser_next_argument ops p = (Some (k, s), p') \<and> toks p' = ts"
    if "toks p = ARG k s # ts"
    using next_ok r that by simp
  show "\<exists>p'. parser_next_argument ops p = (None, p') \<and> toks p' = toks p"
    if "\<not> (\<exists>k s ts. toks p = ARG k s # ts)"
    using next_ok r that by (auto split: list.splits token.splits)
qed

lemma parser_ok_blanks: "parser_ok ops toks \<Longrightarrow> toks (parser_skip_blanks ops p) = toks p"
  by (simp add: parser_ok_def)

lemma parser_ok_pipe:
  assumes "parser_ok ops toks"
  shows "\<exists>p'. parser_op_pipe ops p = (toks p \<noteq> [] \<and> hd (toks p) = PIPE, p') \<and>
           toks p' = (if toks p \<noteq> [] \<and> hd (toks p) = PIPE then tl (toks p) else toks p)"
proof -
  have "case toks p of
             PIPE # ts \<Rightarrow> fst (parser_op_pipe ops p) \<and> toks (snd (parser_op_pipe ops p)) = ts
           | _ \<Rightarrow> \<not> fst (parser_op_pipe ops p) \<and> toks (snd (parser_op_pipe ops p)) = toks p"
    using assms unfolding parser_ok_def by blast
  then show ?thesis
    by (cases "parser_op_pipe ops p") (auto split: list.splits token.splits)
qed

lemma parser_ok_background:
  assumes "parser_ok ops toks"
  shows "\<exists>p'. parser_op_background ops p = (toks p \<noteq> [] \<and> hd (toks p) = AMP, p') \<and>
           toks p' = (if toks p \<noteq> [] \<and> hd (toks p) = AMP then tl (toks p) else toks p)"
proof -
  have "case toks p of
             AMP # ts \<Rightarrow> fst (parser_op_background ops p) \<and>
                         toks (snd (parser_op_background ops p)) = ts
           | _ \<Rightarrow> \<not> fst (parser_op_background ops p) \<and>
                  toks (snd (parser_op_background ops p)) = toks p"
    using assms unfolding parser_ok_def by blast
  then show ?thesis
    by (cases "parser_op_background ops p") (auto split: list.splits token.splits)
qed

lemma parser_ok_garbage:
  assumes "parser_ok ops toks"
  shows "toks (snd (parser_garbage ops p)) = tl (dropWhile (\<lambda>t. t \<noteq> EOL) (toks p))"
  using assms unfolding parser_ok_def by blast

lemma parse_scommand_loop_eq:
  assumes ok: "parser_ok ops toks"
  shows "toks p = ts \<Longrightarrow> \<exists>p'. parse_scommand_loop ops p c =
           Some (foldl add_arg c (takeWhile is_arg ts), p') \<and>
           toks p' = dropWhile is_arg ts"
proof (induction ts arbitrary: p c)
  case Nil
  then obtain p' where "parser_next_argument ops p = (None, p')" "toks p' = []"
    using parser_ok_next(2) [OF ok, of p] by auto
  then show ?case
    by (simp add: parse_scommand_loop.simps [of ops p c])
next
  case (Cons t ts)
  show ?case
  proof (cases "is_arg t")
    case True
    then obtain k s where t: "t = ARG k s" by (cases t) auto
    then obtain p1 where p1: "parser_next_argument ops p = (Some (k, s), p1)" "toks p1 = ts"
      using parser_ok_next(1) [OF ok] Cons.prems by blast
    from Cons.IH [OF p1(2), of "add_arg c (ARG k s)"] show ?thesis
      using t p1 by (simp add: parse_scommand_loop.simps [of ops p c] take_arg_eq)
  next
    case False
    then have "\<not> (\<exists>k s ts. toks p = ARG k s # ts)" using Cons.prems by auto
    from parser_ok_next(2) [OF ok this]
    obtain p1 where "parser_next_argument ops p = (None, p1)" "toks p1 = toks p"
      by blast
    with False Cons.prems show ?thesis
      by (simp add: parse_scommand_loop.simps [of ops p c])
  qed
qed

lemma parse_scommand_eq:
  assumes "parser_ok ops toks"
  shows "\<exists>p'. parse_scommand ops p = Some (spec_scommand (toks p), p') \<and>
              toks p' = dropWhile is_arg (toks p)"
  using parse_scommand_loop_eq [OF assms refl, of p empty_scommand]
  by (auto simp: parse_scommand_def scommand_new_eq spec_scommand_def Let_def)

lemma dropWhile_no_arg: "dropWhile is_arg (dropWhile is_arg ts) = dropWhile is_arg ts"
  by (induction ts) auto

lemma pipeline_push_back_Some:
  "pipeline_push_back p (Some c) = Some (p\<lparr>scmds := scmds p @ [c]\<rparr>)"
  by (simp add: pipeline_defs)

lemma parse_pipeline_loop_stop:
  "parse_pipeline_loop ops p res cmd False err = Some (res, p)"
  "parse_pipeline_loop ops p res cmd ap True = Some (res, p)"
  by (simp_all add: parse_pipeline_loop.simps)

lemma spec_cmds_None: "spec_scommand ts = None \<Longrightarrow> spec_cmds ts = ([], dropWhile is_arg ts)"
  by (simp add: spec_cmds.simps)

lemma spec_cmds_pipe:
  "spec_scommand ts = Some c \<Longrightarrow> dropWhile is_arg ts = PIPE # r \<Longrightarrow>
   spec_cmds ts = (c # fst (spec_cmds r), snd (spec_cmds r))"
  by (simp add: spec_cmds.simps [of ts] split: prod.splits)

lemma spec_cmds_last:
  "spec_scommand ts = Some c \<Longrightarrow> \<not> (\<exists>r. dropWhile is_arg ts = PIPE # r) \<Longrightarrow>
   spec_cmds ts = ([c], dropWhile is_arg ts)"
  by (cases "dropWhile is_arg ts")
     (simp_all add: spec_cmds.simps [of ts] split: token.splits del: dropWhile_eq_Nil_conv)

lemma parse_pipeline_loop_eq:
  assumes ok: "parser_ok ops toks"
  shows "toks p = dropWhile is_arg ts \<Longrightarrow>
     \<exists>p'. parse_pipeline_loop ops p res (spec_scommand ts) True (spec_scommand ts = None) =
            Some (res\<lparr>scmds := scmds res @ fst (spec_cmds ts)\<rparr>, p') \<and>
          toks p' = snd (spec_cmds ts)"
proof (induction ts arbitrary: p res rule: spec_cmds.induct)
  case (1 ts)
  show ?case
  proof (cases "spec_scommand ts")
    case None
    then show ?thesis using "1.prems"
      by (simp add: parse_pipeline_loop_stop spec_cmds_None)
  next
    case (Some c)
    let ?p1 = "parser_skip_blanks ops p" and ?res = "res\<lparr>scmds := scmds res @ [c]\<rparr>"
    let ?pipe = "toks p \<noteq> [] \<and> hd (toks p) = PIPE"
    have t1: "toks ?p1 = toks p" by (rule parser_ok_blanks [OF ok])
    obtain p2 where p2: "parser_op_pipe ops ?p1 = (?pipe, p2)"
        "toks p2 = (if ?pipe then tl (toks p) else toks p)"
      using parser_ok_pipe [OF ok, of ?p1] t1 by auto
    obtain p3 where p3: "parse_scommand ops p2 = Some (spec_scommand (toks p2), p3)"
        "toks p3 = dropWhile is_arg (toks p2)"
      using parse_scommand_eq [OF ok, of p2] by blast
    have step: "parse_pipeline_loop ops p res (Some c) True False =
        parse_pipeline_loop ops p3 ?res (spec_scommand (toks p2)) ?pipe
          (spec_scommand (toks p2) = None)"
      by (simp add: parse_pipeline_loop.simps [of ops p] pipeline_push_back_Some p2 p3)
    show ?thesis
    proof (cases ?pipe)
      case True
      then have "toks p = PIPE # toks p2" using p2(2) by (cases "toks p") simp_all
      then obtain r where r: "dropWhile is_arg ts = PIPE # r" "toks p2 = r"
        using "1.prems" by simp
      from "1.IH" [OF Some r(1) refl, of p3 ?res] p3(2) r
      obtain p' where "parse_pipeline_loop ops p3 ?res (spec_scommand r) True (spec_scommand r = None) =
            Some (?res\<lparr>scmds := scmds ?res @ fst (spec_cmds r)\<rparr>, p')" "toks p' = snd (spec_cmds r)"
        by auto
      then show ?thesis
        using step True Some r by (auto simp: spec_cmds_pipe)
    next
      case False
      then have "\<not> (\<exists>r. dropWhile is_arg ts = PIPE # r)"
        using "1.prems" by (metis list.distinct(1) list.sel(1))
      moreover have "toks p3 = dropWhile is_arg ts"
        using False p2 p3 "1.prems" by (auto simp: dropWhile_no_arg)
      ultimately show ?thesis
        using step False Some by (auto simp: spec_cmds_last parse_pipeline_loop_stop)
    qed
  qed
qed

text \<open>The result of a whole line, and the tokens after it.\<close>

definition spec_pipeline :: "token list \<Rightarrow> pipeline option \<times> token list" where
  "spec_pipeline ts =
     (let (cs, r) = spec_cmds ts; bg = (r \<noteq> [] \<and> hd r = AMP)
      in (if cs = [] then None else Some \<lparr>scmds = cs, wait = \<not> bg\<rparr>,
          tl (dropWhile (\<lambda>t. t \<noteq> EOL) r)))"

lemma dropWhile_EOL_AMP: "r \<noteq> [] \<Longrightarrow> hd r = AMP \<Longrightarrow>
   dropWhile (\<lambda>t. t \<noteq> EOL) (tl r) = dropWhile (\<lambda>t. t \<noteq> EOL) r"
  by (cases r) auto

lemma parse_pipeline_spec:
  assumes ok: "parser_ok ops toks" and "toks p \<noteq> []"
  shows "\<exists>p'. parse_pipeline ops p = Some (fst (spec_pipeline (toks p)), p') \<and>
              toks p' = snd (spec_pipeline (toks p))"
proof -
  let ?p1 = "parser_skip_blanks ops p" and ?ts = "toks p"
  let ?cs = "fst (spec_cmds ?ts)" and ?r = "snd (spec_cmds ?ts)"
  let ?bg = "?r \<noteq> [] \<and> hd ?r = AMP"
  have "\<not> parser_at_eof ops p" using assms unfolding parser_ok_def by blast
  moreover have "toks ?p1 = ?ts" by (rule parser_ok_blanks [OF ok])
  then obtain p2 where p2: "parse_scommand ops ?p1 = Some (spec_scommand ?ts, p2)"
      "toks p2 = dropWhile is_arg ?ts"
    using parse_scommand_eq [OF ok, of ?p1] by auto
  moreover obtain p3 where p3: "parse_pipeline_loop ops p2 pipeline_new (spec_scommand ?ts) True
       (spec_scommand ?ts = None) = Some (\<lparr>scmds = ?cs, wait = True\<rparr>, p3)" "toks p3 = ?r"
    using parse_pipeline_loop_eq [OF ok p2(2), of pipeline_new] by (auto simp: pipeline_defs)
  moreover obtain p4 where p4: "parser_op_background ops p3 = (?bg, p4)"
      "toks p4 = (if ?bg then tl ?r else ?r)"
    using parser_ok_background [OF ok, of p3] p3(2) by auto
  moreover obtain g p5 where p5: "parser_garbage ops p4 = (g, p5)" by fastforce
  moreover have "toks p5 = tl (dropWhile (\<lambda>t. t \<noteq> EOL) ?r)"
    using parser_ok_garbage [OF ok, of p4] p4 p5 dropWhile_EOL_AMP [of ?r] by auto
  ultimately show ?thesis
    by (auto simp: parse_pipeline_def spec_pipeline_def pipeline_defs split: prod.splits)
qed

text \<open>The tokens of a command and of a pipeline, as they are typed.\<close>

definition scommand_tokens :: "scommand \<Rightarrow> token list" where
  "scommand_tokens c = map (ARG ARG_NORMAL) (cmd_args c) @
     (case redir_out c of None \<Rightarrow> [] | Some f \<Rightarrow> [ARG ARG_OUTPUT f]) @
     (case redir_in c of None \<Rightarrow> [] | Some f \<Rightarrow> [ARG ARG_INPUT f])"

definition pipeline_tokens :: "pipeline \<Rightarrow> token list" where
  "pipeline_tokens p = join_with [PIPE] (map scommand_tokens (scmds p)) @
     (if wait p then [] else [AMP]) @ [EOL]"

lemma foldl_add_args:
  "foldl add_arg c (map (ARG ARG_NORMAL) xs) = c\<lparr>cmd_args := cmd_args c @ xs\<rparr>"
  by (induction xs arbitrary: c) auto

lemma all_arg_scommand_tokens: "t \<in> set (scommand_tokens c) \<Longrightarrow> is_arg t"
  by (auto simp: scommand_tokens_def split: option.splits)

lemma takeWhile_scommand_tokens:
  assumes "\<not> is_arg t"
  shows "takeWhile is_arg (scommand_tokens c @ t # ts) = scommand_tokens c"
    and "dropWhile is_arg (scommand_tokens c @ t # ts) = t # ts"
  using assms all_arg_scommand_tokens [of _ c]
  by simp_all

lemma foldl_scommand_tokens: "foldl add_arg empty_scommand (scommand_tokens c) = c"
  by (cases c) (auto simp: scommand_tokens_def foldl_add_args split: option.splits)

lemma spec_scommand_tokens:
  "\<not> is_arg t \<Longrightarrow> cmd_args c \<noteq> [] \<Longrightarrow> spec_scommand (scommand_tokens c @ t # ts) = Some c"
  by (simp add: spec_scommand_def takeWhile_scommand_tokens foldl_scommand_tokens)

lemma spec_cmds_tokens:
  assumes "\<not> is_arg t" "t \<noteq> PIPE"
  shows "cs \<noteq> [] \<Longrightarrow> \<forall>c\<in>set cs. cmd_args c \<noteq> [] \<Longrightarrow>
     spec_cmds (join_with [PIPE] (map scommand_tokens cs) @ t # ts) = (cs, t # ts)"
proof (induction cs)
  case (Cons c cs)
  show ?case
  proof (cases "cs = []")
    case True
    then show ?thesis using Cons.prems assms
      by (simp add: spec_cmds_last spec_scommand_tokens takeWhile_scommand_tokens)
  next
    case False
    then have "join_with [PIPE] (map scommand_tokens (c # cs)) @ t # ts =
       scommand_tokens c @ PIPE # (join_with [PIPE] (map scommand_tokens cs) @ t # ts)"
      by (simp add: join_with_Cons)
    then show ?thesis using Cons False
      by (simp add: spec_cmds_pipe spec_scommand_tokens takeWhile_scommand_tokens del: join_with.simps)
  qed
qed simp

text \<open>
  C22. Reading back a typed pipeline gives that pipeline. If the lexical analyser behaves as
  \<open>parser.h\<close> documents, the line starts with the tokens of a pipeline of at least one command,
  each with at least a name, then \<open>parse_pipeline\<close> returns exactly that pipeline, its
  \<open>wait\<close> flag included, and stops just after the end of the line.
\<close>

theorem parse_pipeline_roundtrip:
  assumes "parser_ok ops toks"
    and "scmds pl \<noteq> []" and "\<forall>c\<in>set (scmds pl). cmd_args c \<noteq> []"
    and "toks p = pipeline_tokens pl @ rest"
  shows "\<exists>p'. parse_pipeline ops p = Some (Some pl, p') \<and> toks p' = rest"
proof -
  obtain t ts where t: "(if wait pl then [] else [AMP]) @ [EOL] @ rest = t # ts"
      "\<not> is_arg t" "t \<noteq> PIPE" "t = AMP \<longleftrightarrow> \<not> wait pl"
      "tl (dropWhile (\<lambda>x. x \<noteq> EOL) (t # ts)) = rest"
    by (cases "wait pl") auto
  then have "toks p = join_with [PIPE] (map scommand_tokens (scmds pl)) @ t # ts"
    using assms(4) by (simp add: pipeline_tokens_def)
  with spec_cmds_tokens [OF t(2,3) assms(2,3), of ts] assms(2)
  have "spec_pipeline (toks p) = (Some pl, rest)" and "toks p \<noteq> []"
    using t(4,5) by (cases pl; auto simp: spec_pipeline_def)+
  then show ?thesis using parse_pipeline_spec [OF assms(1), of p] by simp
qed

theorem parse_pipeline_roundtrip_witness:
  "parser_ok tok_ops (\<lambda>ts. ts) \<and>
   (\<exists>p'. parse_pipeline tok_ops
       [ARG ARG_NORMAL ''ls'', PIPE, ARG ARG_NORMAL ''wc'', ARG ARG_OUTPUT ''o'', AMP, EOL, OTHER] =
      Some (Some \<lparr>scmds = [\<lparr>cmd_args = [''ls''], redir_in = None, redir_out = None\<rparr>,
                         \<lparr>cmd_args = [''wc''], redir_in = None, redir_out = Some ''o''\<rparr>],
                 wait = False\<rparr>, p') \<and> p' = [OTHER])"
  using parse_pipeline_roundtrip [OF tok_ops_ok, of
      "\<lparr>scmds = [\<lparr>cmd_args = [''ls''], redir_in = None, redir_out = None\<rparr>,
                \<lparr>cmd_args = [''wc''], redir_in = None, redir_out = Some ''o''\<rparr>], wait = False\<rparr>"]
  by (simp add: tok_ops_ok pipeline_tokens_def scommand_tokens_def)

text \<open>
  A line that breaks off after a pipe symbol is not rejected, although \<open>parsing.h\<close> promises a
  null result on error: the commands before the missing one are returned as if the line had ended
  there, and are then run.
\<close>

theorem parse_pipeline_dangling_pipe:
  assumes "parser_ok ops toks"
    and "scmds pl \<noteq> []" and "\<forall>c\<in>set (scmds pl). cmd_args c \<noteq> []" and "wait pl"
    and "toks p = join_with [PIPE] (map scommand_tokens (scmds pl)) @ PIPE # EOL # rest"
  shows "\<exists>p'. parse_pipeline ops p = Some (Some pl, p') \<and> toks p' = rest"
proof -
  have "spec_cmds (join_with [PIPE] (map scommand_tokens cs) @ PIPE # EOL # rest) = (cs, EOL # rest)"
    if "cs \<noteq> []" "\<forall>c\<in>set cs. cmd_args c \<noteq> []" for cs
    using that
  proof (induction cs)
    case (Cons c cs)
    have last: "spec_cmds (EOL # rest) = ([], EOL # rest)"
      by (simp add: spec_cmds_None spec_scommand_def)
    show ?case
    proof (cases "cs = []")
      case True
      then show ?thesis using Cons.prems last
        by (simp add: spec_cmds_pipe spec_scommand_tokens takeWhile_scommand_tokens)
    next
      case False
      then have "join_with [PIPE] (map scommand_tokens (c # cs)) @ PIPE # EOL # rest =
         scommand_tokens c @ PIPE # (join_with [PIPE] (map scommand_tokens cs) @ PIPE # EOL # rest)"
        by (simp add: join_with_Cons)
      then show ?thesis using Cons False
        by (simp add: spec_cmds_pipe spec_scommand_tokens takeWhile_scommand_tokens
            del: join_with.simps)
    qed
  qed simp
  with assms(2-5) have "spec_pipeline (toks p) = (Some pl, rest)" and "toks p \<noteq> []"
    by (cases pl; auto simp: spec_pipeline_def)+
  then show ?thesis using parse_pipeline_spec [OF assms(1), of p] by simp
qed

theorem parse_pipeline_dangling_pipe_witness:
  "parse_pipeline tok_ops [ARG ARG_NORMAL ''ls'', PIPE, EOL] =
     Some (Some \<lparr>scmds = [\<lparr>cmd_args = [''ls''], redir_in = None, redir_out = None\<rparr>], wait = True\<rparr>, [])"
  using parse_pipeline_dangling_pipe [OF tok_ops_ok, of
      "\<lparr>scmds = [\<lparr>cmd_args = [''ls''], redir_in = None, redir_out = None\<rparr>], wait = True\<rparr>"
      "[ARG ARG_NORMAL ''ls'', PIPE, EOL]" "[]"]
  by (simp add: scommand_tokens_def)

end
