(* ===== verification/Shell_Os.thy ===== *)
theory Shell_Os
  imports Parsing
begin

text \<open>
  The services of the operating system that the shell calls, as POSIX documents
  them, over the state of one process: its table of file descriptors, the pipes
  it has created, the children it has started and those not yet waited for. What the
  outside decides (which files can be opened, whether a fork succeeds, which
  child ends first) is the record \<open>os_env\<close>.
\<close>

datatype fdesc = Tty nat | PipeR nat | PipeW nat | RFile string | WFile string

type_synonym fdtab = "int \<Rightarrow> fdesc option"

text \<open>A child either runs a program with a descriptor table, or exits with a failure.\<close>

datatype child = Exec "string list" fdtab string | Exits fdtab string

record os_env =
  open_max :: nat
  readable :: "string \<Rightarrow> bool"
  writable :: "string \<Rightarrow> bool"
  can_exec :: "string \<Rightarrow> bool"
  dir_ok :: "string \<Rightarrow> bool"
  home :: "string option"
  pipe_ok :: "nat \<Rightarrow> bool"
  fork_ok :: "nat \<Rightarrow> bool"
  ends_first :: "nat list \<Rightarrow> nat"

record os =
  fds :: fdtab
  pipes :: nat
  children :: "child list"
  unreaped :: "nat list"
  cwd :: string
  out :: string

definition ERROR :: int where "ERROR = -1"
definition CHILD :: int where "CHILD = 0"
definition NO_FD :: int where "NO_FD = -2"
definition STDIN_FILENO :: int where "STDIN_FILENO = 0"
definition STDOUT_FILENO :: int where "STDOUT_FILENO = 1"

lemmas fd_consts = ERROR_def CHILD_def NO_FD_def STDIN_FILENO_def STDOUT_FILENO_def

text \<open>The lowest descriptor that is free, below the limit of the process.\<close>

definition alloc_fd :: "os_env \<Rightarrow> fdtab \<Rightarrow> int option" where
  "alloc_fd env t = map_option int (List.find (\<lambda>i. t (int i) = None) [0..<open_max env])"

definition sys_open :: "os_env \<Rightarrow> bool \<Rightarrow> fdesc \<Rightarrow> fdtab \<Rightarrow> int \<times> fdtab" where
  "sys_open env allowed d t =
     (case alloc_fd env t of
        Some fd \<Rightarrow> if allowed then (fd, t(fd \<mapsto> d)) else (ERROR, t)
      | None \<Rightarrow> (ERROR, t))"

definition sys_close :: "int \<Rightarrow> fdtab \<Rightarrow> fdtab" where
  "sys_close fd t = t(fd := None)"

definition sys_dup2 :: "int \<Rightarrow> int \<Rightarrow> fdtab \<Rightarrow> fdtab" where
  "sys_dup2 old new t = (case t old of None \<Rightarrow> t | Some d \<Rightarrow> t(new \<mapsto> d))"

text \<open>\<open>pipe\<close> returns the read end and the write end of a new pipe.\<close>

definition sys_pipe :: "os_env \<Rightarrow> os \<Rightarrow> (int \<times> int) option \<times> os" where
  "sys_pipe env s =
     (let r = sys_open env (pipe_ok env (pipes s)) (PipeR (pipes s)) (fds s);
          w = sys_open env (pipe_ok env (pipes s)) (PipeW (pipes s)) (snd r)
      in if fst r = ERROR \<or> fst w = ERROR then (None, s)
         else (Some (fst r, fst w), s\<lparr>fds := snd w, pipes := Suc (pipes s)\<rparr>))"

text \<open>\<open>wait(NULL)\<close> collects one child, whichever ends first; it fails if there is none.\<close>

definition sys_wait :: "os_env \<Rightarrow> os \<Rightarrow> bool \<times> os" where
  "sys_wait env s =
     (if unreaped s = [] then (False, s)
      else (True, s\<lparr>unreaped := remove1 (ends_first env (unreaped s)) (unreaped s)\<rparr>))"

definition env_fair :: "os_env \<Rightarrow> bool" where
  "env_fair env \<longleftrightarrow> (\<forall>ps. ps \<noteq> [] \<longrightarrow> ends_first env ps \<in> set ps)"

definition std_fds :: fdtab where
  "std_fds = (\<lambda>fd. if 0 \<le> fd \<and> fd \<le> 2 then Some (Tty (nat fd)) else None)"

lemma alloc_fd_first:
  assumes "\<forall>j<m. t (int j) \<noteq> None" and "t (int m) = None" and "m < open_max env"
  shows "alloc_fd env t = Some (int m)"
proof -
  have "List.find (\<lambda>i. t (int i) = None) [0..<open_max env] = Some m"
    unfolding find_Some_iff using assms by (intro exI [of _ m]) auto
  then show ?thesis by (simp add: alloc_fd_def)
qed

lemma sys_wait_length:
  "env_fair env \<Longrightarrow> unreaped s \<noteq> [] \<Longrightarrow>
   length (unreaped (snd (sys_wait env s))) = length (unreaped s) - 1"
  by (auto simp: sys_wait_def env_fair_def length_remove1)

end
