(* ===== verification/Builtin.thy ===== *)
theory Builtin
  imports Shell_Os
begin

text \<open>
  The internal commands of the shell, \<open>lab1/builtin.c\<close>. The commands run in the shell
  itself: \<open>exit\<close> ends it (\<open>Inl\<close>), the others return (\<open>Inr\<close>).
\<close>

definition builtin_is_internal :: "scommand \<Rightarrow> bool option" where
  "builtin_is_internal cmd = do {
     cmd_name \<leftarrow> scommand_front cmd;
     Some (if cmd_name = ''cd'' \<or> cmd_name = ''help'' \<or> cmd_name = ''exit'' then True else False) }"

text \<open>The second operand of the conjunction is evaluated only if the first one holds.\<close>

definition builtin_alone :: "pipeline \<Rightarrow> bool option" where
  "builtin_alone p =
     (if pipeline_length p = 1 then do { c \<leftarrow> pipeline_front p; builtin_is_internal c }
      else Some False)"

definition sys_chdir :: "os_env \<Rightarrow> string \<Rightarrow> os \<Rightarrow> bool \<times> os" where
  "sys_chdir env dir s = (if dir_ok env dir then (True, s\<lparr>cwd := dir\<rparr>) else (False, s))"

definition help_text :: string where
  "help_text = ''shellname:YGTB'' @ [CHR 0x0A] @
     ''autores: Gregorio Vilardo, Tadeo Fiorini, Braian Rodriguez, Yamil Ali'' @ [CHR 0x0A] @
     ''Comandos internos -> cd: Cambia de directorio'' @ [CHR 0x0A] @
     '' help:muestra informacion relevante'' @ [CHR 0x0A] @
     '' exit: sale de la shell'' @ [CHR 0x0A]"

definition no_dir_text :: string where
  "no_dir_text = ''No existe el directorio '' @ [CHR 0x0A]"

definition builtin_run :: "os_env \<Rightarrow> scommand \<Rightarrow> os \<Rightarrow> (os + scommand \<times> os) option" where
  "builtin_run env cmd s = do {
     internal \<leftarrow> builtin_is_internal cmd;
     assert_c internal;
     cmd_type \<leftarrow> scommand_front cmd;
     if cmd_type = ''cd'' then
       if scommand_length cmd > 1 then do {
         cmd \<leftarrow> scommand_pop_front cmd;
         filename \<leftarrow> scommand_front cmd;
         let (success, s) = sys_chdir env filename s;
         Some (Inr (cmd, if \<not> success then s\<lparr>out := out s @ no_dir_text\<rparr> else s)) }
       else (case home env of
           Some username \<Rightarrow> Some (Inr (cmd, snd (sys_chdir env username s)))
         | None \<Rightarrow> Some (Inr (cmd, s)))
     else if cmd_type = ''help'' then Some (Inr (cmd, s\<lparr>out := out s @ help_text\<rparr>))
     else if cmd_type = ''exit'' then Some (Inl s)
     else Some (Inr (cmd, s)) }"

lemma builtin_is_internal_eq:
  "cmd_args c \<noteq> [] \<Longrightarrow>
   builtin_is_internal c = Some (hd (cmd_args c) \<in> {''cd'', ''help'', ''exit''})"
  by (auto simp: builtin_is_internal_def scommand_defs)

lemma builtin_alone_eq:
  "\<forall>c\<in>set (scmds p). cmd_args c \<noteq> [] \<Longrightarrow>
   builtin_alone p = Some (\<exists>c. scmds p = [c] \<and> hd (cmd_args c) \<in> {''cd'', ''help'', ''exit''})"
  by (cases "scmds p"; cases "tl (scmds p)")
     (auto simp: builtin_alone_def pipeline_defs builtin_is_internal_eq)

text \<open>A built-in command starts no process and touches no descriptor.\<close>

lemma builtin_run_frame:
  assumes "builtin_run env c s = Some (Inr (c', s'))"
  shows "fds s' = fds s \<and> children s' = children s \<and> unreaped s' = unreaped s \<and> pipes s' = pipes s"
  using assms
  by (auto simp: builtin_run_def sys_chdir_def builtin_is_internal_def bind_eq_Some_conv
      split: if_splits option.splits)

lemma builtin_run_total:
  assumes "cmd_args c \<noteq> []" and "hd (cmd_args c) \<in> {''cd'', ''help'', ''exit''}"
  shows "\<exists>r. builtin_run env c s = Some r \<and>
           ((\<exists>s'. r = Inl s') \<longleftrightarrow> hd (cmd_args c) = ''exit'')"
proof -
  obtain a as where "cmd_args c = a # as" using assms(1) by (cases "cmd_args c") auto
  with assms(2) show ?thesis
    by (cases as)
       (auto simp: builtin_run_def builtin_is_internal_eq scommand_defs sys_chdir_def
         split: option.split)
qed

end
