(* ===== verification/Execute.thy ===== *)
theory Execute
  imports Builtin
begin

text \<open>
  Running a pipeline, \<open>lab1/execute.c\<close>, and the main loop of the shell,
  \<open>lab1/mybash.c\<close>. The shell forks one child per command; what a child does with the
  descriptors it inherits is computed by \<open>child_run\<close>. Results of the form \<open>Inl\<close> are
  calls of \<open>exit\<close>.
\<close>

section \<open>The code\<close>

definition get_fd_redir :: "os_env \<Rightarrow> scommand \<Rightarrow> fdtab \<Rightarrow>
    (fdtab \<times> string) + (int \<times> int \<times> fdtab \<times> string)" where
  "get_fd_redir env scmd t =
     (let inp = (case scommand_get_redir_in scmd of
            Some f \<Rightarrow> (let (fd, t') = sys_open env (readable env f) (RFile f) t
                       in (fd, t', f @ [CHR 0x0A]))
          | None \<Rightarrow> (NO_FD, t, []));
          fd_in = fst inp; t1 = fst (snd inp); text = snd (snd inp)
      in if fd_in = ERROR then Inl (t1, text)
         else let outp = (case scommand_get_redir_out scmd of
                Some f \<Rightarrow> sys_open env (writable env f) (WFile f) t1
              | None \<Rightarrow> (NO_FD, t1))
              in if fst outp = ERROR then Inl (snd outp, text)
                 else Inr (fd_in, fst outp, snd outp, text))"

text \<open>The loop reads the front word, copies it and pops it, \<open>scommand_length\<close> times.\<close>

definition get_argv :: "scommand \<Rightarrow> (string list \<times> scommand) option" where
  "get_argv scmd = drain scommand_front scommand_pop_front (scommand_length scmd) scmd"

definition dup_and_close :: "int \<Rightarrow> int \<Rightarrow> int \<Rightarrow> int \<Rightarrow> fdtab \<Rightarrow> fdtab" where
  "dup_and_close fd_redir_in fd_redir_out fd_in fd_out t =
     (let t = (if fd_redir_out \<noteq> NO_FD
               then sys_close fd_redir_out (sys_dup2 fd_redir_out STDOUT_FILENO t) else t);
          t = (if fd_out \<noteq> NO_FD then sys_close fd_out (sys_dup2 fd_out STDOUT_FILENO t) else t);
          t = (if fd_redir_in \<noteq> NO_FD
               then sys_close fd_redir_in (sys_dup2 fd_redir_in STDIN_FILENO t) else t)
      in if fd_in \<noteq> NO_FD then sys_close fd_in (sys_dup2 fd_in STDIN_FILENO t) else t)"

definition child_run :: "os_env \<Rightarrow> scommand \<Rightarrow> string list \<Rightarrow> bool \<Rightarrow> int \<times> int \<Rightarrow>
    int \<Rightarrow> int \<Rightarrow> fdtab \<Rightarrow> child" where
  "child_run env scmd argv is_pipe pipefd fd_in fd_out t =
     (case get_fd_redir env scmd t of
        Inl (t, text) \<Rightarrow> Exits t text
      | Inr (fd_redir_in, fd_redir_out, t, text) \<Rightarrow>
          (let t = (if is_pipe
                    then sys_close (snd pipefd) (sys_dup2 (snd pipefd) STDOUT_FILENO
                           (sys_close (fst pipefd) t))
                    else t);
               t = dup_and_close fd_redir_in fd_redir_out fd_in fd_out t
           in if argv \<noteq> [] \<and> can_exec env (hd argv) then Exec argv t text else Exits t text))"

definition execute_scmd :: "os_env \<Rightarrow> scommand \<Rightarrow> bool \<Rightarrow> bool \<Rightarrow> int \<Rightarrow> int \<Rightarrow> nat \<Rightarrow> os \<Rightarrow>
    (os + scommand \<times> int \<times> int \<times> nat \<times> os) option" where
  "execute_scmd env scmd is_pipe is_wait fd_in fd_out wait_counter s = do {
     (argv, scmd) \<leftarrow> get_argv scmd;
     let (pipefd, s1) = (if is_pipe then sys_pipe env s else (Some (NO_FD, NO_FD), s));
     Some (case pipefd of
         None \<Rightarrow> Inl s1
       | Some pipefd \<Rightarrow>
           if \<not> fork_ok env (length (children s1)) then Inl s1
           else
             let c = child_run env scmd argv is_pipe pipefd fd_in fd_out (fds s1);
                 s2 = s1\<lparr>children := children s1 @ [c],
                         unreaped := unreaped s1 @ [length (children s1)]\<rparr>
             in if is_pipe
                then Inr (scmd, fst pipefd, fd_out, wait_counter + 1,
                          s2\<lparr>fds := sys_close (snd pipefd) (fds s2)\<rparr>)
                else if fd_in \<noteq> NO_FD
                then Inr (scmd, fd_in, fd_out, wait_counter + 1,
                          s2\<lparr>fds := sys_close fd_in (fds s2)\<rparr>)
                else Inr (scmd, fd_in, fd_out, wait_counter + 1, s2)) }"

fun wait_loop :: "os_env \<Rightarrow> nat \<Rightarrow> os \<Rightarrow> os" where
  "wait_loop env 0 s = s"
| "wait_loop env (Suc n) s = wait_loop env n (snd (sys_wait env s))"

partial_function (option) execute_pipeline_loop ::
  "os_env \<Rightarrow> pipeline \<Rightarrow> int \<Rightarrow> int \<Rightarrow> nat \<Rightarrow> os \<Rightarrow> (os + pipeline \<times> os) option" where
  "execute_pipeline_loop env apipe fd_in fd_out wait_counter s =
     (if pipeline_is_empty apipe then Some (Inr (apipe, s))
      else do {
        scmd \<leftarrow> pipeline_front apipe;
        let is_wait = pipeline_get_wait apipe;
        let is_pipe = (if pipeline_length apipe = 1 then False else True);
        r \<leftarrow> execute_scmd env scmd is_pipe is_wait fd_in fd_out wait_counter s;
        (case r of
           Inl s \<Rightarrow> Some (Inl s)
         | Inr (scmd, fd_in, fd_out, wait_counter, s) \<Rightarrow> do {
             apipe \<leftarrow> pipeline_pop_front apipe;
             execute_pipeline_loop env apipe fd_in fd_out wait_counter
               (if is_wait then if \<not> is_pipe then wait_loop env wait_counter s else s else s) }) })"

definition execute_pipeline ::
  "os_env \<Rightarrow> pipeline \<Rightarrow> os \<Rightarrow> (os + pipeline \<times> os) option" where
  "execute_pipeline env apipe s =
     (if \<not> pipeline_is_empty apipe then do {
        alone \<leftarrow> builtin_alone apipe;
        if alone then do {
          scmd \<leftarrow> pipeline_front apipe;
          r \<leftarrow> builtin_run env scmd s;
          (case r of
             Inl s \<Rightarrow> Some (Inl s)
           | Inr (scmd, s) \<Rightarrow> do {
               apipe \<leftarrow> pipeline_pop_front apipe;
               Some (Inr (apipe, s)) }) }
        else execute_pipeline_loop env apipe NO_FD NO_FD 0 s }
      else Some (Inr (apipe, s)))"

definition show_prompt :: "os \<Rightarrow> os" where
  "show_prompt s = s\<lparr>out := out s @ (if length (cwd s) < 1024 then cwd s @ ''> '' else [])\<rparr>"

partial_function (option) main_loop ::
  "os_env \<Rightarrow> 'p parser_ops \<Rightarrow> 'p \<Rightarrow> os \<Rightarrow> os option" where
  "main_loop env ops p s = do {
     let s = show_prompt s;
     (pipe, p) \<leftarrow> parse_pipeline ops p;
     let quit = parser_at_eof ops p;
     (case pipe of
        None \<Rightarrow> if quit then Some s else main_loop env ops p s
      | Some pl \<Rightarrow> do {
          r \<leftarrow> execute_pipeline env pl s;
          (case r of
             Inl s \<Rightarrow> Some s
           | Inr (pl, s) \<Rightarrow> if quit then Some s else main_loop env ops p s) }) }"

section \<open>The descriptors of a pipeline\<close>

lemma drain_scommand:
  "cmd_args c = xs \<Longrightarrow> drain scommand_front scommand_pop_front (length xs) c =
     Some (xs, c\<lparr>cmd_args := []\<rparr>)"
  by (induction xs arbitrary: c) (auto simp: scommand_defs)

lemma get_argv_eq: "get_argv c = Some (cmd_args c, c\<lparr>cmd_args := []\<rparr>)"
  by (simp add: get_argv_def scommand_length_def drain_scommand)

text \<open>
  The shell's table after \<open>k\<close> commands of a pipeline: the three standard descriptors and the
  read ends of \<open>k\<close> pipes, numbered from \<open>np\<close>.
\<close>

definition pipe_fds :: "nat \<Rightarrow> nat \<Rightarrow> fdtab" where
  "pipe_fds np k = (\<lambda>fd. if 0 \<le> fd \<and> fd \<le> 2 then Some (Tty (nat fd))
                        else if 3 \<le> fd \<and> fd < 3 + int k then Some (PipeR (np + nat (fd - 3)))
                        else None)"

text \<open>
  The table with which the \<open>i\<close>-th command of a pipeline should run: its input is the previous
  pipe, or else the input redirection, or else the terminal; its output is the output
  redirection, or else the next pipe, or else the terminal. Besides, it holds the read ends of
  the pipes that end before its predecessor.
\<close>

definition stage_fds :: "nat \<Rightarrow> nat \<Rightarrow> bool \<Rightarrow> scommand \<Rightarrow> fdtab" where
  "stage_fds np i piped c = (\<lambda>fd.
     if fd = 0 then (if i > 0 then Some (PipeR (np + i - 1))
                     else case redir_in c of Some f \<Rightarrow> Some (RFile f) | None \<Rightarrow> Some (Tty 0))
     else if fd = 1 then (case redir_out c of Some f \<Rightarrow> Some (WFile f)
                          | None \<Rightarrow> if piped then Some (PipeW (np + i)) else Some (Tty 1))
     else if fd = 2 then Some (Tty 2)
     else if 3 \<le> fd \<and> fd < 2 + int i then Some (PipeR (np + nat (fd - 3)))
     else None)"

definition redir_print :: "scommand \<Rightarrow> string" where
  "redir_print c = (case redir_in c of Some f \<Rightarrow> f @ [CHR 0x0A] | None \<Rightarrow> [])"

definition stage_child :: "nat \<Rightarrow> nat \<Rightarrow> bool \<Rightarrow> scommand \<Rightarrow> child" where
  "stage_child np i piped c = Exec (cmd_args c) (stage_fds np i piped c) (redir_print c)"

definition cmd_runnable :: "os_env \<Rightarrow> scommand \<Rightarrow> bool" where
  "cmd_runnable env c \<longleftrightarrow> cmd_args c \<noteq> [] \<and> can_exec env (hd (cmd_args c)) \<and>
     (\<forall>f. redir_in c = Some f \<longrightarrow> readable env f) \<and> (\<forall>f. redir_out c = Some f \<longrightarrow> writable env f)"

definition env_allows :: "os_env \<Rightarrow> scommand list \<Rightarrow> bool" where
  "env_allows env cs \<longleftrightarrow> length cs + 7 < open_max env \<and> (\<forall>c\<in>set cs. cmd_runnable env c) \<and>
     (\<forall>i. pipe_ok env i) \<and> (\<forall>i. fork_ok env i)"

lemma alloc_pipe_fds:
  shows "k + 3 < open_max env \<Longrightarrow> alloc_fd env (pipe_fds np k) = Some (int k + 3)"
    and "k + 4 < open_max env \<Longrightarrow>
      alloc_fd env ((pipe_fds np k)(int k + 3 \<mapsto> d)) = Some (int k + 4)"
    and "k + 5 < open_max env \<Longrightarrow>
      alloc_fd env ((pipe_fds np k)(int k + 3 \<mapsto> d, int k + 4 \<mapsto> e)) = Some (int k + 5)"
    and "k + 6 < open_max env \<Longrightarrow>
      alloc_fd env ((pipe_fds np k)(int k + 3 \<mapsto> d, int k + 4 \<mapsto> e, int k + 5 \<mapsto> f)) =
        Some (int k + 6)"
  using alloc_fd_first [of "k + 3" "pipe_fds np k" env]
    alloc_fd_first [of "k + 4" "(pipe_fds np k)(int k + 3 \<mapsto> d)" env]
    alloc_fd_first [of "k + 5" "(pipe_fds np k)(int k + 3 \<mapsto> d, int k + 4 \<mapsto> e)" env]
    alloc_fd_first [of "k + 6" "(pipe_fds np k)(int k + 3 \<mapsto> d, int k + 4 \<mapsto> e, int k + 5 \<mapsto> f)" env]
  by (auto simp: pipe_fds_def)

lemma sys_pipe_pipe_fds:
  assumes "fds s = pipe_fds np k" "pipes s = np + k" "k + 4 < open_max env" "pipe_ok env (pipes s)"
  shows "sys_pipe env s = (Some (int k + 3, int k + 4),
     s\<lparr>fds := (pipe_fds np k)(int k + 3 \<mapsto> PipeR (np + k), int k + 4 \<mapsto> PipeW (np + k)),
       pipes := Suc (np + k)\<rparr>)"
  using assms by (simp add: sys_pipe_def sys_open_def alloc_pipe_fds Let_def ERROR_def add.commute)

lemma dup_and_close_table:
  assumes "\<forall>x\<in>{rin, rout, fin}. x = NO_FD \<or> 3 \<le> x \<and> t x \<noteq> None"
    and "rin = NO_FD \<or> rin \<noteq> rout \<and> rin \<noteq> fin" and "fin = NO_FD \<or> fin \<noteq> rout"
  shows "dup_and_close rin rout fin NO_FD t =
     (\<lambda>fd. if 3 \<le> fd \<and> fd \<in> {rin, rout, fin} then None
           else if fd = 0 then (if fin \<noteq> NO_FD then t fin else if rin \<noteq> NO_FD then t rin else t 0)
           else if fd = 1 then (if rout \<noteq> NO_FD then t rout else t 1)
           else t fd)"
proof -
  have NO: "NO_FD < 0" by (simp add: NO_FD_def)
  have dc: "sys_close x (sys_dup2 x y u) = u(y := u x, x := None)" if "u x \<noteq> None" for x y u
    using that by (auto simp: sys_close_def sys_dup2_def)
  have ro: "rout \<noteq> NO_FD \<Longrightarrow> t rout \<noteq> None \<and> 3 \<le> rout"
    and ri: "rin \<noteq> NO_FD \<Longrightarrow> t rin \<noteq> None \<and> 3 \<le> rin \<and> rin \<noteq> rout \<and> rin \<noteq> fin"
    and fi: "fin \<noteq> NO_FD \<Longrightarrow> t fin \<noteq> None \<and> 3 \<le> fin \<and> fin \<noteq> rout"
    using assms by auto
  show ?thesis
    by (cases "rout = NO_FD"; cases "rin = NO_FD"; cases "fin = NO_FD")
       (use NO ro ri fi in \<open>auto simp: dup_and_close_def Let_def dc STDIN_FILENO_def
          STDOUT_FILENO_def fun_eq_iff\<close>)
qed

text \<open>The next two descriptors that \<open>open\<close> would return.\<close>

definition next_two :: "os_env \<Rightarrow> fdtab \<Rightarrow> int \<Rightarrow> bool" where
  "next_two env t a \<longleftrightarrow> 3 \<le> a \<and> t a = None \<and> t (a + 1) = None \<and> alloc_fd env t = Some a \<and>
     (\<forall>d. alloc_fd env (t(a \<mapsto> d)) = Some (a + 1))"

lemma get_fd_redir_eq:
  assumes "cmd_runnable env c" "next_two env t a" "redir_in c' = redir_in c" "redir_out c' = redir_out c"
  shows "get_fd_redir env c' t = Inr
     (if redir_in c = None then NO_FD else a,
      if redir_out c = None then NO_FD else if redir_in c = None then a else a + 1,
      (case redir_in c of
         None \<Rightarrow> (case redir_out c of None \<Rightarrow> t | Some g \<Rightarrow> t(a \<mapsto> WFile g))
       | Some f \<Rightarrow> (case redir_out c of None \<Rightarrow> t(a \<mapsto> RFile f)
           | Some g \<Rightarrow> t(a \<mapsto> RFile f, a + 1 \<mapsto> WFile g))),
      redir_print c)"
  using assms
  by (cases "redir_in c"; cases "redir_out c")
     (auto simp: get_fd_redir_def sys_open_def Let_def cmd_runnable_def next_two_def fd_consts
        redir_print_def)

definition child_fds :: "scommand \<Rightarrow> fdtab \<Rightarrow> bool \<Rightarrow> int \<times> int \<Rightarrow> int \<Rightarrow> fdtab" where
  "child_fds c t is_pipe pfd fd_in = (\<lambda>fd.
     if fd = 0 then (if fd_in \<noteq> NO_FD then t fd_in
                     else case redir_in c of Some f \<Rightarrow> Some (RFile f) | None \<Rightarrow> t 0)
     else if fd = 1 then (case redir_out c of Some f \<Rightarrow> Some (WFile f)
                          | None \<Rightarrow> if is_pipe then t (snd pfd) else t 1)
     else if 3 \<le> fd \<and> (fd = fd_in \<or> is_pipe \<and> (fd = fst pfd \<or> fd = snd pfd)) then None
     else t fd)"

lemma child_run_eq:
  assumes run: "cmd_runnable env c" and nt: "next_two env t a"
    and c': "redir_in c' = redir_in c" "redir_out c' = redir_out c"
    and fin: "fd_in = NO_FD \<or> 3 \<le> fd_in \<and> t fd_in \<noteq> None"
    and pfd: "is_pipe \<Longrightarrow> 3 \<le> fst pfd \<and> 3 \<le> snd pfd \<and> t (snd pfd) \<noteq> None \<and> fst pfd \<noteq> snd pfd \<and>
                fd_in \<noteq> fst pfd \<and> fd_in \<noteq> snd pfd \<and> t (fst pfd) \<noteq> None"
  shows "child_run env c' (cmd_args c) is_pipe pfd fd_in NO_FD t =
           Exec (cmd_args c) (child_fds c t is_pipe pfd fd_in) (redir_print c)"
proof -
  let ?rin = "if redir_in c = None then NO_FD else a"
  let ?rout = "if redir_out c = None then NO_FD else if redir_in c = None then a else a + 1"
  let ?t = "case redir_in c of
         None \<Rightarrow> (case redir_out c of None \<Rightarrow> t | Some g \<Rightarrow> t(a \<mapsto> WFile g))
       | Some f \<Rightarrow> (case redir_out c of None \<Rightarrow> t(a \<mapsto> RFile f)
           | Some g \<Rightarrow> t(a \<mapsto> RFile f, a + 1 \<mapsto> WFile g))"
  let ?u = "if is_pipe then ?t(fst pfd := None, 1 := ?t (snd pfd), snd pfd := None) else ?t"
  have a: "3 \<le> a" "t a = None" "t (a + 1) = None" using nt by (auto simp: next_two_def)
  have fin_ne: "fd_in \<noteq> a" "fd_in \<noteq> a + 1" "fd_in \<noteq> 1" using a fin by (auto simp: NO_FD_def)
  have pfd_ne: "is_pipe \<Longrightarrow> fst pfd \<notin> {a, a + 1} \<and> snd pfd \<notin> {a, a + 1} \<and>
      a \<notin> {fst pfd, snd pfd} \<and> a + 1 \<notin> {fst pfd, snd pfd}"
    using a pfd by auto
  have dup: "(if is_pipe then sys_close (snd pfd) (sys_dup2 (snd pfd) STDOUT_FILENO
                 (sys_close (fst pfd) ?t)) else ?t) = ?u"
  proof (cases is_pipe)
    case True
    with pfd pfd_ne have "?t (snd pfd) \<noteq> None" "snd pfd \<noteq> fst pfd"
      by (auto split: option.split)
    with True show ?thesis
      by (auto simp: sys_close_def sys_dup2_def STDOUT_FILENO_def simp del: fun_upd_apply) (auto simp: fun_upd_def)
  qed simp
  have "dup_and_close ?rin ?rout fd_in NO_FD ?u = child_fds c t is_pipe pfd fd_in"
  proof (subst dup_and_close_table)
    show "\<forall>x\<in>{?rin, ?rout, fd_in}. x = NO_FD \<or> 3 \<le> x \<and> ?u x \<noteq> None"
      using a fin pfd fin_ne pfd_ne
      by (cases "redir_in c"; cases "redir_out c"; cases is_pipe) (simp_all add: fun_upd_def)
    show "?rin = NO_FD \<or> ?rin \<noteq> ?rout \<and> ?rin \<noteq> fd_in" "fd_in = NO_FD \<or> fd_in \<noteq> ?rout"
      using a fin_ne by (auto simp: NO_FD_def)
    show "(\<lambda>fd. if 3 \<le> fd \<and> fd \<in> {?rin, ?rout, fd_in} then None
           else if fd = 0 then (if fd_in \<noteq> NO_FD then ?u fd_in
                                else if ?rin \<noteq> NO_FD then ?u ?rin else ?u 0)
           else if fd = 1 then (if ?rout \<noteq> NO_FD then ?u ?rout else ?u 1)
           else ?u fd) = child_fds c t is_pipe pfd fd_in"
      unfolding child_fds_def fun_eq_iff
      using a fin pfd fin_ne pfd_ne
      by (cases "redir_in c"; cases "redir_out c"; cases is_pipe)
         (simp_all add: NO_FD_def, auto)
  qed
  then show ?thesis
    using run unfolding child_run_def get_fd_redir_eq [OF run nt c']
    by (simp only: sum.case prod.case Let_def dup) (simp add: cmd_runnable_def)
qed

lemma next_two_pipe_fds:
  "k + 4 < open_max env \<Longrightarrow> next_two env (pipe_fds np k) (int k + 3)"
  "k + 6 < open_max env \<Longrightarrow>
   next_two env ((pipe_fds np k)(int k + 3 \<mapsto> d, int k + 4 \<mapsto> e)) (int k + 5)"
  using alloc_pipe_fds [of k env np]
  by (auto simp: next_two_def pipe_fds_def add.assoc)

definition stage_in :: "nat \<Rightarrow> int" where
  "stage_in i = (if i = 0 then NO_FD else int i + 2)"

lemma stage_in_pipe_fds:
  "stage_in i = NO_FD \<or> 3 \<le> stage_in i \<and> pipe_fds np i (stage_in i) \<noteq> None"
  "stage_in i < int i + 3"
  by (auto simp: stage_in_def pipe_fds_def NO_FD_def)

lemma stage_fds_eq:
  "child_fds c (pipe_fds np i) False pfd (stage_in i) = stage_fds np i False c"
  "child_fds c ((pipe_fds np i)(int i + 3 \<mapsto> PipeR (np + i), int i + 4 \<mapsto> PipeW (np + i))) True
     (int i + 3, int i + 4) (stage_in i) = stage_fds np i True c"
  by (auto simp: child_fds_def stage_fds_def stage_in_def pipe_fds_def NO_FD_def fun_eq_iff
      nat_add_distrib split: option.split)

lemma execute_scmd_last:
  assumes "env_allows env cs" "c \<in> set cs" "i \<le> length cs" "fds s = pipe_fds np i"
  shows "execute_scmd env c False w (stage_in i) NO_FD n s =
    Some (Inr (c\<lparr>cmd_args := []\<rparr>, stage_in i, NO_FD, n + 1,
      s\<lparr>fds := pipe_fds np (i - 1), children := children s @ [stage_child np i False c],
        unreaped := unreaped s @ [length (children s)]\<rparr>))"
proof -
  have run: "cmd_runnable env c" and lim: "i + 4 < open_max env" and fk: "\<And>k. fork_ok env k"
    using assms(1-3) by (auto simp: env_allows_def)
  have "child_run env (c\<lparr>cmd_args := []\<rparr>) (cmd_args c) False (NO_FD, NO_FD) (stage_in i) NO_FD
      (pipe_fds np i) = stage_child np i False c"
    using child_run_eq [OF run next_two_pipe_fds(1) [OF lim, of np], where c' = "c\<lparr>cmd_args := []\<rparr>"
        and fd_in = "stage_in i" and is_pipe = False] stage_in_pipe_fds(1) [of i np]
    by (simp add: stage_child_def stage_fds_eq)
  moreover have "stage_in i \<noteq> NO_FD \<Longrightarrow> sys_close (stage_in i) (pipe_fds np i) = pipe_fds np (i - 1)"
    and "stage_in i = NO_FD \<Longrightarrow> pipe_fds np i = pipe_fds np (i - 1)"
    by (auto simp: stage_in_def sys_close_def pipe_fds_def NO_FD_def fun_eq_iff of_nat_diff)
  ultimately show ?thesis
    using assms(4) fk
    by (cases s; cases "stage_in i = NO_FD") (simp_all add: execute_scmd_def get_argv_eq Let_def)
qed

lemma execute_scmd_piped:
  assumes "env_allows env cs" "c \<in> set cs" "i < length cs" "fds s = pipe_fds np i" "pipes s = np + i"
  shows "execute_scmd env c True w (stage_in i) NO_FD n s =
    Some (Inr (c\<lparr>cmd_args := []\<rparr>, stage_in (Suc i), NO_FD, n + 1,
      s\<lparr>fds := pipe_fds np (Suc i), pipes := np + Suc i,
        children := children s @ [stage_child np i True c],
        unreaped := unreaped s @ [length (children s)]\<rparr>))"
proof -
  let ?t = "(pipe_fds np i)(int i + 3 \<mapsto> PipeR (np + i), int i + 4 \<mapsto> PipeW (np + i))"
  have run: "cmd_runnable env c" and lim: "i + 6 < open_max env" and fk: "\<And>k. fork_ok env k"
    and pk: "\<And>k. pipe_ok env k"
    using assms(1-3) by (auto simp: env_allows_def)
  have "stage_in i = NO_FD \<or> 3 \<le> stage_in i \<and> ?t (stage_in i) \<noteq> None"
    using stage_in_pipe_fds(1) [of i np] by auto
  then have "child_run env (c\<lparr>cmd_args := []\<rparr>) (cmd_args c) True (int i + 3, int i + 4) (stage_in i)
      NO_FD ?t = stage_child np i True c"
    using child_run_eq [OF run next_two_pipe_fds(2) [OF lim, of np "PipeR (np + i)" "PipeW (np + i)"],
        where c' = "c\<lparr>cmd_args := []\<rparr>" and fd_in = "stage_in i" and is_pipe = True
        and pfd = "(int i + 3, int i + 4)"]
      stage_in_pipe_fds(2) [of i] by (simp add: stage_child_def stage_fds_eq)
  moreover have "sys_close (int i + 4) ?t = pipe_fds np (Suc i)"
    by (auto simp: sys_close_def pipe_fds_def fun_eq_iff)
  moreover have "stage_in (Suc i) = int i + 3" by (simp add: stage_in_def)
  ultimately show ?thesis
    using assms(4,5) fk pk lim
    by (simp add: execute_scmd_def get_argv_eq Let_def sys_pipe_pipe_fds [where k = i and np = np])
qed

lemma execute_pipeline_loop_step:
  "execute_scmd env c (cs \<noteq> []) w fin fout n s = Some (Inr (c', fin', fout', n', s')) \<Longrightarrow>
   execute_pipeline_loop env \<lparr>scmds = c # cs, wait = w\<rparr> fin fout n s =
     execute_pipeline_loop env \<lparr>scmds = cs, wait = w\<rparr> fin' fout' n'
       (if w \<and> cs = [] then wait_loop env n' s' else s')"
  by (cases "cs = []"; cases w) (subst execute_pipeline_loop.simps; simp add: pipeline_defs)+

lemma execute_pipeline_loop_nil:
  "execute_pipeline_loop env \<lparr>scmds = [], wait = w\<rparr> fin fout n s =
     Some (Inr (\<lparr>scmds = [], wait = w\<rparr>, s))"
  by (subst execute_pipeline_loop.simps) simp

text \<open>The state after the commands from the \<open>i\<close>-th one on have been started.\<close>

definition started :: "nat \<Rightarrow> nat \<Rightarrow> scommand list \<Rightarrow> os \<Rightarrow> os" where
  "started np i cs s = s\<lparr>fds := pipe_fds np (i + length cs - 2), pipes := np + i + length cs - 1,
     children := children s @ map (\<lambda>k. stage_child np (i + k) (k < length cs - 1) (cs ! k)) [0..<length cs],
     unreaped := unreaped s @ [length (children s)..<length (children s) + length cs]\<rparr>"

lemma started_Cons:
  assumes "cs \<noteq> []"
  shows "started np (Suc i) cs (s\<lparr>fds := t, pipes := m,
      children := children s @ [stage_child np i True c],
      unreaped := unreaped s @ [length (children s)]\<rparr>) = started np i (c # cs) s"
proof -
  have "map (\<lambda>k. stage_child np (i + k) (k < length cs) ((c # cs) ! k)) [0..<Suc (length cs)] =
      stage_child np i True c #
      map (\<lambda>k. stage_child np (Suc i + k) (k < length cs - 1) (cs ! k)) [0..<length cs]"
    using assms by (simp add: upt_conv_Cons map_Suc_upt [symmetric] comp_def del: upt_Suc)
      (auto simp: less_diff_conv)
  moreover have "[length (children s)..<length (children s) + length (c # cs)] =
      length (children s) # [Suc (length (children s))..<Suc (length (children s)) + length cs]"
    by (simp add: upt_conv_Cons del: upt_Suc)
  ultimately show ?thesis
    using assms by (cases s) (simp add: started_def del: upt_Suc)
qed

lemma execute_pipeline_loop_eq:
  assumes env: "env_allows env cs0"
  shows "set cs \<subseteq> set cs0 \<Longrightarrow> i + length cs = length cs0 \<Longrightarrow> cs \<noteq> [] \<Longrightarrow>
    fds s = pipe_fds np i \<Longrightarrow> pipes s = np + i \<Longrightarrow>
    execute_pipeline_loop env \<lparr>scmds = cs, wait = w\<rparr> (stage_in i) NO_FD i s =
      Some (Inr (\<lparr>scmds = [], wait = w\<rparr>,
        if w then wait_loop env (length cs0) (started np i cs s) else started np i cs s))"
proof (induction cs arbitrary: i s)
  case (Cons c cs)
  have le: "i \<le> length cs0" using Cons.prems(2) by simp
  show ?case
  proof (cases "cs = []")
    case True
    have "execute_scmd env c False w (stage_in i) NO_FD i s =
      Some (Inr (c\<lparr>cmd_args := []\<rparr>, stage_in i, NO_FD, i + 1, started np i [c] s))"
      using execute_scmd_last [OF env _ le, of c s np w i] Cons.prems(1,4,5)
      by (cases s) (simp add: started_def)
    then show ?thesis
      using True Cons.prems
      by (subst execute_pipeline_loop_step) (auto simp: execute_pipeline_loop_nil)
  next
    case False
    let ?s = "s\<lparr>fds := pipe_fds np (Suc i), pipes := np + Suc i,
        children := children s @ [stage_child np i True c],
        unreaped := unreaped s @ [length (children s)]\<rparr>"
    have "execute_scmd env c True w (stage_in i) NO_FD i s =
      Some (Inr (c\<lparr>cmd_args := []\<rparr>, stage_in (Suc i), NO_FD, i + 1, ?s))"
      using execute_scmd_piped [OF env, of c i s np w i] Cons.prems by simp
    moreover have "execute_pipeline_loop env \<lparr>scmds = cs, wait = w\<rparr> (stage_in (Suc i)) NO_FD (i + 1) ?s =
        Some (Inr (\<lparr>scmds = [], wait = w\<rparr>,
          if w then wait_loop env (length cs0) (started np i (c # cs) s)
          else started np i (c # cs) s))"
      using Cons.IH [of "Suc i" ?s] Cons.prems False unfolding started_Cons [OF False] by simp
    ultimately show ?thesis
      using False execute_pipeline_loop_step [of env c cs w "stage_in i" NO_FD i s] by simp
  qed
qed simp

lemma wait_loop_frame:
  "fds (wait_loop env n s) = fds s \<and> children (wait_loop env n s) = children s \<and>
   pipes (wait_loop env n s) = pipes s"
  by (induction n arbitrary: s) (auto simp: sys_wait_def)

lemma wait_loop_length:
  assumes "env_fair env"
  shows "length (unreaped (wait_loop env n s)) = length (unreaped s) - n"
proof (induction n arbitrary: s)
  case (Suc n)
  show ?case
  proof (cases "unreaped s = []")
    case True
    then show ?thesis using Suc.IH [of s] by (simp add: sys_wait_def)
  next
    case False
    with Suc.IH show ?thesis by (simp add: sys_wait_length [OF assms])
  qed
qed simp

lemma pipe_fds_0: "pipe_fds np 0 = std_fds"
  by (auto simp: pipe_fds_def std_fds_def)

lemma execute_pipeline_eq:
  assumes env: "env_allows env (scmds pl)" and nb: "builtin_alone pl = Some False"
    and ne: "scmds pl \<noteq> []" and std: "fds s = std_fds"
  shows "execute_pipeline env pl s = Some (Inr (pl\<lparr>scmds := []\<rparr>,
      if wait pl then wait_loop env (length (scmds pl)) (started (pipes s) 0 (scmds pl) s)
      else started (pipes s) 0 (scmds pl) s))"
proof -
  have "execute_pipeline_loop env \<lparr>scmds = scmds pl, wait = wait pl\<rparr> (stage_in 0) NO_FD 0 s =
      Some (Inr (\<lparr>scmds = [], wait = wait pl\<rparr>,
        if wait pl then wait_loop env (length (scmds pl)) (started (pipes s) 0 (scmds pl) s)
        else started (pipes s) 0 (scmds pl) s))"
    by (rule execute_pipeline_loop_eq [OF env]) (use ne std in \<open>simp_all add: pipe_fds_0\<close>)
  then show ?thesis
    using ne nb by (cases pl) (simp add: execute_pipeline_def stage_in_def)
qed

text \<open>
  C2. The plumbing of a pipeline. If every system call succeeds and the commands can be run,
  \<open>execute_pipeline\<close> starts exactly one child per command, in order, and the \<open>i\<close>-th one runs its
  words with the descriptors of \<open>stage_fds\<close>: its input is the pipe written by its
  predecessor, its output the pipe read by its successor or the file of its redirection.
\<close>

theorem execute_pipeline_children:
  assumes "env_allows env (scmds pl)" and "builtin_alone pl = Some False" and "scmds pl \<noteq> []"
    and "fds s = std_fds"
  shows "\<exists>pl' s'. execute_pipeline env pl s = Some (Inr (pl', s')) \<and> scmds pl' = [] \<and>
     children s' = children s @
       map (\<lambda>i. stage_child (pipes s) i (i < length (scmds pl) - 1) (scmds pl ! i)) [0..<length (scmds pl)]"
  using execute_pipeline_eq [OF assms] by (simp add: wait_loop_frame started_def)

text \<open>
  C36. The shell leaks descriptors. After a pipeline of \<open>n\<close> commands the shell's own table is the
  standard one with, besides, the read ends of the first \<open>n - 2\<close> of the pipes it made, at the
  descriptors from 3 on: only the read end of the last pipe is closed. So the table is back to
  the standard one exactly for pipelines of at most two commands.
\<close>

theorem execute_pipeline_leak:
  assumes "env_allows env (scmds pl)" and "builtin_alone pl = Some False" and "scmds pl \<noteq> []"
    and "fds s = std_fds"
  shows "\<exists>pl' s'. execute_pipeline env pl s = Some (Inr (pl', s')) \<and>
     pipes s' = pipes s + length (scmds pl) - 1 \<and>
     (\<forall>fd\<le>2. fds s' fd = std_fds fd) \<and>
     (\<forall>i<length (scmds pl) - 2. fds s' (3 + int i) = Some (PipeR (pipes s + i))) \<and>
     (\<forall>fd\<ge>3 + int (length (scmds pl) - 2). fds s' fd = None) \<and>
     card {fd. fd > 2 \<and> fds s' fd \<noteq> None} = length (scmds pl) - 2 \<and>
     (fds s' = std_fds \<longleftrightarrow> length (scmds pl) \<le> 2)"
proof -
  let ?k = "length (scmds pl) - 2"
  have "{fd. fd > 2 \<and> pipe_fds np ?k fd \<noteq> None} = {3..<3 + int ?k}" for np
    by (auto simp: pipe_fds_def)
  moreover have "pipe_fds np ?k = std_fds \<longleftrightarrow> ?k = 0" for np
  proof
    assume "pipe_fds np ?k = std_fds"
    then have "pipe_fds np ?k 3 = None" by (simp add: std_fds_def)
    then show "?k = 0" by (simp add: pipe_fds_def split: if_splits)
  qed (simp add: pipe_fds_0)
  moreover have "(\<forall>fd\<le>2. pipe_fds np ?k fd = std_fds fd) \<and>
      (\<forall>i<?k. pipe_fds np ?k (3 + int i) = Some (PipeR (np + i))) \<and>
      (\<forall>fd\<ge>3 + int ?k. pipe_fds np ?k fd = None)" for np
    by (auto simp: pipe_fds_def std_fds_def)
  ultimately show ?thesis
    using execute_pipeline_eq [OF assms] by (simp add: wait_loop_frame started_def)
qed

text \<open>
  A foreground pipeline is waited for as many times as it has commands: if no child was left
  over from before, none is left when \<open>execute_pipeline\<close> returns; a background pipeline
  leaves all its children running.
\<close>

theorem execute_pipeline_waits:
  assumes "env_allows env (scmds pl)" and "builtin_alone pl = Some False" and "scmds pl \<noteq> []"
    and "fds s = std_fds" and "env_fair env" and "unreaped s = []"
  shows "\<exists>pl' s'. execute_pipeline env pl s = Some (Inr (pl', s')) \<and>
     length (unreaped s') = (if wait pl then 0 else length (scmds pl))"
  using execute_pipeline_eq [OF assms(1-4)] assms(6)
  by (simp add: wait_loop_length [OF assms(5)] started_def)

lemma wait_loop_hd:
  assumes "ends_first env = hd"
  shows "unreaped (wait_loop env n s) = drop n (unreaped s)"
proof (induction n arbitrary: s)
  case (Suc n)
  then show ?case
    using assms by (cases "unreaped s") (auto simp: sys_wait_def)
qed simp

text \<open>
  \<open>wait(NULL)\<close> does not wait for the pipeline. When at least as many background children are
  outstanding as the pipeline has commands, and they end first, \<open>execute_pipeline\<close>
  returns from a foreground pipeline while every command of it is still running.
\<close>

theorem execute_pipeline_waits_for_others:
  assumes "env_allows env (scmds pl)" and "builtin_alone pl = Some False" and "scmds pl \<noteq> []"
    and "fds s = std_fds" and "wait pl" and "ends_first env = hd"
    and "length (scmds pl) \<le> length (unreaped s)"
  shows "\<exists>pl' s'. execute_pipeline env pl s = Some (Inr (pl', s')) \<and>
     set [length (children s)..<length (children s')] \<subseteq> set (unreaped s') \<and>
     length (children s') = length (children s) + length (scmds pl)"
  using execute_pipeline_eq [OF assms(1-4)] assms(5,7)
  by (auto simp: wait_loop_hd [OF assms(6)] wait_loop_frame started_def)

text \<open>An environment where everything works, for the instances below.\<close>

definition good_env :: os_env where
  "good_env = \<lparr>open_max = 20, readable = (\<lambda>_. True), writable = (\<lambda>_. True), can_exec = (\<lambda>_. True),
     dir_ok = (\<lambda>_. True), home = Some ''/'', pipe_ok = (\<lambda>_. True), fork_ok = (\<lambda>_. True),
     ends_first = hd\<rparr>"

definition start_os :: os where
  "start_os = \<lparr>fds = std_fds, pipes = 0, children = [], unreaped = [], cwd = ''/'', out = []\<rparr>"

definition three_cmds :: pipeline where
  "three_cmds = \<lparr>scmds = [\<lparr>cmd_args = [''a''], redir_in = Some ''f'', redir_out = None\<rparr>,
      \<lparr>cmd_args = [''b''], redir_in = None, redir_out = None\<rparr>,
      \<lparr>cmd_args = [''c''], redir_in = None, redir_out = None\<rparr>], wait = True\<rparr>"

lemma three_cmds_facts:
  "env_allows good_env (scmds three_cmds)" "builtin_alone three_cmds = Some False"
  "scmds three_cmds \<noteq> []" "fds start_os = std_fds" "env_fair good_env" "unreaped start_os = []"
  by (auto simp: env_allows_def cmd_runnable_def good_env_def three_cmds_def start_os_def
      builtin_alone_def pipeline_defs env_fair_def)

theorem execute_pipeline_children_witness:
  "\<exists>pl' s'. execute_pipeline good_env three_cmds start_os = Some (Inr (pl', s')) \<and>
     length (children s') = 3"
  using execute_pipeline_children [OF three_cmds_facts(1-4)]
  by (auto simp: start_os_def three_cmds_def)

theorem execute_pipeline_waits_for_others_witness:
  "\<exists>pl' s'. execute_pipeline good_env three_cmds (start_os\<lparr>unreaped := [7, 8, 9]\<rparr>) =
       Some (Inr (pl', s')) \<and> set [0..<length (children s')] \<subseteq> set (unreaped s') \<and>
     length (children s') = 3"
  using execute_pipeline_waits_for_others [of good_env three_cmds "start_os\<lparr>unreaped := [7, 8, 9]\<rparr>"]
    three_cmds_facts
  by (simp add: three_cmds_def good_env_def start_os_def numeral_3_eq_3)

theorem execute_pipeline_leak_witness:
  "\<exists>pl' s'. execute_pipeline good_env three_cmds start_os = Some (Inr (pl', s')) \<and>
     fds s' 3 = Some (PipeR 0) \<and> card {fd. fd > 2 \<and> fds s' fd \<noteq> None} = 1 \<and> fds s' \<noteq> std_fds"
  using execute_pipeline_leak [OF three_cmds_facts(1-4)]
  by (auto simp: three_cmds_def start_os_def)

theorem execute_pipeline_waits_witness:
  "\<exists>pl' s'. execute_pipeline good_env three_cmds start_os = Some (Inr (pl', s')) \<and> unreaped s' = []"
  using execute_pipeline_waits [OF three_cmds_facts]
  by (auto simp: three_cmds_def)

end
