(* ===== verification/Fat_Util.thy ===== *)
theory Fat_Util
  imports Prelude
begin

text \<open>
  The utilities of the FAT driver, \<open>lab4/esqueleto/fat_util.c\<close> and \<open>fat_util.h\<close>: reading and
  writing the volume with retries, the date format of FAT, and small helpers; and
  the error numbers they are stated with.

  The volume is a file of the host: a list of bytes. A call of \<open>pread\<close> or \<open>pwrite\<close>
  transfers everything unless the environment decides otherwise: the list \<open>faults\<close> says, call by
  call, how many bytes are transferred at most, or with which error the call fails.
  Offsets (\<open>off_t\<close>) are integers and may be negative; sizes (\<open>size_t\<close>) are natural
  numbers, and the one subtraction that can wrap around is written out.
\<close>

section \<open>Errors\<close>

definition EIO :: int where "EIO = 5"
definition ENOENT :: int where "ENOENT = 2"
definition EINTR :: int where "EINTR = 4"
definition ENOTDIR :: int where "ENOTDIR = 20"
definition EISDIR :: int where "EISDIR = 21"
definition EINVAL :: int where "EINVAL = 22"
definition ENOSPC :: int where "ENOSPC = 28"
definition ENOTEMPTY :: int where "ENOTEMPTY = 39"
definition EOVERFLOW :: int where "EOVERFLOW = 75"

lemmas errno_defs = EIO_def ENOENT_def EINTR_def ENOTDIR_def EISDIR_def EINVAL_def ENOSPC_def
  ENOTEMPTY_def EOVERFLOW_def

section \<open>The volume and its system calls\<close>

datatype fault = Short nat | Fail int

record io =
  content :: "u8 list"
  faults :: "fault list"
  errno :: int

definition sys_pread :: "nat \<Rightarrow> int \<Rightarrow> 'a io_scheme \<Rightarrow> int \<times> u8 list \<times> 'a io_scheme" where
  "sys_pread count offset s =
     (if offset < 0 then (-1, [], s\<lparr>errno := EINVAL\<rparr>)
      else let avail = take count (drop (nat offset) (content s))
           in case faults s of
                [] \<Rightarrow> (int (length avail), avail, s)
              | Short k # fs \<Rightarrow> (int (length (take k avail)), take k avail, s\<lparr>faults := fs\<rparr>)
              | Fail e # fs \<Rightarrow> (-1, [], s\<lparr>faults := fs, errno := e\<rparr>))"

text \<open>Writing past the end of the volume extends it, with zeros in a gap.\<close>

definition write_at :: "nat \<Rightarrow> u8 list \<Rightarrow> u8 list \<Rightarrow> u8 list" where
  "write_at offset bytes disk =
     take offset (disk @ replicate (offset - length disk) 0) @ bytes @ drop (offset + length bytes) disk"

definition sys_pwrite :: "u8 list \<Rightarrow> int \<Rightarrow> 'a io_scheme \<Rightarrow> int \<times> 'a io_scheme" where
  "sys_pwrite bytes offset s =
     (if offset < 0 then (-1, s\<lparr>errno := EINVAL\<rparr>)
      else case faults s of
          [] \<Rightarrow> (int (length bytes), s\<lparr>content := write_at (nat offset) bytes (content s)\<rparr>)
        | Short k # fs \<Rightarrow> (int (length (take k bytes)),
             s\<lparr>content := write_at (nat offset) (take k bytes) (content s), faults := fs\<rparr>)
        | Fail e # fs \<Rightarrow> (-1, s\<lparr>faults := fs, errno := e\<rparr>))"

text \<open>A buffer is the memory around a pointer: index 0 is the byte it points to.\<close>

type_synonym buffer = "int \<Rightarrow> u8"

definition store_at :: "buffer \<Rightarrow> int \<Rightarrow> u8 list \<Rightarrow> buffer" where
  "store_at buf pos bytes = (\<lambda>i. if pos \<le> i \<and> i < pos + int (length bytes)
                                then bytes ! nat (i - pos) else buf i)"

definition load_at :: "buffer \<Rightarrow> int \<Rightarrow> nat \<Rightarrow> u8 list" where
  "load_at buf pos n = map (\<lambda>k. buf (pos + int k)) [0..<n]"

text \<open>
  The two loops differ in the direction of the transfer only. Note the \<open>continue\<close> after an
  interrupted call: it runs the loop's third clause with the result -1, so the pointer and the
  offset move back by one and one more byte remains.
\<close>

function full_pread_loop ::
  "int \<Rightarrow> nat \<Rightarrow> int \<Rightarrow> buffer \<Rightarrow> 'a io_scheme \<Rightarrow> nat \<times> buffer \<times> 'a io_scheme" where
  "full_pread_loop pos bytes_remaining offset buf s =
     (if bytes_remaining = 0 then (bytes_remaining, buf, s)
      else case sys_pread bytes_remaining offset s of (bytes_read, bytes, s') \<Rightarrow>
        (if bytes_read \<le> 0 then
           if bytes_read = 0 then (bytes_remaining, buf, s'\<lparr>errno := EIO\<rparr>)
           else if errno s' = EINTR
           then full_pread_loop (pos + bytes_read) (nat (int bytes_remaining - bytes_read))
                  (offset + bytes_read) buf s'
           else (bytes_remaining, buf, s')
         else full_pread_loop (pos + bytes_read) (nat (int bytes_remaining - bytes_read))
                (offset + bytes_read) (store_at buf pos bytes) s'))"
  by pat_completeness auto
termination
  by (relation "measures [\<lambda>(p, r, off, b, s). length (faults s), \<lambda>(p, r, off, b, s). r]")
     (auto simp: sys_pread_def errno_defs Let_def split: if_splits list.splits fault.splits)

function full_pwrite_loop ::
  "int \<Rightarrow> nat \<Rightarrow> int \<Rightarrow> buffer \<Rightarrow> 'a io_scheme \<Rightarrow> nat \<times> 'a io_scheme" where
  "full_pwrite_loop pos bytes_remaining offset buf s =
     (if bytes_remaining = 0 then (bytes_remaining, s)
      else case sys_pwrite (load_at buf pos bytes_remaining) offset s of (bytes_read, s') \<Rightarrow>
        (if bytes_read \<le> 0 then
           if bytes_read = 0 then (bytes_remaining, s'\<lparr>errno := EIO\<rparr>)
           else if errno s' = EINTR
           then full_pwrite_loop (pos + bytes_read) (nat (int bytes_remaining - bytes_read))
                  (offset + bytes_read) buf s'
           else (bytes_remaining, s')
         else full_pwrite_loop (pos + bytes_read) (nat (int bytes_remaining - bytes_read))
                (offset + bytes_read) buf s'))"
  by pat_completeness auto
termination
  by (relation "measures [\<lambda>(p, r, off, b, s). length (faults s), \<lambda>(p, r, off, b, s). r]")
     (auto simp: sys_pwrite_def errno_defs Let_def load_at_def split: if_splits list.splits fault.splits)

declare full_pread_loop.simps [simp del] full_pwrite_loop.simps [simp del]

text \<open>The result is a \<open>size_t\<close>: a difference that would be negative wraps around.\<close>

definition full_pread :: "buffer \<Rightarrow> nat \<Rightarrow> int \<Rightarrow> 'a io_scheme \<Rightarrow> nat \<times> buffer \<times> 'a io_scheme" where
  "full_pread buf count offset s =
     (case full_pread_loop 0 count offset buf s of (bytes_remaining, buf, s) \<Rightarrow>
        (nat ((int count - int bytes_remaining) mod 2 ^ 64), buf, s))"

definition full_pwrite :: "buffer \<Rightarrow> nat \<Rightarrow> int \<Rightarrow> 'a io_scheme \<Rightarrow> nat \<times> 'a io_scheme" where
  "full_pwrite buf count offset s =
     (case full_pwrite_loop 0 count offset buf s of (bytes_remaining, s) \<Rightarrow>
        (nat ((int count - int bytes_remaining) mod 2 ^ 64), s))"

section \<open>Dates, strings and bits\<close>

text \<open>The broken-down time of \<open>gmtime_r\<close> and \<open>mktime\<close>; the clock is the host's.\<close>

record tm =
  tm_sec :: int
  tm_min :: int
  tm_hour :: int
  tm_mday :: int
  tm_mon :: int
  tm_year :: int

record clock =
  now :: int
  gmtime :: "int \<Rightarrow> tm"
  mktime :: "tm \<Rightarrow> int"

definition fill_time_tm :: "tm \<Rightarrow> u16 \<times> u16" where
  "fill_time_tm t =
     (let date = word_of_int (tm_mday t) :: u16;
          date = date AND 0x001F;
          date = date OR push_bit 5 (word_of_int (tm_mon t) + 1);
          date = date AND 0x01FF;
          date = date OR push_bit 9 (word_of_int ((tm_year t + 1900) - 1980));
          tim = word_of_int (tm_sec t div 2) :: u16;
          tim = tim AND 0x001F;
          tim = tim OR push_bit 5 (word_of_int (tm_min t));
          tim = tim AND 0x07FF;
          tim = tim OR push_bit 11 (word_of_int (tm_hour t))
      in (date, tim))"

definition fill_time :: "clock \<Rightarrow> int \<Rightarrow> u16 \<times> u16" where
  "fill_time clk t = fill_time_tm (gmtime clk t)"

definition time_to_unix_tm :: "u16 \<Rightarrow> u16 \<Rightarrow> tm" where
  "time_to_unix_tm date time =
     (let year = drop_bit 9 date + (1980 - 1900);
          month = (drop_bit 5 date AND 0xf) - 1;
          day = date AND 0x1f;
          hours = drop_bit 11 time;
          minutes = drop_bit 5 time AND 0x3f;
          seconds = (time AND 0x1f) * 2
      in \<lparr>tm_sec = uint seconds, tm_min = uint minutes, tm_hour = uint hours,
          tm_mday = uint day, tm_mon = uint month, tm_year = uint year\<rparr>)"

definition time_to_unix_time :: "clock \<Rightarrow> u16 \<Rightarrow> u16 \<Rightarrow> int" where
  "time_to_unix_time clk date time = mktime clk (time_to_unix_tm date time)"

text \<open>The bytes of a C string; the scan runs backwards from its end.\<close>

fun remove_trailing_rev :: "u8 list \<Rightarrow> u8 list" where
  "remove_trailing_rev [] = []"
| "remove_trailing_rev (c # cs) = (if c = 0x20 then remove_trailing_rev cs else c # cs)"

definition remove_trailing_spaces :: "u8 list \<Rightarrow> u8 list" where
  "remove_trailing_spaces s = rev (remove_trailing_rev (rev s))"

definition is_power_of_2 :: "u64 \<Rightarrow> bool" where
  "is_power_of_2 n \<longleftrightarrow> n AND (n - 1) = 0 \<and> n \<noteq> 0"

text \<open>\<open>bsr\<close>: the position of the highest bit set; undefined for 0, as the instruction is.\<close>

fun highest_bit :: "nat \<Rightarrow> nat" where
  "highest_bit n = (if n \<le> 1 then 0 else Suc (highest_bit (n div 2)))"

declare highest_bit.simps [simp del]

definition bsr :: "nat \<Rightarrow> nat option" where
  "bsr n = (if n = 0 then None else Some (highest_bit n))"

section \<open>Facts\<close>

text \<open>Without faults the loops are one transfer.\<close>

lemma sys_pread_ok:
  "faults s = [] \<Longrightarrow> 0 \<le> off \<Longrightarrow> nat off + n \<le> length (content s) \<Longrightarrow>
   sys_pread n off s = (int n, take n (drop (nat off) (content s)), s)"
  by (auto simp: sys_pread_def Let_def min_def)

lemma full_loops_done [simp]:
  "full_pread_loop pos 0 off buf s = (0, buf, s)"
  "full_pwrite_loop pos 0 off buf s = (0, s)"
  by (simp_all add: full_pread_loop.simps full_pwrite_loop.simps)

lemma full_pread_ok:
  assumes "faults s = []" "0 \<le> off" "nat off + n \<le> length (content s)" "n < 2 ^ 64"
  shows "full_pread buf n off s =
     (n, store_at buf 0 (take n (drop (nat off) (content s))), s)"
proof (cases "n = 0")
  case True
  then show ?thesis
    by (auto simp: full_pread_def store_at_def fun_eq_iff)
next
  case False
  have "full_pread_loop 0 n off buf s =
      (0, store_at buf 0 (take n (drop (nat off) (content s))), s)"
    using False sys_pread_ok [OF assms(1-3)]
    by (subst full_pread_loop.simps) simp
  with assms(4) show ?thesis by (simp add: full_pread_def)
qed

lemma full_pwrite_ok:
  assumes "faults s = []" "0 \<le> off" "n < 2 ^ 64"
  shows "full_pwrite buf n off s =
     (n, if n = 0 then s else s\<lparr>content := write_at (nat off) (load_at buf 0 n) (content s)\<rparr>)"
proof (cases "n = 0")
  case True
  then show ?thesis by (simp add: full_pwrite_def)
next
  case False
  have "full_pwrite_loop 0 n off buf s =
      (0, s\<lparr>content := write_at (nat off) (load_at buf 0 n) (content s)\<rparr>)"
    using False assms(1,2)
    by (subst full_pwrite_loop.simps)
       (simp add: sys_pwrite_def load_at_def)
  with False assms(3) show ?thesis by (simp add: full_pwrite_def)
qed

lemma length_write_at:
  "length (write_at off bytes disk) = max (length disk) (off + length bytes)"
  by (auto simp: write_at_def)

lemma nth_write_at:
  assumes "i < length disk"
  shows "write_at off bytes disk ! i =
     (if off \<le> i \<and> i < off + length bytes then bytes ! (i - off) else disk ! i)"
  using assms by (auto simp: write_at_def nth_append)

lemma take_drop_write_at:
  assumes "a + n \<le> length disk" and "a + n \<le> off \<or> off + length bytes \<le> a"
  shows "take n (drop a (write_at off bytes disk)) = take n (drop a disk)"
  by (rule nth_equalityI) (use assms in \<open>auto simp: length_write_at nth_write_at\<close>)

lemma take_drop_write_at_same:
  "off + length bytes \<le> length disk \<Longrightarrow>
   take (length bytes) (drop off (write_at off bytes disk)) = bytes"
  by (rule nth_equalityI) (auto simp: length_write_at nth_write_at)

lemma load_at_Suc: "load_at buf (-1) (Suc n) = buf (-1) # load_at buf 0 n"
  by (rule nth_equalityI) (auto simp: load_at_def nth_Cons' simp del: upt_Suc)

text \<open>
  A write that is interrupted once before it starts reports complete success,
  yet it also overwrites the byte of the volume just before the requested range, with whatever
  lies in memory before the caller's buffer.
\<close>

theorem full_pwrite_interrupted:
  assumes "faults s = [Fail EINTR]" and "1 \<le> off" and "0 < n" and "n < 2 ^ 63"
  shows "fst (full_pwrite buf n off s) = n \<and>
     content (snd (full_pwrite buf n off s)) =
       write_at (nat off - 1) (buf (-1) # load_at buf 0 n) (content s)"
proof -
  have "full_pwrite_loop 0 n off buf s =
     full_pwrite_loop (-1) (Suc n) (off - 1) buf (s\<lparr>faults := [], errno := EINTR\<rparr>)"
    using assms
    by (subst full_pwrite_loop.simps)
       (simp add: sys_pwrite_def errno_defs load_at_def nat_add_distrib)
  also have "\<dots> = (0, s\<lparr>faults := [], errno := EINTR,
       content := write_at (nat off - 1) (buf (-1) # load_at buf 0 n) (content s)\<rparr>)"
    using assms
    by (subst full_pwrite_loop.simps)
       (simp add: sys_pwrite_def load_at_Suc nat_diff_distrib, simp add: load_at_def)
  finally show ?thesis using assms(4) by (simp add: full_pwrite_def)
qed

theorem full_pwrite_interrupted_witness:
  "content (snd (full_pwrite (\<lambda>i. if i = 0 then 7 else 9) 1 2
      \<lparr>content = [1, 2, 3], faults = [Fail EINTR], errno = 0\<rparr>)) = [1, 9, 7]"
  using full_pwrite_interrupted [of "\<lparr>content = [1, 2, 3], faults = [Fail EINTR], errno = 0\<rparr>" 2 1
      "\<lambda>i. if i = 0 then 7 else 9"]
  by (simp add: load_at_def write_at_def)

text \<open>Packing and unpacking three bit fields of a half word.\<close>

lemma small_word_bit: "take_bit k w = w \<Longrightarrow> bit w n \<Longrightarrow> n < k" for w :: "'a::len word"
  by (metis bit_take_bit_iff)

lemma mask_consts:
  "(0x001F :: u16) = mask 5" "(0x01FF :: u16) = mask 9" "(0x07FF :: u16) = mask 11"
  "(0xf :: u16) = mask 4" "(0x3f :: u16) = mask 6"
  by (simp_all add: mask_eq_exp_minus_1)

lemma date_fields:
  fixes d m y :: u16
  assumes "take_bit 5 d = d" "take_bit 4 m = m" "take_bit 7 y = y"
  defines "p \<equiv> ((d AND 0x001F OR push_bit 5 m) AND 0x01FF) OR push_bit 9 y"
  shows "p AND 0x1f = d" "drop_bit 5 p AND 0xf = m" "drop_bit 9 p = y"
  unfolding p_def mask_consts
  using small_word_bit [OF assms(1)] small_word_bit [OF assms(2)] small_word_bit [OF assms(3)]
  by (auto intro!: bit_word_eqI simp: bit_simps) fastforce+

lemma time_fields:
  fixes s m h :: u16
  assumes "take_bit 5 s = s" "take_bit 6 m = m" "take_bit 5 h = h"
  defines "p \<equiv> ((s AND 0x001F OR push_bit 5 m) AND 0x07FF) OR push_bit 11 h"
  shows "p AND 0x1f = s" "drop_bit 5 p AND 0x3f = m" "drop_bit 11 p = h"
  unfolding p_def mask_consts
  using small_word_bit [OF assms(1)] small_word_bit [OF assms(2)] small_word_bit [OF assms(3)]
  by (auto intro!: bit_word_eqI simp: bit_simps) fastforce+

lemma small_word_of_int:
  assumes "0 \<le> i" "i < 2 ^ k" "k < 16"
  shows "take_bit k (word_of_int i :: u16) = word_of_int i" "uint (word_of_int i :: u16) = i"
proof -
  have le: "(2::int) ^ k \<le> 2 ^ 15" using assms(3) by (intro power_increasing) auto
  then show "uint (word_of_int i :: u16) = i"
    using assms by (simp add: uint_word_of_int)
  show "take_bit k (word_of_int i :: u16) = word_of_int i"
  proof (rule bit_word_eqI)
    fix n assume "n < LENGTH(16)"
    have "take_bit k i = i" using assms by (simp add: take_bit_int_eq_self)
    then have "bit i n \<Longrightarrow> n < k" by (metis bit_take_bit_iff)
    then show "bit (take_bit k (word_of_int i :: u16)) n \<longleftrightarrow> bit (word_of_int i :: u16) n"
      by (auto simp: bit_simps)
  qed
qed

text \<open>
  A date and time that the FAT format can hold: from 1980 to 2107.
\<close>

definition fat_representable :: "tm \<Rightarrow> bool" where
  "fat_representable t \<longleftrightarrow> tm_sec t \<in> {0..59} \<and> tm_min t \<in> {0..59} \<and> tm_hour t \<in> {0..23} \<and>
     tm_mday t \<in> {1..31} \<and> tm_mon t \<in> {0..11} \<and> tm_year t \<in> {80..207}"

text \<open>
  Dates survive the FAT format: unpacking the two half words that \<open>fill_time\<close> packs gives the
  same date and time, the seconds rounded down to an even number, for every date from 1980 to 2107.
\<close>

theorem fat_time_roundtrip:
  assumes "fat_representable t"
  shows "case fill_time_tm t of (date, time) \<Rightarrow>
     time_to_unix_tm date time = t\<lparr>tm_sec := 2 * (tm_sec t div 2)\<rparr>"
proof -
  let ?d = "word_of_int (tm_mday t) :: u16" and ?m = "word_of_int (tm_mon t + 1) :: u16"
    and ?y = "word_of_int (tm_year t - 80) :: u16"
    and ?s = "word_of_int (tm_sec t div 2) :: u16" and ?i = "word_of_int (tm_min t) :: u16"
    and ?h = "word_of_int (tm_hour t) :: u16"
  have b: "0 \<le> tm_mday t" "tm_mday t < 2 ^ 5" "0 \<le> tm_mon t + 1" "tm_mon t + 1 < 2 ^ 4"
    "0 \<le> tm_year t - 80" "tm_year t - 80 < 2 ^ 7" "0 \<le> tm_sec t div 2" "tm_sec t div 2 < 2 ^ 5"
    "0 \<le> tm_min t" "tm_min t < 2 ^ 6" "0 \<le> tm_hour t" "tm_hour t < 2 ^ 5"
    using assms by (auto simp: fat_representable_def)
  note w = small_word_of_int [OF b(1,2)] small_word_of_int [OF b(3,4)] small_word_of_int [OF b(5,6)]
    small_word_of_int [OF b(7,8)] small_word_of_int [OF b(9,10)] small_word_of_int [OF b(11,12)]
  note D = date_fields [of ?d ?m ?y] and T = time_fields [of ?s ?i ?h]
  have m: "word_of_int (tm_mon t) + 1 = ?m" by simp
  have y: "word_of_int ((tm_year t + 1900) - 1980) = ?y" by (simp add: algebra_simps)
  have "uint (?m - 1) = tm_mon t"
    using assms small_word_of_int(2) [of "tm_mon t" 4]
    by (simp add: fat_representable_def)
  moreover have "uint (?y + (1980 - 1900)) = tm_year t"
    using assms small_word_of_int(2) [of "tm_year t" 8]
    by (simp add: fat_representable_def)
  moreover have "uint (?s * 2) = 2 * (tm_sec t div 2)"
    using assms small_word_of_int(2) [of "tm_sec t div 2 * 2" 6] b(8)
    by (simp add: fat_representable_def)
  ultimately show ?thesis
    unfolding fill_time_tm_def time_to_unix_tm_def Let_def prod.case m y
    using w D T by (cases t) simp
qed

theorem fat_time_roundtrip_witness:
  "(case fill_time_tm \<lparr>tm_sec = 33, tm_min = 59, tm_hour = 23, tm_mday = 31, tm_mon = 11, tm_year = 123\<rparr>
      of (date, time) \<Rightarrow> time_to_unix_tm date time) =
   \<lparr>tm_sec = 32, tm_min = 59, tm_hour = 23, tm_mday = 31, tm_mon = 11, tm_year = 123\<rparr>"
  using fat_time_roundtrip [of "\<lparr>tm_sec = 33, tm_min = 59, tm_hour = 23, tm_mday = 31, tm_mon = 11,
      tm_year = 123\<rparr>"]
  by (simp add: fat_representable_def split_beta)

end
