(* ===== verification/Fat_Table.thy ===== *)
theory Fat_Table
  imports Fat_Util
begin

text \<open>
  The file allocation table, \<open>lab4/esqueleto/fat_table.c\<close>: the array of links between clusters,
  of which the driver keeps a private copy in memory, and the arithmetic that goes from
  file offsets to clusters and from clusters to volume offsets.

  Cluster numbers and table entries are 32-bit words, the entries as numbers (their bytes on
  the volume are little-endian). Reading or writing an entry outside the mapped table is not a
  normal return.
\<close>

section \<open>The code\<close>

definition FAT_CLUSTER_END_OF_CHAIN :: u32 where "FAT_CLUSTER_END_OF_CHAIN = 0x0FFFFFF8"
definition FAT_CLUSTER_END_OF_CHAIN2 :: u32 where "FAT_CLUSTER_END_OF_CHAIN2 = 0x0FFFFFFF"
definition FAT_CLUSTER_FREE :: u32 where "FAT_CLUSTER_FREE = 0"

record fat_table_s =
  fat_map :: "u32 list"
  fat_offset :: int
  num_data_clusters :: u32
  data_start_offset :: int
  cluster_order :: nat

record tstate = io +
  table :: fat_table_s

definition fat_table_is_valid_cluster_number :: "fat_table_s \<Rightarrow> u32 \<Rightarrow> bool" where
  "fat_table_is_valid_cluster_number t cluster \<longleftrightarrow>
     cluster \<ge> 2 \<and> cluster < num_data_clusters t + 2"

definition fat_table_get_next_cluster :: "fat_table_s \<Rightarrow> u32 \<Rightarrow> u32 option" where
  "fat_table_get_next_cluster t cur_cluster = do {
     next_cluster \<leftarrow> aget (fat_map t) (unat cur_cluster);
     Some (if \<not> fat_table_is_valid_cluster_number t next_cluster
           then FAT_CLUSTER_END_OF_CHAIN else next_cluster) }"

definition fat_table_bytes_per_cluster :: "fat_table_s \<Rightarrow> nat" where
  "fat_table_bytes_per_cluster t = push_bit (cluster_order t) 1"

definition fat_table_mask_offset :: "int \<Rightarrow> fat_table_s \<Rightarrow> nat" where
  "fat_table_mask_offset offset t =
     (let bytes_per_cluster = fat_table_bytes_per_cluster t
      in nat (offset AND (int bytes_per_cluster - 1)))"

definition fat_table_get_cluster_remaining_bytes :: "fat_table_s \<Rightarrow> nat \<Rightarrow> int \<Rightarrow> nat" where
  "fat_table_get_cluster_remaining_bytes t bytes_remaining offset =
     (let bytes_per_cluster = fat_table_bytes_per_cluster t;
          masked_offset = fat_table_mask_offset offset t
      in min (bytes_per_cluster - masked_offset) bytes_remaining)"

definition fat_table_get_clusters_for_size :: "fat_table_s \<Rightarrow> nat \<Rightarrow> u32" where
  "fat_table_get_clusters_for_size t file_size =
     (let bytes_per_cluster = fat_table_bytes_per_cluster t
      in of_nat (drop_bit (cluster_order t) (file_size + (bytes_per_cluster - 1))))"

text \<open>The scan of the table goes on until it meets a free entry, whatever the table's size.\<close>

fun next_free_loop :: "u32 list \<Rightarrow> u32 \<Rightarrow> u32 option" where
  "next_free_loop [] i = None"
| "next_free_loop (e # es) i = (if e \<noteq> FAT_CLUSTER_FREE then next_free_loop es (i + 1) else Some i)"

definition fat_table_get_next_free_cluster :: "fat_table_s \<Rightarrow> u32 option" where
  "fat_table_get_next_free_cluster t = do {
     c \<leftarrow> next_free_loop (drop 2 (fat_map t)) 2;
     Some (if \<not> fat_table_is_valid_cluster_number t c then FAT_CLUSTER_END_OF_CHAIN else c) }"

definition fat_table_cluster_offset :: "fat_table_s \<Rightarrow> u32 \<Rightarrow> int" where
  "fat_table_cluster_offset t cluster =
     data_start_offset t + push_bit (cluster_order t) (uint (cluster - 2))"

definition fat_table_is_cluster_used :: "fat_table_s \<Rightarrow> u32 \<Rightarrow> bool option" where
  "fat_table_is_cluster_used t cluster =
     map_option (\<lambda>e. e \<noteq> 0) (aget (fat_map t) (unat cluster))"

definition fat_table_set_next_cluster ::
  "u32 \<Rightarrow> u32 \<Rightarrow> 'a tstate_scheme \<Rightarrow> 'a tstate_scheme option" where
  "fat_table_set_next_cluster cur_cluster next_cluster s =
     (let next_cluster_le32 = le32_bytes next_cluster;
          entry_offset = uint (cur_cluster * 4) + fat_offset (table s);
          (written_bytes, s') = sys_pwrite next_cluster_le32 entry_offset s
      in if written_bytes \<le> 0 then Some (s'\<lparr>errno := EIO\<rparr>)
         else do {
           m \<leftarrow> aset (fat_map (table s')) (unat cur_cluster) next_cluster;
           Some (s'\<lparr>table := (table s')\<lparr>fat_map := m\<rparr>\<rparr>) })"

fun seek_loop :: "fat_table_s \<Rightarrow> nat \<Rightarrow> u32 \<Rightarrow> (u32 \<times> bool) option" where
  "seek_loop t 0 start_cluster = Some (start_cluster, False)"
| "seek_loop t (Suc n) start_cluster =
     (if start_cluster = FAT_CLUSTER_END_OF_CHAIN then Some (0, True)
      else do { c \<leftarrow> fat_table_get_next_cluster t start_cluster; seek_loop t n c })"

text \<open>The number of positions to move is a 32-bit quantity.\<close>

definition fat_table_seek_cluster ::
  "u32 \<Rightarrow> int \<Rightarrow> 'a tstate_scheme \<Rightarrow> (u32 \<times> 'a tstate_scheme) option" where
  "fat_table_seek_cluster start_cluster offset s =
     (let positions_to_move = word_of_int (drop_bit (cluster_order (table s)) offset) :: u32
      in do {
        (c, overflow) \<leftarrow> seek_loop (table s) (unat positions_to_move) start_cluster;
        Some (c, if overflow then s\<lparr>errno := EOVERFLOW\<rparr> else s) })"

definition fat_table_is_EOC :: "u32 \<Rightarrow> bool" where
  "fat_table_is_EOC cluster \<longleftrightarrow>
     cluster = FAT_CLUSTER_END_OF_CHAIN \<or> cluster = FAT_CLUSTER_END_OF_CHAIN2"

section \<open>Cluster arithmetic\<close>

lemmas fat_consts = FAT_CLUSTER_END_OF_CHAIN_def FAT_CLUSTER_END_OF_CHAIN2_def FAT_CLUSTER_FREE_def

abbreviation bpc :: "fat_table_s \<Rightarrow> nat" where
  "bpc \<equiv> fat_table_bytes_per_cluster"

abbreviation valid_cluster :: "fat_table_s \<Rightarrow> u32 \<Rightarrow> bool" where
  "valid_cluster \<equiv> fat_table_is_valid_cluster_number"

lemma bpc_eq: "bpc t = 2 ^ cluster_order t"
  by (simp add: fat_table_bytes_per_cluster_def push_bit_eq_mult)

lemma bpc_pos [simp]: "0 < bpc t"
  by (simp add: bpc_eq)

lemma mask_offset_eq: "fat_table_mask_offset (int off) t = off mod bpc t"
proof -
  have "int off mod 2 ^ k = int (off mod 2 ^ k)" for k by (simp add: zmod_int)
  then show ?thesis
    by (simp add: fat_table_mask_offset_def Let_def bpc_eq take_bit_eq_mod
        flip: mask_eq_exp_minus_1 take_bit_eq_mask)
qed

lemma mask_offset_less [simp]: "fat_table_mask_offset off t < bpc t"
proof -
  have "off AND (2 ^ k - 1) = take_bit k off" for k
    by (simp flip: mask_eq_exp_minus_1 take_bit_eq_mask)
  then have "fat_table_mask_offset off t = nat (take_bit (cluster_order t) off)"
    by (simp add: fat_table_mask_offset_def Let_def bpc_eq)
  moreover have "take_bit (cluster_order t) off < 2 ^ cluster_order t"
    by (rule take_bit_int_less_exp)
  ultimately show ?thesis by (simp add: bpc_eq nat_less_iff)
qed

lemma remaining_bytes_eq:
  "fat_table_get_cluster_remaining_bytes t n (int off) = min (bpc t - off mod bpc t) n"
  by (simp add: fat_table_get_cluster_remaining_bytes_def Let_def mask_offset_eq)

lemma remaining_bytes_pos:
  "0 < n \<Longrightarrow> 0 < fat_table_get_cluster_remaining_bytes t n off"
  by (simp add: fat_table_get_cluster_remaining_bytes_def Let_def)

lemma remaining_bytes_le: "fat_table_get_cluster_remaining_bytes t n off \<le> n"
  by (simp add: fat_table_get_cluster_remaining_bytes_def Let_def)

lemma clusters_for_size_eq:
  assumes "n < 2 ^ 32"
  shows "unat (fat_table_get_clusters_for_size t n) = (n + (bpc t - 1)) div bpc t"
proof -
  have "(n + (b - 1)) div b \<le> n" if "0 < b" for b
  proof (cases n)
    case (Suc m)
    then have "n + (b - 1) \<le> b * n" using that by (cases b) (auto simp: algebra_simps)
    then have "(n + (b - 1)) div b \<le> (b * n) div b" by (rule div_le_mono)
    then show ?thesis using that by simp
  qed (use that in simp)
  then have "(n + (bpc t - 1)) div bpc t < 2 ^ 32"
    using assms le_less_trans bpc_pos by blast
  then show ?thesis
    by (simp add: fat_table_get_clusters_for_size_def Let_def drop_bit_eq_div bpc_eq [symmetric]
        unat_of_nat)
qed

section \<open>Well-formed tables\<close>

text \<open>
  The table has an entry for each data cluster and for the two reserved numbers before them, its size
  keeps cluster numbers away from the end-of-chain marks, and on the volume it lies before
  the data.
\<close>

definition table_wf :: "fat_table_s \<Rightarrow> bool" where
  "table_wf t \<longleftrightarrow> unat (num_data_clusters t) + 2 \<le> length (fat_map t) \<and>
     length (fat_map t) \<le> 0x0FFFFFF8 \<and> 0 \<le> fat_offset t \<and>
     fat_offset t + 4 * int (length (fat_map t)) \<le> data_start_offset t"

lemma unat_num_data_clusters:
  "table_wf t \<Longrightarrow> unat (num_data_clusters t + 2) = unat (num_data_clusters t) + 2"
  by (simp add: table_wf_def unat_word_ariths)

lemma valid_cluster_iff:
  "table_wf t \<Longrightarrow> valid_cluster t c \<longleftrightarrow> 2 \<le> unat c \<and> unat c < unat (num_data_clusters t) + 2"
  by (simp add: fat_table_is_valid_cluster_number_def word_less_nat_alt word_le_nat_alt
      unat_num_data_clusters)

lemma valid_cluster_in_map: "table_wf t \<Longrightarrow> valid_cluster t c \<Longrightarrow> unat c < length (fat_map t)"
  by (simp add: valid_cluster_iff) (simp add: table_wf_def)

lemma unat_EOC: "unat FAT_CLUSTER_END_OF_CHAIN = 0x0FFFFFF8"
  "unat FAT_CLUSTER_END_OF_CHAIN2 = 0x0FFFFFFF"
  by (simp_all add: fat_consts)

lemma EOC_not_valid:
  "table_wf t \<Longrightarrow> \<not> valid_cluster t FAT_CLUSTER_END_OF_CHAIN"
  "table_wf t \<Longrightarrow> \<not> valid_cluster t FAT_CLUSTER_END_OF_CHAIN2"
  by (simp_all add: valid_cluster_iff unat_EOC table_wf_def)

lemma is_EOC_EOC [simp]: "fat_table_is_EOC FAT_CLUSTER_END_OF_CHAIN"
  by (simp add: fat_table_is_EOC_def)

lemma valid_not_EOC: "table_wf t \<Longrightarrow> valid_cluster t c \<Longrightarrow> \<not> fat_table_is_EOC c"
  using EOC_not_valid by (auto simp: fat_table_is_EOC_def)

lemma get_next_valid_or_EOC:
  assumes "fat_table_get_next_cluster t c = Some n"
  shows "n = FAT_CLUSTER_END_OF_CHAIN \<or> valid_cluster t n"
  using assms by (auto simp: fat_table_get_next_cluster_def bind_eq_Some_conv split: if_splits)

lemma get_next_total:
  "unat c < length (fat_map t) \<Longrightarrow> \<exists>n. fat_table_get_next_cluster t c = Some n"
  by (simp add: fat_table_get_next_cluster_def aget_def)

section \<open>The search for a free cluster\<close>

lemma next_free_loop_None: "next_free_loop es i = None \<longleftrightarrow> 0 \<notin> set es"
  by (induction es arbitrary: i) (auto simp: fat_consts)

lemma next_free_loop_Some:
  "next_free_loop es i = Some c \<Longrightarrow> unat i + length es < 2 ^ 32 \<Longrightarrow>
   \<exists>k<length es. unat c = unat i + k \<and> es ! k = 0 \<and> (\<forall>j<k. es ! j \<noteq> 0)"
proof (induction es arbitrary: i)
  case (Cons e es)
  show ?case
  proof (cases "e = 0")
    case True
    with Cons.prems show ?thesis by (intro exI [of _ 0]) (simp add: fat_consts)
  next
    case False
    have i: "unat (i + 1) = unat i + 1" using Cons.prems(2) by (simp add: unat_word_ariths)
    with Cons.IH [of "i + 1"] Cons.prems False obtain k where
      "k < length es" "unat c = unat i + 1 + k" "es ! k = 0" "\<forall>j<k. es ! j \<noteq> 0"
      by (auto simp: fat_consts)
    with False show ?thesis
      by (intro exI [of _ "Suc k"]) (auto simp: nth_Cons split: nat.split)
  qed
qed simp

text \<open>
  The search for a free cluster returns the lowest free data cluster. If only entries beyond
  the data clusters are free it returns the end-of-chain mark; and if the whole table is
  used up it does not stop at the table's end but reads past it.
\<close>

theorem fat_table_get_next_free_cluster_spec:
  assumes "table_wf t"
  shows "case fat_table_get_next_free_cluster t of
      None \<Rightarrow> \<forall>j. 2 \<le> j \<and> j < length (fat_map t) \<longrightarrow> fat_map t ! j \<noteq> FAT_CLUSTER_FREE
    | Some c \<Rightarrow>
        (valid_cluster t c \<and> fat_map t ! unat c = FAT_CLUSTER_FREE \<and>
           (\<forall>j. 2 \<le> j \<and> j < unat c \<longrightarrow> fat_map t ! j \<noteq> FAT_CLUSTER_FREE)) \<or>
        (c = FAT_CLUSTER_END_OF_CHAIN \<and>
           (\<forall>j. valid_cluster t j \<longrightarrow> fat_map t ! unat j \<noteq> FAT_CLUSTER_FREE))"
proof (cases "next_free_loop (drop 2 (fat_map t)) 2")
  case None
  then have "0 \<notin> set (drop 2 (fat_map t))" by (simp add: next_free_loop_None)
  moreover have "fat_map t ! j \<in> set (drop 2 (fat_map t))"
    if "2 \<le> j" "j < length (fat_map t)" for j
  proof -
    have "2 + (j - 2) = j" using that by simp
    then have "drop 2 (fat_map t) ! (j - 2) = fat_map t ! j" using that by (subst nth_drop) simp_all
    moreover have "j - 2 < length (drop 2 (fat_map t))" using that by simp
    ultimately show ?thesis by (metis nth_mem)
  qed
  ultimately have "\<forall>j. 2 \<le> j \<and> j < length (fat_map t) \<longrightarrow> fat_map t ! j \<noteq> 0"
    by metis
  with None show ?thesis by (simp add: fat_table_get_next_free_cluster_def fat_consts)
next
  case (Some c)
  have "length (fat_map t) \<le> 0x0FFFFFF8" "2 \<le> length (fat_map t)"
    using assms by (simp_all add: table_wf_def)
  moreover from this have "length (fat_map t) - 2 < 4294967294" by linarith
  ultimately obtain k where k: "k < length (fat_map t) - 2" "unat c = 2 + k" "fat_map t ! (2 + k) = 0"
      "\<forall>j<k. fat_map t ! (2 + j) \<noteq> 0"
    using next_free_loop_Some [OF Some] by auto
  have below: "\<forall>j. 2 \<le> j \<and> j < unat c \<longrightarrow> fat_map t ! j \<noteq> 0"
  proof (intro allI impI)
    fix j assume "2 \<le> j \<and> j < unat c"
    then have "j - 2 < k" "2 + (j - 2) = j" using k(2) by linarith+
    then show "fat_map t ! j \<noteq> 0" using k(4) by metis
  qed
  show ?thesis
  proof (cases "valid_cluster t c")
    case True
    with Some k below show ?thesis
      by (simp add: fat_table_get_next_free_cluster_def fat_consts)
  next
    case False
    then have "\<forall>j. valid_cluster t j \<longrightarrow> fat_map t ! unat j \<noteq> 0"
      using below k(2) by (simp add: valid_cluster_iff [OF assms])
    with Some False show ?thesis
      by (simp add: fat_table_get_next_free_cluster_def fat_consts)
  qed
qed

text \<open>A small table for the instances: four data clusters of 32 bytes.\<close>

definition small_table :: fat_table_s where
  "small_table = \<lparr>fat_map = [0x0FFFFFF8, 0x0FFFFFFF, 4, 0, 0x0FFFFFF8, 0], fat_offset = 0,
     num_data_clusters = 4, data_start_offset = 32, cluster_order = 5\<rparr>"

lemma small_table_wf: "table_wf small_table"
  by (simp add: table_wf_def small_table_def)

theorem fat_table_get_next_free_cluster_spec_witness:
  "fat_table_get_next_free_cluster small_table = Some 3 \<and> valid_cluster small_table 3"
proof -
  have eq: "fat_table_get_next_free_cluster small_table = Some 3"
    by (simp add: fat_table_get_next_free_cluster_def small_table_def fat_consts
        fat_table_is_valid_cluster_number_def)
  with fat_table_get_next_free_cluster_spec [OF small_table_wf] show ?thesis
    by (simp add: fat_consts small_table_def fat_table_is_valid_cluster_number_def)
qed

section \<open>Chains of clusters\<close>

text \<open>\<open>chain t c cs\<close>: following the links from \<open>c\<close> visits \<open>cs\<close> and ends.\<close>

fun chain :: "fat_table_s \<Rightarrow> u32 \<Rightarrow> u32 list \<Rightarrow> bool" where
  "chain t c [] \<longleftrightarrow> c = FAT_CLUSTER_END_OF_CHAIN"
| "chain t c (x # xs) \<longleftrightarrow> x = c \<and> valid_cluster t c \<and>
     (case fat_table_get_next_cluster t c of Some n \<Rightarrow> chain t n xs | None \<Rightarrow> False)"

lemma chain_Cons_next:
  "chain t c (x # xs) \<longleftrightarrow> x = c \<and> valid_cluster t c \<and>
     (\<exists>n. fat_table_get_next_cluster t c = Some n \<and> chain t n xs)"
  by (auto split: option.splits)

lemma chain_EOC: "table_wf t \<Longrightarrow> chain t FAT_CLUSTER_END_OF_CHAIN xs \<longleftrightarrow> xs = []"
  by (cases xs) (auto simp: EOC_not_valid)

lemma chain_unique: "table_wf t \<Longrightarrow> chain t c xs \<Longrightarrow> chain t c ys \<Longrightarrow> xs = ys"
proof (induction xs arbitrary: c ys)
  case Nil
  then show ?case by (simp add: chain_EOC)
next
  case (Cons x xs)
  then show ?case
    by (cases ys) (auto simp: EOC_not_valid split: option.splits)
qed

lemma chain_append: "chain t c (xs @ ys) \<Longrightarrow> \<exists>d. chain t d ys \<and> (ys \<noteq> [] \<longrightarrow> d = hd ys)"
proof (induction xs arbitrary: c)
  case Nil
  then show ?case by (cases ys) auto
next
  case (Cons x xs)
  then show ?case by (auto split: option.splits)
qed

lemma chain_valid: "chain t c xs \<Longrightarrow> x \<in> set xs \<Longrightarrow> valid_cluster t x"
  by (induction xs arbitrary: c) (auto split: option.splits)

lemma chain_distinct: "table_wf t \<Longrightarrow> chain t c xs \<Longrightarrow> distinct xs"
proof (induction xs arbitrary: c)
  case (Cons x xs)
  then obtain n where n: "fat_table_get_next_cluster t c = Some n" "chain t n xs" "x = c"
    by (auto split: option.splits)
  have "x \<notin> set xs"
  proof
    assume "x \<in> set xs"
    then obtain us vs where "xs = us @ x # vs" by (meson split_list)
    with n chain_append [of t n us "x # vs"] have "chain t x (x # vs)" by fastforce
    with chain_unique [OF Cons.prems(1), of x "x # xs" "x # vs"] Cons.prems n
    have "xs = vs" by simp
    with \<open>xs = us @ x # vs\<close> show False by simp
  qed
  with n Cons show ?case by auto
qed simp

lemma chain_nth_next:
  assumes "chain t c xs" "i < length xs"
  shows "fat_table_get_next_cluster t (xs ! i) =
     Some (if Suc i < length xs then xs ! Suc i else FAT_CLUSTER_END_OF_CHAIN)"
  using assms
proof (induction xs arbitrary: c i)
  case (Cons x xs)
  obtain n where n: "fat_table_get_next_cluster t c = Some n" "chain t n xs" "x = c"
    using Cons.prems(1) by (auto split: option.splits)
  show ?case
  proof (cases i)
    case 0
    with n show ?thesis by (cases xs) auto
  next
    case (Suc j)
    with Cons.IH [OF n(2), of j] Cons.prems(2) show ?thesis by simp
  qed
qed simp

lemma chain_drop: "chain t c xs \<Longrightarrow> i < length xs \<Longrightarrow> chain t (xs ! i) (drop i xs)"
  using chain_append [of t c "take i xs" "drop i xs"] by (auto simp: hd_drop_conv_nth)

lemma seek_loop_chain:
  assumes "table_wf t"
  shows "chain t c cs \<Longrightarrow> seek_loop t n c =
     Some (if n < length cs then (cs ! n, False)
           else if n = length cs then (FAT_CLUSTER_END_OF_CHAIN, False) else (0, True))"
proof (induction n arbitrary: c cs)
  case 0
  then show ?case by (cases cs) auto
next
  case (Suc n)
  show ?case
  proof (cases cs)
    case Nil
    with Suc.prems show ?thesis by simp
  next
    case (Cons x xs)
    with Suc.prems obtain m where m: "fat_table_get_next_cluster t c = Some m" "chain t m xs"
        "valid_cluster t c" by (auto split: option.splits)
    then have "c \<noteq> FAT_CLUSTER_END_OF_CHAIN" using EOC_not_valid [OF assms] by auto
    with m Suc.IH [OF m(2)] Cons show ?thesis by simp
  qed
qed

text \<open>
  Seeking in a file's chain: for an offset below 2 to the 32 clusters, the result is the
  cluster that holds the byte at that offset; just past the last cluster it is the end-of-chain
  mark, without an error, and further on it is 0 with \<open>EOVERFLOW\<close>.
\<close>

theorem fat_table_seek_cluster_spec:
  assumes "table_wf (table s)" and "chain (table s) c cs"
    and "off div bpc (table s) < 2 ^ 32"
  shows "fat_table_seek_cluster c (int off) s =
     Some (if off div bpc (table s) < length cs then (cs ! (off div bpc (table s)), s)
           else if off div bpc (table s) = length cs then (FAT_CLUSTER_END_OF_CHAIN, s)
           else (0, s\<lparr>errno := EOVERFLOW\<rparr>))"
proof -
  have "drop_bit (cluster_order (table s)) (int off) = int (off div bpc (table s))"
    by (simp add: bpc_eq drop_bit_eq_div zdiv_int)
  moreover have "unat (word_of_int (int m) :: u32) = m" if "m < 2 ^ 32" for m
    using that by (simp add: unat_of_nat)
  ultimately have "unat (word_of_int (drop_bit (cluster_order (table s)) (int off)) :: u32) =
      off div bpc (table s)"
    using assms(3) by metis
  then show ?thesis
    by (simp add: fat_table_seek_cluster_def seek_loop_chain [OF assms(1,2)])
qed

definition small_state :: tstate where
  "small_state = \<lparr>content = replicate 200 0, faults = [], errno = 0, table = small_table\<rparr>"

lemma small_table_bpc: "bpc small_table = 32"
  by (simp add: small_table_def bpc_eq)

lemma small_table_chain: "chain small_table 2 [2, 4]"
  by (simp add: small_table_def fat_table_get_next_cluster_def fat_consts aget_def
      fat_table_is_valid_cluster_number_def)

theorem fat_table_seek_cluster_spec_witness:
  "fat_table_seek_cluster 2 40 small_state = Some (4, small_state)"
  using fat_table_seek_cluster_spec [of small_state 2 "[2, 4]" 40] small_table_wf small_table_chain
    small_table_bpc
  by (simp add: small_state_def del: chain.simps)

section \<open>Writing an entry\<close>

lemma entry_offset:
  assumes "table_wf t" "valid_cluster t c"
  shows "nat (uint (c * 4) + fat_offset t) = nat (fat_offset t) + 4 * unat c"
    "0 \<le> uint (c * 4) + fat_offset t" "unat c < length (fat_map t)"
proof -
  show c: "unat c < length (fat_map t)" by (rule valid_cluster_in_map [OF assms])
  then have "unat c < 0x0FFFFFF8" using assms(1) by (simp add: table_wf_def)
  then have "unat (c * 4) = unat c * 4" by (simp add: unat_word_ariths)
  moreover have fo: "0 \<le> fat_offset t" using assms(1) by (simp add: table_wf_def)
  moreover have "nat (uint (c * 4) + fat_offset t) = unat (c * 4) + nat (fat_offset t)"
    using fo by (simp add: nat_add_distrib)
  ultimately show "nat (uint (c * 4) + fat_offset t) = nat (fat_offset t) + 4 * unat c"
    by simp
  show "0 \<le> uint (c * 4) + fat_offset t" using fo by simp
qed

lemma le32_bytes_not_Nil [simp]: "le32_bytes n \<noteq> []"
  by (simp add: le32_bytes_def)

definition set_fat :: "u32 \<Rightarrow> u32 \<Rightarrow> fat_table_s \<Rightarrow> fat_table_s" where
  "set_fat c n t = t\<lparr>fat_map := (fat_map t)[unat c := n]\<rparr>"

lemma set_fat_simps [simp]:
  "fat_map (set_fat c n t) = (fat_map t)[unat c := n]"
  "fat_offset (set_fat c n t) = fat_offset t"
  "num_data_clusters (set_fat c n t) = num_data_clusters t"
  "data_start_offset (set_fat c n t) = data_start_offset t"
  "cluster_order (set_fat c n t) = cluster_order t"
  "valid_cluster (set_fat c n t) d = valid_cluster t d"
  "bpc (set_fat c n t) = bpc t"
  "fat_table_cluster_offset (set_fat c n t) d = fat_table_cluster_offset t d"
  "table_wf (set_fat c n t) = table_wf t"
  by (simp_all add: set_fat_def fat_table_is_valid_cluster_number_def fat_table_bytes_per_cluster_def
      fat_table_cluster_offset_def table_wf_def)

text \<open>The two outcomes of the update: the error, or both copies written.\<close>

lemma set_next_cases:
  assumes "table_wf (table s)" "valid_cluster (table s) c"
  shows "fat_table_set_next_cluster c n s =
     (case sys_pwrite (le32_bytes n) (uint (c * 4) + fat_offset (table s)) s of (w, s') \<Rightarrow>
        Some (if w \<le> 0 then s'\<lparr>errno := EIO\<rparr> else s'\<lparr>table := set_fat c n (table s)\<rparr>))"
  using entry_offset [OF assms]
  by (auto simp: fat_table_set_next_cluster_def sys_pwrite_def Let_def aset_in
      split: list.splits fault.splits)

text \<open>Every call of \<open>set_next_cluster\<close> on a valid cluster returns; without faults it writes both
  copies of the entry.\<close>

lemma set_next_ok:
  assumes "table_wf (table s)" "valid_cluster (table s) c" "faults s = []"
  shows "fat_table_set_next_cluster c n s = Some (s\<lparr>
     content := write_at (nat (fat_offset (table s)) + 4 * unat c) (le32_bytes n) (content s),
     table := set_fat c n (table s)\<rparr>)"
  unfolding set_next_cases [OF assms(1,2)] sys_pwrite_def
  using entry_offset(1,2) [OF assms(1,2)] assms(3)
  by (simp only: not_less [symmetric] if_False if_True refl list.case) simp

lemma set_next_total:
  assumes "table_wf (table s)" "valid_cluster (table s) c"
  obtains s' where "fat_table_set_next_cluster c n s = Some s'"
    "table s' = table s \<or> table s' = set_fat c n (table s)"
proof -
  obtain w s1 where w: "sys_pwrite (le32_bytes n) (uint (c * 4) + fat_offset (table s)) s = (w, s1)"
    by fastforce
  then have "table s1 = table s"
    by (auto simp: sys_pwrite_def split: if_splits list.splits fault.splits)
  with w show thesis
    by (intro that [of "if w \<le> 0 then s1\<lparr>errno := EIO\<rparr> else s1\<lparr>table := set_fat c n (table s)\<rparr>"])
       (simp_all add: set_next_cases [OF assms])
qed

text \<open>The two copies of the table agree: the bytes on the volume are those of the entries.\<close>

definition fat_entry_on_disk :: "'a tstate_scheme \<Rightarrow> nat \<Rightarrow> u8 list" where
  "fat_entry_on_disk s j = take 4 (drop (nat (fat_offset (table s)) + 4 * j) (content s))"

definition fat_synced :: "'a tstate_scheme \<Rightarrow> bool" where
  "fat_synced s \<longleftrightarrow>
     (\<forall>j<length (fat_map (table s)). fat_entry_on_disk s j = le32_bytes (fat_map (table s) ! j))"

lemma write_at_other:
  assumes "i + k \<le> off \<or> off + length bs \<le> i" "i + k \<le> length d"
  shows "take k (drop i (write_at off bs d)) = take k (drop i d)"
  using assms by (intro nth_equalityI) (auto simp: nth_write_at length_write_at)

lemma write_at_same:
  assumes "off + length bs \<le> length d"
  shows "take (length bs) (drop off (write_at off bs d)) = bs"
  using assms by (intro nth_equalityI) (auto simp: nth_write_at length_write_at)

lemma write_at_Nil: "off \<le> length d \<Longrightarrow> write_at off [] d = d"
  by (simp add: write_at_def)

lemma length_fat_entry: "fat_entry_on_disk s j = le32_bytes v \<Longrightarrow>
    nat (fat_offset (table s)) + 4 * j + 4 \<le> length (content s)"
proof -
  assume "fat_entry_on_disk s j = le32_bytes v"
  then have "length (fat_entry_on_disk s j) = 4" by simp
  then show ?thesis by (simp add: fat_entry_on_disk_def)
qed

text \<open>
  The copy of the allocation table in memory and the one on the volume stay equal across an
  update of an entry, also when the volume refuses the write or transfers none of its bytes: the
  memory is changed only after the write. (The one exception is a write cut short inside the
  entry's four bytes, which the code takes for a success.)
\<close>

theorem fat_table_set_next_cluster_synced:
  assumes "table_wf (table s)" and "valid_cluster (table s) c" and "fat_synced s"
    and "case faults s of Short k # _ \<Rightarrow> k = 0 \<or> 4 \<le> k | _ \<Rightarrow> True"
  shows "\<exists>s'. fat_table_set_next_cluster c n s = Some s' \<and> fat_synced s' \<and>
     (errno s' = errno s \<longrightarrow> errno s \<noteq> EIO \<longrightarrow> table s' = set_fat c n (table s))"
proof -
  let ?e = "nat (fat_offset (table s)) + 4 * unat c"
  let ?s = "s\<lparr>content := write_at ?e (le32_bytes n) (content s), table := set_fat c n (table s)\<rparr>"
  let ?o = "uint (c * 4) + fat_offset (table s)"
  have off: "nat ?o = ?e" "\<not> ?o < 0"
    using entry_offset(1,2) [OF assms(1,2)] by (simp, linarith)
  have c: "unat c < length (fat_map (table s))" by (rule valid_cluster_in_map [OF assms(1,2)])
  have room: "nat (fat_offset (table s)) + 4 * j + 4 \<le> length (content s)"
    if "j < length (fat_map (table s))" for j
    using assms(3) that by (auto simp: fat_synced_def intro: length_fat_entry)
  have written: "fat_synced ?s"
    unfolding fat_synced_def
  proof (intro allI impI)
    fix j assume "j < length (fat_map (table ?s))"
    then have j: "j < length (fat_map (table s))" by simp
    show "fat_entry_on_disk ?s j = le32_bytes (fat_map (table ?s) ! j)"
    proof (cases "j = unat c")
      case True
      with room [OF c] write_at_same [of ?e "le32_bytes n" "content s"] c show ?thesis
        by (simp add: fat_entry_on_disk_def)
    next
      case False
      then have "j + 1 \<le> unat c \<or> unat c + 1 \<le> j" by linarith
      then have "nat (fat_offset (table s)) + 4 * j + 4 \<le> ?e \<or>
          ?e + length (le32_bytes n) \<le> nat (fat_offset (table s)) + 4 * j"
        by auto
      from write_at_other [OF this room [OF j]] False assms(3) j show ?thesis
        by (simp add: fat_entry_on_disk_def fat_synced_def)
    qed
  qed
  have same: "fat_synced (s\<lparr>faults := f, errno := e\<rparr>) = fat_synced s"
    "fat_synced (?s\<lparr>faults := f\<rparr>) = fat_synced ?s" for f e
    by (simp_all add: fat_synced_def fat_entry_on_disk_def)
  show ?thesis
  proof (cases "faults s")
    case Nil
    with set_next_ok [OF assms(1,2) Nil, of n] written show ?thesis by simp
  next
    case (Cons f fs)
    have fail: ?thesis if "sys_pwrite (le32_bytes n) ?o s = (w, s\<lparr>faults := fs, errno := e\<rparr>)" "w \<le> 0"
      for w e
      using that same(1) [of EIO fs] assms(3) by (simp add: set_next_cases [OF assms(1,2)])
    show ?thesis
    proof (cases f)
      case (Fail e)
      have "sys_pwrite (le32_bytes n) ?o s = (-1, s\<lparr>faults := fs, errno := e\<rparr>)"
        unfolding sys_pwrite_def if_not_P [OF off(2)] Cons Fail by simp
      then show ?thesis by (rule fail) simp
    next
      case (Short k)
      consider "k = 0" | "4 \<le> k" using Cons Short assms(4) by auto
      then show ?thesis
      proof cases
        case 1
        have "sys_pwrite (le32_bytes n) ?o s = (0, s\<lparr>faults := fs, errno := errno s\<rparr>)"
          unfolding sys_pwrite_def if_not_P [OF off(2)] Cons Short off(1) 1
          using room [OF c] by (simp add: write_at_Nil)
        then show ?thesis by (rule fail) simp
      next
        case 2
        have "sys_pwrite (le32_bytes n) ?o s =
            (4, s\<lparr>content := write_at ?e (le32_bytes n) (content s), faults := fs\<rparr>)"
          unfolding sys_pwrite_def if_not_P [OF off(2)] Cons Short off(1)
          using 2 by simp
        then have "fat_table_set_next_cluster c n s = Some (?s\<lparr>faults := fs\<rparr>)"
          by (simp add: set_next_cases [OF assms(1,2)])
        with same(2) [of fs] written show ?thesis by auto
      qed
    qed
  qed
qed

text \<open>A volume that holds the small table.\<close>

definition small_volume :: tstate where
  "small_volume = \<lparr>content = concat (map le32_bytes (fat_map small_table)) @ replicate 200 0,
     faults = [Fail EINTR], errno = 0, table = small_table\<rparr>"

lemma small_volume_synced: "fat_synced small_volume"
  by (simp add: fat_synced_def small_volume_def small_table_def All_less_Suc fat_entry_on_disk_def
      le32_bytes_def)

theorem fat_table_set_next_cluster_synced_witness:
  "\<exists>s'. fat_table_set_next_cluster 3 FAT_CLUSTER_END_OF_CHAIN small_volume = Some s' \<and> fat_synced s'"
proof -
  have "table_wf (table small_volume)" "valid_cluster (table small_volume) 3"
    "case faults small_volume of Short k # _ \<Rightarrow> k = 0 \<or> 4 \<le> k | _ \<Rightarrow> True"
    using small_table_wf
    by (simp_all add: small_volume_def, simp add: small_table_def fat_table_is_valid_cluster_number_def)
  from fat_table_set_next_cluster_synced [OF this(1,2) small_volume_synced this(3)]
  show ?thesis by blast
qed

section \<open>Chains under updates\<close>

lemma get_next_set_fat:
  assumes "unat c < length (fat_map t)"
  shows "fat_table_get_next_cluster (set_fat c n t) d =
     (if d = c then Some (if valid_cluster t n then n else FAT_CLUSTER_END_OF_CHAIN)
      else fat_table_get_next_cluster t d)"
  using assms by (auto simp: fat_table_get_next_cluster_def aget_def nth_list_update word_unat_eq_iff)

lemma chain_set_fat_other:
  assumes "unat c < length (fat_map t)"
  shows "c \<notin> set cs \<Longrightarrow> chain (set_fat c n t) d cs = chain t d cs"
proof (induction cs arbitrary: d)
  case (Cons x xs)
  then show ?case using get_next_set_fat [OF assms, of n d] by (auto split: option.splits)
qed simp

text \<open>Cutting a chain after one of its clusters.\<close>

lemma chain_cut:
  assumes "table_wf t"
  shows "chain t d (us @ c # vs) \<Longrightarrow> chain (set_fat c FAT_CLUSTER_END_OF_CHAIN t) d (us @ [c])"
proof (induction us arbitrary: d)
  case Nil
  then show ?case
    using valid_cluster_in_map [OF assms] get_next_set_fat [of c t FAT_CLUSTER_END_OF_CHAIN c]
      EOC_not_valid [OF assms] by simp
next
  case (Cons x xs)
  have "distinct (x # xs @ c # vs)" using chain_distinct [OF assms Cons.prems] by simp
  then have "x \<noteq> c" by auto
  have "valid_cluster t c" using chain_valid [OF Cons.prems, of c] by simp
  then have "unat c < length (fat_map t)" by (rule valid_cluster_in_map [OF assms])
  note g = get_next_set_fat [OF this, of FAT_CLUSTER_END_OF_CHAIN x]
  show ?case using Cons.prems Cons.IH g \<open>x \<noteq> c\<close> by (auto split: option.splits)
qed

text \<open>Appending a cluster to a chain.\<close>

lemma chain_extend:
  assumes "table_wf t" "valid_cluster t n"
  shows "chain t d (us @ [c]) \<Longrightarrow> n \<notin> set (us @ [c]) \<Longrightarrow>
     chain (set_fat n FAT_CLUSTER_END_OF_CHAIN (set_fat c n t)) d (us @ [c, n])"
proof (induction us arbitrary: d)
  case Nil
  let ?t = "set_fat c n t"
  have c: "unat c < length (fat_map t)" "valid_cluster t c"
    using Nil valid_cluster_in_map [OF assms(1)] by (auto split: option.splits)
  have n: "unat n < length (fat_map ?t)" using valid_cluster_in_map [OF assms] by simp
  have "fat_table_get_next_cluster (set_fat n FAT_CLUSTER_END_OF_CHAIN ?t) c = Some n"
    using get_next_set_fat [OF n, of FAT_CLUSTER_END_OF_CHAIN c] get_next_set_fat [OF c(1), of n c]
      Nil assms(2) by simp
  moreover have "fat_table_get_next_cluster (set_fat n FAT_CLUSTER_END_OF_CHAIN ?t) n =
      Some FAT_CLUSTER_END_OF_CHAIN"
    using get_next_set_fat [OF n, of FAT_CLUSTER_END_OF_CHAIN n] EOC_not_valid [OF assms(1)] by simp
  ultimately show ?case using Nil c assms(2) by simp
next
  case (Cons x xs)
  let ?t = "set_fat c n t"
  have "distinct (x # xs @ [c])" using chain_distinct [OF assms(1) Cons.prems(1)] by simp
  then have x: "x \<noteq> c" "x \<noteq> n" using Cons.prems(2) by auto
  have "valid_cluster t c" using chain_valid [OF Cons.prems(1), of c] by simp
  then have c: "unat c < length (fat_map t)" by (rule valid_cluster_in_map [OF assms(1)])
  have n: "unat n < length (fat_map ?t)" using valid_cluster_in_map [OF assms] by simp
  have "fat_table_get_next_cluster (set_fat n FAT_CLUSTER_END_OF_CHAIN ?t) x =
      fat_table_get_next_cluster t x"
    using get_next_set_fat [OF n, of FAT_CLUSTER_END_OF_CHAIN x] get_next_set_fat [OF c, of n x] x
    by simp
  with Cons show ?case by (auto split: option.splits)
qed

end
