(* ===== verification/Fat_Name.thy ===== *)
theory Fat_Name
  imports Prelude
begin

text \<open>
  Names of files in a FAT volume, \<open>lab4/esqueleto/fat_filename_util.c\<close>, and the recognition of
  the driver's log file, \<open>lab4/esqueleto/big_brother.c\<close>.

  A \<open>char *\<close> argument is the memory from the pointer on, as a list of bytes; a read
  past its end is not a normal return. Where a function treats its argument as a C string and
  nothing else, the model takes the bytes before the terminating zero.
\<close>

section \<open>C strings\<close>

definition bytes_of :: "string \<Rightarrow> u8 list" where
  "bytes_of s = map of_char s"

text \<open>The string that a memory area starts with.\<close>

definition cstr :: "u8 list \<Rightarrow> u8 list" where
  "cstr m = takeWhile (\<lambda>c. c \<noteq> 0) m"

fun strncmp :: "nat \<Rightarrow> u8 list \<Rightarrow> u8 list \<Rightarrow> int option" where
  "strncmp 0 a b = Some 0"
| "strncmp (Suc n) (x # a) (y # b) =
     (if x \<noteq> y \<or> x = 0 then Some (uint x - uint y) else strncmp n a b)"
| "strncmp (Suc n) a b = None"

text \<open>\<open>strrchr\<close>: the position of the last occurrence in the string; it needs the terminator.\<close>

definition strrchr :: "u8 list \<Rightarrow> u8 \<Rightarrow> nat option option" where
  "strrchr m c =
     (if 0 \<notin> set m then None
      else Some (let s = cstr m in
        if c \<notin> set s then None else Some (length s - 1 - length (takeWhile (\<lambda>x. x \<noteq> c) (rev s)))))"

text \<open>\<open>basename\<close> of a path: what follows its last slash.\<close>

definition basename :: "u8 list \<Rightarrow> u8 list" where
  "basename path = rev (takeWhile (\<lambda>c. c \<noteq> 0x2F) (rev path))"

section \<open>fat_filename_util.c\<close>

definition FAT_CHAR_LEGAL_IN_FILENAME :: u8 where "FAT_CHAR_LEGAL_IN_FILENAME = 1"
definition PATH_SEPARATOR :: u8 where "PATH_SEPARATOR = 0x2F"

definition fat_char_tab :: "u8 \<Rightarrow> u8" where
  "fat_char_tab c =
     (if 0x61 \<le> c \<and> c \<le> 0x7A \<or> 0x41 \<le> c \<and> c \<le> 0x5A \<or> 0x30 \<le> c \<and> c \<le> 0x39 \<or> 128 \<le> c \<or>
         c \<in> set (bytes_of '' $%-_@~`!(){}^#&'')
      then FAT_CHAR_LEGAL_IN_FILENAME else 0)"

fun inline_strcmp :: "u8 list \<Rightarrow> u8 list \<Rightarrow> int option" where
  "inline_strcmp (x # a) (y # b) =
     (if x \<noteq> 0 \<and> x = y then inline_strcmp a b else Some (sint x - sint y))"
| "inline_strcmp a b = None"

definition char_legal_in_filename :: "u8 \<Rightarrow> bool" where
  "char_legal_in_filename c \<longleftrightarrow> fat_char_tab c AND FAT_CHAR_LEGAL_IN_FILENAME \<noteq> 0"

text \<open>The two scans, on the bytes of the array that are left.\<close>

fun basename_scan :: "u8 list \<Rightarrow> bool" where
  "basename_scan [] = True"
| "basename_scan (c # cs) =
     (if \<not> char_legal_in_filename c then False
      else case cs of [] \<Rightarrow> True
           | d # _ \<Rightarrow> if d \<noteq> 0 \<and> d \<noteq> 0x20 then basename_scan cs else True)"

definition file_basename_valid :: "u8 list \<Rightarrow> bool" where
  "file_basename_valid base_name =
     (if base_name ! 0 = 0 \<or> base_name ! 0 = 0x20 \<or> base_name ! 0 = 0xe5 then False
      else basename_scan base_name)"

fun file_extension_valid :: "u8 list \<Rightarrow> bool" where
  "file_extension_valid [] = True"
| "file_extension_valid (c # cs) =
     (if c \<noteq> 0 \<and> c \<noteq> 0x20
      then if \<not> char_legal_in_filename c then False else file_extension_valid cs
      else True)"

text \<open>A do-while loop; with \<open>max_len\<close> 0 the first read would be before the array.\<close>

fun filename_len :: "u8 list \<Rightarrow> nat \<Rightarrow> nat option" where
  "filename_len name 0 = None"
| "filename_len name (Suc n) = do {
     c \<leftarrow> aget name n;
     if c \<noteq> 0x20 \<and> c \<noteq> 0 then Some (Suc n)
     else if n > 0 then filename_len name n
     else Some 0 }"

text \<open>The bytes stored at \<open>dst_name_p\<close>, the terminator included.\<close>

definition build_filename :: "u8 list \<Rightarrow> u8 list \<Rightarrow> u8 list option" where
  "build_filename src_name src_extension = do {
     name_len \<leftarrow> filename_len src_name 8;
     if name_len = 0 then Some [0x2F, 0]
     else do {
       extension_len \<leftarrow> filename_len src_extension 3;
       Some (take name_len src_name @
             (if extension_len \<noteq> 0 then 0x2E # take extension_len src_extension else []) @ [0]) } }"

text \<open>
  The pointers \<open>base\<close> and \<open>extension\<close> point into one object, the directory entry: they are
  indices into its bytes \<open>mem\<close>. The first loop is a do-while; the second has no bound but the
  end of the name.
\<close>

function base_loop :: "u8 list \<Rightarrow> nat \<Rightarrow> nat option \<Rightarrow> nat \<Rightarrow> nat \<Rightarrow> u8 list \<Rightarrow>
    (nat \<times> u8 list) option" where
  "base_loop src name_len dot_pos b i mem = do {
     c \<leftarrow> aget src i;
     mem \<leftarrow> aset mem (b + i) c;
     if i + 1 < name_len \<and> Some (i + 1) \<noteq> dot_pos
     then base_loop src name_len dot_pos b (i + 1) mem
     else Some (i + 1, mem) }"
  by pat_completeness auto
termination
  by (relation "measure (\<lambda>(src, name_len, d, b, i, mem). name_len - i)") auto

function ext_loop :: "u8 list \<Rightarrow> nat \<Rightarrow> nat \<Rightarrow> nat \<Rightarrow> u8 list \<Rightarrow> (nat \<times> u8 list) option" where
  "ext_loop src i e j mem =
     (case aget src i of
        None \<Rightarrow> None
      | Some c \<Rightarrow>
          if c \<noteq> 0x20 \<and> c \<noteq> 0
          then do { mem \<leftarrow> aset mem (e + j) c; ext_loop src (i + 1) e (j + 1) mem }
          else Some (j, mem))"
  by pat_completeness auto
termination
  by (relation "measure (\<lambda>(src, i, e, j, mem). length src - i)") auto

declare base_loop.simps [simp del] ext_loop.simps [simp del]

definition filename_from_path :: "u8 list \<Rightarrow> u8 list \<Rightarrow> nat \<Rightarrow> nat \<Rightarrow> u8 list option" where
  "filename_from_path src mem b e = do {
     name_len \<leftarrow> filename_len src 8;
     if name_len = 0 then do { mem \<leftarrow> aset mem b 0; aset mem e 0 }
     else do {
       dot_pos \<leftarrow> strrchr src 0x2E;
       (i, mem) \<leftarrow> base_loop src name_len dot_pos b 0 mem;
       (j, mem) \<leftarrow> (if dot_pos \<noteq> None \<and> i < name_len then ext_loop src (i + 1) e 0 mem
                   else Some (0, mem));
       if j < 3 then aset mem (e + j + 1) 0 else Some mem } }"

text \<open>The bytes reserved for the path, and the path, without its terminator.\<close>

definition filepath_from_name :: "u8 list \<Rightarrow> u8 list \<Rightarrow> (nat \<times> u8 list) option" where
  "filepath_from_name parent_filepath file_name = do {
     let filepath_len = length parent_filepath;
     let name_len = length file_name;
     let reserved = filepath_len + name_len + 1;
     let filepath = parent_filepath;
     c \<leftarrow> (if filepath_len = 0 then None else aget parent_filepath (filepath_len - 1));
     let filepath = (if c \<noteq> PATH_SEPARATOR then filepath @ [PATH_SEPARATOR] else filepath);
     Some (reserved, filepath @ file_name) }"

section \<open>big_brother.c\<close>

definition LOG_FILE :: "u8 list" where "LOG_FILE = bytes_of ''/fs.log'' @ [0]"
definition LOG_FILE_BASENAME :: "u8 list" where "LOG_FILE_BASENAME = bytes_of ''fs'' @ [0]"
definition LOG_FILE_EXTENSION :: "u8 list" where "LOG_FILE_EXTENSION = bytes_of ''log'' @ [0]"

definition is_log_file_dentry :: "u8 list \<Rightarrow> u8 list \<Rightarrow> bool option" where
  "is_log_file_dentry base_name extension = do {
     b \<leftarrow> strncmp 3 LOG_FILE_BASENAME base_name;
     if b = 0 then do { e \<leftarrow> strncmp 3 LOG_FILE_EXTENSION extension; Some (e = 0) }
     else Some False }"

definition is_log_filepath :: "u8 list \<Rightarrow> bool option" where
  "is_log_filepath filepath = map_option (\<lambda>r. r = 0) (strncmp 8 LOG_FILE (filepath @ [0]))"

section \<open>Scanning names\<close>

abbreviation name_char :: "u8 \<Rightarrow> bool" where
  "name_char c \<equiv> c \<noteq> 0x20 \<and> c \<noteq> 0"

lemma filename_len_eq:
  "0 < n \<Longrightarrow> n \<le> length name \<Longrightarrow>
   filename_len name n = Some (length (dropWhile (\<lambda>c. \<not> name_char c) (rev (take n name))))"
proof (induction n)
  case (Suc n)
  have t: "rev (take (Suc n) name) = name ! n # rev (take n name)"
    using Suc.prems by (simp add: take_Suc_conv_app_nth)
  show ?case
  proof (cases "name_char (name ! n)")
    case True
    then show ?thesis using Suc.prems t by (simp add: aget_in)
  next
    case False
    show ?thesis
    proof (cases n)
      case 0
      then show ?thesis using Suc.prems False t by (auto simp: aget_def)
    next
      case (Suc m)
      have "filename_len name (Suc n) = filename_len name n"
        using Suc Suc.prems False by (subst filename_len.simps(2)) (auto simp: aget_in)
      with Suc Suc.IH Suc.prems False t show ?thesis by auto
    qed
  qed
qed simp

lemma dropWhile_reaches:
  "i < length xs \<Longrightarrow> \<not> P (xs ! i) \<Longrightarrow> i < length (dropWhile P (rev xs))"
proof (induction xs rule: rev_induct)
  case (snoc x xs)
  then show ?case by (cases "i = length xs") (auto simp: nth_append less_Suc_eq)
qed simp

lemma filename_len_le: "filename_len name n = Some k \<Longrightarrow> k \<le> n"
proof (induction n)
  case (Suc n)
  then show ?case
    by (auto simp: bind_eq_Some_conv split: if_splits)
qed simp

lemma filename_len_full:
  "0 < n \<Longrightarrow> n \<le> length name \<Longrightarrow> name_char (name ! (n - 1)) \<Longrightarrow> filename_len name n = Some n"
  by (cases n) (auto simp: aget_in)

text \<open>A field that holds a name and zeros has the length of the name.\<close>

lemma filename_len_padded:
  assumes "xs \<noteq> []" "\<forall>c\<in>set xs. name_char c" "length xs \<le> n"
  shows "filename_len (xs @ replicate (n - length xs) 0 @ ys) n = Some (length xs)"
proof -
  have "take n (xs @ replicate (n - length xs) 0 @ ys) = xs @ replicate (n - length xs) 0"
    using assms(3) by simp
  then have "rev (take n (xs @ replicate (n - length xs) 0 @ ys)) =
      replicate (n - length xs) 0 @ rev xs" by simp
  moreover have "dropWhile (\<lambda>c. \<not> name_char c) (replicate k 0 @ rev xs) = rev xs" for k
  proof (induction k)
    case 0
    have "name_char (last xs)" using assms(1,2) by simp
    with assms(1) show ?case by (cases xs rule: rev_cases) auto
  qed simp
  moreover have "0 < n" using assms(1,3) by (cases xs) auto
  ultimately show ?thesis using assms(3) by (subst filename_len_eq) simp_all
qed

lemma length_build_filename:
  assumes "build_filename base ext = Some name"
  shows "length name \<le> 13"
  using assms filename_len_le [of base 8] filename_len_le [of ext 3]
  by (fastforce simp: build_filename_def bind_eq_Some_conv split: if_splits)

lemma base_loop_run:
  assumes "i < n" "n \<le> length src" "b + n \<le> length mem"
    and "n = name_len \<or> (Some n = dot \<and> n < name_len)" "\<forall>k. i < k \<and> k < n \<longrightarrow> Some k \<noteq> dot"
  shows "base_loop src name_len dot b i mem =
     Some (n, take (b + i) mem @ take (n - i) (drop i src) @ drop (b + n) mem)"
  using assms
proof (induction "n - i" arbitrary: i mem)
  case (Suc d)
  let ?mem = "mem[b + i := src ! i]"
  have step: "base_loop src name_len dot b i mem =
      (if i + 1 < name_len \<and> Some (i + 1) \<noteq> dot then base_loop src name_len dot b (i + 1) ?mem
       else Some (i + 1, ?mem))"
    using Suc.prems by (subst base_loop.simps) (simp add: aget_in aset_in)
  have upd: "take (b + i + 1) ?mem = take (b + i) mem @ [src ! i]"
    "drop (b + n) ?mem = drop (b + n) mem"
    using Suc.prems by (simp_all add: take_Suc_conv_app_nth)
  have src: "take (n - i) (drop i src) = src ! i # take (n - (i + 1)) (drop (i + 1) src)"
    using Suc.prems by (subst Cons_nth_drop_Suc [symmetric]) (auto simp: take_Cons' )
  show ?case
  proof (cases "n = i + 1")
    case True
    have "?mem = take (b + i) mem @ [src ! i] @ drop (b + n) mem"
      using True Suc.prems by (simp add: upd_conv_take_nth_drop)
    with True Suc.prems(4) step src show ?thesis by auto
  next
    case False
    with Suc.prems have go: "i + 1 < name_len \<and> Some (i + 1) \<noteq> dot" by auto
    have "base_loop src name_len dot b (i + 1) ?mem =
        Some (n, take (b + (i + 1)) ?mem @ take (n - (i + 1)) (drop (i + 1) src) @ drop (b + n) ?mem)"
      using Suc.hyps(2) Suc.prems False by (intro Suc.hyps(1)) auto
    with go step upd src show ?thesis by (simp add: add.assoc)
  qed
qed simp

lemma ext_loop_run:
  assumes "\<forall>c\<in>set ext. name_char c" "\<not> name_char c"
  shows "e + j + length ext \<le> length mem \<Longrightarrow>
   ext_loop (us @ ext @ c # rest) (length us) e j mem =
     Some (j + length ext, take (e + j) mem @ ext @ drop (e + j + length ext) mem)"
  using assms(1)
proof (induction ext arbitrary: us j mem)
  case Nil
  with assms(2) show ?case by (subst ext_loop.simps) (auto simp: aget_in)
next
  case (Cons x xs)
  have "ext_loop ((us @ [x]) @ xs @ c # rest) (length (us @ [x])) e (j + 1) (mem[e + j := x]) =
     Some (j + 1 + length xs, take (e + (j + 1)) (mem[e + j := x]) @ xs @
       drop (e + (j + 1) + length xs) (mem[e + j := x]))"
    using Cons.prems by (intro Cons.IH) auto
  then show ?case using Cons.prems
    by (subst ext_loop.simps) (simp add: aget_in aset_in nth_append take_Suc_conv_app_nth)
qed

lemma ext_loop_overrun:
  assumes "\<forall>c\<in>set ext. name_char c"
  shows "length mem < e + j + length ext \<Longrightarrow> e + j \<le> length mem \<Longrightarrow>
   ext_loop (us @ ext @ rest) (length us) e j mem = None"
  using assms
proof (induction ext arbitrary: us j mem)
  case (Cons x xs)
  show ?case
  proof (cases "e + j < length mem")
    case True
    have "ext_loop ((us @ [x]) @ xs @ rest) (length (us @ [x])) e (j + 1) (mem[e + j := x]) = None"
      using Cons.prems True by (intro Cons.IH) auto
    then show ?thesis using Cons.prems True
      by (subst ext_loop.simps) (simp add: aget_in aset_in nth_append)
  next
    case False
    then show ?thesis using Cons.prems
      by (subst ext_loop.simps) (simp add: aget_in nth_append aset_def)
  qed
qed simp

lemma strrchr_last:
  assumes "c \<notin> set b" "0 \<notin> set a" "0 \<notin> set b" "c \<noteq> 0"
  shows "strrchr (a @ c # b @ 0 # rest) c = Some (Some (length a))"
proof -
  have "takeWhile (\<lambda>c. c \<noteq> 0) (xs @ 0 # rest) = xs" if "0 \<notin> set xs" for xs
    using that by (induction xs) auto
  from this [of "a @ c # b"] have s: "cstr (a @ c # b @ 0 # rest) = a @ c # b"
    using assms by (simp add: cstr_def)
  have "takeWhile (\<lambda>x. x \<noteq> c) (rev b @ c # rev a) = rev b"
    using assms(1) by (subst takeWhile_append2) auto
  then show ?thesis unfolding strrchr_def s by simp
qed

section \<open>Names in and out of a directory entry\<close>

text \<open>A name and its extension, as files are usually called: \<open>base.ext\<close>.\<close>

definition plain_part :: "u8 list \<Rightarrow> bool" where
  "plain_part xs \<longleftrightarrow> xs \<noteq> [] \<and> (\<forall>c\<in>set xs. name_char c \<and> c \<noteq> 0x2E)"

lemma replicate_update: "(replicate n x)[i := x] = replicate n x"
  by (induction n arbitrary: i) (auto split: nat.split)

lemma filename_from_path_run:
  assumes "plain_part base" "plain_part ext" "length base \<le> 7"
    and "length ext \<le> 24" "8 \<le> length (base @ 0x2E # ext @ 0 # pad)"
  shows "filename_from_path (base @ 0x2E # ext @ 0 # pad) (replicate 32 0) 0 8 =
     Some (base @ replicate (8 - length base) 0 @ ext @ replicate (24 - length ext) 0)"
proof -
  let ?src = "base @ 0x2E # ext @ 0 # pad" and ?z = "replicate 32 (0::u8)"
  let ?mem1 = "base @ replicate (32 - length base) 0"
  let ?mem2 = "base @ replicate (8 - length base) 0 @ ext @ replicate (24 - length ext) 0"
  obtain k where k: "filename_len ?src 8 = Some k"
    "k = length (dropWhile (\<lambda>c. \<not> name_char c) (rev (take 8 ?src)))"
    using filename_len_eq [OF _ assms(5)] by simp
  have "length base < length (take 8 ?src)" using assms(3,5) by simp
  moreover have "\<not> \<not> name_char (take 8 ?src ! length base)" using assms(3) by (simp add: nth_append)
  ultimately have "length base < k" unfolding k(2) by (rule dropWhile_reaches)
  moreover have dot: "strrchr ?src 0x2E = Some (Some (length base))"
    using assms(1,2) by (intro strrchr_last) (auto simp: plain_part_def)
  moreover have "base_loop ?src k (Some (length base)) 0 0 ?z = Some (length base, ?mem1)"
    using base_loop_run [of 0 "length base" ?src 0 ?z k "Some (length base)"] \<open>length base < k\<close> assms(1,3)
    by (auto simp: plain_part_def)
  moreover have "ext_loop ?src (length base + 1) 8 0 ?mem1 = Some (length ext, ?mem2)"
  proof -
    have "take 8 ?mem1 = base @ replicate (8 - length base) 0"
      using assms(3) by simp
    moreover have "drop (8 + length ext) ?mem1 = replicate (24 - length ext) 0"
      using assms(3,4) by simp
    ultimately show ?thesis
      using ext_loop_run [of ext 0 8 0 ?mem1 "base @ [0x2E]" pad] assms(2-4)
      by (simp add: plain_part_def)
  qed
  moreover have "aset ?mem2 (8 + length ext + 1) 0 = Some ?mem2" if "length ext < 3"
    using that assms(3) by (simp add: aset_in list_update_append replicate_update)
  ultimately show ?thesis
    using k(1) by (simp add: filename_from_path_def)
qed

lemma aset_length: "aset xs i x = Some ys \<Longrightarrow> length ys = length xs"
  by (auto simp: aset_def split: if_splits)

lemma base_loop_length: "base_loop src n d b i mem = Some (j, mem') \<Longrightarrow> length mem' = length mem"
proof (induction src n d b i mem rule: base_loop.induct)
  case (1 src n d b i mem)
  then obtain c m where c: "aget src i = Some c" "aset mem (b + i) c = Some m"
    "(if i + 1 < n \<and> Some (i + 1) \<noteq> d then base_loop src n d b (i + 1) m else Some (i + 1, m)) =
       Some (j, mem')"
    by (subst (asm) (2) base_loop.simps) (auto simp: bind_eq_Some_conv)
  then show ?case using "1.IH" [OF c(1,2)] aset_length [OF c(2)] by (auto split: if_splits)
qed

lemma ext_loop_length: "ext_loop src i e j mem = Some (k, mem') \<Longrightarrow> length mem' = length mem"
proof (induction src i e j mem rule: ext_loop.induct)
  case (1 src i e j mem)
  obtain c where c: "aget src i = Some c"
    using "1.prems" by (subst (asm) ext_loop.simps) (auto split: option.splits)
  show ?case
  proof (cases "c \<noteq> 0x20 \<and> c \<noteq> 0")
    case True
    then obtain m where m: "aset mem (e + j) c = Some m"
      "ext_loop src (i + 1) e (j + 1) m = Some (k, mem')"
      using "1.prems" c by (subst (asm) ext_loop.simps) (auto simp: bind_eq_Some_conv)
    then show ?thesis using "1.IH" [OF c True m(1,2)] aset_length [OF m(1)] by simp
  next
    case False
    then show ?thesis using "1.prems" c by (subst (asm) ext_loop.simps) auto
  qed
qed

lemma filename_from_path_length:
  "filename_from_path src mem b e = Some mem' \<Longrightarrow> length mem' = length mem"
  by (auto simp: filename_from_path_def bind_eq_Some_conv aset_def split: if_splits
      dest!: base_loop_length ext_loop_length)

text \<open>
  Names of the form \<open>base.ext\<close> with at most seven characters before the dot and at most
  three after it survive a directory entry: splitting the name into the two fields of a fresh
  entry and building the name from the fields gives the name back, whatever bytes follow
  the name in memory.
\<close>

theorem short_name_roundtrip:
  assumes "plain_part base" and "plain_part ext" and "length base \<le> 7" and "length ext \<le> 3"
    and "8 \<le> length (base @ 0x2E # ext @ 0 # pad)"
  shows "\<exists>entry. filename_from_path (base @ 0x2E # ext @ 0 # pad) (replicate 32 0) 0 8 = Some entry \<and>
     build_filename (take 8 entry) (take 3 (drop 8 entry)) = Some (base @ 0x2E # ext @ [0])"
proof -
  let ?entry = "base @ replicate (8 - length base) 0 @ ext @ replicate (24 - length ext) 0"
  have "take 8 ?entry = base @ replicate (8 - length base) 0 @ []"
    "take 3 (drop 8 ?entry) = ext @ replicate (3 - length ext) 0 @ []"
    using assms(3,4) by (simp_all add: min_def)
  moreover have "filename_len (base @ replicate (8 - length base) 0 @ []) 8 = Some (length base)"
    "filename_len (ext @ replicate (3 - length ext) 0 @ []) 3 = Some (length ext)"
    using assms(1-4) by (intro filename_len_padded; auto simp: plain_part_def)+
  ultimately have "build_filename (take 8 ?entry) (take 3 (drop 8 ?entry)) =
      Some (base @ 0x2E # ext @ [0])"
    using assms(1,2) by (simp add: build_filename_def plain_part_def)
  with filename_from_path_run [OF assms(1-3) _ assms(5)] assms(4) show ?thesis by auto
qed

theorem short_name_roundtrip_witness:
  "\<exists>entry. filename_from_path [0x61, 0x2E, 0x63, 0, 7, 7, 7, 7] (replicate 32 0) 0 8 = Some entry \<and>
     build_filename (take 8 entry) (take 3 (drop 8 entry)) = Some [0x61, 0x2E, 0x63, 0]"
  using short_name_roundtrip [of "[0x61]" "[0x63]" "[7, 7, 7, 7]"] by (simp add: plain_part_def)

text \<open>
  A base name of eight or more characters loses its extension: the loop that copies the
  base stops at the eighth character before it can see the dot. All names that start with the same
  eight characters get the same entry.
\<close>

theorem long_base_loses_extension:
  assumes "length base = 8" and "\<forall>c\<in>set base. name_char c \<and> c \<noteq> 0x2E"
    and "0 \<in> set rest"
  shows "filename_from_path (base @ rest) (replicate 32 0) 0 8 = Some (base @ replicate 24 0)"
proof -
  let ?src = "base @ rest" and ?z = "replicate 32 (0::u8)"
  have len: "filename_len ?src 8 = Some 8"
    using assms(1,2) by (intro filename_len_full) (auto simp: nth_append all_set_conv_all_nth)
  obtain dot where dot: "strrchr ?src 0x2E = Some dot"
    using assms(3) by (auto simp: strrchr_def Let_def)
  have far: "dot \<noteq> Some k" if "k < 8" for k
  proof
    assume "dot = Some k"
    let ?s = "cstr ?src" and ?p = "\<lambda>x::u8. x \<noteq> 0x2E"
    let ?n = "length (takeWhile ?p (rev ?s))"
    have in_s: "0x2E \<in> set ?s" and k: "k = length ?s - 1 - ?n"
      using dot assms(3) \<open>dot = Some k\<close> by (auto simp: strrchr_def Let_def split: if_splits)
    then have n: "?n < length ?s"
      using takeWhile_eq_all_conv [of ?p "rev ?s"] length_takeWhile_le [of ?p "rev ?s"]
      by (metis le_neq_implies_less length_rev set_rev takeWhile_eq_take take_all_iff order_refl)
    then have "\<not> ?p (rev ?s ! ?n)" using nth_length_takeWhile [of ?p "rev ?s"] by simp
    then have "?s ! k = 0x2E" using n k by (simp add: rev_nth)
    moreover have "?s ! k = base ! k"
      using that assms(1) n k by (simp add: cstr_def takeWhile_nth nth_append)
    ultimately show False using assms(1,2) that by (metis nth_mem)
  qed
  have "base_loop ?src 8 dot 0 0 ?z = Some (8, base @ replicate 24 0)"
    using base_loop_run [of 0 8 ?src 0 ?z 8 dot] far assms(1) by auto
  then show ?thesis
    using len dot assms(1)
    by (simp add: filename_from_path_def aset_in list_update_append replicate_update)
qed

theorem long_base_loses_extension_witness:
  "filename_from_path (bytes_of ''longname.txt'' @ [0]) (replicate 32 0) 0 8 =
     Some (bytes_of ''longname'' @ replicate 24 0) \<and>
   filename_from_path (bytes_of ''longname.c'' @ [0]) (replicate 32 0) 0 8 =
     Some (bytes_of ''longname'' @ replicate 24 0)"
proof -
  have "length (bytes_of ''longname'') = 8"
    "\<forall>c\<in>set (bytes_of ''longname''). name_char c \<and> c \<noteq> 0x2E"
    by (simp_all add: bytes_of_def of_char_Char)
  note r = long_base_loses_extension [OF this]
  from r [of "bytes_of ''.txt'' @ [0]"] r [of "bytes_of ''.c'' @ [0]"] show ?thesis
    by (simp add: bytes_of_def)
qed

text \<open>
  An extension of more than 24 characters is written past the end of the 32-byte entry:
  the copy of the extension has no bound.
\<close>

theorem long_extension_overruns:
  assumes "plain_part base" and "plain_part ext" and "length base \<le> 7" and "24 < length ext"
  shows "filename_from_path (base @ 0x2E # ext @ 0 # pad) (replicate 32 0) 0 8 = None"
proof -
  let ?src = "base @ 0x2E # ext @ 0 # pad" and ?z = "replicate 32 (0::u8)"
  let ?mem1 = "base @ replicate (32 - length base) 0"
  have "8 \<le> length ?src" using assms(4) by simp
  then obtain k where k: "filename_len ?src 8 = Some k"
    "k = length (dropWhile (\<lambda>c. \<not> name_char c) (rev (take 8 ?src)))"
    using filename_len_eq [of 8 ?src] by simp
  have "length base < length (take 8 ?src)" using assms(3,4) by simp
  moreover have "\<not> \<not> name_char (take 8 ?src ! length base)" using assms(3) by (simp add: nth_append)
  ultimately have "length base < k" unfolding k(2) by (rule dropWhile_reaches)
  moreover have "strrchr ?src 0x2E = Some (Some (length base))"
    using assms(1,2) by (intro strrchr_last) (auto simp: plain_part_def)
  moreover have "base_loop ?src k (Some (length base)) 0 0 ?z = Some (length base, ?mem1)"
    using base_loop_run [of 0 "length base" ?src 0 ?z k "Some (length base)"] \<open>length base < k\<close> assms(1,3)
    by (auto simp: plain_part_def)
  moreover have "ext_loop ?src (length base + 1) 8 0 ?mem1 = None"
    using ext_loop_overrun [of ext ?mem1 8 0 "base @ [0x2E]" "0 # pad"] assms(2-4)
    by (simp add: plain_part_def)
  ultimately show ?thesis
    using k(1) by (simp add: filename_from_path_def)
qed

theorem long_extension_overruns_witness:
  "filename_from_path (bytes_of ''a.bcdefghijklmnopqrstuvwxyz'' @ [0]) (replicate 32 0) 0 8 = None"
proof -
  have "plain_part (bytes_of ''a'')" "plain_part (bytes_of ''bcdefghijklmnopqrstuvwxyz'')"
    by (simp_all add: plain_part_def bytes_of_def of_char_Char)
  from long_extension_overruns [OF this, of "[]"] show ?thesis
    by (simp add: bytes_of_def of_char_Char)
qed

text \<open>
  The path of an entry and the memory reserved for it: below the root one byte is missing.
\<close>

lemma filepath_from_name_eq:
  "parent \<noteq> [] \<Longrightarrow> filepath_from_name parent name =
     Some (length parent + length name + 1,
       (if last parent \<noteq> 0x2F then parent @ [0x2F] else parent) @ name)"
  by (simp add: filepath_from_name_def Let_def aget_def last_conv_nth PATH_SEPARATOR_def)

text \<open>
  The path built for an entry of a directory other than the root (whose path does
  not end in a slash) needs, with its terminator, one byte more than the function reserves.
\<close>

theorem filepath_from_name_overrun:
  assumes "parent \<noteq> []" and "last parent \<noteq> 0x2F"
  shows "\<exists>reserved path. filepath_from_name parent name = Some (reserved, path) \<and>
     path = parent @ 0x2F # name \<and> length (path @ [0]) = reserved + 1"
  using assms by (simp add: filepath_from_name_eq)

theorem filepath_from_name_overrun_witness:
  "\<exists>reserved. filepath_from_name [0x2F, 0x61] [0x62] = Some (reserved, [0x2F, 0x61, 0x2F, 0x62]) \<and>
     length ([0x2F, 0x61, 0x2F, 0x62, 0] :: u8 list) = reserved + 1"
  using filepath_from_name_overrun [of "[0x2F, 0x61]" "[0x62]"] by simp

lemma inline_strcmp_refl:
  "0 \<in> set s \<Longrightarrow> inline_strcmp s s = Some 0"
  by (induction s) auto

end
