(* ===== verification/Fat_File.thy ===== *)
theory Fat_File
  imports Fat_Table Fat_Name
begin

text \<open>
  Files of a FAT volume, \<open>lab4/esqueleto/fat_file.c\<close>: directory entries and their 32 bytes
  on the volume, the file objects of the driver, and reading, writing and truncating files.

  File objects live in a heap, \<open>files\<close>: a reference is a number, a reference to an object
  that was freed (or never allocated) is not a normal return, and \<open>None\<close> is the null
  pointer. \<open>calloc\<close> fails when the list \<open>alloc_faults\<close> says so, call by call. The entry of a
  file is owned by its object; only the root may have none. All files belong to the one table of
  the volume. \<open>heap_pad\<close> is what lies in memory behind a string made by \<open>strdup\<close>.
\<close>

section \<open>Directory entries\<close>

definition FILE_ATTRIBUTE_READONLY :: u8 where "FILE_ATTRIBUTE_READONLY = 0x01"
definition FILE_ATTRIBUTE_SYSTEM :: u8 where "FILE_ATTRIBUTE_SYSTEM = 0x04"
definition FILE_ATTRIBUTE_VOLUME :: u8 where "FILE_ATTRIBUTE_VOLUME = 0x08"
definition FILE_ATTRIBUTE_DIRECTORY :: u8 where "FILE_ATTRIBUTE_DIRECTORY = 0x10"
definition FILE_ATTRIBUTE_ARCHIVE :: u8 where "FILE_ATTRIBUTE_ARCHIVE = 0x20"

lemmas attribute_defs = FILE_ATTRIBUTE_READONLY_def FILE_ATTRIBUTE_SYSTEM_def
  FILE_ATTRIBUTE_VOLUME_def FILE_ATTRIBUTE_DIRECTORY_def FILE_ATTRIBUTE_ARCHIVE_def

record fat_dir_entry_s =
  base_name :: "u8 list"
  extension :: "u8 list"
  attribs :: u8
  reserved :: u8
  create_time_fine_res :: u8
  create_time :: u16
  create_date :: u16
  last_access_date :: u16
  fat32_start_cluster_high :: u16
  last_modified_time :: u16
  last_modified_date :: u16
  start_cluster_low :: u16
  file_size :: u32

text \<open>The packed structure as bytes; the structure at an address is decoded from them.\<close>

definition entry_bytes :: "fat_dir_entry_s \<Rightarrow> u8 list" where
  "entry_bytes d = base_name d @ extension d @ [attribs d, reserved d, create_time_fine_res d] @
     le16_bytes (create_time d) @ le16_bytes (create_date d) @ le16_bytes (last_access_date d) @
     le16_bytes (fat32_start_cluster_high d) @ le16_bytes (last_modified_time d) @
     le16_bytes (last_modified_date d) @ le16_bytes (start_cluster_low d) @ le32_bytes (file_size d)"

definition entry_of_bytes :: "u8 list \<Rightarrow> fat_dir_entry_s" where
  "entry_of_bytes b = \<lparr>base_name = take 8 b, extension = take 3 (drop 8 b),
     attribs = b ! 11, reserved = b ! 12, create_time_fine_res = b ! 13,
     create_time = le16_val (drop 14 b), create_date = le16_val (drop 16 b),
     last_access_date = le16_val (drop 18 b), fat32_start_cluster_high = le16_val (drop 20 b),
     last_modified_time = le16_val (drop 22 b), last_modified_date = le16_val (drop 24 b),
     start_cluster_low = le16_val (drop 26 b), file_size = le32_val (drop 28 b)\<rparr>"

section \<open>File objects\<close>

text \<open>The union of \<open>dir.nentries\<close> and \<open>file.num_clusters\<close> is one field.\<close>

record fat_file_s =
  dentry :: "fat_dir_entry_s option"
  fname :: "u8 list"
  filepath :: "u8 list"
  start_cluster :: u32
  nentries :: u32
  pos_in_parent :: u32
  num_times_opened :: "31 word"
  children_read :: bool

record fstate = tstate +
  clk :: clock
  files :: "nat \<Rightarrow> fat_file_s option"
  next_ref :: nat
  alloc_faults :: "bool list"
  heap_pad :: "u8 list"

definition get_file :: "'a fstate_scheme \<Rightarrow> nat option \<Rightarrow> fat_file_s option" where
  "get_file s p = (case p of None \<Rightarrow> None | Some r \<Rightarrow> files s r)"

definition get_dentry :: "'a fstate_scheme \<Rightarrow> nat option \<Rightarrow> fat_dir_entry_s option" where
  "get_dentry s p = do { f \<leftarrow> get_file s p; dentry f }"

definition upd_file ::
  "nat option \<Rightarrow> (fat_file_s \<Rightarrow> fat_file_s) \<Rightarrow> 'a fstate_scheme \<Rightarrow> 'a fstate_scheme option" where
  "upd_file p g s = (case p of None \<Rightarrow> None | Some r \<Rightarrow>
     do { f \<leftarrow> files s r; Some (s\<lparr>files := (files s)(r := Some (g f))\<rparr>) })"

definition upd_dentry ::
  "nat option \<Rightarrow> (fat_dir_entry_s \<Rightarrow> fat_dir_entry_s) \<Rightarrow> 'a fstate_scheme \<Rightarrow> 'a fstate_scheme option" where
  "upd_dentry p g s = do {
     d \<leftarrow> get_dentry s p;
     upd_file p (\<lambda>f. f\<lparr>dentry := Some (g d)\<rparr>) s }"

definition calloc :: "'a fstate_scheme \<Rightarrow> bool \<times> 'a fstate_scheme" where
  "calloc s = (case alloc_faults s of [] \<Rightarrow> (True, s) | b # bs \<Rightarrow> (\<not> b, s\<lparr>alloc_faults := bs\<rparr>))"

definition new_file_at :: "fat_file_s \<Rightarrow> 'a fstate_scheme \<Rightarrow> nat option \<times> 'a fstate_scheme" where
  "new_file_at f s = (Some (next_ref s),
     s\<lparr>files := (files s)(next_ref s := Some f), next_ref := next_ref s + 1\<rparr>)"

section \<open>Entries: times, first cluster, initialisation\<close>

definition fill_dentry_time_now ::
  "clock \<Rightarrow> bool \<Rightarrow> bool \<Rightarrow> fat_dir_entry_s \<Rightarrow> int \<times> fat_dir_entry_s" where
  "fill_dentry_time_now c fill_create fill_modified d =
     (if \<not> (\<not> fill_create \<or> fill_modified) then (-1, d)
      else let (entry_date, entry_time) = fill_time c (now c);
               d = (if fill_modified
                    then d\<lparr>last_modified_date := entry_date, last_modified_time := entry_time,
                           last_access_date := entry_date\<rparr>
                    else d\<lparr>last_access_date := entry_date\<rparr>);
               d = (if fill_create
                    then d\<lparr>create_date := last_modified_date d, create_time := last_modified_time d\<rparr>
                    else d)
           in (0, d))"

definition set_first_cluster :: "u32 \<Rightarrow> fat_dir_entry_s \<Rightarrow> fat_dir_entry_s" where
  "set_first_cluster cluster d =
     d\<lparr>start_cluster_low := le16_val (take 2 (le32_bytes cluster)),
       fat32_start_cluster_high := le16_val (drop 2 (le32_bytes cluster))\<rparr>"

definition file_start_cluster :: "fat_dir_entry_s \<Rightarrow> u32" where
  "file_start_cluster d =
     ucast (start_cluster_low d) OR push_bit 16 (ucast (fat32_start_cluster_high d))"

definition fat_file_init_direntry ::
  "bool \<Rightarrow> u8 list \<Rightarrow> u32 \<Rightarrow> 'a fstate_scheme \<Rightarrow> (fat_dir_entry_s option \<times> 'a fstate_scheme) option" where
  "fat_file_init_direntry is_dir path cluster s = do {
     let (ok, s) = calloc s;
     if \<not> ok then Some (None, s\<lparr>errno := ENOSPC\<rparr>)
     else do {
       mem \<leftarrow> filename_from_path (basename path @ [0] @ heap_pad s) (replicate 32 0) 0 8;
       let d = entry_of_bytes mem;
       let d = d\<lparr>attribs := (if is_dir then FILE_ATTRIBUTE_DIRECTORY else FILE_ATTRIBUTE_ARCHIVE)\<rparr>;
       let d = d\<lparr>reserved := 0, create_time_fine_res := 0\<rparr>;
       let (_, d) = fill_dentry_time_now (clk s) True True d;
       let d = set_first_cluster cluster d;
       Some (Some (d\<lparr>file_size := 0\<rparr>), s) } }"

definition init_direntry_from_buff ::
  "fat_dir_entry_s \<Rightarrow> 'a fstate_scheme \<Rightarrow> fat_dir_entry_s option \<times> 'a fstate_scheme" where
  "init_direntry_from_buff buff s =
     (let (ok, s) = calloc s
      in if \<not> ok then (None, s\<lparr>errno := ENOSPC\<rparr>) else (Some buff, s))"

definition init_file_from_dentry ::
  "fat_dir_entry_s option \<Rightarrow> nat option \<Rightarrow> 'a fstate_scheme \<Rightarrow> (nat option \<times> 'a fstate_scheme) option" where
  "init_file_from_dentry dp parent s = do {
     d \<leftarrow> dp;
     let (ok, s) = calloc s;
     if \<not> ok then Some (None, s\<lparr>errno := ENOSPC\<rparr>)
     else do {
       p \<leftarrow> get_file s parent;
       name \<leftarrow> build_filename (base_name d) (extension d);
       (_, path) \<leftarrow> filepath_from_name (filepath p) (cstr name);
       Some (new_file_at \<lparr>dentry = Some d, fname = cstr name, filepath = path,
               start_cluster = file_start_cluster d, nentries = 0, pos_in_parent = nentries p,
               num_times_opened = 0, children_read = False\<rparr> s) } }"

definition fat_file_init_empty ::
  "bool \<Rightarrow> u8 list \<Rightarrow> 'a fstate_scheme \<Rightarrow> nat option \<times> 'a fstate_scheme" where
  "fat_file_init_empty is_dir path s =
     (let (ok, s) = calloc s
      in if \<not> ok then (None, s\<lparr>errno := ENOSPC\<rparr>)
         else new_file_at \<lparr>dentry = None, fname = [], filepath = path, start_cluster = 0,
                nentries = 0, pos_in_parent = 0, num_times_opened = 0, children_read = False\<rparr> s)"

definition fat_file_destroy :: "nat option \<Rightarrow> 'a fstate_scheme \<Rightarrow> 'a fstate_scheme option" where
  "fat_file_destroy p s = (case p of None \<Rightarrow> None | Some r \<Rightarrow>
     do { _ \<leftarrow> files s r; Some (s\<lparr>files := (files s)(r := None)\<rparr>) })"

definition fat_file_init ::
  "bool \<Rightarrow> u8 list \<Rightarrow> 'a fstate_scheme \<Rightarrow> (nat option \<times> 'a fstate_scheme) option" where
  "fat_file_init is_dir path s = do {
     let (new_file, s) = fat_file_init_empty is_dir path s;
     if errno s < 0 then
       (case new_file of None \<Rightarrow> Some (None, s)
        | Some r \<Rightarrow> Some (None, s\<lparr>files := (files s)(r := None)\<rparr>))
     else do {
       _ \<leftarrow> get_file s new_file;
       cluster \<leftarrow> fat_table_get_next_free_cluster (table s);
       used \<leftarrow> fat_table_is_cluster_used (table s) cluster;
       if used then do {
         s \<leftarrow> fat_file_destroy new_file (s\<lparr>errno := ENOSPC\<rparr>);
         Some (None, s) }
       else do {
         (dp, s) \<leftarrow> fat_file_init_direntry is_dir path cluster s;
         d \<leftarrow> dp;
         name \<leftarrow> build_filename (base_name d) (extension d);
         s \<leftarrow> upd_file new_file (\<lambda>f. f\<lparr>dentry := Some d, fname := cstr name,
                 start_cluster := file_start_cluster d\<rparr>) s;
         s \<leftarrow> fat_table_set_next_cluster cluster FAT_CLUSTER_END_OF_CHAIN s;
         if errno s \<noteq> 0 then do {
           s \<leftarrow> fat_file_destroy new_file s;
           Some (None, s) }
         else Some (new_file, s) } } }"

text \<open>\<open>strcmp\<close> of two paths, each with its terminator; only the sign of the result counts.\<close>

fun strcmp :: "u8 list \<Rightarrow> u8 list \<Rightarrow> int" where
  "strcmp [] [] = 0"
| "strcmp [] (y # b) = -1"
| "strcmp (x # a) [] = 1"
| "strcmp (x # a) (y # b) = (if x < y then -1 else if y < x then 1 else strcmp a b)"

definition fat_file_cmp :: "fat_file_s \<Rightarrow> fat_file_s \<Rightarrow> int" where
  "fat_file_cmp file1 file2 = strcmp (filepath file1) (filepath file2)"

definition fat_file_cmp_path :: "fat_file_s \<Rightarrow> u8 list \<Rightarrow> int" where
  "fat_file_cmp_path file1 path = strcmp (filepath file1) path"

section \<open>Metadata\<close>

definition fat_file_is_directory :: "fat_file_s \<Rightarrow> bool" where
  "fat_file_is_directory f \<longleftrightarrow>
     (case dentry f of None \<Rightarrow> True | Some d \<Rightarrow> attribs d AND FILE_ATTRIBUTE_DIRECTORY \<noteq> 0)"

definition fat_file_inc_num_times_opened ::
  "nat option \<Rightarrow> 'a fstate_scheme \<Rightarrow> 'a fstate_scheme option" where
  "fat_file_inc_num_times_opened p s =
     (if p \<noteq> None then upd_file p (\<lambda>f. f\<lparr>num_times_opened := num_times_opened f + 1\<rparr>) s else Some s)"

definition fat_file_dec_num_times_opened ::
  "nat option \<Rightarrow> 'a fstate_scheme \<Rightarrow> 'a fstate_scheme option" where
  "fat_file_dec_num_times_opened p s =
     (if p \<noteq> None then upd_file p (\<lambda>f. f\<lparr>num_times_opened := num_times_opened f - 1\<rparr>) s else Some s)"

record stat =
  st_nlink :: nat
  st_mode :: u32
  st_size :: nat
  st_blocks :: nat
  st_blksize :: nat
  st_ctime :: int
  st_atime :: int
  st_mtime :: int

definition S_IFDIR :: u32 where "S_IFDIR = 0x4000"
definition S_IFREG :: u32 where "S_IFREG = 0x8000"

text \<open>Octal 0555 and 0777 are the permission bits.\<close>

definition fat_file_to_stbuf :: "fat_table_s \<Rightarrow> clock \<Rightarrow> fat_file_s \<Rightarrow> stat option" where
  "fat_file_to_stbuf t c f = do {
     d \<leftarrow> dentry f;
     let kind = (if fat_file_is_directory f then S_IFDIR else S_IFREG);
     let perm = (if attribs d AND FILE_ATTRIBUTE_READONLY \<noteq> 0 then 0x16D else 0x1FF);
     Some \<lparr>st_nlink = 1, st_mode = kind OR perm, st_size = unat (file_size d),
       st_blocks = unat (fat_table_get_clusters_for_size t (unat (file_size d))),
       st_blksize = fat_table_bytes_per_cluster t,
       st_ctime = time_to_unix_time c (create_date d) (create_time d),
       st_atime = time_to_unix_time c (last_access_date d) 0,
       st_mtime = time_to_unix_time c (last_modified_date d) (last_modified_time d)\<rparr> }"

section \<open>Directories\<close>

text \<open>
  The size of a structure is a \<open>size_t\<close>, so the comparison with the result of \<open>pwrite\<close> is
  unsigned: a result of -1 is not less than 32.
\<close>

definition write_dir_entry ::
  "nat option \<Rightarrow> fat_dir_entry_s \<Rightarrow> u32 \<Rightarrow> 'a fstate_scheme \<Rightarrow> 'a fstate_scheme option" where
  "write_dir_entry parent child_disk_entry nentry s = do {
     p \<leftarrow> get_file s parent;
     let chunk_size = (of_nat (fat_table_bytes_per_cluster (table s)) :: u32);
     let parent_offset = fat_table_cluster_offset (table s) (start_cluster p);
     let entry_size = 32;
     if unat chunk_size \<le> unat nentry * entry_size then Some (s\<lparr>errno := ENOSPC\<rparr>)
     else do {
       let entry_offset = int (unat nentry * entry_size) + parent_offset;
       let (written_bytes, s) = sys_pwrite (entry_bytes child_disk_entry) entry_offset s;
       Some (if nat (written_bytes mod 2 ^ 64) < entry_size then s\<lparr>errno := EIO\<rparr> else s) } }"

definition fat_utime ::
  "nat option \<Rightarrow> nat option \<Rightarrow> int \<Rightarrow> int \<Rightarrow> 'a fstate_scheme \<Rightarrow> 'a fstate_scheme option" where
  "fat_utime file parent actime modtime s = do {
     let (accdate, _) = fill_time (clk s) actime;
     let (moddate, modtime) = fill_time (clk s) modtime;
     s \<leftarrow> upd_dentry file (\<lambda>d. d\<lparr>last_access_date := accdate, last_modified_date := moddate,
             last_modified_time := modtime\<rparr>) s;
     f \<leftarrow> get_file s file;
     d \<leftarrow> dentry f;
     write_dir_entry parent d (pos_in_parent f) s }"

definition fat_file_dentry_remove_child ::
  "nat option \<Rightarrow> nat option \<Rightarrow> 'a fstate_scheme \<Rightarrow> 'a fstate_scheme option" where
  "fat_file_dentry_remove_child parent child s = do {
     s \<leftarrow> upd_dentry child (\<lambda>d. d\<lparr>base_name := (base_name d)[0 := 0xe5]\<rparr>) s;
     f \<leftarrow> get_file s child;
     d \<leftarrow> dentry f;
     write_dir_entry parent d (pos_in_parent f) s }"

definition fs_log_name :: "u8 list" where
  "fs_log_name = bytes_of ''fs.log''"

definition fat_file_dentry_add_child ::
  "nat option \<Rightarrow> nat option \<Rightarrow> 'a fstate_scheme \<Rightarrow> 'a fstate_scheme option" where
  "fat_file_dentry_add_child parent child s = do {
     p \<leftarrow> get_file s parent;
     let n = nentries p;
     c \<leftarrow> get_file s child;
     s \<leftarrow> (if fname c = fs_log_name
           then upd_dentry child (\<lambda>d. d\<lparr>base_name := (base_name d)[0 := 0xe5],
                  attribs := FILE_ATTRIBUTE_SYSTEM\<rparr>) s
           else Some s);
     d \<leftarrow> get_dentry s child;
     s \<leftarrow> write_dir_entry parent d n s;
     if errno s \<noteq> 0 then Some s
     else do {
       s \<leftarrow> upd_file child (\<lambda>f. f\<lparr>pos_in_parent := n\<rparr>) s;
       upd_file parent (\<lambda>f. f\<lparr>nentries := nentries f + 1\<rparr>) s } }"

definition is_end_of_directory :: "fat_dir_entry_s \<Rightarrow> bool" where
  "is_end_of_directory d \<longleftrightarrow> base_name d ! 0 = 0"

definition ignore_dentry :: "fat_dir_entry_s \<Rightarrow> bool" where
  "ignore_dentry d \<longleftrightarrow> attribs d AND FILE_ATTRIBUTE_VOLUME \<noteq> 0 \<or>
     \<not> file_basename_valid (base_name d) \<or> \<not> file_extension_valid (extension d)"

text \<open>
  The loop over the entries of the buffer; the result is the list of the references it appends.
  The entry of the hidden log file is restored, for its reading only, to a name that starts with
  an f.
\<close>

fun read_entries_loop :: "fat_dir_entry_s list \<Rightarrow> u32 \<Rightarrow> nat option \<Rightarrow> nat option list \<Rightarrow>
    'a fstate_scheme \<Rightarrow> (nat option list \<times> 'a fstate_scheme) option" where
  "read_entries_loop [] n dir elems s = do {
     s \<leftarrow> upd_file dir (\<lambda>f. f\<lparr>nentries := n\<rparr>) s;
     Some (elems, s) }"
| "read_entries_loop (disk_dentry # ds) n dir elems s = do {
     s \<leftarrow> upd_file dir (\<lambda>f. f\<lparr>nentries := n\<rparr>) s;
     if is_end_of_directory disk_dentry then do {
       s \<leftarrow> upd_file dir (\<lambda>f. f\<lparr>children_read := True\<rparr>) s;
       s \<leftarrow> upd_file dir (\<lambda>f. f\<lparr>nentries := n\<rparr>) s;
       Some (elems, s) }
     else if ignore_dentry disk_dentry then
       (if base_name disk_dentry ! 0 = 0xe5 \<and> attribs disk_dentry AND FILE_ATTRIBUTE_SYSTEM \<noteq> 0
        then do {
          let shown = disk_dentry\<lparr>base_name := (base_name disk_dentry)[0 := 102]\<rparr>;
          let (new_entry, s) = init_direntry_from_buff shown s;
          (is_fs_log, s) \<leftarrow> init_file_from_dentry new_entry dir s;
          s \<leftarrow> upd_dentry is_fs_log (\<lambda>d. d\<lparr>base_name := (base_name d)[0 := 0xe5]\<rparr>) s;
          f \<leftarrow> get_file s is_fs_log;
          if fname f \<noteq> fs_log_name then do {
            s \<leftarrow> fat_file_destroy is_fs_log s;
            read_entries_loop ds (n + 1) dir elems s }
          else read_entries_loop ds (n + 1) dir (elems @ [is_fs_log]) s }
        else read_entries_loop ds (n + 1) dir elems s)
     else do {
       let (new_entry, s) = init_direntry_from_buff disk_dentry s;
       (child, s) \<leftarrow> init_file_from_dentry new_entry dir s;
       read_entries_loop ds (n + 1) dir (elems @ [child]) s } }"

definition read_cluster_dir_entries :: "u8 list \<Rightarrow> nat option \<Rightarrow> nat option list \<Rightarrow>
    'a fstate_scheme \<Rightarrow> (nat option list \<times> 'a fstate_scheme) option" where
  "read_cluster_dir_entries buffer dir elems s =
     read_entries_loop (map (\<lambda>k. entry_of_bytes (take 32 (drop (32 * k) buffer)))
       [0..<length buffer div 32]) 0 dir elems s"

text \<open>A chain that is a cycle makes the loop endless.\<close>

partial_function (option) read_children_loop :: "nat option \<Rightarrow> u32 \<Rightarrow> int \<Rightarrow> nat option list \<Rightarrow>
    'a fstate_scheme \<Rightarrow> (nat option list \<times> 'a fstate_scheme) option" where
  "read_children_loop dir cur_cluster cur_offset entry_list s =
     (if fat_table_is_EOC cur_cluster
      then do {
        s \<leftarrow> upd_file dir (\<lambda>f. f\<lparr>children_read := True\<rparr>) s;
        Some (entry_list, s) }
      else do {
        let n = fat_table_bytes_per_cluster (table s);
        let (bytes_read, buf, s) = full_pread (\<lambda>_. 0) n cur_offset s;
        if bytes_read \<noteq> n then Some ([], s\<lparr>errno := EIO\<rparr>)
        else do {
          (entry_list, s) \<leftarrow> read_cluster_dir_entries (load_at buf 0 n) dir entry_list s;
          cur_cluster \<leftarrow> fat_table_get_next_cluster (table s) cur_cluster;
          read_children_loop dir cur_cluster (fat_table_cluster_offset (table s) cur_cluster)
            entry_list s } })"

definition fat_file_read_children ::
  "nat option \<Rightarrow> 'a fstate_scheme \<Rightarrow> (nat option list \<times> 'a fstate_scheme) option" where
  "fat_file_read_children dir s = do {
     f \<leftarrow> get_file s dir;
     let cur_cluster = start_cluster f;
     if \<not> fat_table_is_valid_cluster_number (table s) cur_cluster
     then Some ([], s\<lparr>errno := EIO\<rparr>)
     else read_children_loop dir cur_cluster (fat_table_cluster_offset (table s) cur_cluster) [] s }"

section \<open>Reading and writing\<close>

text \<open>A \<open>size_t\<close> stored in a \<open>ssize_t\<close>, and a buffer pointer that moves.\<close>

definition ssize_of :: "nat \<Rightarrow> int" where
  "ssize_of n = (if n < 2 ^ 63 then int n else int n - 2 ^ 64)"

definition move_buf :: "buffer \<Rightarrow> int \<Rightarrow> buffer" where
  "move_buf buf k = (\<lambda>i. buf (i + k))"

text \<open>The state after the update of the file's entry that reading and writing end with.\<close>

definition touch_dentry :: "bool \<Rightarrow> nat option \<Rightarrow> nat option \<Rightarrow> 'a fstate_scheme \<Rightarrow>
    'a fstate_scheme option" where
  "touch_dentry fill_modified file parent s = do {
     s \<leftarrow> upd_dentry file (\<lambda>d. snd (fill_dentry_time_now (clk s) False fill_modified d)) s;
     f \<leftarrow> get_file s file;
     d \<leftarrow> dentry f;
     write_dir_entry parent d (pos_in_parent f) s }"

function pread_loop :: "buffer \<Rightarrow> int \<Rightarrow> nat \<Rightarrow> int \<Rightarrow> u32 \<Rightarrow> 'a fstate_scheme \<Rightarrow>
    (nat \<times> buffer \<times> 'a fstate_scheme) option" where
  "pread_loop buf pos bytes_remaining offset cluster s =
     (if bytes_remaining > 0 then
        if cluster = FAT_CLUSTER_END_OF_CHAIN then Some (bytes_remaining, buf, s)
        else
          let bytes_to_read_cluster =
                fat_table_get_cluster_remaining_bytes (table s) bytes_remaining offset;
              cluster_off = fat_table_cluster_offset (table s) cluster +
                int (fat_table_mask_offset offset (table s));
              (bytes_read, b, s') = full_pread (move_buf buf pos) bytes_to_read_cluster cluster_off s;
              buf' = move_buf b (- pos)
          in if bytes_read \<noteq> bytes_to_read_cluster then Some (bytes_remaining, buf', s')
             else (case fat_table_get_next_cluster (table s') cluster of
                None \<Rightarrow> None
              | Some cluster' \<Rightarrow>
                  pread_loop buf' (pos + int bytes_read) (bytes_remaining - bytes_read)
                    (offset + int bytes_read) cluster' s')
      else Some (bytes_remaining, buf, s))"
  by pat_completeness auto
termination
  by (relation "measure (\<lambda>(b, p, r, off, c, s). r)") (auto intro!: diff_less remaining_bytes_pos)

declare pread_loop.simps [simp del]

definition fat_file_pread :: "nat option \<Rightarrow> buffer \<Rightarrow> nat \<Rightarrow> int \<Rightarrow> nat option \<Rightarrow> 'a fstate_scheme \<Rightarrow>
    (int \<times> buffer \<times> 'a fstate_scheme) option" where
  "fat_file_pread file buf len offset parent s = do {
     f \<leftarrow> get_file s file;
     d \<leftarrow> dentry f;
     if offset > uint (file_size d) then Some (0, buf, s\<lparr>errno := EOVERFLOW\<rparr>)
     else do {
       let len = min len (nat (uint (file_size d) - offset));
       if len = 0 then Some (0, buf, s)
       else do {
         (cluster, s) \<leftarrow> fat_table_seek_cluster (start_cluster f) offset s;
         if errno s \<noteq> 0 then Some (0, buf, s)
         else do {
           (bytes_remaining, buf, s) \<leftarrow> pread_loop buf 0 len offset cluster s;
           s \<leftarrow> touch_dentry False file parent s;
           Some (int len - int bytes_remaining, buf, s) } } } }"

partial_function (option) free_clusters_loop ::
  "u32 \<Rightarrow> 'a tstate_scheme \<Rightarrow> 'a tstate_scheme option" where
  "free_clusters_loop last_cluster s =
     (if fat_table_is_EOC last_cluster then Some s
      else do {
        next_cluster \<leftarrow> fat_table_get_next_cluster (table s) last_cluster;
        s \<leftarrow> fat_table_set_next_cluster last_cluster FAT_CLUSTER_FREE s;
        free_clusters_loop next_cluster s })"

definition fat_file_truncate ::
  "nat option \<Rightarrow> int \<Rightarrow> nat option \<Rightarrow> 'a fstate_scheme \<Rightarrow> 'a fstate_scheme option" where
  "fat_file_truncate file offset parent s = do {
     f \<leftarrow> get_file s file;
     d \<leftarrow> dentry f;
     let current_num_clusters =
       max 1 (fat_table_get_clusters_for_size (table s) (unat (file_size d)));
     let new_num_clusters =
       max 1 (fat_table_get_clusters_for_size (table s) (nat (offset mod 2 ^ 64)));
     if offset > uint (file_size d) \<or> new_num_clusters \<ge> current_num_clusters then Some s
     else do {
       (last_cluster, s) \<leftarrow> fat_table_seek_cluster (start_cluster f) offset s;
       if errno s \<noteq> 0 then Some s
       else do {
         next_cluster \<leftarrow> fat_table_get_next_cluster (table s) last_cluster;
         s \<leftarrow> fat_table_set_next_cluster last_cluster FAT_CLUSTER_END_OF_CHAIN s;
         if errno s \<noteq> 0 then Some s
         else do {
           s \<leftarrow> free_clusters_loop next_cluster s;
           s \<leftarrow> upd_dentry file (\<lambda>d. d\<lparr>file_size := word_of_int offset\<rparr>) s;
           touch_dentry True file parent s } } } }"

function pwrite_loop :: "buffer \<Rightarrow> int \<Rightarrow> int \<Rightarrow> int \<Rightarrow> u32 \<Rightarrow> 'a fstate_scheme \<Rightarrow>
    (int \<times> int \<times> 'a fstate_scheme) option" where
  "pwrite_loop buf pos bytes_remaining offset cluster s =
     (if bytes_remaining > 0 then
        let bytes_to_write_cluster =
              fat_table_get_cluster_remaining_bytes (table s) (nat bytes_remaining) offset;
            cluster_off = fat_table_cluster_offset (table s) cluster +
              int (fat_table_mask_offset offset (table s));
            (n, s') = full_pwrite (move_buf buf pos) bytes_to_write_cluster cluster_off s;
            bytes_written_cluster = ssize_of n;
            remaining = bytes_remaining - bytes_written_cluster
        in if bytes_written_cluster \<noteq> int bytes_to_write_cluster then Some (remaining, offset, s')
           else if remaining > 0 then
             (case fat_table_get_next_cluster (table s') cluster of
                None \<Rightarrow> None
              | Some next_cluster \<Rightarrow>
                  (case (if fat_table_is_EOC next_cluster then
                           (case fat_table_get_next_free_cluster (table s') of
                              None \<Rightarrow> None
                            | Some c \<Rightarrow> (case fat_table_set_next_cluster cluster c s' of
                                None \<Rightarrow> None | Some s'' \<Rightarrow> Some (cluster, s'')))
                         else Some (next_cluster, s')) of
                     None \<Rightarrow> None
                   | Some (cluster', s'') \<Rightarrow>
                       if errno s'' \<noteq> 0
                       then Some (remaining, offset + bytes_written_cluster, s'')
                       else pwrite_loop buf (pos + bytes_written_cluster) remaining
                              (offset + bytes_written_cluster) cluster' s''))
           else pwrite_loop buf (pos + bytes_written_cluster) remaining
                  (offset + bytes_written_cluster) cluster s'
      else Some (bytes_remaining, offset, s))"
  by pat_completeness auto
termination
  by (relation "measure (\<lambda>(b, p, r, off, c, s). nat r)")
     (auto intro: remaining_bytes_pos)

declare pwrite_loop.simps [simp del]

definition fat_file_pwrite :: "nat option \<Rightarrow> buffer \<Rightarrow> nat \<Rightarrow> int \<Rightarrow> nat option \<Rightarrow> 'a fstate_scheme \<Rightarrow>
    (int \<times> 'a fstate_scheme) option" where
  "fat_file_pwrite file buf len offset parent s = do {
     f \<leftarrow> get_file s file;
     d \<leftarrow> dentry f;
     let original_offset = offset;
     if offset > uint (file_size d) then Some (0, s\<lparr>errno := EOVERFLOW\<rparr>)
     else do {
       (cluster, s) \<leftarrow> fat_table_seek_cluster (start_cluster f) offset s;
       if errno s \<noteq> 0 then Some (0, s)
       else do {
         next_cluster \<leftarrow> fat_table_get_next_cluster (table s) cluster;
         s \<leftarrow> (if fat_table_is_EOC next_cluster then do {
                 next_cluster \<leftarrow> fat_table_get_next_free_cluster (table s);
                 s \<leftarrow> fat_table_set_next_cluster cluster next_cluster s;
                 fat_table_set_next_cluster next_cluster FAT_CLUSTER_END_OF_CHAIN s }
               else Some s);
         (bytes_remaining, offset, s) \<leftarrow> pwrite_loop buf 0 (int len) offset cluster s;
         d \<leftarrow> get_dentry s file;
         s \<leftarrow> (if original_offset + int len - bytes_remaining > uint (file_size d)
               then upd_dentry file (\<lambda>d. d\<lparr>file_size := word_of_int (offset - bytes_remaining)\<rparr>) s
               else Some s);
         s \<leftarrow> touch_dentry True file parent s;
         Some (int len - bytes_remaining, s) } } }"

section \<open>The bytes of an entry\<close>

definition dentry_wf :: "fat_dir_entry_s \<Rightarrow> bool" where
  "dentry_wf d \<longleftrightarrow> length (base_name d) = 8 \<and> length (extension d) = 3"

lemma length_entry_bytes: "dentry_wf d \<Longrightarrow> length (entry_bytes d) = 32"
  by (simp add: entry_bytes_def dentry_wf_def)

lemma le16_val_append [simp]: "le16_val (le16_bytes w @ xs) = w"
proof -
  have "le16_val (le16_bytes w @ xs) = le16_val (le16_bytes w)"
    by (simp add: le16_val_def nth_append)
  then show ?thesis by simp
qed

text \<open>
  A directory entry survives the volume: decoding the 32 bytes that the driver writes for an
  entry gives the same entry.
\<close>

theorem entry_roundtrip:
  assumes "length (base_name d) = 8" and "length (extension d) = 3"
  shows "entry_of_bytes (entry_bytes d) = d"
proof -
  have "le16_val (drop n (le16_bytes w) @ xs) = w" if "n = 0" for n w xs
    using that by simp
  then show ?thesis
    using assms by (cases d) (simp add: entry_of_bytes_def entry_bytes_def nth_append)
qed

theorem entry_roundtrip_witness:
  "entry_of_bytes (entry_bytes (entry_of_bytes (replicate 32 7))) = entry_of_bytes (replicate 32 7)"
  by (rule entry_roundtrip) (simp_all add: entry_of_bytes_def)

text \<open>The two halves of a start cluster, stored in two places of the entry, give the cluster back.\<close>

lemma start_cluster_of_set [simp]:
  "file_start_cluster (set_first_cluster c d) = c"
proof (rule bit_word_eqI)
  fix n assume "n < LENGTH(32)"
  then consider "n < 8" | "8 \<le> n" "n < 16" | "16 \<le> n" "n < 24" | "24 \<le> n" "n < 32"
    by fastforce
  then show "bit (file_start_cluster (set_first_cluster c d)) n \<longleftrightarrow> bit c n"
    by cases (auto simp: file_start_cluster_def set_first_cluster_def le16_val_def le32_bytes_def
        bit_simps)
qed

section \<open>The bytes of clusters and chains\<close>

text \<open>A volume that has room for all the data clusters of its table.\<close>

definition volume_wf :: "'a tstate_scheme \<Rightarrow> bool" where
  "volume_wf s \<longleftrightarrow> table_wf (table s) \<and>
     nat (data_start_offset (table s)) + unat (num_data_clusters (table s)) * bpc (table s)
       \<le> length (content s)"

definition cluster_pos :: "fat_table_s \<Rightarrow> u32 \<Rightarrow> nat" where
  "cluster_pos t c = nat (data_start_offset t) + (unat c - 2) * bpc t"

definition cluster_bytes :: "'a tstate_scheme \<Rightarrow> u32 \<Rightarrow> u8 list" where
  "cluster_bytes s c = take (bpc (table s)) (drop (cluster_pos (table s) c) (content s))"

definition chain_bytes :: "'a tstate_scheme \<Rightarrow> u32 list \<Rightarrow> u8 list" where
  "chain_bytes s cs = concat (map (cluster_bytes s) cs)"

lemma data_start_nonneg: "table_wf t \<Longrightarrow> 0 \<le> data_start_offset t"
  by (simp add: table_wf_def)

lemma cluster_offset_eq:
  assumes "table_wf t" "valid_cluster t c"
  shows "fat_table_cluster_offset t c = int (cluster_pos t c)"
proof -
  have "2 \<le> unat c" using assms by (simp add: valid_cluster_iff)
  then have "unat (c - 2) = unat c - 2" by (simp add: unat_sub word_le_nat_alt)
  then have "uint (c - 2) = int (unat c - 2)" by (metis uint_nat)
  then show ?thesis
    using data_start_nonneg [OF assms(1)]
    by (simp add: fat_table_cluster_offset_def cluster_pos_def push_bit_eq_mult bpc_eq)
qed

lemma cluster_in_volume:
  assumes "volume_wf s" "valid_cluster (table s) c"
  shows "cluster_pos (table s) c + bpc (table s) \<le> length (content s)"
proof -
  have "unat c - 2 + 1 \<le> unat (num_data_clusters (table s))"
    using assms by (simp add: volume_wf_def valid_cluster_iff) linarith
  then have "(unat c - 2 + 1) * bpc (table s) \<le> unat (num_data_clusters (table s)) * bpc (table s)"
    by (rule mult_le_mono1)
  with assms(1) show ?thesis by (simp add: volume_wf_def cluster_pos_def)
qed

lemma length_cluster_bytes [simp]:
  "volume_wf s \<Longrightarrow> valid_cluster (table s) c \<Longrightarrow> length (cluster_bytes s c) = bpc (table s)"
  using cluster_in_volume [of s c] by (simp add: cluster_bytes_def)

lemma clusters_apart:
  assumes "table_wf t" "valid_cluster t c" "valid_cluster t d" "c \<noteq> d"
  shows "cluster_pos t c + bpc t \<le> cluster_pos t d \<or> cluster_pos t d + bpc t \<le> cluster_pos t c"
proof -
  have "unat c \<noteq> unat d" using assms(4) by (simp add: word_unat_eq_iff)
  then consider "unat c - 2 + 1 \<le> unat d - 2" | "unat d - 2 + 1 \<le> unat c - 2"
    using assms(2,3) valid_cluster_iff [OF assms(1)] by fastforce
  then show ?thesis
  proof cases
    case 1
    then have "(unat c - 2 + 1) * bpc t \<le> (unat d - 2) * bpc t" by (rule mult_le_mono1)
    then show ?thesis by (simp add: cluster_pos_def)
  next
    case 2
    then have "(unat d - 2 + 1) * bpc t \<le> (unat c - 2) * bpc t" by (rule mult_le_mono1)
    then show ?thesis by (simp add: cluster_pos_def)
  qed
qed

text \<open>Equal blocks in a row.\<close>

lemma concat_block_read:
  assumes "0 < m"
  shows "\<forall>b\<in>set bs. length b = m \<Longrightarrow> off div m < length bs \<Longrightarrow> n \<le> m - off mod m \<Longrightarrow>
     take n (drop off (concat bs)) = take n (drop (off mod m) (bs ! (off div m)))"
proof (induction bs arbitrary: off)
  case (Cons b bs)
  show ?case
  proof (cases "off < m")
    case True
    with Cons.prems show ?thesis by simp
  next
    case False
    then have d: "off div m = Suc ((off - m) div m)" "off mod m = (off - m) mod m"
      using assms by (simp_all add: le_div_geq le_mod_geq)
    with Cons.prems Cons.IH [of "off - m"] False show ?thesis by simp
  qed
qed simp

lemma write_at_append_right:
  "length a \<le> off \<Longrightarrow> write_at off xs (a @ b) = a @ write_at (off - length a) xs b"
  by (simp add: write_at_def)

lemma write_at_append_left:
  "off + length xs \<le> length a \<Longrightarrow> write_at off xs (a @ b) = write_at off xs a @ b"
  by (simp add: write_at_def)

lemma concat_block_write:
  assumes "0 < m"
  shows "\<forall>b\<in>set bs. length b = m \<Longrightarrow> off div m < length bs \<Longrightarrow> length xs \<le> m - off mod m \<Longrightarrow>
     concat (bs[off div m := write_at (off mod m) xs (bs ! (off div m))]) = write_at off xs (concat bs)"
proof (induction bs arbitrary: off)
  case (Cons b bs)
  show ?case
  proof (cases "off < m")
    case True
    with Cons.prems show ?thesis by (simp add: write_at_append_left)
  next
    case False
    then have d: "off div m = Suc ((off - m) div m)" "off mod m = (off - m) mod m"
      using assms by (simp_all add: le_div_geq le_mod_geq)
    with Cons.prems Cons.IH [of "off - m"] False show ?thesis by (simp add: write_at_append_right)
  qed
qed simp

lemma write_at_write_at:
  assumes "off + length xs + length ys \<le> length d"
  shows "write_at (off + length xs) ys (write_at off xs d) = write_at off (xs @ ys) d"
  using assms by (intro nth_equalityI) (auto simp: length_write_at nth_write_at nth_append)

lemma chain_bytes_length:
  assumes "volume_wf s" "\<forall>c\<in>set cs. valid_cluster (table s) c"
  shows "length (chain_bytes s cs) = length cs * bpc (table s)"
  using assms(2) by (induction cs) (simp_all add: chain_bytes_def assms(1))

text \<open>A write inside one cluster changes the bytes of that cluster and of no other.\<close>

lemma cluster_bytes_write:
  assumes "volume_wf s" "valid_cluster (table s) c" "k + length xs \<le> bpc (table s)"
    "valid_cluster (table s) d"
  shows "cluster_bytes (s\<lparr>content := write_at (cluster_pos (table s) c + k) xs (content s)\<rparr>) d =
     (if d = c then write_at k xs (cluster_bytes s c) else cluster_bytes s d)"
proof (cases "d = c")
  case True
  have "cluster_pos (table s) c + bpc (table s) \<le> length (content s)"
    by (rule cluster_in_volume [OF assms(1,2)])
  with True assms(3) show ?thesis
    by (intro nth_equalityI)
       (auto simp: cluster_bytes_def length_write_at nth_write_at add.assoc)
next
  case False
  have "table_wf (table s)" using assms(1) by (simp add: volume_wf_def)
  from clusters_apart [OF this assms(2,4)] False
  have "cluster_pos (table s) d + bpc (table s) \<le> cluster_pos (table s) c + k \<or>
      cluster_pos (table s) c + k + length xs \<le> cluster_pos (table s) d"
    using assms(3) by auto
  from write_at_other [OF this cluster_in_volume [OF assms(1,4)]] False
  show ?thesis by (simp add: cluster_bytes_def)
qed

text \<open>A write to the allocation table changes the bytes of no cluster.\<close>

lemma cluster_bytes_below:
  assumes "volume_wf s" "off + length xs \<le> nat (data_start_offset (table s))"
    "valid_cluster (table s) d" "data_start_offset (table s') = data_start_offset (table s)"
    "cluster_order (table s') = cluster_order (table s)"
    "content s' = write_at off xs (content s)"
  shows "cluster_bytes s' d = cluster_bytes s d"
proof -
  have b: "bpc (table s') = bpc (table s)" using assms(5) by (simp add: bpc_eq)
  have "off + length xs \<le> cluster_pos (table s) d" using assms(2) by (simp add: cluster_pos_def)
  then have "take (bpc (table s)) (drop (cluster_pos (table s) d) (write_at off xs (content s))) =
      take (bpc (table s)) (drop (cluster_pos (table s) d) (content s))"
    by (intro write_at_other disjI2 cluster_in_volume [OF assms(1,3)])
  then show ?thesis by (simp add: cluster_bytes_def cluster_pos_def b assms(4,6))
qed

section \<open>Reading\<close>

lemma store_at_Nil [simp]: "store_at buf p [] = buf"
  by (auto simp: store_at_def fun_eq_iff)

lemma store_at_append:
  "store_at (store_at buf p xs) (p + int (length xs)) ys = store_at buf p (xs @ ys)"
proof
  fix i
  have "nat (i - (p + int (length xs))) = nat (i - p) - length xs" by linarith
  then show "store_at (store_at buf p xs) (p + int (length xs)) ys i = store_at buf p (xs @ ys) i"
    by (auto simp: store_at_def nth_append nat_less_iff)
qed

lemma move_store: "move_buf (store_at (move_buf buf p) 0 xs) (- p) = store_at buf p xs"
  by (auto simp: move_buf_def store_at_def fun_eq_iff)

lemma load_move: "load_at (move_buf buf p) 0 n = load_at buf p n"
  by (simp add: load_at_def move_buf_def add.commute)

lemma length_load_at [simp]: "length (load_at buf p n) = n"
  by (simp add: load_at_def)

lemma load_at_add: "load_at buf p (m + n) = load_at buf p m @ load_at buf (p + int m) n"
  by (rule nth_equalityI) (auto simp: load_at_def nth_append simp del: upt_Suc)

text \<open>The bytes of a chain from an offset on, up to the end of the cluster the offset is in.\<close>

lemma chain_bytes_read:
  assumes "volume_wf s" "\<forall>c\<in>set cs. valid_cluster (table s) c" "off div bpc (table s) < length cs"
    "n \<le> bpc (table s) - off mod bpc (table s)"
  shows "take n (drop off (chain_bytes s cs)) =
     take n (drop (cluster_pos (table s) (cs ! (off div bpc (table s))) + off mod bpc (table s)) (content s))"
proof -
  let ?m = "bpc (table s)"
  have "take n (drop off (chain_bytes s cs)) =
      take n (drop (off mod ?m) (cluster_bytes s (cs ! (off div ?m))))"
    using concat_block_read [of ?m "map (cluster_bytes s) cs" off n] assms
    by (simp add: chain_bytes_def)
  then show ?thesis
    using assms(4) by (simp add: cluster_bytes_def drop_take take_take min_def add.commute)
qed

lemma div_lt_of_le_mult:
  assumes "0 < m" "0 < r" "off + r \<le> k * m"
  shows "off div m < (k::nat)"
proof -
  have "off < k * m" using assms by linarith
  then show ?thesis using assms(1) by (simp add: div_less_iff_less_mult)
qed

lemma step_in_block:
  assumes "0 < m" "n = min (m - off mod m) r" "n < r"
  shows "(off + n) div m = Suc (off div m)" "(off + n) mod m = (0::nat)"
proof -
  have "n = m - off mod m" using assms by (simp add: min_def split: if_splits)
  moreover have "off mod m < m" using assms(1) by simp
  moreover have "off = off div m * m + off mod m" by simp
  ultimately have "off + n = off div m * m + m" by linarith
  then have "off + n = (off div m + 1) * m" by simp
  then show "(off + n) div m = Suc (off div m)" "(off + n) mod m = 0"
    using assms(1) by simp_all
qed

lemma pread_loop_ok:
  assumes "volume_wf s" "chain (table s) c cs" "faults s = []" "len < 2 ^ 64"
  shows "r \<le> len \<Longrightarrow> off + r \<le> length cs * bpc (table s) \<Longrightarrow>
     (0 < r \<Longrightarrow> cluster = cs ! (off div bpc (table s))) \<Longrightarrow>
     pread_loop buf pos r (int off) cluster s =
       Some (0, store_at buf pos (take r (drop off (chain_bytes s cs))), s)"
proof (induction r arbitrary: off pos buf cluster rule: less_induct)
  case (less r)
  let ?t = "table s" and ?m = "bpc (table s)"
  have wf: "table_wf ?t" using assms(1) by (simp add: volume_wf_def)
  have valid: "\<forall>c\<in>set cs. valid_cluster ?t c" using chain_valid [OF assms(2)] by blast
  show ?case
  proof (cases "r = 0")
    case True
    then show ?thesis by (simp add: pread_loop.simps)
  next
    case False
    define i where "i = off div ?m"
    have i: "i < length cs" unfolding i_def using False less.prems(2)
      by (intro div_lt_of_le_mult [of ?m r]) auto
    have cl: "cluster = cs ! i" "valid_cluster ?t cluster"
      using False less.prems(3) valid i by (simp_all add: i_def)
    then have eoc: "cluster \<noteq> FAT_CLUSTER_END_OF_CHAIN" using EOC_not_valid [OF wf] by auto
    define n where "n = min (?m - off mod ?m) r"
    have n: "0 < n" "n \<le> r" "n \<le> ?m - off mod ?m" using False by (simp_all add: n_def)
    let ?p = "cluster_pos ?t cluster + off mod ?m"
    have fit: "?p + n \<le> length (content s)"
      using cluster_in_volume [OF assms(1) cl(2)] n(3) mod_less_divisor [OF bpc_pos, of off ?t] by linarith
    have rd: "full_pread (move_buf buf pos) n (int ?p) s =
        (n, store_at (move_buf buf pos) 0 (take n (drop ?p (content s))), s)"
      using full_pread_ok [OF assms(3), of "int ?p" n "move_buf buf pos"] fit n less.prems(1) assms(4)
      by (simp del: of_nat_add)
    have bytes: "take n (drop ?p (content s)) = take n (drop off (chain_bytes s cs))"
      using chain_bytes_read [OF assms(1) valid _ n(3)] i cl(1) by (simp add: i_def)
    have nx: "fat_table_get_next_cluster ?t cluster =
        Some (if Suc i < length cs then cs ! Suc i else FAT_CLUSTER_END_OF_CHAIN)"
      using chain_nth_next [OF assms(2) i] cl(1) by simp
    let ?next = "if Suc i < length cs then cs ! Suc i else FAT_CLUSTER_END_OF_CHAIN"
    have "pread_loop buf pos r (int off) cluster s =
        pread_loop (store_at buf pos (take n (drop off (chain_bytes s cs)))) (pos + int n) (r - n)
          (int (off + n)) ?next s"
      using False eoc rd n nx
      by (subst pread_loop.simps)
         (simp add: remaining_bytes_eq mask_offset_eq cluster_offset_eq [OF wf cl(2)] n_def [symmetric]
           move_store bytes)
    also have "\<dots> = Some (0, store_at (store_at buf pos (take n (drop off (chain_bytes s cs))))
        (pos + int n) (take (r - n) (drop (off + n) (chain_bytes s cs))), s)"
    proof (rule less.IH)
      show "r - n < r" using n by simp
      show "r - n \<le> len" using less.prems(1) by simp
      show "off + n + (r - n) \<le> length cs * ?m" using less.prems(2) n by simp
      assume "0 < r - n"
      then have nr: "n < r" by simp
      from step_in_block(1) [OF bpc_pos n_def nr] have d: "(off + n) div ?m = Suc i" by (simp add: i_def)
      have "Suc i < length cs"
        using div_lt_of_le_mult [of ?m "r - n" "off + n" "length cs"] nr less.prems(2) d by simp
      with d show "?next = cs ! ((off + n) div ?m)" by simp
    qed
    also have "\<dots> = Some (0, store_at buf pos (take r (drop off (chain_bytes s cs))), s)"
    proof -
      have "length (chain_bytes s cs) = length cs * ?m" by (rule chain_bytes_length [OF assms(1) valid])
      then have "length (take n (drop off (chain_bytes s cs))) = n" using n less.prems(2) by simp
      moreover have "take n (drop off (chain_bytes s cs)) @ take (r - n) (drop (off + n) (chain_bytes s cs))
          = take r (drop off (chain_bytes s cs))"
        using n(2) take_add [of n "r - n" "drop off (chain_bytes s cs)"] by (simp add: add.commute)
      ultimately show ?thesis
        using store_at_append [of buf pos "take n (drop off (chain_bytes s cs))"] by metis
    qed
    finally show ?thesis .
  qed
qed

text \<open>A file whose object is consistent with the volume.\<close>

definition file_ok :: "'a fstate_scheme \<Rightarrow> nat \<Rightarrow> fat_file_s \<Rightarrow> fat_dir_entry_s \<Rightarrow> u32 list \<Rightarrow> bool" where
  "file_ok s r f d cs \<longleftrightarrow> volume_wf s \<and> files s r = Some f \<and> dentry f = Some d \<and>
     chain (table s) (start_cluster f) cs \<and> unat (file_size d) \<le> length cs * bpc (table s)"

text \<open>The contents of the file: the first \<open>file_size\<close> bytes of its chain.\<close>

definition file_data :: "'a fstate_scheme \<Rightarrow> fat_dir_entry_s \<Rightarrow> u32 list \<Rightarrow> u8 list" where
  "file_data s d cs = take (unat (file_size d)) (chain_bytes s cs)"

lemma file_ok_get:
  assumes "file_ok s r f d cs"
  shows "get_file s (Some r) = Some f" "dentry f = Some d" "get_dentry s (Some r) = Some d"
  using assms by (simp_all add: file_ok_def get_file_def get_dentry_def)

lemma seek_positions:
  assumes "off < 2 ^ 32"
  shows "unat (word_of_int (drop_bit (cluster_order t) (int off)) :: u32) = off div bpc t"
proof -
  have "off div bpc t \<le> off" by simp
  then have small: "off div bpc t < 2 ^ 32" using assms by linarith
  have "drop_bit (cluster_order t) (int off) = int (off div bpc t)"
    by (simp add: bpc_eq drop_bit_eq_div zdiv_int)
  moreover have "unat (word_of_int (int m) :: u32) = m" if "m < 2 ^ 32" for m
    using that by (simp add: unat_of_nat)
  ultimately show ?thesis using small by metis
qed

lemma seek_in_chain:
  assumes "table_wf (table s)" "chain (table s) c cs" "off < 2 ^ 32"
  shows "off div bpc (table s) < length cs \<Longrightarrow>
      fat_table_seek_cluster c (int off) s = Some (cs ! (off div bpc (table s)), s)"
    "off div bpc (table s) = length cs \<Longrightarrow>
      fat_table_seek_cluster c (int off) s = Some (FAT_CLUSTER_END_OF_CHAIN, s)"
  using seek_loop_chain [OF assms(1,2)] seek_positions [OF assms(3), of "table s"]
  by (simp_all add: fat_table_seek_cluster_def)

lemma sys_pwrite_frame:
  assumes "sys_pwrite bs off s = (w, s')"
  shows "\<exists>c fs e. s' = s\<lparr>content := c, faults := fs, errno := e\<rparr>"
  using assms
  by (cases s) (auto simp: sys_pwrite_def split: if_splits list.splits fault.splits)

lemma write_dir_entry_total:
  assumes "get_file s parent \<noteq> None"
  shows "\<exists>c fs e. write_dir_entry parent d n s = Some (s\<lparr>content := c, faults := fs, errno := e\<rparr>)"
proof -
  obtain p where p: "get_file s parent = Some p" using assms by auto
  let ?o = "int (unat n * 32) + fat_table_cluster_offset (table s) (start_cluster p)"
  obtain w s1 where w: "sys_pwrite (entry_bytes d) ?o s = (w, s1)" by fastforce
  then obtain c fs e where s1: "s1 = s\<lparr>content := c, faults := fs, errno := e\<rparr>"
    using sys_pwrite_frame by blast
  show ?thesis
  proof (cases "unat (of_nat (bpc (table s)) :: u32) \<le> unat n * 32")
    case True
    then have "write_dir_entry parent d n s =
        Some (s\<lparr>content := content s, faults := faults s, errno := ENOSPC\<rparr>)"
      using p by (simp add: write_dir_entry_def Let_def)
    then show ?thesis by blast
  next
    case False
    then have "write_dir_entry parent d n s =
        Some (if nat (w mod 2 ^ 64) < 32 then s1\<lparr>errno := EIO\<rparr> else s1)"
      using p w by (simp add: write_dir_entry_def Let_def)
    then show ?thesis unfolding s1 by (cases "nat (w mod 2 ^ 64) < 32") auto
  qed
qed

lemma get_file_upd:
  "upd_file (Some r) g s = Some s' \<Longrightarrow> get_file s' p =
     (if p = Some r then map_option g (files s r) else get_file s p)"
  by (auto simp: upd_file_def get_file_def bind_eq_Some_conv split: option.splits)

text \<open>The date of a file is updated whatever happens on the volume.\<close>

lemma touch_dentry_total:
  assumes "get_dentry s (Some r) = Some d" "get_file s parent \<noteq> None"
  obtains f c fs e where "files s r = Some f" "touch_dentry m (Some r) parent s =
     Some (s\<lparr>files := (files s)(r \<mapsto> f\<lparr>dentry := Some (snd (fill_dentry_time_now (clk s) False m d))\<rparr>),
             content := c, faults := fs, errno := e\<rparr>)"
proof -
  obtain f where f: "files s r = Some f" "dentry f = Some d"
    using assms(1) by (auto simp: get_dentry_def get_file_def bind_eq_Some_conv)
  let ?d = "snd (fill_dentry_time_now (clk s) False m d)"
  let ?s = "s\<lparr>files := (files s)(r \<mapsto> f\<lparr>dentry := Some ?d\<rparr>)\<rparr>"
  have u: "upd_dentry (Some r) (\<lambda>d. snd (fill_dentry_time_now (clk s) False m d)) s = Some ?s"
    using f by (simp add: upd_dentry_def get_dentry_def get_file_def upd_file_def)
  have g: "get_file ?s (Some r) = Some (f\<lparr>dentry := Some ?d\<rparr>)" by (simp add: get_file_def)
  have "get_file ?s parent \<noteq> None"
    using assms(2) by (auto simp: get_file_def split: option.splits)
  from write_dir_entry_total [OF this, of ?d "pos_in_parent f"] obtain c fs e where
    "write_dir_entry parent ?d (pos_in_parent f) ?s = Some (?s\<lparr>content := c, faults := fs, errno := e\<rparr>)"
    by blast
  with u g have "touch_dentry m (Some r) parent s = Some (?s\<lparr>content := c, faults := fs, errno := e\<rparr>)"
    by (simp add: touch_dentry_def)
  then show thesis by (intro that [OF f(1)]) simp
qed

text \<open>
  C18. Reading returns exactly the bytes of the file: for an offset in the file, without errors of
  the volume, the buffer receives the bytes from the offset on, up to the requested number or to
  the end of the file, and nothing else in it changes. Of the state only the access date of the file
  and its entry on the volume change.
\<close>

theorem fat_file_pread_correct:
  assumes "file_ok s r f d cs" and "faults s = []" and "errno s = 0"
    and "off < unat (file_size d)" and "0 < len" and "get_file s parent \<noteq> None"
  shows "\<exists>s'. fat_file_pread (Some r) buf len (int off) parent s =
       Some (int (min len (unat (file_size d) - off)),
             store_at buf 0 (take len (drop off (file_data s d cs))), s') \<and>
     touch_dentry False (Some r) parent s = Some s'"
proof -
  let ?n = "min len (unat (file_size d) - off)"
  note ok = assms(1) [unfolded file_ok_def]
  have wf: "table_wf (table s)" using ok by (simp add: volume_wf_def)
  have sz: "unat (file_size d) < 2 ^ 32" using unsigned_less [of "file_size d"] by simp
  have fit: "off + ?n \<le> length cs * bpc (table s)" using ok assms(4) by linarith
  have pos: "0 < ?n" using assms(4,5) by simp
  have i: "off div bpc (table s) < length cs" by (rule div_lt_of_le_mult [OF bpc_pos pos fit])
  have seek: "fat_table_seek_cluster (start_cluster f) (int off) s = Some (cs ! (off div bpc (table s)), s)"
    using ok sz assms(4) i by (intro seek_in_chain(1) [OF wf]) auto
  have loop: "pread_loop buf 0 ?n (int off) (cs ! (off div bpc (table s))) s =
      Some (0, store_at buf 0 (take ?n (drop off (chain_bytes s cs))), s)"
    using ok sz fit by (intro pread_loop_ok [of s "start_cluster f" cs ?n] assms(2)) auto
  have "take len (drop off (file_data s d cs)) = take ?n (drop off (chain_bytes s cs))"
    by (simp add: file_data_def drop_take)
  moreover have "nat (uint (file_size d) - int off) = unat (file_size d) - off"
    by (metis nat_minus_as_int uint_nat)
  moreover have "\<not> int off > uint (file_size d)" using assms(4) by (metis not_less of_nat_less_iff less_imp_le uint_nat leD)
  moreover obtain s' where "touch_dentry False (Some r) parent s = Some s'"
    using touch_dentry_total [OF file_ok_get(3) [OF assms(1)] assms(6)] by metis
  ultimately show ?thesis
    using seek loop assms(3) file_ok_get [OF assms(1)]
    by (simp add: fat_file_pread_def Let_def) (use pos in \<open>auto simp: min_def split: if_splits\<close>)
qed

text \<open>A small volume: the root directory in cluster 5 and a file of 40 bytes in clusters 2 and 4.\<close>

definition small_clock :: clock where
  "small_clock = \<lparr>now = 0, gmtime = (\<lambda>_. \<lparr>tm_sec = 0, tm_min = 0, tm_hour = 0, tm_mday = 1, tm_mon = 0,
     tm_year = 80\<rparr>), mktime = (\<lambda>_. 0)\<rparr>"

definition small_entry :: fat_dir_entry_s where
  "small_entry = \<lparr>base_name = [0x61, 0, 0, 0, 0, 0, 0, 0], extension = [0, 0, 0], attribs = 0x20,
     reserved = 0, create_time_fine_res = 0, create_time = 0, create_date = 0, last_access_date = 0,
     fat32_start_cluster_high = 0, last_modified_time = 0, last_modified_date = 0,
     start_cluster_low = 2, file_size = 40\<rparr>"

definition small_dir :: fat_file_s where
  "small_dir = \<lparr>dentry = Some (small_entry\<lparr>attribs := 0x10, file_size := 0\<rparr>), fname = [0x2F],
     filepath = [0x2F], start_cluster = 5, nentries = 1, pos_in_parent = 0, num_times_opened = 0,
     children_read = True\<rparr>"

definition small_file :: fat_file_s where
  "small_file = \<lparr>dentry = Some small_entry, fname = [0x61], filepath = [0x2F, 0x61], start_cluster = 2,
     nentries = 0, pos_in_parent = 0, num_times_opened = 1, children_read = False\<rparr>"

definition small_fs :: fstate where
  "small_fs = \<lparr>content = concat (map le32_bytes (fat_map small_table)) @ replicate 8 0 @
       replicate 32 1 @ replicate 32 2 @ replicate 32 3 @ replicate 32 0,
     faults = [], errno = 0, table = small_table, clk = small_clock,
     files = (\<lambda>r. if r = 0 then Some small_dir else if r = 1 then Some small_file else None),
     next_ref = 2, alloc_faults = [], heap_pad = replicate 8 0\<rparr>"

lemma small_fs_simps [simp]:
  "table small_fs = small_table" "faults small_fs = []" "errno small_fs = 0"
  "get_file small_fs (Some 0) = Some small_dir" "get_file small_fs (Some 1) = Some small_file"
  "files small_fs (Suc 0) = Some small_file" "dentry small_file = Some small_entry"
  "get_file small_fs (Some (Suc 0)) = Some small_file"
  "start_cluster small_file = 2" "file_size small_entry = 40"
  by (simp_all add: small_fs_def small_file_def small_entry_def get_file_def)

lemma small_fs_volume: "volume_wf small_fs"
  using small_table_wf
  by (simp add: volume_wf_def small_table_bpc) (simp add: small_fs_def small_table_def)

lemma small_fs_file_ok: "file_ok small_fs 1 small_file small_entry [2, 4]"
  using small_fs_volume small_table_chain by (simp add: file_ok_def small_table_bpc del: chain.simps)

theorem fat_file_pread_correct_witness:
  "\<exists>s'. fat_file_pread (Some 1) (\<lambda>_. 9) 100 35 (Some 0) small_fs =
     Some (5, store_at (\<lambda>_. 9) 0 (take 100 (drop 35 (file_data small_fs small_entry [2, 4]))), s')"
  using fat_file_pread_correct [OF small_fs_file_ok, of 35 100 "Some 0" "\<lambda>_. 9"] by auto

section \<open>What an operation leaves alone\<close>

definition geometry :: "fat_table_s \<Rightarrow> u32 \<times> int \<times> nat \<times> int \<times> nat" where
  "geometry t = (num_data_clusters t, data_start_offset t, cluster_order t, fat_offset t,
     length (fat_map t))"

lemma geometry_cong:
  assumes "geometry t' = geometry t"
  shows "valid_cluster t' = valid_cluster t" "bpc t' = bpc t" "cluster_pos t' = cluster_pos t"
    "table_wf t' = table_wf t" "fat_table_cluster_offset t' = fat_table_cluster_offset t"
    "fat_table_mask_offset off t' = fat_table_mask_offset off t"
  using assms
  by (simp_all add: geometry_def fat_table_is_valid_cluster_number_def bpc_eq cluster_pos_def
      table_wf_def fat_table_cluster_offset_def fat_table_mask_offset_def fun_eq_iff)

lemma geometry_set_fat [simp]: "geometry (set_fat c n t) = geometry t"
  by (simp add: geometry_def)

text \<open>Only the clusters in \<open>C\<close> may have other bytes afterwards.\<close>

definition disk_frame :: "u32 set \<Rightarrow> 'a tstate_scheme \<Rightarrow> 'a tstate_scheme \<Rightarrow> bool" where
  "disk_frame C s s' \<longleftrightarrow> geometry (table s') = geometry (table s) \<and>
     length (content s') = length (content s) \<and>
     (\<forall>c. valid_cluster (table s) c \<and> c \<notin> C \<longrightarrow> cluster_bytes s' c = cluster_bytes s c)"

lemma disk_frame_refl [inv_intros]:
  "geometry (table s') = geometry (table s) \<Longrightarrow> content s' = content s \<Longrightarrow> disk_frame C s s'"
  using geometry_cong(2,3) [of "table s'" "table s"]
  by (simp add: disk_frame_def cluster_bytes_def)

lemma disk_frame_trans:
  "disk_frame C s s' \<Longrightarrow> disk_frame D s' s'' \<Longrightarrow> C \<union> D \<subseteq> E \<Longrightarrow> disk_frame E s s''"
proof -
  assume a: "disk_frame C s s'" "disk_frame D s' s''" "C \<union> D \<subseteq> E"
  have "valid_cluster (table s') = valid_cluster (table s)"
    using a(1) by (intro geometry_cong) (simp add: disk_frame_def)
  with a show ?thesis
    unfolding disk_frame_def subset_iff Un_iff by metis
qed

lemma disk_frame_volume: "disk_frame C s s' \<Longrightarrow> volume_wf s \<Longrightarrow> volume_wf s'"
  using geometry_cong [of "table s'" "table s"]
  by (simp add: disk_frame_def volume_wf_def) (simp add: geometry_def)

lemma disk_frame_cluster_bytes:
  "disk_frame C s s' \<Longrightarrow> valid_cluster (table s) c \<Longrightarrow> c \<notin> C \<Longrightarrow>
   cluster_bytes s' c = cluster_bytes s c"
  by (simp add: disk_frame_def)

lemma chain_bytes_frame:
  assumes "disk_frame C s s'" "\<forall>c\<in>set cs. valid_cluster (table s) c" "set cs \<inter> C = {}"
  shows "chain_bytes s' cs = chain_bytes s cs"
proof -
  have "map (cluster_bytes s') cs = map (cluster_bytes s) cs"
    using disk_frame_cluster_bytes [OF assms(1)] assms(2,3) by (intro map_cong) auto
  then show ?thesis unfolding chain_bytes_def by (rule arg_cong)
qed

lemma disk_frame_write_cluster:
  assumes "volume_wf s" "valid_cluster (table s) c" "k + length xs \<le> bpc (table s)"
    "content s' = write_at (cluster_pos (table s) c + k) xs (content s)" "table s' = table s"
  shows "disk_frame {c} s s'"
proof -
  have "cluster_bytes s' d = cluster_bytes (s\<lparr>content := content s'\<rparr>) d" for d
    by (simp add: cluster_bytes_def assms(5))
  moreover have "length (content s') = length (content s)"
    using cluster_in_volume [OF assms(1,2)] assms(3,4) by (simp add: length_write_at)
  ultimately show ?thesis
    using cluster_bytes_write [OF assms(1-3)] assms(4,5) by (simp add: disk_frame_def)
qed

text \<open>An update of the allocation table.\<close>

lemma fat_room: "table_wf t \<Longrightarrow> j < length (fat_map t) \<Longrightarrow>
    nat (fat_offset t) + 4 * j + 4 \<le> nat (data_start_offset t)"
  by (simp add: table_wf_def) linarith

lemma set_next_frame:
  assumes "volume_wf s" "valid_cluster (table s) c" "faults s = []"
  obtains s' where "fat_table_set_next_cluster c n s = Some s'" "disk_frame {} s s'"
    "table s' = set_fat c n (table s)" "s' = s\<lparr>content := content s', table := table s'\<rparr>"
proof -
  let ?o = "nat (fat_offset (table s)) + 4 * unat c"
  let ?s = "s\<lparr>content := write_at ?o (le32_bytes n) (content s), table := set_fat c n (table s)\<rparr>"
  have wf: "table_wf (table s)" using assms(1) by (simp add: volume_wf_def)
  have room: "?o + length (le32_bytes n) \<le> nat (data_start_offset (table s))"
    using fat_room [OF wf valid_cluster_in_map [OF wf assms(2)]] by simp
  have "nat (data_start_offset (table s)) \<le> length (content s)"
    using assms(1) by (simp add: volume_wf_def)
  then have "length (content ?s) = length (content s)"
    using room by (simp add: length_write_at)
  moreover have "cluster_bytes ?s d = cluster_bytes s d" if "valid_cluster (table s) d" for d
    by (rule cluster_bytes_below [OF assms(1) room that]) simp_all
  ultimately have "disk_frame {} s ?s" by (simp add: disk_frame_def)
  then show thesis by (intro that [OF set_next_ok [OF wf assms(2,3)]]) simp_all
qed

text \<open>The write of a directory entry stays inside the directory's cluster.\<close>

definition dir_ok :: "'a fstate_scheme \<Rightarrow> nat option \<Rightarrow> u32 \<Rightarrow> bool" where
  "dir_ok s parent dc \<longleftrightarrow> (\<exists>p. get_file s parent = Some p \<and> start_cluster p = dc) \<and>
     valid_cluster (table s) dc \<and> 5 \<le> cluster_order (table s) \<and> cluster_order (table s) < 32"

text \<open>Writing an entry into a slot of its directory's cluster; beyond it there is no space.\<close>

lemma dir_cluster_size:
  assumes "dir_ok s parent dc"
  shows "unat (of_nat (bpc (table s)) :: u32) = bpc (table s)" "32 dvd bpc (table s)"
proof -
  have order: "5 \<le> cluster_order (table s)" "cluster_order (table s) < 32"
    using assms by (simp_all add: dir_ok_def)
  have "(2::nat) ^ cluster_order (table s) < 2 ^ 32"
    by (rule power_strict_increasing [OF order(2)]) simp
  then have "bpc (table s) < 2 ^ 32" by (simp add: bpc_eq)
  then show "unat (of_nat (bpc (table s)) :: u32) = bpc (table s)" by (simp add: unat_of_nat)
  show "32 dvd bpc (table s)"
    using order(1) le_imp_power_dvd [of 5 "cluster_order (table s)" "2::nat"] by (simp add: bpc_eq)
qed

lemma write_dir_entry_slot:
  assumes "volume_wf s" "dir_ok s parent dc" "faults s = []" "dentry_wf d" "unat n * 32 < bpc (table s)"
    "s' = s\<lparr>content := write_at (cluster_pos (table s) dc + unat n * 32) (entry_bytes d) (content s)\<rparr>"
  shows "write_dir_entry parent d n s = Some s'" "disk_frame {dc} s s'"
proof -
  obtain p where p: "get_file s parent = Some p" "start_cluster p = dc"
    using assms(2) by (auto simp: dir_ok_def)
  have wf: "table_wf (table s)" using assms(1) by (simp add: volume_wf_def)
  have dc: "valid_cluster (table s) dc" using assms(2) by (simp add: dir_ok_def)
  let ?o = "cluster_pos (table s) dc + unat n * 32"
  obtain q where "bpc (table s) = 32 * q" using dir_cluster_size(2) [OF assms(2)] by blast
  moreover from this have "unat n < q" using assms(5) by simp
  ultimately have fit: "unat n * 32 + 32 \<le> bpc (table s)" by simp
  have "sys_pwrite (entry_bytes d) (int ?o) s = (32, s')"
    using assms(3,6) length_entry_bytes [OF assms(4)]
    by (simp add: sys_pwrite_def nat_add_distrib del: of_nat_add)
  then show "write_dir_entry parent d n s = Some s'"
    using p dir_cluster_size(1) [OF assms(2)] assms(5)
    by (simp add: write_dir_entry_def Let_def cluster_offset_eq [OF wf dc] add.commute)
  show "disk_frame {dc} s s'"
    unfolding assms(6)
    by (rule disk_frame_write_cluster [OF assms(1) dc, of "unat n * 32" "entry_bytes d"])
       (use fit length_entry_bytes [OF assms(4)] in simp_all)
qed

lemma write_dir_entry_full:
  assumes "dir_ok s parent dc" "bpc (table s) \<le> unat n * 32"
  shows "write_dir_entry parent d n s = Some (s\<lparr>errno := ENOSPC\<rparr>)"
proof -
  obtain p where "get_file s parent = Some p" using assms(1) by (auto simp: dir_ok_def)
  then show ?thesis
    using dir_cluster_size(1) [OF assms(1)] assms(2) by (simp add: write_dir_entry_def Let_def)
qed

lemma write_dir_entry_frame:
  assumes "volume_wf s" "dir_ok s parent dc" "faults s = []" "dentry_wf d"
  obtains s' where "write_dir_entry parent d n s = Some s'" "disk_frame {dc} s s'"
    "s' = s\<lparr>content := content s', errno := errno s'\<rparr>"
proof (cases "bpc (table s) \<le> unat n * 32")
  case True
  from write_dir_entry_full [OF assms(2) this] show thesis
    by (rule that) (auto intro: disk_frame_refl)
next
  case False
  let ?s = "s\<lparr>content := write_at (cluster_pos (table s) dc + unat n * 32) (entry_bytes d) (content s)\<rparr>"
  have "?s = s\<lparr>content := content ?s, errno := errno ?s\<rparr>" by (cases s) simp
  with write_dir_entry_slot [OF assms, of n ?s] False show thesis by (intro that [of ?s]) simp_all
qed

lemma dentry_wf_fill [simp]:
  "dentry_wf (snd (fill_dentry_time_now c a b d)) = dentry_wf d"
  "file_size (snd (fill_dentry_time_now c a b d)) = file_size d"
  by (simp_all add: dentry_wf_def fill_dentry_time_now_def split_beta Let_def)

lemma touch_dentry_frame:
  assumes "volume_wf s" "dir_ok s parent dc" "faults s = []" "files s r = Some f" "dentry f = Some d"
    "dentry_wf d"
  obtains s' where "touch_dentry m (Some r) parent s = Some s'" "disk_frame {dc} s s'"
    "table s' = table s" "files s' = (files s)(r \<mapsto>
       f\<lparr>dentry := Some (snd (fill_dentry_time_now (clk s) False m d))\<rparr>)"
proof -
  let ?d = "snd (fill_dentry_time_now (clk s) False m d)"
  let ?s = "s\<lparr>files := (files s)(r \<mapsto> f\<lparr>dentry := Some ?d\<rparr>)\<rparr>"
  have u: "upd_dentry (Some r) (\<lambda>d. snd (fill_dentry_time_now (clk s) False m d)) s = Some ?s"
    using assms(4,5) by (simp add: upd_dentry_def get_dentry_def get_file_def upd_file_def)
  have g: "get_file ?s (Some r) = Some (f\<lparr>dentry := Some ?d\<rparr>)" by (simp add: get_file_def)
  have "volume_wf ?s" "faults ?s = []" using assms(1,3) by (simp_all add: volume_wf_def)
  moreover have "dir_ok ?s parent dc"
    using assms(2,4) by (auto simp: dir_ok_def get_file_def split: option.splits)
  ultimately obtain s' where s': "write_dir_entry parent ?d (pos_in_parent f) ?s = Some s'"
    "disk_frame {dc} ?s s'" "s' = ?s\<lparr>content := content s', errno := errno s'\<rparr>"
    using write_dir_entry_frame [of ?s parent dc ?d] assms(6) by auto
  have "touch_dentry m (Some r) parent s = Some s'"
    using u g s'(1) by (simp add: touch_dentry_def)
  moreover have "disk_frame {dc} s s'"
    by (rule disk_frame_trans [OF _ s'(2)]) (auto intro: disk_frame_refl)
  moreover have "table s' = table s" by (subst s'(3)) simp
  moreover have "files s' = files ?s" by (subst s'(3)) simp
  ultimately show thesis by (intro that) simp_all
qed

section \<open>Writing\<close>

lemma chain_bytes_write:
  assumes "volume_wf s" "chain (table s) c cs" "off div bpc (table s) < length cs"
    "length xs \<le> bpc (table s) - off mod bpc (table s)"
    "s' = s\<lparr>content :=
       write_at (cluster_pos (table s) (cs ! (off div bpc (table s))) + off mod bpc (table s)) xs (content s)\<rparr>"
  shows "chain_bytes s' cs = write_at off xs (chain_bytes s cs)"
proof -
  let ?i = "off div bpc (table s)" and ?k = "off mod bpc (table s)"
  have wf: "table_wf (table s)" using assms(1) by (simp add: volume_wf_def)
  have valid: "\<forall>c\<in>set cs. valid_cluster (table s) c" using chain_valid [OF assms(2)] by blast
  have dist: "distinct cs" by (rule chain_distinct [OF wf assms(2)])
  have fit: "?k + length xs \<le> bpc (table s)"
    using assms(4) mod_less_divisor [OF bpc_pos, of off "table s"] by linarith
  have "map (cluster_bytes s') cs =
      (map (cluster_bytes s) cs)[?i := write_at ?k xs (map (cluster_bytes s) cs ! ?i)]"
  proof (rule nth_equalityI)
    fix j assume "j < length (map (cluster_bytes s') cs)"
    then have j: "j < length cs" by simp
    have "cluster_bytes s' (cs ! j) = (if cs ! j = cs ! ?i then write_at ?k xs (cluster_bytes s (cs ! ?i))
        else cluster_bytes s (cs ! j))"
      unfolding assms(5) using valid j assms(3) by (intro cluster_bytes_write assms(1) fit) auto
    then show "map (cluster_bytes s') cs ! j =
        (map (cluster_bytes s) cs)[?i := write_at ?k xs (map (cluster_bytes s) cs ! ?i)] ! j"
      using j assms(3) dist by (simp add: nth_list_update nth_eq_iff_index_eq)
  qed simp
  then show ?thesis
    using concat_block_write [of "bpc (table s)" "map (cluster_bytes s) cs" off xs] valid assms(1,3,4)
    by (simp add: chain_bytes_def)
qed

lemma pwrite_loop_done [simp]: "pwrite_loop buf pos 0 off cluster s = Some (0, off, s)"
  by (simp add: pwrite_loop.simps)

lemma pwrite_loop_ok:
  "\<lbrakk>volume_wf s; chain (table s) c cs; faults s = []; errno s = 0; r < 2 ^ 63;
    off + r \<le> length cs * bpc (table s); 0 < r \<Longrightarrow> cluster = cs ! (off div bpc (table s))\<rbrakk> \<Longrightarrow>
   \<exists>s'. pwrite_loop buf pos (int r) (int off) cluster s = Some (0, int (off + r), s') \<and>
     disk_frame (set cs) s s' \<and> s' = s\<lparr>content := content s'\<rparr> \<and>
     chain_bytes s' cs = write_at off (load_at buf pos r) (chain_bytes s cs)"
proof (induction r arbitrary: off pos cluster s rule: less_induct)
  case (less r)
  let ?t = "table s" and ?m = "bpc (table s)"
  have wf: "table_wf ?t" using less.prems(1) by (simp add: volume_wf_def)
  have valid: "\<forall>c\<in>set cs. valid_cluster ?t c" using chain_valid [OF less.prems(2)] by blast
  have len: "length (chain_bytes s cs) = length cs * ?m" by (rule chain_bytes_length [OF less.prems(1) valid])
  show ?case
  proof (cases "r = 0")
    case True
    then show ?thesis using less.prems(6) len
      by (auto intro: disk_frame_refl simp: load_at_def write_at_Nil)
  next
    case False
    define i where "i = off div ?m"
    have i: "i < length cs" unfolding i_def using False less.prems(6)
      by (intro div_lt_of_le_mult [of ?m r]) auto
    have cl: "cluster = cs ! i" "valid_cluster ?t cluster"
      using False less.prems(7) valid i by (simp_all add: i_def)
    define n where "n = min (?m - off mod ?m) r"
    have n: "0 < n" "n \<le> r" "n \<le> ?m - off mod ?m" using False by (simp_all add: n_def)
    let ?p = "cluster_pos ?t cluster + off mod ?m"
    let ?xs = "load_at buf pos n"
    define s1 where "s1 = s\<lparr>content := write_at ?p ?xs (content s)\<rparr>"
    have wr: "full_pwrite (move_buf buf pos) n (int ?p) s = (n, s1)"
      using full_pwrite_ok [OF less.prems(3), of "int ?p" n "move_buf buf pos"] n less.prems(5)
      by (simp add: load_move s1_def del: of_nat_add)
    have "off mod ?m < ?m" by simp
    then have fit: "off mod ?m + n \<le> ?m" using n(3) by linarith
    have fr: "disk_frame {cluster} s s1"
      by (rule disk_frame_write_cluster [OF less.prems(1) cl(2), of "off mod ?m" ?xs])
         (use fit in \<open>simp_all add: s1_def\<close>)
    have cb1: "chain_bytes s1 cs = write_at off ?xs (chain_bytes s cs)"
      using i n(3) cl(1) unfolding i_def
      by (intro chain_bytes_write [OF less.prems(1,2)]) (simp_all add: s1_def)
    have nx: "fat_table_get_next_cluster ?t cluster =
        Some (if Suc i < length cs then cs ! Suc i else FAT_CLUSTER_END_OF_CHAIN)"
      using chain_nth_next [OF less.prems(2) i] cl(1) by simp
    show ?thesis
    proof (cases "n < r")
      case False
      with n have "n = r" by simp
      then have "pwrite_loop buf pos (int r) (int off) cluster s = Some (0, int (off + r), s1)"
        using \<open>r \<noteq> 0\<close> wr less.prems(5)
        by (subst pwrite_loop.simps)
           (simp add: remaining_bytes_eq mask_offset_eq cluster_offset_eq [OF wf cl(2)] n_def [symmetric]
             ssize_of_def)
      moreover have "disk_frame (set cs) s s1"
        by (rule disk_frame_trans [OF disk_frame_refl fr]) (use cl(1) i in auto)
      moreover have "s1 = s\<lparr>content := content s1\<rparr>" by (simp add: s1_def)
      ultimately show ?thesis using cb1 \<open>n = r\<close> by blast
    next
      case True
      have d: "(off + n) div ?m = Suc i" using step_in_block(1) [OF bpc_pos n_def True] by (simp add: i_def)
      have Suc_i: "Suc i < length cs"
        using div_lt_of_le_mult [of ?m "r - n" "off + n" "length cs"] True less.prems(6) d by simp
      then have "valid_cluster ?t (cs ! Suc i)" using valid by simp
      then have not_eoc: "\<not> fat_table_is_EOC (cs ! Suc i)" by (rule valid_not_EOC [OF wf])
      have step: "pwrite_loop buf pos (int r) (int off) cluster s =
          pwrite_loop buf (pos + int n) (int (r - n)) (int (off + n)) (cs ! Suc i) s1"
        using \<open>r \<noteq> 0\<close> wr less.prems(4,5) True nx Suc_i not_eoc n(2)
        by (subst pwrite_loop.simps)
           (simp add: remaining_bytes_eq mask_offset_eq cluster_offset_eq [OF wf cl(2)] n_def [symmetric]
             ssize_of_def, simp add: s1_def of_nat_diff Let_def)
      have "\<exists>s'. pwrite_loop buf (pos + int n) (int (r - n)) (int (off + n)) (cs ! Suc i) s1 =
            Some (0, int (off + n + (r - n)), s') \<and>
          disk_frame (set cs) s1 s' \<and> s' = s1\<lparr>content := content s'\<rparr> \<and>
          chain_bytes s' cs = write_at (off + n) (load_at buf (pos + int n) (r - n)) (chain_bytes s1 cs)"
      proof (rule less.IH)
        show "volume_wf s1" by (rule disk_frame_volume [OF fr less.prems(1)])
        show "(cs ! Suc i) = cs ! ((off + n) div bpc (table s1))" by (simp add: s1_def d)
        show "off + n + (r - n) \<le> length cs * bpc (table s1)" using less.prems(6) True by (simp add: s1_def)
      qed (use less.prems True n(1) in \<open>simp_all add: s1_def\<close>)
      then obtain s' where s': "pwrite_loop buf (pos + int n) (int (r - n)) (int (off + n)) (cs ! Suc i) s1 =
            Some (0, int (off + n + (r - n)), s')" "disk_frame (set cs) s1 s'"
          "s' = s1\<lparr>content := content s'\<rparr>"
          "chain_bytes s' cs = write_at (off + n) (load_at buf (pos + int n) (r - n)) (chain_bytes s1 cs)"
        by blast
      have "chain_bytes s' cs = write_at off (?xs @ load_at buf (pos + int n) (r - n)) (chain_bytes s cs)"
        using s'(4) cb1 write_at_write_at [of off ?xs "load_at buf (pos + int n) (r - n)" "chain_bytes s cs"]
          less.prems(6) len True by simp
      then have "chain_bytes s' cs = write_at off (load_at buf pos r) (chain_bytes s cs)"
        using load_at_add [of buf pos n "r - n"] True by simp
      moreover have "disk_frame (set cs) s s'"
        by (rule disk_frame_trans [OF fr s'(2)]) (use cl(1) i in auto)
      moreover have "s' = s\<lparr>content := content s'\<rparr>" by (subst s'(3)) (simp add: s1_def)
      ultimately show ?thesis using step s'(1) True by auto
    qed
  qed
qed

text \<open>Starting to write in the last cluster of a chain: a free cluster is appended first.\<close>

definition allocated :: "fat_table_s \<Rightarrow> u32 list \<Rightarrow> bool" where
  "allocated t cs \<longleftrightarrow> (\<forall>c\<in>set cs. fat_map t ! unat c \<noteq> FAT_CLUSTER_FREE)"

lemma next_free_valid:
  assumes "table_wf t" "fat_table_get_next_free_cluster t = Some n" "valid_cluster t n"
  shows "fat_map t ! unat n = FAT_CLUSTER_FREE"
proof -
  obtain c where c: "next_free_loop (drop 2 (fat_map t)) 2 = Some c"
    "n = (if valid_cluster t c then c else FAT_CLUSTER_END_OF_CHAIN)"
    using assms(2) unfolding fat_table_get_next_free_cluster_def
    by (cases "next_free_loop (drop 2 (fat_map t)) 2") auto
  then have n: "n = c" using assms(3) EOC_not_valid [OF assms(1)] by (auto split: if_splits)
  have "length (fat_map t) \<le> 0x0FFFFFF8" "2 \<le> length (fat_map t)"
    using assms(1) by (simp_all add: table_wf_def)
  moreover from this have "length (fat_map t) - 2 < 4294967294" by linarith
  ultimately show ?thesis using next_free_loop_Some [OF c(1)] n by (auto simp: fat_consts)
qed

lemma extend_chain:
  assumes "volume_wf s" "chain (table s) c (us @ [l])" "faults s = []"
    "valid_cluster (table s) n" "n \<notin> set (us @ [l])"
  obtains s1 s2 where "fat_table_set_next_cluster l n s = Some s1"
    "fat_table_set_next_cluster n FAT_CLUSTER_END_OF_CHAIN s1 = Some s2" "disk_frame {} s s2"
    "chain (table s2) c (us @ [l, n])" "s2 = s\<lparr>content := content s2, table := table s2\<rparr>"
    "table s2 = set_fat n FAT_CLUSTER_END_OF_CHAIN (set_fat l n (table s))"
proof -
  have wf: "table_wf (table s)" using assms(1) by (simp add: volume_wf_def)
  have l: "valid_cluster (table s) l" using chain_valid [OF assms(2)] by simp
  obtain s1 where s1: "fat_table_set_next_cluster l n s = Some s1" "disk_frame {} s s1"
    "table s1 = set_fat l n (table s)" "s1 = s\<lparr>content := content s1, table := table s1\<rparr>"
    using set_next_frame [OF assms(1) l assms(3), of n] by blast
  have f1: "faults s1 = []" using assms(3) by (subst s1(4)) simp
  obtain s2 where s2: "fat_table_set_next_cluster n FAT_CLUSTER_END_OF_CHAIN s1 = Some s2"
    "disk_frame {} s1 s2" "table s2 = set_fat n FAT_CLUSTER_END_OF_CHAIN (table s1)"
    "s2 = s1\<lparr>content := content s2, table := table s2\<rparr>"
    using set_next_frame [OF disk_frame_volume [OF s1(2) assms(1)] _ f1] assms(4) s1(3)
    by (metis set_fat_simps(6))
  show thesis
  proof (rule that [OF s1(1) s2(1)])
    show "disk_frame {} s s2" by (rule disk_frame_trans [OF s1(2) s2(2)]) simp
    show "chain (table s2) c (us @ [l, n])"
      unfolding s2(3) s1(3) by (rule chain_extend [OF wf assms(4,2,5)])
    show "s2 = s\<lparr>content := content s2, table := table s2\<rparr>"
      by (subst s2(4), subst s1(4)) simp
  qed (simp add: s2(3) s1(3))
qed

lemma length_chain_bytes_ok:
  "file_ok s r f d cs \<Longrightarrow> length (chain_bytes s cs) = length cs * bpc (table s)"
  using chain_bytes_length chain_valid unfolding file_ok_def by metis

text \<open>The chain a write works on: extended if it starts in the last cluster.\<close>

lemma extend_if_last:
  assumes "file_ok s r f d cs" "faults s = []" "allocated (table s) cs" "i < length cs"
    "Suc i = length cs \<Longrightarrow> fat_table_get_next_free_cluster (table s) = Some n \<and> valid_cluster (table s) n"
  obtains s1 cs1 nx where "fat_table_get_next_cluster (table s) (cs ! i) = Some nx"
    "(if fat_table_is_EOC nx then do {
        next_cluster \<leftarrow> fat_table_get_next_free_cluster (table s);
        s \<leftarrow> fat_table_set_next_cluster (cs ! i) next_cluster s;
        fat_table_set_next_cluster next_cluster FAT_CLUSTER_END_OF_CHAIN s }
      else Some s) = Some s1"
    "disk_frame {} s s1" "chain (table s1) (start_cluster f) cs1"
    "cs1 = (if Suc i = length cs then cs @ [n] else cs)"
    "s1 = s\<lparr>content := content s1, table := table s1\<rparr>"
proof -
  note ok = assms(1) [unfolded file_ok_def]
  have wf: "table_wf (table s)" using ok by (simp add: volume_wf_def)
  have ch: "chain (table s) (start_cluster f) cs" using ok by simp
  note nx = chain_nth_next [OF ch assms(4)]
  show thesis
  proof (cases "Suc i = length cs")
    case True
    then have split: "cs = take i cs @ [cs ! i]" using assms(4) by (metis take_Suc_conv_app_nth take_all order_refl)
    have n: "fat_table_get_next_free_cluster (table s) = Some n" "valid_cluster (table s) n"
      using assms(5) True by simp_all
    have "n \<notin> set cs"
      using assms(3) next_free_valid [OF wf n] by (auto simp: allocated_def)
    then have "n \<notin> set (take i cs @ [cs ! i])" using split by metis
    moreover have "chain (table s) (start_cluster f) (take i cs @ [cs ! i])" using ch split by metis
    ultimately obtain s1 s2 where e: "fat_table_set_next_cluster (cs ! i) n s = Some s1"
      "fat_table_set_next_cluster n FAT_CLUSTER_END_OF_CHAIN s1 = Some s2" "disk_frame {} s s2"
      "chain (table s2) (start_cluster f) (take i cs @ [cs ! i, n])"
      "s2 = s\<lparr>content := content s2, table := table s2\<rparr>"
      using extend_chain [of s "start_cluster f" "take i cs" "cs ! i" n] ok assms(2) n(2) by metis
    show thesis
    proof (rule that [of FAT_CLUSTER_END_OF_CHAIN s2 "cs @ [n]"])
      show "fat_table_get_next_cluster (table s) (cs ! i) = Some FAT_CLUSTER_END_OF_CHAIN"
        using nx True by simp
      have "take i cs @ [cs ! i, n] = (take i cs @ [cs ! i]) @ [n]" by simp
      then show "chain (table s2) (start_cluster f) (cs @ [n])" using e(4) split by metis
    qed (use n e True in simp_all)
  next
    case False
    then have "Suc i < length cs" using assms(4) by simp
    then have "\<not> fat_table_is_EOC (cs ! Suc i)"
      using chain_valid [OF ch] by (intro valid_not_EOC [OF wf]) simp
    then show thesis
      using nx ch \<open>Suc i < length cs\<close> disk_frame_refl [of s s "{}"]
      by (intro that [of "cs ! Suc i" s cs]) simp_all
  qed
qed

lemma take_write_at:
  assumes "off \<le> m" "m \<le> length D" "off + length xs \<le> length D"
  shows "take (max m (off + length xs)) (write_at off xs D) = write_at off xs (take m D)"
proof (cases "m \<le> off + length xs")
  case True
  with assms show ?thesis by (cases xs) (auto simp: write_at_def max_def min_def)
next
  case False
  then have "max m (off + length xs) = m" by simp
  with assms False show ?thesis by (simp add: write_at_def min_def drop_take)
qed

lemma dir_ok_mono:
  assumes "dir_ok s parent dc" "geometry (table s') = geometry (table s)"
    "\<And>q p. files s q = Some p \<Longrightarrow> \<exists>p'. files s' q = Some p' \<and> start_cluster p' = start_cluster p"
  shows "dir_ok s' parent dc"
proof -
  obtain q p where "parent = Some q" "files s q = Some p" "start_cluster p = dc"
    using assms(1) by (auto simp: dir_ok_def get_file_def split: option.splits)
  moreover from this obtain p' where "files s' q = Some p'" "start_cluster p' = dc"
    using assms(3) by blast
  ultimately show ?thesis
    using assms(1) geometry_cong(1) [OF assms(2)] assms(2)
    by (simp add: dir_ok_def get_file_def) (simp add: geometry_def)
qed

lemma upd_dentry_eq:
  "files s r = Some f \<Longrightarrow> dentry f = Some d \<Longrightarrow>
   upd_dentry (Some r) g s = Some (s\<lparr>files := (files s)(r \<mapsto> f\<lparr>dentry := Some (g d)\<rparr>)\<rparr>)"
  by (simp add: upd_dentry_def get_dentry_def get_file_def upd_file_def)

text \<open>The end of a write: the new size, the date, and the entry on the volume.\<close>

lemma write_entry_phase:
  assumes "volume_wf s" "faults s = []" "files s r = Some f" "dentry f = Some d" "dentry_wf d"
    "dir_ok s parent dc" "m < 2 ^ 32"
  obtains s' d' where "do {
      s \<leftarrow> (if int m > uint (file_size d)
           then upd_dentry (Some r) (\<lambda>d. d\<lparr>file_size := word_of_int (int m)\<rparr>) s else Some s);
      touch_dentry True (Some r) parent s } = Some s'"
    "files s' r = Some (f\<lparr>dentry := Some d'\<rparr>)" "unat (file_size d') = max (unat (file_size d)) m"
    "disk_frame {dc} s s'" "table s' = table s"
proof -
  define d2 where "d2 = (if unat (file_size d) < m then d\<lparr>file_size := word_of_int (int m)\<rparr> else d)"
  define f2 where "f2 = f\<lparr>dentry := Some d2\<rparr>"
  define s2 where "s2 = s\<lparr>files := (files s)(r \<mapsto> f2)\<rparr>"
  have cmp: "int m > uint (file_size d) \<longleftrightarrow> unat (file_size d) < m" by (metis of_nat_less_iff uint_nat)
  have size_step: "(if int m > uint (file_size d)
      then upd_dentry (Some r) (\<lambda>d. d\<lparr>file_size := word_of_int (int m)\<rparr>) s else Some s) = Some s2"
  proof (cases "unat (file_size d) < m")
    case True
    with cmp show ?thesis by (simp add: upd_dentry_eq [OF assms(3,4)] s2_def f2_def d2_def)
  next
    case False
    then have "f2 = f" using assms(4) by (simp add: f2_def d2_def)
    with False cmp assms(3) show ?thesis by (simp add: s2_def map_upd_triv)
  qed
  have vol: "volume_wf s2" "faults s2 = []" "files s2 r = Some f2" "dentry f2 = Some d2" "table s2 = table s"
    using assms(1,2) by (simp_all add: s2_def volume_wf_def f2_def)
  have dwf: "dentry_wf d2" using assms(5) by (simp add: d2_def dentry_wf_def)
  have dir: "dir_ok s2 parent dc"
    by (rule dir_ok_mono [OF assms(6)]) (use assms(3) in \<open>auto simp: s2_def f2_def\<close>)
  obtain s4 where s4: "touch_dentry True (Some r) parent s2 = Some s4" "disk_frame {dc} s2 s4"
    "table s4 = table s2" "files s4 = (files s2)(r \<mapsto>
       f2\<lparr>dentry := Some (snd (fill_dentry_time_now (clk s2) False True d2))\<rparr>)"
    using touch_dentry_frame [OF vol(1) dir vol(2-4) dwf] by metis
  let ?d4 = "snd (fill_dentry_time_now (clk s2) False True d2)"
  have "unat (word_of_int (int m) :: u32) = m" using assms(7) by (simp add: unat_of_nat)
  then have fs: "unat (file_size ?d4) = max (unat (file_size d)) m" by (simp add: d2_def)
  have fr: "disk_frame {dc} s s4"
    by (rule disk_frame_trans [where C = "{}", OF disk_frame_refl s4(2)]) (simp_all add: s2_def)
  show thesis
    by (rule that [of s4 ?d4, OF _ _ fs fr]) (use size_step s4 vol(5) in \<open>simp_all add: f2_def\<close>)
qed

text \<open>The first part of a write: finding the cluster, extending the chain, and the loop.\<close>

lemma write_data_phase:
  assumes "file_ok s r f d cs" "faults s = []" "errno s = 0" "allocated (table s) cs"
    "off div bpc (table s) < length cs" "len < 2 ^ 32"
    "Suc (off div bpc (table s)) = length cs \<Longrightarrow>
       fat_table_get_next_free_cluster (table s) = Some n \<and> valid_cluster (table s) n"
    "cs1 = (if Suc (off div bpc (table s)) = length cs then cs @ [n] else cs)"
    "off + len \<le> length cs1 * bpc (table s)"
  obtains nx s1 s2 where
    "fat_table_get_next_cluster (table s) (cs ! (off div bpc (table s))) = Some nx"
    "(if fat_table_is_EOC nx then do {
        next_cluster \<leftarrow> fat_table_get_next_free_cluster (table s);
        s \<leftarrow> fat_table_set_next_cluster (cs ! (off div bpc (table s))) next_cluster s;
        fat_table_set_next_cluster next_cluster FAT_CLUSTER_END_OF_CHAIN s }
      else Some s) = Some s1"
    "pwrite_loop buf 0 (int len) (int off) (cs ! (off div bpc (table s))) s1 =
       Some (0, int (off + len), s2)"
    "disk_frame (set cs1) s s2" "chain (table s2) (start_cluster f) cs1"
    "s2 = s\<lparr>content := content s2, table := table s2\<rparr>"
    "\<exists>ex. length (chain_bytes s cs @ ex) = length cs1 * bpc (table s) \<and>
       chain_bytes s2 cs1 = write_at off (load_at buf 0 len) (chain_bytes s cs @ ex)"
proof -
  let ?i = "off div bpc (table s)"
  note ok = assms(1) [unfolded file_ok_def]
  obtain s1 cs1' nx where e: "fat_table_get_next_cluster (table s) (cs ! ?i) = Some nx"
    "(if fat_table_is_EOC nx then do {
        next_cluster \<leftarrow> fat_table_get_next_free_cluster (table s);
        s \<leftarrow> fat_table_set_next_cluster (cs ! ?i) next_cluster s;
        fat_table_set_next_cluster next_cluster FAT_CLUSTER_END_OF_CHAIN s }
      else Some s) = Some s1"
    "disk_frame {} s s1" "chain (table s1) (start_cluster f) cs1'"
    "cs1' = (if Suc ?i = length cs then cs @ [n] else cs)"
    "s1 = s\<lparr>content := content s1, table := table s1\<rparr>"
    by (rule extend_if_last [OF assms(1,2,4,5,7)])
  have cs1: "cs1' = cs1" using e(5) assms(8) by simp
  have "geometry (table s1) = geometry (table s)" using e(3) by (simp add: disk_frame_def)
  note gc = geometry_cong [OF this]
  have s1: "faults s1 = []" "errno s1 = 0" using assms(2,3) by (subst e(6), simp)+
  have vol1: "volume_wf s1" using disk_frame_volume [OF e(3)] ok by simp
  have at: "cs ! ?i = cs1 ! (off div bpc (table s1))"
    using assms(5,8) gc(2) by (simp add: nth_append)
  have "\<exists>s2. pwrite_loop buf 0 (int len) (int off) (cs ! ?i) s1 = Some (0, int (off + len), s2) \<and>
      disk_frame (set cs1) s1 s2 \<and> s2 = s1\<lparr>content := content s2\<rparr> \<and>
      chain_bytes s2 cs1 = write_at off (load_at buf 0 len) (chain_bytes s1 cs1)"
    by (rule pwrite_loop_ok [OF vol1 e(4) [unfolded cs1] s1]) (use at assms(6,9) gc(2) in simp_all)
  then obtain s2 where s2: "pwrite_loop buf 0 (int len) (int off) (cs ! ?i) s1 = Some (0, int (off + len), s2)"
    "disk_frame (set cs1) s1 s2" "s2 = s1\<lparr>content := content s2\<rparr>"
    "chain_bytes s2 cs1 = write_at off (load_at buf 0 len) (chain_bytes s1 cs1)" by blast
  have t2: "table s2 = table s1" by (subst s2(3)) simp
  have "chain_bytes s1 cs = chain_bytes s cs"
    using chain_valid ok by (intro chain_bytes_frame [OF e(3)]) auto
  then have "\<exists>ex. chain_bytes s1 cs1 = chain_bytes s cs @ ex"
    using assms(8) by (auto simp: chain_bytes_def)
  moreover have "length (chain_bytes s1 cs1) = length cs1 * bpc (table s)"
    using chain_bytes_length [OF vol1, of cs1] chain_valid [OF e(4)] cs1 gc(2) by simp
  ultimately have ex: "\<exists>ex. length (chain_bytes s cs @ ex) = length cs1 * bpc (table s) \<and>
       chain_bytes s2 cs1 = write_at off (load_at buf 0 len) (chain_bytes s cs @ ex)"
    using s2(4) by metis
  show thesis
  proof (rule that [OF e(1,2) s2(1) _ _ _ ex])
    show "disk_frame (set cs1) s s2" by (rule disk_frame_trans [OF e(3) s2(2)]) simp
    show "chain (table s2) (start_cluster f) cs1" using e(4) cs1 t2 by simp
    show "s2 = s\<lparr>content := content s2, table := table s2\<rparr>"
      by (subst s2(3), subst e(6)) (simp add: t2)
  qed
qed

text \<open>
  C1. Writing puts exactly the given bytes into the file: for an offset inside the file's chain and
  at most its size, and a write that ends within the chain, extended by one free cluster if the
  write starts in the last one, the new contents are the old ones with the bytes written at the
  offset (the file grows if it has to), the file is still consistent, and no cluster changes but the
  file's own and the one of its directory.
\<close>

theorem fat_file_pwrite_correct:
  assumes "file_ok s r f d cs" and "faults s = []" and "errno s = 0" and "dentry_wf d"
    and "allocated (table s) cs" and "dir_ok s parent dc" and "dc \<notin> set cs"
    and "off \<le> unat (file_size d)" and "off div bpc (table s) < length cs" and "off + len < 2 ^ 32"
    and "Suc (off div bpc (table s)) = length cs \<Longrightarrow>
       fat_table_get_next_free_cluster (table s) = Some n \<and> valid_cluster (table s) n \<and> n \<noteq> dc"
    and "cs1 = (if Suc (off div bpc (table s)) = length cs then cs @ [n] else cs)"
    and "off + len \<le> length cs1 * bpc (table s)"
  shows "\<exists>s' f' d'. fat_file_pwrite (Some r) buf len (int off) parent s = Some (int len, s') \<and>
     file_ok s' r f' d' cs1 \<and>
     file_data s' d' cs1 = write_at off (load_at buf 0 len) (file_data s d cs) \<and>
     disk_frame (set cs1 \<union> {dc}) s s'"
proof -
  note ok = assms(1) [unfolded file_ok_def]
  let ?i = "off div bpc (table s)" and ?m = "bpc (table s)" and ?fs = "unat (file_size d)"
  have wf: "table_wf (table s)" using ok by (simp add: volume_wf_def)
  have not_over: "\<not> uint (file_size d) < int off" using assms(8) by (metis linorder_not_less of_nat_less_iff uint_nat)
  have seek: "fat_table_seek_cluster (start_cluster f) (int off) s = Some (cs ! ?i, s)"
    using ok assms(9,10) by (intro seek_in_chain(1) [OF wf]) auto
  have lt: "len < 2 ^ 32" using assms(10) by simp
  have free: "Suc ?i = length cs \<Longrightarrow>
      fat_table_get_next_free_cluster (table s) = Some n \<and> valid_cluster (table s) n"
    using assms(11) by simp
  obtain nx s1 s2 where w: "fat_table_get_next_cluster (table s) (cs ! ?i) = Some nx"
    "(if fat_table_is_EOC nx then do {
        next_cluster \<leftarrow> fat_table_get_next_free_cluster (table s);
        s \<leftarrow> fat_table_set_next_cluster (cs ! ?i) next_cluster s;
        fat_table_set_next_cluster next_cluster FAT_CLUSTER_END_OF_CHAIN s }
      else Some s) = Some s1"
    "pwrite_loop buf 0 (int len) (int off) (cs ! ?i) s1 = Some (0, int (off + len), s2)"
    "disk_frame (set cs1) s s2" "chain (table s2) (start_cluster f) cs1"
    "s2 = s\<lparr>content := content s2, table := table s2\<rparr>"
    "\<exists>ex. length (chain_bytes s cs @ ex) = length cs1 * bpc (table s) \<and>
       chain_bytes s2 cs1 = write_at off (load_at buf 0 len) (chain_bytes s cs @ ex)"
    by (rule write_data_phase [OF assms(1,2,3,5,9) lt free assms(12,13)])
  have s2: "faults s2 = []" "files s2 = files s" using assms(2) by (subst w(6), simp)+
  have vol2: "volume_wf s2" using disk_frame_volume [OF w(4)] ok by simp
  have geo: "geometry (table s2) = geometry (table s)" using w(4) by (simp add: disk_frame_def)
  have dir2: "dir_ok s2 parent dc" by (rule dir_ok_mono [OF assms(6) geo]) (simp add: s2)
  have fd: "files s2 r = Some f" "dentry f = Some d" using ok s2 by simp_all
  obtain s4 d4 where t: "do {
      s \<leftarrow> (if int (off + len) > uint (file_size d)
           then upd_dentry (Some r) (\<lambda>d. d\<lparr>file_size := word_of_int (int (off + len))\<rparr>) s2 else Some s2);
      touch_dentry True (Some r) parent s } = Some s4"
    "files s4 r = Some (f\<lparr>dentry := Some d4\<rparr>)" "unat (file_size d4) = max ?fs (off + len)"
    "disk_frame {dc} s2 s4" "table s4 = table s2"
    by (rule write_entry_phase [OF vol2 s2(1) fd assms(4) dir2 assms(10)])
  have gd: "get_dentry s2 (Some r) = Some d" using fd by (simp add: get_dentry_def get_file_def)
  obtain s3 where s3: "(if int (off + len) > uint (file_size d)
      then upd_dentry (Some r) (\<lambda>d. d\<lparr>file_size := word_of_int (int (off + len))\<rparr>) s2 else Some s2) = Some s3"
    "touch_dentry True (Some r) parent s3 = Some s4" using t(1) by (elim bind_eq_SomeE)
  have run: "fat_file_pwrite (Some r) buf len (int off) parent s = Some (int len, s4)"
    using seek not_over assms(3) file_ok_get [OF assms(1)] w(1-3) gd s3
    by (cases "uint (file_size d) < int off + int len") (simp_all add: fat_file_pwrite_def Let_def)
  have dc1: "dc \<notin> set cs1" using assms(7,11,12) by auto
  have "\<forall>c\<in>set cs1. valid_cluster (table s2) c" using chain_valid [OF w(5)] by blast
  then have cb: "chain_bytes s4 cs1 = chain_bytes s2 cs1" "length (chain_bytes s2 cs1) = length cs1 * ?m"
    using dc1 chain_bytes_frame [OF t(4)] chain_bytes_length [OF vol2] geometry_cong(2) [OF geo] by simp_all
  have fit: "max ?fs (off + len) \<le> length cs1 * ?m"
  proof -
    have "length cs * ?m \<le> length cs1 * ?m" using assms(12) by (intro mult_le_mono1) simp
    moreover have "?fs \<le> length cs * ?m" using ok by blast
    ultimately show ?thesis using assms(13) by linarith
  qed
  have "file_ok s4 r (f\<lparr>dentry := Some d4\<rparr>) d4 cs1"
    using disk_frame_volume [OF t(4) vol2] t(2,3,5) w(5) fit geometry_cong(2) [OF geo]
    by (simp add: file_ok_def)
  moreover have "file_data s4 d4 cs1 = write_at off (load_at buf 0 len) (file_data s d cs)"
  proof -
    obtain ex where ex: "length (chain_bytes s cs @ ex) = length cs1 * ?m"
      "chain_bytes s2 cs1 = write_at off (load_at buf 0 len) (chain_bytes s cs @ ex)" using w(7) by blast
    have "?fs \<le> length (chain_bytes s cs)" using ok length_chain_bytes_ok [OF assms(1)] by simp
    then show ?thesis
      using take_write_at [of off ?fs "chain_bytes s cs @ ex" "load_at buf 0 len"] assms(8,13) ex(1)
      by (simp add: file_data_def cb(1) ex(2) t(3))
  qed
  moreover have "disk_frame (set cs1 \<union> {dc}) s s4" by (rule disk_frame_trans [OF w(4) t(4)]) simp
  ultimately show ?thesis using run by blast
qed

lemma small_fs_more:
  "dir_ok small_fs (Some 0) 5" "allocated small_table [2, 4]" "dentry_wf small_entry"
  "fat_table_get_next_free_cluster small_table = Some 3" "valid_cluster small_table 3"
  by (simp_all add: dir_ok_def allocated_def dentry_wf_def small_dir_def,
      simp_all add: small_table_def fat_table_is_valid_cluster_number_def small_entry_def fat_consts
        fat_table_get_next_free_cluster_def)

theorem fat_file_pwrite_correct_witness:
  "\<exists>s' f' d'. fat_file_pwrite (Some 1) (\<lambda>_. 9) 10 35 (Some 0) small_fs = Some (10, s') \<and>
     file_ok s' 1 f' d' [2, 4, 3] \<and>
     file_data s' d' [2, 4, 3] = write_at 35 (replicate 10 9) (file_data small_fs small_entry [2, 4])"
proof -
  have "load_at (\<lambda>_. 9) 0 10 = replicate 10 (9 :: u8)" by (simp add: load_at_def map_replicate_const)
  with fat_file_pwrite_correct [OF small_fs_file_ok, of "Some 0" 5 35 10 3 "[2, 4, 3]" "\<lambda>_. 9"]
    small_fs_more
  show ?thesis by (simp add: small_table_bpc) blast
qed

text \<open>
  Appending to a file that fills its clusters exactly does not work: at the end of the chain
  the search gives the end-of-chain mark, and the driver reads the allocation table at that
  number, beyond its end.
\<close>

theorem fat_file_pwrite_full_chain:
  assumes "file_ok s r f d cs" and "errno s = 0" and "unat (file_size d) = length cs * bpc (table s)"
  shows "fat_file_pwrite (Some r) buf len (int (unat (file_size d))) parent s = None"
proof -
  note ok = assms(1) [unfolded file_ok_def]
  have wf: "table_wf (table s)" using ok by (simp add: volume_wf_def)
  have "unat (file_size d) div bpc (table s) = length cs" using assms(3) by simp
  moreover have "unat (file_size d) < 2 ^ 32" using unsigned_less [of "file_size d"] by simp
  ultimately have "fat_table_seek_cluster (start_cluster f) (int (unat (file_size d))) s =
      Some (FAT_CLUSTER_END_OF_CHAIN, s)"
    using ok by (intro seek_in_chain(2) [OF wf]) auto
  moreover have "fat_table_get_next_cluster (table s) FAT_CLUSTER_END_OF_CHAIN = None"
    using wf by (simp add: fat_table_get_next_cluster_def unat_EOC aget_def table_wf_def)
  moreover have "\<not> uint (file_size d) < int (unat (file_size d))" by (metis less_irrefl uint_nat)
  ultimately show ?thesis
    using file_ok_get [OF assms(1)] assms(2) unfolding fat_file_pwrite_def by simp
qed

theorem fat_file_pwrite_full_chain_witness:
  "fat_file_pwrite (Some 1) (\<lambda>_. 9) 10 64 (Some 0)
     (small_fs\<lparr>files := (\<lambda>r. if r = 1
        then Some (small_file\<lparr>dentry := Some (small_entry\<lparr>file_size := 64\<rparr>)\<rparr>) else None)\<rparr>) = None"
  (is "fat_file_pwrite _ _ _ _ _ ?s = None")
proof -
  have "file_ok ?s 1 (small_file\<lparr>dentry := Some (small_entry\<lparr>file_size := 64\<rparr>)\<rparr>)
      (small_entry\<lparr>file_size := 64\<rparr>) [2, 4]"
    using small_fs_file_ok by (simp add: file_ok_def small_table_bpc volume_wf_def del: chain.simps)
  from fat_file_pwrite_full_chain [OF this, of "\<lambda>_. 9" 10 "Some 0"] show ?thesis
    by (simp add: small_table_bpc)
qed

text \<open>
  A write that needs a second new cluster destroys its own data: in the loop the new cluster is
  linked but the loop goes on with the old one, so the bytes that belong in the new
  cluster overwrite the beginning of the old one; and the entry of the new cluster stays
  marked as free.
\<close>

theorem pwrite_loop_second_extension:
  assumes "volume_wf s" and "faults s = []" and "errno s = 0" and "valid_cluster (table s) c"
    and "fat_table_get_next_cluster (table s) c = Some FAT_CLUSTER_END_OF_CHAIN"
    and "fat_table_get_next_free_cluster (table s) = Some n" and "valid_cluster (table s) n" and "n \<noteq> c"
    and "off mod bpc (table s) = 0" and "0 < k" and "k \<le> bpc (table s)" and "bpc (table s) < 2 ^ 62"
  shows "\<exists>s'. pwrite_loop buf pos (int (bpc (table s) + k)) (int off) c s =
       Some (0, int (off + bpc (table s) + k), s') \<and>
     cluster_bytes s' c =
       load_at buf (pos + int (bpc (table s))) k @ drop k (load_at buf pos (bpc (table s))) \<and>
     fat_table_get_next_cluster (table s') c = Some n \<and>
     fat_map (table s') ! unat n = FAT_CLUSTER_FREE"
proof -
  let ?m = "bpc (table s)" and ?p = "cluster_pos (table s) c"
  have wf: "table_wf (table s)" using assms(1) by (simp add: volume_wf_def)
  define s1 where "s1 = s\<lparr>content := write_at ?p (load_at buf pos ?m) (content s)\<rparr>"
  have wr: "full_pwrite (move_buf buf pos) ?m (int ?p) s = (?m, s1)"
    using full_pwrite_ok [OF assms(2), of "int ?p" ?m "move_buf buf pos"] assms(12) bpc_pos [of "table s"]
    by (simp add: load_move s1_def del: bpc_pos)
  have fr: "disk_frame {c} s s1"
    by (rule disk_frame_write_cluster [OF assms(1,4), of 0 "load_at buf pos ?m"]) (simp_all add: s1_def)
  have vol1: "volume_wf s1" by (rule disk_frame_volume [OF fr assms(1)])
  have c1: "cluster_bytes s1 c = load_at buf pos ?m"
    using cluster_bytes_write [OF assms(1,4), of 0 "load_at buf pos ?m" c] assms(1,4)
    by (simp add: s1_def write_at_def)
  have t1: "table s1 = table s" "faults s1 = []" "errno s1 = 0" using assms(2,3) by (simp_all add: s1_def)
  obtain s2 where s2: "fat_table_set_next_cluster c n s1 = Some s2" "disk_frame {} s1 s2"
    "table s2 = set_fat c n (table s1)" "s2 = s1\<lparr>content := content s2, table := table s2\<rparr>"
    using set_next_frame [OF vol1 _ t1(2), of c n] assms(4) t1(1) by metis
  have e2: "faults s2 = []" "errno s2 = 0" using t1 by (subst s2(4), simp)+
  have vol2: "volume_wf s2" by (rule disk_frame_volume [OF s2(2) vol1])
  have g2: "cluster_pos (table s2) = cluster_pos (table s)" "bpc (table s2) = ?m"
    "valid_cluster (table s2) = valid_cluster (table s)"
    using geometry_cong [of "table s2" "table s"] s2(3) t1(1) by simp_all
  define s3 where "s3 = s2\<lparr>content := write_at ?p (load_at buf (pos + int ?m) k) (content s2)\<rparr>"
  have wr2: "full_pwrite (move_buf buf (pos + int ?m)) k (int ?p) s2 = (k, s3)"
    using full_pwrite_ok [OF e2(1), of "int ?p" k "move_buf buf (pos + int ?m)"] assms(10-12)
    by (simp add: load_move s3_def)
  have c2: "cluster_bytes s2 c = load_at buf pos ?m"
    using disk_frame_cluster_bytes [OF s2(2), of c] assms(4) t1(1) c1 by simp
  have "cluster_bytes s3 c = write_at 0 (load_at buf (pos + int ?m) k) (load_at buf pos ?m)"
    using cluster_bytes_write [OF vol2, of c 0 "load_at buf (pos + int ?m) k" c] assms(4,11) g2 c2
    by (simp add: s3_def)
  then have c3: "cluster_bytes s3 c =
      load_at buf (pos + int ?m) k @ drop k (load_at buf pos ?m)" by (simp add: write_at_def)
  have step2: "pwrite_loop buf (pos + int ?m) (int k) (int (off + ?m)) c s2 =
      Some (0, int (off + ?m + k), s3)"
    using wr2 assms(9-12) g2 cluster_offset_eq [of "table s2" c] vol2 assms(4)
    by (subst pwrite_loop.simps)
       (simp add: remaining_bytes_eq mask_offset_eq volume_wf_def ssize_of_def Let_def flip: of_nat_add)
  have "pwrite_loop buf pos (int (?m + k)) (int off) c s =
      pwrite_loop buf (pos + int ?m) (int k) (int (off + ?m)) c s2"
    using wr assms(4-12) t1 s2(1) e2 cluster_offset_eq [OF wf assms(4)]
    by (subst pwrite_loop.simps)
       (simp add: remaining_bytes_eq mask_offset_eq ssize_of_def Let_def nat_add_distrib)
  moreover have "unat n \<noteq> unat c" using assms(8) by (simp add: word_unat_eq_iff)
  ultimately show ?thesis
    using step2 c3 next_free_valid [OF wf assms(6,7)] assms(7)
      get_next_set_fat [OF valid_cluster_in_map [OF wf assms(4)], of n c]
    by (simp add: s3_def s2(3) t1(1))
qed

theorem pwrite_loop_second_extension_witness:
  "\<exists>s'. pwrite_loop (\<lambda>i. if i < 32 then 1 else 2) 0 40 32 4 small_fs = Some (0, 72, s') \<and>
     cluster_bytes s' 4 = replicate 8 2 @ replicate 24 1 \<and>
     fat_table_get_next_cluster (table s') 4 = Some 3 \<and> fat_map (table s') ! 3 = 0"
proof -
  let ?b = "\<lambda>i::int. if i < 32 then 1 else 2 :: u8"
  have ld: "load_at ?b 32 8 = replicate 8 2" "load_at ?b 0 32 = replicate 32 1"
    by (rule nth_equalityI; simp add: load_at_def)+
  have "fat_table_get_next_cluster small_table 4 = Some FAT_CLUSTER_END_OF_CHAIN"
    "valid_cluster small_table 4"
    by (simp_all add: small_table_def fat_table_get_next_cluster_def aget_def
        fat_table_is_valid_cluster_number_def fat_consts)
  with pwrite_loop_second_extension [OF small_fs_volume, of 4 3 32 8 ?b 0] small_fs_more ld
  show ?thesis by (simp add: small_table_bpc fat_consts)
qed

section \<open>Truncating\<close>

text \<open>Freeing a chain: every entry of it becomes free, and nothing else changes.\<close>

definition frees :: "u32 list \<Rightarrow> fat_table_s \<Rightarrow> fat_table_s \<Rightarrow> bool" where
  "frees cs t t' \<longleftrightarrow> geometry t' = geometry t \<and>
     (\<forall>c. unat c < length (fat_map t) \<longrightarrow>
        fat_map t' ! unat c = (if c \<in> set cs then FAT_CLUSTER_FREE else fat_map t ! unat c))"

lemma frees_trans: "frees xs t t' \<Longrightarrow> frees ys t' t'' \<Longrightarrow> frees (xs @ ys) t t''"
  by (auto simp: frees_def geometry_def)

lemma frees_set_fat:
  "unat c < length (fat_map t) \<Longrightarrow> frees [c] t (set_fat c FAT_CLUSTER_FREE t)"
  by (auto simp: frees_def nth_list_update word_unat_eq_iff)

lemma frees_Nil: "frees [] t t"
  by (simp add: frees_def)

lemma get_next_frees:
  assumes "frees cs t t'" "c \<notin> set cs" "unat c < length (fat_map t)"
  shows "fat_table_get_next_cluster t' c = fat_table_get_next_cluster t c"
  using assms geometry_cong(1) [of t' t]
  by (auto simp: frees_def fat_table_get_next_cluster_def aget_def geometry_def)

lemma chain_frees:
  assumes "table_wf t" "frees cs t t'"
  shows "set ds \<inter> set cs = {} \<Longrightarrow> chain t d ds \<Longrightarrow> chain t' d ds"
proof (induction ds arbitrary: d)
  case (Cons x xs)
  then have "unat d < length (fat_map t)" using valid_cluster_in_map [OF assms(1)] by simp
  then show ?case
    using Cons get_next_frees [OF assms(2), of d] geometry_cong(1) [of t' t] assms(2)
    by (auto simp: frees_def split: option.splits)
qed simp

lemma free_clusters_loop_ok:
  "\<lbrakk>volume_wf s; chain (table s) c cs; faults s = []\<rbrakk> \<Longrightarrow>
   \<exists>s'. free_clusters_loop c s = Some s' \<and> disk_frame {} s s' \<and> frees cs (table s) (table s') \<and>
     s' = s\<lparr>content := content s', table := table s'\<rparr>"
proof (induction cs arbitrary: c s)
  case Nil
  have "free_clusters_loop c s = Some s"
    using Nil by (subst free_clusters_loop.simps) simp
  then show ?case by (auto intro: disk_frame_refl simp: frees_Nil)
next
  case (Cons x xs)
  have wf: "table_wf (table s)" using Cons.prems(1) by (simp add: volume_wf_def)
  obtain n where n: "valid_cluster (table s) c" "fat_table_get_next_cluster (table s) c = Some n"
    "chain (table s) n xs" "x = c"
    using Cons.prems(2) by (auto split: option.splits)
  have "c \<notin> set xs" using chain_distinct [OF wf Cons.prems(2)] n(4) by simp
  obtain s1 where s1: "fat_table_set_next_cluster c FAT_CLUSTER_FREE s = Some s1" "disk_frame {} s s1"
    "table s1 = set_fat c FAT_CLUSTER_FREE (table s)" "s1 = s\<lparr>content := content s1, table := table s1\<rparr>"
    using set_next_frame [OF Cons.prems(1) n(1) Cons.prems(3)] by blast
  have in_map: "unat c < length (fat_map (table s))" by (rule valid_cluster_in_map [OF wf n(1)])
  have fr: "frees [c] (table s) (table s1)" unfolding s1(3) by (rule frees_set_fat [OF in_map])
  have "chain (table s1) n xs"
    by (rule chain_frees [OF wf fr _ n(3)]) (use \<open>c \<notin> set xs\<close> in simp)
  moreover have "faults s1 = []" using Cons.prems(3) by (subst s1(4)) simp
  ultimately obtain s' where s': "free_clusters_loop n s1 = Some s'" "disk_frame {} s1 s'"
    "frees xs (table s1) (table s')" "s' = s1\<lparr>content := content s', table := table s'\<rparr>"
    using Cons.IH [OF disk_frame_volume [OF s1(2) Cons.prems(1)]] by blast
  have "free_clusters_loop c s = Some s'"
    using valid_not_EOC [OF wf n(1)] n(2) s1(1) s'(1)
    by (subst free_clusters_loop.simps) simp
  moreover have "disk_frame {} s s'" by (rule disk_frame_trans [OF s1(2) s'(2)]) simp
  moreover have "frees (x # xs) (table s) (table s')" using frees_trans [OF fr s'(3)] n(4) by simp
  moreover have "s' = s\<lparr>content := content s', table := table s'\<rparr>"
    by (subst s'(4), subst s1(4)) simp
  ultimately show ?case by blast
qed

text \<open>Cutting a chain after position i and freeing the rest.\<close>

lemma cut_chain:
  assumes "volume_wf s" "chain (table s) c cs" "i < length cs" "faults s = []"
  obtains nx s1 s2 where "fat_table_get_next_cluster (table s) (cs ! i) = Some nx"
    "fat_table_set_next_cluster (cs ! i) FAT_CLUSTER_END_OF_CHAIN s = Some s1" "errno s1 = errno s"
    "free_clusters_loop nx s1 = Some s2" "disk_frame {} s s2"
    "chain (table s2) c (take (Suc i) cs)"
    "\<forall>d\<in>set (drop (Suc i) cs). fat_map (table s2) ! unat d = FAT_CLUSTER_FREE"
    "\<forall>d. unat d < length (fat_map (table s)) \<and> d \<notin> set (drop i cs) \<longrightarrow>
       fat_map (table s2) ! unat d = fat_map (table s) ! unat d"
    "s2 = s\<lparr>content := content s2, table := table s2\<rparr>"
proof -
  have wf: "table_wf (table s)" using assms(1) by (simp add: volume_wf_def)
  have split: "cs = take i cs @ cs ! i # drop (Suc i) cs" using assms(3) by (simp add: id_take_nth_drop)
  have ci: "valid_cluster (table s) (cs ! i)" using chain_valid [OF assms(2)] assms(3) by simp
  have dist: "distinct cs" by (rule chain_distinct [OF wf assms(2)])
  then have apart: "cs ! i \<notin> set (drop (Suc i) cs)" "set (take (Suc i) cs) \<inter> set (drop (Suc i) cs) = {}"
    using split by (metis distinct.simps(2) distinct_append, simp add: set_take_disj_set_drop_if_distinct)
  obtain s1 where s1: "fat_table_set_next_cluster (cs ! i) FAT_CLUSTER_END_OF_CHAIN s = Some s1"
    "disk_frame {} s s1" "table s1 = set_fat (cs ! i) FAT_CLUSTER_END_OF_CHAIN (table s)"
    "s1 = s\<lparr>content := content s1, table := table s1\<rparr>"
    using set_next_frame [OF assms(1) ci assms(4)] by blast
  have in_map: "unat (cs ! i) < length (fat_map (table s))" by (rule valid_cluster_in_map [OF wf ci])
  have front: "chain (table s1) c (take (Suc i) cs)"
    using chain_cut [OF wf, of c "take i cs" "cs ! i" "drop (Suc i) cs"] assms(2,3) split
    by (simp add: s1(3) take_Suc_conv_app_nth)
  let ?nx = "if Suc i < length cs then cs ! Suc i else FAT_CLUSTER_END_OF_CHAIN"
  have "chain (table s) ?nx (drop (Suc i) cs)"
    using chain_drop [OF assms(2)] by simp
  then have rest: "chain (table s1) ?nx (drop (Suc i) cs)"
    using apart(1) chain_set_fat_other [OF in_map] by (simp add: s1(3))
  have f1: "faults s1 = []" "errno s1 = errno s" using assms(4) by (subst s1(4), simp)+
  obtain s2 where s2: "free_clusters_loop ?nx s1 = Some s2" "disk_frame {} s1 s2"
    "frees (drop (Suc i) cs) (table s1) (table s2)" "s2 = s1\<lparr>content := content s2, table := table s2\<rparr>"
    using free_clusters_loop_ok [OF disk_frame_volume [OF s1(2) assms(1)] rest f1(1)] by blast
  show thesis
  proof (rule that [OF _ s1(1) f1(2) s2(1)])
    show "fat_table_get_next_cluster (table s) (cs ! i) = Some ?nx"
      by (rule chain_nth_next [OF assms(2,3)])
    show "disk_frame {} s s2" by (rule disk_frame_trans [OF s1(2) s2(2)]) simp
    show "chain (table s2) c (take (Suc i) cs)"
      by (rule chain_frees [OF _ s2(3) apart(2) front]) (simp add: s1(3) wf)
    show "\<forall>d\<in>set (drop (Suc i) cs). fat_map (table s2) ! unat d = FAT_CLUSTER_FREE"
    proof
      fix d assume d: "d \<in> set (drop (Suc i) cs)"
      then have "unat d < length (fat_map (table s))"
        using chain_valid [OF assms(2)] valid_cluster_in_map [OF wf] by (meson in_set_dropD)
      with d s2(3) show "fat_map (table s2) ! unat d = FAT_CLUSTER_FREE"
        by (simp add: frees_def s1(3))
    qed
    show "\<forall>d. unat d < length (fat_map (table s)) \<and> d \<notin> set (drop i cs) \<longrightarrow>
        fat_map (table s2) ! unat d = fat_map (table s) ! unat d"
    proof (intro allI impI)
      fix d assume d: "unat d < length (fat_map (table s)) \<and> d \<notin> set (drop i cs)"
      have "set (drop i cs) = insert (cs ! i) (set (drop (Suc i) cs))"
        using assms(3) by (metis Cons_nth_drop_Suc list.simps(15))
      with d have "d \<noteq> cs ! i" "d \<notin> set (drop (Suc i) cs)" by auto
      with d s2(3) show "fat_map (table s2) ! unat d = fat_map (table s) ! unat d"
        by (auto simp: frees_def s1(3) word_unat_eq_iff)
    qed
    show "s2 = s\<lparr>content := content s2, table := table s2\<rparr>"
      by (subst s2(4), subst s1(4)) simp
  qed
qed

lemma resize_entry_phase:
  assumes "volume_wf s" "faults s = []" "files s r = Some f" "dentry f = Some d" "dentry_wf d"
    "dir_ok s parent dc" "m < 2 ^ 32"
  obtains s' d' where "do {
      s \<leftarrow> upd_dentry (Some r) (\<lambda>d. d\<lparr>file_size := word_of_int (int m)\<rparr>) s;
      touch_dentry True (Some r) parent s } = Some s'"
    "files s' r = Some (f\<lparr>dentry := Some d'\<rparr>)" "unat (file_size d') = m"
    "disk_frame {dc} s s'" "table s' = table s"
proof -
  define d2 where "d2 = d\<lparr>file_size := word_of_int (int m)\<rparr>"
  define f2 where "f2 = f\<lparr>dentry := Some d2\<rparr>"
  define s2 where "s2 = s\<lparr>files := (files s)(r \<mapsto> f2)\<rparr>"
  have size_step: "upd_dentry (Some r) (\<lambda>d. d\<lparr>file_size := word_of_int (int m)\<rparr>) s = Some s2"
    by (simp add: upd_dentry_eq [OF assms(3,4)] s2_def f2_def d2_def)
  have vol: "volume_wf s2" "faults s2 = []" "files s2 r = Some f2" "dentry f2 = Some d2" "table s2 = table s"
    using assms(1,2) by (simp_all add: s2_def volume_wf_def f2_def)
  have dwf: "dentry_wf d2" using assms(5) by (simp add: d2_def dentry_wf_def)
  have dir: "dir_ok s2 parent dc"
    by (rule dir_ok_mono [OF assms(6)]) (use assms(3) in \<open>auto simp: s2_def f2_def\<close>)
  obtain s4 where s4: "touch_dentry True (Some r) parent s2 = Some s4" "disk_frame {dc} s2 s4"
    "table s4 = table s2" "files s4 = (files s2)(r \<mapsto>
       f2\<lparr>dentry := Some (snd (fill_dentry_time_now (clk s2) False True d2))\<rparr>)"
    using touch_dentry_frame [OF vol(1) dir vol(2-4) dwf] by metis
  let ?d4 = "snd (fill_dentry_time_now (clk s2) False True d2)"
  have "unat (word_of_int (int m) :: u32) = m" using assms(7) by (simp add: unat_of_nat)
  then have fs: "unat (file_size ?d4) = m" by (simp add: d2_def)
  have fr: "disk_frame {dc} s s4"
    by (rule disk_frame_trans [where C = "{}", OF disk_frame_refl s4(2)]) (simp_all add: s2_def)
  show thesis
    by (rule that [of s4 ?d4, OF _ _ fs fr]) (use size_step s4 vol(5) in \<open>simp_all add: f2_def\<close>)
qed

definition clusters_for :: "nat \<Rightarrow> nat \<Rightarrow> nat" where
  "clusters_for m n = max 1 ((n + (m - 1)) div m)"

lemma clusters_for_word:
  assumes "n < 2 ^ 32"
  shows "unat (max 1 (fat_table_get_clusters_for_size t n)) = clusters_for (bpc t) n"
  using clusters_for_size_eq [OF assms, of t]
  by (simp add: clusters_for_def max_def word_le_nat_alt)

lemma cut_index:
  assumes "0 < m" "clusters_for m off < clusters_for m fs" "fs \<le> k * m"
  shows "off div m < k" "off \<le> (off div m + 1) * m"
proof -
  have "1 < (fs + (m - 1)) div m" "(off + (m - 1)) div m < (fs + (m - 1)) div m"
    using assms(2) by (auto simp: clusters_for_def max_def split: if_splits)
  moreover have "(fs + (m - 1)) div m \<le> (k * m + (m - 1)) div m"
    using assms(3) by (intro div_le_mono) simp
  moreover have "(k * m + (m - 1)) div m = k"
    using assms(1) div_mult_self3 [of m k "m - 1"] by simp
  moreover have "off div m \<le> (off + (m - 1)) div m" by (intro div_le_mono) simp
  ultimately show "off div m < k" by linarith
  have "off mod m \<le> m" using assms(1) by simp
  moreover have "off = off div m * m + off mod m" by simp
  ultimately show "off \<le> (off div m + 1) * m" unfolding add_mult_distrib by linarith
qed

text \<open>
  C21. Truncating to fewer clusters: the file keeps exactly its first \<open>offset\<close> bytes and the
  clusters up to the one the offset lies in; all later clusters of its chain become free, no other
  entry of the allocation table and no cluster but the directory's changes.
\<close>

theorem fat_file_truncate_correct:
  assumes "file_ok s r f d cs" and "faults s = []" and "errno s = 0" and "dentry_wf d"
    and "dir_ok s parent dc" and "dc \<notin> set cs" and "off \<le> unat (file_size d)"
    and "clusters_for (bpc (table s)) off < clusters_for (bpc (table s)) (unat (file_size d))"
    and "i = off div bpc (table s)"
  shows "\<exists>s' f' d'. fat_file_truncate (Some r) (int off) parent s = Some s' \<and>
     file_ok s' r f' d' (take (Suc i) cs) \<and> unat (file_size d') = off \<and>
     file_data s' d' (take (Suc i) cs) = take off (file_data s d cs) \<and>
     (\<forall>c\<in>set (drop (Suc i) cs). fat_map (table s') ! unat c = FAT_CLUSTER_FREE) \<and>
     (\<forall>c. unat c < length (fat_map (table s)) \<and> c \<notin> set (drop i cs) \<longrightarrow>
        fat_map (table s') ! unat c = fat_map (table s) ! unat c) \<and>
     disk_frame {dc} s s'"
proof -
  note ok = assms(1) [unfolded file_ok_def]
  let ?m = "bpc (table s)" and ?fs = "unat (file_size d)"
  have vol: "volume_wf s" and wf: "table_wf (table s)" using ok by (simp_all add: volume_wf_def)
  have ch: "chain (table s) (start_cluster f) cs" using ok by simp
  have fs32: "?fs < 2 ^ 32" using unsigned_less [of "file_size d"] by simp
  then have off32: "off < 2 ^ 32" using assms(7) by simp
  have i: "i < length cs" "off \<le> Suc i * ?m"
    using cut_index [OF bpc_pos assms(8), of "length cs"] ok by (simp_all add: assms(9))
  have seek: "fat_table_seek_cluster (start_cluster f) (int off) s = Some (cs ! i, s)"
    using i(1) unfolding assms(9) by (intro seek_in_chain(1) [OF wf ch off32])
  have fewer: "\<not> max 1 (fat_table_get_clusters_for_size (table s) ?fs) \<le>
      max 1 (fat_table_get_clusters_for_size (table s) off)"
    unfolding word_le_nat_alt clusters_for_word [OF fs32] clusters_for_word [OF off32] not_le
    by (rule assms(8))
  have not_over: "\<not> uint (file_size d) < int off" using assms(7) by (metis linorder_not_less of_nat_less_iff uint_nat)
  obtain nx s1 s2 where c: "fat_table_get_next_cluster (table s) (cs ! i) = Some nx"
    "fat_table_set_next_cluster (cs ! i) FAT_CLUSTER_END_OF_CHAIN s = Some s1" "errno s1 = errno s"
    "free_clusters_loop nx s1 = Some s2" "disk_frame {} s s2"
    "chain (table s2) (start_cluster f) (take (Suc i) cs)"
    "\<forall>d\<in>set (drop (Suc i) cs). fat_map (table s2) ! unat d = FAT_CLUSTER_FREE"
    "\<forall>d. unat d < length (fat_map (table s)) \<and> d \<notin> set (drop i cs) \<longrightarrow>
       fat_map (table s2) ! unat d = fat_map (table s) ! unat d"
    "s2 = s\<lparr>content := content s2, table := table s2\<rparr>"
    by (rule cut_chain [OF vol ch i(1) assms(2)])
  have s2: "faults s2 = []" "files s2 = files s" using assms(2) by (subst c(9), simp)+
  have vol2: "volume_wf s2" by (rule disk_frame_volume [OF c(5) vol])
  have geo: "geometry (table s2) = geometry (table s)" using c(5) by (simp add: disk_frame_def)
  have dir2: "dir_ok s2 parent dc" by (rule dir_ok_mono [OF assms(5) geo]) (simp add: s2)
  have fd: "files s2 r = Some f" "dentry f = Some d" using ok s2 by simp_all
  obtain s4 d4 where t: "do {
      s \<leftarrow> upd_dentry (Some r) (\<lambda>d. d\<lparr>file_size := word_of_int (int off)\<rparr>) s2;
      touch_dentry True (Some r) parent s } = Some s4"
    "files s4 r = Some (f\<lparr>dentry := Some d4\<rparr>)" "unat (file_size d4) = off"
    "disk_frame {dc} s2 s4" "table s4 = table s2"
    by (rule resize_entry_phase [OF vol2 s2(1) fd assms(4) dir2 off32])
  have run: "fat_file_truncate (Some r) (int off) parent s = Some s4"
    using file_ok_get [OF assms(1)] seek fewer not_over assms(3) c(1-4) t(1) off32
    by (simp add: fat_file_truncate_def Let_def nat_mod_as_int del: max.bounded_iff)
  have valid: "\<forall>c\<in>set (take (Suc i) cs). valid_cluster (table s2) c" using chain_valid [OF c(6)] by blast
  have "dc \<notin> set (take (Suc i) cs)" using assms(6) by (meson in_set_takeD)
  then have "chain_bytes s4 (take (Suc i) cs) = chain_bytes s2 (take (Suc i) cs)"
    using valid by (intro chain_bytes_frame [OF t(4)]) simp_all
  also have "\<dots> = chain_bytes s (take (Suc i) cs)"
    using valid geometry_cong(1) [OF geo] by (intro chain_bytes_frame [OF c(5)]) simp_all
  finally have cb: "chain_bytes s4 (take (Suc i) cs) = chain_bytes s (take (Suc i) cs)" .
  have len: "length (chain_bytes s (take (Suc i) cs)) = Suc i * ?m"
    using chain_bytes_length [OF vol] valid geometry_cong(1) [OF geo] i(1) by simp
  have "chain_bytes s cs = chain_bytes s (take (Suc i) cs) @ chain_bytes s (drop (Suc i) cs)"
    by (metis append_take_drop_id chain_bytes_def concat_append map_append)
  then have "file_data s4 d4 (take (Suc i) cs) = take off (file_data s d cs)"
    using i(2) len assms(7) by (simp add: file_data_def t(3) cb min_def)
  moreover have "file_ok s4 r (f\<lparr>dentry := Some d4\<rparr>) d4 (take (Suc i) cs)"
    using disk_frame_volume [OF t(4) vol2] t(2,3,5) c(6) i geometry_cong(2) [OF geo]
    by (simp add: file_ok_def)
  moreover have "disk_frame {dc} s s4" by (rule disk_frame_trans [OF c(5) t(4)]) simp
  ultimately show ?thesis using run t(3,5) c(7,8) by metis
qed

theorem fat_file_truncate_correct_witness:
  "\<exists>s' f' d'. fat_file_truncate (Some 1) 10 (Some 0) small_fs = Some s' \<and>
     file_ok s' 1 f' d' [2] \<and> file_data s' d' [2] = take 10 (file_data small_fs small_entry [2, 4]) \<and>
     fat_map (table s') ! 4 = 0"
  using fat_file_truncate_correct [OF small_fs_file_ok, of "Some 0" 5 10 0] small_fs_more
  by (simp add: small_table_bpc clusters_for_def fat_consts) blast

text \<open>
  A file that occupies at most one cluster cannot be truncated: whatever the new size, also
  for size 0, the function returns without any change.
\<close>

theorem fat_file_truncate_small_noop:
  assumes "get_dentry s (Some r) = Some d" and "unat (file_size d) \<le> bpc (table s)"
  shows "fat_file_truncate (Some r) off parent s = Some s"
proof -
  have "unat (file_size d) < 2 ^ 32" using unsigned_less [of "file_size d"] by simp
  moreover have "clusters_for (bpc (table s)) (unat (file_size d)) = 1"
  proof -
    have "unat (file_size d) + (bpc (table s) - 1) < 2 * bpc (table s)"
      using assms(2) bpc_pos [of "table s"] by linarith
    then have "(unat (file_size d) + (bpc (table s) - 1)) div bpc (table s) < 2"
      by (simp add: div_less_iff_less_mult mult.commute)
    then show ?thesis by (simp add: clusters_for_def max_def)
  qed
  ultimately have "unat (max 1 (fat_table_get_clusters_for_size (table s) (unat (file_size d)))) = 1"
    by (simp add: clusters_for_word)
  then have one: "max 1 (fat_table_get_clusters_for_size (table s) (unat (file_size d))) = 1"
    by (simp add: word_unat_eq_iff)
  have "fat_file_truncate (Some r) off parent s =
     (let current_num_clusters = max 1 (fat_table_get_clusters_for_size (table s) (unat (file_size d)));
          new_num_clusters = max 1 (fat_table_get_clusters_for_size (table s) (nat (off mod 2 ^ 64)))
      in if off > uint (file_size d) \<or> new_num_clusters \<ge> current_num_clusters then Some s
         else fat_file_truncate (Some r) off parent s)"
    using assms(1) by (auto simp: fat_file_truncate_def get_dentry_def bind_eq_Some_conv Let_def)
  then show ?thesis unfolding one by (simp add: Let_def)
qed

theorem fat_file_truncate_small_noop_witness:
  "fat_file_truncate (Some 1) 0 (Some 0)
     (small_fs\<lparr>files := (\<lambda>r. Some (small_file\<lparr>dentry := Some (small_entry\<lparr>file_size := 20\<rparr>)\<rparr>))\<rparr>) =
   Some (small_fs\<lparr>files := (\<lambda>r. Some (small_file\<lparr>dentry := Some (small_entry\<lparr>file_size := 20\<rparr>)\<rparr>))\<rparr>)"
  by (rule fat_file_truncate_small_noop [of _ _ "small_entry\<lparr>file_size := 20\<rparr>"])
     (simp_all add: get_dentry_def get_file_def small_table_bpc)

section \<open>Creating a file\<close>

text \<open>
  Of the bytes that splitting the name leaves in a fresh entry only the eleven of the two name
  fields matter: all that a long extension puts behind them is overwritten.
\<close>

lemma fat_file_init_direntry_eq:
  assumes "alloc_faults s = []"
    "filename_from_path (basename path @ [0] @ heap_pad s) (replicate 32 0) 0 8 = Some mem"
  obtains d where "fat_file_init_direntry is_dir path c s = Some (Some d, s)"
    "base_name d = take 8 mem" "extension d = take 3 (drop 8 mem)" "file_size d = 0"
    "file_start_cluster d = c"
    "attribs d = (if is_dir then FILE_ATTRIBUTE_DIRECTORY else FILE_ATTRIBUTE_ARCHIVE)"
proof -
  let ?d0 = "(entry_of_bytes mem)\<lparr>attribs := (if is_dir then FILE_ATTRIBUTE_DIRECTORY
      else FILE_ATTRIBUTE_ARCHIVE), reserved := 0, create_time_fine_res := 0\<rparr>"
  let ?d1 = "snd (fill_dentry_time_now (clk s) True True ?d0)"
  let ?d = "(set_first_cluster c ?d1)\<lparr>file_size := 0\<rparr>"
  have "file_start_cluster ?d = file_start_cluster (set_first_cluster c ?d1)"
    by (simp add: file_start_cluster_def)
  also have "\<dots> = c" by (rule start_cluster_of_set)
  finally have sc: "file_start_cluster ?d = c" .
  have run: "fat_file_init_direntry is_dir path c s = Some (Some ?d, s)"
    using assms by (simp add: fat_file_init_direntry_def calloc_def Let_def split_beta)
  show thesis
    by (rule that [OF run _ _ _ sc])
       (simp_all add: fill_dentry_time_now_def Let_def split_beta set_first_cluster_def entry_of_bytes_def)
qed

lemma file_init_run:
  assumes "volume_wf s" and "faults s = []" and "errno s = 0" and "alloc_faults s = []"
    and "fat_table_get_next_free_cluster (table s) = Some n" and "valid_cluster (table s) n"
    and "filename_from_path (basename path @ [0] @ heap_pad s) (replicate 32 0) 0 8 = Some mem"
    and "build_filename (take 8 mem) (take 3 (drop 8 mem)) = Some name"
  shows "\<exists>s' f d. fat_file_init is_dir path s = Some (Some (next_ref s), s') \<and>
     file_ok s' (next_ref s) f d [n] \<and> file_size d = 0 \<and> filepath f = path \<and> fname f = cstr name \<and>
     fat_file_is_directory f = is_dir \<and> table s' = set_fat n FAT_CLUSTER_END_OF_CHAIN (table s) \<and>
     disk_frame {} s s' \<and> dentry_wf d \<and>
     s' = s\<lparr>content := content s', table := table s', files := (files s)(next_ref s \<mapsto> f),
       next_ref := next_ref s + 1\<rparr>"
proof -
  have wf: "table_wf (table s)" using assms(1) by (simp add: volume_wf_def)
  let ?r = "next_ref s"
  define f0 where "f0 = \<lparr>dentry = None, fname = [], filepath = path, start_cluster = 0,
     nentries = 0, pos_in_parent = 0, num_times_opened = 0, children_read = False\<rparr>"
  define s1 where "s1 = s\<lparr>files := (files s)(?r := Some f0), next_ref := ?r + 1\<rparr>"
  have "alloc_faults s1 = []" "heap_pad s1 = heap_pad s" using assms(4) by (simp_all add: s1_def)
  then obtain d where d: "fat_file_init_direntry is_dir path n s1 = Some (Some d, s1)"
    "base_name d = take 8 mem" "extension d = take 3 (drop 8 mem)" "file_size d = 0"
    "file_start_cluster d = n"
    "attribs d = (if is_dir then FILE_ATTRIBUTE_DIRECTORY else FILE_ATTRIBUTE_ARCHIVE)"
    using fat_file_init_direntry_eq [of s1 path mem is_dir n] assms(7) by metis
  define f1 where "f1 = f0\<lparr>dentry := Some d, fname := cstr name, start_cluster := n\<rparr>"
  define s2 where "s2 = s1\<lparr>files := (files s1)(?r := Some f1)\<rparr>"
  have vol2: "volume_wf s2" "faults s2 = []" "valid_cluster (table s2) n"
    using assms(1,2,6) by (simp_all add: s2_def s1_def volume_wf_def)
  obtain s3 where s3: "fat_table_set_next_cluster n FAT_CLUSTER_END_OF_CHAIN s2 = Some s3"
    "disk_frame {} s2 s3" "table s3 = set_fat n FAT_CLUSTER_END_OF_CHAIN (table s2)"
    "s3 = s2\<lparr>content := content s3, table := table s3\<rparr>"
    using set_next_frame [OF vol2(1,3,2)] by blast
  have e3: "errno s3 = 0" "files s3 = (files s)(?r := Some f1)"
    using assms(3) by (subst s3(4), simp add: s2_def s1_def)+
  have used: "fat_table_is_cluster_used (table s) n = Some False"
    using next_free_valid [OF wf assms(5,6)] valid_cluster_in_map [OF wf assms(6)]
    by (simp add: fat_table_is_cluster_used_def aget_in fat_consts)
  have "fat_file_init_empty is_dir path s = (Some ?r, s1)"
    using assms(4) by (simp add: fat_file_init_empty_def calloc_def new_file_at_def s1_def f0_def)
  moreover have "get_file s1 (Some ?r) = Some f0" by (simp add: get_file_def s1_def)
  moreover have "upd_file (Some ?r) (\<lambda>f. f\<lparr>dentry := Some d, fname := cstr name,
      start_cluster := file_start_cluster d\<rparr>) s1 = Some s2"
    by (simp add: upd_file_def s1_def s2_def f1_def d(5))
  ultimately have run: "fat_file_init is_dir path s = Some (Some ?r, s3)"
    using assms(3,5,8) used d(1-3) s3(1) e3(1)
    by (simp add: fat_file_init_def) (simp add: s1_def)
  have t3: "table s3 = set_fat n FAT_CLUSTER_END_OF_CHAIN (table s)" by (simp add: s3(3) s2_def s1_def)
  have "chain (table s3) n [n]"
    using get_next_set_fat [OF valid_cluster_in_map [OF wf assms(6)], of FAT_CLUSTER_END_OF_CHAIN n]
      EOC_not_valid [OF wf] assms(6) by (simp add: t3)
  then have "file_ok s3 ?r f1 d [n]"
    using disk_frame_volume [OF s3(2) vol2(1)] d(4) by (simp add: file_ok_def e3(2) f1_def)
  moreover have "disk_frame {} s s3"
    by (rule disk_frame_trans [where C = "{}", OF disk_frame_refl s3(2)]) (simp_all add: s2_def s1_def)
  moreover have "fat_file_is_directory f1 = is_dir"
    by (simp add: fat_file_is_directory_def f1_def d(6) attribute_defs)
  moreover have "filepath f1 = path" "fname f1 = cstr name" by (simp_all add: f1_def f0_def)
  moreover have "dentry_wf d"
    using filename_from_path_length [OF assms(7)] by (simp add: dentry_wf_def d(2,3))
  moreover have "s3 = s\<lparr>content := content s3, table := table s3, files := (files s)(?r \<mapsto> f1), next_ref := ?r + 1\<rparr>"
    by (subst s3(4)) (simp add: s2_def s1_def)
  ultimately show ?thesis using run d(4) t3 by blast
qed

text \<open>
  Creating a file when a cluster is free: the new object gets the lowest free cluster,
  which becomes a chain of its own, the file is empty, and no cluster's bytes change.
\<close>

theorem fat_file_init_correct:
  assumes "volume_wf s" and "faults s = []" and "errno s = 0" and "alloc_faults s = []"
    and "fat_table_get_next_free_cluster (table s) = Some n" and "valid_cluster (table s) n"
    and "filename_from_path (basename path @ [0] @ heap_pad s) (replicate 32 0) 0 8 = Some mem"
    and "build_filename (take 8 mem) (take 3 (drop 8 mem)) = Some name"
  shows "\<exists>s' f d. fat_file_init is_dir path s = Some (Some (next_ref s), s') \<and>
     file_ok s' (next_ref s) f d [n] \<and> file_size d = 0 \<and> filepath f = path \<and> fname f = cstr name \<and>
     fat_file_is_directory f = is_dir \<and> table s' = set_fat n FAT_CLUSTER_END_OF_CHAIN (table s) \<and>
     disk_frame {} s s'"
  using file_init_run [OF assms] by blast

theorem fat_file_init_correct_witness:
  "\<exists>s' f d. fat_file_init False [0x2F, 0x62, 0x2E, 0x63] small_fs = Some (Some 2, s') \<and>
     file_ok s' 2 f d [3] \<and> fname f = [0x62, 0x2E, 0x63]"
proof -
  have "plain_part [0x62]" "plain_part [0x63]" by (simp_all add: plain_part_def)
  from filename_from_path_run [OF this, of "replicate 8 0"]
  have split: "filename_from_path (basename [0x2F, 0x62, 0x2E, 0x63] @ [0] @ heap_pad small_fs)
      (replicate 32 0) 0 8 = Some ([0x62] @ replicate 7 0 @ [0x63] @ replicate 23 0)"
    by (simp add: basename_def small_fs_def)
  have "filename_len ([0x62] @ replicate (8 - length [0x62 :: u8]) 0 @ []) 8 = Some (length [0x62 :: u8])"
    "filename_len ([0x63] @ replicate (3 - length [0x63 :: u8]) 0 @ []) 3 = Some (length [0x63 :: u8])"
    by (rule filename_len_padded; simp)+
  then have build: "build_filename (take 8 ([0x62] @ replicate 7 0 @ [0x63] @ replicate 23 0))
      (take 3 (drop 8 ([0x62] @ replicate 7 0 @ [0x63] @ replicate 23 0))) = Some [0x62, 0x2E, 0x63, 0]"
    by (simp add: build_filename_def)
  have "alloc_faults small_fs = []" "next_ref small_fs = 2" by (simp_all add: small_fs_def)
  with fat_file_init_correct [OF small_fs_volume _ _ _ _ _ split build, of 3 False] small_fs_more
  show ?thesis by (simp add: cstr_def) blast
qed

text \<open>
  On a full volume creating a file does not fail with \<open>ENOSPC\<close> as documented: when no data
  cluster is free the driver reads the allocation table outside its bounds.
\<close>

theorem fat_file_init_full_volume:
  assumes "table_wf (table s)" and "0 \<le> errno s"
    and "\<forall>c. valid_cluster (table s) c \<longrightarrow> fat_map (table s) ! unat c \<noteq> FAT_CLUSTER_FREE"
  shows "fat_file_init is_dir path s = None"
proof -
  obtain p s1 where p: "fat_file_init_empty is_dir path s = (p, s1)" by fastforce
  have s1: "table s1 = table s" "\<not> errno s1 < 0"
    using p assms(2) by (auto simp: fat_file_init_empty_def calloc_def new_file_at_def ENOSPC_def
        split: list.splits if_splits)
  have used: "fat_table_is_cluster_used (table s) n = None"
    if "fat_table_get_next_free_cluster (table s) = Some n" for n
  proof -
    have "\<not> valid_cluster (table s) n" using next_free_valid [OF assms(1) that] assms(3) by blast
    then have "n = FAT_CLUSTER_END_OF_CHAIN"
      using that unfolding fat_table_get_next_free_cluster_def
      by (cases "next_free_loop (drop 2 (fat_map (table s))) 2") (auto split: if_splits)
    then show ?thesis
      using assms(1) by (simp add: fat_table_is_cluster_used_def unat_EOC aget_def table_wf_def)
  qed
  show ?thesis
    using p s1 used
    by (cases "get_file s1 p"; cases "fat_table_get_next_free_cluster (table s)")
       (simp_all add: fat_file_init_def)
qed

theorem fat_file_init_full_volume_witness:
  "fat_file_init False [0x2F, 0x62] (small_fs\<lparr>table := small_table\<lparr>fat_map := replicate 6 0x0FFFFFF8\<rparr>\<rparr>) = None"
proof -
  let ?t = "small_table\<lparr>fat_map := replicate 6 (0x0FFFFFF8 :: u32)\<rparr>"
  have wf: "table_wf ?t" by (simp add: table_wf_def small_table_def)
  have "\<forall>c. valid_cluster ?t c \<longrightarrow> fat_map ?t ! unat c \<noteq> FAT_CLUSTER_FREE"
    using valid_cluster_in_map [OF wf] by (simp add: fat_consts)
  with wf show ?thesis by (intro fat_file_init_full_volume) simp_all
qed

end
