(* ===== verification/H_Tree.thy ===== *)
theory H_Tree
  imports Fat_File "HOL-Library.Tree"
begin

text \<open>
  The tree of file objects, \<open>lab4/esqueleto/hierarchy_tree.c\<close>: a binary search tree whose
  nodes are also linked as a hierarchy (parent, first child, next sibling).

  Nodes live in a heap \<open>nodes\<close>; a node that was freed is not there any more, so that reading
  it is not a normal return. The data of a node is a pointer to a file object. The functions given
  as arguments in C (comparison, destruction, modification of the data) are arguments here. The
  recursive functions follow the pointers of the heap, which may form a cycle: they are partial.
\<close>

section \<open>The code\<close>

record h_node =
  h_data :: "nat option"
  h_right :: "nat option"
  h_left :: "nat option"
  h_parent :: "nat option"
  h_next_sibling :: "nat option"
  h_children :: "nat option"
  h_size :: int

record hstate = fstate +
  nodes :: "nat \<Rightarrow> h_node option"
  next_node :: nat

definition get_node :: "'a hstate_scheme \<Rightarrow> nat option \<Rightarrow> h_node option" where
  "get_node s p = (case p of None \<Rightarrow> None | Some r \<Rightarrow> nodes s r)"

definition upd_node ::
  "nat option \<Rightarrow> (h_node \<Rightarrow> h_node) \<Rightarrow> 'a hstate_scheme \<Rightarrow> 'a hstate_scheme option" where
  "upd_node p g s = (case p of None \<Rightarrow> None | Some r \<Rightarrow>
     do { n \<leftarrow> nodes s r; Some (s\<lparr>nodes := (nodes s)(r := Some (g n))\<rparr>) })"

definition free_node :: "nat option \<Rightarrow> 'a hstate_scheme \<Rightarrow> 'a hstate_scheme option" where
  "free_node p s = (case p of None \<Rightarrow> None | Some r \<Rightarrow>
     do { _ \<leftarrow> nodes s r; Some (s\<lparr>nodes := (nodes s)(r := None)\<rparr>) })"

definition h_node_init ::
  "nat option \<Rightarrow> nat option \<Rightarrow> 'a hstate_scheme \<Rightarrow> (nat option \<times> 'a hstate_scheme) option" where
  "h_node_init new_data hp s = do {
     let r = next_node s;
     first \<leftarrow> (if hp \<noteq> None then do { n \<leftarrow> get_node s hp; Some (h_children n) } else Some None);
     let s = s\<lparr>nodes := (nodes s)(r := Some \<lparr>h_data = new_data, h_right = None, h_left = None,
               h_parent = hp, h_next_sibling = first, h_children = None, h_size = 1\<rparr>),
             next_node := r + 1\<rparr>;
     s \<leftarrow> (if hp \<noteq> None then upd_node hp (\<lambda>n. n\<lparr>h_children := Some r\<rparr>) s else Some s);
     Some (Some r, s) }"

partial_function (option) h_tree_destroy ::
  "(nat option \<Rightarrow> 'a hstate_scheme \<Rightarrow> 'a hstate_scheme option) \<Rightarrow> nat option \<Rightarrow>
   'a hstate_scheme \<Rightarrow> 'a hstate_scheme option" where
  "h_tree_destroy data_destroy root s =
     (if root = None then Some s
      else do {
        n \<leftarrow> get_node s root;
        s \<leftarrow> data_destroy (h_data n) s;
        n \<leftarrow> get_node s root;
        s \<leftarrow> (if h_right n \<noteq> None then h_tree_destroy data_destroy (h_right n) s else Some s);
        n \<leftarrow> get_node s root;
        s \<leftarrow> (if h_left n \<noteq> None then h_tree_destroy data_destroy (h_left n) s else Some s);
        free_node root s })"

definition h_tree_size :: "nat option \<Rightarrow> 'a hstate_scheme \<Rightarrow> int option" where
  "h_tree_size root s = (if root = None then Some 0 else do { n \<leftarrow> get_node s root; Some (h_size n) })"

definition h_tree_get_data ::
  "nat option \<Rightarrow> 'a hstate_scheme \<Rightarrow> (nat option \<times> 'a hstate_scheme) option" where
  "h_tree_get_data root s =
     (if root = None then Some (None, s\<lparr>errno := EINVAL\<rparr>)
      else do { n \<leftarrow> get_node s root; Some (h_data n, s) })"

definition h_tree_get_h_parent :: "nat option \<Rightarrow> 'a hstate_scheme \<Rightarrow> nat option option" where
  "h_tree_get_h_parent root s =
     (if root = None then Some None else do { n \<leftarrow> get_node s root; Some (h_parent n) })"

text \<open>A comparison of the data of a node with a key, in a state; \<open>None\<close> as a key is the null pointer.\<close>

partial_function (option) h_tree_search ::
  "('a hstate_scheme \<Rightarrow> nat option \<Rightarrow> 'k \<Rightarrow> int option) \<Rightarrow> nat option \<Rightarrow> 'k option \<Rightarrow>
   'a hstate_scheme \<Rightarrow> (nat option \<times> 'a hstate_scheme) option" where
  "h_tree_search cmp root key s =
     (case key of None \<Rightarrow> Some (None, s\<lparr>errno := EINVAL\<rparr>)
      | Some k \<Rightarrow>
          if root = None then Some (None, s)
          else do {
            n \<leftarrow> get_node s root;
            smaller_data \<leftarrow> cmp s (h_data n) k;
            if smaller_data < 0 then h_tree_search cmp (h_right n) key s
            else if smaller_data > 0 then h_tree_search cmp (h_left n) key s
            else Some (root, s) })"

definition update_size :: "nat option \<Rightarrow> 'a hstate_scheme \<Rightarrow> 'a hstate_scheme option" where
  "update_size root s = do {
     n \<leftarrow> get_node s root;
     l \<leftarrow> h_tree_size (h_left n) s;
     r \<leftarrow> h_tree_size (h_right n) s;
     upd_node root (\<lambda>n. n\<lparr>h_size := 1 + l + r\<rparr>) s }"

partial_function (option) h_tree_insert ::
  "('a hstate_scheme \<Rightarrow> nat option \<Rightarrow> nat option \<Rightarrow> int option) \<Rightarrow> nat option \<Rightarrow> nat option \<Rightarrow>
   nat option \<Rightarrow> 'a hstate_scheme \<Rightarrow> (nat option \<times> 'a hstate_scheme) option" where
  "h_tree_insert cmp root new_data hp s =
     (if new_data = None then Some (root, s\<lparr>errno := EINVAL\<rparr>)
      else if root = None then h_node_init new_data hp s
      else do {
        n \<leftarrow> get_node s root;
        c \<leftarrow> cmp s new_data (h_data n);
        s \<leftarrow> (if c > 0 then do {
                 (right, s) \<leftarrow> h_tree_insert cmp (h_right n) new_data hp s;
                 upd_node root (\<lambda>n. n\<lparr>h_right := right\<rparr>) s }
              else if c < 0 then do {
                 (left, s) \<leftarrow> h_tree_insert cmp (h_left n) new_data hp s;
                 upd_node root (\<lambda>n. n\<lparr>h_left := left\<rparr>) s }
              else Some s);
        s \<leftarrow> update_size root s;
        Some (root, s) })"

definition is_minimum :: "nat option \<Rightarrow> 'a hstate_scheme \<Rightarrow> bool option" where
  "is_minimum root s = do { n \<leftarrow> get_node s root; Some (h_left n = None) }"

definition swap_nodes :: "nat option \<Rightarrow> nat option \<Rightarrow> 'a hstate_scheme \<Rightarrow> 'a hstate_scheme option" where
  "swap_nodes old_file new_file s = do {
     old \<leftarrow> get_node s old_file;
     let temp_old_l = h_left old;
     let temp_old_r = h_right old;
     new \<leftarrow> get_node s new_file;
     s \<leftarrow> upd_node old_file (\<lambda>n. n\<lparr>h_left := h_left new\<rparr>) s;
     new \<leftarrow> get_node s new_file;
     s \<leftarrow> upd_node old_file (\<lambda>n. n\<lparr>h_right := h_right new\<rparr>) s;
     s \<leftarrow> upd_node new_file (\<lambda>n. n\<lparr>h_left := temp_old_l\<rparr>) s;
     s \<leftarrow> upd_node new_file (\<lambda>n. n\<lparr>h_right := temp_old_r\<rparr>) s;
     s \<leftarrow> update_size new_file s;
     update_size old_file s }"

text \<open>The loop looks for the sibling before \<open>h_child\<close>; it returns where it stops.\<close>

partial_function (option) sibling_loop ::
  "nat option \<Rightarrow> nat option \<Rightarrow> 'a hstate_scheme \<Rightarrow> nat option option" where
  "sibling_loop child_iterator h_child s = do {
     n \<leftarrow> get_node s child_iterator;
     if h_next_sibling n \<noteq> h_child \<and> h_next_sibling n \<noteq> None
     then sibling_loop (h_next_sibling n) h_child s
     else Some child_iterator }"

definition remove_child_from_h :: "nat option \<Rightarrow> 'a hstate_scheme \<Rightarrow> 'a hstate_scheme option" where
  "remove_child_from_h h_child s =
     (if h_child = None then Some s
      else do {
        c \<leftarrow> get_node s h_child;
        if h_parent c = None then Some s
        else do {
          p \<leftarrow> get_node s (h_parent c);
          let child_iterator = h_children p;
          if child_iterator = None then Some (s\<lparr>errno := EINVAL\<rparr>)
          else if child_iterator = h_child
          then upd_node (h_parent c) (\<lambda>n. n\<lparr>h_children := h_next_sibling c\<rparr>) s
          else do {
            it \<leftarrow> sibling_loop child_iterator h_child s;
            upd_node it (\<lambda>n. n\<lparr>h_next_sibling := h_next_sibling c\<rparr>) s } } })"

text \<open>The descent to the minimum; note the order of the two assignments in its body.\<close>

partial_function (option) minimum_loop :: "nat option \<Rightarrow> nat option \<Rightarrow> 'a hstate_scheme \<Rightarrow>
    (nat option \<times> nat option \<times> 'a hstate_scheme) option" where
  "minimum_loop minimum minimum_parent s = do {
     m \<leftarrow> is_minimum minimum s;
     if \<not> m then do {
       n \<leftarrow> get_node s minimum;
       let minimum = h_left n;
       let minimum_parent = minimum;
       s \<leftarrow> upd_node minimum_parent (\<lambda>n. n\<lparr>h_size := h_size n - 1\<rparr>) s;
       minimum_loop minimum minimum_parent s }
     else Some (minimum, minimum_parent, s) }"

partial_function (option) delete_root ::
  "(nat option \<Rightarrow> 'a hstate_scheme \<Rightarrow> 'a hstate_scheme option) \<Rightarrow> nat option \<Rightarrow>
   'a hstate_scheme \<Rightarrow> (nat option \<times> 'a hstate_scheme) option" where
  "delete_root data_destroy root s = do {
     n \<leftarrow> get_node s root;
     s \<leftarrow> (if h_data n \<noteq> None then data_destroy (h_data n) s else Some s);
     n \<leftarrow> get_node s root;
     if h_left n = None \<or> h_right n = None then do {
       let minimum = (if h_left n = None then h_right n else h_left n);
       s \<leftarrow> free_node root s;
       Some (minimum, s) }
     else do {
       let minimum_parent = h_right n;
       m \<leftarrow> is_minimum minimum_parent s;
       if m then do {
         s \<leftarrow> upd_node minimum_parent (\<lambda>k. k\<lparr>h_left := h_left n\<rparr>) s;
         s \<leftarrow> update_size minimum_parent s;
         s \<leftarrow> free_node root s;
         Some (minimum_parent, s) }
       else do {
         p \<leftarrow> get_node s minimum_parent;
         s \<leftarrow> upd_node minimum_parent (\<lambda>k. k\<lparr>h_size := h_size k - 1\<rparr>) s;
         (minimum, minimum_parent, s) \<leftarrow> minimum_loop (h_left p) minimum_parent s;
         s \<leftarrow> swap_nodes root minimum s;
         (l, s) \<leftarrow> delete_root data_destroy root s;
         s \<leftarrow> upd_node minimum_parent (\<lambda>k. k\<lparr>h_left := l\<rparr>) s;
         Some (minimum, s) } } }"

partial_function (option) h_tree_delete ::
  "('a hstate_scheme \<Rightarrow> nat option \<Rightarrow> 'k \<Rightarrow> int option) \<Rightarrow>
   (nat option \<Rightarrow> 'a hstate_scheme \<Rightarrow> 'a hstate_scheme option) \<Rightarrow> nat option \<Rightarrow> 'k option \<Rightarrow>
   'a hstate_scheme \<Rightarrow> (nat option \<times> 'a hstate_scheme) option" where
  "h_tree_delete cmp data_destroy root key s =
     (case key of None \<Rightarrow> Some (root, s)
      | Some k \<Rightarrow>
          if root = None then Some (root, s)
          else do {
            n \<leftarrow> get_node s root;
            c \<leftarrow> cmp s (h_data n) k;
            if c = 0 then do {
              s \<leftarrow> remove_child_from_h root s;
              delete_root data_destroy root s }
            else do {
              s \<leftarrow> (if c < 0 then do {
                       (right, s) \<leftarrow> h_tree_delete cmp data_destroy (h_right n) key s;
                       upd_node root (\<lambda>n. n\<lparr>h_right := right\<rparr>) s }
                    else do {
                       (left, s) \<leftarrow> h_tree_delete cmp data_destroy (h_left n) key s;
                       upd_node root (\<lambda>n. n\<lparr>h_left := left\<rparr>) s });
              s \<leftarrow> update_size root s;
              Some (root, s) } })"

partial_function (option) h_tree_iterate_preorder ::
  "(nat option \<Rightarrow> 'a hstate_scheme \<Rightarrow> 'a hstate_scheme option) \<Rightarrow> nat option \<Rightarrow>
   'a hstate_scheme \<Rightarrow> 'a hstate_scheme option" where
  "h_tree_iterate_preorder mod_fn root s =
     (if root \<noteq> None then do {
        n \<leftarrow> get_node s root;
        s \<leftarrow> mod_fn (h_data n) s;
        n \<leftarrow> get_node s root;
        s \<leftarrow> h_tree_iterate_preorder mod_fn (h_left n) s;
        n \<leftarrow> get_node s root;
        h_tree_iterate_preorder mod_fn (h_right n) s }
      else Some s)"

partial_function (option) h_tree_iterate_h_ancestors ::
  "(nat option \<Rightarrow> 'a hstate_scheme \<Rightarrow> 'a hstate_scheme option) \<Rightarrow> nat option \<Rightarrow>
   'a hstate_scheme \<Rightarrow> 'a hstate_scheme option" where
  "h_tree_iterate_h_ancestors mod_fn node s =
     (if node \<noteq> None then do {
        n \<leftarrow> get_node s node;
        s \<leftarrow> mod_fn (h_data n) s;
        n \<leftarrow> get_node s node;
        h_tree_iterate_h_ancestors mod_fn (h_parent n) s }
      else Some s)"

text \<open>Arrays of data pointers: the array and the index that the pointer has reached.\<close>

partial_function (option) h_tree_flatten_preorder ::
  "'a hstate_scheme \<Rightarrow> nat option \<Rightarrow> nat option list \<Rightarrow> nat \<Rightarrow> nat option list option" where
  "h_tree_flatten_preorder s root elem_array i =
     (if root \<noteq> None then do {
        n \<leftarrow> get_node s root;
        a \<leftarrow> aset elem_array i (h_data n);
        a \<leftarrow> h_tree_flatten_preorder s (h_left n) a (i + 1);
        l \<leftarrow> h_tree_size (h_left n) s;
        h_tree_flatten_preorder s (h_right n) a (nat (int (i + 1) + l)) }
      else Some elem_array)"

partial_function (option) flatten_children_loop ::
  "'a hstate_scheme \<Rightarrow> nat option \<Rightarrow> nat option list \<Rightarrow> nat \<Rightarrow> nat option list option" where
  "flatten_children_loop s child_it elem_array i =
     (if child_it \<noteq> None then do {
        n \<leftarrow> get_node s child_it;
        a \<leftarrow> aset elem_array i (h_data n);
        flatten_children_loop s (h_next_sibling n) a (i + 1) }
      else aset elem_array i None)"

definition h_tree_flatten_h_children ::
  "'a hstate_scheme \<Rightarrow> nat option \<Rightarrow> nat option list \<Rightarrow> nat option list option" where
  "h_tree_flatten_h_children s root elem_array =
     (if root = None then Some elem_array
      else do { n \<leftarrow> get_node s root; flatten_children_loop s (h_children n) elem_array 0 })"

section \<open>The tree in the heap\<close>

text \<open>
  \<open>rep key s p t\<close>: the pointer \<open>p\<close> is the root of a tree in the heap whose nodes and keys are
  those of \<open>t\<close>, and every node stores the size of its subtree.
\<close>

fun rep :: "('a hstate_scheme \<Rightarrow> nat option \<Rightarrow> 'k option) \<Rightarrow> 'a hstate_scheme \<Rightarrow> nat option \<Rightarrow>
    (nat \<times> 'k) tree \<Rightarrow> bool" where
  "rep key s p \<langle>\<rangle> \<longleftrightarrow> p = None"
| "rep key s p \<langle>l, (r, k), t\<rangle> \<longleftrightarrow> p = Some r \<and>
     (case nodes s r of None \<Rightarrow> False
      | Some n \<Rightarrow> h_data n \<noteq> None \<and> key s (h_data n) = Some k \<and>
          rep key s (h_left n) l \<and> rep key s (h_right n) t \<and>
          h_size n = int (size l + size t + 1))"

definition refs :: "(nat \<times> 'k) tree \<Rightarrow> nat list" where
  "refs t = map fst (inorder t)"

lemma refs_simps [simp]:
  "refs \<langle>\<rangle> = []" "refs \<langle>l, x, r\<rangle> = refs l @ fst x # refs r"
  by (simp_all add: refs_def)

definition shape :: "h_node \<Rightarrow> nat option \<times> nat option \<times> nat option \<times> int" where
  "shape n = (h_data n, h_left n, h_right n, h_size n)"

text \<open>The two states have the same tree pointers, data and sizes outside \<open>R\<close>.\<close>

definition same_shape :: "nat set \<Rightarrow> 'a hstate_scheme \<Rightarrow> 'a hstate_scheme \<Rightarrow> bool" where
  "same_shape R s s' \<longleftrightarrow> (\<forall>r. r \<notin> R \<longrightarrow> map_option shape (nodes s' r) = map_option shape (nodes s r))"

lemma same_shapeD:
  assumes "same_shape R s s'" "r \<notin> R" "nodes s r = Some n"
  obtains n' where "nodes s' r = Some n'" "h_data n' = h_data n" "h_left n' = h_left n"
    "h_right n' = h_right n" "h_size n' = h_size n"
proof -
  have "map_option shape (nodes s' r) = Some (shape n)"
    using assms by (auto simp: same_shape_def)
  then obtain n' where "nodes s' r = Some n'" "shape n' = shape n" by auto
  then show thesis by (intro that [of n']) (simp_all add: shape_def)
qed

lemma same_shape_trans:
  "same_shape R s s' \<Longrightarrow> same_shape R' s' s'' \<Longrightarrow> R \<union> R' \<subseteq> Q \<Longrightarrow> same_shape Q s s''"
  unfolding same_shape_def subset_iff Un_iff by metis

lemma same_shape_refl [simp]: "nodes s' = nodes s \<Longrightarrow> same_shape R s s'"
  by (simp add: same_shape_def)

lemma rep_frame:
  assumes "same_shape R s s'"
  shows "set (refs t) \<inter> R = {} \<Longrightarrow> rep key s p t \<Longrightarrow>
    (\<And>r n. r \<in> set (refs t) \<Longrightarrow> nodes s r = Some n \<Longrightarrow> key s' (h_data n) = key s (h_data n)) \<Longrightarrow>
    rep key s' p t"
proof (induction t arbitrary: p)
  case (Node l x t)
  obtain r k where x: "x = (r, k)" by fastforce
  obtain n where n: "p = Some r" "nodes s r = Some n" "h_data n \<noteq> None" "key s (h_data n) = Some k"
    "rep key s (h_left n) l" "rep key s (h_right n) t" "h_size n = int (size l + size t + 1)"
    using Node.prems(2) x by (auto split: option.splits)
  obtain n' where n': "nodes s' r = Some n'" "h_data n' = h_data n" "h_left n' = h_left n"
    "h_right n' = h_right n" "h_size n' = h_size n"
    using same_shapeD [OF assms _ n(2)] Node.prems(1) x by auto
  have "rep key s' (h_left n) l" "rep key s' (h_right n) t"
    using Node.IH(1) [OF _ n(5)] Node.IH(2) [OF _ n(6)] Node.prems(1,3) by auto
  moreover have "key s' (h_data n) = Some k" using Node.prems(3) [of r n] n(2,4) x by simp
  ultimately show ?case using n n' x by simp
qed simp

lemma rep_size: "rep key s p t \<Longrightarrow> h_tree_size p s = Some (int (size t))"
  by (cases t) (auto simp: h_tree_size_def get_node_def split: option.splits)

text \<open>Setting a node whose subtrees are known.\<close>

lemma upd_node_eq [simp]:
  "nodes s r = Some n \<Longrightarrow> upd_node (Some r) g s = Some (s\<lparr>nodes := (nodes s)(r \<mapsto> g n)\<rparr>)"
  by (simp add: upd_node_def)

lemma get_node_eq [simp]: "get_node s (Some r) = nodes s r" "get_node s None = None"
  by (simp_all add: get_node_def)

lemma same_shape_upd:
  "r \<in> R \<Longrightarrow> same_shape R s (s\<lparr>nodes := (nodes s)(r := x)\<rparr>)"
  by (auto simp: same_shape_def)

section \<open>Search and insertion\<close>

text \<open>
  What the tree needs of the functions it is given: comparisons that agree with a linear
  order of keys, and keys that depend on the file objects only.
\<close>

locale h_order =
  fixes key :: "'a hstate_scheme \<Rightarrow> nat option \<Rightarrow> 'k::linorder option"
    and cmp_key :: "'a hstate_scheme \<Rightarrow> nat option \<Rightarrow> 'k \<Rightarrow> int option"
    and cmp :: "'a hstate_scheme \<Rightarrow> nat option \<Rightarrow> nat option \<Rightarrow> int option"
  assumes key_files: "files s' = files s \<Longrightarrow> key s' d = key s d"
    and cmp_key: "key s d = Some k \<Longrightarrow>
      \<exists>c. cmp_key s d k' = Some c \<and> (c < 0 \<longleftrightarrow> k < k') \<and> (c > 0 \<longleftrightarrow> k' < k)"
    and cmp: "key s d = Some k \<Longrightarrow> key s e = Some k' \<Longrightarrow>
      \<exists>c. cmp s d e = Some c \<and> (c < 0 \<longleftrightarrow> k < k') \<and> (c > 0 \<longleftrightarrow> k' < k)"
begin

text \<open>The search ends, changes nothing, and finds the node with the key.\<close>

lemma search_finds:
  assumes "rep key s p t"
  shows "\<exists>q. h_tree_search cmp_key p (Some k) s = Some (q, s) \<and>
     (bst (map_tree snd t) \<longrightarrow>
       (case q of None \<Rightarrow> k \<notin> snd ` set_tree t | Some r \<Rightarrow> (r, k) \<in> set_tree t))"
  using assms
proof (induction t arbitrary: p)
  case Leaf
  then show ?case by (simp add: h_tree_search.simps)
next
  case (Node l x t)
  obtain r k1 where x: "x = (r, k1)" by fastforce
  obtain n where n: "p = Some r" "nodes s r = Some n" "key s (h_data n) = Some k1"
    "rep key s (h_left n) l" "rep key s (h_right n) t"
    using Node.prems x by (auto split: option.splits)
  obtain c where c: "cmp_key s (h_data n) k = Some c" "c < 0 \<longleftrightarrow> k1 < k" "c > 0 \<longleftrightarrow> k < k1"
    using cmp_key [OF n(3), of k] by blast
  have step: "h_tree_search cmp_key p (Some k) s =
     (if c < 0 then h_tree_search cmp_key (h_right n) (Some k) s
      else if c > 0 then h_tree_search cmp_key (h_left n) (Some k) s else Some (p, s))"
    using n(1,2) c(1) by (subst h_tree_search.simps) simp
  consider "k1 < k" | "k < k1" | "k1 = k" by fastforce
  then show ?case
  proof cases
    case 1
    obtain q where q: "h_tree_search cmp_key (h_right n) (Some k) s = Some (q, s)"
      "bst (map_tree snd t) \<longrightarrow>
       (case q of None \<Rightarrow> k \<notin> snd ` set_tree t | Some r \<Rightarrow> (r, k) \<in> set_tree t)"
      using Node.IH(2) [OF n(5)] by blast
    have "k \<notin> snd ` set_tree l" if "\<forall>a\<in>set_tree l. snd a < k1" using that 1 by fastforce
    then show ?thesis using step c 1 q x by (auto simp: tree.set_map split: option.splits)
  next
    case 2
    obtain q where q: "h_tree_search cmp_key (h_left n) (Some k) s = Some (q, s)"
      "bst (map_tree snd l) \<longrightarrow>
       (case q of None \<Rightarrow> k \<notin> snd ` set_tree l | Some r \<Rightarrow> (r, k) \<in> set_tree l)"
      using Node.IH(1) [OF n(4)] by blast
    have "k \<notin> snd ` set_tree t" if "\<forall>a\<in>set_tree t. k1 < snd a" using that 2 by fastforce
    then show ?thesis using step c 2 q x by (auto simp: tree.set_map split: option.splits)
  next
    case 3
    then show ?thesis using step c x n(1) by auto
  qed
qed

end

text \<open>Insertion on the abstract tree: a key that is there already is not inserted again.\<close>

fun ins :: "nat \<times> 'k::linorder \<Rightarrow> (nat \<times> 'k) tree \<Rightarrow> (nat \<times> 'k) tree" where
  "ins x \<langle>\<rangle> = \<langle>\<langle>\<rangle>, x, \<langle>\<rangle>\<rangle>"
| "ins x \<langle>l, y, t\<rangle> =
     (if snd y < snd x then \<langle>l, y, ins x t\<rangle>
      else if snd x < snd y then \<langle>ins x l, y, t\<rangle>
      else \<langle>l, y, t\<rangle>)"

lemma set_ins:
  "snd ` set_tree (ins x t) = insert (snd x) (snd ` set_tree t)"
  by (induction x t rule: ins.induct) (auto simp: image_iff)

lemma refs_ins: "set (refs (ins x t)) \<subseteq> insert (fst x) (set (refs t))"
  by (induction x t rule: ins.induct) auto

lemma distinct_refs_ins:
  "distinct (refs t) \<Longrightarrow> fst x \<notin> set (refs t) \<Longrightarrow> distinct (refs (ins x t))"
proof (induction x t rule: ins.induct)
  case (2 x l y t)
  then show ?case using refs_ins [of x l] refs_ins [of x t] by auto
qed simp

lemma bst_ins: "bst (map_tree snd t) \<Longrightarrow> bst (map_tree snd (ins x t))"
proof (induction x t rule: ins.induct)
  case (2 x l y t)
  then show ?case using set_ins [of x l] set_ins [of x t] by (auto simp: tree.set_map)
qed simp

context h_order
begin

text \<open>Refreshing the size of a node gives a tree again.\<close>

lemma update_size_rep:
  assumes "nodes s r = Some n" "h_data n \<noteq> None" "key s (h_data n) = Some k"
    "rep key s (h_left n) l" "rep key s (h_right n) t" "r \<notin> set (refs l)" "r \<notin> set (refs t)"
  shows "\<exists>s'. update_size (Some r) s = Some s' \<and> rep key s' (Some r) \<langle>l, (r, k), t\<rangle> \<and>
     s' = s\<lparr>nodes := (nodes s)(r \<mapsto> n\<lparr>h_size := int (size l + size t + 1)\<rparr>)\<rparr>"
proof -
  let ?s = "s\<lparr>nodes := (nodes s)(r \<mapsto> n\<lparr>h_size := int (size l + size t + 1)\<rparr>)\<rparr>"
  have fr: "same_shape {r} s ?s" by (rule same_shape_upd) simp
  have keys: "key ?s d = key s d" for d by (rule key_files) simp
  have "rep key ?s (h_left n) l" by (rule rep_frame [OF fr _ assms(4)]) (use assms(6) keys in auto)
  moreover have "rep key ?s (h_right n) t" by (rule rep_frame [OF fr _ assms(5)]) (use assms(7) keys in auto)
  moreover have "update_size (Some r) s = Some ?s"
    using assms(1) rep_size [OF assms(4)] rep_size [OF assms(5)] by (simp add: update_size_def ac_simps)
  ultimately show ?thesis using assms(2,3) keys by simp
qed

text \<open>What insertion below the nodes \<open>R\<close> may change.\<close>

definition ins_frame :: "'a hstate_scheme \<Rightarrow> 'a hstate_scheme \<Rightarrow> nat set \<Rightarrow> bool" where
  "ins_frame s s' R \<longleftrightarrow> files s' = files s \<and> same_shape (insert (next_node s) R) s s' \<and>
     (\<forall>r. nodes s r \<noteq> None \<longrightarrow> nodes s' r \<noteq> None)"

lemma ins_frame_upd:
  "ins_frame s s1 R \<Longrightarrow> R \<subseteq> Q \<Longrightarrow> r \<in> Q \<Longrightarrow>
   ins_frame s (s1\<lparr>nodes := (nodes s1)(r \<mapsto> n)\<rparr>) Q"
  by (auto simp: ins_frame_def same_shape_def)

text \<open>A new leaf, linked as the first child of its parent in the hierarchy.\<close>

lemma node_init:
  assumes "key s new = Some k" "new \<noteq> None" "hp = None \<or> (\<exists>q n. hp = Some q \<and> nodes s q = Some n \<and> q \<noteq> next_node s)"
  shows "\<exists>s'. h_node_init new hp s = Some (Some (next_node s), s') \<and>
     rep key s' (Some (next_node s)) \<langle>\<langle>\<rangle>, (next_node s, k), \<langle>\<rangle>\<rangle> \<and> ins_frame s s' {} \<and>
     (\<exists>n. nodes s' (next_node s) = Some n \<and> h_data n = new \<and> h_parent n = hp)"
proof (cases hp)
  case None
  let ?n = "\<lparr>h_data = new, h_right = None, h_left = None, h_parent = None, h_next_sibling = None,
      h_children = None, h_size = 1\<rparr>"
  let ?s = "s\<lparr>nodes := (nodes s)(next_node s \<mapsto> ?n), next_node := next_node s + 1\<rparr>"
  have "key ?s new = Some k" using assms(1) key_files [of ?s s new] by simp
  then show ?thesis using assms(2) None
    by (auto simp: h_node_init_def ins_frame_def same_shape_def Let_def)
next
  case (Some q)
  then obtain m where m: "nodes s q = Some m" "q \<noteq> next_node s" using assms(3) by auto
  let ?n = "\<lparr>h_data = new, h_right = None, h_left = None, h_parent = Some q,
      h_next_sibling = h_children m, h_children = None, h_size = 1\<rparr>"
  let ?s = "s\<lparr>nodes := (nodes s)(next_node s \<mapsto> ?n, q \<mapsto> m\<lparr>h_children := Some (next_node s)\<rparr>),
      next_node := next_node s + 1\<rparr>"
  have "key ?s new = Some k" using assms(1) key_files [of ?s s new] by simp
  moreover have "h_node_init new hp s = Some (Some (next_node s), ?s)"
    using Some m by (simp add: h_node_init_def Let_def)
  moreover have "ins_frame s ?s {}"
    using m by (auto simp: ins_frame_def same_shape_def shape_def)
  ultimately show ?thesis using assms(2) m Some by auto
qed

text \<open>Replacing the subtree on one side of a node after it was changed, and the new size.\<close>

lemma replace_side:
  assumes "\<And>i m. i \<in> insert r (set (refs u)) \<Longrightarrow> nodes s i = Some m \<Longrightarrow> key s1 (h_data m) = key s (h_data m)"
    "same_shape R s s1" "nodes s r = Some n" "r \<notin> R"
    "h_data n \<noteq> None" "key s (h_data n) = Some k" "rep key s1 q t'" "r \<notin> set (refs t')"
    "rep key s (if rgt then h_left n else h_right n) u" "set (refs u) \<inter> R = {}" "r \<notin> set (refs u)"
  shows "\<exists>s' m. do { s \<leftarrow> upd_node (Some r) (if rgt then h_right_update (\<lambda>_. q) else h_left_update (\<lambda>_. q)) s1;
        update_size (Some r) s } = Some s' \<and>
     rep key s' (Some r) (if rgt then \<langle>u, (r, k), t'\<rangle> else \<langle>t', (r, k), u\<rangle>) \<and>
     s' = s1\<lparr>nodes := (nodes s1)(r \<mapsto> m)\<rparr> \<and> h_data m = h_data n"
proof -
  obtain n1 where n1: "nodes s1 r = Some n1" "h_data n1 = h_data n" "h_left n1 = h_left n"
      "h_right n1 = h_right n"
    using same_shapeD [OF assms(2,4,3)] by metis
  let ?n2 = "(if rgt then h_right_update (\<lambda>_. q) else h_left_update (\<lambda>_. q)) n1"
  let ?s2 = "s1\<lparr>nodes := (nodes s1)(r \<mapsto> ?n2)\<rparr>"
  have keys: "key ?s2 d = key s1 d" for d by (rule key_files) simp
  have fr: "same_shape {r} s1 ?s2" by (rule same_shape_upd) simp
  have "rep key s1 (if rgt then h_left n else h_right n) u"
    by (rule rep_frame [OF assms(2,10,9)]) (rule assms(1), auto)
  then have u2: "rep key ?s2 (if rgt then h_left n else h_right n) u"
    by (rule rep_frame [OF fr, rotated 1]) (use assms(11) keys in auto)
  have t2: "rep key ?s2 q t'"
    by (rule rep_frame [OF fr _ assms(7)]) (use assms(8) keys in auto)
  have data: "h_data ?n2 \<noteq> None" "key ?s2 (h_data ?n2) = Some k"
    using assms(1) [of r n] assms(3,5,6) n1(2) by (simp_all add: keys)
  have n2: "nodes ?s2 r = Some ?n2" by simp
  have "\<exists>s'. update_size (Some r) ?s2 = Some s' \<and>
      rep key s' (Some r) (if rgt then \<langle>u, (r, k), t'\<rangle> else \<langle>t', (r, k), u\<rangle>) \<and>
      (\<exists>m. s' = ?s2\<lparr>nodes := (nodes ?s2)(r \<mapsto> m)\<rparr> \<and> h_data m = h_data n)"
    using update_size_rep [OF n2 data, of "if rgt then u else t'" "if rgt then t' else u"]
      u2 t2 n1(2-4) assms(8,11) by (cases rgt) auto
  then show ?thesis using n1(1) by auto
qed

lemma insert_refines:
  assumes "key s new = Some k" "new = Some d"
    "hp = None \<or> (\<exists>q n. hp = Some q \<and> nodes s q = Some n \<and> q \<noteq> next_node s)"
  shows "rep key s p t \<Longrightarrow> distinct (refs t) \<Longrightarrow> next_node s \<notin> set (refs t) \<Longrightarrow>
     \<exists>q s'. h_tree_insert cmp p new hp s = Some (q, s') \<and>
       rep key s' q (ins (next_node s, k) t) \<and> (p \<noteq> None \<longrightarrow> q = p) \<and>
       ins_frame s s' (set (refs t)) \<and> (next_node s \<in> set (refs (ins (next_node s, k) t)) \<longrightarrow>
         (\<exists>n. nodes s' (next_node s) = Some n \<and> h_data n = new \<and> h_parent n = hp))"
proof (induction t arbitrary: p)
  case Leaf
  then have "h_tree_insert cmp p new hp s = h_node_init new hp s"
    using assms(2) by (subst h_tree_insert.simps) simp
  with node_init [OF assms(1) _ assms(3)] assms(2) Leaf show ?case by auto
next
  case (Node l x t)
  obtain r k1 where x: "x = (r, k1)" by fastforce
  obtain n where n: "p = Some r" "nodes s r = Some n" "h_data n \<noteq> None" "key s (h_data n) = Some k1"
    "rep key s (h_left n) l" "rep key s (h_right n) t" "h_size n = int (size l + size t + 1)"
    using Node.prems(1) x by (auto split: option.splits)
  obtain c where c: "cmp s new (h_data n) = Some c" "c < 0 \<longleftrightarrow> k < k1" "c > 0 \<longleftrightarrow> k1 < k"
    using cmp [OF assms(1) n(4)] by blast
  let ?x = "(next_node s, k)" and ?R = "set (refs \<langle>l, x, t\<rangle>)"
  have r: "r \<notin> set (refs l)" "r \<notin> set (refs t)" "r \<noteq> next_node s" "next_node s \<notin> set (refs l)"
    "next_node s \<notin> set (refs t)" "distinct (refs l)" "distinct (refs t)"
    "set (refs l) \<inter> set (refs t) = {}" "r \<in> ?R"
    using Node.prems x by auto
  have step: "h_tree_insert cmp p new hp s = do {
      s \<leftarrow> (if c > 0 then do {
              (right, s) \<leftarrow> h_tree_insert cmp (h_right n) new hp s;
              upd_node p (\<lambda>n. n\<lparr>h_right := right\<rparr>) s }
           else if c < 0 then do {
              (left, s) \<leftarrow> h_tree_insert cmp (h_left n) new hp s;
              upd_node p (\<lambda>n. n\<lparr>h_left := left\<rparr>) s }
           else Some s);
      s \<leftarrow> update_size p s; Some (p, s) }"
    using n(1,2) c(1) assms(2) by (subst h_tree_insert.simps) simp
  consider "k1 < k" | "k < k1" | "k1 = k" by fastforce
  then show ?case
  proof cases
    case 1
    obtain q s1 where q: "h_tree_insert cmp (h_right n) new hp s = Some (q, s1)"
      "rep key s1 q (ins ?x t)" "ins_frame s s1 (set (refs t))"
      "next_node s \<in> set (refs (ins ?x t)) \<longrightarrow>
         (\<exists>n. nodes s1 (next_node s) = Some n \<and> h_data n = new \<and> h_parent n = hp)"
      using Node.IH(2) [OF n(6)] r by blast
    have fr: "same_shape (insert (next_node s) (set (refs t))) s s1" and keys: "key s1 e = key s e" for e
      using q(3) key_files [of s1 s] by (simp_all add: ins_frame_def)
    have rq: "r \<notin> set (refs (ins ?x t))" using refs_ins [of ?x t] r by auto
    obtain s' m where "do { s \<leftarrow> upd_node (Some r) (h_right_update (\<lambda>_. q)) s1; update_size (Some r) s } = Some s'"
      "rep key s' (Some r) \<langle>l, (r, k1), ins ?x t\<rangle>" "s' = s1\<lparr>nodes := (nodes s1)(r \<mapsto> m)\<rparr>"
      using replace_side [OF keys fr n(2) _ n(3,4) q(2) rq, of True l, unfolded if_True, OF _ n(5)] r by auto
    moreover from this(3) have "ins_frame s s' ?R" using ins_frame_upd [OF q(3), of ?R r m] x by auto
    ultimately show ?thesis using step c 1 q(1,4) n(1) x r(3-5) by (auto simp: bind_eq_Some_conv)
  next
    case 2
    obtain q s1 where q: "h_tree_insert cmp (h_left n) new hp s = Some (q, s1)"
      "rep key s1 q (ins ?x l)" "ins_frame s s1 (set (refs l))"
      "next_node s \<in> set (refs (ins ?x l)) \<longrightarrow>
         (\<exists>n. nodes s1 (next_node s) = Some n \<and> h_data n = new \<and> h_parent n = hp)"
      using Node.IH(1) [OF n(5)] r by blast
    have fr: "same_shape (insert (next_node s) (set (refs l))) s s1" and keys: "key s1 e = key s e" for e
      using q(3) key_files [of s1 s] by (simp_all add: ins_frame_def)
    have rq: "r \<notin> set (refs (ins ?x l))" using refs_ins [of ?x l] r by auto
    obtain s' m where "do { s \<leftarrow> upd_node (Some r) (h_left_update (\<lambda>_. q)) s1; update_size (Some r) s } = Some s'"
      "rep key s' (Some r) \<langle>ins ?x l, (r, k1), t\<rangle>" "s' = s1\<lparr>nodes := (nodes s1)(r \<mapsto> m)\<rparr>"
      using replace_side [OF keys fr n(2) _ n(3,4) q(2) rq, of False t, unfolded if_False, OF _ n(6)]
        r Int_commute [of "set (refs l)" "set (refs t)"] by auto
    moreover from this(3) have "ins_frame s s' ?R" using ins_frame_upd [OF q(3), of ?R r m] x by auto
    ultimately show ?thesis using step c 2 q(1,4) n(1) x r(3-5) by (auto simp: bind_eq_Some_conv)
  next
    case 3
    obtain s' m where "update_size (Some r) s = Some s'" "rep key s' (Some r) \<langle>l, (r, k1), t\<rangle>"
      "s' = s\<lparr>nodes := (nodes s)(r \<mapsto> m)\<rparr>"
      using update_size_rep [OF n(2-6) r(1,2)] by blast
    moreover from this(3) have "ins_frame s s' ?R"
      using ins_frame_upd [of s s "{}" ?R r m] x by (simp add: ins_frame_def)
    ultimately show ?thesis using step c 3 n(1) x r(3-5) by auto
  qed
qed

end

section \<open>The hierarchy\<close>

text \<open>\<open>sib s p xs\<close>: the siblings from \<open>p\<close> on are the nodes \<open>xs\<close>.\<close>

fun sib :: "'a hstate_scheme \<Rightarrow> nat option \<Rightarrow> nat list \<Rightarrow> bool" where
  "sib s p [] \<longleftrightarrow> p = None"
| "sib s p (x # xs) \<longleftrightarrow> p = Some x \<and>
     (case nodes s x of None \<Rightarrow> False | Some n \<Rightarrow> sib s (h_next_sibling n) xs)"

lemma sibling_loop_finds:
  assumes "sib s p (x # xs)" "c \<in> set xs" "distinct (x # xs)"
  shows "\<exists>y n. sibling_loop p (Some c) s = Some (Some y) \<and> nodes s y = Some n \<and>
     h_next_sibling n = Some c"
  using assms
proof (induction xs arbitrary: p x)
  case (Cons z zs)
  obtain n where n: "p = Some x" "nodes s x = Some n" "sib s (h_next_sibling n) (z # zs)"
    using Cons.prems(1) by (auto split: option.splits)
  then have z: "h_next_sibling n = Some z" by simp
  show ?case
  proof (cases "z = c")
    case True
    then show ?thesis using n(1,2) z by (subst sibling_loop.simps) auto
  next
    case False
    then have "sibling_loop p (Some c) s = sibling_loop (Some z) (Some c) s"
      using n(1,2) z by (subst sibling_loop.simps) simp
    moreover have "sib s (Some z) (z # zs)" using n(3) z by simp
    ultimately show ?thesis using Cons.IH [of "Some z" z] Cons.prems False by auto
  qed
qed simp

text \<open>A node can be unlinked: it has no parent, or it is among its parent's children.\<close>

definition hier_ok :: "'a hstate_scheme \<Rightarrow> nat \<Rightarrow> bool" where
  "hier_ok s c \<longleftrightarrow> (\<exists>n. nodes s c = Some n \<and>
     (case h_parent n of None \<Rightarrow> True
      | Some q \<Rightarrow> \<exists>m xs. nodes s q = Some m \<and> sib s (h_children m) xs \<and> distinct xs \<and> c \<in> set xs))"

lemma remove_child_ok:
  assumes "hier_ok s c"
  shows "\<exists>s'. remove_child_from_h (Some c) s = Some s' \<and> same_shape {} s s' \<and>
     files s' = files s \<and> next_node s' = next_node s"
proof -
  obtain n where n: "nodes s c = Some n"
    "case h_parent n of None \<Rightarrow> True
      | Some q \<Rightarrow> \<exists>m xs. nodes s q = Some m \<and> sib s (h_children m) xs \<and> distinct xs \<and> c \<in> set xs"
    using assms by (auto simp: hier_ok_def)
  show ?thesis
  proof (cases "h_parent n")
    case None
    then show ?thesis using n(1) by (simp add: remove_child_from_h_def)
  next
    case (Some q)
    then obtain m xs where m: "nodes s q = Some m" "sib s (h_children m) xs" "distinct xs" "c \<in> set xs"
      using n(2) by auto
    then obtain x ys where xs: "xs = x # ys" "h_children m = Some x" by (cases xs) auto
    show ?thesis
    proof (cases "x = c")
      case True
      then have "remove_child_from_h (Some c) s =
          Some (s\<lparr>nodes := (nodes s)(q \<mapsto> m\<lparr>h_children := h_next_sibling n\<rparr>)\<rparr>)"
        using n(1) Some m(1) xs(2) by (simp add: remove_child_from_h_def Let_def)
      then show ?thesis using m(1) by (auto simp: same_shape_def shape_def)
    next
      case False
      then have "c \<in> set ys" using m(4) xs(1) by simp
      then obtain y k where y: "sibling_loop (Some x) (Some c) s = Some (Some y)" "nodes s y = Some k"
        using sibling_loop_finds [of s "Some x" x ys c] m(2,3) xs by auto
      then have "remove_child_from_h (Some c) s =
          Some (s\<lparr>nodes := (nodes s)(y \<mapsto> k\<lparr>h_next_sibling := h_next_sibling n\<rparr>)\<rparr>)"
        using n(1) Some m(1) xs(2) False by (simp add: remove_child_from_h_def Let_def)
      then show ?thesis using y(2) by (auto simp: same_shape_def shape_def)
    qed
  qed
qed

section \<open>Deletion\<close>

text \<open>
  Deletion on the abstract tree, as far as the code does it: with two children the right
  one must have no left child itself.
\<close>

fun del :: "'k::linorder \<Rightarrow> (nat \<times> 'k) tree \<Rightarrow> (nat \<times> 'k) tree option" where
  "del k \<langle>\<rangle> = Some \<langle>\<rangle>"
| "del k \<langle>l, y, t\<rangle> =
     (if snd y < k then map_option (\<lambda>t'. \<langle>l, y, t'\<rangle>) (del k t)
      else if k < snd y then map_option (\<lambda>l'. \<langle>l', y, t\<rangle>) (del k l)
      else if l = \<langle>\<rangle> then Some t
      else case t of
          \<langle>\<rangle> \<Rightarrow> Some l
        | \<langle>\<langle>\<rangle>, z, u\<rangle> \<Rightarrow> Some \<langle>l, z, u\<rangle>
        | _ \<Rightarrow> None)"

lemma del_refs: "del k t = Some t' \<Longrightarrow> set (refs t') \<subseteq> set (refs t)"
proof (induction k t arbitrary: t' rule: del.induct)
  case (2 k l y t)
  then show ?case by (fastforce split: if_splits tree.splits)
qed simp

lemma set_del:
  "del k t = Some t' \<Longrightarrow> bst (map_tree snd t) \<Longrightarrow> snd ` set_tree t' = snd ` set_tree t - {k}"
proof (induction k t arbitrary: t' rule: del.induct)
  case (2 k l y t)
  note b = "2.prems"(2)
  consider "snd y < k" | "k < snd y" | "snd y = k" by fastforce
  then show ?case
  proof cases
    case 1
    then obtain u where u: "del k t = Some u" "t' = \<langle>l, y, u\<rangle>" using "2.prems" by auto
    then have "snd ` set_tree u = snd ` set_tree t - {k}" using "2.IH"(1) 1 b by simp
    moreover have "k \<notin> snd ` set_tree l" using b 1 by (auto simp: tree.set_map)
    ultimately show ?thesis using u(2) 1 by auto
  next
    case 2
    then have "\<not> snd y < k" by simp
    with 2 obtain u where u: "del k l = Some u" "t' = \<langle>u, y, t\<rangle>" using "2.prems"(1) by auto
    then have "snd ` set_tree u = snd ` set_tree l - {k}" using "2.IH"(2) 2 \<open>\<not> snd y < k\<close> b by simp
    moreover have "k \<notin> snd ` set_tree t" using b 2 by (auto simp: tree.set_map)
    ultimately show ?thesis using u(2) 2 by auto
  next
    case 3
    then have "k \<notin> snd ` set_tree l" "k \<notin> snd ` set_tree t" using b by (auto simp: tree.set_map)
    then have "k \<notin> snd ` set_tree l \<union> snd ` set_tree t" by simp
    then have "insert k (snd ` set_tree l \<union> snd ` set_tree t) - {k} = snd ` set_tree l \<union> snd ` set_tree t"
      by (rule Diff_insert_absorb)
    moreover have "snd ` set_tree \<langle>l, y, t\<rangle> = insert k (snd ` set_tree l \<union> snd ` set_tree t)"
      using 3 by (simp add: image_Un)
    moreover have "snd ` set_tree t' = snd ` set_tree l \<union> snd ` set_tree t"
      using 3 "2.prems"(1) by (auto split: if_splits tree.splits; force)
    ultimately show ?thesis by simp
  qed
qed simp

lemma rep_node:
  "rep key s p t \<Longrightarrow> (r, k) \<in> set_tree t \<Longrightarrow>
   \<exists>n. nodes s r = Some n \<and> h_data n \<noteq> None \<and> key s (h_data n) = Some k"
proof (induction t arbitrary: p)
  case (Node l x t)
  obtain i k1 where "x = (i, k1)" by fastforce
  with Node show ?case by (auto split: option.splits)
qed simp

lemma ins_present:
  "bst (map_tree snd t) \<Longrightarrow> snd x \<in> snd ` set_tree t \<Longrightarrow> ins x t = t"
proof (induction x t rule: ins.induct)
  case (2 x l y t)
  note b = "2.prems"(1)
  have l: "a < snd y" if "a \<in> snd ` set_tree l" for a using b that by (auto simp: tree.set_map)
  have t: "snd y < a" if "a \<in> snd ` set_tree t" for a using b that by (auto simp: tree.set_map)
  have m: "snd x = snd y \<or> snd x \<in> snd ` set_tree l \<or> snd x \<in> snd ` set_tree t"
    using "2.prems"(2) by (simp add: image_Un)
  consider "snd y < snd x" | "snd x < snd y" | "snd x = snd y" by fastforce
  then show ?case
  proof cases
    case 1
    then have "snd x \<noteq> snd y" by simp
    then have "snd x \<in> snd ` set_tree t" using m l [of "snd x"] less_asym [OF 1] by blast
    then show ?thesis using "2.IH"(1) 1 b by simp
  next
    case 2
    then have "snd x \<noteq> snd y" by simp
    then have "snd x \<in> snd ` set_tree l" using m t [of "snd x"] less_asym [OF 2] by blast
    then show ?thesis using "2.IH"(2) 2 less_not_sym [OF 2] b by simp
  next
    case 3
    then show ?thesis by simp
  qed
qed simp

lemma distinct_refs_del: "del k t = Some t' \<Longrightarrow> distinct (refs t) \<Longrightarrow> distinct (refs t')"
proof (induction k t arbitrary: t' rule: del.induct)
  case (2 k l y t)
  consider "snd y < k" | "k < snd y" | "snd y = k" by fastforce
  then show ?case
  proof cases
    case 1
    then obtain u where "del k t = Some u" "t' = \<langle>l, y, u\<rangle>" using "2.prems"(1) by auto
    with 2 1 del_refs [of k t u] show ?thesis by auto
  next
    case 2
    then have "\<not> snd y < k" by simp
    with 2 obtain u where "del k l = Some u" "t' = \<langle>u, y, t\<rangle>" using "2.prems"(1) by auto
    with "2.IH"(2) "2.prems"(2) 2 \<open>\<not> snd y < k\<close> del_refs [of k l u] show ?thesis by auto
  next
    case 3
    then show ?thesis using "2.prems" by (auto split: if_splits tree.splits)
  qed
qed simp

lemma bst_del: "del k t = Some t' \<Longrightarrow> bst (map_tree snd t) \<Longrightarrow> bst (map_tree snd t')"
proof (induction k t arbitrary: t' rule: del.induct)
  case (2 k l y t)
  consider "snd y < k" | "k < snd y" | "snd y = k" by fastforce
  then show ?case
  proof cases
    case 1
    then obtain u where "del k t = Some u" "t' = \<langle>l, y, u\<rangle>" using "2.prems"(1) by auto
    with 2 1 set_del [of k t u] show ?thesis by (auto simp: tree.set_map)
  next
    case 2
    then have "\<not> snd y < k" by simp
    with 2 obtain u where "del k l = Some u" "t' = \<langle>u, y, t\<rangle>" using "2.prems"(1) by auto
    with "2.IH"(2) "2.prems"(2) 2 \<open>\<not> snd y < k\<close> set_del [of k l u] show ?thesis
      by (auto simp: tree.set_map)
  next
    case 3
    show ?thesis
    proof (cases "l = \<langle>\<rangle> \<or> t = \<langle>\<rangle>")
      case True
      then show ?thesis using "2.prems" 3 by (auto split: if_splits tree.splits)
    next
      case False
      then obtain z u where t: "t = \<langle>\<langle>\<rangle>, z, u\<rangle>" "t' = \<langle>l, z, u\<rangle>"
        using "2.prems"(1) 3 by (auto split: tree.splits)
      then show ?thesis using "2.prems"(2) by (force simp: tree.set_map)
    qed
  qed
qed simp

text \<open>Destroying the data of a node leaves the tree alone, and cannot be done twice.\<close>

locale h_files = h_order key cmp_key cmp
  for key :: "'a hstate_scheme \<Rightarrow> nat option \<Rightarrow> 'k::linorder option"
    and cmp_key :: "'a hstate_scheme \<Rightarrow> nat option \<Rightarrow> 'k \<Rightarrow> int option"
    and cmp :: "'a hstate_scheme \<Rightarrow> nat option \<Rightarrow> nat option \<Rightarrow> int option" +
  fixes destroy :: "nat option \<Rightarrow> 'a hstate_scheme \<Rightarrow> 'a hstate_scheme option"
  assumes destroy: "key s d = Some k \<Longrightarrow> d \<noteq> None \<Longrightarrow>
      \<exists>s'. destroy d s = Some s' \<and> nodes s' = nodes s \<and> next_node s' = next_node s \<and>
        files s' = (files s)(the d := None) \<and>
        (\<forall>e. e \<noteq> d \<longrightarrow> key s' e = key s e) \<and>
        (\<forall>s''. files s'' = files s' \<longrightarrow> destroy d s'' = None)"

text \<open>The steps between the two destructions keep the file objects and the data of the nodes.\<close>

definition keeps :: "'a hstate_scheme \<Rightarrow> 'a hstate_scheme \<Rightarrow> bool" where
  "keeps s s' \<longleftrightarrow> files s' = files s \<and>
     (\<forall>r. map_option h_data (nodes s' r) = map_option h_data (nodes s r))"

lemma keeps_refl [simp]: "keeps s s"
  by (simp add: keeps_def)

lemma keeps_trans: "keeps s s' \<Longrightarrow> keeps s' s'' \<Longrightarrow> keeps s s''"
  by (simp add: keeps_def)

lemma upd_node_keeps:
  "upd_node p g s = Some s' \<Longrightarrow> (\<And>n. h_data (g n) = h_data n) \<Longrightarrow> keeps s s'"
  by (auto simp: upd_node_def keeps_def bind_eq_Some_conv split: option.splits)

lemma update_size_keeps: "update_size p s = Some s' \<Longrightarrow> keeps s s'"
  by (auto simp: update_size_def bind_eq_Some_conv elim!: upd_node_keeps)

lemma minimum_loop_keeps:
  assumes "minimum_loop p mp s = Some y"
  shows "keeps s (snd (snd y))"
proof (rule minimum_loop.raw_induct [of "\<lambda>p mp s y. keeps s (snd (snd y))", OF _ assms])
  fix f p mp s y
  assume IH: "\<And>p mp s y. f p mp s = Some y \<Longrightarrow> keeps s (snd (snd y))"
    and y: "do {
     m \<leftarrow> is_minimum p s;
     if \<not> m then do {
       n \<leftarrow> get_node s p;
       let minimum = h_left n;
       let minimum_parent = minimum;
       s \<leftarrow> upd_node minimum_parent (\<lambda>n. n\<lparr>h_size := h_size n - 1\<rparr>) s;
       f minimum minimum_parent s }
     else Some (p, mp, s) } = Some y"
  then show "keeps s (snd (snd y))"
    by (auto simp: bind_eq_Some_conv Let_def split: if_splits
        intro: keeps_trans [OF upd_node_keeps IH])
qed

lemma swap_nodes_keeps:
  assumes "swap_nodes p q s = Some s'"
  shows "keeps s s'"
proof -
  obtain new1 new2 old :: h_node and a b c d e where
    "upd_node p (h_left_update (\<lambda>_. h_left new1)) s = Some a"
    "upd_node p (h_right_update (\<lambda>_. h_right new2)) a = Some b"
    "upd_node q (h_left_update (\<lambda>_. h_left old)) b = Some c"
    "upd_node q (h_right_update (\<lambda>_. h_right old)) c = Some d"
    "update_size q d = Some e" "update_size p e = Some s'"
    using assms unfolding swap_nodes_def Let_def
    by (elim bind_eq_SomeE) (rule that, assumption+)
  then have "keeps s a" "keeps a b" "keeps b c" "keeps c d" "keeps d e" "keeps e s'"
    by (simp_all add: upd_node_keeps update_size_keeps)
  then show ?thesis by (meson keeps_trans)
qed

text \<open>
  With two children and a right child that is not the minimum of its subtree, the data is
  destroyed a second time.
\<close>

lemma delete_root_again:
  assumes "\<forall>s''. files s'' = files s1 \<longrightarrow> destroy d s'' = None" "d \<noteq> None"
    "keeps s1 s'" "map_option h_data (nodes s1 r) = Some d"
  shows "delete_root destroy (Some r) s' = None"
proof -
  have "map_option h_data (nodes s' r) = Some d" using assms(3,4) by (simp add: keeps_def)
  then obtain n where "nodes s' r = Some n" "h_data n = d" by auto
  then show ?thesis using assms(1-3)
    by (subst delete_root.simps) (auto simp: keeps_def)
qed

context h_files
begin

lemma delete_root_twice:
  assumes "nodes s r = Some n" "h_data n \<noteq> None" "key s (h_data n) = Some k"
    "h_left n \<noteq> None" "h_right n = Some q" "nodes s q = Some m" "h_left m \<noteq> None"
  shows "delete_root destroy (Some r) s = None"
proof -
  obtain s1 where s1: "destroy (h_data n) s = Some s1" "nodes s1 = nodes s"
    "\<forall>s''. files s'' = files s1 \<longrightarrow> destroy (h_data n) s'' = None"
    using destroy [OF assms(3,2)] by blast
  define s2 where "s2 = s1\<lparr>nodes := (nodes s1)(q \<mapsto> m\<lparr>h_size := h_size m - 1\<rparr>)\<rparr>"
  have k2: "keeps s1 s2" using assms(6) s1(2) by (simp add: s2_def keeps_def)
  have step: "delete_root destroy (Some r) s = do {
      (minimum, minimum_parent, s) \<leftarrow> minimum_loop (h_left m) (Some q) s2;
      s \<leftarrow> swap_nodes (Some r) minimum s;
      (l, s) \<leftarrow> delete_root destroy (Some r) s;
      s \<leftarrow> upd_node minimum_parent (\<lambda>k. k\<lparr>h_left := l\<rparr>) s;
      Some (minimum, s) }"
    using assms s1(1,2) by (subst delete_root.simps) (auto simp: is_minimum_def s2_def)
  have again: "delete_root destroy (Some r) s' = None"
    if "minimum_loop (h_left m) (Some q) s2 = Some (p', mp', s3)" "swap_nodes (Some r) p' s3 = Some s'"
    for p' mp' s3 s'
  proof (rule delete_root_again [of s1 destroy "h_data n"])
    have "keeps s2 s3" using minimum_loop_keeps [OF that(1)] by simp
    then show "keeps s1 s'"
      using k2 swap_nodes_keeps [OF that(2)] by (blast intro: keeps_trans)
  qed (use s1(2,3) assms(1,2) in simp_all)
  show ?thesis
    unfolding step using again
    by (cases "minimum_loop (h_left m) (Some q) s2")
       (auto simp: split_beta bind_eq_None_conv)
qed

end

text \<open>The data of the nodes of a tree.\<close>

definition datas :: "'a hstate_scheme \<Rightarrow> (nat \<times> 'k) tree \<Rightarrow> nat option set" where
  "datas s t = {h_data n |r n. r \<in> set (refs t) \<and> nodes s r = Some n}"

definition data_inj :: "'a hstate_scheme \<Rightarrow> (nat \<times> 'k) tree \<Rightarrow> bool" where
  "data_inj s t \<longleftrightarrow> (\<forall>i j n m. i \<in> set (refs t) \<and> j \<in> set (refs t) \<and> i \<noteq> j \<and>
     nodes s i = Some n \<and> nodes s j = Some m \<longrightarrow> h_data n \<noteq> h_data m)"

context h_files
begin

text \<open>What deletion in the tree \<open>t\<close> may change.\<close>

definition del_frame :: "'a hstate_scheme \<Rightarrow> 'a hstate_scheme \<Rightarrow> (nat \<times> 'k) tree \<Rightarrow> bool" where
  "del_frame s s' t \<longleftrightarrow> same_shape (set (refs t)) s s' \<and> (\<forall>e. e \<notin> datas s t \<longrightarrow> key s' e = key s e)"

text \<open>
  The one file that deletion of the key \<open>k\<close> destroys, when the tree \<open>t\<close> becomes \<open>t'\<close>: that of the
  node that left the tree.
\<close>

definition destroyed :: "'k \<Rightarrow> 'a hstate_scheme \<Rightarrow> 'a hstate_scheme \<Rightarrow>
    (nat \<times> 'k) tree \<Rightarrow> (nat \<times> 'k) tree \<Rightarrow> bool" where
  "destroyed k s s' t t' \<longleftrightarrow>
     (\<forall>i\<in>set (refs t'). map_option h_data (nodes s' i) = map_option h_data (nodes s i)) \<and>
     ((t' = t \<and> files s' = files s) \<or>
      (\<exists>i n d. i \<in> set (refs t) - set (refs t') \<and> nodes s i = Some n \<and> h_data n = Some d \<and>
         key s (Some d) = Some k \<and> files s' = (files s)(d := None)))"

lemma destroyed_root:
  assumes "nodes s r = Some n" "h_data n \<noteq> None" "key s (h_data n) = Some k"
    "r \<in> set (refs t)" "r \<notin> set (refs t')" "files s' = (files s)(the (h_data n) := None)"
    "\<And>i. i \<in> set (refs t') \<Longrightarrow> map_option h_data (nodes s' i) = map_option h_data (nodes s i)"
  shows "destroyed k s s' t t'"
  using assms unfolding destroyed_def by fastforce

lemma destroyed_above:
  assumes "destroyed k s s' u u'" "same_shape (set (refs u)) s s'" "nodes s r = Some n"
    "h_data m = h_data n" "s'' = s'\<lparr>nodes := (nodes s')(r \<mapsto> m)\<rparr>" "r \<notin> set (refs u)"
    "set (refs w) \<inter> set (refs u) = {}" "set (refs u') \<subseteq> set (refs u)"
    "set (refs v) = insert r (set (refs u) \<union> set (refs w))"
    "set (refs v') = insert r (set (refs u') \<union> set (refs w))" "u' = u \<longrightarrow> v' = v"
  shows "destroyed k s s'' v v'"
proof -
  have "map_option h_data (nodes s'' i) = map_option h_data (nodes s i)" if i: "i \<in> set (refs v')" for i
  proof (cases "i = r \<or> i \<in> set (refs u')")
    case True
    then show ?thesis using assms(1,3,4,5) by (auto simp: destroyed_def)
  next
    case False
    then have "i \<notin> set (refs u)" using i assms(7,10) by auto
    then have "map_option shape (nodes s' i) = map_option shape (nodes s i)"
      using assms(2) by (simp add: same_shape_def)
    then show ?thesis using False assms(5)
      by (cases "nodes s i"; cases "nodes s' i") (auto simp: shape_def)
  qed
  moreover have "i \<in> set (refs v) - set (refs v')" if "i \<in> set (refs u) - set (refs u')" for i
    using that assms(6,7,9,10) by auto
  moreover have "files s'' = files s'" using assms(5) by simp
  ultimately show ?thesis using assms(1,11) unfolding destroyed_def by metis
qed

lemma del_frame_mono:
  "del_frame s s' t \<Longrightarrow> set (refs t) \<subseteq> set (refs u) \<Longrightarrow> del_frame s s' u"
  unfolding del_frame_def same_shape_def datas_def by blast

lemma del_frame_upd:
  "del_frame s s1 t \<Longrightarrow> r \<in> set (refs t) \<Longrightarrow> files s2 = files s1 \<Longrightarrow>
   nodes s2 = (nodes s1)(r := x) \<Longrightarrow> del_frame s s2 t"
  using key_files [of s2 s1] by (auto simp: del_frame_def same_shape_def)

text \<open>The root goes: after unlinking it from the hierarchy, what \<open>delete_root\<close> does.\<close>

lemma delete_root_leaf:
  assumes "nodes s r = Some n" "h_data n \<noteq> None" "key s (h_data n) = Some k"
    "rep key s (h_left n) l" "rep key s (h_right n) t" "l = \<langle>\<rangle> \<or> t = \<langle>\<rangle>"
    "r \<notin> set (refs l)" "r \<notin> set (refs t)" "data_inj s \<langle>l, (r, k), t\<rangle>"
  shows "\<exists>q s'. delete_root destroy (Some r) s = Some (q, s') \<and>
     rep key s' q (if l = \<langle>\<rangle> then t else l) \<and> del_frame s s' \<langle>l, (r, k), t\<rangle> \<and>
     destroyed k s s' \<langle>l, (r, k), t\<rangle> (if l = \<langle>\<rangle> then t else l)"
proof -
  obtain s1 where s1: "destroy (h_data n) s = Some s1" "nodes s1 = nodes s"
    "\<forall>e. e \<noteq> h_data n \<longrightarrow> key s1 e = key s e" "files s1 = (files s)(the (h_data n) := None)"
    using destroy [OF assms(3,2)] by blast
  let ?s2 = "s1\<lparr>nodes := (nodes s1)(r := None)\<rparr>"
  let ?u = "if l = \<langle>\<rangle> then t else l" and ?q = "if h_left n = None then h_right n else h_left n"
  have leaf: "h_left n = None \<longleftrightarrow> l = \<langle>\<rangle>" "h_right n = None \<longleftrightarrow> t = \<langle>\<rangle>"
    using assms(4,5) by (cases l; cases t; auto)+
  have run: "delete_root destroy (Some r) s = Some (?q, ?s2)"
    using assms(1,2,6) s1(1,2) leaf by (subst delete_root.simps) (auto simp: free_node_def)
  have keys: "key ?s2 e = key s e" if "e \<noteq> h_data n" for e
    using that s1(3) key_files [of ?s2 s1] by simp
  have rep0: "rep key s ?q ?u" using assms(4,5) leaf by auto
  have fr: "same_shape {r} s ?s2" using s1(2) by (simp add: same_shape_def)
  have rep2: "rep key ?s2 ?q ?u"
  proof (rule rep_frame [OF fr _ rep0])
    show "set (refs ?u) \<inter> {r} = {}" using assms(7,8) by simp
    fix i m assume im: "i \<in> set (refs ?u)" "nodes s i = Some m"
    then have "h_data m \<noteq> h_data n"
      using assms(1,7,8,9) unfolding data_inj_def by (fastforce split: if_splits)
    then show "key ?s2 (h_data m) = key s (h_data m)" by (rule keys)
  qed
  have "h_data n \<in> datas s \<langle>l, (r, k), t\<rangle>"
    using assms(1) by (auto simp: datas_def)
  moreover have "same_shape (set (refs \<langle>l, (r, k), t\<rangle>)) s ?s2"
    using s1(2) by (simp add: same_shape_def)
  ultimately have "del_frame s ?s2 \<langle>l, (r, k), t\<rangle>"
    using keys unfolding del_frame_def by metis
  moreover have "destroyed k s ?s2 \<langle>l, (r, k), t\<rangle> ?u"
    by (rule destroyed_root [OF assms(1-3)]) (use assms(7,8) s1(2,4) in \<open>auto split: if_splits\<close>)
  ultimately show ?thesis using run rep2 by blast
qed

lemma delete_root_min:
  assumes "nodes s r = Some n" "h_data n \<noteq> None" "key s (h_data n) = Some k"
    "rep key s (h_left n) l" "rep key s (h_right n) \<langle>\<langle>\<rangle>, (i, k'), u\<rangle>" "l \<noteq> \<langle>\<rangle>"
    "distinct (refs \<langle>l, (r, k), \<langle>\<langle>\<rangle>, (i, k'), u\<rangle>\<rangle>)" "data_inj s \<langle>l, (r, k), \<langle>\<langle>\<rangle>, (i, k'), u\<rangle>\<rangle>"
  shows "\<exists>q s'. delete_root destroy (Some r) s = Some (q, s') \<and>
     rep key s' q \<langle>l, (i, k'), u\<rangle> \<and> del_frame s s' \<langle>l, (r, k), \<langle>\<langle>\<rangle>, (i, k'), u\<rangle>\<rangle> \<and>
     destroyed k s s' \<langle>l, (r, k), \<langle>\<langle>\<rangle>, (i, k'), u\<rangle>\<rangle> \<langle>l, (i, k'), u\<rangle>"
proof -
  let ?t = "\<langle>l, (r, k), \<langle>\<langle>\<rangle>, (i, k'), u\<rangle>\<rangle>"
  obtain s1 where s1: "destroy (h_data n) s = Some s1" "nodes s1 = nodes s"
    "\<forall>e. e \<noteq> h_data n \<longrightarrow> key s1 e = key s e" "files s1 = (files s)(the (h_data n) := None)"
    using destroy [OF assms(3,2)] by blast
  obtain m where m: "h_right n = Some i" "nodes s i = Some m" "h_data m \<noteq> None" "key s (h_data m) = Some k'"
    "h_left m = None" "rep key s (h_right m) u"
    using assms(5) by (auto split: option.splits)
  have left: "h_left n \<noteq> None" using assms(4,6) by (cases l) auto
  have apart: "i \<noteq> r" "i \<notin> set (refs l)" "i \<notin> set (refs u)" "r \<notin> set (refs l)" "r \<notin> set (refs u)"
    using assms(7) by auto
  have keys: "key s1 (h_data m') = key s (h_data m')"
    if "j \<in> set (refs ?t)" "j \<noteq> r" "nodes s j = Some m'" for j m'
  proof -
    have "h_data m' \<noteq> h_data n" using assms(1,8) that unfolding data_inj_def by (metis fst_conv in_set_conv_decomp refs_simps(2))
    then show ?thesis using s1(3) by simp
  qed
  define s2 where "s2 = s1\<lparr>nodes := (nodes s1)(i \<mapsto> m\<lparr>h_left := h_left n\<rparr>)\<rparr>"
  have keys2: "key s2 e = key s1 e" for e by (rule key_files) (simp add: s2_def)
  have fr: "same_shape {i} s s2" using s1(2) by (auto simp: s2_def same_shape_def)
  have "rep key s2 (h_left n) l"
    by (rule rep_frame [OF fr _ assms(4)]) (use apart keys keys2 in auto)
  moreover have "rep key s2 (h_right m) u"
    by (rule rep_frame [OF fr _ m(6)]) (use apart keys keys2 in auto)
  moreover have "key s2 (h_data m) = Some k'" using keys [of i m] m(2,4) apart(1) keys2 by simp
  ultimately obtain s3 x where s3: "update_size (Some i) s2 = Some s3" "rep key s3 (Some i) \<langle>l, (i, k'), u\<rangle>"
    "s3 = s2\<lparr>nodes := (nodes s2)(i \<mapsto> x)\<rparr>" "h_data x = h_data m"
    using update_size_rep [of s2 i "m\<lparr>h_left := h_left n\<rparr>" k' l u] m(3) apart by (auto simp: s2_def)
  define s4 where "s4 = s3\<lparr>nodes := (nodes s3)(r := None)\<rparr>"
  have r3: "nodes s3 r = Some n" using assms(1) apart(1) s1(2) by (simp add: s3(3) s2_def)
  have keys4: "key s4 e = key s1 e" for e
    using keys2 [of e] key_files [of s4 s3] key_files [of s3 s2] by (simp add: s4_def s3(3))
  have fr4: "same_shape {r} s3 s4" unfolding s4_def by (rule same_shape_upd) simp
  have "rep key s4 (Some i) \<langle>l, (i, k'), u\<rangle>"
    by (rule rep_frame [OF fr4 _ s3(2)])
       (use apart key_files [of s4 s3] in \<open>auto simp: s4_def\<close>)
  moreover have "delete_root destroy (Some r) s = Some (Some i, s4)"
    using assms(1,2) s1(1,2) left m(1,2,5) s3(1) r3
    by (subst delete_root.simps) (auto simp: is_minimum_def free_node_def s2_def s4_def)
  moreover have "del_frame s s4 ?t"
  proof -
    have "h_data n \<in> datas s ?t" using assms(1) by (auto simp: datas_def)
    moreover have "same_shape (set (refs ?t)) s s4"
      using s1(2) by (auto simp: s4_def s3(3) s2_def same_shape_def)
    ultimately show ?thesis using s1(3) keys4 unfolding del_frame_def by metis
  qed
  moreover have "destroyed k s s4 ?t \<langle>l, (i, k'), u\<rangle>"
    by (rule destroyed_root [OF assms(1-3)]) (use apart s1(2,4) m(2) s3(4) in \<open>auto simp: s4_def s3(3) s2_def\<close>)
  ultimately show ?thesis by blast
qed

lemma del_frame_refl: "nodes s' = nodes s \<Longrightarrow> files s' = files s \<Longrightarrow> del_frame s s' t"
  using key_files [of s' s] by (simp add: del_frame_def)

lemma data_inj_sub:
  "data_inj s t \<Longrightarrow> set (refs u) \<subseteq> set (refs t) \<Longrightarrow> data_inj s u"
  unfolding data_inj_def by (meson subsetD)

lemma datas_apart:
  assumes "data_inj s v" "i \<in> set (refs v)" "nodes s i = Some n" "set (refs u) \<subseteq> set (refs v) - {i}"
  shows "h_data n \<notin> datas s u"
proof
  assume "h_data n \<in> datas s u"
  then obtain j m where j: "j \<in> set (refs u)" "nodes s j = Some m" "h_data m = h_data n"
    by (auto simp: datas_def)
  then have "j \<in> set (refs v)" "j \<noteq> i" using assms(4) by auto
  then show False using assms(1-3) j(2,3) unfolding data_inj_def by metis
qed

text \<open>The deletion of the root of the represented tree.\<close>

lemma delete_at_root:
  assumes "rep key s (Some r) \<langle>l, (r, k), t\<rangle>" "distinct (refs \<langle>l, (r, k), t\<rangle>)"
    "data_inj s \<langle>l, (r, k), t\<rangle>"
  shows "case del k \<langle>l, (r, k), t\<rangle> of
      None \<Rightarrow> delete_root destroy (Some r) s = None
    | Some t' \<Rightarrow> \<exists>q s'. delete_root destroy (Some r) s = Some (q, s') \<and> rep key s' q t' \<and>
        del_frame s s' \<langle>l, (r, k), t\<rangle> \<and> destroyed k s s' \<langle>l, (r, k), t\<rangle> t'"
proof -
  obtain n where n: "nodes s r = Some n" "h_data n \<noteq> None" "key s (h_data n) = Some k"
    "rep key s (h_left n) l" "rep key s (h_right n) t"
    using assms(1) by (auto split: option.splits)
  have fresh: "r \<notin> set (refs l)" "r \<notin> set (refs t)" using assms(2) by auto
  show ?thesis
  proof (cases "l = \<langle>\<rangle> \<or> t = \<langle>\<rangle>")
    case True
    then have "del k \<langle>l, (r, k), t\<rangle> = Some (if l = \<langle>\<rangle> then t else l)" by auto
    then show ?thesis using delete_root_leaf [OF n True fresh assms(3)] by (simp only: option.case)
  next
    case False
    then obtain a y u where t: "t = \<langle>a, y, u\<rangle>" by (cases t) auto
    obtain i k' where y: "y = (i, k')" by fastforce
    show ?thesis
    proof (cases a)
      case Leaf
      then have "del k \<langle>l, (r, k), t\<rangle> = Some \<langle>l, (i, k'), u\<rangle>" using False t y by simp
      moreover have "\<exists>q s'. delete_root destroy (Some r) s = Some (q, s') \<and>
          rep key s' q \<langle>l, (i, k'), u\<rangle> \<and> del_frame s s' \<langle>l, (r, k), t\<rangle> \<and>
          destroyed k s s' \<langle>l, (r, k), t\<rangle> \<langle>l, (i, k'), u\<rangle>"
        unfolding t y Leaf
        by (rule delete_root_min [OF n(1-4)]) (use n(5) assms(2,3) False t y Leaf in auto)
      ultimately show ?thesis by (simp only: option.case)
    next
      case (Node b z c)
      then obtain m where m: "h_right n = Some i" "nodes s i = Some m" "h_left m \<noteq> None"
        using n(5) t y by (cases z) (auto split: option.splits)
      have "h_left n \<noteq> None" using n(4) False by (cases l) auto
      then have "delete_root destroy (Some r) s = None" by (rule delete_root_twice [OF n(1-3) _ m])
      moreover have "del k \<langle>l, (r, k), t\<rangle> = None" using False t y Node by simp
      ultimately show ?thesis by (simp only: option.case)
    qed
  qed
qed

text \<open>Unlinking a node from the hierarchy keeps the tree.\<close>

lemma unlink_keeps:
  assumes "same_shape {} s s0" "files s0 = files s"
  shows "rep key s p t \<Longrightarrow> rep key s0 p t" "data_inj s t \<Longrightarrow> data_inj s0 t" "datas s0 t = datas s t"
    "del_frame s0 s' t \<Longrightarrow> del_frame s s' t" "destroyed k s0 s' t t' \<Longrightarrow> destroyed k s s' t t'"
proof -
  show "rep key s p t \<Longrightarrow> rep key s0 p t"
    by (erule rep_frame [OF assms(1), rotated 1]) (simp_all add: key_files [OF assms(2)])
  have d: "(\<exists>m. nodes s0 i = Some m \<and> h_data m = e) \<longleftrightarrow> (\<exists>m. nodes s i = Some m \<and> h_data m = e)" for i e
  proof -
    have "map_option shape (nodes s0 i) = map_option shape (nodes s i)"
      using assms(1) by (simp add: same_shape_def)
    then show ?thesis by (cases "nodes s i"; cases "nodes s0 i") (auto simp: shape_def)
  qed
  have d2: "map_option h_data (nodes s0 i) = map_option h_data (nodes s i)" for i
    using d [of i "h_data (the (nodes s i))"] d [of i "h_data (the (nodes s0 i))"]
    by (cases "nodes s i"; cases "nodes s0 i") auto
  have d3: "(\<exists>i n d. i \<in> R \<and> nodes s0 i = Some n \<and> h_data n = Some d \<and> P d) \<longleftrightarrow>
      (\<exists>i n d. i \<in> R \<and> nodes s i = Some n \<and> h_data n = Some d \<and> P d)" for R and P :: "nat \<Rightarrow> bool"
  proof -
    have "(\<exists>i n d. i \<in> R \<and> nodes x i = Some n \<and> h_data n = Some d \<and> P d) \<longleftrightarrow>
        (\<exists>i d. i \<in> R \<and> map_option h_data (nodes x i) = Some (Some d) \<and> P d)" for x :: "'a hstate_scheme"
      by auto
    then show ?thesis by (simp only: d2)
  qed
  have "data_inj s' t \<longleftrightarrow> (\<forall>i j e. i \<in> set (refs t) \<and> j \<in> set (refs t) \<and> i \<noteq> j \<longrightarrow>
      \<not> ((\<exists>m. nodes s' i = Some m \<and> h_data m = e) \<and> (\<exists>m. nodes s' j = Some m \<and> h_data m = e)))"
    for s' :: "'a hstate_scheme" by (auto simp: data_inj_def)
  then show "data_inj s t \<Longrightarrow> data_inj s0 t" by (simp only: d) 
  have "datas s' t = {e. \<exists>i\<in>set (refs t). \<exists>m. nodes s' i = Some m \<and> h_data m = e}"
    for s' :: "'a hstate_scheme" by (auto simp: datas_def)
  then show dat: "datas s0 t = datas s t" by (simp only: d)
  show "del_frame s0 s' t \<Longrightarrow> del_frame s s' t"
    using assms(1) key_files [OF assms(2)] dat unfolding del_frame_def same_shape_def by simp
  show "destroyed k s0 s' t t' \<Longrightarrow> destroyed k s s' t t'"
    unfolding destroyed_def d2 assms(2) key_files [OF assms(2)] d3 .
qed

text \<open>A node above the deletion: one of its subtrees was replaced.\<close>

lemma delete_in_side:
  assumes "nodes s r = Some n" "h_data n \<noteq> None" "key s (h_data n) = Some k1"
    "rep key s (h_left n) l" "rep key s (h_right n) t" "distinct (refs \<langle>l, (r, k1), t\<rangle>)"
    "data_inj s \<langle>l, (r, k1), t\<rangle>" "u = (if rgt then t else l)" "w = (if rgt then l else t)"
    "rep key s1 q u'" "del_frame s s1 u" "set (refs u') \<subseteq> set (refs u)"
  shows "\<exists>s'. do { s \<leftarrow> upd_node (Some r) (if rgt then h_right_update (\<lambda>_. q) else h_left_update (\<lambda>_. q)) s1;
        update_size (Some r) s } = Some s' \<and>
     rep key s' (Some r) (if rgt then \<langle>l, (r, k1), u'\<rangle> else \<langle>u', (r, k1), t\<rangle>) \<and>
     del_frame s s' \<langle>l, (r, k1), t\<rangle> \<and>
     (destroyed k s s1 u u' \<longrightarrow> destroyed k s s' \<langle>l, (r, k1), t\<rangle> (if rgt then \<langle>l, (r, k1), u'\<rangle> else \<langle>u', (r, k1), t\<rangle>))"
proof -
  let ?v = "\<langle>l, (r, k1), t\<rangle>"
  have apart: "r \<notin> set (refs u)" "r \<notin> set (refs w)" "set (refs w) \<inter> set (refs u) = {}"
    "set (refs u) \<subseteq> set (refs ?v)" "set (refs w) \<subseteq> set (refs ?v)"
    using assms(6,8,9) by (auto split: if_splits)
  have ks: "key s1 (h_data m) = key s (h_data m)"
    if "i \<in> insert r (set (refs w))" "nodes s i = Some m" for i m
  proof -
    have "i \<in> set (refs ?v)" "set (refs u) \<subseteq> set (refs ?v) - {i}" using that(1) apart by auto
    from datas_apart [OF assms(7) this(1) that(2) this(2)] assms(11) show ?thesis
      by (simp add: del_frame_def)
  qed
  have fr: "same_shape (set (refs u)) s s1" using assms(11) by (simp add: del_frame_def)
  have rq: "r \<notin> set (refs u')" using assms(12) apart(1) by auto
  have rw: "rep key s (if rgt then h_left n else h_right n) w" using assms(4,5,9) by simp
  have "\<exists>s' m. do { s \<leftarrow> upd_node (Some r) (if rgt then h_right_update (\<lambda>_. q) else h_left_update (\<lambda>_. q)) s1;
        update_size (Some r) s } = Some s' \<and>
      rep key s' (Some r) (if rgt then \<langle>w, (r, k1), u'\<rangle> else \<langle>u', (r, k1), w\<rangle>) \<and>
      s' = s1\<lparr>nodes := (nodes s1)(r \<mapsto> m)\<rparr> \<and> h_data m = h_data n"
    by (rule replace_side [OF _ fr assms(1) apart(1) assms(2,3,10) rq rw]) (rule ks, assumption+, (rule apart)+)
  then obtain s' m where s': "do { s \<leftarrow> upd_node (Some r) (if rgt then h_right_update (\<lambda>_. q) else h_left_update (\<lambda>_. q)) s1;
        update_size (Some r) s } = Some s'"
      "rep key s' (Some r) (if rgt then \<langle>w, (r, k1), u'\<rangle> else \<langle>u', (r, k1), w\<rangle>)"
      "s' = s1\<lparr>nodes := (nodes s1)(r \<mapsto> m)\<rparr>" "h_data m = h_data n" by blast
  have "del_frame s s' ?v"
    by (rule del_frame_upd [OF del_frame_mono [OF assms(11) apart(4)], of r]) (simp_all add: s'(3))
  moreover have "rep key s' (Some r) (if rgt then \<langle>l, (r, k1), u'\<rangle> else \<langle>u', (r, k1), t\<rangle>)"
    using s'(2) assms(9) by (cases rgt) simp_all
  moreover have "destroyed k s s' ?v (if rgt then \<langle>l, (r, k1), u'\<rangle> else \<langle>u', (r, k1), t\<rangle>)"
    if "destroyed k s s1 u u'"
    by (rule destroyed_above [OF that fr assms(1) s'(4,3) apart(1,3) assms(12)])
       (use assms(8,9) in \<open>auto split: if_splits\<close>)
  ultimately show ?thesis using s'(1) by blast
qed

lemma delete_refines:
  "rep key s p t \<Longrightarrow> distinct (refs t) \<Longrightarrow> data_inj s t \<Longrightarrow> \<forall>i\<in>set (refs t). hier_ok s i \<Longrightarrow>
    case del k t of
      None \<Rightarrow> h_tree_delete cmp_key destroy p (Some k) s = None
    | Some t' \<Rightarrow> \<exists>q s'. h_tree_delete cmp_key destroy p (Some k) s = Some (q, s') \<and>
        rep key s' q t' \<and> del_frame s s' t \<and> destroyed k s s' t t'"
proof (induction t arbitrary: p)
  case Leaf
  then show ?case by (subst h_tree_delete.simps) (simp add: del_frame_refl destroyed_def)
next
  case (Node l x t)
  obtain r k1 where x: "x = (r, k1)" by fastforce
  obtain n where n: "nodes s r = Some n" "h_data n \<noteq> None" "key s (h_data n) = Some k1"
    "rep key s (h_left n) l" "rep key s (h_right n) t" and p: "p = Some r"
    using Node.prems(1) x by (auto split: option.splits)
  obtain c where c: "cmp_key s (h_data n) k = Some c" "c < 0 \<longleftrightarrow> k1 < k" "c > 0 \<longleftrightarrow> k < k1"
    using cmp_key [OF n(3), of k] by blast
  have inj: "data_inj s l" "data_inj s t" using data_inj_sub [OF Node.prems(3)] by auto
  note side = delete_in_side [where k = k, OF n Node.prems(2,3) [unfolded x]]
  have step: "h_tree_delete cmp_key destroy p (Some k) s =
      (if c = 0 then do { s \<leftarrow> remove_child_from_h (Some r) s; delete_root destroy (Some r) s }
       else do {
         s \<leftarrow> (if c < 0 then do {
              (rgt, s) \<leftarrow> h_tree_delete cmp_key destroy (h_right n) (Some k) s;
              upd_node (Some r) (\<lambda>n. n\<lparr>h_right := rgt\<rparr>) s }
            else do {
              (lft, s) \<leftarrow> h_tree_delete cmp_key destroy (h_left n) (Some k) s;
              upd_node (Some r) (\<lambda>n. n\<lparr>h_left := lft\<rparr>) s });
         s \<leftarrow> update_size (Some r) s;
         Some (Some r, s) })"
    using n(1) p c(1) by (subst h_tree_delete.simps) simp
  consider "k1 < k" | "k < k1" | "k1 = k" by fastforce
  then show ?case
  proof cases
    case 1
    then have c0: "c < 0" "c \<noteq> 0" using c by auto
    have "distinct (refs t)" "\<forall>i\<in>set (refs t). hier_ok s i" using Node.prems(2,4) by auto
    note IH = Node.IH(2) [OF n(5) this(1) inj(2) this(2)]
    show ?thesis
    proof (cases "del k t")
      case None
      then show ?thesis using IH step 1 c0 x by simp
    next
      case (Some t')
      then obtain q s1 where q: "h_tree_delete cmp_key destroy (h_right n) (Some k) s = Some (q, s1)"
        "rep key s1 q t'" "del_frame s s1 t" "destroyed k s s1 t t'" using IH by auto
      obtain s' where s': "do { s \<leftarrow> upd_node (Some r) (h_right_update (\<lambda>_. q)) s1; update_size (Some r) s } = Some s'"
        "rep key s' (Some r) \<langle>l, (r, k1), t'\<rangle>" "del_frame s s' \<langle>l, (r, k1), t\<rangle>"
        "destroyed k s s' \<langle>l, (r, k1), t\<rangle> \<langle>l, (r, k1), t'\<rangle>"
        using side [of t True l s1 q t'] q(2-4) del_refs [OF Some] by (simp only: if_True) blast
      have "h_tree_delete cmp_key destroy p (Some k) s = Some (Some r, s')"
        using step c0 q(1) s'(1) by (auto simp: bind_eq_Some_conv)
      moreover have "del k \<langle>l, x, t\<rangle> = Some \<langle>l, (r, k1), t'\<rangle>" using 1 Some x by simp
      ultimately show ?thesis using s'(2-4) x by (simp only: option.case) blast
    qed
  next
    case 2
    then have c0: "\<not> c < 0" "c \<noteq> 0" "\<not> k1 < k" using c by auto
    have "distinct (refs l)" "\<forall>i\<in>set (refs l). hier_ok s i" using Node.prems(2,4) by auto
    note IH = Node.IH(1) [OF n(4) this(1) inj(1) this(2)]
    show ?thesis
    proof (cases "del k l")
      case None
      then show ?thesis using IH step 2 c0 x by simp
    next
      case (Some t')
      then obtain q s1 where q: "h_tree_delete cmp_key destroy (h_left n) (Some k) s = Some (q, s1)"
        "rep key s1 q t'" "del_frame s s1 l" "destroyed k s s1 l t'" using IH by auto
      obtain s' where s': "do { s \<leftarrow> upd_node (Some r) (h_left_update (\<lambda>_. q)) s1; update_size (Some r) s } = Some s'"
        "rep key s' (Some r) \<langle>t', (r, k1), t\<rangle>" "del_frame s s' \<langle>l, (r, k1), t\<rangle>"
        "destroyed k s s' \<langle>l, (r, k1), t\<rangle> \<langle>t', (r, k1), t\<rangle>"
        using side [of l False t s1 q t'] q(2-4) del_refs [OF Some] by (simp only: if_False) blast
      have "h_tree_delete cmp_key destroy p (Some k) s = Some (Some r, s')"
        using step c0 q(1) s'(1) by (auto simp: bind_eq_Some_conv)
      moreover have "del k \<langle>l, x, t\<rangle> = Some \<langle>t', (r, k1), t\<rangle>" using 2 c0 Some x by simp
      ultimately show ?thesis using s'(2-4) x by (simp only: option.case) blast
    qed
  next
    case 3
    have "hier_ok s r" using Node.prems(4) x by simp
    then obtain s0 where s0: "remove_child_from_h (Some r) s = Some s0" "same_shape {} s s0"
      "files s0 = files s" using remove_child_ok by blast
    have run: "h_tree_delete cmp_key destroy p (Some k) s = delete_root destroy (Some r) s0"
      using step c 3 s0(1) by simp
    note at = delete_at_root [OF unlink_keeps(1) [OF s0(2,3) Node.prems(1) [unfolded p x]]
        Node.prems(2) [unfolded x] unlink_keeps(2) [OF s0(2,3) Node.prems(3) [unfolded x]]]
    show ?thesis
    proof (cases "del k \<langle>l, x, t\<rangle>")
      case None
      then show ?thesis using at x 3 run by (simp only: option.case)
    next
      case (Some t')
      then have "\<exists>q s'. delete_root destroy (Some r) s0 = Some (q, s') \<and> rep key s' q t' \<and>
          del_frame s0 s' \<langle>l, x, t\<rangle> \<and> destroyed k s0 s' \<langle>l, x, t\<rangle> t'" using at x 3 by (simp only: option.case)
      then show ?thesis using Some run unlink_keeps(4,5) [OF s0(2,3)] by (simp only: option.case) blast
    qed
  qed
qed

end

end
