(* ===== verification/Fat_Tree.thy ===== *)
theory Fat_Tree
  imports H_Tree "HOL-Library.List_Lexorder"
begin

text \<open>
  The directory tree, \<open>lab4/esqueleto/fat_fs_tree.c\<close>: the hierarchy tree with the functions for
  file objects put in. A \<open>fat_tree\<close> is a pointer to a structure that holds the root pointer and
  the three functions, which are always the same: it is modelled by \<open>None\<close> (the null pointer) or
  the root pointer.
\<close>

section \<open>The code\<close>

type_synonym fat_tree = "nat option option"

definition file_key :: "'a fstate_scheme \<Rightarrow> nat option \<Rightarrow> u8 list option" where
  "file_key s d = map_option filepath (get_file s d)"

definition file_cmp :: "'a hstate_scheme \<Rightarrow> nat option \<Rightarrow> nat option \<Rightarrow> int option" where
  "file_cmp s d e = do { f \<leftarrow> get_file s d; g \<leftarrow> get_file s e; Some (fat_file_cmp f g) }"

definition file_cmp_key :: "'a hstate_scheme \<Rightarrow> nat option \<Rightarrow> u8 list \<Rightarrow> int option" where
  "file_cmp_key s d k = do { f \<leftarrow> get_file s d; Some (fat_file_cmp_path f k) }"

definition fat_tree_init :: fat_tree where
  "fat_tree_init = Some None"

definition fat_tree_destroy :: "fat_tree \<Rightarrow> 'a hstate_scheme \<Rightarrow> 'a hstate_scheme option" where
  "fat_tree_destroy tree s = (case tree of None \<Rightarrow> Some s
     | Some root \<Rightarrow> if root \<noteq> None then h_tree_destroy fat_file_destroy root s else Some s)"

definition fat_tree_size :: "fat_tree \<Rightarrow> 'a hstate_scheme \<Rightarrow> int option" where
  "fat_tree_size tree s = (case tree of None \<Rightarrow> Some (-1) | Some root \<Rightarrow> h_tree_size root s)"

definition fat_tree_insert :: "fat_tree \<Rightarrow> nat option \<Rightarrow> nat option \<Rightarrow> 'a hstate_scheme \<Rightarrow>
    (fat_tree \<times> 'a hstate_scheme) option" where
  "fat_tree_insert tree parent new_file s = (case tree of
       None \<Rightarrow> Some (None, s\<lparr>errno := EINVAL\<rparr>)
     | Some root \<Rightarrow>
         if new_file = None then Some (None, s\<lparr>errno := EINVAL\<rparr>)
         else do {
           (root, s) \<leftarrow> h_tree_insert file_cmp root new_file parent s;
           Some (Some root, s) })"

definition fat_tree_node_search :: "fat_tree \<Rightarrow> u8 list \<Rightarrow> 'a hstate_scheme \<Rightarrow>
    (nat option \<times> 'a hstate_scheme) option" where
  "fat_tree_node_search tree k s = do {
     root \<leftarrow> tree;
     h_tree_search file_cmp_key root (Some k) s }"

definition fat_tree_search :: "fat_tree \<Rightarrow> u8 list \<Rightarrow> 'a hstate_scheme \<Rightarrow>
    (nat option \<times> 'a hstate_scheme) option" where
  "fat_tree_search tree k s =
     (if tree = None \<or> tree = Some None then Some (None, s)
      else do { (node, s) \<leftarrow> fat_tree_node_search tree k s; h_tree_get_data node s })"

definition fat_tree_get_file :: "nat option \<Rightarrow> 'a hstate_scheme \<Rightarrow>
    (nat option \<times> 'a hstate_scheme) option" where
  "fat_tree_get_file node s = h_tree_get_data node s"

definition fat_tree_get_parent :: "nat option \<Rightarrow> 'a hstate_scheme \<Rightarrow>
    (nat option \<times> 'a hstate_scheme) option" where
  "fat_tree_get_parent node s = do { p \<leftarrow> h_tree_get_h_parent node s; h_tree_get_data p s }"

definition fat_tree_inc_num_times_opened ::
  "nat option \<Rightarrow> 'a hstate_scheme \<Rightarrow> 'a hstate_scheme option" where
  "fat_tree_inc_num_times_opened node s =
     h_tree_iterate_h_ancestors fat_file_inc_num_times_opened node s"

definition fat_tree_dec_num_times_opened ::
  "nat option \<Rightarrow> 'a hstate_scheme \<Rightarrow> 'a hstate_scheme option" where
  "fat_tree_dec_num_times_opened node s =
     h_tree_iterate_h_ancestors fat_file_dec_num_times_opened node s"

definition fat_tree_delete :: "fat_tree \<Rightarrow> u8 list \<Rightarrow> 'a hstate_scheme \<Rightarrow>
    (fat_tree \<times> 'a hstate_scheme) option" where
  "fat_tree_delete tree k s = (case tree of
       None \<Rightarrow> Some (None, s\<lparr>errno := EINVAL\<rparr>)
     | Some root \<Rightarrow>
         if root = None then Some (tree, s)
         else do {
           (root, s) \<leftarrow> h_tree_delete file_cmp_key fat_file_destroy root (Some k) s;
           Some (Some root, s) })"

definition fat_tree_iterate_preorder ::
  "(nat option \<Rightarrow> 'a hstate_scheme \<Rightarrow> 'a hstate_scheme option) \<Rightarrow> fat_tree \<Rightarrow>
   'a hstate_scheme \<Rightarrow> 'a hstate_scheme option" where
  "fat_tree_iterate_preorder mod_fn tree s =
     (case tree of None \<Rightarrow> Some s | Some root \<Rightarrow> h_tree_iterate_preorder mod_fn root s)"

text \<open>Arrays that the caller owns: \<open>None\<close> inside the option is the null pointer.\<close>

definition fat_tree_flatten_preorder ::
  "fat_tree \<Rightarrow> 'a hstate_scheme \<Rightarrow> nat option list option option" where
  "fat_tree_flatten_preorder tree s = (case tree of None \<Rightarrow> Some None
     | Some root \<Rightarrow> do {
         n \<leftarrow> h_tree_size root s;
         if n = 0 then Some None
         else do {
           a \<leftarrow> h_tree_flatten_preorder s root (replicate (nat n) None) 0;
           Some (Some a) } })"

definition fat_tree_flatten_h_children ::
  "nat option \<Rightarrow> 'a hstate_scheme \<Rightarrow> nat option list option option" where
  "fat_tree_flatten_h_children dir_node s =
     (if dir_node = None then Some None
      else do {
        n \<leftarrow> h_tree_size dir_node s;
        if n = 0 then Some None
        else do {
          (d, s) \<leftarrow> fat_tree_get_file dir_node s;
          f \<leftarrow> get_file s d;
          a \<leftarrow> h_tree_flatten_h_children s dir_node (replicate (unat (nentries f) + 1) None);
          Some (Some a) } })"

section \<open>The order of paths\<close>

lemma strcmp_order:
  "strcmp a b < 0 \<longleftrightarrow> a < b" "strcmp a b > 0 \<longleftrightarrow> b < a"
  by (induction a b rule: strcmp.induct) auto

lemma file_cmp_sign:
  "file_key s d = Some k \<Longrightarrow> file_key s e = Some k' \<Longrightarrow>
   \<exists>c. file_cmp s d e = Some c \<and> (c < 0 \<longleftrightarrow> k < k') \<and> (c > 0 \<longleftrightarrow> k' < k)"
  by (auto simp: file_key_def file_cmp_def fat_file_cmp_def strcmp_order)

lemma file_cmp_key_sign:
  "file_key s d = Some k \<Longrightarrow>
   \<exists>c. file_cmp_key s d k' = Some c \<and> (c < 0 \<longleftrightarrow> k < k') \<and> (c > 0 \<longleftrightarrow> k' < k)"
  by (auto simp: file_key_def file_cmp_key_def fat_file_cmp_path_def strcmp_order)

lemma file_destroy_law:
  fixes s :: "'a hstate_scheme"
  assumes "file_key s d = Some k" "d \<noteq> None"
  shows "\<exists>s'. fat_file_destroy d s = Some s' \<and> nodes s' = nodes s \<and> next_node s' = next_node s \<and>
     files s' = (files s)(the d := None) \<and>
     (\<forall>e. e \<noteq> d \<longrightarrow> file_key s' e = file_key s e) \<and>
     (\<forall>s'' :: 'a hstate_scheme. files s'' = files s' \<longrightarrow> fat_file_destroy d s'' = None)"
  using assms
  by (auto simp: file_key_def get_file_def fat_file_destroy_def split: option.splits)

text \<open>The functions of the driver meet the contract of the tree.\<close>

interpretation ft: h_files file_key file_cmp_key file_cmp fat_file_destroy
proof unfold_locales
  fix s s' :: "'a hstate_scheme" and d assume "files s' = files s"
  then show "file_key s' d = file_key s d" by (simp add: file_key_def get_file_def split: option.split)
qed (use file_cmp_key_sign file_cmp_sign file_destroy_law in blast)+

section \<open>The tree of files as a finite set of paths\<close>

text \<open>The heap holds the search tree \<open>t\<close>, ordered by path, with distinct nodes and files.\<close>

definition tree_ok :: "'a hstate_scheme \<Rightarrow> nat option \<Rightarrow> (nat \<times> u8 list) tree \<Rightarrow> bool" where
  "tree_ok s root t \<longleftrightarrow> rep file_key s root t \<and> bst (map_tree snd t) \<and> distinct (refs t)"

definition paths :: "(nat \<times> u8 list) tree \<Rightarrow> u8 list set" where
  "paths t = snd ` set_tree t"

text \<open>Nodes have distinct files and can be unlinked from their parents.\<close>

definition tree_linked :: "'a hstate_scheme \<Rightarrow> (nat \<times> u8 list) tree \<Rightarrow> bool" where
  "tree_linked s t \<longleftrightarrow> data_inj s t \<and> (\<forall>i\<in>set (refs t). hier_ok s i)"

text \<open>An example: the root directory with the files \<open>/b\<close>, \<open>/a\<close>, \<open>/d\<close> and \<open>/c\<close>, inserted in this order.\<close>

definition named_file :: "u8 list \<Rightarrow> fat_file_s" where
  "named_file p = small_file\<lparr>filepath := p\<rparr>"

definition demo_node :: "nat \<Rightarrow> nat option \<Rightarrow> nat option \<Rightarrow> nat option \<Rightarrow> int \<Rightarrow> h_node" where
  "demo_node d l r nxt n = \<lparr>h_data = Some d, h_right = r, h_left = l, h_parent = Some 0,
     h_next_sibling = nxt, h_children = None, h_size = n\<rparr>"

definition demo :: hstate where
  "demo = fstate.extend
     (small_fs\<lparr>files := [0 \<mapsto> small_dir, 1 \<mapsto> named_file [0x2F, 0x62], 2 \<mapsto> named_file [0x2F, 0x61],
        3 \<mapsto> named_file [0x2F, 0x64], 4 \<mapsto> named_file [0x2F, 0x63], 5 \<mapsto> named_file [0x2F, 0x65]],
       next_ref := 6\<rparr>)
     \<lparr>nodes = [0 \<mapsto> (demo_node 0 None (Some 1) None 5)\<lparr>h_parent := None, h_children := Some 4\<rparr>,
        1 \<mapsto> demo_node 1 (Some 2) (Some 3) None 4, 2 \<mapsto> demo_node 2 None None (Some 1) 1,
        3 \<mapsto> demo_node 3 (Some 4) None (Some 2) 2, 4 \<mapsto> demo_node 4 None None (Some 3) 1],
      next_node = 5\<rparr>"

definition demo_tree :: "(nat \<times> u8 list) tree" where
  "demo_tree = \<langle>\<langle>\<rangle>, (0, [0x2F]), \<langle>\<langle>\<langle>\<rangle>, (2, [0x2F, 0x61]), \<langle>\<rangle>\<rangle>, (1, [0x2F, 0x62]),
     \<langle>\<langle>\<langle>\<rangle>, (4, [0x2F, 0x63]), \<langle>\<rangle>\<rangle>, (3, [0x2F, 0x64]), \<langle>\<rangle>\<rangle>\<rangle>\<rangle>"

lemma demo_nodes [simp]:
  "nodes demo 0 = Some ((demo_node 0 None (Some 1) None 5)\<lparr>h_parent := None, h_children := Some 4\<rparr>)"
  "nodes demo (Suc 0) = Some (demo_node 1 (Some 2) (Some 3) None 4)"
  "nodes demo 2 = Some (demo_node 2 None None (Some 1) 1)"
  "nodes demo 3 = Some (demo_node 3 (Some 4) None (Some 2) 2)"
  "nodes demo 4 = Some (demo_node 4 None None (Some 3) 1)"
  "next_node demo = 5"
  by (simp_all add: demo_def fstate.defs)

lemma demo_node_simps [simp]:
  "h_data (demo_node d l r x n) = Some d" "h_left (demo_node d l r x n) = l"
  "h_right (demo_node d l r x n) = r" "h_next_sibling (demo_node d l r x n) = x"
  "h_size (demo_node d l r x n) = n" "h_parent (demo_node d l r x n) = Some 0"
  by (simp_all add: demo_node_def)

lemma demo_keys [simp]:
  "file_key demo (Some 0) = Some [0x2F]" "file_key demo (Some (Suc 0)) = Some [0x2F, 0x62]"
  "file_key demo (Some 2) = Some [0x2F, 0x61]" "file_key demo (Some 3) = Some [0x2F, 0x64]"
  "file_key demo (Some 4) = Some [0x2F, 0x63]" "file_key demo (Some 5) = Some [0x2F, 0x65]"
  by (simp_all add: demo_def fstate.defs file_key_def get_file_def named_file_def small_dir_def)

lemma demo_ok: "tree_ok demo (Some 0) demo_tree"
  by (simp add: tree_ok_def demo_tree_def)

lemma hier_okI:
  "nodes s c = Some n \<Longrightarrow> h_parent n = Some q \<Longrightarrow> nodes s q = Some m \<Longrightarrow> sib s (h_children m) xs \<Longrightarrow>
   distinct xs \<Longrightarrow> c \<in> set xs \<Longrightarrow> hier_ok s c"
  by (auto simp: hier_ok_def)

lemma demo_linked: "tree_linked demo demo_tree"
proof -
  have s: "sib demo (Some 4) [4, 3, 2, 1]" by simp
  have r: "i = 0 \<or> i \<in> {1, 2, 3, 4}" if "i \<in> set (refs demo_tree)" for i
    using that by (auto simp: demo_tree_def)
  have n: "\<exists>n. nodes demo i = Some n \<and> h_data n = Some i \<and>
      (h_parent n = (if i = 0 then None else Some 0))" if "i \<in> set (refs demo_tree)" for i
    using that by (simp add: demo_tree_def) (elim disjE; simp)
  have "data_inj demo demo_tree"
  proof (unfold data_inj_def, intro allI impI, elim conjE)
    fix i j and a b assume ij: "i \<in> set (refs demo_tree)" "j \<in> set (refs demo_tree)" "i \<noteq> j"
      "nodes demo i = Some a" "nodes demo j = Some b"
    have "h_data a = Some i" "h_data b = Some j" using n [OF ij(1)] n [OF ij(2)] ij(4,5) by auto
    then show "h_data a \<noteq> h_data b" using ij(3) by simp
  qed
  moreover have "hier_ok demo i" if i: "i \<in> set (refs demo_tree)" for i
  proof (cases "i = 0")
    case True
    then show ?thesis by (simp add: hier_ok_def)
  next
    case False
    then have "i \<in> set [4, 3, 2, 1]" using r [OF i] by auto
    define m where "m = (demo_node 0 None (Some 1) None 5)\<lparr>h_parent := None, h_children := Some 4\<rparr>"
    have "nodes demo 0 = Some m" "sib demo (h_children m) [4, 3, 2, 1]" "distinct [4, 3, 2, 1 :: nat]"
      using s by (simp_all add: m_def)
    moreover obtain a where "nodes demo i = Some a" "h_parent a = Some 0"
      using n [OF i] False by (simp only: if_False) blast
    ultimately show ?thesis using \<open>i \<in> set [4, 3, 2, 1]\<close> hier_okI by blast
  qed
  ultimately show ?thesis by (simp add: tree_linked_def)
qed

section \<open>Correctness of the directory tree\<close>

text \<open>
  C26. Searching the tree of files for a path returns, without changing the tree or the files,
  the file whose path it is, and the null pointer when no file has this path.
\<close>

theorem fat_tree_search_correct:
  assumes "tree_ok s root t"
  shows "\<exists>q s'. fat_tree_search (Some root) k s = Some (q, s') \<and> nodes s' = nodes s \<and> files s' = files s \<and>
     (if k \<in> paths t then q \<noteq> None \<and> file_key s q = Some k else q = None)"
proof (cases "root = None")
  case True
  then have "t = \<langle>\<rangle>" using assms by (cases t) (auto simp: tree_ok_def)
  then show ?thesis using True by (simp add: fat_tree_search_def paths_def)
next
  case False
  obtain q where q: "h_tree_search file_cmp_key root (Some k) s = Some (q, s)"
    "case q of None \<Rightarrow> k \<notin> paths t | Some r \<Rightarrow> (r, k) \<in> set_tree t"
    using ft.search_finds [of s root t k] assms unfolding tree_ok_def paths_def by blast
  show ?thesis
  proof (cases q)
    case None
    then show ?thesis using q False
      by (simp add: fat_tree_search_def fat_tree_node_search_def h_tree_get_data_def)
  next
    case (Some r)
    then have r: "(r, k) \<in> set_tree t" "k \<in> paths t" using q(2) unfolding paths_def by force+
    then obtain n where "nodes s r = Some n" "h_data n \<noteq> None" "file_key s (h_data n) = Some k"
      using rep_node [of file_key s root t r k] assms by (auto simp: tree_ok_def)
    then show ?thesis using q(1) Some r(2) False
      by (simp add: fat_tree_search_def fat_tree_node_search_def h_tree_get_data_def)
  qed
qed

theorem fat_tree_search_correct_witness:
  "\<exists>q s'. fat_tree_search (Some (Some 0)) [0x2F, 0x63] demo = Some (q, s') \<and> q \<noteq> None \<and>
     file_key demo q = Some [0x2F, 0x63]"
  using fat_tree_search_correct [OF demo_ok, of "[0x2F, 0x63]"] by (auto simp: paths_def demo_tree_def)



text \<open>
  C3. Deleting a path from the tree: where the node of the path has at most one child in the search
  tree, or a right child that is a minimum, the result is again a search tree with
  exactly the other paths, each node left leads to the file object it led to, and the only change
  of the file objects is that the one of the path is freed. A path that is not there changes nothing.
\<close>

theorem fat_tree_delete_correct:
  assumes "tree_ok s (Some r) t" and "tree_linked s t" and "del k t = Some t'"
  shows "\<exists>root' s'. fat_tree_delete (Some (Some r)) k s = Some (Some root', s') \<and>
     tree_ok s' root' t' \<and> paths t' = paths t - {k} \<and>
     (\<forall>i\<in>set (refs t'). map_option h_data (nodes s' i) = map_option h_data (nodes s i)) \<and>
     (if k \<in> paths t
      then \<exists>d. Some d \<in> datas s t \<and> file_key s (Some d) = Some k \<and> files s' = (files s)(d := None)
      else t' = t \<and> files s' = files s)"
proof -
  obtain q s' where q: "h_tree_delete file_cmp_key fat_file_destroy (Some r) (Some k) s = Some (q, s')"
    "rep file_key s' q t'" "ft.destroyed k s s' t t'"
    using ft.delete_refines [of s "Some r" t k] assms by (auto simp: tree_ok_def tree_linked_def)
  have ok: "tree_ok s' q t'"
    using q(2) assms(1,3) bst_del distinct_refs_del by (auto simp: tree_ok_def)
  have rest: "paths t' = paths t - {k}"
    using set_del [OF assms(3)] assms(1) by (simp add: paths_def tree_ok_def)
  have there: "k \<in> paths t" if "i \<in> set (refs t)" "nodes s i = Some n" "file_key s (h_data n) = Some k" for i n
  proof -
    obtain k' where "(i, k') \<in> set_tree t" using \<open>i \<in> set (refs t)\<close> by (auto simp: refs_def)
    with rep_node [of file_key s "Some r" t i k'] that assms(1) show ?thesis
      by (force simp: tree_ok_def paths_def)
  qed
  have data: "\<forall>i\<in>set (refs t'). map_option h_data (nodes s' i) = map_option h_data (nodes s i)"
    using q(3) unfolding ft.destroyed_def by (rule conjunct1)
  consider "t' = t" "files s' = files s"
    | i n d where "i \<in> set (refs t)" "nodes s i = Some n" "h_data n = Some d" "file_key s (Some d) = Some k"
        "files s' = (files s)(d := None)"
    using q(3) unfolding ft.destroyed_def by blast
  then have "if k \<in> paths t
      then \<exists>d. Some d \<in> datas s t \<and> file_key s (Some d) = Some k \<and> files s' = (files s)(d := None)
      else t' = t \<and> files s' = files s"
  proof cases
    case 1
    then have "k \<notin> paths t" using rest by blast
    then show ?thesis using 1 by simp
  next
    case 2
    then have "k \<in> paths t" using there [of i n] by simp
    moreover have "Some d \<in> datas s t" unfolding datas_def using 2(1-3) by force
    ultimately show ?thesis using 2(4,5) by auto
  qed
  moreover have "fat_tree_delete (Some (Some r)) k s = Some (Some q, s')"
    using q(1) by (simp add: fat_tree_delete_def)
  ultimately show ?thesis using ok rest data by blast
qed

theorem fat_tree_delete_correct_witness:
  "\<exists>root' s' t' d. fat_tree_delete (Some (Some 0)) [0x2F, 0x64] demo = Some (Some root', s') \<and>
     tree_ok s' root' t' \<and> paths t' = {[0x2F], [0x2F, 0x61], [0x2F, 0x62], [0x2F, 0x63]} \<and>
     file_key demo (Some d) = Some [0x2F, 0x64] \<and> files s' = (files demo)(d := None)"
proof -
  obtain t' where t: "del [0x2F, 0x64] demo_tree = Some t'" by (simp add: demo_tree_def)
  have "paths demo_tree - {[0x2F, 0x64]} = {[0x2F], [0x2F, 0x61], [0x2F, 0x62], [0x2F, 0x63]}"
    by (auto simp: paths_def demo_tree_def)
  moreover have "[0x2F, 0x64] \<in> paths demo_tree" by (auto simp: paths_def demo_tree_def)
  ultimately show ?thesis using fat_tree_delete_correct [OF demo_ok demo_linked t] by auto
qed

text \<open>
  C37. Deleting a path whose node has two children and a right child that has a left child: the
  code swaps the node down and deletes it there with the same function, which destroys its file a
  second time. The run is undefined (a double free).
\<close>

theorem fat_tree_delete_double_free:
  assumes "tree_ok s (Some r) t" and "tree_linked s t" and "del k t = None"
  shows "fat_tree_delete (Some (Some r)) k s = None"
  using ft.delete_refines [of s "Some r" t k] assms
  by (simp add: tree_ok_def tree_linked_def fat_tree_delete_def)

theorem fat_tree_delete_double_free_witness:
  "fat_tree_delete (Some (Some 0)) [0x2F, 0x62] demo = None"
  by (rule fat_tree_delete_double_free [OF demo_ok demo_linked]) (simp add: demo_tree_def)

end
