(* ===== verification/Fat_Volume.thy ===== *)
theory Fat_Volume
  imports Fat_Tree
begin

text \<open>
  Mounting a volume, \<open>lab4/esqueleto/fat_volume.c\<close>: the boot sector is read and checked, the
  allocation table is mapped into memory and the tree of files starts with the root directory.

  The packed structures over the boot sector are offsets into its bytes. The state carries the
  volume record besides the allocation table, the files and the nodes. What the host decides
  (whether the calls of the system succeed, the page size, what the bit-scan instruction leaves for
  an operand of zero) is a record of its own.
\<close>

section \<open>The code\<close>

definition FAT_MOUNT_FLAG_READONLY :: u32 where "FAT_MOUNT_FLAG_READONLY = 1"
definition FAT_MOUNT_FLAG_READWRITE :: u32 where "FAT_MOUNT_FLAG_READWRITE = 2"

record fat_volume_s =
  mount_flags :: u32
  file_tree :: fat_tree
  max_allocated_files :: nat
  oem_name :: "u8 list"
  bytes_per_sector :: u16
  sector_order :: u16
  sectors_per_cluster :: u8
  sectors_per_cluster_order :: u8
  reserved_sectors :: u16
  num_tables :: u8
  max_root_entries :: u16
  media_descriptor :: u8
  total_sectors :: u32
  sectors_per_fat :: u32
  sectors_per_track :: u16
  num_heads :: u16
  hidden_sectors :: u32
  drive_description :: u16
  version :: u16
  root_dir_start_cluster :: u32
  fs_info_sector :: u16
  alt_boot_sector :: u16
  physical_drive_num :: u8
  extended_boot_sig :: u8
  volume_id :: u32
  volume_label :: "u8 list"
  fs_type :: "u8 list"

record vstate = hstate +
  vol :: fat_volume_s

record host =
  open_ok :: bool
  close_ok :: bool
  mmap_ok :: bool
  page_size :: int
  bsr_zero :: nat

definition upd_vol :: "(fat_volume_s \<Rightarrow> fat_volume_s) \<Rightarrow> 'a vstate_scheme \<Rightarrow> 'a vstate_scheme" where
  "upd_vol g s = s\<lparr>vol := g (vol s)\<rparr>"

definition bsr_on :: "host \<Rightarrow> nat \<Rightarrow> nat" where
  "bsr_on h n = (case bsr n of None \<Rightarrow> bsr_zero h | Some k \<Rightarrow> k)"

definition read_dos_2_0_bpb ::
  "host \<Rightarrow> u8 list \<Rightarrow> 'a vstate_scheme \<Rightarrow> int \<times> 'a vstate_scheme" where
  "read_dos_2_0_bpb h b s =
     (let bps = le16_val (drop 11 b);
          so = (of_nat (bsr_on h (unat bps)) :: u16);
          s = upd_vol (\<lambda>v. v\<lparr>bytes_per_sector := bps, sector_order := so\<rparr>) s
      in if \<not> is_power_of_2 (ucast bps) \<or> so < 5 \<or> so > 12 then (-1, s\<lparr>errno := EINVAL\<rparr>)
      else let spc = b ! 13;
               co = (of_nat (bsr_on h (unat spc)) :: u8);
               s = upd_vol (\<lambda>v. v\<lparr>sectors_per_cluster := spc, sectors_per_cluster_order := co\<rparr>) s
      in if \<not> is_power_of_2 (ucast spc) \<or> co > 7 then (-1, s\<lparr>errno := EINVAL\<rparr>)
      else let s = s\<lparr>table := (table s)\<lparr>cluster_order := unat so + unat co\<rparr>\<rparr>;
               s = upd_vol (\<lambda>v. v\<lparr>reserved_sectors := le16_val (drop 14 b), num_tables := b ! 16\<rparr>) s
      in if b ! 16 \<noteq> 1 \<and> b ! 16 \<noteq> 2 then (-1, s\<lparr>errno := EINVAL\<rparr>)
      else (0, upd_vol (\<lambda>v. v\<lparr>max_root_entries := le16_val (drop 17 b),
                  total_sectors := ucast (le16_val (drop 19 b)), media_descriptor := b ! 21,
                  sectors_per_fat := ucast (le16_val (drop 22 b))\<rparr>) s))"

definition read_dos_3_31_bpb :: "u8 list \<Rightarrow> 'a vstate_scheme \<Rightarrow> int \<times> 'a vstate_scheme" where
  "read_dos_3_31_bpb b s =
     (0, upd_vol (\<lambda>v. v\<lparr>sectors_per_track := le16_val (drop 24 b), num_heads := le16_val (drop 26 b),
           hidden_sectors := le32_val (drop 28 b)\<rparr>) s)"

definition read_nonfat32_ebpb :: "u8 list \<Rightarrow> 'a vstate_scheme \<Rightarrow> int \<times> 'a vstate_scheme" where
  "read_nonfat32_ebpb b s =
     (0, upd_vol (\<lambda>v. v\<lparr>physical_drive_num := b ! 64, extended_boot_sig := b ! 66,
           volume_id := le32_val (drop 67 b),
           volume_label := remove_trailing_spaces (cstr (take 11 (drop 71 b) @ [0])),
           fs_type := remove_trailing_spaces (cstr (take 8 (drop 82 b) @ [0]))\<rparr>) s)"

definition read_fat32_ebpb :: "u8 list \<Rightarrow> 'a vstate_scheme \<Rightarrow> int \<times> 'a vstate_scheme" where
  "read_fat32_ebpb b s =
     (let spf = le32_val (drop 36 b);
          s = (if spf \<noteq> 0 then upd_vol (\<lambda>v. v\<lparr>sectors_per_fat := spf\<rparr>) s else s);
          so = unat (sector_order (vol s))
      in if spf \<noteq> 0 \<and> drop_bit so (push_bit so (ucast spf :: u64)) \<noteq> ucast spf
         then (-1, s\<lparr>errno := EINVAL\<rparr>)
      else let s = upd_vol (\<lambda>v. v\<lparr>drive_description := le16_val (drop 40 b),
                 version := le16_val (drop 42 b)\<rparr>) s
      in if version (vol s) \<noteq> 0 then (-1, s\<lparr>errno := EINVAL\<rparr>)
      else let s = upd_vol (\<lambda>v. v\<lparr>root_dir_start_cluster := le32_val (drop 44 b)\<rparr>) s
      in if root_dir_start_cluster (vol s) = 0 then (-1, s\<lparr>errno := EINVAL\<rparr>)
      else let s = upd_vol (\<lambda>v. v\<lparr>fs_info_sector := le16_val (drop 48 b),
                 alt_boot_sector := le16_val (drop 50 b)\<rparr>) s;
               s = (if fs_info_sector (vol s) = 0xffff then upd_vol (\<lambda>v. v\<lparr>fs_info_sector := 0\<rparr>) s
                    else s)
      in if fs_info_sector (vol s) \<noteq> 0 \<and> sector_order (vol s) < 9 then (-1, s\<lparr>errno := EINVAL\<rparr>)
      else (0, s))"

definition read_boot_sector :: "host \<Rightarrow> 'a vstate_scheme \<Rightarrow> int \<times> 'a vstate_scheme" where
  "read_boot_sector h s =
     (let (n, buf, s) = full_pread (\<lambda>_. 0) 128 0 s
      in if n \<noteq> 128 then (-1, s)
      else let b = load_at buf 0 128;
               s = upd_vol (\<lambda>v. v\<lparr>oem_name := remove_trailing_spaces (cstr (take 8 (drop 3 b) @ [0]))\<rparr>) s;
               (ret, s) = read_dos_2_0_bpb h b s
      in if ret \<noteq> 0 then (ret, s)
      else let (ret, s) = read_dos_3_31_bpb b s
      in if ret \<noteq> 0 then (ret, s)
      else let (ret, s) = read_fat32_ebpb b s
      in if ret \<noteq> 0 then (ret, s)
      else let (ret, s) = read_nonfat32_ebpb b s
      in if ret \<noteq> 0 then (ret, s)
      else let v = vol s;
               root = word_of_int (drop_bit (unat (sector_order v)) (push_bit 5 (uint (max_root_entries v))));
               num_data_sectors = total_sectors v - ucast (reserved_sectors v) - root
      in (0, s\<lparr>table := (table s)\<lparr>num_data_clusters :=
               drop_bit (unat (sectors_per_cluster_order v)) num_data_sectors\<rparr>\<rparr>))"

text \<open>
  The mapping of the table is private: the words of the volume at the time of the mount. What lies
  behind the end of the volume is not part of it.
\<close>

definition words_of :: "u8 list \<Rightarrow> u32 list" where
  "words_of bs = map (\<lambda>j. le32_val (drop (4 * j) bs)) [0..<length bs div 4]"

definition map_fat :: "host \<Rightarrow> 'a vstate_scheme \<Rightarrow> int \<times> 'a vstate_scheme" where
  "map_fat h s =
     (if page_size h \<le> 0 \<or> \<not> is_power_of_2 (word_of_int (page_size h)) \<or> page_size h > 2 ^ 31
      then (-1, s\<lparr>errno := EINVAL\<rparr>)
      else let v = vol s;
               off = push_bit (unat (sector_order v)) (uint (reserved_sectors v));
               aligned_off = off AND NOT (page_size h - 1);
               fat_size = push_bit (unat (sector_order v)) (ucast (sectors_per_fat v) :: u64);
               aligned_size = fat_size + word_of_int (off - aligned_off)
      in if aligned_size < fat_size then (-1, s\<lparr>errno := EINVAL\<rparr>)
      else if \<not> mmap_ok h then (-1, s)
      else (0, s\<lparr>table := (table s)\<lparr>
               fat_map := words_of (take (unat fat_size) (drop (nat off) (content s))),
               fat_offset := off\<rparr>\<rparr>))"

text \<open>
  The second component tells whether the volume structure was freed: using it afterwards is not a
  normal return.
\<close>

definition init_root_dir :: "'a vstate_scheme \<Rightarrow> (nat option \<times> bool \<times> 'a vstate_scheme) option" where
  "init_root_dir s = do {
     (root_entry, s) \<leftarrow> fat_file_init_direntry True [0x2F] (root_dir_start_cluster (vol s)) s;
     let (root_dir, s) = fat_file_init_empty True [0x2F] s;
     if errno s \<noteq> 0
     then Some (None, True, case root_dir of None \<Rightarrow> s | Some r \<Rightarrow> s\<lparr>files := (files s)(r := None)\<rparr>)
     else do {
       s \<leftarrow> upd_file root_dir (\<lambda>f. f\<lparr>dentry := root_entry,
              start_cluster := root_dir_start_cluster (vol s)\<rparr>) s;
       Some (root_dir, False, s) } }"

definition init_file_tree :: "'a vstate_scheme \<Rightarrow> 'a vstate_scheme option" where
  "init_file_tree s = do {
     (root_dir, freed, s) \<leftarrow> init_root_dir s;
     if freed then None
     else do {
       let s = upd_vol (\<lambda>v. v\<lparr>file_tree := fat_tree_init\<rparr>) s;
       (tree, s) \<leftarrow> fat_tree_insert (file_tree (vol s)) None root_dir s;
       Some (upd_vol (\<lambda>v. v\<lparr>file_tree := tree\<rparr>) s) } }"

text \<open>The fresh structures are all zeros. The result is whether a volume is returned.\<close>

definition zero_volume :: fat_volume_s where
  "zero_volume = \<lparr>mount_flags = 0, file_tree = None, max_allocated_files = 0, oem_name = [],
     bytes_per_sector = 0, sector_order = 0, sectors_per_cluster = 0,
     sectors_per_cluster_order = 0, reserved_sectors = 0, num_tables = 0, max_root_entries = 0,
     media_descriptor = 0, total_sectors = 0, sectors_per_fat = 0, sectors_per_track = 0,
     num_heads = 0, hidden_sectors = 0, drive_description = 0, version = 0,
     root_dir_start_cluster = 0, fs_info_sector = 0, alt_boot_sector = 0, physical_drive_num = 0,
     extended_boot_sig = 0, volume_id = 0, volume_label = [], fs_type = []\<rparr>"

definition zero_table :: fat_table_s where
  "zero_table = \<lparr>fat_map = [], fat_offset = 0, num_data_clusters = 0, data_start_offset = 0,
     cluster_order = 0\<rparr>"

definition fat_volume_mount ::
  "host \<Rightarrow> u32 \<Rightarrow> 'a vstate_scheme \<Rightarrow> (bool \<times> 'a vstate_scheme) option" where
  "fat_volume_mount h flags s = do {
     let (ok, s) = calloc s;
     assert_c ok;
     let (ok, s) = calloc s;
     assert_c ok;
     let s = s\<lparr>vol := zero_volume, table := zero_table\<rparr>;
     if \<not> open_ok h then Some (False, s)
     else do {
       let (ret, s) = read_boot_sector h s;
       if ret \<noteq> 0 then Some (False, s)
       else do {
         let (ret, s) = map_fat h s;
         if ret \<noteq> 0 then Some (False, s)
         else do {
           let s = upd_vol (\<lambda>v. v\<lparr>mount_flags := flags, max_allocated_files := 100\<rparr>) s;
           let v = vol s;
           let sectors = ucast (num_tables v) * sectors_per_fat v + ucast (reserved_sectors v) +
             ucast (drop_bit (unat (sector_order v) - 5) (max_root_entries v));
           let s = s\<lparr>table := (table s)\<lparr>data_start_offset :=
             push_bit (unat (sector_order v)) (uint sectors)\<rparr>\<rparr>;
           s \<leftarrow> init_file_tree s;
           Some (True, s) } } } }"

definition fat_volume_unmount :: "host \<Rightarrow> 'a vstate_scheme \<Rightarrow> (int \<times> 'a vstate_scheme) option" where
  "fat_volume_unmount h s = do {
     let ret = (if close_ok h then 0 else - 1);
     s \<leftarrow> fat_tree_destroy (file_tree (vol s)) s;
     Some (ret, s) }"

section \<open>Powers of two\<close>

lemma and_pred_eq_0: "n \<noteq> 0 \<Longrightarrow> n AND (n - 1) = 0 \<longleftrightarrow> (\<exists>k. n = 2 ^ k)" for n :: nat
proof (induction n rule: less_induct)
  case (less n)
  show ?case
  proof (cases "even n")
    case True
    then obtain m where m: "n = 2 * m" "m \<noteq> 0" using less.prems by auto
    have "(2 * m - 1) div 2 = m - 1" using m(2) by simp
    then have "n AND (n - 1) = 2 * (m AND (m - 1))"
      using m by (subst and_nat_rec) auto
    moreover have "(\<exists>k. n = 2 ^ k) \<longleftrightarrow> (\<exists>k. m = 2 ^ k)"
    proof
      assume "\<exists>k. n = 2 ^ k"
      then obtain k where k: "2 * m = 2 ^ k" using m(1) by auto
      show "\<exists>k. m = 2 ^ k"
      proof (cases k)
        case 0
        then show ?thesis using k by simp
      qed (use k in auto)
    next
      assume "\<exists>k. m = 2 ^ k"
      then obtain k where "m = 2 ^ k" ..
      then show "\<exists>k. n = 2 ^ k" using m(1) by (intro exI [of _ "Suc k"]) simp
    qed
    ultimately show ?thesis using less.IH [of m] m by simp
  next
    case False
    then obtain m where m: "n = 2 * m + 1" by (auto elim: oddE)
    show ?thesis
    proof (cases "m = 0")
      case True
      then show ?thesis using m by (auto intro: exI [of _ 0])
    next
      case f: False
      have "n AND (n - 1) = 2 * (m AND m)" using m by (subst and_nat_rec) auto
      moreover have "\<nexists>k. n = 2 ^ k"
      proof
        assume "\<exists>k. n = 2 ^ k"
        then obtain k where k: "n = 2 ^ k" ..
        then have "even n \<or> n = 1" by (cases k) auto
        then show False using m f by auto
      qed
      ultimately show ?thesis using f by simp
    qed
  qed
qed

lemma is_power_of_2_iff: "is_power_of_2 w \<longleftrightarrow> (\<exists>k. unat w = 2 ^ k)"
proof (cases "w = 0")
  case False
  then have "unat (w AND (w - 1)) = unat w AND (unat w - 1)" "unat w \<noteq> 0"
    by (simp_all add: unsigned_and_eq unat_minus_one unat_eq_zero)
  then show ?thesis using and_pred_eq_0 [of "unat w"] False
    by (simp add: is_power_of_2_def flip: unat_eq_zero)
qed (simp add: is_power_of_2_def)

lemma highest_bit_power: "highest_bit (2 ^ k) = k"
proof (induction k)
  case 0
  then show ?case by (simp add: highest_bit.simps)
next
  case (Suc k)
  have "(1::nat) < 2 ^ Suc k" using power_gt1 [of "2::nat" k] by simp
  then show ?case by (subst highest_bit.simps) (use Suc in \<open>simp del: power_Suc add: power_Suc [where n = k]\<close>)
qed

lemma bsr_on_power: "unat w = 2 ^ k \<Longrightarrow> bsr_on h (unat w) = k"
  by (simp add: bsr_on_def bsr_def highest_bit_power)

lemma unat_power_less:
  fixes w :: "'a::len word"
  assumes "unat w = 2 ^ k" shows "k < LENGTH('a)"
proof -
  have "unat w < 2 ^ LENGTH('a)" by (rule unsigned_less)
  then show ?thesis unfolding assms by simp
qed

lemma unat_wide: "LENGTH('a) \<le> LENGTH('b) \<Longrightarrow> unat (ucast (w :: 'a::len word) :: 'b::len word) = unat w"
proof -
  assume le: "LENGTH('a) \<le> LENGTH('b)"
  have "unat w < 2 ^ LENGTH('a)" by (rule unsigned_less)
  also have "(2::nat) ^ LENGTH('a) \<le> 2 ^ LENGTH('b)" using le by simp
  finally show ?thesis by (simp add: unsigned_ucast_eq take_bit_nat_eq_self)
qed

text \<open>The checks of the sector and cluster sizes.\<close>

lemma order_check16:
  "(\<not> is_power_of_2 (ucast w) \<or> (of_nat (bsr_on h (unat w)) :: u16) < 5 \<or>
     (of_nat (bsr_on h (unat w)) :: u16) > 12) \<longleftrightarrow> \<not> (\<exists>k\<in>{5..12}. unat w = 2 ^ k)" for w :: u16
proof (cases "\<exists>k. unat w = 2 ^ k")
  case True
  then obtain k where k: "unat w = 2 ^ k" ..
  then have "k < 16" using unat_power_less [OF k] by simp
  moreover have "unat (ucast w :: u64) = 2 ^ k" using k by (simp add: unat_wide)
  ultimately show ?thesis
    using bsr_on_power [OF k, of h] k
    by (auto simp: is_power_of_2_iff word_less_nat_alt unat_of_nat)
next
  case False
  then have "\<not> is_power_of_2 (ucast w)" by (simp add: is_power_of_2_iff unat_wide)
  then show ?thesis using False by auto
qed

lemma order_check8:
  "(\<not> is_power_of_2 (ucast w) \<or> (of_nat (bsr_on h (unat w)) :: u8) > 7) \<longleftrightarrow>
     \<not> (\<exists>k\<in>{0..7}. unat w = 2 ^ k)" for w :: u8
proof (cases "\<exists>k. unat w = 2 ^ k")
  case True
  then obtain k where k: "unat w = 2 ^ k" ..
  then have "k < 8" using unat_power_less [OF k] by simp
  moreover have "unat (ucast w :: u64) = 2 ^ k" using k by (simp add: unat_wide)
  ultimately show ?thesis
    using bsr_on_power [OF k, of h] k
    by (auto simp: is_power_of_2_iff word_less_nat_alt unat_of_nat)
next
  case False
  then have "\<not> is_power_of_2 (ucast w)" by (simp add: is_power_of_2_iff unat_wide)
  then show ?thesis using False by auto
qed

section \<open>The boot sector\<close>

text \<open>Which boot sectors are accepted.\<close>

definition boot_ok :: "u8 list \<Rightarrow> bool" where
  "boot_ok b \<longleftrightarrow> (\<exists>k\<in>{5..12}. unat (le16_val (drop 11 b)) = 2 ^ k) \<and>
     (\<exists>k\<in>{0..7}. unat (b ! 13) = 2 ^ k) \<and> (b ! 16 = 1 \<or> b ! 16 = 2) \<and>
     le16_val (drop 42 b) = 0 \<and> le32_val (drop 44 b) \<noteq> 0 \<and>
     (le16_val (drop 48 b) = 0 \<or> le16_val (drop 48 b) = 0xffff \<or>
      512 \<le> unat (le16_val (drop 11 b)))"

lemma sector_order_9:
  assumes "unat w = 2 ^ k" "k \<le> 12"
  shows "(of_nat k :: u16) < 9 \<longleftrightarrow> unat (w :: u16) < 512"
proof -
  have "(of_nat k :: u16) < 9 \<longleftrightarrow> k < 9" using assms(2) by (simp add: word_less_nat_alt unat_of_nat)
  also have "\<dots> \<longleftrightarrow> (2::nat) ^ k < 2 ^ 9" by (rule power_strict_increasing_iff [symmetric]) simp
  finally show ?thesis using assms(1) by simp
qed

lemma fat_size_fits:
  assumes "k \<le> 12"
  shows "drop_bit k (push_bit k (ucast (w :: u32) :: u64)) = ucast w"
proof (rule bit_word_eqI)
  fix n assume "n < LENGTH(64)"
  have "\<not> bit w n" if "64 \<le> k + n" using that assms by (auto dest: bit_imp_le_length)
  then show "bit (drop_bit k (push_bit k (ucast w :: u64))) n = bit (ucast w :: u64) n"
    using \<open>n < LENGTH(64)\<close> by (auto simp: bit_simps not_less ac_simps intro: ccontr)
qed

text \<open>The two halves of the parsing, on an accepted and on a refused sector.\<close>

definition dos_ok :: "u8 list \<Rightarrow> bool" where
  "dos_ok b \<longleftrightarrow> (\<exists>k\<in>{5..12}. unat (le16_val (drop 11 b)) = 2 ^ k) \<and>
     (\<exists>k\<in>{0..7}. unat (b ! 13) = 2 ^ k) \<and> (b ! 16 = 1 \<or> b ! 16 = 2)"

lemma read_dos_2_0_bpb_ok:
  assumes "unat (le16_val (drop 11 b)) = 2 ^ k" "5 \<le> k" "k \<le> 12" "unat (b ! 13) = 2 ^ c" "c \<le> 7"
    "b ! 16 = 1 \<or> b ! 16 = 2"
  shows "read_dos_2_0_bpb h b s = (0, s\<lparr>table := (table s)\<lparr>cluster_order := k + c\<rparr>,
     vol := (vol s)\<lparr>bytes_per_sector := le16_val (drop 11 b), sector_order := of_nat k,
       sectors_per_cluster := b ! 13, sectors_per_cluster_order := of_nat c,
       reserved_sectors := le16_val (drop 14 b), num_tables := b ! 16,
       max_root_entries := le16_val (drop 17 b), total_sectors := ucast (le16_val (drop 19 b)),
       media_descriptor := b ! 21, sectors_per_fat := ucast (le16_val (drop 22 b))\<rparr>\<rparr>)"
proof -
  have "\<exists>k\<in>{5..12}. unat (le16_val (drop 11 b)) = 2 ^ k" "\<exists>k\<in>{0..7}. unat (b ! 13) = 2 ^ k"
    using assms by auto
  then have checks: "\<not> (\<not> is_power_of_2 (ucast (le16_val (drop 11 b))) \<or>
      (of_nat (bsr_on h (unat (le16_val (drop 11 b)))) :: u16) < 5 \<or>
      (of_nat (bsr_on h (unat (le16_val (drop 11 b)))) :: u16) > 12)"
    "\<not> (\<not> is_power_of_2 (ucast (b ! 13)) \<or> (of_nat (bsr_on h (unat (b ! 13))) :: u8) > 7)"
    unfolding order_check16 order_check8 by blast+
  have n: "\<not> (b ! 16 \<noteq> 1 \<and> b ! 16 \<noteq> 2)" using assms(6) by simp
  have orders: "bsr_on h (unat (le16_val (drop 11 b))) = k" "bsr_on h (unat (b ! 13)) = c"
    by (rule bsr_on_power [OF assms(1)], rule bsr_on_power [OF assms(4)])
  have "unat (of_nat k :: u16) = k" "unat (of_nat c :: u8) = c"
    using assms(3,5) by (simp_all add: unat_of_nat)
  with checks [unfolded orders] n show ?thesis
    by (cases s) (simp add: read_dos_2_0_bpb_def Let_def orders upd_vol_def)
qed

lemma read_dos_2_0_bpb_bad:
  assumes "\<not> dos_ok b"
  shows "\<exists>s'. read_dos_2_0_bpb h b s = (-1, s') \<and> errno s' = EINVAL \<and> content s' = content s"
proof -
  consider "\<not> (\<exists>k\<in>{5..12}. unat (le16_val (drop 11 b)) = 2 ^ k)"
    | "\<exists>k\<in>{5..12}. unat (le16_val (drop 11 b)) = 2 ^ k" "\<not> (\<exists>k\<in>{0..7}. unat (b ! 13) = 2 ^ k)"
    | "\<exists>k\<in>{5..12}. unat (le16_val (drop 11 b)) = 2 ^ k" "\<exists>k\<in>{0..7}. unat (b ! 13) = 2 ^ k"
      "b ! 16 \<noteq> 1 \<and> b ! 16 \<noteq> 2"
    using assms unfolding dos_ok_def by blast
  then show ?thesis
  proof cases
    case 1
    then show ?thesis unfolding read_dos_2_0_bpb_def Let_def order_check16
      by (simp add: upd_vol_def)
  next
    case 2
    then show ?thesis unfolding read_dos_2_0_bpb_def Let_def order_check16 order_check8
      by (simp add: upd_vol_def)
  next
    case 3
    then show ?thesis unfolding read_dos_2_0_bpb_def Let_def order_check16 order_check8
      by (simp add: upd_vol_def)
  qed
qed

lemma read_fat32_ebpb_ok:
  assumes "sector_order (vol s) = of_nat k" "k \<le> 12" "unat (le16_val (drop 11 b)) = 2 ^ k"
    "le16_val (drop 42 b) = 0" "le32_val (drop 44 b) \<noteq> 0"
    "le16_val (drop 48 b) = 0 \<or> le16_val (drop 48 b) = 0xffff \<or> 512 \<le> unat (le16_val (drop 11 b))"
  shows "read_fat32_ebpb b s = (0, s\<lparr>vol := (vol s)\<lparr>
     sectors_per_fat := (if le32_val (drop 36 b) \<noteq> 0 then le32_val (drop 36 b) else sectors_per_fat (vol s)),
     drive_description := le16_val (drop 40 b), version := 0,
     root_dir_start_cluster := le32_val (drop 44 b),
     fs_info_sector := (if le16_val (drop 48 b) = 0xffff then 0 else le16_val (drop 48 b)),
     alt_boot_sector := le16_val (drop 50 b)\<rparr>\<rparr>)"
proof -
  have k: "unat (of_nat k :: u16) = k" using assms(2) by (simp add: unat_of_nat)
  note nine = sector_order_9 [OF assms(3,2)]
  show ?thesis
    using assms(1,4-6) fat_size_fits [OF assms(2), of "le32_val (drop 36 b)"]
    by (cases s) (auto simp: read_fat32_ebpb_def Let_def upd_vol_def k nine)
qed

lemma read_fat32_ebpb_bad:
  assumes "sector_order (vol s) = of_nat k" "k \<le> 12" "unat (le16_val (drop 11 b)) = 2 ^ k"
    "le16_val (drop 42 b) \<noteq> 0 \<or> le32_val (drop 44 b) = 0 \<or>
     \<not> (le16_val (drop 48 b) = 0 \<or> le16_val (drop 48 b) = 0xffff \<or> 512 \<le> unat (le16_val (drop 11 b)))"
  shows "\<exists>s'. read_fat32_ebpb b s = (-1, s') \<and> errno s' = EINVAL \<and> content s' = content s"
proof -
  have k: "unat (of_nat k :: u16) = k" using assms(2) by (simp add: unat_of_nat)
  note nine = sector_order_9 [OF assms(3,2)]
  show ?thesis
    using assms(1,4) fat_size_fits [OF assms(2), of "le32_val (drop 36 b)"]
    by (auto simp: read_fat32_ebpb_def Let_def upd_vol_def k nine)
qed

text \<open>The record of an accepted boot sector.\<close>

definition boot_volume :: "u8 list \<Rightarrow> nat \<Rightarrow> nat \<Rightarrow> fat_volume_s \<Rightarrow> fat_volume_s" where
  "boot_volume b k c v = v\<lparr>
     oem_name := remove_trailing_spaces (cstr (take 8 (drop 3 b) @ [0])),
     bytes_per_sector := le16_val (drop 11 b), sector_order := of_nat k,
     sectors_per_cluster := b ! 13, sectors_per_cluster_order := of_nat c,
     reserved_sectors := le16_val (drop 14 b), num_tables := b ! 16,
     max_root_entries := le16_val (drop 17 b), media_descriptor := b ! 21,
     total_sectors := ucast (le16_val (drop 19 b)),
     sectors_per_fat := (if le32_val (drop 36 b) \<noteq> 0 then le32_val (drop 36 b)
       else ucast (le16_val (drop 22 b))),
     sectors_per_track := le16_val (drop 24 b), num_heads := le16_val (drop 26 b),
     hidden_sectors := le32_val (drop 28 b), drive_description := le16_val (drop 40 b),
     version := 0, root_dir_start_cluster := le32_val (drop 44 b),
     fs_info_sector := (if le16_val (drop 48 b) = 0xffff then 0 else le16_val (drop 48 b)),
     alt_boot_sector := le16_val (drop 50 b), physical_drive_num := b ! 64,
     extended_boot_sig := b ! 66, volume_id := le32_val (drop 67 b),
     volume_label := remove_trailing_spaces (cstr (take 11 (drop 71 b) @ [0])),
     fs_type := remove_trailing_spaces (cstr (take 8 (drop 82 b) @ [0]))\<rparr>"

text \<open>The sectors that the driver takes for data, a difference of 32-bit words.\<close>

definition data_sectors :: "u8 list \<Rightarrow> nat \<Rightarrow> u32" where
  "data_sectors b k = ucast (le16_val (drop 19 b)) - ucast (le16_val (drop 14 b)) -
     word_of_int (drop_bit k (push_bit 5 (uint (le16_val (drop 17 b)))))"

lemma read_bytes_0:
  assumes "faults s = []" "128 \<le> length (content s)"
  shows "\<exists>buf. full_pread (\<lambda>_. 0) 128 0 s = (128, buf, s) \<and> load_at buf 0 128 = take 128 (content s)"
proof (intro exI conjI)
  show "full_pread (\<lambda>_. 0) 128 0 s = (128, store_at (\<lambda>_. 0) 0 (take 128 (content s)), s)"
    using full_pread_ok [of s 0 128 "\<lambda>_. 0"] assms by simp
  show "load_at (store_at (\<lambda>_. 0) 0 (take 128 (content s))) 0 128 = take 128 (content s)"
    using assms(2) by (intro nth_equalityI) (simp_all add: load_at_def store_at_def)
qed

lemma read_boot_sector_run:
  assumes "faults s = []" "128 \<le> length (content s)" "b = take 128 (content s)" "boot_ok b"
    "unat (le16_val (drop 11 b)) = 2 ^ k" "5 \<le> k" "k \<le> 12" "unat (b ! 13) = 2 ^ c" "c \<le> 7"
  shows "read_boot_sector h s = (0, s\<lparr>vol := boot_volume b k c (vol s), table := (table s)\<lparr>
     cluster_order := k + c, num_data_clusters := drop_bit c (data_sectors b k)\<rparr>\<rparr>)"
proof -
  obtain buf where buf: "full_pread (\<lambda>_. 0) 128 0 s = (128, buf, s)" "load_at buf 0 128 = b"
    using read_bytes_0 [OF assms(1,2)] assms(3) by blast
  have ok: "b ! 16 = 1 \<or> b ! 16 = 2" "le16_val (drop 42 b) = 0" "le32_val (drop 44 b) \<noteq> 0"
    "le16_val (drop 48 b) = 0 \<or> le16_val (drop 48 b) = 0xffff \<or> 512 \<le> unat (le16_val (drop 11 b))"
    using assms(4) by (auto simp: boot_ok_def)
  have kc: "unat (of_nat k :: u16) = k" "unat (of_nat c :: u8) = c"
    using assms(7,9) by (simp_all add: unat_of_nat)
  note dos = read_dos_2_0_bpb_ok [OF assms(5-9) ok(1)]
  note fat = read_fat32_ebpb_ok [OF _ assms(7,5) ok(2-4)]
  show ?thesis
    by (simp add: read_boot_sector_def buf upd_vol_def dos read_dos_3_31_bpb_def fat
        read_nonfat32_ebpb_def kc boot_volume_def data_sectors_def)
qed

lemma boot_ok_orders:
  assumes "boot_ok b"
  obtains k c where "unat (le16_val (drop 11 b)) = 2 ^ k" "5 \<le> k" "k \<le> 12" "unat (b ! 13) = 2 ^ c" "c \<le> 7"
  using assms by (auto simp: boot_ok_def)

lemma read_boot_sector_refused:
  assumes "faults s = []" "128 \<le> length (content s)" "b = take 128 (content s)" "\<not> boot_ok b"
  shows "\<exists>s'. read_boot_sector h s = (-1, s') \<and> errno s' = EINVAL \<and> content s' = content s"
proof -
  obtain buf where buf: "full_pread (\<lambda>_. 0) 128 0 s = (128, buf, s)" "load_at buf 0 128 = b"
    using read_bytes_0 [OF assms(1,2)] assms(3) by blast
  let ?s = "s\<lparr>vol := (vol s)\<lparr>oem_name := remove_trailing_spaces (cstr (take 8 (drop 3 b) @ [0]))\<rparr>\<rparr>"
  show ?thesis
  proof (cases "dos_ok b")
    case False
    then obtain s' where "read_dos_2_0_bpb h b ?s = (-1, s')" "errno s' = EINVAL" "content s' = content s"
      using read_dos_2_0_bpb_bad [of b h ?s] by auto
    then show ?thesis by (simp add: read_boot_sector_def buf upd_vol_def)
  next
    case True
    then obtain k c where kc: "unat (le16_val (drop 11 b)) = 2 ^ k" "5 \<le> k" "k \<le> 12"
      "unat (b ! 13) = 2 ^ c" "c \<le> 7" "b ! 16 = 1 \<or> b ! 16 = 2"
      by (auto simp: dos_ok_def)
    note dos = read_dos_2_0_bpb_ok [OF kc, of h ?s]
    obtain s2 where s2: "snd (read_dos_3_31_bpb b (snd (read_dos_2_0_bpb h b ?s))) = s2"
      "sector_order (vol s2) = of_nat k" "content s2 = content s"
      by (simp add: dos read_dos_3_31_bpb_def upd_vol_def)
    have "le16_val (drop 42 b) \<noteq> 0 \<or> le32_val (drop 44 b) = 0 \<or>
       \<not> (le16_val (drop 48 b) = 0 \<or> le16_val (drop 48 b) = 0xffff \<or> 512 \<le> unat (le16_val (drop 11 b)))"
      using assms(4) True unfolding boot_ok_def dos_ok_def by blast
    then obtain s' where s': "read_fat32_ebpb b s2 = (-1, s')" "errno s' = EINVAL" "content s' = content s"
      using read_fat32_ebpb_bad [OF s2(2) kc(3,1)] s2(3) by auto
    have "read_dos_3_31_bpb b (snd (read_dos_2_0_bpb h b ?s)) = (0, s2)"
      using s2(1) by (simp add: read_dos_3_31_bpb_def)
    then have "read_boot_sector h s = (-1, s')"
      using s'(1) dos by (simp add: read_boot_sector_def buf upd_vol_def)
    then show ?thesis using s' by blast
  qed
qed

lemma uint_ucast16 [simp]: "uint (ucast (w :: u16) :: u32) = uint w"
  by (simp add: unsigned_ucast_eq take_bit_int_eq_self order.strict_trans [OF unsigned_less])

text \<open>
  Which boot sectors mount. A boot sector is accepted exactly when its sector size is a power of
  two from 32 to 4096, its cluster size one from 1 to 128 sectors, it has one or two allocation
  tables, version 0, a root cluster, and no information sector unless sectors have 512 bytes; the
  orders then are the logarithms of the sizes. Otherwise the result is -1 with \<open>EINVAL\<close>.
\<close>

theorem read_boot_sector_spec:
  assumes "faults s = []" and "128 \<le> length (content s)"
  shows "\<exists>s'. read_boot_sector h s = (if boot_ok (take 128 (content s)) then 0 else -1, s') \<and>
     content s' = content s \<and>
     (if boot_ok (take 128 (content s))
      then errno s' = errno s \<and>
        2 ^ unat (sector_order (vol s')) = unat (le16_val (drop 11 (take 128 (content s)))) \<and>
        2 ^ unat (sectors_per_cluster_order (vol s')) = unat (content s ! 13) \<and>
        bpc (table s') = unat (le16_val (drop 11 (take 128 (content s)))) * unat (content s ! 13) \<and>
        root_dir_start_cluster (vol s') = le32_val (drop 44 (take 128 (content s)))
      else errno s' = EINVAL)"
proof (cases "boot_ok (take 128 (content s))")
  case True
  let ?b = "take 128 (content s)"
  obtain k c where kc: "unat (le16_val (drop 11 ?b)) = 2 ^ k" "5 \<le> k" "k \<le> 12" "unat (?b ! 13) = 2 ^ c" "c \<le> 7"
    using boot_ok_orders [OF True] by blast
  have "unat (of_nat k :: u16) = k" "unat (of_nat c :: u8) = c"
    using kc(3,5) by (simp_all add: unat_of_nat)
  then show ?thesis using read_boot_sector_run [OF assms refl True kc, of h] True kc(1,4)
    by (simp add: boot_volume_def bpc_eq power_add)
next
  case False
  then show ?thesis using read_boot_sector_refused [OF assms refl False, of h] by auto
qed


text \<open>An example: 11 sectors of 32 bytes, one allocation table of 8 entries, the root in cluster 2.\<close>

definition small_image :: "u8 list" where
  "small_image = replicate 11 0 @ [0x20, 0, 1, 4, 0, 1, 0, 0, 11, 0, 0xF8, 1, 0] @ replicate 20 0 @
     [2, 0, 0, 0] @ replicate 80 0 @
     [0xF8, 0xFF, 0xFF, 0x0F, 0xFF, 0xFF, 0xFF, 0x0F, 0xF8, 0xFF, 0xFF, 0x0F] @ replicate 20 0 @
     replicate 192 0"

lemma small_image_fields:
  "length small_image = 352" "boot_ok (take 128 small_image)"
  "le16_val (drop 11 (take 128 small_image)) = 32" "small_image ! 13 = 1"
  "le16_val (drop 14 (take 128 small_image)) = 4" "small_image ! 16 = 1"
  "le16_val (drop 17 (take 128 small_image)) = 0" "le16_val (drop 19 (take 128 small_image)) = 11"
  "le16_val (drop 22 (take 128 small_image)) = 1" "le32_val (drop 36 (take 128 small_image)) = 0"
  "le32_val (drop 44 (take 128 small_image)) = 2"
  by code_simp+

definition small_device :: "u8 list \<Rightarrow> vstate" where
  "small_device img = fstate.extend (small_fs\<lparr>content := img, files := Map.empty\<rparr>)
     \<lparr>nodes = Map.empty, next_node = 0, vol = zero_volume\<rparr>"

definition good_host :: host where
  "good_host = \<lparr>open_ok = True, close_ok = True, mmap_ok = True, page_size = 4096, bsr_zero = 0\<rparr>"

lemma small_device_simps [simp]:
  "content (small_device img) = img" "faults (small_device img) = []" "errno (small_device img) = 0"
  "alloc_faults (small_device img) = []" "heap_pad (small_device img) = replicate 8 0"
  "next_node (small_device img) = 0" "vol (small_device img) = zero_volume"
  by (simp_all add: small_device_def fstate.defs small_fs_def)

theorem read_boot_sector_spec_witness:
  "\<exists>s'. read_boot_sector good_host (small_device small_image) = (0, s') \<and> bpc (table s') = 32"
  using read_boot_sector_spec [of "small_device small_image" good_host]
  by (simp add: small_image_fields) blast

section \<open>Mounting\<close>

lemma not_bit_u8: "8 \<le> n \<Longrightarrow> \<not> bit (w :: u8) n"
  by (auto dest: bit_imp_le_length)

lemma le32_bytes_val: "le32_bytes (le32_val (a # b # c # d # xs)) = [a, b, c, d]"
  by (auto simp: le32_bytes_def le32_val_def bit_simps not_bit_u8 intro!: bit_word_eqI)

lemma le32_bytes_take:
  assumes "4 \<le> length bs" shows "le32_bytes (le32_val bs) = take 4 bs"
proof -
  obtain a b c d xs where "bs = a # b # c # d # xs"
    using assms by (auto simp: numeral_eq_Suc Suc_le_length_iff)
  then show ?thesis by (simp add: le32_bytes_val)
qed

lemma and_split: "(a AND m) + (a AND NOT m) = (a :: int)"
  by (subst disjunctive_add) (auto simp: bit_simps intro!: bit_eqI)

text \<open>The page size is a power of two: the mapping starts at the page of the table.\<close>

lemma is_power_of_2_power:
  assumes "p < 64" shows "is_power_of_2 (2 ^ p)"
proof -
  have "(2 ^ p :: u64) \<noteq> 0" using assms by simp
  then have "uint (2 ^ p :: u64) = 2 ^ p" by (intro uint_2p) (simp add: word_gt_0)
  then have "unat (2 ^ p :: u64) = 2 ^ p" by (metis nat_numeral nat_power_eq unat_eq_nat_uint zero_le_numeral)
  then show ?thesis by (auto simp: is_power_of_2_iff)
qed

lemma push_size:
  fixes w :: u32
  assumes "k \<le> 12"
  shows "unat (push_bit k (ucast w :: u64)) = unat w * 2 ^ k" "unat w * 2 ^ k < 2 ^ 44"
proof -
  have "unat w < 2 ^ LENGTH(32)" by (rule unsigned_less)
  then have "unat w < 2 ^ 32" by simp
  have "unat w * 2 ^ k < 2 ^ 32 * 2 ^ 12"
    using assms \<open>unat w < 2 ^ 32\<close> by (intro mult_less_le_imp_less power_increasing) simp_all
  then show "unat w * 2 ^ k < 2 ^ 44" by simp
  then show "unat (push_bit k (ucast w :: u64)) = unat w * 2 ^ k"
    by (simp only: unsigned_push_bit_eq, simp add: unat_wide push_bit_eq_mult take_bit_nat_eq_self)
qed

lemma no_wrap:
  fixes w :: u64
  assumes "unat w < 2 ^ 44" "0 \<le> x" "x < 2 ^ 31"
  shows "\<not> w + word_of_int x < w"
proof -
  have "uint (word_of_int x :: u64) = x"
    using assms(2,3) by (simp add: uint_word_of_int_eq take_bit_int_eq_self)
  then have x: "unat (word_of_int x :: u64) = nat x" by (simp add: unat_eq_nat_uint)
  have "unat w + nat x < 2 ^ 64" using assms by simp
  then have "unat (w + word_of_int x) = unat w + nat x"
    by (simp add: unat_word_ariths x)
  then show ?thesis by (simp add: word_less_nat_alt)
qed

lemma map_fat_run:
  assumes "page_size h = 2 ^ p" "p \<le> 31" "mmap_ok h" "sector_order (vol s) = of_nat k" "k \<le> 12"
  shows "map_fat h s = (0, s\<lparr>table := (table s)\<lparr>
     fat_map := words_of (take (unat (sectors_per_fat (vol s)) * 2 ^ k)
       (drop (unat (reserved_sectors (vol s)) * 2 ^ k) (content s))),
     fat_offset := int (unat (reserved_sectors (vol s)) * 2 ^ k)\<rparr>\<rparr>)"
proof -
  let ?off = "push_bit k (uint (reserved_sectors (vol s)))"
  let ?al = "?off AND NOT (2 ^ p - 1)"
  have k: "unat (of_nat k :: u16) = k" using assms(5) by (simp add: unat_of_nat)
  have p: "(2::int) ^ p \<le> 2 ^ 31" using assms(2) by (rule power_increasing) simp
  have "?off - ?al = take_bit p ?off"
    using and_split [of ?off "2 ^ p - 1"] by (simp add: take_bit_eq_mask mask_eq_exp_minus_1)
  then have x: "0 \<le> ?off - ?al" "?off - ?al < 2 ^ 31"
    using order_less_le_trans [OF take_bit_int_less_exp [of p ?off] p] take_bit_nonnegative [of p ?off]
    by (simp_all only:)
  have off: "?off = int (unat (reserved_sectors (vol s)) * 2 ^ k)" by (simp add: push_bit_eq_mult)
  then have off2: "nat ?off = unat (reserved_sectors (vol s)) * 2 ^ k" by (simp only: nat_int)
  have le: "\<not> push_bit k (ucast (sectors_per_fat (vol s)) :: u64) + word_of_int (?off - ?al)
      < push_bit k (ucast (sectors_per_fat (vol s)))"
    by (rule no_wrap [OF _ x]) (simp only: push_size [OF assms(5)])
  have page: "\<not> ((2::int) ^ p \<le> 0 \<or> \<not> is_power_of_2 (word_of_int (2 ^ p)) \<or> (2::int) ^ p > 2 ^ 31)"
    using p is_power_of_2_power [of p] assms(2) by (simp del: power_increasing_iff)
  have mm: "\<not> \<not> mmap_ok h" using assms(3) by simp
  show ?thesis
    unfolding map_fat_def Let_def assms(1,4) k if_not_P [OF page] if_not_P [OF le] if_not_P [OF mm]
      push_size(1) [OF assms(5)] off2 by (simp only: off)
qed

text \<open>The entry of the root: its name is empty.\<close>

lemma filename_from_path_empty:
  assumes "7 \<le> length pad" "take 7 pad = replicate 7 0"
  shows "filename_from_path (0 # pad) (replicate 32 0) 0 8 = Some (replicate 32 0)"
proof -
  obtain rest where "pad = replicate 7 0 @ rest"
    using assms by (metis append_take_drop_id)
  then have pad: "0 # pad = [0, 0, 0, 0, 0, 0, 0, 0] @ rest" by (simp add: numeral_eq_Suc)
  have "filename_len ([0, 0, 0, 0, 0, 0, 0, 0] @ rest) 8 = Some 0"
    by (simp add: filename_len.simps aget_def numeral_eq_Suc)
  then show ?thesis unfolding pad
    by (simp add: filename_from_path_def aset_def list_update_same_conv replicate_update)
qed

lemma init_direntry_root:
  assumes "alloc_faults s = []" "7 \<le> length (heap_pad s)" "take 7 (heap_pad s) = replicate 7 0"
  shows "\<exists>d. fat_file_init_direntry True [0x2F] c s = Some (Some d, s) \<and>
     attribs d = FILE_ATTRIBUTE_DIRECTORY \<and> file_start_cluster d = c \<and> file_size d = 0"
proof -
  have "filename_from_path (basename [0x2F] @ [0] @ heap_pad s) (replicate 32 0) 0 8 = Some (replicate 32 0)"
    using filename_from_path_empty [OF assms(2,3)] by (simp add: basename_def)
  from fat_file_init_direntry_eq [OF assms(1) this, of True c] show ?thesis by (metis (full_types))
qed

text \<open>The state with the root directory as the only file.\<close>

definition with_root :: "fat_dir_entry_s \<Rightarrow> 'a vstate_scheme \<Rightarrow> 'a vstate_scheme" where
  "with_root d s = s\<lparr>files := (files s)(next_ref s \<mapsto> \<lparr>dentry = Some d, fname = [], filepath = [0x2F],
       start_cluster = root_dir_start_cluster (vol s), nentries = 0, pos_in_parent = 0,
       num_times_opened = 0, children_read = False\<rparr>), next_ref := next_ref s + 1\<rparr>"

lemma init_file_tree_run:
  assumes "alloc_faults s = []" "errno s = 0" "7 \<le> length (heap_pad s)"
    "take 7 (heap_pad s) = replicate 7 0"
  shows "\<exists>d s'. init_file_tree s = Some s' \<and> attribs d = FILE_ATTRIBUTE_DIRECTORY \<and>
     file_start_cluster d = root_dir_start_cluster (vol s) \<and> content s' = content s \<and> table s' = table s \<and>
     files s' = files (with_root d s) \<and> errno s' = 0 \<and>
     file_tree (vol s') = Some (Some (next_node s)) \<and>
     vol s' = (vol s)\<lparr>file_tree := Some (Some (next_node s))\<rparr> \<and>
     tree_ok s' (Some (next_node s)) \<langle>\<langle>\<rangle>, (next_node s, [0x2F]), \<langle>\<rangle>\<rangle>"
proof -
  obtain d where d: "fat_file_init_direntry True [0x2F] (root_dir_start_cluster (vol s)) s = Some (Some d, s)"
    "attribs d = FILE_ATTRIBUTE_DIRECTORY" "file_start_cluster d = root_dir_start_cluster (vol s)"
    using init_direntry_root [OF assms(1,3,4)] by blast
  let ?s = "with_root d s"
  have root: "init_root_dir s = Some (Some (next_ref s), False, ?s)"
    using assms(1,2) d(1)
    by (simp add: init_root_dir_def fat_file_init_empty_def calloc_def new_file_at_def upd_file_def
        with_root_def)
  let ?t = "?s\<lparr>vol := (vol s)\<lparr>file_tree := Some None\<rparr>\<rparr>"
  let ?node = "\<lparr>h_data = Some (next_ref s), h_right = None, h_left = None, h_parent = None,
      h_next_sibling = None, h_children = None, h_size = 1\<rparr>"
  let ?u = "?t\<lparr>nodes := (nodes s)(next_node s \<mapsto> ?node), next_node := next_node s + 1\<rparr>"
  have ins: "h_tree_insert file_cmp None (Some (next_ref s)) None ?t = Some (Some (next_node s), ?u)"
    by (subst h_tree_insert.simps) (simp add: h_node_init_def Let_def with_root_def)
  let ?v = "?u\<lparr>vol := (vol s)\<lparr>file_tree := Some (Some (next_node s))\<rparr>\<rparr>"
  have "init_file_tree s = Some ?v"
    using root ins by (simp add: init_file_tree_def upd_vol_def fat_tree_init_def fat_tree_insert_def
        with_root_def)
  moreover have "tree_ok ?v (Some (next_node s)) \<langle>\<langle>\<rangle>, (next_node s, [0x2F]), \<langle>\<rangle>\<rangle>"
    by (simp add: tree_ok_def file_key_def get_file_def with_root_def)
  ultimately show ?thesis using d(2,3) assms(2)
    by (intro exI [of _ d] exI [of _ ?v]) (simp add: with_root_def)
qed

text \<open>The host and the state in which a mount can succeed.\<close>

definition mountable :: "host \<Rightarrow> 'a vstate_scheme \<Rightarrow> bool" where
  "mountable h s \<longleftrightarrow> open_ok h \<and> mmap_ok h \<and> (\<exists>p\<le>31. page_size h = 2 ^ p) \<and>
     faults s = [] \<and> alloc_faults s = [] \<and> 7 \<le> length (heap_pad s) \<and>
     take 7 (heap_pad s) = replicate 7 0 \<and> 128 \<le> length (content s) \<and> boot_ok (take 128 (content s))"

text \<open>The sectors before the data area, as the driver adds them up in 32 bits.\<close>

definition front_sectors :: "fat_volume_s \<Rightarrow> nat \<Rightarrow> u32" where
  "front_sectors v k = ucast (num_tables v) * sectors_per_fat v + ucast (reserved_sectors v) +
     ucast (drop_bit (k - 5) (max_root_entries v))"

text \<open>The allocation table of a mounted volume.\<close>

definition mounted_table :: "u8 list \<Rightarrow> nat \<Rightarrow> nat \<Rightarrow> fat_table_s" where
  "mounted_table img k c =
     (let b = take 128 img; v = boot_volume b k c zero_volume;
          off = unat (reserved_sectors v) * 2 ^ k
      in \<lparr>fat_map = words_of (take (unat (sectors_per_fat v) * 2 ^ k) (drop off img)),
          fat_offset = int off, num_data_clusters = drop_bit c (data_sectors b k),
          data_start_offset = int (unat (front_sectors v k) * 2 ^ k), cluster_order = k + c\<rparr>)"

lemma fat_volume_mount_run:
  assumes "mountable h s" "unat (le16_val (drop 11 (take 128 (content s)))) = 2 ^ k" "5 \<le> k" "k \<le> 12"
    "unat (take 128 (content s) ! 13) = 2 ^ c" "c \<le> 7"
  shows "fat_volume_mount h flags s = map_option (Pair True) (init_file_tree (s\<lparr>
      vol := (boot_volume (take 128 (content s)) k c zero_volume)\<lparr>mount_flags := flags,
        max_allocated_files := 100\<rparr>,
      table := mounted_table (content s) k c\<rparr>))"
proof -
  obtain p where p: "p \<le> 31" "page_size h = 2 ^ p" "open_ok h" "mmap_ok h" "faults s = []"
    "alloc_faults s = []" "128 \<le> length (content s)" "boot_ok (take 128 (content s))"
    using assms(1) by (auto simp: mountable_def)
  let ?b = "take 128 (content s)" and ?z = "s\<lparr>vol := zero_volume, table := zero_table\<rparr>"
  have k: "unat (of_nat k :: u16) = k" using assms(4) by (simp add: unat_of_nat)
  let ?v = "boot_volume ?b k c zero_volume"
  let ?s1 = "s\<lparr>vol := ?v, table := \<lparr>fat_map = [], fat_offset = 0,
      num_data_clusters = drop_bit c (data_sectors ?b k), data_start_offset = 0, cluster_order = k + c\<rparr>\<rparr>"
  have r1: "read_boot_sector h ?z = (0, ?s1)"
    using read_boot_sector_run [of ?z ?b k c h] p assms by (simp add: zero_table_def)
  have so: "sector_order (vol ?s1) = of_nat k" by (simp add: boot_volume_def)
  note r2 = map_fat_run [OF p(2,1,4) so assms(4)]
  show ?thesis
    using p(3,6) r1 r2
    by (cases "init_file_tree (s\<lparr>vol := ?v\<lparr>mount_flags := flags, max_allocated_files := 100\<rparr>,
          table := mounted_table (content s) k c\<rparr>)")
      (simp_all add: fat_volume_mount_def calloc_def upd_vol_def k so [simplified]
        mounted_table_def Let_def front_sectors_def push_bit_eq_mult)
qed

lemma unat_drop_bit: "unat (drop_bit c w) = unat w div 2 ^ c" for w :: "'a::len word"
proof -
  have "unat w < 2 ^ LENGTH('a)" by (rule unsigned_less)
  have "unat (drop_bit c w) = drop_bit c (take_bit LENGTH('a) (unat w))" by (rule unsigned_drop_bit_eq)
  also have "\<dots> = unat w div 2 ^ c"
    by (simp only: take_bit_nat_eq_self [OF \<open>unat w < 2 ^ LENGTH('a)\<close>] drop_bit_eq_div)
  finally show ?thesis .
qed

lemma unat_uminus_word:
  fixes w :: u32
  assumes "w \<noteq> 0" shows "unat (- w) = 2 ^ 32 - unat w"
proof -
  have w: "0 \<le> uint w" "uint w < 2 ^ 32" "uint w \<noteq> 0"
    using assms unsigned_less [of w] by (simp_all add: unsigned_eq_0_iff)
  have "uint (- w) = (- uint w) mod 2 ^ 32" using uint_word_ariths(4) [of w] by simp
  also have "\<dots> = 2 ^ 32 - uint w"
    using w by (subst zmod_zminus1_eq_if) (simp only: mod_pos_pos_trivial if_False)
  finally have "int (unat (- w)) = 2 ^ 32 - int (unat w)" by simp
  moreover have "unat w < 2 ^ LENGTH(32)" by (rule unsigned_less)
  then have "unat w \<le> 2 ^ 32" by simp
  ultimately have "int (unat (- w)) = int (2 ^ 32 - unat w)" by (simp add: of_nat_diff)
  then show ?thesis by (simp only: of_nat_eq_iff)
qed

lemma words_of_synced:
  assumes "table s = \<lparr>fat_map = words_of (take n (drop off (content s))), fat_offset = int off,
    num_data_clusters = N, data_start_offset = D, cluster_order = r\<rparr>"
  shows "fat_synced s"
proof -
  let ?bs = "take n (drop off (content s))"
  have "take 4 (drop (off + 4 * j) (content s)) = le32_bytes (le32_val (drop (4 * j) ?bs))"
    if "j < length ?bs div 4" for j
  proof -
    have len: "4 * j + 4 \<le> length ?bs" using that by linarith
    have "4 \<le> length (drop (4 * j) xs)" if "4 * j + 4 \<le> length xs" for xs :: "u8 list" using that by simp
    note long = this [OF len]
    have m4: "min 4 (n - j * 4) = 4" using len by (intro min_absorb1) (simp, linarith)
    then have "le32_bytes (le32_val (drop (4 * j) ?bs)) = take 4 (drop (4 * j) ?bs)"
      by (intro le32_bytes_take long)
    also have "\<dots> = take 4 (drop (off + 4 * j) (content s))"
      using len m4 by (simp add: drop_take ac_simps)
    finally show ?thesis by simp
  qed
  then show ?thesis
    using assms by (simp add: fat_synced_def fat_entry_on_disk_def words_of_def)
qed

text \<open>
  C27. A successful mount. On a host without faults, for an accepted boot sector, the volume is
  unchanged, the allocation table in memory is the one on the volume, behind the reserved sectors,
  clusters have the size of the boot sector, and the tree of files is a search tree with the root
  directory, which starts at the root cluster, as its only file.
\<close>

theorem fat_volume_mount_correct:
  assumes "mountable h s" and "errno s = 0"
  shows "\<exists>s' root f. fat_volume_mount h flags s = Some (True, s') \<and> content s' = content s \<and>
     fat_synced s' \<and>
     bpc (table s') = unat (le16_val (drop 11 (take 128 (content s)))) * unat (content s ! 13) \<and>
     fat_offset (table s') = uint (le16_val (drop 14 (take 128 (content s)))) *
       uint (le16_val (drop 11 (take 128 (content s)))) \<and>
     file_tree (vol s') = Some (Some root) \<and> tree_ok s' (Some root) \<langle>\<langle>\<rangle>, (root, [0x2F]), \<langle>\<rangle>\<rangle> \<and>
     files s' (next_ref s) = Some f \<and> fat_file_is_directory f \<and>
     start_cluster f = le32_val (drop 44 (take 128 (content s)))"
proof -
  let ?b = "take 128 (content s)"
  have m: "boot_ok ?b" "alloc_faults s = []" "7 \<le> length (heap_pad s)" "take 7 (heap_pad s) = replicate 7 0"
    using assms(1) by (auto simp: mountable_def)
  obtain k c where kc: "unat (le16_val (drop 11 ?b)) = 2 ^ k" "5 \<le> k" "k \<le> 12" "unat (?b ! 13) = 2 ^ c" "c \<le> 7"
    using boot_ok_orders [OF m(1)] by blast
  let ?s = "s\<lparr>vol := (boot_volume ?b k c zero_volume)\<lparr>mount_flags := flags, max_allocated_files := 100\<rparr>,
      table := mounted_table (content s) k c\<rparr>"
  obtain d s' where s': "init_file_tree ?s = Some s'" "attribs d = FILE_ATTRIBUTE_DIRECTORY"
    "content s' = content s" "table s' = mounted_table (content s) k c"
    "files s' = files (with_root d ?s)" "file_tree (vol s') = Some (Some (next_node s))"
    "tree_ok s' (Some (next_node s)) \<langle>\<langle>\<rangle>, (next_node s, [0x2F]), \<langle>\<rangle>\<rangle>"
    using init_file_tree_run [of ?s] m(2-4) assms(2) by auto
  have "fat_synced s'"
    by (rule words_of_synced [OF s'(4) [unfolded mounted_table_def Let_def s'(3) [symmetric]]])
  moreover have "uint (le16_val (drop 11 ?b)) = 2 ^ k"
    using kc(1) by (metis of_nat_numeral of_nat_power uint_nat)
  ultimately show ?thesis
    using fat_volume_mount_run [OF assms(1) kc, of flags] s' kc(1,4)
    by (simp add: mounted_table_def Let_def bpc_eq boot_volume_def with_root_def power_add
        fat_file_is_directory_def FILE_ATTRIBUTE_DIRECTORY_def)
qed

text \<open>
  A mount that meets every check still fails when \<open>errno\<close> was set before: \<open>init_root_dir\<close> takes
  the old value for an error of its own and frees the volume, which its caller then goes on to use.
\<close>

theorem fat_volume_mount_stale_errno:
  assumes "mountable h s" and "errno s \<noteq> 0"
  shows "fat_volume_mount h flags s = None"
proof -
  let ?b = "take 128 (content s)"
  have m: "boot_ok ?b" "alloc_faults s = []" "7 \<le> length (heap_pad s)" "take 7 (heap_pad s) = replicate 7 0"
    using assms(1) by (auto simp: mountable_def)
  obtain k c where kc: "unat (le16_val (drop 11 ?b)) = 2 ^ k" "5 \<le> k" "k \<le> 12" "unat (?b ! 13) = 2 ^ c" "c \<le> 7"
    using boot_ok_orders [OF m(1)] by blast
  let ?s = "s\<lparr>vol := (boot_volume ?b k c zero_volume)\<lparr>mount_flags := flags, max_allocated_files := 100\<rparr>,
      table := mounted_table (content s) k c\<rparr>"
  obtain d where "fat_file_init_direntry True [0x2F] (root_dir_start_cluster (vol ?s)) ?s = Some (Some d, ?s)"
    using init_direntry_root [of ?s] m(2-4) by auto
  then have "init_file_tree ?s = None"
    using assms(2) m(2)
    by (simp add: init_file_tree_def init_root_dir_def fat_file_init_empty_def calloc_def new_file_at_def)
  then show ?thesis using fat_volume_mount_run [OF assms(1) kc, of flags] by simp
qed

text \<open>
  The 32-bit sector count is never read, although a comment announces it. When the 16-bit count is
  0, as on every FAT32 volume of the standard form, the number of clusters is computed from 0 sectors: it
  wraps around to nearly the whole 32-bit range, whatever the size of the volume.
\<close>

theorem read_boot_sector_ignores_total_32:
  assumes "faults s = []" and "128 \<le> length (content s)" and "boot_ok (take 128 (content s))"
    and "le16_val (drop 19 (take 128 (content s))) = 0" and "le16_val (drop 17 (take 128 (content s))) = 0"
    and "le16_val (drop 14 (take 128 (content s))) \<noteq> 0"
  shows "\<exists>s'. read_boot_sector h s = (0, s') \<and> unat (num_data_clusters (table s')) =
     (2 ^ 32 - unat (le16_val (drop 14 (take 128 (content s))))) div unat (content s ! 13)"
proof -
  let ?b = "take 128 (content s)"
  obtain k c where kc: "unat (le16_val (drop 11 ?b)) = 2 ^ k" "5 \<le> k" "k \<le> 12" "unat (?b ! 13) = 2 ^ c" "c \<le> 7"
    using boot_ok_orders [OF assms(3)] by blast
  let ?r = "ucast (le16_val (drop 14 ?b)) :: u32"
  have r: "unat ?r = unat (le16_val (drop 14 ?b))" "?r \<noteq> 0"
    using assms(6) by (simp_all add: unat_wide flip: unat_eq_zero)
  have "data_sectors ?b k = - ?r" using assms(4,5) by (simp add: data_sectors_def)
  moreover have "unat (- ?r) = 2 ^ 32 - unat ?r" by (rule unat_uminus_word [OF r(2)])
  ultimately have "unat (drop_bit c (data_sectors ?b k)) = (2 ^ 32 - unat (le16_val (drop 14 ?b))) div 2 ^ c"
    by (simp only: unat_drop_bit r(1))
  then show ?thesis
    using read_boot_sector_run [OF assms(1,2) refl assms(3) kc, of h] kc(4) by simp
qed

text \<open>The sectors of one allocation table, and the data sectors and front sectors as numbers.\<close>

definition table_sectors :: "u8 list \<Rightarrow> u32" where
  "table_sectors b = (if le32_val (drop 36 b) \<noteq> 0 then le32_val (drop 36 b)
     else ucast (le16_val (drop 22 b)))"

lemma data_sectors_unat:
  assumes "le16_val (drop 17 b) = 0" "unat (le16_val (drop 14 b)) \<le> unat (le16_val (drop 19 b))"
  shows "unat (data_sectors b k) = unat (le16_val (drop 19 b)) - unat (le16_val (drop 14 b))"
proof -
  have "ucast (le16_val (drop 14 b)) \<le> (ucast (le16_val (drop 19 b)) :: u32)"
    using assms(2) by (simp add: word_le_nat_alt unat_wide)
  then show ?thesis using assms(1) by (simp add: data_sectors_def unat_sub unat_wide)
qed

lemma front_sectors_unat:
  assumes "le16_val (drop 17 b) = 0"
    "unat (b ! 16) * unat (table_sectors b) + unat (le16_val (drop 14 b)) < 2 ^ 32"
  shows "unat (front_sectors (boot_volume b k c v) k) =
     unat (b ! 16) * unat (table_sectors b) + unat (le16_val (drop 14 b))"
proof -
  have "front_sectors (boot_volume b k c v) k =
      ucast (b ! 16) * table_sectors b + ucast (le16_val (drop 14 b))"
    using assms(1) by (simp add: front_sectors_def boot_volume_def table_sectors_def)
  then show ?thesis using assms(2) by (simp add: unat_word_ariths unat_wide)
qed

text \<open>
  The allocation tables are counted twice. The number of clusters is computed without subtracting the
  sectors of the tables, while the data area starts behind them: the clusters that the driver takes for
  valid end past the end of the volume by as many sectors as the tables have.
\<close>

theorem fat_volume_mount_past_end:
  assumes "mountable h s" and "errno s = 0" and "b = take 128 (content s)"
    and "le16_val (drop 17 b) = 0" and "unat (le16_val (drop 14 b)) \<le> unat (le16_val (drop 19 b))"
    and "unat (b ! 13) dvd unat (le16_val (drop 19 b)) - unat (le16_val (drop 14 b))"
    and "unat (b ! 16) * unat (table_sectors b) + unat (le16_val (drop 14 b)) < 2 ^ 32"
    and "length (content s) = unat (le16_val (drop 19 b)) * unat (le16_val (drop 11 b))"
  shows "\<exists>s'. fat_volume_mount h flags s = Some (True, s') \<and>
     data_start_offset (table s') + int (unat (num_data_clusters (table s')) * bpc (table s')) =
       int (length (content s) + unat (b ! 16) * unat (table_sectors b) * unat (le16_val (drop 11 b))) \<and>
     (table_sectors b \<noteq> 0 \<longrightarrow> \<not> volume_wf s')"
proof -
  have m: "boot_ok b" "alloc_faults s = []" "7 \<le> length (heap_pad s)" "take 7 (heap_pad s) = replicate 7 0"
    using assms(1,3) by (auto simp: mountable_def)
  obtain k c where kc: "unat (le16_val (drop 11 b)) = 2 ^ k" "5 \<le> k" "k \<le> 12" "unat (b ! 13) = 2 ^ c" "c \<le> 7"
    using boot_ok_orders [OF m(1)] by blast
  let ?s = "s\<lparr>vol := (boot_volume b k c zero_volume)\<lparr>mount_flags := flags, max_allocated_files := 100\<rparr>,
      table := mounted_table (content s) k c\<rparr>"
  obtain s' where s': "init_file_tree ?s = Some s'" "content s' = content s"
    "table s' = mounted_table (content s) k c"
    using init_file_tree_run [of ?s] m(2-4) assms(2) by auto
  let ?T = "unat (le16_val (drop 19 b))" and ?R = "unat (le16_val (drop 14 b))"
    and ?F = "unat (b ! 16) * unat (table_sectors b)"
  have "unat (num_data_clusters (table s')) * bpc (table s') = (?T - ?R) div 2 ^ c * 2 ^ c * 2 ^ k"
    using s'(3) data_sectors_unat [OF assms(4,5)]
    by (simp add: mounted_table_def Let_def bpc_eq unat_drop_bit power_add flip: assms(3))
  also have "\<dots> = (?T - ?R) * 2 ^ k" using assms(6) kc(4) by simp
  finally have n: "unat (num_data_clusters (table s')) * bpc (table s') = (?T - ?R) * 2 ^ k" .
  have d: "data_start_offset (table s') = int ((?F + ?R) * 2 ^ k)"
    unfolding s'(3) mounted_table_def Let_def assms(3) [symmetric]
    by (simp only: fat_table_s.select_convs front_sectors_unat [OF assms(4,7)])
  have "(?F + ?R) * 2 ^ k + (?T - ?R) * 2 ^ k = ?T * 2 ^ k + ?F * 2 ^ k"
    using assms(5) by (simp flip: add_mult_distrib)
  then have sum: "data_start_offset (table s') + int (unat (num_data_clusters (table s')) * bpc (table s')) =
      int (length (content s') + ?F * 2 ^ k)"
    unfolding n d using assms(8) kc(1) s'(2) by (simp flip: of_nat_add of_nat_mult)
  have "\<not> volume_wf s'" if "table_sectors b \<noteq> 0"
  proof
    assume "volume_wf s'"
    then have "nat (data_start_offset (table s')) + unat (num_data_clusters (table s')) * bpc (table s')
        \<le> length (content s')" by (simp only: volume_wf_def)
    moreover have "int (nat (data_start_offset (table s'))) = data_start_offset (table s')"
      unfolding d by (simp only: nat_int)
    ultimately have "data_start_offset (table s') + int (unat (num_data_clusters (table s')) * bpc (table s'))
        \<le> int (length (content s'))" by linarith
    then have "int (?F * 2 ^ k) \<le> 0" unfolding sum of_nat_add by linarith
    then have "?F * 2 ^ k = 0" by linarith
    moreover have "b ! 16 \<noteq> 0" using m(1) by (auto simp: boot_ok_def)
    ultimately show False using that by (simp add: unat_eq_zero)
  qed
  moreover have "fat_volume_mount h flags s = Some (True, s')"
    using fat_volume_mount_run [of h s k c flags] assms(1) kc s'(1) by (simp flip: assms(3))
  ultimately show ?thesis using sum kc(1) s'(2) by auto
qed

section \<open>Witnesses\<close>

lemma small_mountable: "mountable good_host (small_device small_image)"
proof -
  have "\<exists>p\<le>31. page_size good_host = 2 ^ p"
    by (rule exI [of _ 12]) (simp add: good_host_def)
  then show ?thesis by (simp add: mountable_def good_host_def small_image_fields)
qed

theorem fat_volume_mount_correct_witness:
  "\<exists>s' root. fat_volume_mount good_host 2 (small_device small_image) = Some (True, s') \<and>
     fat_synced s' \<and> bpc (table s') = 32 \<and> fat_offset (table s') = 128 \<and>
     tree_ok s' (Some root) \<langle>\<langle>\<rangle>, (root, [0x2F]), \<langle>\<rangle>\<rangle>"
  using fat_volume_mount_correct [OF small_mountable, of 2] by (auto simp: small_image_fields)

theorem fat_volume_mount_stale_errno_witness:
  "fat_volume_mount good_host 2 (small_device small_image\<lparr>errno := 25\<rparr>) = None"
proof -
  have "mountable good_host (small_device small_image\<lparr>errno := 25\<rparr>)"
    using small_mountable by (simp add: mountable_def)
  then show ?thesis by (rule fat_volume_mount_stale_errno) simp
qed

theorem fat_volume_mount_past_end_witness:
  "\<exists>s'. fat_volume_mount good_host 2 (small_device small_image) = Some (True, s') \<and>
     data_start_offset (table s') + int (unat (num_data_clusters (table s')) * bpc (table s')) = 384"
proof -
  have "table_sectors (take 128 small_image) = 1"
    by (simp add: table_sectors_def small_image_fields)
  with fat_volume_mount_past_end [OF small_mountable _ refl, of 2] show ?thesis
    by (auto simp: small_image_fields)
qed

lemma small_image_32:
  "length (small_image[19 := 0]) = 352" "boot_ok (take 128 (small_image[19 := 0]))"
  "le16_val (drop 19 (take 128 (small_image[19 := 0]))) = 0" "small_image[19 := 0] ! 13 = 1"
  "le16_val (drop 17 (take 128 (small_image[19 := 0]))) = 0"
  "le16_val (drop 14 (take 128 (small_image[19 := 0]))) = 4"
  by code_simp+

theorem read_boot_sector_ignores_total_32_witness:
  "\<exists>s'. read_boot_sector good_host (small_device (small_image[19 := 0])) = (0, s') \<and>
     unat (num_data_clusters (table s')) = 2 ^ 32 - 4"
  using read_boot_sector_ignores_total_32 [of "small_device (small_image[19 := 0])" good_host]
  by (simp only: small_device_simps small_image_32) simp

end
