(* ===== verification/Fat_Ops.thy ===== *)
theory Fat_Ops
  imports Fat_Volume
begin

text \<open>
  The file-system operations that the driver offers to FUSE, \<open>lab4/esqueleto/fat_fuse_ops.c\<close>. The
  mounted volume is the context of every call; a file handle is a pointer to a node of the tree.
  What comes from outside is a record: the formatted date and the login name for the log,
  and the answer of the function that collects the names of a directory.
\<close>

section \<open>Paths and the log\<close>

definition strip_slashes :: "u8 list \<Rightarrow> u8 list" where
  "strip_slashes p = rev (dropWhile (\<lambda>c. c = 0x2F) (rev p))"

text \<open>\<open>dirname\<close>, as POSIX has it.\<close>

definition dirname :: "u8 list \<Rightarrow> u8 list" where
  "dirname p =
     (let q = strip_slashes p
      in if q = [] then (if p = [] then [0x2E] else [0x2F])
         else if 0x2F \<notin> set q then [0x2E]
         else let d = strip_slashes (rev (dropWhile (\<lambda>c. c \<noteq> 0x2F) (rev q)))
              in if d = [] then [0x2F] else d)"

record fuse_env =
  log_date :: "u8 list"
  login :: "u8 list option"
  filler :: "u8 list list \<Rightarrow> u8 list \<Rightarrow> int"

definition log_path :: "u8 list" where
  "log_path = bytes_of ''/fs.log''"

text \<open>The message is put together in an array of 100 bytes, its terminator included.\<close>

definition LOG_MESSAGE_SIZE :: nat where "LOG_MESSAGE_SIZE = 100"

definition log_message :: "fuse_env \<Rightarrow> u8 list \<Rightarrow> u8 list \<Rightarrow> u8 list option" where
  "log_message e path operation_type = do {
     name \<leftarrow> login e;
     let m = log_date e @ [9] @ name @ [9] @ path @ [9] @ operation_type @ [10];
     assert_c (length m + 1 \<le> LOG_MESSAGE_SIZE);
     Some m }"

definition fat_fuse_log_activity ::
  "fuse_env \<Rightarrow> u8 list \<Rightarrow> nat option \<Rightarrow> 'a vstate_scheme \<Rightarrow> 'a vstate_scheme option" where
  "fat_fuse_log_activity e operation_type target_file s = do {
     t \<leftarrow> get_file s target_file;
     buf \<leftarrow> log_message e (filepath t) operation_type;
     (log_node, s) \<leftarrow> fat_tree_node_search (file_tree (vol s)) log_path s;
     (fs_log, s) \<leftarrow> fat_tree_get_file log_node s;
     (parent, s) \<leftarrow> fat_tree_get_parent log_node s;
     d \<leftarrow> get_dentry s fs_log;
     let offset = uint (file_size d);
     (_, s) \<leftarrow> fat_file_pwrite fs_log (store_at (\<lambda>_. 0) 0 buf) (length buf) offset parent s;
     Some s }"

section \<open>Attributes, opening and closing\<close>

definition fat_fuse_fgetattr ::
  "nat option \<Rightarrow> 'a vstate_scheme \<Rightarrow> (int \<times> stat \<times> 'a vstate_scheme) option" where
  "fat_fuse_fgetattr fh s = do {
     (file, s) \<leftarrow> fat_tree_get_file fh s;
     f \<leftarrow> get_file s file;
     st \<leftarrow> fat_file_to_stbuf (table s) (clk s) f;
     Some (0, st, s) }"

definition fat_fuse_getattr ::
  "u8 list \<Rightarrow> 'a vstate_scheme \<Rightarrow> (int \<times> stat option \<times> 'a vstate_scheme) option" where
  "fat_fuse_getattr path s = do {
     (file, s) \<leftarrow> fat_tree_search (file_tree (vol s)) path s;
     if file = None then Some (- ENOENT, None, s\<lparr>errno := ENOENT\<rparr>)
     else do {
       f \<leftarrow> get_file s file;
       st \<leftarrow> fat_file_to_stbuf (table s) (clk s) f;
       Some (0, Some st, s) } }"

text \<open>The handle \<open>fh\<close> of the caller's structure goes in and comes out.\<close>

definition fat_fuse_open ::
  "u8 list \<Rightarrow> nat option \<Rightarrow> 'a vstate_scheme \<Rightarrow> (int \<times> nat option \<times> 'a vstate_scheme) option" where
  "fat_fuse_open path fh s = do {
     (file_node, s) \<leftarrow> fat_tree_node_search (file_tree (vol s)) path s;
     if file_node = None then Some (- errno s, fh, s)
     else do {
       (file, s) \<leftarrow> fat_tree_get_file file_node s;
       f \<leftarrow> get_file s file;
       if fat_file_is_directory f then Some (- EISDIR, fh, s)
       else do {
         s \<leftarrow> fat_tree_inc_num_times_opened file_node s;
         Some (0, file_node, s) } } }"

definition fat_fuse_opendir ::
  "u8 list \<Rightarrow> nat option \<Rightarrow> 'a vstate_scheme \<Rightarrow> (int \<times> nat option \<times> 'a vstate_scheme) option" where
  "fat_fuse_opendir path fh s = do {
     (file_node, s) \<leftarrow> fat_tree_node_search (file_tree (vol s)) path s;
     if file_node = None then Some (- errno s, fh, s)
     else do {
       (file, s) \<leftarrow> fat_tree_get_file file_node s;
       f \<leftarrow> get_file s file;
       if \<not> fat_file_is_directory f then Some (- ENOTDIR, fh, s)
       else do {
         s \<leftarrow> fat_tree_inc_num_times_opened file_node s;
         Some (0, file_node, s) } } }"

definition fat_fuse_release :: "nat option \<Rightarrow> 'a vstate_scheme \<Rightarrow> (int \<times> 'a vstate_scheme) option" where
  "fat_fuse_release fh s = do { s \<leftarrow> fat_tree_dec_num_times_opened fh s; Some (0, s) }"

definition fat_fuse_releasedir :: "nat option \<Rightarrow> 'a vstate_scheme \<Rightarrow> (int \<times> 'a vstate_scheme) option" where
  "fat_fuse_releasedir fh s = do { s \<leftarrow> fat_tree_dec_num_times_opened fh s; Some (0, s) }"

section \<open>Creating\<close>

definition fat_fuse_mkdir :: "u8 list \<Rightarrow> 'a vstate_scheme \<Rightarrow> (int \<times> 'a vstate_scheme) option" where
  "fat_fuse_mkdir path s = do {
     let s = s\<lparr>errno := 0\<rparr>;
     (parent_node, s) \<leftarrow> fat_tree_node_search (file_tree (vol s)) (dirname path) s;
     if parent_node = None then Some (- ENOENT, s\<lparr>errno := ENOENT\<rparr>)
     else do {
       (parent, s) \<leftarrow> fat_tree_get_file parent_node s;
       p \<leftarrow> get_file s parent;
       if \<not> fat_file_is_directory p then Some (- ENOTDIR, s\<lparr>errno := ENOTDIR\<rparr>)
       else do {
         (new_file, s) \<leftarrow> fat_file_init True path s;
         if errno s \<noteq> 0 then Some (- errno s, s)
         else do {
           (tree, s) \<leftarrow> fat_tree_insert (file_tree (vol s)) parent_node new_file s;
           let s = upd_vol (\<lambda>v. v\<lparr>file_tree := tree\<rparr>) s;
           s \<leftarrow> fat_file_dentry_add_child parent new_file s;
           Some (- errno s, s) } } } }"

definition fat_fuse_mknod :: "u8 list \<Rightarrow> 'a vstate_scheme \<Rightarrow> (int \<times> 'a vstate_scheme) option" where
  "fat_fuse_mknod path s = do {
     let s = s\<lparr>errno := 0\<rparr>;
     (parent_node, s) \<leftarrow> fat_tree_node_search (file_tree (vol s)) (dirname path) s;
     if parent_node = None then Some (- ENOENT, s\<lparr>errno := ENOENT\<rparr>)
     else do {
       (parent, s) \<leftarrow> fat_tree_get_file parent_node s;
       p \<leftarrow> get_file s parent;
       if \<not> fat_file_is_directory p then Some (- ENOTDIR, s\<lparr>errno := ENOTDIR\<rparr>)
       else do {
         (new_file, s) \<leftarrow> fat_file_init False path s;
         if errno s < 0 then Some (- errno s, s)
         else do {
           (tree, s) \<leftarrow> fat_tree_insert (file_tree (vol s)) parent_node new_file s;
           let s = upd_vol (\<lambda>v. v\<lparr>file_tree := tree\<rparr>) s;
           s \<leftarrow> fat_file_dentry_add_child parent new_file s;
           Some (- errno s, s) } } } }"

section \<open>Reading directories\<close>

definition fat_fuse_log_init :: "fuse_env \<Rightarrow> 'a vstate_scheme \<Rightarrow> 'a vstate_scheme option" where
  "fat_fuse_log_init e s = do {
     (fs_log, s) \<leftarrow> fat_tree_search (file_tree (vol s)) log_path s;
     if fs_log = None then do {
       (ret, s) \<leftarrow> fat_fuse_mknod log_path s;
       if ret \<noteq> 0 then Some s
       else do {
         (fs_log, s) \<leftarrow> fat_tree_search (file_tree (vol s)) log_path s;
         fat_fuse_log_activity e (bytes_of ''INIT'') fs_log s } }
     else Some s }"

fun insert_children_loop ::
  "nat option \<Rightarrow> nat option list \<Rightarrow> 'a vstate_scheme \<Rightarrow> 'a vstate_scheme option" where
  "insert_children_loop dir_node [] s = Some s"
| "insert_children_loop dir_node (l # ls) s = do {
     (tree, s) \<leftarrow> fat_tree_insert (file_tree (vol s)) dir_node l s;
     insert_children_loop dir_node ls (upd_vol (\<lambda>v. v\<lparr>file_tree := tree\<rparr>) s) }"

definition fat_fuse_read_children :: "nat option \<Rightarrow> 'a vstate_scheme \<Rightarrow> 'a vstate_scheme option" where
  "fat_fuse_read_children dir_node s = do {
     (dir, s) \<leftarrow> fat_tree_get_file dir_node s;
     (children_list, s) \<leftarrow> fat_file_read_children dir s;
     insert_children_loop dir_node children_list s }"

text \<open>
  The names go to the collecting function one by one until it refuses one or the array of
  children ends with its null pointer. The result is \<open>True\<close> after a refusal.
\<close>

fun fill_loop :: "fuse_env \<Rightarrow> 'a vstate_scheme \<Rightarrow> nat option list \<Rightarrow> u8 list list \<Rightarrow>
    (bool \<times> u8 list list) option" where
  "fill_loop e s [] names = None"
| "fill_loop e s (None # cs) names = Some (False, names)"
| "fill_loop e s (Some c # cs) names = do {
     f \<leftarrow> files s c;
     if fname f \<noteq> fs_log_name then
       (if filler e names (fname f) \<noteq> 0 then Some (True, names)
        else fill_loop e s cs (names @ [fname f]))
     else fill_loop e s cs names }"

definition fat_fuse_readdir :: "fuse_env \<Rightarrow> nat option \<Rightarrow> 'a vstate_scheme \<Rightarrow>
    (int \<times> u8 list list \<times> 'a vstate_scheme) option" where
  "fat_fuse_readdir e fh s = do {
     let s = s\<lparr>errno := 0\<rparr>;
     (dir, s) \<leftarrow> fat_tree_get_file fh s;
     let dot = bytes_of ''.'';
     let dotdot = bytes_of ''..'';
     if filler e [] dot \<noteq> 0 then Some (- errno s, [], s)
     else if filler e [dot] dotdot \<noteq> 0 then Some (- errno s, [dot], s)
     else do {
       d \<leftarrow> get_file s dir;
       if \<not> fat_file_is_directory d then Some (- ENOTDIR, [dot, dotdot], s\<lparr>errno := ENOTDIR\<rparr>)
       else do {
         s \<leftarrow> (if \<not> children_read d then fat_fuse_read_children fh s else Some s);
         if \<not> children_read d \<and> errno s < 0 then Some (- errno s, [dot, dotdot], s)
         else do {
           children \<leftarrow> fat_tree_flatten_h_children fh s;
           cs \<leftarrow> children;
           (refused, names) \<leftarrow> fill_loop e s cs [dot, dotdot];
           if refused then Some (- errno s, names, s)
           else do {
             s \<leftarrow> fat_fuse_log_init e s;
             Some (0, names, s) } } } } }"

section \<open>Reading and writing files\<close>

definition fat_fuse_read :: "fuse_env \<Rightarrow> nat option \<Rightarrow> buffer \<Rightarrow> nat \<Rightarrow> int \<Rightarrow> 'a vstate_scheme \<Rightarrow>
    (int \<times> buffer \<times> 'a vstate_scheme) option" where
  "fat_fuse_read e fh buf len offset s = do {
     let s = s\<lparr>errno := 0\<rparr>;
     (file, s) \<leftarrow> fat_tree_get_file fh s;
     (parent, s) \<leftarrow> fat_tree_get_parent fh s;
     (bytes_read, buf, s) \<leftarrow> fat_file_pread file buf len offset parent s;
     if errno s \<noteq> 0 then Some (- errno s, buf, s)
     else do {
       s \<leftarrow> fat_fuse_log_activity e (bytes_of ''read'') file s;
       Some (bytes_read, buf, s) } }"

definition fat_fuse_write :: "fuse_env \<Rightarrow> nat option \<Rightarrow> buffer \<Rightarrow> nat \<Rightarrow> int \<Rightarrow> 'a vstate_scheme \<Rightarrow>
    (int \<times> 'a vstate_scheme) option" where
  "fat_fuse_write e fh buf len offset s = do {
     (file, s) \<leftarrow> fat_tree_get_file fh s;
     (parent, s) \<leftarrow> fat_tree_get_parent fh s;
     if len = 0 then Some (0, s)
     else do {
       d \<leftarrow> get_dentry s file;
       if offset > uint (file_size d) then Some (- EOVERFLOW, s)
       else do {
         s \<leftarrow> fat_fuse_log_activity e (bytes_of ''write'') file s;
         fat_file_pwrite file buf len offset parent s } } }"

section \<open>Removing\<close>

text \<open>The end of \<open>unlink\<close> and \<open>rmdir\<close>: free the chain, clear the size, remove the entry and the node.\<close>

definition remove_file ::
  "u8 list \<Rightarrow> nat option \<Rightarrow> nat option \<Rightarrow> 'a vstate_scheme \<Rightarrow> (int \<times> 'a vstate_scheme) option" where
  "remove_file path file parent s = do {
     f \<leftarrow> get_file s file;
     s \<leftarrow> free_clusters_loop (start_cluster f) s;
     s \<leftarrow> upd_dentry file (\<lambda>d. d\<lparr>file_size := 0\<rparr>) s;
     s \<leftarrow> fat_file_dentry_remove_child parent file s;
     (tree, s) \<leftarrow> fat_tree_delete (file_tree (vol s)) path s;
     let s = upd_vol (\<lambda>v. v\<lparr>file_tree := tree\<rparr>) s;
     Some (- errno s, s) }"

definition fat_fuse_unlink :: "u8 list \<Rightarrow> 'a vstate_scheme \<Rightarrow> (int \<times> 'a vstate_scheme) option" where
  "fat_fuse_unlink path s = do {
     let s = s\<lparr>errno := 0\<rparr>;
     (file_node, s) \<leftarrow> fat_tree_node_search (file_tree (vol s)) path s;
     if file_node = None \<or> errno s \<noteq> 0 then Some (- ENOENT, s\<lparr>errno := ENOENT\<rparr>)
     else do {
       (file, s) \<leftarrow> fat_tree_get_file file_node s;
       f \<leftarrow> get_file s file;
       if fat_file_is_directory f then Some (- EISDIR, s)
       else do {
         (parent, s) \<leftarrow> fat_tree_get_parent file_node s;
         p \<leftarrow> get_file s parent;
         if \<not> fat_file_is_directory p then Some (- ENOTDIR, s\<lparr>errno := ENOTDIR\<rparr>)
         else remove_file path file parent s } } }"

definition fat_fuse_rmdir :: "u8 list \<Rightarrow> 'a vstate_scheme \<Rightarrow> (int \<times> 'a vstate_scheme) option" where
  "fat_fuse_rmdir path s = do {
     let s = s\<lparr>errno := 0\<rparr>;
     (file_node, s) \<leftarrow> fat_tree_node_search (file_tree (vol s)) path s;
     if file_node = None \<or> errno s \<noteq> 0 then Some (- ENOENT, s\<lparr>errno := ENOENT\<rparr>)
     else do {
       (file, s) \<leftarrow> fat_tree_get_file file_node s;
       f \<leftarrow> get_file s file;
       if \<not> fat_file_is_directory f then Some (- ENOTDIR, s)
       else do {
         (parent, s) \<leftarrow> fat_tree_get_parent file_node s;
         p \<leftarrow> get_file s parent;
         if \<not> fat_file_is_directory p then Some (- ENOTDIR, s\<lparr>errno := ENOTDIR\<rparr>)
         else do {
           (children_list, s) \<leftarrow> fat_file_read_children file s;
           if length children_list > 0 then Some (- ENOTEMPTY, s\<lparr>errno := ENOTEMPTY\<rparr>)
           else remove_file path file parent s } } } }"

section \<open>Times and truncation\<close>

definition fat_fuse_utime ::
  "u8 list \<Rightarrow> int \<Rightarrow> int \<Rightarrow> 'a vstate_scheme \<Rightarrow> (int \<times> 'a vstate_scheme) option" where
  "fat_fuse_utime path actime modtime s = do {
     let s = s\<lparr>errno := 0\<rparr>;
     (file_node, s) \<leftarrow> fat_tree_node_search (file_tree (vol s)) path s;
     if file_node = None \<or> errno s \<noteq> 0 then Some (- ENOENT, s\<lparr>errno := ENOENT\<rparr>)
     else do {
       (parent, s) \<leftarrow> fat_tree_get_parent file_node s;
       if parent = None \<or> errno s \<noteq> 0 then Some (0, s)
       else do {
         (file, s) \<leftarrow> fat_tree_get_file file_node s;
         s \<leftarrow> fat_utime file parent actime modtime s;
         Some (- errno s, s) } } }"

definition fat_fuse_truncate :: "u8 list \<Rightarrow> int \<Rightarrow> 'a vstate_scheme \<Rightarrow> (int \<times> 'a vstate_scheme) option" where
  "fat_fuse_truncate path offset s = do {
     let s = s\<lparr>errno := 0\<rparr>;
     (file_node, s) \<leftarrow> fat_tree_node_search (file_tree (vol s)) path s;
     if file_node = None \<or> errno s \<noteq> 0 then Some (- ENOENT, s\<lparr>errno := ENOENT\<rparr>)
     else do {
       (file, s) \<leftarrow> fat_tree_get_file file_node s;
       f \<leftarrow> get_file s file;
       if fat_file_is_directory f then Some (- EISDIR, s)
       else do {
         (parent, s) \<leftarrow> fat_tree_get_parent file_node s;
         s \<leftarrow> fat_tree_inc_num_times_opened file_node s;
         s \<leftarrow> fat_file_truncate file offset parent s;
         Some (- errno s, s) } } }"

section \<open>What deletion leaves alone\<close>

text \<open>Everything but the nodes and the file objects.\<close>

definition rest :: "'a hstate_scheme \<Rightarrow> 'a hstate_scheme" where
  "rest s = s\<lparr>nodes := Map.empty, files := Map.empty\<rparr>"

lemma rest_fields:
  assumes "rest s' = rest s"
  shows "content s' = content s" "table s' = table s" "errno s' = errno s" "faults s' = faults s"
    "clk s' = clk s" "hstate.more s' = hstate.more s" "next_node s' = next_node s"
  using assms by (cases s; cases s'; simp add: rest_def)+

lemma rest_upd [simp]: "rest (s\<lparr>nodes := x\<rparr>) = rest s" "rest (s\<lparr>files := y\<rparr>) = rest s"
  by (cases s; simp add: rest_def)+

lemma rest_steps:
  "upd_node p g s = Some s' \<Longrightarrow> rest s' = rest s"
  "free_node p s = Some s' \<Longrightarrow> rest s' = rest s"
  "update_size p s = Some s' \<Longrightarrow> rest s' = rest s"
  "fat_file_destroy d s = Some s' \<Longrightarrow> rest s' = rest s"
  by (auto simp: upd_node_def free_node_def update_size_def fat_file_destroy_def
      bind_eq_Some_conv split: option.splits)

lemma swap_nodes_rest: "swap_nodes p q s = Some s' \<Longrightarrow> rest s' = rest s"
  unfolding swap_nodes_def Let_def
  by (elim bind_eq_SomeE) (simp add: rest_steps)

text \<open>Every node that is the parent of another has children.\<close>

definition family_ok :: "'a hstate_scheme \<Rightarrow> bool" where
  "family_ok s \<longleftrightarrow> (\<forall>p n q m. nodes s p = Some n \<and> h_parent n = Some q \<and> nodes s q = Some m \<longrightarrow>
     h_children m \<noteq> None)"

lemma remove_child_rest:
  assumes "remove_child_from_h p s = Some s'" "family_ok s"
  shows "rest s' = rest s"
proof -
  have fam: False if "nodes s r = Some n" "h_parent n = Some q" "nodes s q = Some m" "h_children m = None"
    for r n q m using that assms(2) unfolding family_ok_def by blast
  show ?thesis
    using assms(1) unfolding remove_child_from_h_def Let_def
    by (auto simp: bind_eq_Some_conv rest_steps(1) split: if_splits dest: fam)
qed

lemma minimum_loop_rest:
  assumes "minimum_loop p mp s = Some y"
  shows "rest (snd (snd y)) = rest s"
proof (rule minimum_loop.raw_induct [of "\<lambda>p mp s y. rest (snd (snd y)) = rest s", OF _ assms])
  fix f p mp s y
  assume IH: "\<And>p mp s y. f p mp s = Some y \<Longrightarrow> rest (snd (snd y)) = rest s"
    and y: "do {
     m \<leftarrow> is_minimum p s;
     if \<not> m then do {
       n \<leftarrow> get_node s p;
       let minimum = h_left n;
       let minimum_parent = minimum;
       s \<leftarrow> upd_node minimum_parent (\<lambda>n. n\<lparr>h_size := h_size n - 1\<rparr>) s;
       f minimum minimum_parent s }
     else Some (p, mp, s) } = Some y"
  then show "rest (snd (snd y)) = rest s"
    by (auto simp: bind_eq_Some_conv Let_def rest_steps split: if_splits dest!: IH)
qed


lemma swap_tail_rest:
  assumes "do {
     q \<leftarrow> get_node s mp0;
     s \<leftarrow> upd_node mp0 g s;
     (minimum, minimum_parent, s) \<leftarrow> minimum_loop (h_left q) mp0 s;
     s \<leftarrow> swap_nodes p minimum s;
     (l, s) \<leftarrow> f p s;
     s \<leftarrow> upd_node minimum_parent (\<lambda>k. k\<lparr>h_left := l\<rparr>) s;
     Some (minimum, s) } = Some y"
    "\<And>p s y. f p s = Some y \<Longrightarrow> rest (snd y) = rest s"
  shows "rest (snd y) = rest s"
  using assms(1)
  by (auto simp: bind_eq_Some_conv dest!: rest_steps(1) minimum_loop_rest swap_nodes_rest assms(2))

lemma delete_root_rest:
  assumes "delete_root fat_file_destroy p s = Some y"
  shows "rest (snd y) = rest s"
proof -
  have "destroy = fat_file_destroy \<longrightarrow> rest (snd y) = rest s"
    if "delete_root destroy p s = Some y" for destroy p s y
  proof (rule delete_root.raw_induct
      [of "\<lambda>destroy p s y. destroy = fat_file_destroy \<longrightarrow> rest (snd y) = rest s", OF _ that], rule impI)
    fix f destroy p s y
    assume IH: "\<And>destroy p s y. f destroy p s = Some y \<Longrightarrow> destroy = fat_file_destroy \<longrightarrow> rest (snd y) = rest s"
      and y: "do {
       n \<leftarrow> get_node s p;
       s \<leftarrow> (if h_data n \<noteq> None then destroy (h_data n) s else Some s);
       n \<leftarrow> get_node s p;
       if h_left n = None \<or> h_right n = None then do {
         let minimum = (if h_left n = None then h_right n else h_left n);
         s \<leftarrow> free_node p s;
         Some (minimum, s) }
       else do {
         let minimum_parent = h_right n;
         m \<leftarrow> is_minimum minimum_parent s;
         if m then do {
           s \<leftarrow> upd_node minimum_parent (\<lambda>k. k\<lparr>h_left := h_left n\<rparr>) s;
           s \<leftarrow> update_size minimum_parent s;
           s \<leftarrow> free_node p s;
           Some (minimum_parent, s) }
         else do {
           q \<leftarrow> get_node s minimum_parent;
           s \<leftarrow> upd_node minimum_parent (\<lambda>k. k\<lparr>h_size := h_size k - 1\<rparr>) s;
           (minimum, minimum_parent, s) \<leftarrow> minimum_loop (h_left q) minimum_parent s;
           s \<leftarrow> swap_nodes p minimum s;
           (l, s) \<leftarrow> f destroy p s;
           s \<leftarrow> upd_node minimum_parent (\<lambda>k. k\<lparr>h_left := l\<rparr>) s;
           Some (minimum, s) } } } = Some y"
      and d: "destroy = fat_file_destroy"
    obtain s1 k where s1: "rest s1 = rest s" "get_node s1 p = Some k" and tail:
      "(if h_left k = None \<or> h_right k = None then do {
         let minimum = (if h_left k = None then h_right k else h_left k);
         s \<leftarrow> free_node p s1;
         Some (minimum, s) }
       else do {
         let minimum_parent = h_right k;
         m \<leftarrow> is_minimum minimum_parent s1;
         if m then do {
           s \<leftarrow> upd_node minimum_parent (\<lambda>j. j\<lparr>h_left := h_left k\<rparr>) s1;
           s \<leftarrow> update_size minimum_parent s;
           s \<leftarrow> free_node p s;
           Some (minimum_parent, s) }
         else do {
           q \<leftarrow> get_node s1 minimum_parent;
           s \<leftarrow> upd_node minimum_parent (\<lambda>k. k\<lparr>h_size := h_size k - 1\<rparr>) s1;
           (minimum, minimum_parent, s) \<leftarrow> minimum_loop (h_left q) minimum_parent s;
           s \<leftarrow> swap_nodes p minimum s;
           (l, s) \<leftarrow> f destroy p s;
           s \<leftarrow> upd_node minimum_parent (\<lambda>k. k\<lparr>h_left := l\<rparr>) s;
           Some (minimum, s) } }) = Some y"
      using y
    proof (elim bind_eq_SomeE, goal_cases)
      case (1 n s1 k)
      have "rest s1 = rest s" using 1(3) d by (auto simp: rest_steps split: if_splits)
      then show ?case using 1 by blast
    qed
    have IH': "rest (snd y) = rest s" if "f destroy p s = Some y" for p s y using IH [OF that] d by simp
    show "rest (snd y) = rest s"
    proof (cases "h_left k = None \<or> h_right k = None")
      case True
      then show ?thesis using tail s1(1) by (auto simp: bind_eq_Some_conv Let_def rest_steps)
    next
      case False
      then have tail: "do {
         m \<leftarrow> is_minimum (h_right k) s1;
         if m then do {
           s \<leftarrow> upd_node (h_right k) (\<lambda>j. j\<lparr>h_left := h_left k\<rparr>) s1;
           s \<leftarrow> update_size (h_right k) s;
           s \<leftarrow> free_node p s;
           Some (h_right k, s) }
         else do {
           q \<leftarrow> get_node s1 (h_right k);
           s \<leftarrow> upd_node (h_right k) (\<lambda>k. k\<lparr>h_size := h_size k - 1\<rparr>) s1;
           (minimum, minimum_parent, s) \<leftarrow> minimum_loop (h_left q) (h_right k) s;
           s \<leftarrow> swap_nodes p minimum s;
           (l, s) \<leftarrow> f destroy p s;
           s \<leftarrow> upd_node minimum_parent (\<lambda>k. k\<lparr>h_left := l\<rparr>) s;
           Some (minimum, s) } } = Some y"
        using tail by (simp only: if_False Let_def)
      then obtain m where "is_minimum (h_right k) s1 = Some m" by (elim bind_eq_SomeE)
      with tail s1(1) show ?thesis
      proof (cases m)
        case True
        then show ?thesis using tail s1(1) \<open>is_minimum (h_right k) s1 = Some m\<close>
          by (auto simp: bind_eq_Some_conv dest!: rest_steps)
      next
        case False
        then show ?thesis
          using swap_tail_rest [of s1 "h_right k" _ p "f destroy" y, OF _ IH'] tail s1(1)
            \<open>is_minimum (h_right k) s1 = Some m\<close> by simp
      qed
    qed
  qed
  then show ?thesis using assms by blast
qed

lemma h_tree_delete_rest:
  assumes "h_tree_delete file_cmp_key fat_file_destroy p (Some k) s = Some y" "family_ok s"
  shows "rest (snd y) = rest s"
proof -
  have "destroy = fat_file_destroy \<and> family_ok s \<longrightarrow> rest (snd y) = rest s"
    if "h_tree_delete c destroy p k s = Some y" for c destroy p and k :: "u8 list option" and s y
  proof (rule h_tree_delete.raw_induct
      [of "\<lambda>c destroy p k s y. destroy = fat_file_destroy \<and> family_ok s \<longrightarrow> rest (snd y) = rest s", OF _ that],
      rule impI, elim conjE)
    fix f c destroy p and k :: "u8 list option" and s y
    assume IH: "\<And>c destroy p k s y. f c destroy p k s = Some y \<Longrightarrow>
        destroy = fat_file_destroy \<and> family_ok s \<longrightarrow> rest (snd y) = rest s"
      and y: "(case k of None \<Rightarrow> Some (p, s)
      | Some k' \<Rightarrow>
          if p = None then Some (p, s)
          else do {
            n \<leftarrow> get_node s p;
            c' \<leftarrow> c s (h_data n) k';
            if c' = 0 then do {
              s \<leftarrow> remove_child_from_h p s;
              delete_root destroy p s }
            else do {
              s \<leftarrow> (if c' < 0 then do {
                       (right, s) \<leftarrow> f c destroy (h_right n) k s;
                       upd_node p (\<lambda>n. n\<lparr>h_right := right\<rparr>) s }
                    else do {
                       (left, s) \<leftarrow> f c destroy (h_left n) k s;
                       upd_node p (\<lambda>n. n\<lparr>h_left := left\<rparr>) s });
              s \<leftarrow> update_size p s;
              Some (p, s) } }) = Some y"
      and d: "destroy = fat_file_destroy" and fam: "family_ok s"
    have IH': "rest (snd y) = rest s" if "f c destroy p k s = Some y" for p k y
      using IH [OF that] d fam by simp
    from y show "rest (snd y) = rest s"
      unfolding d
      by (auto simp: bind_eq_Some_conv split: option.splits if_splits
          dest!: rest_steps(1,3) delete_root_rest IH' [unfolded d]
          dest: remove_child_rest [OF _ fam])
  qed
  then show ?thesis using assms by blast
qed

section \<open>Searching and deleting in the tree of the volume\<close>

lemma node_search_found:
  assumes "tree_ok s root t" "k \<in> paths t"
  obtains r n d f where "fat_tree_node_search (Some root) k s = Some (Some r, s)" "r \<in> set (refs t)"
    "nodes s r = Some n" "h_data n = Some d" "files s d = Some f" "filepath f = k"
proof -
  obtain q where q: "h_tree_search file_cmp_key root (Some k) s = Some (q, s)"
    "case q of None \<Rightarrow> k \<notin> paths t | Some r \<Rightarrow> (r, k) \<in> set_tree t"
    using ft.search_finds [of s root t k] assms(1) unfolding tree_ok_def paths_def by blast
  then obtain r where r: "q = Some r" "(r, k) \<in> set_tree t" using assms(2) by (cases q) auto
  then obtain n where n: "nodes s r = Some n" "h_data n \<noteq> None" "file_key s (h_data n) = Some k"
    using rep_node [of file_key s root t r k] assms(1) by (auto simp: tree_ok_def)
  then obtain d f where "h_data n = Some d" "files s d = Some f" "filepath f = k"
    by (auto simp: file_key_def get_file_def)
  moreover have "r \<in> set (refs t)" using r(2) by (force simp: refs_def)
  ultimately show thesis using that q(1) r(1) n(1) by (simp add: fat_tree_node_search_def)
qed

lemma node_search_missing:
  assumes "tree_ok s root t" "k \<notin> paths t"
  shows "fat_tree_node_search (Some root) k s = Some (None, s)"
proof -
  obtain q where q: "h_tree_search file_cmp_key root (Some k) s = Some (q, s)"
    "case q of None \<Rightarrow> k \<notin> paths t | Some r \<Rightarrow> (r, k) \<in> set_tree t"
    using ft.search_finds [of s root t k] assms(1) unfolding tree_ok_def paths_def by blast
  have "q = None" using q(2) assms(2) by (cases q) (force simp: paths_def)+
  then show ?thesis using q(1) by (simp add: fat_tree_node_search_def)
qed

lemma tree_root_some: "tree_ok s root t \<Longrightarrow> k \<in> paths t \<Longrightarrow> root \<noteq> None"
  by (cases t) (auto simp: tree_ok_def paths_def)

text \<open>What the tree is does not depend on the contents of the volume or of the entries.\<close>

lemma tree_ok_cong:
  fixes s s' :: "'a hstate_scheme"
  assumes "nodes s' = nodes s" "\<And>d. file_key s' d = file_key s d" "tree_ok s root t"
  shows "tree_ok s' root t"
proof -
  have "rep file_key s' root t"
    by (rule rep_frame [of "{}" s s']) (use assms in \<open>auto simp: tree_ok_def\<close>)
  then show ?thesis using assms(3) by (simp add: tree_ok_def)
qed

lemma sib_cong:
  fixes s s' :: "'a hstate_scheme"
  shows "nodes s' = nodes s \<Longrightarrow> sib s' p xs = sib s p xs"
  by (induction xs arbitrary: p) (auto split: option.splits)

lemma tree_linked_cong:
  fixes s s' :: "'a hstate_scheme"
  assumes "nodes s' = nodes s" "tree_linked s t"
  shows "tree_linked s' t"
proof -
  have "hier_ok s' i = hier_ok s i" for i
    using sib_cong [OF assms(1)] unfolding hier_ok_def assms(1) by (simp cong: option.case_cong)
  then show ?thesis using assms by (simp add: tree_linked_def data_inj_def)
qed

lemma tree_delete_run:
  assumes "tree_ok s (Some r) t" "tree_linked s t" "family_ok s" "del k t = Some t'"
  obtains root' s' where "fat_tree_delete (Some (Some r)) k s = Some (Some root', s')"
    "tree_ok s' root' t'" "paths t' = paths t - {k}" "rest s' = rest s"
proof -
  obtain q s' where q: "h_tree_delete file_cmp_key fat_file_destroy (Some r) (Some k) s = Some (q, s')"
    "rep file_key s' q t'"
    using ft.delete_refines [of s "Some r" t k] assms by (auto simp: tree_ok_def tree_linked_def)
  show thesis
  proof (rule that [of q s'])
    show "fat_tree_delete (Some (Some r)) k s = Some (Some q, s')"
      using q(1) by (simp add: fat_tree_delete_def)
    show "tree_ok s' q t'"
      using q(2) assms(1,4) bst_del distinct_refs_del by (auto simp: tree_ok_def)
    show "paths t' = paths t - {k}"
      using set_del [OF assms(4)] assms(1) by (simp add: paths_def tree_ok_def)
    show "rest s' = rest s" using h_tree_delete_rest [OF q(1) assms(3)] by simp
  qed
qed

lemma rest_vol: "rest s' = rest s \<Longrightarrow> vol s' = vol s" for s s' :: "'a vstate_scheme"
  by (cases s; cases s') (simp add: rest_def)

text \<open>
  The file of a path: its object \<open>d\<close>, its entry, and the object \<open>pd\<close> of the directory that
  its node hangs in.
\<close>

definition located :: "'a hstate_scheme \<Rightarrow> (nat \<times> u8 list) tree \<Rightarrow> u8 list \<Rightarrow> nat \<Rightarrow> fat_file_s \<Rightarrow>
    nat \<Rightarrow> fat_file_s \<Rightarrow> bool" where
  "located s t path d f pd p \<longleftrightarrow> (\<exists>r n q m. (r, path) \<in> set_tree t \<and> nodes s r = Some n \<and>
     h_data n = Some d \<and> files s d = Some f \<and> h_parent n = Some q \<and> nodes s q = Some m \<and>
     h_data m = Some pd \<and> files s pd = Some p)"

lemma unique_path:
  assumes "bst (map_tree snd t)" "(r, k) \<in> set_tree t" "(r', k) \<in> set_tree t"
  shows "r = r'"
proof -
  have "sorted_wrt (<) (map snd (inorder t))"
    using assms(1) by (simp add: bst_iff_sorted_wrt_less inorder_map)
  then have "distinct (map snd (inorder t))" by (simp only: strict_sorted_iff)
  then have "inj_on snd (set_tree t)" by (simp add: distinct_map)
  then show ?thesis using inj_onD [of snd "set_tree t" "(r, k)" "(r', k)"] assms(2,3) by simp
qed

lemma located_search:
  assumes "tree_ok s root t" "located s t path d f pd p"
  obtains r where "fat_tree_node_search (Some root) path s = Some (Some r, s)"
    "fat_tree_get_file (Some r) s = Some (Some d, s)" "fat_tree_get_parent (Some r) s = Some (Some pd, s)"
    "files s d = Some f" "files s pd = Some p"
proof -
  obtain r n q m where l: "(r, path) \<in> set_tree t" "nodes s r = Some n" "h_data n = Some d" "files s d = Some f"
    "h_parent n = Some q" "nodes s q = Some m" "h_data m = Some pd" "files s pd = Some p"
    using assms(2) by (auto simp: located_def)
  obtain x where x: "h_tree_search file_cmp_key root (Some path) s = Some (x, s)"
    "case x of None \<Rightarrow> path \<notin> paths t | Some r \<Rightarrow> (r, path) \<in> set_tree t"
    using ft.search_finds [of s root t path] assms(1) unfolding tree_ok_def paths_def by blast
  have "path \<in> paths t" using l(1) by (force simp: paths_def)
  then obtain r' where "x = Some r'" "(r', path) \<in> set_tree t" using x(2) by (cases x) auto
  moreover have "r' = r" using unique_path [of t] assms(1) calculation(2) l(1) by (simp add: tree_ok_def)
  ultimately show thesis
    using that [of r] x(1) l
    by (simp add: fat_tree_node_search_def fat_tree_get_file_def fat_tree_get_parent_def
        h_tree_get_data_def h_tree_get_h_parent_def)
qed

section \<open>Unlinking a file\<close>

text \<open>The slot of an entry in the cluster of its directory.\<close>

definition slot :: "fat_table_s \<Rightarrow> u32 \<Rightarrow> u32 \<Rightarrow> nat" where
  "slot t dc n = cluster_pos t dc + unat n * 32"

lemma remove_file_run:
  assumes "volume_wf s" "faults s = []" "errno s = 0"
    "tree_ok s (Some root) t" "tree_linked s t" "family_ok s" "file_tree (vol s) = Some (Some root)"
    "del path t = Some t'" "files s d = Some f" "dentry f = Some e" "dentry_wf e"
    "chain (table s) (start_cluster f) cs" "dir_ok s (Some pd) dc"
    "unat (pos_in_parent f) * 32 < bpc (table s)"
  shows "\<exists>s' root'. remove_file path (Some d) (Some pd) s = Some (0, s') \<and>
     file_tree (vol s') = Some root' \<and> tree_ok s' root' t' \<and> paths t' = paths t - {path} \<and>
     frees cs (table s) (table s') \<and> disk_frame {dc} s s' \<and>
     content s' ! slot (table s) dc (pos_in_parent f) = 0xe5"
proof -
  obtain s1 where s1: "free_clusters_loop (start_cluster f) s = Some s1" "disk_frame {} s s1"
    "frees cs (table s) (table s1)" "s1 = s\<lparr>content := content s1, table := table s1\<rparr>"
    using free_clusters_loop_ok [OF assms(1,12,2)] by blast
  have f1: "files s1 d = Some f" "files s1 = files s" "faults s1 = []" "errno s1 = 0" "nodes s1 = nodes s"
    "vol s1 = vol s"
    using assms(2,3,9) by (subst s1(4), simp)+
  have geo: "geometry (table s1) = geometry (table s)" using s1(2) by (simp add: disk_frame_def)
  define e3 where "e3 = (e\<lparr>file_size := 0\<rparr>)\<lparr>base_name := (base_name e)[0 := 0xe5]\<rparr>"
  define f2 where "f2 = f\<lparr>dentry := Some (e\<lparr>file_size := 0\<rparr>)\<rparr>"
  define s2 where "s2 = s1\<lparr>files := (files s1)(d \<mapsto> f2)\<rparr>"
  define f3 where "f3 = f2\<lparr>dentry := Some e3\<rparr>"
  define s3 where "s3 = s2\<lparr>files := (files s2)(d \<mapsto> f3)\<rparr>"
  have u2: "upd_dentry (Some d) (\<lambda>d. d\<lparr>file_size := 0\<rparr>) s1 = Some s2"
    using f1(1) assms(10) by (simp add: upd_dentry_def get_dentry_def get_file_def upd_file_def s2_def f2_def)
  have u3: "upd_dentry (Some d) (\<lambda>d. d\<lparr>base_name := (base_name d)[0 := 0xe5]\<rparr>) s2 = Some s3"
    by (simp add: upd_dentry_def get_dentry_def get_file_def upd_file_def s2_def f2_def s3_def f3_def e3_def)
  have g3: "get_file s3 (Some d) = Some f3" "dentry f3 = Some e3" "pos_in_parent f3 = pos_in_parent f"
    by (simp_all add: get_file_def s3_def f3_def f2_def)
  have vol3: "volume_wf s3" "faults s3 = []" "dentry_wf e3"
    using disk_frame_volume [OF s1(2) assms(1)] f1(3) assms(11)
    by (simp_all add: s3_def s2_def volume_wf_def dentry_wf_def e3_def)
  have dir3: "dir_ok s3 (Some pd) dc" "bpc (table s3) = bpc (table s)" "cluster_pos (table s3) = cluster_pos (table s)"
    using assms(13) geometry_cong [OF geo] geo f1(2) assms(9)
    by (auto simp: dir_ok_def get_file_def s3_def s2_def f3_def f2_def geometry_def)
  define s4 where "s4 = s3\<lparr>content := write_at (slot (table s) dc (pos_in_parent f)) (entry_bytes e3) (content s3)\<rparr>"
  have w: "write_dir_entry (Some pd) e3 (pos_in_parent f) s3 = Some s4" "disk_frame {dc} s3 s4"
    using write_dir_entry_slot [OF vol3(1) dir3(1) vol3(2,3), of "pos_in_parent f" s4] assms(14) dir3(2,3)
    by (simp_all add: s4_def slot_def)
  have rm: "fat_file_dentry_remove_child (Some pd) (Some d) s2 = Some s4"
    using u3 g3 w(1) by (simp add: fat_file_dentry_remove_child_def)
  have n4: "nodes s4 = nodes s" "vol s4 = vol s" "errno s4 = 0"
    using f1 by (simp_all add: s4_def s3_def s2_def)
  have k4: "file_key s4 x = file_key s x" for x
    using f1(2) assms(9) by (auto simp: file_key_def get_file_def s4_def s3_def s2_def f3_def f2_def split: option.split)
  have "family_ok s4" using assms(6) n4(1) by (simp add: family_ok_def)
  then obtain root' s5 where del: "fat_tree_delete (Some (Some root)) path s4 = Some (Some root', s5)"
    "tree_ok s5 root' t'" "paths t' = paths t - {path}" "rest s5 = rest s4"
    using tree_delete_run [OF tree_ok_cong [OF n4(1) k4 assms(4)] tree_linked_cong [OF n4(1) assms(5)] _ assms(8)]
    by blast
  define s6 where "s6 = upd_vol (\<lambda>v. v\<lparr>file_tree := Some root'\<rparr>) s5"
  have run: "remove_file path (Some d) (Some pd) s = Some (0, s6)"
    using assms(9) s1(1) u2 rm del(1) n4(2,3) assms(7) rest_fields(3) [OF del(4)]
    by (simp add: remove_file_def get_file_def s6_def upd_vol_def)
  have fields: "content s6 = content s4" "table s6 = table s1"
    using rest_fields(1,2) [OF del(4)] by (simp_all add: s6_def upd_vol_def s4_def s3_def s2_def)
  have "tree_ok s6 root' t'"
    by (rule tree_ok_cong [OF _ _ del(2)]) (simp_all add: s6_def upd_vol_def file_key_def get_file_def split: option.split)
  moreover have "disk_frame {dc} s s6"
  proof -
    have "disk_frame {} s s3"
      by (rule disk_frame_trans [OF s1(2) disk_frame_refl [of _ _ "{}"]]) (simp_all add: s3_def s2_def)
    then have "disk_frame {dc} s s4" using disk_frame_trans [OF _ w(2)] by blast
    then show ?thesis using fields by (simp add: disk_frame_def cluster_bytes_def s4_def s3_def s2_def)
  qed
  moreover have "content s6 ! slot (table s) dc (pos_in_parent f) = 0xe5"
  proof -
    have "entry_bytes e3 ! 0 = 0xe5"
      using assms(11) by (cases "base_name e") (simp_all add: entry_bytes_def e3_def dentry_wf_def)
    moreover have "slot (table s) dc (pos_in_parent f) < length (content s3)"
    proof -
      have "valid_cluster (table s3) dc" using dir3(1) by (simp add: dir_ok_def)
      from cluster_in_volume [OF vol3(1) this] show ?thesis
        using dir3(2,3) assms(14) by (simp add: slot_def)
    qed
    ultimately show ?thesis
      using length_entry_bytes [OF vol3(3)] by (simp add: fields(1) s4_def nth_write_at)
  qed
  ultimately show ?thesis
    using run del(3) s1(3) fields(2) by (auto simp: s6_def upd_vol_def)
qed


text \<open>
  C20. Unlinking a file. Conditions: no disk fault; the path is that of a regular file with an
  entry and a chain of clusters, below a directory with one cluster that holds the slot of the entry; and
  the node of the path has at most one child in the search tree, or a right child that is a minimum
  (for the other nodes the deletion frees the file object twice). Then the call
  returns 0; the path, and only it, is gone from the tree, all clusters of the file are free and no
  other entry of the allocation table changes, no cluster but the directory's changes, and the entry of the
  file on the volume is marked as deleted.
\<close>

theorem fat_fuse_unlink_correct:
  assumes "volume_wf s" and "faults s = []" and "file_tree (vol s) = Some (Some root)"
    and "tree_ok s (Some root) t" and "tree_linked s t" and "family_ok s"
    and "located s t path d f pd p" and "del path t = Some t'"
    and "dentry f = Some e" and "dentry_wf e" and "\<not> fat_file_is_directory f" and "fat_file_is_directory p"
    and "chain (table s) (start_cluster f) cs" and "dir_ok s (Some pd) dc"
    and "unat (pos_in_parent f) * 32 < bpc (table s)"
  shows "\<exists>s' root'. fat_fuse_unlink path s = Some (0, s') \<and>
     file_tree (vol s') = Some root' \<and> tree_ok s' root' t' \<and> paths t' = paths t - {path} \<and>
     frees cs (table s) (table s') \<and> disk_frame {dc} s s' \<and>
     content s' ! slot (table s) dc (pos_in_parent f) = 0xe5"
proof -
  let ?s = "s\<lparr>errno := 0\<rparr>"
  have n: "nodes ?s = nodes s" "file_key ?s x = file_key s x" for x
    by (simp_all add: file_key_def get_file_def split: option.split)
  have ok: "tree_ok ?s (Some root) t" "tree_linked ?s t" "family_ok ?s" "located ?s t path d f pd p"
    "volume_wf ?s" "dir_ok ?s (Some pd) dc"
    using tree_ok_cong [OF n assms(4)] tree_linked_cong [OF n(1) assms(5)] assms(1,6,7,14)
    by (simp_all add: family_ok_def located_def volume_wf_def dir_ok_def get_file_def)
  obtain r where r: "fat_tree_node_search (Some (Some root)) path ?s = Some (Some r, ?s)"
    "fat_tree_get_file (Some r) ?s = Some (Some d, ?s)" "fat_tree_get_parent (Some r) ?s = Some (Some pd, ?s)"
    "files ?s d = Some f" "files ?s pd = Some p"
    using located_search [OF ok(1,4)] by blast
  have "fat_fuse_unlink path s = remove_file path (Some d) (Some pd) ?s"
    using r assms(3,11,12) by (simp add: fat_fuse_unlink_def get_file_def)
  moreover have "frees cs (table ?s) t'' = frees cs (table s) t''" "disk_frame {dc} ?s x = disk_frame {dc} s x"
    for t'' x by (simp_all add: disk_frame_def cluster_bytes_def)
  ultimately show ?thesis
    using remove_file_run [OF ok(5) _ _ ok(1-3) _ assms(8) r(4) assms(9,10) _ ok(6)] assms(2,3,13,15)
    by auto
qed

text \<open>The example tree on a mounted volume.\<close>

definition demo_vol :: vstate where
  "demo_vol = hstate.extend demo \<lparr>vol = zero_volume\<lparr>file_tree := Some (Some 0)\<rparr>\<rparr>"

lemma demo_vol_simps [simp]:
  "nodes demo_vol = nodes demo" "files demo_vol = files demo" "table demo_vol = small_table"
  "faults demo_vol = []" "errno demo_vol = 0" "content demo_vol = content small_fs"
  "file_tree (vol demo_vol) = Some (Some 0)" "next_node demo_vol = 5" "file_key demo_vol = file_key demo"
  "alloc_faults demo_vol = []" "heap_pad demo_vol = replicate 8 0" "next_ref demo_vol = 6"
  "clk demo_vol = small_clock"
  by (simp_all add: demo_vol_def hstate.defs demo_def fstate.defs small_fs_def file_key_def get_file_def fun_eq_iff
      split: option.split)

lemma demo_vol_files [simp]:
  "files demo 0 = Some small_dir" "files demo 3 = Some (named_file [0x2F, 0x64])"
  by (simp_all add: demo_def fstate.defs)

lemma demo_vol_ok: "tree_ok demo_vol (Some 0) demo_tree"
  by (simp add: tree_ok_def demo_tree_def)

lemma demo_vol_linked: "tree_linked demo_vol demo_tree"
proof -
  have "sib demo_vol p xs = sib demo p xs" for p xs
    by (induction xs arbitrary: p) (auto split: option.splits)
  then have "hier_ok demo_vol i = hier_ok demo i" for i
    by (simp add: hier_ok_def cong: option.case_cong)
  then show ?thesis using demo_linked by (simp add: tree_linked_def data_inj_def)
qed

lemma demo_vol_family: "family_ok demo_vol"
  by (auto simp: family_ok_def demo_def fstate.defs demo_node_def split: if_splits)

lemma demo_vol_volume: "volume_wf demo_vol"
  using small_fs_volume by (simp add: volume_wf_def)

lemma demo_vol_located:
  "located demo_vol demo_tree [0x2F, 0x64] 3 (named_file [0x2F, 0x64]) 0 small_dir"
  unfolding located_def
  by (rule exI [of _ 3], rule exI [of _ "demo_node 3 (Some 4) None (Some 2) 2"], rule exI [of _ 0],
      rule exI [of _ "(demo_node 0 None (Some 1) None 5)\<lparr>h_parent := None, h_children := Some 4\<rparr>"])
    (simp add: demo_tree_def)

lemma named_file_simps [simp]:
  "dentry (named_file p) = Some small_entry" "start_cluster (named_file p) = 2"
  "pos_in_parent (named_file p) = 0" "filepath (named_file p) = p"
  "\<not> fat_file_is_directory (named_file p)" "fat_file_is_directory small_dir"
  by (simp_all add: named_file_def small_file_def fat_file_is_directory_def small_entry_def small_dir_def
      attribute_defs)

lemma demo_vol_dir: "dir_ok demo_vol (Some 0) 5"
  using small_fs_more(1) by (auto simp: dir_ok_def get_file_def small_dir_def)

theorem fat_fuse_unlink_correct_witness:
  "\<exists>s' root' t'. fat_fuse_unlink [0x2F, 0x64] demo_vol = Some (0, s') \<and>
     tree_ok s' root' t' \<and> paths t' = paths demo_tree - {[0x2F, 0x64]} \<and>
     frees [2, 4] small_table (table s')"
proof -
  obtain t' where t: "del [0x2F, 0x64] demo_tree = Some t'" by (simp add: demo_tree_def)
  from fat_fuse_unlink_correct [OF demo_vol_volume _ _ demo_vol_ok demo_vol_linked demo_vol_family
      demo_vol_located t, of small_entry "[2, 4]" 5] demo_vol_dir small_fs_more(3)
  show ?thesis using small_table_chain by (simp add: small_table_bpc del: chain.simps) blast
qed

text \<open>
  Attributes. For a path of the tree the call succeeds and reports the attributes of its file;
  for any other path it returns \<open>ENOENT\<close>. Nothing else changes.
\<close>

theorem fat_fuse_getattr_correct:
  assumes "file_tree (vol s) = Some root" and "tree_ok s root t"
    and "\<forall>f\<in>ran (files s). dentry f \<noteq> None"
  shows "if path \<in> paths t
     then \<exists>f st. filepath f = path \<and> f \<in> ran (files s) \<and> fat_file_to_stbuf (table s) (clk s) f = Some st \<and>
       fat_fuse_getattr path s = Some (0, Some st, s)
     else fat_fuse_getattr path s = Some (- ENOENT, None, s\<lparr>errno := ENOENT\<rparr>)"
proof (cases "path \<in> paths t")
  case True
  obtain r n d f where r: "fat_tree_node_search (Some root) path s = Some (Some r, s)"
    "nodes s r = Some n" "h_data n = Some d" "files s d = Some f" "filepath f = path"
    by (rule node_search_found [OF assms(2) True])
  have "dentry f \<noteq> None" using assms(3) ranI [of "files s" d f] r(4) by blast
  then obtain e where e: "dentry f = Some e" by blast
  obtain st where "fat_file_to_stbuf (table s) (clk s) f = Some st"
    unfolding fat_file_to_stbuf_def Let_def e Option.bind.bind_lunit by blast
  then have "fat_fuse_getattr path s = Some (0, Some st, s)"
    using r tree_root_some [OF assms(2) True] assms(1)
    by (simp add: fat_fuse_getattr_def fat_tree_search_def h_tree_get_data_def get_file_def)
  moreover have "f \<in> ran (files s)" using r(4) by (rule ranI [of "files s" d f])
  ultimately show ?thesis
    using True r(5) \<open>fat_file_to_stbuf (table s) (clk s) f = Some st\<close> by (simp only: if_True) blast
next
  case False
  have "\<exists>e. fat_tree_search (Some root) path s = Some (None, s\<lparr>errno := e\<rparr>)"
  proof (cases "root = None")
    case True
    moreover have "s\<lparr>errno := errno s\<rparr> = s" by (cases s) simp
    ultimately show ?thesis by (intro exI [of _ "errno s"]) (simp only: fat_tree_search_def simp_thms if_True)
  next
    case f: False
    show ?thesis
      by (intro exI [of _ EINVAL])
        (simp add: fat_tree_search_def node_search_missing [OF assms(2) False] h_tree_get_data_def f
          del: not_None_eq)
  qed
  then obtain e where "fat_tree_search (Some root) path s = Some (None, s\<lparr>errno := e\<rparr>)" ..
  then have "fat_fuse_getattr path s = Some (- ENOENT, None, s\<lparr>errno := ENOENT\<rparr>)"
    unfolding fat_fuse_getattr_def assms(1) by simp
  then show ?thesis using False by simp
qed

theorem fat_fuse_getattr_correct_witness:
  "\<exists>st. fat_fuse_getattr [0x2F, 0x64] demo_vol = Some (0, Some st, demo_vol)"
proof -
  have "\<forall>f\<in>ran (files demo_vol). dentry f \<noteq> None"
    by (auto simp: ran_def demo_def fstate.defs small_dir_def named_file_def small_file_def split: if_splits)
  moreover have "[0x2F, 0x64] \<in> paths demo_tree" by (simp add: paths_def demo_tree_def)
  ultimately show ?thesis
    using fat_fuse_getattr_correct [OF demo_vol_simps(7) demo_vol_ok, of "[0x2F, 0x64]"]
    by (simp only: if_True) blast
qed

text \<open>
  Opening a path that is not in the tree returns \<open>-errno\<close>, but the search does not set \<open>errno\<close>: when
  it is 0 the call reports success, without a handle.
\<close>

theorem fat_fuse_open_missing:
  assumes "file_tree (vol s) = Some root" and "tree_ok s root t" and "path \<notin> paths t"
  shows "fat_fuse_open path fh s = Some (- errno s, fh, s)"
  using node_search_missing [OF assms(2,3)] assms(1) by (simp add: fat_fuse_open_def)

theorem fat_fuse_open_missing_witness:
  "fat_fuse_open [0x2F, 0x7A] None demo_vol = Some (0, None, demo_vol)"
  using fat_fuse_open_missing [OF _ demo_vol_ok, of "[0x2F, 0x7A]" None]
  by (simp add: paths_def demo_tree_def)

section \<open>Creating a file\<close>

text \<open>Insertion changes only nodes.\<close>

definition no_nodes :: "'a hstate_scheme \<Rightarrow> 'a hstate_scheme" where
  "no_nodes s = s\<lparr>nodes := Map.empty, next_node := 0\<rparr>"

lemma no_nodes_fields:
  fixes s s' :: "'a hstate_scheme"
  assumes "no_nodes s' = no_nodes s"
  shows "content s' = content s" "table s' = table s" "errno s' = errno s" "faults s' = faults s"
    "files s' = files s" "clk s' = clk s" "next_ref s' = next_ref s"
  using assms by (cases s; cases s'; simp add: no_nodes_def)+

lemma no_nodes_vol: "no_nodes s' = no_nodes s \<Longrightarrow> vol s' = vol s" for s s' :: "'a vstate_scheme"
  by (cases s; cases s') (simp add: no_nodes_def)

lemma no_nodes_upd [simp]:
  "no_nodes (s\<lparr>nodes := x\<rparr>) = no_nodes s" "no_nodes (s\<lparr>next_node := y\<rparr>) = no_nodes s"
  by (cases s; simp add: no_nodes_def)+

lemma no_nodes_steps:
  "upd_node p g s = Some s' \<Longrightarrow> no_nodes s' = no_nodes s"
  "update_size p s = Some s' \<Longrightarrow> no_nodes s' = no_nodes s"
  by (auto simp: upd_node_def update_size_def bind_eq_Some_conv split: option.splits)

lemma no_nodes_init: "h_node_init new hp s = Some y \<Longrightarrow> no_nodes (snd y) = no_nodes s"
  by (auto simp: h_node_init_def bind_eq_Some_conv Let_def dest!: no_nodes_steps split: if_splits)

lemma h_tree_insert_rest:
  assumes "h_tree_insert cmp p (Some d) hp s = Some y"
  shows "no_nodes (snd y) = no_nodes s"
proof -
  have "new \<noteq> None \<longrightarrow> no_nodes (snd y) = no_nodes s"
    if "h_tree_insert c p new hp s = Some y" for c p new hp s y
  proof (rule h_tree_insert.raw_induct [of "\<lambda>c p new hp s y. new \<noteq> None \<longrightarrow> no_nodes (snd y) = no_nodes s", OF _ that],
      rule impI)
    fix f c p new hp s y
    assume IH: "\<And>c p new hp s y. f c p new hp s = Some y \<Longrightarrow> new \<noteq> None \<longrightarrow> no_nodes (snd y) = no_nodes s"
      and y: "(if new = None then Some (p, s\<lparr>errno := EINVAL\<rparr>)
      else if p = None then h_node_init new hp s
      else do {
        n \<leftarrow> get_node s p;
        c' \<leftarrow> c s new (h_data n);
        s \<leftarrow> (if c' > 0 then do {
                 (right, s) \<leftarrow> f c (h_right n) new hp s;
                 upd_node p (\<lambda>n. n\<lparr>h_right := right\<rparr>) s }
              else if c' < 0 then do {
                 (left, s) \<leftarrow> f c (h_left n) new hp s;
                 upd_node p (\<lambda>n. n\<lparr>h_left := left\<rparr>) s }
              else Some s);
        s \<leftarrow> update_size p s;
        Some (p, s) }) = Some y" and new: "new \<noteq> None"
    have IH': "no_nodes (snd y) = no_nodes s" if "f c p new hp s = Some y" for p s y using IH [OF that] new by simp
    show "no_nodes (snd y) = no_nodes s"
    proof (cases "p = None")
      case True
      then show ?thesis using y new no_nodes_init by simp
    next
      case False
      from y [unfolded if_not_P [OF new] if_not_P [OF False]] show ?thesis
      proof (elim bind_eq_SomeE, goal_cases)
        case (1 n c' s1 s2)
        have "no_nodes s1 = no_nodes s"
          using 1(3) by (auto simp: bind_eq_Some_conv dest!: no_nodes_steps IH' split: if_splits)
        then show ?case using 1(5) no_nodes_steps(2) [OF 1(4)] by auto
      qed
    qed
  qed
  then show ?thesis using assms by blast
qed

text \<open>The node \<open>r\<close> of the tree has the path \<open>k\<close>, the object \<open>d\<close> and, in the hierarchy, the parent \<open>q\<close>.\<close>

definition leads :: "'a hstate_scheme \<Rightarrow> (nat \<times> u8 list) tree \<Rightarrow> u8 list \<Rightarrow> nat \<Rightarrow> nat \<Rightarrow> nat \<Rightarrow> bool" where
  "leads s t k r d q \<longleftrightarrow> (r, k) \<in> set_tree t \<and>
     (\<exists>n. nodes s r = Some n \<and> h_data n = Some d \<and> h_parent n = Some q)"

lemma leads_cong: "nodes s' = nodes s \<Longrightarrow> leads s' t k r d q = leads s t k r d q"
  by (simp add: leads_def)

lemma ins_new: "snd x \<notin> snd ` set_tree t \<Longrightarrow> x \<in> set_tree (ins x t)"
  by (induction x t rule: ins.induct) (auto simp: image_iff)

lemma tree_insert_run:
  assumes "tree_ok s root t" "file_key s (Some d) = Some k" "next_node s \<notin> set (refs t)"
    "nodes s q = Some m" "q \<noteq> next_node s"
  obtains root' s' where "fat_tree_insert (Some root) (Some q) (Some d) s = Some (Some root', s')"
    "tree_ok s' root' (ins (next_node s, k) t)" "no_nodes s' = no_nodes s"
    "paths (ins (next_node s, k) t) = insert k (paths t)"
    "k \<notin> paths t \<longrightarrow> leads s' (ins (next_node s, k) t) k (next_node s) d q"
proof -
  obtain x s' where x: "h_tree_insert file_cmp root (Some d) (Some q) s = Some (x, s')"
    "rep file_key s' x (ins (next_node s, k) t)"
    "next_node s \<in> set (refs (ins (next_node s, k) t)) \<longrightarrow>
       (\<exists>n. nodes s' (next_node s) = Some n \<and> h_data n = Some d \<and> h_parent n = Some q)"
    using ft.insert_refines [OF assms(2) refl, of "Some q" root t] assms(1,3,4,5) by (auto simp: tree_ok_def)
  show thesis
  proof (rule that [of x s'])
    show "tree_ok s' x (ins (next_node s, k) t)"
      using assms(1,3) x(2) bst_ins [of t "(next_node s, k)"] distinct_refs_ins [of t "(next_node s, k)"]
      by (simp add: tree_ok_def)
    show "no_nodes s' = no_nodes s" using h_tree_insert_rest [OF x(1)] by simp
    show "paths (ins (next_node s, k) t) = insert k (paths t)"
      using set_ins [of "(next_node s, k)" t] by (simp add: paths_def)
    show "k \<notin> paths t \<longrightarrow> leads s' (ins (next_node s, k) t) k (next_node s) d q"
    proof
      assume "k \<notin> paths t"
      then have new: "(next_node s, k) \<in> set_tree (ins (next_node s, k) t)"
        using ins_new [of "(next_node s, k)" t] by (simp add: paths_def)
      then have "next_node s \<in> set (refs (ins (next_node s, k) t))" by (force simp: refs_def)
      then show "leads s' (ins (next_node s, k) t) k (next_node s) d q"
        using new x(3) by (auto simp: leads_def)
    qed
  qed (simp add: fat_tree_insert_def x(1))
qed

text \<open>The directory of a path: its node \<open>q\<close> and its object \<open>pd\<close>.\<close>

definition dir_of :: "'a hstate_scheme \<Rightarrow> (nat \<times> u8 list) tree \<Rightarrow> u8 list \<Rightarrow> nat \<Rightarrow> nat \<Rightarrow> fat_file_s \<Rightarrow> bool" where
  "dir_of s t path q pd p \<longleftrightarrow> (\<exists>m. (q, dirname path) \<in> set_tree t \<and> nodes s q = Some m \<and>
     h_data m = Some pd \<and> files s pd = Some p \<and> fat_file_is_directory p)"

lemma node_search_at:
  assumes "tree_ok s root t" "(q, k) \<in> set_tree t"
  shows "fat_tree_node_search (Some root) k s = Some (Some q, s)"
proof -
  obtain x where x: "h_tree_search file_cmp_key root (Some k) s = Some (x, s)"
    "case x of None \<Rightarrow> k \<notin> paths t | Some r \<Rightarrow> (r, k) \<in> set_tree t"
    using ft.search_finds [of s root t k] assms(1) unfolding tree_ok_def paths_def by blast
  have "k \<in> paths t" using assms(2) by (force simp: paths_def)
  then obtain r' where "x = Some r'" "(r', k) \<in> set_tree t" using x(2) by (cases x) auto
  moreover have "r' = q" using unique_path [of t] assms calculation(2) by (simp add: tree_ok_def)
  ultimately show ?thesis using x(1) by (simp add: fat_tree_node_search_def)
qed

lemma leads_search:
  assumes "tree_ok s root t" "leads s t k r d q"
  shows "fat_tree_search (Some root) k s = Some (Some d, s)"
proof -
  obtain n where "(r, k) \<in> set_tree t" "nodes s r = Some n" "h_data n = Some d"
    using assms(2) by (auto simp: leads_def)
  moreover from this(1) have "root \<noteq> None" using tree_root_some [OF assms(1), of k] by (force simp: paths_def)
  ultimately show ?thesis
    using node_search_at [OF assms(1)] by (simp add: fat_tree_search_def h_tree_get_data_def)
qed

text \<open>The volume can take a new file: a free cluster \<open>n\<close>, and a short name for the path.\<close>

definition creatable :: "'a fstate_scheme \<Rightarrow> u8 list \<Rightarrow> u32 \<Rightarrow> u8 list \<Rightarrow> bool" where
  "creatable s path n name \<longleftrightarrow> volume_wf s \<and> faults s = [] \<and> alloc_faults s = [] \<and>
     fat_table_get_next_free_cluster (table s) = Some n \<and> valid_cluster (table s) n \<and>
     (\<exists>mem. filename_from_path (basename path @ [0] @ heap_pad s) (replicate 32 0) 0 8 = Some mem \<and>
        build_filename (take 8 mem) (take 3 (drop 8 mem)) = Some name)"

lemma mknod_run:
  assumes "file_tree (vol s) = Some root" "tree_ok s root t" "dir_of s t path q pd p"
    "next_node s \<notin> set (refs t)" "creatable s path n name" "files s (next_ref s) = None"
  obtains s3 f d root' where
    "fat_fuse_mknod path s = do { s \<leftarrow> fat_file_dentry_add_child (Some pd) (Some (next_ref s)) s3; Some (- errno s, s) }"
    "file_tree (vol s3) = Some root'" "tree_ok s3 root' (ins (next_node s, path) t)"
    "paths (ins (next_node s, path) t) = insert path (paths t)"
    "file_ok s3 (next_ref s) f d [n]" "file_size d = 0" "fname f = cstr name" "filepath f = path"
    "files s3 = (files s)(next_ref s \<mapsto> f)" "errno s3 = 0" "faults s3 = []" "dentry_wf d"
    "disk_frame {} s s3" "path \<notin> paths t \<longrightarrow> leads s3 (ins (next_node s, path) t) path (next_node s) (next_ref s) q"
proof -
  let ?s = "s\<lparr>errno := 0\<rparr>"
  obtain m where m: "(q, dirname path) \<in> set_tree t" "nodes s q = Some m" "h_data m = Some pd"
    "files s pd = Some p" "fat_file_is_directory p"
    using assms(3) by (auto simp: dir_of_def)
  obtain mem where c: "volume_wf ?s" "faults ?s = []" "alloc_faults ?s = []"
    "fat_table_get_next_free_cluster (table ?s) = Some n" "valid_cluster (table ?s) n"
    "filename_from_path (basename path @ [0] @ heap_pad ?s) (replicate 32 0) 0 8 = Some mem"
    "build_filename (take 8 mem) (take 3 (drop 8 mem)) = Some name"
    using assms(5) by (auto simp: creatable_def volume_wf_def)
  have n: "nodes ?s = nodes s" "file_key ?s x = file_key s x" for x
    by (simp_all add: file_key_def get_file_def split: option.split)
  have ok: "tree_ok ?s root t" by (rule tree_ok_cong [OF n assms(2)])
  obtain s1 f d where s1: "fat_file_init False path ?s = Some (Some (next_ref ?s), s1)"
    "file_ok s1 (next_ref ?s) f d [n]" "file_size d = 0" "filepath f = path" "fname f = cstr name"
    "disk_frame {} ?s s1" "dentry_wf d"
    "s1 = ?s\<lparr>content := content s1, table := table s1, files := (files ?s)(next_ref ?s \<mapsto> f),
       next_ref := next_ref ?s + 1\<rparr>"
    using file_init_run [OF c(1,2) _ c(3-7), of False] by auto
  have f1: "nodes s1 = nodes s" "files s1 = (files s)(next_ref s \<mapsto> f)" "errno s1 = 0" "vol s1 = vol s"
    "next_node s1 = next_node s" "faults s1 = []"
    using c(2) by (subst s1(8), simp)+
  have qn: "q \<in> set (refs t)" using m(1) by (force simp: refs_def)
  have keys: "file_key s1 x = file_key s x" if "x \<noteq> Some (next_ref s)" for x
    using that f1(2) by (auto simp: file_key_def get_file_def split: option.split)
  have "rep file_key s1 root t"
  proof (rule rep_frame [of "{}" ?s s1])
    show "rep file_key ?s root t" using ok by (simp add: tree_ok_def)
    fix i x assume "i \<in> set (refs t)" "nodes ?s i = Some x"
    then have "file_key ?s (h_data x) \<noteq> None"
      using rep_node [of file_key ?s root t i] ok by (force simp: refs_def tree_ok_def)
    then have "h_data x \<noteq> Some (next_ref s)"
      using assms(6) by (auto simp: file_key_def get_file_def)
    then show "file_key s1 (h_data x) = file_key ?s (h_data x)" using keys n(2) by simp
  qed (simp_all add: f1(1))
  then have ok1: "tree_ok s1 root t" using ok by (simp add: tree_ok_def)
  have "file_key s1 (Some (next_ref s)) = Some path" using f1(2) s1(4) by (simp add: file_key_def get_file_def)
  then obtain root' s2 where s2: "fat_tree_insert (Some root) (Some q) (Some (next_ref s)) s1 = Some (Some root', s2)"
    "tree_ok s2 root' (ins (next_node s, path) t)" "no_nodes s2 = no_nodes s1"
    "paths (ins (next_node s, path) t) = insert path (paths t)"
    "path \<notin> paths t \<longrightarrow> leads s2 (ins (next_node s, path) t) path (next_node s) (next_ref s) q"
    using tree_insert_run [OF ok1, of "next_ref s" path q m] f1(1,5) assms(4) m(2) qn by metis
  define s3 where "s3 = upd_vol (\<lambda>v. v\<lparr>file_tree := Some root'\<rparr>) s2"
  note nn = no_nodes_fields [OF s2(3)]
  have run: "fat_fuse_mknod path s =
      do { s \<leftarrow> fat_file_dentry_add_child (Some pd) (Some (next_ref s)) s3; Some (- errno s, s) }"
    using node_search_at [OF ok m(1)] m(2-5) s1(1) s2(1) assms(1) f1(3,4)
    by (simp add: fat_fuse_mknod_def fat_tree_get_file_def h_tree_get_data_def get_file_def s3_def)
  have f3: "files s3 = (files s)(next_ref s \<mapsto> f)" "errno s3 = 0" "faults s3 = []" "content s3 = content s1"
    "table s3 = table s1"
    using nn f1 by (simp_all add: s3_def upd_vol_def)
  have "tree_ok s3 root' (ins (next_node s, path) t)"
    by (rule tree_ok_cong [OF _ _ s2(2)]) (simp_all add: s3_def upd_vol_def file_key_def get_file_def split: option.split)
  moreover have "file_ok s3 (next_ref s) f d [n]"
    using s1(2) f3 by (simp add: file_ok_def volume_wf_def f1(2))
  moreover have "disk_frame {} s s3"
    using s1(6) f3(4,5) by (simp add: disk_frame_def cluster_bytes_def)
  ultimately show thesis
    using that [of s3 root' f d] run s2(4,5) s1(3-5,7) f3 leads_cong [of s3 s2] by (simp add: s3_def upd_vol_def)
qed


lemma add_child_run:
  assumes "files s pd = Some p" "files s r = Some f" "pd \<noteq> r" "fname f \<noteq> fs_log_name"
    "dentry f = Some d" "errno s = 0"
  shows "volume_wf s \<Longrightarrow> dir_ok s (Some pd) dc \<Longrightarrow> faults s = [] \<Longrightarrow> dentry_wf d \<Longrightarrow>
      unat (nentries p) * 32 < bpc (table s) \<Longrightarrow>
      s1 = s\<lparr>content := write_at (slot (table s) dc (nentries p)) (entry_bytes d) (content s)\<rparr> \<Longrightarrow>
      fat_file_dentry_add_child (Some pd) (Some r) s = Some (s1\<lparr>files := (files s)
        (r \<mapsto> f\<lparr>pos_in_parent := nentries p\<rparr>, pd \<mapsto> p\<lparr>nentries := nentries p + 1\<rparr>)\<rparr>) \<and> disk_frame {dc} s s1"
    and "dir_ok s (Some pd) dc \<Longrightarrow> bpc (table s) \<le> unat (nentries p) * 32 \<Longrightarrow>
      fat_file_dentry_add_child (Some pd) (Some r) s = Some (s\<lparr>errno := ENOSPC\<rparr>)"
proof -
  have get: "get_file s (Some pd) = Some p" "get_file s (Some r) = Some f" "get_dentry s (Some r) = Some d"
    using assms(1,2,5) by (simp_all add: get_file_def get_dentry_def)
  show "fat_file_dentry_add_child (Some pd) (Some r) s = Some (s1\<lparr>files := (files s)
        (r \<mapsto> f\<lparr>pos_in_parent := nentries p\<rparr>, pd \<mapsto> p\<lparr>nentries := nentries p + 1\<rparr>)\<rparr>) \<and> disk_frame {dc} s s1"
    if "volume_wf s" "dir_ok s (Some pd) dc" "faults s = []" "dentry_wf d"
      "unat (nentries p) * 32 < bpc (table s)"
      "s1 = s\<lparr>content := write_at (slot (table s) dc (nentries p)) (entry_bytes d) (content s)\<rparr>"
    using write_dir_entry_slot [OF that(1-5), of s1] that(6) get assms
    by (simp add: fat_file_dentry_add_child_def slot_def upd_file_def fun_upd_def Let_def)
  show "fat_file_dentry_add_child (Some pd) (Some r) s = Some (s\<lparr>errno := ENOSPC\<rparr>)"
    if "dir_ok s (Some pd) dc" "bpc (table s) \<le> unat (nentries p) * 32"
    using write_dir_entry_full [OF that, of d] get assms
    by (simp add: fat_file_dentry_add_child_def ENOSPC_def)
qed

text \<open>
  C19. Creating a file whose path is not in the tree. Conditions: the tree of the volume is a search
  tree, the node of the parent path leads to a directory object with one cluster and a free slot,
  there is a free cluster, no disk or allocation fault, the base name of the path fits a short
  name (8.3) and is not the name of the log, and the next node and object numbers are unused. Then
  the call returns 0; the path, and only it, is new in the tree; looking it up gives
  the new object, an empty file on the free cluster; the directory counts one more entry, no other
  object changes; the entry of the file is in the next slot of the directory's cluster, and
  no other cluster changes.
\<close>

theorem fat_fuse_mknod_correct:
  assumes "file_tree (vol s) = Some root" and "tree_ok s root t" and "dir_of s t path q pd p"
    and "path \<notin> paths t"
    and "next_node s \<notin> set (refs t)" and "creatable s path n name" and "files s (next_ref s) = None"
    and "cstr name \<noteq> fs_log_name" and "dir_ok s (Some pd) dc" and "unat (nentries p) * 32 < bpc (table s)"
  shows "\<exists>s' root' t' f e. fat_fuse_mknod path s = Some (0, s') \<and>
     file_tree (vol s') = Some root' \<and> tree_ok s' root' t' \<and> paths t' = insert path (paths t) \<and>
     fat_tree_search (Some root') path s' = Some (Some (next_ref s), s') \<and>
     file_ok s' (next_ref s) f e [n] \<and> file_size e = 0 \<and> filepath f = path \<and> pos_in_parent f = nentries p \<and>
     files s' = (files s)(next_ref s \<mapsto> f, pd \<mapsto> p\<lparr>nentries := nentries p + 1\<rparr>) \<and>
     take 32 (drop (slot (table s) dc (nentries p)) (content s')) = entry_bytes e \<and> disk_frame {dc} s s'"
proof -
  let ?r = "next_ref s"
  obtain s3 f e root' where run: "fat_fuse_mknod path s =
      do { s \<leftarrow> fat_file_dentry_add_child (Some pd) (Some ?r) s3; Some (- errno s, s) }"
    and tree: "file_tree (vol s3) = Some root'" "tree_ok s3 root' (ins (next_node s, path) t)"
      "paths (ins (next_node s, path) t) = insert path (paths t)"
    and new: "file_ok s3 ?r f e [n]" "file_size e = 0" "fname f = cstr name" "filepath f = path"
      "files s3 = (files s)(?r \<mapsto> f)" "errno s3 = 0" "faults s3 = []" "dentry_wf e"
    and fr: "disk_frame {} s s3"
    and node: "path \<notin> paths t \<longrightarrow> leads s3 (ins (next_node s, path) t) path (next_node s) ?r q"
    by (rule mknod_run [OF assms(1-3,5-7)])
  have p: "files s pd = Some p" using assms(3) by (auto simp: dir_of_def)
  then have "pd \<noteq> ?r" using assms(7) by auto
  have vol3: "volume_wf s3" "dentry f = Some e" using new(1) by (simp_all add: file_ok_def)
  have geo: "geometry (table s3) = geometry (table s)" using fr by (simp add: disk_frame_def)
  have dir3: "dir_ok s3 (Some pd) dc" "bpc (table s3) = bpc (table s)" "cluster_pos (table s3) = cluster_pos (table s)"
    using assms(9) geometry_cong [OF geo] geo new(5) p \<open>pd \<noteq> ?r\<close>
    by (auto simp: dir_ok_def get_file_def geometry_def)
  define o3 where "o3 = slot (table s) dc (nentries p)"
  have o3: "o3 = slot (table s3) dc (nentries p)" using dir3(3) by (simp add: o3_def slot_def)
  define s4 where "s4 = s3\<lparr>content := write_at o3 (entry_bytes e) (content s3)\<rparr>"
  define f' where "f' = f\<lparr>pos_in_parent := nentries p\<rparr>"
  define s5 where "s5 = s4\<lparr>files := (files s3)(?r \<mapsto> f', pd \<mapsto> p\<lparr>nentries := nentries p + 1\<rparr>)\<rparr>"
  have files3: "files s3 pd = Some p" "files s3 ?r = Some f" "fname f \<noteq> fs_log_name"
    using p \<open>pd \<noteq> ?r\<close> new(3,5) assms(8) by simp_all
  have add: "fat_file_dentry_add_child (Some pd) (Some ?r) s3 = Some s5" "disk_frame {dc} s3 s4"
    using add_child_run(1) [OF files3(1,2) \<open>pd \<noteq> ?r\<close> files3(3) vol3(2) new(6) vol3(1) dir3(1) new(7,8) _ s4_def [unfolded o3]]
      assms(10) dir3(2) by (simp_all add: s5_def f'_def)
  have fr5: "disk_frame {dc} s s5"
  proof -
    have "disk_frame {dc} s s4" using disk_frame_trans [OF fr add(2)] by blast
    then show ?thesis by (simp add: s5_def s4_def disk_frame_def cluster_bytes_def)
  qed
  have "unat (nentries p) * 32 + 32 \<le> bpc (table s3)"
    using dir_cluster_size(2) [OF dir3(1)] assms(10) dir3(2) by (auto elim!: dvdE)
  then have "o3 + 32 \<le> length (content s3)"
    using cluster_in_volume [OF vol3(1), of dc] dir3(1) by (simp add: o3 slot_def dir_ok_def)
  then have slot: "take 32 (drop o3 (content s5)) = entry_bytes e"
    using length_entry_bytes [OF new(8)] by (simp add: s5_def s4_def write_at_def)
  have "volume_wf s4" using disk_frame_volume [OF add(2) vol3(1)] by simp
  then have ok5: "file_ok s5 ?r f' e [n]"
    using new(1) \<open>pd \<noteq> ?r\<close> by (simp add: file_ok_def s5_def s4_def f'_def volume_wf_def)
  have keys: "file_key s5 x = file_key s3 x" for x
    using files3(1,2) by (auto simp: file_key_def get_file_def s5_def f'_def split: option.split)
  have ok: "tree_ok s5 root' (ins (next_node s, path) t)"
    by (rule tree_ok_cong [OF _ keys tree(2)]) (simp add: s5_def s4_def)
  have "fat_fuse_mknod path s = Some (0, s5)" using run add(1) new(6) by (simp add: s5_def s4_def)
  moreover have "leads s5 (ins (next_node s, path) t) path (next_node s) ?r q"
    using node assms(4) leads_cong [of s5 s3] by (simp add: s5_def s4_def)
  then have "fat_tree_search (Some root') path s5 = Some (Some ?r, s5)" by (rule leads_search [OF ok])
  ultimately show ?thesis using ok5 ok fr5 slot tree(1,3) new(2,4,5)
    by (intro exI [of _ s5] exI [of _ root'] exI [of _ "ins (next_node s, path) t"] exI [of _ f'] exI [of _ e])
      (simp add: s5_def s4_def f'_def o3_def)
qed


lemma demo_creatable:
  "creatable (demo_vol\<lparr>files := fs\<rparr>) [0x2F, 0x65, 0x2E, 0x78] 3 [0x65, 0x2E, 0x78, 0]"
proof -
  have "plain_part [0x65]" "plain_part [0x78]" by (simp_all add: plain_part_def)
  from filename_from_path_run [OF this, of "replicate 8 0"]
  have split: "filename_from_path (basename [0x2F, 0x65, 0x2E, 0x78] @ [0] @ replicate 8 0)
      (replicate 32 0) 0 8 = Some ([0x65] @ replicate 7 0 @ [0x78] @ replicate 23 0)"
    by (simp add: basename_def)
  have "filename_len ([0x65] @ replicate (8 - length [0x65 :: u8]) 0 @ []) 8 = Some (length [0x65 :: u8])"
    "filename_len ([0x78] @ replicate (3 - length [0x78 :: u8]) 0 @ []) 3 = Some (length [0x78 :: u8])"
    by (rule filename_len_padded; simp)+
  then have build: "build_filename (take 8 ([0x65] @ replicate 7 0 @ [0x78] @ replicate 23 0))
      (take 3 (drop 8 ([0x65] @ replicate 7 0 @ [0x78] @ replicate 23 0))) = Some [0x65, 0x2E, 0x78, 0]"
    by (simp add: build_filename_def)
  show ?thesis
    using split build small_fs_more demo_vol_volume unfolding creatable_def by (simp add: volume_wf_def)
qed

text \<open>The example volume with an empty root directory.\<close>

definition demo_empty :: vstate where
  "demo_empty = demo_vol\<lparr>files := (files demo)(0 \<mapsto> small_dir\<lparr>nentries := 0\<rparr>)\<rparr>"

lemma demo_empty_ok: "tree_ok demo_empty (Some 0) demo_tree"
  by (rule tree_ok_cong [OF _ _ demo_vol_ok])
    (auto simp: demo_empty_def file_key_def get_file_def demo_vol_def hstate.defs split: option.split)

lemma demo_fresh: "5 \<notin> set (refs demo_tree)" "files demo 6 = None" "cstr [0x65, 0x2E, 0x78, 0] \<noteq> fs_log_name"
  by (simp_all add: demo_tree_def refs_def demo_def fstate.defs cstr_def fs_log_name_def bytes_of_def)

lemma demo_root:
  "dir_of demo_vol demo_tree [0x2F, 0x65, 0x2E, 0x78] 0 0 small_dir"
  "dir_of demo_empty demo_tree [0x2F, 0x65, 0x2E, 0x78] 0 0 (small_dir\<lparr>nentries := 0\<rparr>)"
  by (simp_all add: dir_of_def demo_tree_def dirname_def strip_slashes_def demo_empty_def fat_file_is_directory_def
      small_dir_def attribute_defs)

theorem fat_fuse_mknod_correct_witness:
  "\<exists>s' root' f e. fat_fuse_mknod [0x2F, 0x65, 0x2E, 0x78] demo_empty = Some (0, s') \<and>
     fat_tree_search (Some root') [0x2F, 0x65, 0x2E, 0x78] s' = Some (Some 6, s') \<and>
     file_ok s' 6 f e [3] \<and> file_size e = 0"
proof -
  have "dir_ok demo_empty (Some 0) 5"
    using demo_vol_dir by (auto simp: dir_ok_def get_file_def demo_empty_def)
  moreover have "[0x2F, 0x65, 0x2E, 0x78] \<notin> paths demo_tree" by (simp add: paths_def demo_tree_def)
  ultimately show ?thesis
    using fat_fuse_mknod_correct [OF _ demo_empty_ok demo_root(2) _ _ _ _ demo_fresh(3), of 3 5]
      demo_fresh demo_creatable by (simp add: demo_empty_def small_table_bpc) blast
qed


end
