(* ===== verification/Spinlock.thy ===== *)
theory Spinlock
  imports Prelude
begin

text \<open>
  The spin locks of the kernel (\<open>kernel/spinlock.c\<close>, the same file in \<open>lab2\<close> and \<open>lab3\<close>).

  A function of the kernel runs on a hart \<open>h\<close>, the number that \<open>r_tp()\<close> reads; the state holds
  one \<open>struct cpu\<close> per hart, with the interrupt-enable bit of its \<open>sstatus\<close> register, and the
  locks by the object they belong to. \<^const>\<open>None\<close> is a panic, or a spin on a lock that
  another hart holds: the function does not get past that point in this state.
\<close>

section \<open>State\<close>

text \<open>The locks of the kernel: a lock is named by the variable that contains it.\<close>

datatype lock =
    Pid_lock
  | Wait_lock
  | Ticks_lock
  | Kmem_lock
  | Proc_lock nat
  | Sem_lock nat
  | Pipe_lock u64
  | Bcache_lock
  | Buf_lock nat
  | Log_lock

record spinlock =
  lk_locked :: u32
  lk_name :: "u8 list"
  lk_cpu :: "nat option"

text \<open>\<open>cproc\<close> is \<open>c->proc\<close>, an index into the table of processes; \<open>sie\<close> the bit of \<open>sstatus\<close>.\<close>

record cpu_s =
  cproc :: "nat option"
  noff :: int
  intena :: bool
  sie :: bool

record kern =
  locks :: "lock \<Rightarrow> spinlock"
  cpus :: "nat \<Rightarrow> cpu_s"

section \<open>Operations\<close>

definition upd_lock :: "lock \<Rightarrow> (spinlock \<Rightarrow> spinlock) \<Rightarrow> 'a kern_scheme \<Rightarrow> 'a kern_scheme" where
  "upd_lock l f s = s\<lparr>locks := (locks s)(l := f (locks s l))\<rparr>"

definition upd_cpu :: "nat \<Rightarrow> (cpu_s \<Rightarrow> cpu_s) \<Rightarrow> 'a kern_scheme \<Rightarrow> 'a kern_scheme" where
  "upd_cpu h f s = s\<lparr>cpus := (cpus s)(h := f (cpus s h))\<rparr>"

definition intr_get :: "nat \<Rightarrow> 'a kern_scheme \<Rightarrow> bool" where
  "intr_get h s = sie (cpus s h)"

definition intr_on :: "nat \<Rightarrow> 'a kern_scheme \<Rightarrow> 'a kern_scheme" where
  "intr_on h s = upd_cpu h (\<lambda>c. c\<lparr>sie := True\<rparr>) s"

definition intr_off :: "nat \<Rightarrow> 'a kern_scheme \<Rightarrow> 'a kern_scheme" where
  "intr_off h s = upd_cpu h (\<lambda>c. c\<lparr>sie := False\<rparr>) s"

definition initlock :: "lock \<Rightarrow> u8 list \<Rightarrow> 'a kern_scheme \<Rightarrow> 'a kern_scheme" where
  "initlock l name s = upd_lock l (\<lambda>_. \<lparr>lk_locked = 0, lk_name = name, lk_cpu = None\<rparr>) s"

definition holding :: "nat \<Rightarrow> lock \<Rightarrow> 'a kern_scheme \<Rightarrow> bool" where
  "holding h l s \<longleftrightarrow> lk_locked (locks s l) \<noteq> 0 \<and> lk_cpu (locks s l) = Some h"

definition push_off :: "nat \<Rightarrow> 'a kern_scheme \<Rightarrow> 'a kern_scheme" where
  "push_off h s =
     (let old = intr_get h s;
          s = intr_off h s;
          s = (if noff (cpus s h) = 0 then upd_cpu h (\<lambda>c. c\<lparr>intena := old\<rparr>) s else s)
      in upd_cpu h (\<lambda>c. c\<lparr>noff := noff c + 1\<rparr>) s)"

definition pop_off :: "nat \<Rightarrow> 'a kern_scheme \<Rightarrow> 'a kern_scheme option" where
  "pop_off h s =
     (if intr_get h s then None
      else if noff (cpus s h) < 1 then None
      else let s = upd_cpu h (\<lambda>c. c\<lparr>noff := noff c - 1\<rparr>) s
        in Some (if noff (cpus s h) = 0 \<and> intena (cpus s h) then intr_on h s else s))"

definition acquire :: "nat \<Rightarrow> lock \<Rightarrow> 'a kern_scheme \<Rightarrow> 'a kern_scheme option" where
  "acquire h l s =
     (let s = push_off h s
      in if holding h l s then None
         else if lk_locked (locks s l) \<noteq> 0 then None
         else Some (upd_lock l (\<lambda>k. k\<lparr>lk_locked := 1, lk_cpu := Some h\<rparr>) s))"

definition release :: "nat \<Rightarrow> lock \<Rightarrow> 'a kern_scheme \<Rightarrow> 'a kern_scheme option" where
  "release h l s =
     (if \<not> holding h l s then None
      else pop_off h (upd_lock l (\<lambda>k. k\<lparr>lk_locked := 0, lk_cpu := None\<rparr>) s))"

text \<open>\<open>mycpu\<close> is the record of the hart; \<open>myproc\<close> reads its process with interrupts off.\<close>

definition myproc :: "nat \<Rightarrow> 'a kern_scheme \<Rightarrow> (nat option \<times> 'a kern_scheme) option" where
  "myproc h s = do {
     let s = push_off h s;
     let p = cproc (cpus s h);
     s \<leftarrow> pop_off h s;
     Some (p, s) }"

section \<open>A critical section leaves the locks and the interrupts as it found them\<close>

definition free_lock :: "lock \<Rightarrow> 'a kern_scheme \<Rightarrow> bool" where
  "free_lock l s \<longleftrightarrow> lk_locked (locks s l) = 0 \<and> lk_cpu (locks s l) = None"

text \<open>Interrupts are off whenever the depth of \<open>push_off\<close> is not 0.\<close>

definition hart_ok :: "nat \<Rightarrow> 'a kern_scheme \<Rightarrow> bool" where
  "hart_ok h s \<longleftrightarrow> 0 \<le> noff (cpus s h) \<and> (0 < noff (cpus s h) \<longrightarrow> \<not> sie (cpus s h))"

text \<open>What a balanced pair leaves behind: \<open>intena\<close> is the last saved state of the interrupts.\<close>

definition settle_cpu :: "cpu_s \<Rightarrow> cpu_s" where
  "settle_cpu c = \<lparr>cproc = cproc c, noff = noff c, intena = (if noff c = 0 then sie c else intena c), sie = sie c\<rparr>"

definition off_cpu :: "cpu_s \<Rightarrow> cpu_s" where
  "off_cpu c = \<lparr>cproc = cproc c, noff = noff c + 1, intena = (if noff c = 0 then sie c else intena c), sie = False\<rparr>"

definition settle :: "nat \<Rightarrow> 'a kern_scheme \<Rightarrow> 'a kern_scheme" where
  "settle h s = s\<lparr>cpus := (cpus s)(h := settle_cpu (cpus s h))\<rparr>"

definition held :: "nat \<Rightarrow> lock \<Rightarrow> 'a kern_scheme \<Rightarrow> 'a kern_scheme" where
  "held h l s = s\<lparr>locks := (locks s)(l := (locks s l)\<lparr>lk_locked := 1, lk_cpu := Some h\<rparr>),
     cpus := (cpus s)(h := off_cpu (cpus s h))\<rparr>"

lemmas kern_defs = upd_lock_def upd_cpu_def intr_get_def intr_on_def intr_off_def holding_def

lemma push_off_eq: "push_off h s = s\<lparr>cpus := (cpus s)(h := off_cpu (cpus s h))\<rparr>"
proof -
  have "c\<lparr>sie := False, intena := sie c, noff := noff c + 1\<rparr> = off_cpu c" if "noff c = 0" for c
    using that by (cases c) (simp add: off_cpu_def)
  moreover have "c\<lparr>sie := False, noff := noff c + 1\<rparr> = off_cpu c" if "noff c \<noteq> 0" for c
    using that by (cases c) (simp add: off_cpu_def)
  ultimately show ?thesis by (cases "cpus s h") (simp add: push_off_def kern_defs Let_def off_cpu_def)
qed

lemma pop_off_eq:
  assumes "cpus s h = off_cpu c" "0 \<le> noff c" "0 < noff c \<longrightarrow> \<not> sie c"
  shows "pop_off h s = Some (s\<lparr>cpus := (cpus s)(h := settle_cpu c)\<rparr>)"
  using assms by (cases c) (auto simp: pop_off_def kern_defs Let_def off_cpu_def settle_cpu_def)

lemma acquire_free: "free_lock l s \<Longrightarrow> acquire h l s = Some (held h l s)"
  by (simp add: acquire_def free_lock_def held_def push_off_eq kern_defs Let_def)

lemma acquire_blocked: "lk_locked (locks s l) \<noteq> 0 \<Longrightarrow> acquire h l s = None"
  by (simp add: acquire_def push_off_eq kern_defs Let_def)

lemma release_held:
  assumes "free_lock l s" "hart_ok h s" "locks s' = locks (held h l s)" "cpus s' = cpus (held h l s)"
  shows "release h l s' = Some (s'\<lparr>locks := locks s, cpus := cpus (settle h s)\<rparr>)"
proof -
  have "(locks s)(l := (locks s l)\<lparr>lk_locked := 0, lk_cpu := None\<rparr>) = locks s"
    using assms(1) by (intro ext) (simp add: free_lock_def)
  then show ?thesis
    using assms(2-4) pop_off_eq [of "s'\<lparr>locks := locks s\<rparr>" h "cpus s h"]
    by (simp add: release_def held_def settle_def kern_defs hart_ok_def)
qed

lemma myproc_ok:
  assumes "hart_ok h s"
  shows "myproc h s = Some (cproc (cpus s h), settle h s)"
  using assms pop_off_eq [of "s\<lparr>cpus := (cpus s)(h := off_cpu (cpus s h))\<rparr>" h "cpus s h"]
  by (simp add: myproc_def push_off_eq Let_def hart_ok_def settle_def) (simp add: off_cpu_def)

lemma settle_simps [simp]:
  "locks (settle h s) = locks s" "noff (cpus (settle h s) h') = noff (cpus s h')"
  "sie (cpus (settle h s) h') = sie (cpus s h')" "cproc (cpus (settle h s) h') = cproc (cpus s h')"
  "settle h (settle h s) = settle h s"
  by (simp_all add: settle_def settle_cpu_def)

lemma held_simps [simp]:
  "noff (cpus (held h l s) h) = noff (cpus s h) + 1" "\<not> sie (cpus (held h l s) h)"
  "cproc (cpus (held h l s) h') = cproc (cpus s h')"
  "l' \<noteq> l \<Longrightarrow> locks (held h l s) l' = locks s l'" "holding h l (held h l s)"
  by (simp_all add: held_def off_cpu_def kern_defs)

lemma settle_deep [simp]: "noff (cpus s h) \<noteq> 0 \<Longrightarrow> settle h s = s"
proof -
  assume n: "noff (cpus s h) \<noteq> 0"
  then have "settle_cpu (cpus s h) = cpus s h" by (cases "cpus s h") (simp add: settle_cpu_def)
  then show ?thesis by (simp add: settle_def)
qed

section \<open>The discipline of the locks\<close>

text \<open>The harts take and release locks in any order; a hart without locks may turn its interrupts on.\<close>

inductive lock_step :: "'a kern_scheme \<Rightarrow> 'a kern_scheme \<Rightarrow> bool" where
  step_acquire: "acquire h l s = Some s' \<Longrightarrow> lock_step s s'"
| step_release: "release h l s = Some s' \<Longrightarrow> lock_step s s'"
| step_myproc: "myproc h s = Some (p, s') \<Longrightarrow> lock_step s s'"
| step_intr_on: "noff (cpus s h) = 0 \<Longrightarrow> lock_step s (intr_on h s)"

definition boot_locks :: "'a kern_scheme \<Rightarrow> bool" where
  "boot_locks s \<longleftrightarrow> (\<forall>l. free_lock l s) \<and> (\<forall>h. noff (cpus s h) = 0)"

definition lock_inv :: "'a kern_scheme \<Rightarrow> bool" where
  "lock_inv s \<longleftrightarrow> (\<forall>h. finite {l. holding h l s} \<and> noff (cpus s h) = int (card {l. holding h l s}) \<and> hart_ok h s) \<and>
     (\<forall>l. lk_locked (locks s l) \<noteq> 0 \<longleftrightarrow> lk_cpu (locks s l) \<noteq> None)"

lemma lock_inv_boot: "boot_locks s \<Longrightarrow> lock_inv s"
  by (simp add: lock_inv_def boot_locks_def free_lock_def holding_def hart_ok_def)

lemma holding_held: "{k. holding h' k (held h l s)} =
    (if h' = h then insert l {k. holding h k s} else {k. holding h' k s} - {l})"
  by (auto simp: holding_def held_def)

lemma lock_inv_acquire:
  assumes "lock_inv s" "acquire h l s = Some s'"
  shows "lock_inv s'"
proof -
  have "lk_locked (locks s l) = 0" using assms(2) acquire_blocked [of s l h] by auto
  then have fr: "free_lock l s" "s' = held h l s"
    using assms acquire_free [of l s h] by (auto simp: lock_inv_def free_lock_def)
  then have "\<not> holding h' l s" for h' by (simp add: free_lock_def holding_def)
  then have "{k. holding h' k s'} = (if h' = h then insert l {k. holding h k s} else {k. holding h' k s})" for h'
    using holding_held [of h' h l s] fr(2) by auto
  moreover have "cpus s' h' = (if h' = h then off_cpu (cpus s h) else cpus s h')" for h'
    by (simp add: fr(2) held_def)
  moreover have "l \<notin> {k. holding h k s}" using \<open>\<And>h'. \<not> holding h' l s\<close> by simp
  moreover have "locks s' = (locks s)(l := (locks s l)\<lparr>lk_locked := 1, lk_cpu := Some h\<rparr>)"
    by (simp add: fr(2) held_def)
  ultimately show ?thesis using assms(1) by (simp add: lock_inv_def hart_ok_def off_cpu_def)
qed

lemma lock_inv_release:
  assumes "lock_inv s" "release h l s = Some s'"
  shows "lock_inv s'"
proof -
  have h: "holding h l s" using assms(2) by (simp add: release_def split: if_splits)
  have l: "locks s' = (locks s)(l := (locks s l)\<lparr>lk_locked := 0, lk_cpu := None\<rparr>)"
    and c: "h' \<noteq> h \<Longrightarrow> cpus s' h' = cpus s h'" "noff (cpus s' h) = noff (cpus s h) - 1"
      "sie (cpus s' h) \<longrightarrow> noff (cpus s' h) = 0" "1 \<le> noff (cpus s h)" for h'
    using assms(2) h by (auto simp: release_def pop_off_def kern_defs Let_def split: if_splits)
  have "{k. holding h' k s'} = (if h' = h then {k. holding h k s} - {l} else {k. holding h' k s})" for h'
    using h l by (auto simp: holding_def)
  then show ?thesis
    using assms(1) h l c by (auto simp: lock_inv_def hart_ok_def card_Diff_singleton)
qed

lemma lock_inv_step:
  assumes "lock_inv s" "lock_step s s'"
  shows "lock_inv s'"
  using assms(2)
proof cases
  case (step_acquire h l)
  then show ?thesis using lock_inv_acquire assms(1) by blast
next
  case (step_release h l)
  then show ?thesis using lock_inv_release assms(1) by blast
next
  case (step_myproc h p)
  have "hart_ok h s" using assms(1) by (simp add: lock_inv_def)
  then have "s' = settle h s" using step_myproc myproc_ok by fastforce
  moreover have "holding h' l (settle h s) = holding h' l s" for h' l by (simp add: holding_def)
  ultimately show ?thesis using assms(1) by (simp add: lock_inv_def hart_ok_def del: not_None_eq)
next
  case (step_intr_on h)
  moreover have "holding h' l (intr_on h s) = holding h' l s" "locks (intr_on h s) = locks s" for h' l
    by (simp_all add: holding_def intr_on_def upd_cpu_def)
  ultimately show ?thesis
    using assms(1) by (simp add: lock_inv_def hart_ok_def intr_on_def upd_cpu_def del: not_None_eq)
qed

lemma lock_inv_run: "lock_step\<^sup>*\<^sup>* s s' \<Longrightarrow> lock_inv s \<Longrightarrow> lock_inv s'"
  by (induction rule: rtranclp_induct) (auto intro: lock_inv_step)

text \<open>
  C29. Spin locks exclude each other and the interrupts. In every state that the harts reach from
  the boot by taking and releasing locks in any order, the depth of \<open>push_off\<close> of a hart is the
  number of locks it holds, its interrupts are off while it holds one, nobody else can take a
  lock it holds, and its own release of it does not panic.
\<close>

theorem spinlock_discipline:
  assumes "boot_locks s" and "lock_step\<^sup>*\<^sup>* s s'" and "holding h l s'"
  shows "noff (cpus s' h) = int (card {k. holding h k s'}) \<and> \<not> sie (cpus s' h) \<and>
     acquire h' l s' = None \<and> release h l s' \<noteq> None"
proof -
  have inv: "lock_inv s'" using lock_inv_run [OF assms(2) lock_inv_boot [OF assms(1)]] .
  then have "0 < card {k. holding h k s'}" using assms(3) card_gt_0_iff [of "{k. holding h k s'}"]
    by (auto simp: lock_inv_def)
  then have n: "noff (cpus s' h) = int (card {k. holding h k s'})" "0 < noff (cpus s' h)" "\<not> sie (cpus s' h)"
    using inv by (simp_all add: lock_inv_def hart_ok_def)
  then have "release h l s' \<noteq> None"
    using assms(3) by (simp add: release_def pop_off_def kern_defs Let_def)
  moreover have "acquire h' l s' = None" using acquire_blocked [of s' l h'] assms(3) by (simp add: holding_def)
  ultimately show ?thesis using n by simp
qed

definition idle_kern :: kern where
  "idle_kern = \<lparr>locks = (\<lambda>_. \<lparr>lk_locked = 0, lk_name = [], lk_cpu = None\<rparr>),
     cpus = (\<lambda>_. \<lparr>cproc = None, noff = 0, intena = False, sie = True\<rparr>)\<rparr>"

theorem spinlock_discipline_witness:
  "\<exists>s'. acquire 0 Pid_lock idle_kern = Some s' \<and> \<not> sie (cpus s' 0) \<and> acquire 1 Pid_lock s' = None"
proof -
  have "free_lock Pid_lock idle_kern" by (simp add: free_lock_def idle_kern_def)
  from acquire_free [OF this, of 0] have a: "acquire 0 Pid_lock idle_kern = Some (held 0 Pid_lock idle_kern)" .
  have "boot_locks idle_kern" by (simp add: boot_locks_def idle_kern_def free_lock_def)
  from spinlock_discipline [OF this, of "held 0 Pid_lock idle_kern" 0 Pid_lock 1] a
  show ?thesis using r_into_rtranclp [of lock_step, OF step_acquire [OF a]] by simp
qed

end
