(* ===== verification/Kstring.thy ===== *)
theory Kstring
  imports Prelude
begin

text \<open>
  The memory and string routines of the kernel (\<open>kernel/string.c\<close>, the same file in \<open>lab2\<close> and
  \<open>lab3\<close>). An object of memory is the list of its bytes, a pointer an index into it; an access outside the
  object is \<^const>\<open>None\<close>. \<open>memmove\<close> gets two pointers into one object, the case in which the regions may
  overlap. Counts are natural numbers: an object has fewer than \<open>2 ^ 31\<close> bytes, so no counter wraps.
\<close>

section \<open>Routines\<close>

fun memset_loop :: "u8 list \<Rightarrow> nat \<Rightarrow> u8 \<Rightarrow> nat \<Rightarrow> u8 list option" where
  "memset_loop m i c 0 = Some m"
| "memset_loop m i c (Suc n) = do { m \<leftarrow> aset m i c; memset_loop m (i + 1) c n }"

definition memset :: "u8 list \<Rightarrow> nat \<Rightarrow> u32 \<Rightarrow> nat \<Rightarrow> u8 list option" where
  "memset m dst c n = memset_loop m dst (ucast c) n"

fun memcmp :: "u8 list \<Rightarrow> nat \<Rightarrow> u8 list \<Rightarrow> nat \<Rightarrow> nat \<Rightarrow> int option" where
  "memcmp v1 i v2 j 0 = Some 0"
| "memcmp v1 i v2 j (Suc n) = do {
     a \<leftarrow> aget v1 i;
     b \<leftarrow> aget v2 j;
     if a \<noteq> b then Some (uint a - uint b) else memcmp v1 (i + 1) v2 (j + 1) n }"

fun move_down :: "u8 list \<Rightarrow> nat \<Rightarrow> nat \<Rightarrow> nat \<Rightarrow> u8 list option" where
  "move_down m d s 0 = Some m"
| "move_down m d s (Suc n) = do { c \<leftarrow> aget m (s - 1); m \<leftarrow> aset m (d - 1) c; move_down m (d - 1) (s - 1) n }"

fun move_up :: "u8 list \<Rightarrow> nat \<Rightarrow> nat \<Rightarrow> nat \<Rightarrow> u8 list option" where
  "move_up m d s 0 = Some m"
| "move_up m d s (Suc n) = do { c \<leftarrow> aget m s; m \<leftarrow> aset m d c; move_up m (d + 1) (s + 1) n }"

definition memmove :: "u8 list \<Rightarrow> nat \<Rightarrow> nat \<Rightarrow> nat \<Rightarrow> u8 list option" where
  "memmove m dst src n =
     (if n = 0 then Some m
      else if src < dst \<and> src + n > dst then move_down m (dst + n) (src + n) n
      else move_up m dst src n)"

definition memcpy :: "u8 list \<Rightarrow> nat \<Rightarrow> nat \<Rightarrow> nat \<Rightarrow> u8 list option" where
  "memcpy m dst src n = memmove m dst src n"

text \<open>Strings: \<open>p\<close> and \<open>q\<close> are the bytes from the pointer on.\<close>

fun strncmp :: "u8 list \<Rightarrow> u8 list \<Rightarrow> nat \<Rightarrow> int option" where
  "strncmp p q 0 = Some 0"
| "strncmp p q (Suc n) = do {
     a \<leftarrow> aget p 0;
     b \<leftarrow> aget q 0;
     if a \<noteq> 0 \<and> a = b then strncmp (tl p) (tl q) n else Some (uint a - uint b) }"

fun strncpy_pad :: "u8 list \<Rightarrow> nat \<Rightarrow> nat \<Rightarrow> u8 list option" where
  "strncpy_pad s i 0 = Some s"
| "strncpy_pad s i (Suc n) = do { s \<leftarrow> aset s i 0; strncpy_pad s (i + 1) n }"

fun strncpy_loop :: "u8 list \<Rightarrow> u8 list \<Rightarrow> nat \<Rightarrow> nat \<Rightarrow> u8 list option" where
  "strncpy_loop s t i 0 = Some s"
| "strncpy_loop s t i (Suc n) = do {
     c \<leftarrow> aget t i;
     s \<leftarrow> aset s i c;
     if c \<noteq> 0 then strncpy_loop s t (i + 1) n else strncpy_pad s (i + 1) n }"

definition strncpy :: "u8 list \<Rightarrow> u8 list \<Rightarrow> int \<Rightarrow> u8 list option" where
  "strncpy s t n = strncpy_loop s t 0 (nat n)"

text \<open>The loop of \<open>safestrcpy\<close> advances both pointers past the byte it copies, also when that byte is 0.\<close>

fun safestrcpy_loop :: "u8 list \<Rightarrow> u8 list \<Rightarrow> nat \<Rightarrow> nat \<Rightarrow> u8 list option" where
  "safestrcpy_loop s t i 0 = aset s i 0"
| "safestrcpy_loop s t i (Suc n) = do {
     c \<leftarrow> aget t i;
     s \<leftarrow> aset s i c;
     if c \<noteq> 0 then safestrcpy_loop s t (i + 1) n else aset s (i + 1) 0 }"

definition safestrcpy :: "u8 list \<Rightarrow> u8 list \<Rightarrow> int \<Rightarrow> u8 list option" where
  "safestrcpy s t n = (if n \<le> 0 then Some s else safestrcpy_loop s t 0 (nat (n - 1)))"

fun strlen :: "u8 list \<Rightarrow> nat option" where
  "strlen [] = None"
| "strlen (c # s) = (if c = 0 then Some 0 else map_option Suc (strlen s))"

section \<open>What they compute\<close>

definition put :: "u8 list \<Rightarrow> nat \<Rightarrow> u8 list \<Rightarrow> u8 list" where
  "put m d xs = take d m @ xs @ drop (d + length xs) m"

lemma put_Cons: "i < length m \<Longrightarrow> put (m[i := c]) (Suc i) xs = put m i (c # xs)"
  by (simp add: put_def take_Suc_conv_app_nth upd_conv_take_nth_drop add.commute)

lemma put_snoc: "d + length xs < length m \<Longrightarrow> put (m[d + length xs := c]) d xs = put m d (xs @ [c])"
  by (simp add: put_def upd_conv_take_nth_drop min_def)

lemma put_nil [simp]: "put m d [] = m"
  by (simp add: put_def)

lemma window_upd: "i < s \<or> s + n \<le> i \<Longrightarrow> take n (drop s (m[i := c])) = take n (drop s m)"
  by (intro nth_equalityI) (auto simp: nth_list_update)

lemma memset_loop_put: "i + n \<le> length m \<Longrightarrow> memset_loop m i c n = Some (put m i (replicate n c))"
  by (induction n arbitrary: m i) (simp_all add: aset_def put_Cons)

lemma memset_put: "dst + n \<le> length m \<Longrightarrow> memset m dst c n = Some (put m dst (replicate n (ucast c)))"
  by (simp add: memset_def memset_loop_put)

lemma move_up_put:
  "d \<le> s \<or> s + n \<le> d \<Longrightarrow> s + n \<le> length m \<Longrightarrow> d + n \<le> length m \<Longrightarrow>
   move_up m d s n = Some (put m d (take n (drop s m)))"
proof (induction n arbitrary: m d s)
  case (Suc n)
  let ?m = "m[d := m ! s]"
  have "move_up ?m (d + 1) (s + 1) n = Some (put ?m (d + 1) (take n (drop (s + 1) ?m)))"
    by (rule Suc.IH) (use Suc.prems in auto)
  moreover have "take n (drop (s + 1) ?m) = take n (drop (s + 1) m)"
    by (rule window_upd) (use Suc.prems in auto)
  moreover have "take (Suc n) (drop s m) = m ! s # take n (drop (s + 1) m)"
    using Suc.prems by (simp add: Cons_nth_drop_Suc [symmetric])
  ultimately show ?case using Suc.prems by (simp add: aget_def aset_def put_Cons)
qed simp

lemma move_down_put:
  "s \<le> d \<Longrightarrow> s + n \<le> length m \<Longrightarrow> d + n \<le> length m \<Longrightarrow>
   move_down m (d + n) (s + n) n = Some (put m d (take n (drop s m)))"
proof (induction n arbitrary: m)
  case (Suc n)
  let ?m = "m[d + n := m ! (s + n)]"
  have "move_down ?m (d + n) (s + n) n = Some (put ?m d (take n (drop s ?m)))"
    by (rule Suc.IH) (use Suc.prems in auto)
  moreover have "take n (drop s ?m) = take n (drop s m)"
    by (rule window_upd) (use Suc.prems in auto)
  moreover have "put ?m d (take n (drop s m)) = put m d (take n (drop s m) @ [m ! (s + n)])"
  proof -
    have "length (take n (drop s m)) = n" using Suc.prems by simp
    then show ?thesis using put_snoc [of d "take n (drop s m)" m "m ! (s + n)"] Suc.prems by simp
  qed
  moreover have "take (Suc n) (drop s m) = take n (drop s m) @ [m ! (s + n)]"
    using Suc.prems by (simp add: take_Suc_conv_app_nth)
  ultimately show ?case using Suc.prems by (simp add: aget_def aset_def)
qed simp

text \<open>
  Moving memory. Whatever the overlap of the two regions, the destination holds afterwards what the
  source held before, and nothing else changes.
\<close>

theorem memmove_correct:
  assumes "src + n \<le> length m" and "dst + n \<le> length m"
  shows "memmove m dst src n = Some (take dst m @ take n (drop src m) @ drop (dst + n) m)"
proof (cases "src < dst \<and> src + n > dst")
  case True
  then show ?thesis
    using move_down_put [of src dst n m] assms by (simp add: memmove_def put_def)
next
  case False
  then show ?thesis
    using move_up_put [of dst src n m] assms by (auto simp: memmove_def put_def)
qed

theorem memmove_correct_witness:
  "memmove [1, 2, 3, 4, 5] 1 0 3 = Some [1, 1, 2, 3, 5] \<and> memmove [1, 2, 3, 4, 5] 0 1 3 = Some [2, 3, 4, 4, 5]"
  using memmove_correct [of 0 3 "[1, 2, 3, 4, 5]" 1] memmove_correct [of 1 3 "[1, 2, 3, 4, 5]" 0] by simp

text \<open>The part of a string before its end.\<close>

abbreviation text_of :: "u8 list \<Rightarrow> u8 list" where
  "text_of t \<equiv> takeWhile (\<lambda>c. c \<noteq> 0) t"

lemma safestrcpy_loop_put:
  assumes "i + n < length s" "0 \<in> set (drop i t) \<or> i + n \<le> length t"
  shows "safestrcpy_loop s t i n =
    Some (put s i (text_of (take n (drop i t)) @ (if 0 \<in> set (take n (drop i t)) then [0, 0] else [0])))"
  using assms
proof (induction n arbitrary: s i)
  case 0
  then show ?case using put_Cons [of i s 0 "[]"] by (simp add: aset_def)
next
  case (Suc n)
  have i: "i < length t" using Suc.prems(2) by (cases "i < length t") auto
  then have d: "drop i t = t ! i # drop (Suc i) t" by (simp add: Cons_nth_drop_Suc)
  show ?case
  proof (cases "t ! i = 0")
    case True
    have "(s[i := 0])[Suc i := 0] = put s i [0, 0]"
      using Suc.prems(1) put_Cons [of i s 0 "[0]"] put_Cons [of "Suc i" "s[i := 0]" 0 "[]"] by simp
    then show ?thesis using i True Suc.prems(1) d by (simp add: aget_def aset_def)
  next
    case False
    have "safestrcpy_loop (s[i := t ! i]) t (i + 1) n = Some (put (s[i := t ! i]) (i + 1)
        (text_of (take n (drop (i + 1) t)) @ (if 0 \<in> set (take n (drop (i + 1) t)) then [0, 0] else [0])))"
      by (rule Suc.IH) (use Suc.prems i d False in auto)
    then show ?thesis using i False Suc.prems(1) d by (simp add: aget_def aset_def put_Cons)
  qed
qed

lemma text_of_take: "text_of (take k t) = take k (text_of t)"
proof (induction t arbitrary: k)
  case (Cons c t)
  then show ?case by (cases k) simp_all
qed simp

text \<open>
  Safe copy of a string. Given a string, or enough bytes, the routine writes at most \<open>n\<close> bytes, the destination
  holds the first \<open>n - 1\<close> characters of the string at most, and it always ends in a 0.
\<close>

theorem safestrcpy_correct:
  assumes "0 < n" and "nat n \<le> length s" and "0 \<in> set t \<or> nat n \<le> Suc (length t)"
  shows "\<exists>s'. safestrcpy s t n = Some s' \<and> length s' = length s \<and>
     text_of s' = take (nat n - 1) (text_of t) \<and> 0 \<in> set (take (nat n) s') \<and> drop (nat n) s' = drop (nat n) s"
proof -
  obtain k where k: "nat n = Suc k" using assms(1) by (cases "nat n") auto
  then have n: "nat (n - 1) = k" by simp
  let ?x = "text_of (take k t) @ (if 0 \<in> set (take k t) then [0, 0] else [0])"
  have run: "safestrcpy s t n = Some (put s 0 ?x)"
    using safestrcpy_loop_put [of 0 k s t] assms k n by (auto simp: safestrcpy_def)
  have len: "length ?x \<le> Suc k"
  proof (cases "0 \<in> set (take k t)")
    case True
    then have "text_of (take k t) \<noteq> take k t" by (metis set_takeWhileD)
    then have "length (text_of (take k t)) < length (take k t)"
      using length_takeWhile_le [of "\<lambda>c. c \<noteq> 0" "take k t"] takeWhile_eq_take [of "\<lambda>c. c \<noteq> 0" "take k t"]
      by (metis le_neq_implies_less take_all_iff order_refl)
    then show ?thesis using True by simp
  next
    case False
    then show ?thesis using length_takeWhile_le [of "\<lambda>c. c \<noteq> 0" "take k t"] by simp
  qed
  let ?s = "put s 0 ?x"
  have s': "?s = ?x @ drop (length ?x) s" by (simp add: put_def)
  have fit: "length ?x \<le> length s" using len assms(2) k by simp
  have "text_of ?s = text_of (take k t)"
    unfolding s' by (cases "0 \<in> set (take k t)") (simp_all add: takeWhile_append)
  moreover have "0 \<in> set (take (nat n) ?s)"
    using len unfolding s' k by (cases "0 \<in> set (take k t)") (simp_all add: take_Cons')
  moreover have "drop (nat n) ?s = drop (nat n) s" using len unfolding s' k by (simp add: add.commute)
  moreover have "length ?s = length s" using fit unfolding s' by simp
  ultimately show ?thesis using run k by (simp add: text_of_take)
qed

theorem safestrcpy_correct_witness:
  "\<exists>s'. safestrcpy [9, 9, 9, 9] [105, 110, 105, 116, 0] 3 = Some s' \<and> text_of s' = [105, 110]"
  using safestrcpy_correct [of 3 "[9, 9, 9, 9]" "[105, 110, 105, 116, 0]"] by auto

text \<open>The length of a string, and its comparison.\<close>

lemma strlen_text: "0 \<in> set s \<Longrightarrow> strlen s = Some (length (text_of s))"
  by (induction s) auto

lemma strncmp_eq:
  assumes "0 \<in> set p" "0 \<in> set q"
  shows "\<exists>r. strncmp p q n = Some r \<and> (r = 0 \<longleftrightarrow> take n (text_of p) = take n (text_of q))"
  using assms
proof (induction n arbitrary: p q)
  case (Suc n)
  obtain a p' where p: "p = a # p'" using Suc.prems(1) by (cases p) auto
  obtain b q' where q: "q = b # q'" using Suc.prems(2) by (cases q) auto
  show ?case
  proof (cases "a \<noteq> 0 \<and> a = b")
    case True
    then show ?thesis using Suc.IH [of p' q'] Suc.prems p q by (auto simp: aget_def)
  next
    case False
    then show ?thesis by (auto simp: p q aget_def word_uint_eq_iff)
  qed
qed simp

end
