(* ===== verification/Kalloc.thy ===== *)
theory Kalloc
  imports Spinlock Kstring
begin

text \<open>
  The allocator of physical pages (\<open>kernel/kalloc.c\<close>, the same file in \<open>lab2\<close> and \<open>lab3\<close>). The memory
  is a page of 4096 bytes for every page address; a free page holds the address of the next free page in
  its first eight bytes, and 0 ends the list. \<open>kernel_end\<close> is the symbol \<open>end\<close> of the linker script.
\<close>

section \<open>State and operations\<close>

definition PGSIZE :: u64 where "PGSIZE = 4096"
definition KERNBASE :: u64 where "KERNBASE = 0x80000000"
definition PHYSTOP :: u64 where "PHYSTOP = KERNBASE + 128 * 1024 * 1024"

record kheap = kern +
  pages :: "u64 \<Rightarrow> u8 list"
  freelist :: u64
  kernel_end :: u64

definition le64_bytes :: "u64 \<Rightarrow> u8 list" where
  "le64_bytes w = map (\<lambda>k. ucast (drop_bit (8 * k) w)) [0..<8]"

definition le64_val :: "u8 list \<Rightarrow> u64" where
  "le64_val b = ucast (b ! 0) OR push_bit 8 (ucast (b ! 1)) OR push_bit 16 (ucast (b ! 2)) OR
     push_bit 24 (ucast (b ! 3)) OR push_bit 32 (ucast (b ! 4)) OR push_bit 40 (ucast (b ! 5)) OR
     push_bit 48 (ucast (b ! 6)) OR push_bit 56 (ucast (b ! 7))"

definition PGROUNDUP :: "u64 \<Rightarrow> u64" where
  "PGROUNDUP a = (a + PGSIZE - 1) AND NOT (PGSIZE - 1)"

definition set_page :: "u64 \<Rightarrow> u8 list \<Rightarrow> 'a kheap_scheme \<Rightarrow> 'a kheap_scheme" where
  "set_page a b s = s\<lparr>pages := (pages s)(a := b)\<rparr>"

definition kfree :: "nat \<Rightarrow> u64 \<Rightarrow> 'a kheap_scheme \<Rightarrow> 'a kheap_scheme option" where
  "kfree h pa s = do {
     assert_c (\<not> (pa mod PGSIZE \<noteq> 0 \<or> pa < kernel_end s \<or> pa \<ge> PHYSTOP));
     m \<leftarrow> memset (pages s pa) 0 1 (unat PGSIZE);
     let s = set_page pa m s;
     s \<leftarrow> acquire h Kmem_lock s;
     let s = set_page pa (put (pages s pa) 0 (le64_bytes (freelist s))) s;
     let s = s\<lparr>freelist := pa\<rparr>;
     release h Kmem_lock s }"

definition kalloc :: "nat \<Rightarrow> 'a kheap_scheme \<Rightarrow> (u64 \<times> 'a kheap_scheme) option" where
  "kalloc h s = do {
     s \<leftarrow> acquire h Kmem_lock s;
     let r = freelist s;
     let s = (if r \<noteq> 0 then s\<lparr>freelist := le64_val (pages s r)\<rparr> else s);
     s \<leftarrow> release h Kmem_lock s;
     if r \<noteq> 0 then do {
       m \<leftarrow> memset (pages s r) 0 5 (unat PGSIZE);
       Some (r, set_page r m s) }
     else Some (r, s) }"

text \<open>The loop of \<open>freerange\<close> with at most \<open>n\<close> rounds; the addresses are far below \<open>2 ^ 64\<close>.\<close>

fun freerange_loop :: "nat \<Rightarrow> nat \<Rightarrow> u64 \<Rightarrow> u64 \<Rightarrow> 'a kheap_scheme \<Rightarrow> 'a kheap_scheme option" where
  "freerange_loop h 0 p pa_end s = None"
| "freerange_loop h (Suc n) p pa_end s =
     (if p + PGSIZE \<le> pa_end then do { s \<leftarrow> kfree h p s; freerange_loop h n (p + PGSIZE) pa_end s }
      else Some s)"

definition freerange :: "nat \<Rightarrow> u64 \<Rightarrow> u64 \<Rightarrow> 'a kheap_scheme \<Rightarrow> 'a kheap_scheme option" where
  "freerange h pa_start pa_end s = freerange_loop h (unat pa_end) (PGROUNDUP pa_start) pa_end s"

definition kinit :: "nat \<Rightarrow> 'a kheap_scheme \<Rightarrow> 'a kheap_scheme option" where
  "kinit h s = freerange h (kernel_end s) PHYSTOP (initlock Kmem_lock [107, 109, 101, 109] s)"

section \<open>The free list\<close>

fun flist :: "(u64 \<Rightarrow> u8 list) \<Rightarrow> u64 \<Rightarrow> u64 list \<Rightarrow> bool" where
  "flist m r [] \<longleftrightarrow> r = 0"
| "flist m r (p # ps) \<longleftrightarrow> r = p \<and> p \<noteq> 0 \<and> flist m (le64_val (m p)) ps"

definition page_ok :: "'a kheap_scheme \<Rightarrow> u64 \<Rightarrow> bool" where
  "page_ok s p \<longleftrightarrow> p \<noteq> 0 \<and> p mod PGSIZE = 0 \<and> kernel_end s \<le> p \<and> p < PHYSTOP"

text \<open>The pages \<open>ps\<close> are the free ones, in the order in which they will be handed out.\<close>

definition pool :: "'a kheap_scheme \<Rightarrow> u64 list \<Rightarrow> bool" where
  "pool s ps \<longleftrightarrow> flist (pages s) (freelist s) ps \<and> distinct ps \<and> (\<forall>p\<in>set ps. page_ok s p) \<and>
     (\<forall>p. length (pages s p) = unat PGSIZE) \<and> free_lock Kmem_lock s"

lemma le64_roundtrip: "le64_val (le64_bytes w @ xs) = w"
proof -
  have eq: "le64_bytes w @ xs = ucast w # ucast (drop_bit 8 w) # ucast (drop_bit 16 w) # ucast (drop_bit 24 w) #
      ucast (drop_bit 32 w) # ucast (drop_bit 40 w) # ucast (drop_bit 48 w) # ucast (drop_bit 56 w) # xs"
    by (simp add: le64_bytes_def upt_rec numeral_eq_Suc)
  show ?thesis
  proof (rule bit_word_eqI)
    fix n assume "n < LENGTH(64)"
    then consider "n < 8" | "8 \<le> n" "n < 16" | "16 \<le> n" "n < 24" | "24 \<le> n" "n < 32"
      | "32 \<le> n" "n < 40" | "40 \<le> n" "n < 48" | "48 \<le> n" "n < 56" | "56 \<le> n" "n < 64"
      by fastforce
    then show "bit (le64_val (le64_bytes w @ xs)) n \<longleftrightarrow> bit w n"
      unfolding eq le64_val_def by cases (simp_all add: bit_simps, auto)
  qed
qed

lemma flist_cong: "(\<And>p. p \<in> set ps \<Longrightarrow> m' p = m p) \<Longrightarrow> flist m' r ps = flist m r ps"
  by (induction ps arbitrary: r) auto

lemma memset_page: "length m = unat PGSIZE \<Longrightarrow> memset m 0 c (unat PGSIZE) = Some (replicate (unat PGSIZE) (ucast c))"
  by (simp add: memset_put put_def)

lemma kheap_held [simp]:
  fixes s :: "'a kheap_scheme"
  shows "pages (held h l s) = pages s" "freelist (held h l s) = freelist s" "kernel_end (held h l s) = kernel_end s"
    "pages (settle h s) = pages s" "freelist (settle h s) = freelist s" "kernel_end (settle h s) = kernel_end s"
  by (simp_all add: held_def settle_def)

lemma kalloc_some:
  assumes "pool s (p # ps)" "hart_ok h s"
  shows "\<exists>s'. kalloc h s = Some (p, s') \<and> pool s' ps \<and>
     s' = (settle h s)\<lparr>pages := (pages s)(p := replicate 4096 5), freelist := freelist s'\<rparr>"
proof -
  have f: "free_lock Kmem_lock s" "freelist s = p" "p \<noteq> 0" "flist (pages s) (le64_val (pages s p)) ps" "p \<notin> set ps"
    "\<forall>q. length (pages s q) = unat PGSIZE"
    using assms(1) by (auto simp: pool_def)
  let ?s = "(held h Kmem_lock s)\<lparr>freelist := le64_val (pages s p)\<rparr>"
  have rel: "release h Kmem_lock ?s = Some ((settle h s)\<lparr>freelist := le64_val (pages s p)\<rparr>)"
    using release_held [OF f(1) assms(2), of ?s] by (simp add: held_def settle_def)
  let ?t = "set_page p (replicate (unat PGSIZE) 5) ((settle h s)\<lparr>freelist := le64_val (pages s p)\<rparr>)"
  have "kalloc h s = Some (p, ?t)"
    using acquire_free [OF f(1), of h] f(2,3,6) rel memset_page [of "pages s p" 5] by (simp add: kalloc_def Let_def)
  moreover have "pool ?t ps"
  proof -
    have "flist ((pages s)(p := x)) r ps = flist (pages s) r ps" for x r
      by (rule flist_cong) (use f(5) in auto)
    then show ?thesis using assms(1) f(4) by (simp add: pool_def set_page_def page_ok_def free_lock_def)
  qed
  moreover have "?t = (settle h s)\<lparr>pages := (pages s)(p := replicate 4096 5), freelist := freelist ?t\<rparr>"
    by (simp add: set_page_def PGSIZE_def)
  ultimately show ?thesis by blast
qed

lemma kalloc_none:
  assumes "pool s []" "hart_ok h s"
  shows "kalloc h s = Some (0, settle h s)"
proof -
  have f: "free_lock Kmem_lock s" "freelist s = 0" using assms(1) by (simp_all add: pool_def)
  have "release h Kmem_lock (held h Kmem_lock s) = Some (settle h s)"
    using release_held [OF f(1) assms(2), of "held h Kmem_lock s"] by (simp add: held_def settle_def)
  then show ?thesis using acquire_free [OF f(1), of h] f(2) by (simp add: kalloc_def Let_def)
qed

lemma kfree_some:
  assumes "pool s ps" "hart_ok h s" "page_ok s p" "p \<notin> set ps"
  shows "\<exists>s'. kfree h p s = Some s' \<and> pool s' (p # ps) \<and>
     s' = (settle h s)\<lparr>pages := (pages s)(p := pages s' p), freelist := p\<rparr>"
proof -
  have f: "free_lock Kmem_lock s" "flist (pages s) (freelist s) ps" "\<forall>q. length (pages s q) = unat PGSIZE"
    using assms(1) by (auto simp: pool_def)
  let ?b = "put (replicate (unat PGSIZE) 1) 0 (le64_bytes (freelist s))"
  have b: "length ?b = unat PGSIZE" "le64_val ?b = freelist s"
    using le64_roundtrip [of "freelist s" "drop 8 (replicate (unat PGSIZE) 1)"]
    by (simp_all add: put_def le64_bytes_def PGSIZE_def)
  let ?s0 = "set_page p (replicate (unat PGSIZE) 1) s"
  have fr: "free_lock Kmem_lock ?s0" "hart_ok h ?s0"
    using f(1) assms(2) by (simp_all add: free_lock_def set_page_def hart_ok_def)
  let ?s = "(set_page p ?b (held h Kmem_lock ?s0))\<lparr>freelist := p\<rparr>"
  have rel: "release h Kmem_lock ?s = Some ((settle h s)\<lparr>pages := (pages s)(p := ?b), freelist := p\<rparr>)" (is "_ = Some ?t")
    using release_held [OF fr, of ?s] by (simp add: held_def settle_def set_page_def)
  have "kfree h p s = Some ?t"
  proof -
    have "\<not> (p mod PGSIZE \<noteq> 0 \<or> p < kernel_end s \<or> p \<ge> PHYSTOP)"
      using assms(3) unfolding page_ok_def by (meson linorder_not_less)
    then show ?thesis
      using acquire_free [OF fr(1), of h] f(3) rel memset_page [of "pages s p" 1]
      by (simp only: kfree_def Let_def assert_c_def if_True bind.bind_lunit) (simp add: set_page_def)
  qed
  moreover have "pool ?t (p # ps)"
  proof -
    have "flist ((pages s)(p := x)) r ps = flist (pages s) r ps" for x r
      by (rule flist_cong) (use assms(4) in auto)
    then show ?thesis using assms f b by (simp add: pool_def page_ok_def free_lock_def)
  qed
  ultimately show ?thesis by auto
qed

section \<open>The contract of a page allocator\<close>

text \<open>
  A client takes and gives back pages: \<open>out\<close> is the set of the pages it holds. It gives back only what it
  holds; an allocation that returns 0 failed.
\<close>

inductive use_step ::
  "('s \<Rightarrow> (u64 \<times> 's) option) \<Rightarrow> (u64 \<Rightarrow> 's \<Rightarrow> 's option) \<Rightarrow> 's \<times> u64 set \<Rightarrow> 's \<times> u64 set \<Rightarrow> bool"
  for alloc give where
  take: "alloc s = Some (p, s') \<Longrightarrow> p \<noteq> 0 \<Longrightarrow> use_step alloc give (s, out) (s', insert p out)"
| fail: "alloc s = Some (0, s') \<Longrightarrow> use_step alloc give (s, out) (s', out)"
| give: "p \<in> out \<Longrightarrow> give p s = Some s' \<Longrightarrow> use_step alloc give (s, out) (s', out - {p})"

inductive_cases use_stepE: "use_step alloc give x y"

locale page_allocator =
  fixes alloc :: "'s \<Rightarrow> (u64 \<times> 's) option"
    and give :: "u64 \<Rightarrow> 's \<Rightarrow> 's option"
    and free_pages :: "'s \<Rightarrow> u64 list \<Rightarrow> bool"
    and valid :: "'s \<Rightarrow> u64 \<Rightarrow> bool"
  assumes alloc_page: "free_pages s (p # ps) \<Longrightarrow> \<exists>s'. alloc s = Some (p, s') \<and> free_pages s' ps \<and> valid s' = valid s"
    and alloc_empty: "free_pages s [] \<Longrightarrow> \<exists>s'. alloc s = Some (0, s') \<and> free_pages s' [] \<and> valid s' = valid s"
    and give_page: "free_pages s ps \<Longrightarrow> valid s p \<Longrightarrow> p \<notin> set ps \<Longrightarrow>
      \<exists>s'. give p s = Some s' \<and> free_pages s' (p # ps) \<and> valid s' = valid s"
    and free_fine: "free_pages s ps \<Longrightarrow> distinct ps \<and> 0 \<notin> set ps \<and> (\<forall>p\<in>set ps. valid s p)"
begin

lemma use_inv:
  assumes "(use_step alloc give)\<^sup>*\<^sup>* (s0, {}) (s, out)" "free_pages s0 ps0"
  shows "\<exists>ps. free_pages s ps \<and> out \<inter> set ps = {} \<and> set ps \<union> out = set ps0 \<and> valid s = valid s0"
  using assms(1)
proof (induction "(s, out)" arbitrary: s out rule: rtranclp_induct)
  case base
  then show ?case using assms(2) by auto
next
  case (step y)
  obtain t held where y: "y = (t, held)" by (cases y)
  obtain ps where ps: "free_pages t ps" "held \<inter> set ps = {}" "set ps \<union> held = set ps0" "valid t = valid s0"
    using step.hyps(3) [OF y] by blast
  have fine: "distinct ps" "0 \<notin> set ps" using free_fine [OF ps(1)] by simp_all
  have "use_step alloc give (t, held) (s, out)" using step.hyps(2) y by simp
  then show ?case
  proof (rule use_stepE)
    fix s1 p s2 out' assume e: "(t, held) = (s1, out')" "(s, out) = (s2, insert p out')" "alloc s1 = Some (p, s2)" "p \<noteq> 0"
    obtain qs where qs: "ps = p # qs" using alloc_page [of t] alloc_empty [of t] ps(1) e by (cases ps) auto
    then have "free_pages s qs \<and> valid s = valid t" using alloc_page [of t p qs] ps(1) e by auto
    then show ?thesis using ps qs fine e by (intro exI [of _ qs]) auto
  next
    fix s1 s2 out' assume e: "(t, held) = (s1, out')" "(s, out) = (s2, out')" "alloc s1 = Some (0, s2)"
    have "ps = []" using alloc_page [of t] ps(1) fine(2) e by (cases ps) auto
    then show ?thesis using alloc_empty [of t] ps e by (intro exI [of _ "[]"]) auto
  next
    fix p out' s1 s2 assume e: "(t, held) = (s1, out')" "(s, out) = (s2, out' - {p})" "p \<in> out'" "give p s1 = Some s2"
    have "p \<in> set ps0" "p \<notin> set ps" using ps(2,3) e by auto
    moreover have "valid t p" using free_fine [OF assms(2)] ps(4) calculation(1) by simp
    ultimately have "free_pages s (p # ps) \<and> valid s = valid t" using give_page [OF ps(1), of p] e by auto
    then show ?thesis using ps e \<open>p \<in> set ps0\<close> by (intro exI [of _ "p # ps"]) auto
  qed
qed

lemma alloc_fresh:
  assumes "(use_step alloc give)\<^sup>*\<^sup>* (s0, {}) (s, out)" "free_pages s0 ps0" "alloc s = Some (p, s')"
  shows "if p = 0 then out = set ps0 else p \<in> set ps0 \<and> p \<notin> out"
proof -
  obtain ps where ps: "free_pages s ps" "out \<inter> set ps = {}" "set ps \<union> out = set ps0" using use_inv [OF assms(1,2)] by blast
  show ?thesis
    using alloc_page [of s] alloc_empty [of s] ps assms(3) free_fine [OF ps(1)] by (cases ps) auto
qed

end

interpretation kpages: page_allocator "kalloc h" "kfree h" "\<lambda>s ps. pool s ps \<and> hart_ok h s" page_ok for h
proof
  fix s p ps assume a: "pool s (p # ps) \<and> hart_ok h s"
  obtain s' where s': "kalloc h s = Some (p, s')" "pool s' ps"
    "s' = (settle h s)\<lparr>pages := (pages s)(p := replicate 4096 5), freelist := freelist s'\<rparr>"
    using kalloc_some [of s p ps h] a by blast
  have "hart_ok h s'" by (subst s'(3)) (use a in \<open>simp add: hart_ok_def\<close>)
  moreover have "page_ok s' = page_ok s" by (subst s'(3)) (simp add: page_ok_def fun_eq_iff)
  ultimately show "\<exists>s'. kalloc h s = Some (p, s') \<and> (pool s' ps \<and> hart_ok h s') \<and> page_ok s' = page_ok s"
    using s'(1,2) by (intro exI [of _ s']) simp
next
  fix s :: "'a kheap_scheme" assume a: "pool s [] \<and> hart_ok h s"
  have "pool (settle h s) []" "hart_ok h (settle h s)" "page_ok (settle h s) = page_ok s"
    using a by (simp_all add: pool_def hart_ok_def page_ok_def free_lock_def fun_eq_iff)
  then show "\<exists>s'. kalloc h s = Some (0, s') \<and> (pool s' [] \<and> hart_ok h s') \<and> page_ok s' = page_ok s"
    using kalloc_none [of s h] a by (intro exI [of _ "settle h s"]) simp
next
  fix s ps p assume a: "pool s ps \<and> hart_ok h s" "page_ok s p" "p \<notin> set ps"
  obtain s' where s': "kfree h p s = Some s'" "pool s' (p # ps)"
    "s' = (settle h s)\<lparr>pages := (pages s)(p := pages s' p), freelist := p\<rparr>"
    using kfree_some [of s ps h p] a by blast
  have "hart_ok h s'" by (subst s'(3)) (use a in \<open>simp add: hart_ok_def\<close>)
  moreover have "page_ok s' = page_ok s" by (subst s'(3)) (simp add: page_ok_def fun_eq_iff)
  ultimately show "\<exists>s'. kfree h p s = Some s' \<and> (pool s' (p # ps) \<and> hart_ok h s') \<and> page_ok s' = page_ok s"
    using s'(1,2) by (intro exI [of _ s']) simp
next
  fix s ps assume "pool s ps \<and> hart_ok h s"
  then show "distinct ps \<and> 0 \<notin> set ps \<and> (\<forall>p\<in>set ps. page_ok s p)" by (auto simp: pool_def page_ok_def)
qed

text \<open>
  C30. No page is handed out twice. Starting with a list of free pages, after any sequence of allocations
  and releases in which the clients give back only pages they hold, \<open>kalloc\<close> returns 0 exactly when they hold
  all pages, and otherwise a page of the list that nobody holds.
\<close>

theorem kalloc_fresh:
  assumes "pool s ps" and "hart_ok h s" and "(use_step (kalloc h) (kfree h))\<^sup>*\<^sup>* (s, {}) (s', out)"
    and "kalloc h s' = Some (p, s'')"
  shows "if p = 0 then out = set ps else p \<in> set ps \<and> p \<notin> out"
  using kpages.alloc_fresh [OF assms(3) _ assms(4)] assms(1,2) by blast

definition two_pages :: kheap where
  "two_pages = \<lparr>locks = locks idle_kern, cpus = cpus idle_kern,
     pages = (\<lambda>p. put (replicate 4096 0) 0 (le64_bytes (if p = 0x87000000 then 0x87001000 else 0))),
     freelist = 0x87000000, kernel_end = 0x80020000\<rparr>"

lemma two_pages_pool: "pool two_pages [0x87000000, 0x87001000]" "hart_ok h two_pages"
proof -
  have "le64_val (put (replicate 4096 0) 0 (le64_bytes w)) = w" for w
    using le64_roundtrip [of w "drop 8 (replicate 4096 0)"] by (simp add: put_def le64_bytes_def)
  moreover have "length (put (replicate 4096 0) 0 (le64_bytes w)) = 4096" for w by (simp add: put_def le64_bytes_def)
  ultimately show "pool two_pages [0x87000000, 0x87001000]"
    by (simp add: pool_def two_pages_def page_ok_def PGSIZE_def PHYSTOP_def KERNBASE_def free_lock_def idle_kern_def)
  show "hart_ok h two_pages" by (simp add: hart_ok_def two_pages_def idle_kern_def)
qed

theorem kalloc_fresh_witness:
  "\<exists>s1 s2. kalloc 0 two_pages = Some (0x87000000, s1) \<and> kalloc 0 s1 = Some (0x87001000, s2)"
proof -
  obtain s1 where s1: "kalloc 0 two_pages = Some (0x87000000, s1)" "pool s1 [0x87001000] \<and> hart_ok 0 s1"
    using kpages.alloc_page [OF conjI [OF two_pages_pool(1) two_pages_pool(2) [of 0]]] by blast
  obtain p s2 where s2: "kalloc 0 s1 = Some (p, s2)" "p \<noteq> 0"
    using kpages.alloc_page [OF s1(2)] by fastforce
  have "use_step (kalloc 0) (kfree 0) (two_pages, {}) (s1, insert 0x87000000 {})"
    by (rule take [where alloc = "kalloc 0", OF s1(1)]) simp
  then have "(use_step (kalloc 0) (kfree 0))\<^sup>*\<^sup>* (two_pages, {}) (s1, insert 0x87000000 {})" ..
  from kalloc_fresh [OF two_pages_pool this s2(1)] s2(2)
  have "p = 0x87001000" by (auto split: if_splits)
  then show ?thesis using s1(1) s2(1) by blast
qed

text \<open>What the allocator can change: the pages and the list.\<close>

lemma kfree_frame:
  assumes "kfree h p s = Some s'" "free_lock Kmem_lock s" "hart_ok h s"
  shows "s' = (settle h s)\<lparr>pages := pages s', freelist := freelist s'\<rparr>"
proof -
  obtain m where m: "memset (pages s p) 0 1 (unat PGSIZE) = Some m"
    using assms(1) by (auto simp: kfree_def bind_eq_Some_conv split: if_splits)
  let ?s0 = "set_page p m s"
  have fr: "free_lock Kmem_lock ?s0" "hart_ok h ?s0"
    using assms(2,3) by (simp_all add: free_lock_def set_page_def hart_ok_def)
  have rel: "release h Kmem_lock ((set_page q b (held h Kmem_lock ?s0))\<lparr>freelist := r\<rparr>) =
      Some ((set_page q b (settle h ?s0))\<lparr>freelist := r\<rparr>)" for q b r
    using release_held [OF fr, of "(set_page q b (held h Kmem_lock ?s0))\<lparr>freelist := r\<rparr>"]
    by (simp add: held_def settle_def set_page_def)
  have "s' = (set_page p (put m 0 (le64_bytes (freelist s))) (settle h ?s0))\<lparr>freelist := p\<rparr>"
    using assms(1) m acquire_free [OF fr(1), of h] rel
    by (simp add: kfree_def Let_def split: if_splits) (simp add: set_page_def)
  then show ?thesis by (simp add: set_page_def settle_def)
qed

lemma kalloc_frame:
  assumes "kalloc h s = Some (p, s')" "free_lock Kmem_lock s" "hart_ok h s"
  shows "s' = (settle h s)\<lparr>pages := pages s', freelist := freelist s'\<rparr>"
proof -
  have rel: "release h Kmem_lock ((held h Kmem_lock s)\<lparr>freelist := r\<rparr>) = Some ((settle h s)\<lparr>freelist := r\<rparr>)"
    "release h Kmem_lock (held h Kmem_lock s) = Some (settle h s)" for r
    using release_held [OF assms(2,3), of "(held h Kmem_lock s)\<lparr>freelist := r\<rparr>"]
      release_held [OF assms(2,3), of "held h Kmem_lock s"]
    by (simp_all add: held_def settle_def)
  have "settle h s = (settle h s)\<lparr>pages := pages s, freelist := freelist s\<rparr>" by (cases s) (simp add: settle_def)
  then show ?thesis
    using assms(1) acquire_free [OF assms(2), of h] rel
    by (auto simp: kalloc_def Let_def set_page_def bind_eq_Some_conv split: if_splits)
qed

end
