(* ===== verification/Proc.thy ===== *)
theory Proc
  imports Kalloc
begin

text \<open>
  Processes and their scheduling: \<open>kernel/proc.c\<close> of \<open>lab3/xv6-riscv\<close>, the part that decides who
  runs. \<open>swtch\<close> saves the registers of one thread and loads those of another, so a function that
  calls \<open>sched\<close> is modelled in two parts: what it does until the switch, and how it goes on when
  the scheduler switches back. What the saved registers stand for is a value of \<open>resume\<close>.
\<close>

section \<open>State\<close>

definition NPROC :: nat where "NPROC = 64"

datatype procstate = UNUSED | USED | SLEEPING | RUNNABLE | RUNNING | ZOMBIE

text \<open>Wait channels are addresses of kernel objects.\<close>

datatype addr =
    At_proc nat
  | At_sem nat
  | At_lock lock
  | At_ticks
  | At_pipe_nread u64
  | At_pipe_nwrite u64
  | At_buf nat
  | At_log

text \<open>Where a process goes on after the switch, with the local variable \<open>intena\<close> of \<open>sched\<close>.\<close>

datatype resume =
    Zeroed
  | In_forkret
  | In_yield bool
  | In_sleep lock bool
  | In_exit bool

record proc_s =
  p_state :: procstate
  p_chan :: "addr option"
  p_killed :: u32
  p_xstate :: u32
  p_pid :: u32
  p_parent :: "nat option"
  p_kstack :: u64
  p_sz :: u64
  p_context :: resume
  p_name :: "u8 list"
  ch_counter :: u32
  p_prio :: u32
  last_executed :: u32

record kproc = kheap +
  procs :: "proc_s list"
  initproc :: "nat option"
  nextpid :: u32
  ticks :: u32

definition get_proc :: "nat \<Rightarrow> 'a kproc_scheme \<Rightarrow> proc_s option" where
  "get_proc i s = aget (procs s) i"

definition upd_proc :: "nat \<Rightarrow> (proc_s \<Rightarrow> proc_s) \<Rightarrow> 'a kproc_scheme \<Rightarrow> 'a kproc_scheme" where
  "upd_proc i f s = s\<lparr>procs := (procs s)[i := f (procs s ! i)]\<rparr>"

section \<open>The process table\<close>

text \<open>The line that \<open>pstat\<close> prints: pid, priority, times chosen, last execution.\<close>

definition pstat :: "u32 \<Rightarrow> 'a kproc_scheme \<Rightarrow> (u32 \<times> u32 \<times> u32 \<times> u32) list" where
  "pstat pid s = map (\<lambda>p. (pid, p_prio p, ch_counter p, last_executed p)) (filter (\<lambda>p. p_pid p = pid) (procs s))"

definition MAXVA :: u64 where "MAXVA = push_bit 38 1"
definition TRAMPOLINE :: u64 where "TRAMPOLINE = MAXVA - PGSIZE"

definition KSTACK :: "nat \<Rightarrow> u64" where
  "KSTACK p = TRAMPOLINE - of_nat (p + 1) * 2 * PGSIZE"

fun procinit_loop :: "nat list \<Rightarrow> 'a kproc_scheme \<Rightarrow> 'a kproc_scheme" where
  "procinit_loop [] s = s"
| "procinit_loop (i # is) s = procinit_loop is
     (upd_proc i (\<lambda>p. p\<lparr>p_state := UNUSED, p_kstack := KSTACK i, ch_counter := 0\<rparr>)
       (initlock (Proc_lock i) [112, 114, 111, 99] s))"

definition procinit :: "'a kproc_scheme \<Rightarrow> 'a kproc_scheme" where
  "procinit s = procinit_loop [0..<NPROC]
     (initlock Wait_lock [119, 97, 105, 116, 95, 108, 111, 99, 107]
       (initlock Pid_lock [110, 101, 120, 116, 112, 105, 100] s))"

definition allocpid :: "nat \<Rightarrow> 'a kproc_scheme \<Rightarrow> (u32 \<times> 'a kproc_scheme) option" where
  "allocpid h s = do {
     s \<leftarrow> acquire h Pid_lock s;
     let pid = nextpid s;
     let s = s\<lparr>nextpid := nextpid s + 1\<rparr>;
     s \<leftarrow> release h Pid_lock s;
     Some (pid, s) }"

section \<open>Switching\<close>

text \<open>\<open>sched\<close> until its \<open>swtch\<close>: \<open>k\<close> says in which function the process will go on.\<close>

definition sched :: "nat \<Rightarrow> (bool \<Rightarrow> resume) \<Rightarrow> 'a kproc_scheme \<Rightarrow> 'a kproc_scheme option" where
  "sched h k s = do {
     (p, s) \<leftarrow> myproc h s;
     p \<leftarrow> p;
     pr \<leftarrow> get_proc p s;
     assert_c (holding h (Proc_lock p) s);
     assert_c (noff (cpus s h) = 1);
     assert_c (p_state pr \<noteq> RUNNING);
     assert_c (\<not> intr_get h s);
     s \<leftarrow> acquire h Ticks_lock s;
     let s = upd_proc p (\<lambda>q. q\<lparr>last_executed := ticks s\<rparr>) s;
     s \<leftarrow> release h Ticks_lock s;
     Some (upd_proc p (\<lambda>q. q\<lparr>p_context := k (intena (cpus s h))\<rparr>) s) }"

text \<open>\<open>sched\<close> after its \<open>swtch\<close>.\<close>

definition sched_return :: "nat \<Rightarrow> bool \<Rightarrow> 'a kproc_scheme \<Rightarrow> 'a kproc_scheme" where
  "sched_return h i s = upd_cpu h (\<lambda>c. c\<lparr>intena := i\<rparr>) s"

text \<open>
  The scheduler of hart \<open>h\<close> at process \<open>i\<close>: the first part says whether it switches to the
  process, the second is what it does when the process switches back.
\<close>

definition scheduler_try :: "nat \<Rightarrow> nat \<Rightarrow> 'a kproc_scheme \<Rightarrow> (bool \<times> 'a kproc_scheme) option" where
  "scheduler_try h i s = do {
     s \<leftarrow> acquire h (Proc_lock i) s;
     pr \<leftarrow> get_proc i s;
     if p_state pr = RUNNABLE
     then let s = upd_proc i (\<lambda>p. p\<lparr>p_state := RUNNING\<rparr>) s;
              s = upd_cpu h (\<lambda>c. c\<lparr>cproc := Some i\<rparr>) s
       in Some (True, upd_proc i (\<lambda>p. p\<lparr>ch_counter := ch_counter p + 1\<rparr>) s)
     else do {
       s \<leftarrow> release h (Proc_lock i) s;
       Some (False, s) } }"

definition scheduler_back :: "nat \<Rightarrow> nat \<Rightarrow> 'a kproc_scheme \<Rightarrow> 'a kproc_scheme option" where
  "scheduler_back h i s = release h (Proc_lock i) (upd_cpu h (\<lambda>c. c\<lparr>cproc := None\<rparr>) s)"

text \<open>\<open>yield\<close> up to \<open>sched\<close>, and its call of \<open>sched\<close>.\<close>

definition yield_lock :: "nat \<Rightarrow> 'a kproc_scheme \<Rightarrow> (nat \<times> 'a kproc_scheme) option" where
  "yield_lock h s = do {
     (p, s) \<leftarrow> myproc h s;
     p \<leftarrow> p;
     s \<leftarrow> acquire h (Proc_lock p) s;
     Some (p, upd_proc p (\<lambda>q. q\<lparr>p_state := RUNNABLE\<rparr>) s) }"

definition yield_begin :: "nat \<Rightarrow> 'a kproc_scheme \<Rightarrow> (nat \<times> 'a kproc_scheme) option" where
  "yield_begin h s = do {
     (p, s) \<leftarrow> yield_lock h s;
     s \<leftarrow> sched h In_yield s;
     Some (p, s) }"

definition yield_end :: "nat \<Rightarrow> nat \<Rightarrow> bool \<Rightarrow> 'a kproc_scheme \<Rightarrow> 'a kproc_scheme option" where
  "yield_end h p i s = release h (Proc_lock p) (sched_return h i s)"

text \<open>
  \<open>sleep\<close> up to the switch, as the list of its statements after \<open>myproc\<close>: take the own lock, give up
  the lock \<open>lk\<close>, go to sleep. Other harts may run between two of them.
\<close>

datatype sleep_op = Take_own | Give_up | Switch

definition sleep_code :: "sleep_op list" where
  "sleep_code = [Take_own, Give_up, Switch]"

fun sleep_do :: "nat \<Rightarrow> addr option \<Rightarrow> lock \<Rightarrow> nat \<Rightarrow> sleep_op \<Rightarrow> 'a kproc_scheme \<Rightarrow> 'a kproc_scheme option" where
  "sleep_do h chan lk p Take_own s = acquire h (Proc_lock p) s"
| "sleep_do h chan lk p Give_up s = release h lk s"
| "sleep_do h chan lk p Switch s = (
     let s = upd_proc p (\<lambda>q. q\<lparr>p_chan := chan\<rparr>) s;
         s = upd_proc p (\<lambda>q. q\<lparr>p_state := SLEEPING\<rparr>) s
     in sched h (In_sleep lk) s)"

fun sleep_all :: "nat \<Rightarrow> addr option \<Rightarrow> lock \<Rightarrow> nat \<Rightarrow> sleep_op list \<Rightarrow> 'a kproc_scheme \<Rightarrow> 'a kproc_scheme option" where
  "sleep_all h chan lk p [] s = Some s"
| "sleep_all h chan lk p (c # cs) s = do { s \<leftarrow> sleep_do h chan lk p c s; sleep_all h chan lk p cs s }"

definition sleep_begin :: "nat \<Rightarrow> addr option \<Rightarrow> lock \<Rightarrow> 'a kproc_scheme \<Rightarrow> (nat \<times> 'a kproc_scheme) option" where
  "sleep_begin h chan lk s = do {
     (p, s) \<leftarrow> myproc h s;
     p \<leftarrow> p;
     s \<leftarrow> sleep_all h chan lk p sleep_code s;
     Some (p, s) }"

text \<open>\<open>sleep\<close> after the switch: \<open>sleep_awake\<close> until it holds no lock, and then the lock again.\<close>

definition sleep_awake :: "nat \<Rightarrow> nat \<Rightarrow> bool \<Rightarrow> 'a kproc_scheme \<Rightarrow> 'a kproc_scheme option" where
  "sleep_awake h p i s = do {
     let s = sched_return h i s;
     let s = upd_proc p (\<lambda>q. q\<lparr>p_chan := None\<rparr>) s;
     release h (Proc_lock p) s }"

definition sleep_end :: "nat \<Rightarrow> nat \<Rightarrow> lock \<Rightarrow> bool \<Rightarrow> 'a kproc_scheme \<Rightarrow> 'a kproc_scheme option" where
  "sleep_end h p lk i s = do {
     s \<leftarrow> sleep_awake h p i s;
     acquire h lk s }"

section \<open>Waking and killing\<close>

fun wakeup_loop :: "nat \<Rightarrow> addr option \<Rightarrow> nat list \<Rightarrow> 'a kproc_scheme \<Rightarrow> 'a kproc_scheme option" where
  "wakeup_loop h chan [] s = Some s"
| "wakeup_loop h chan (i # is) s = do {
     (me, s) \<leftarrow> myproc h s;
     s \<leftarrow> (if Some i \<noteq> me then do {
              s \<leftarrow> acquire h (Proc_lock i) s;
              p \<leftarrow> get_proc i s;
              let s = (if p_state p = SLEEPING \<and> p_chan p = chan
                       then upd_proc i (\<lambda>q. q\<lparr>p_state := RUNNABLE\<rparr>) s else s);
              release h (Proc_lock i) s }
            else Some s);
     wakeup_loop h chan is s }"

definition wakeup :: "nat \<Rightarrow> addr option \<Rightarrow> 'a kproc_scheme \<Rightarrow> 'a kproc_scheme option" where
  "wakeup h chan s = wakeup_loop h chan [0..<NPROC] s"

fun kill_loop :: "nat \<Rightarrow> u32 \<Rightarrow> nat list \<Rightarrow> 'a kproc_scheme \<Rightarrow> (int \<times> 'a kproc_scheme) option" where
  "kill_loop h pid [] s = Some (-1, s)"
| "kill_loop h pid (i # is) s = do {
     s \<leftarrow> acquire h (Proc_lock i) s;
     p \<leftarrow> get_proc i s;
     if p_pid p = pid then do {
       let s = upd_proc i (\<lambda>q. q\<lparr>p_killed := 1\<rparr>) s;
       let s = (if p_state p = SLEEPING then upd_proc i (\<lambda>q. q\<lparr>p_state := RUNNABLE\<rparr>) s else s);
       s \<leftarrow> release h (Proc_lock i) s;
       Some (0, s) }
     else do {
       s \<leftarrow> release h (Proc_lock i) s;
       kill_loop h pid is s } }"

definition kill :: "nat \<Rightarrow> u32 \<Rightarrow> 'a kproc_scheme \<Rightarrow> (int \<times> 'a kproc_scheme) option" where
  "kill h pid s = kill_loop h pid [0..<NPROC] s"

definition setkilled :: "nat \<Rightarrow> nat \<Rightarrow> 'a kproc_scheme \<Rightarrow> 'a kproc_scheme option" where
  "setkilled h p s = do {
     s \<leftarrow> acquire h (Proc_lock p) s;
     assert_c (p < length (procs s));
     release h (Proc_lock p) (upd_proc p (\<lambda>q. q\<lparr>p_killed := 1\<rparr>) s) }"

definition killed :: "nat \<Rightarrow> nat \<Rightarrow> 'a kproc_scheme \<Rightarrow> (u32 \<times> 'a kproc_scheme) option" where
  "killed h p s = do {
     s \<leftarrow> acquire h (Proc_lock p) s;
     pr \<leftarrow> get_proc p s;
     s \<leftarrow> release h (Proc_lock p) s;
     Some (p_killed pr, s) }"

fun reparent_loop :: "nat \<Rightarrow> nat \<Rightarrow> nat list \<Rightarrow> 'a kproc_scheme \<Rightarrow> 'a kproc_scheme option" where
  "reparent_loop h p [] s = Some s"
| "reparent_loop h p (i # is) s = do {
     pp \<leftarrow> get_proc i s;
     s \<leftarrow> (if p_parent pp = Some p then
             wakeup h (map_option At_proc (initproc s)) (upd_proc i (\<lambda>q. q\<lparr>p_parent := initproc s\<rparr>) s)
           else Some s);
     reparent_loop h p is s }"

definition reparent :: "nat \<Rightarrow> nat \<Rightarrow> 'a kproc_scheme \<Rightarrow> 'a kproc_scheme option" where
  "reparent h p s = reparent_loop h p [0..<NPROC] s"

section \<open>Waking the sleepers of a channel\<close>

text \<open>No lock of the process table is held.\<close>

definition quiet :: "nat \<Rightarrow> 'a kproc_scheme \<Rightarrow> bool" where
  "quiet h s \<longleftrightarrow> hart_ok h s \<and> length (procs s) = NPROC \<and> (\<forall>i. free_lock (Proc_lock i) s)"

definition wake_if :: "addr option \<Rightarrow> proc_s \<Rightarrow> proc_s" where
  "wake_if c p = (if p_state p = SLEEPING \<and> p_chan p = c then p\<lparr>p_state := RUNNABLE\<rparr> else p)"

definition woken :: "nat option \<Rightarrow> addr option \<Rightarrow> proc_s list \<Rightarrow> proc_s list" where
  "woken me c ps = map (\<lambda>(i, p). if Some i = me then p else wake_if c p) (enumerate 0 ps)"

lemma length_woken [simp]: "length (woken me c ps) = length ps"
  by (simp add: woken_def)

lemma nth_woken: "i < length ps \<Longrightarrow> woken me c ps ! i = (if Some i = me then ps ! i else wake_if c (ps ! i))"
  by (simp add: woken_def nth_enumerate_eq)

lemma settle_procs [simp]:
  fixes s :: "'a kproc_scheme"
  shows "procs (settle h s) = procs s" "nextpid (settle h s) = nextpid s" "ticks (settle h s) = ticks s"
    "initproc (settle h s) = initproc s" "kproc.more (settle h s) = kproc.more s"
  by (simp_all add: settle_def)

lemma held_procs [simp]:
  fixes s :: "'a kproc_scheme"
  shows "procs (held h l s) = procs s" "nextpid (held h l s) = nextpid s" "ticks (held h l s) = ticks s"
    "initproc (held h l s) = initproc s" "kproc.more (held h l s) = kproc.more s"
  by (simp_all add: held_def)

lemma settle_procs_upd [simp]:
  fixes s :: "'a kproc_scheme"
  shows "settle h (s\<lparr>procs := ps\<rparr>) = (settle h s)\<lparr>procs := ps\<rparr>"
  by (simp add: settle_def)

lemma quiet_settle [simp]:
  fixes s :: "'a kproc_scheme"
  assumes "quiet h s"
  shows "quiet h (settle h s)"
  using assms by (simp add: quiet_def hart_ok_def free_lock_def)

text \<open>A critical section that changes only the process table.\<close>

lemma crit_procs:
  fixes s :: "'a kproc_scheme"
  assumes "free_lock l s" "hart_ok h s"
  shows "release h l (held h l s) = Some (settle h s)"
    "release h l ((held h l s)\<lparr>procs := ps\<rparr>) = Some ((settle h s)\<lparr>procs := ps\<rparr>)"
  using release_held [OF assms, of "held h l s"] release_held [OF assms, of "(held h l s)\<lparr>procs := ps\<rparr>"]
  by (simp_all add: held_def settle_def)

definition wake_at :: "nat option \<Rightarrow> addr option \<Rightarrow> nat \<Rightarrow> proc_s list \<Rightarrow> proc_s list" where
  "wake_at me c i ps = (if Some i = me then ps else ps[i := wake_if c (ps ! i)])"

lemma length_wake_at [simp]: "length (wake_at me c i ps) = length ps"
  by (simp add: wake_at_def)

lemma wakeup_loop_run:
  fixes s :: "'a kproc_scheme"
  assumes "quiet h s" "set is \<subseteq> {..<NPROC}"
  shows "wakeup_loop h c is s =
    Some ((if is = [] then s else settle h s)\<lparr>procs := fold (wake_at (cproc (cpus s h)) c) is (procs s)\<rparr>)"
  using assms
proof (induction "is" arbitrary: s)
  case (Cons i "is")
  let ?me = "cproc (cpus s h)"
  have q: "hart_ok h (settle h s)" "free_lock (Proc_lock i) (settle h s)" "i < length (procs s)"
    using quiet_settle [OF Cons.prems(1)] Cons.prems by (auto simp: quiet_def)
  have my: "myproc h s = Some (?me, settle h s)" using Cons.prems(1) by (simp add: quiet_def myproc_ok)
  have quiet: "quiet h ((settle h s)\<lparr>procs := wake_at ?me c i (procs s)\<rparr>)"
    using quiet_settle [OF Cons.prems(1)] by (simp add: quiet_def hart_ok_def free_lock_def)
  have body: "(if Some i \<noteq> ?me then do {
              s \<leftarrow> acquire h (Proc_lock i) (settle h s);
              p \<leftarrow> get_proc i s;
              let s = (if p_state p = SLEEPING \<and> p_chan p = c
                       then upd_proc i (\<lambda>q. q\<lparr>p_state := RUNNABLE\<rparr>) s else s);
              release h (Proc_lock i) s }
            else Some (settle h s)) = Some ((settle h s)\<lparr>procs := wake_at ?me c i (procs s)\<rparr>)"
  proof -
    have "(settle h s)\<lparr>procs := procs s\<rparr> = settle h s" by (simp add: settle_def)
    then show ?thesis
      using acquire_free [OF q(2), of h] crit_procs [OF q(2,1)] q(3)
      by (simp add: get_proc_def aget_def upd_proc_def wake_at_def wake_if_def)
  qed
  have "cproc (cpus ((settle h s)\<lparr>procs := wake_at ?me c i (procs s)\<rparr>) h) = ?me" by simp
  with Cons.IH [OF quiet] Cons.prems(2) my body show ?case by (simp add: Let_def)
qed simp

lemma fold_wake_at:
  "n \<le> length ps \<Longrightarrow> i < length ps \<Longrightarrow>
   fold (wake_at me c) [0..<n] ps ! i = (if i < n \<and> Some i \<noteq> me then wake_if c (ps ! i) else ps ! i)"
proof (induction n arbitrary: i)
  case (Suc n)
  have l: "length (fold (wake_at me c) [0..<n] ps) = length ps" for n
    by (induction n) simp_all
  have "fold (wake_at me c) [0..<n] ps ! n = ps ! n" "fold (wake_at me c) [0..<n] ps ! i =
      (if i < n \<and> Some i \<noteq> me then wake_if c (ps ! i) else ps ! i)"
    using Suc l by (simp_all add: Suc.IH)
  moreover have "fold (wake_at me c) [0..<Suc n] ps = wake_at me c n (fold (wake_at me c) [0..<n] ps)" by simp
  moreover have "wake_at me c n xs ! i = (if i = n \<and> Some n \<noteq> me then wake_if c (xs ! n) else xs ! i)"
    if "n < length xs" for xs using that by (simp add: wake_at_def nth_list_update)
  ultimately show ?case using Suc.prems l by (simp only: less_Suc_eq) auto
qed simp

lemma wakeup_run:
  fixes s :: "'a kproc_scheme"
  assumes "quiet h s"
  shows "wakeup h c s = Some ((settle h s)\<lparr>procs := woken (cproc (cpus s h)) c (procs s)\<rparr>)"
proof -
  have n: "length (procs s) = NPROC" using assms by (simp add: quiet_def)
  have "fold (wake_at (cproc (cpus s h)) c) [0..<NPROC] (procs s) = woken (cproc (cpus s h)) c (procs s)"
  proof (rule nth_equalityI)
    have "length (fold (wake_at me c) xs ps) = length ps" for me xs ps
      by (induction xs arbitrary: ps) simp_all
    then show "length (fold (wake_at (cproc (cpus s h)) c) [0..<NPROC] (procs s)) = length (woken (cproc (cpus s h)) c (procs s))"
      and "i < length (fold (wake_at (cproc (cpus s h)) c) [0..<NPROC] (procs s)) \<Longrightarrow>
        fold (wake_at (cproc (cpus s h)) c) [0..<NPROC] (procs s) ! i = woken (cproc (cpus s h)) c (procs s) ! i" for i
      using n by (simp_all add: fold_wake_at nth_woken)
  qed
  moreover have "[0..<NPROC] \<noteq> []" by (simp add: NPROC_def)
  moreover have "set [0..<NPROC] \<subseteq> {..<NPROC}" by auto
  ultimately show ?thesis using wakeup_loop_run [OF assms] by (simp only: wakeup_def if_False)
qed

section \<open>A process leaves the processor and comes back\<close>

lemma sched_run:
  fixes s :: "'a kproc_scheme"
  assumes "cproc (cpus s h) = Some p" "p < length (procs s)" "holding h (Proc_lock p) s" "noff (cpus s h) = 1"
    "\<not> sie (cpus s h)" "p_state (procs s ! p) \<noteq> RUNNING" "free_lock Ticks_lock s"
  shows "sched h k s = Some (upd_proc p (\<lambda>q. q\<lparr>last_executed := ticks s, p_context := k (intena (cpus s h))\<rparr>) s)"
proof -
  have ok: "hart_ok h s" "settle h s = s" using assms(4,5) by (simp_all add: hart_ok_def)
  show ?thesis
    using assms myproc_ok [OF ok(1)] ok(2) acquire_free [OF assms(7)] crit_procs [OF assms(7) ok(1)]
    by (simp add: sched_def get_proc_def aget_def intr_get_def upd_proc_def)
qed

lemma scheduler_back_run:
  fixes s :: "'a kproc_scheme"
  assumes "free_lock (Proc_lock p) s" "noff (cpus s h) = 0" "locks s' = locks (held h (Proc_lock p) s)"
    "noff (cpus s' h) = 1" "\<not> sie (cpus s' h)"
  shows "scheduler_back h p s' = Some (s'\<lparr>locks := locks s, cpus := (cpus s')
     (h := \<lparr>cproc = None, noff = 0, intena = intena (cpus s' h), sie = intena (cpus s' h)\<rparr>)\<rparr>)"
proof -
  have "(locks s)(Proc_lock p := (locks s (Proc_lock p))\<lparr>lk_locked := 0, lk_cpu := None\<rparr>) = locks s"
    using assms(1) by (intro ext) (simp add: free_lock_def)
  then show ?thesis
    using assms(2-5) by (cases "cpus s' h")
      (auto simp: scheduler_back_def release_def holding_def held_def pop_off_def kern_defs Let_def)
qed

text \<open>The locks and processors between the steps of the system.\<close>

definition at_rest :: "'a kproc_scheme \<Rightarrow> bool" where
  "at_rest s \<longleftrightarrow> (\<forall>l. free_lock l s) \<and> (\<forall>h. noff (cpus s h) = 0) \<and> length (procs s) = NPROC"

lemma at_rest_quiet: "at_rest s \<Longrightarrow> quiet h s"
  by (simp add: at_rest_def quiet_def hart_ok_def)

lemma at_rest_cong:
  fixes s s' :: "'a kproc_scheme"
  assumes "at_rest s" "locks s' = locks s" "\<And>h. noff (cpus s' h) = noff (cpus s h)" "length (procs s') = length (procs s)"
  shows "at_rest s'"
  using assms by (simp add: at_rest_def free_lock_def)

text \<open>A wakeup in a critical section.\<close>

lemma wakeup_in_section:
  fixes s t :: "'a kproc_scheme"
  assumes "at_rest s" "\<forall>j. l \<noteq> Proc_lock j" "locks t = locks (held h l s)" "cpus t = cpus (held h l s)" "procs t = procs s"
  shows "do { t \<leftarrow> wakeup h c t; release h l t } =
     Some (t\<lparr>locks := locks s, cpus := cpus (settle h s), procs := woken (cproc (cpus s h)) c (procs s)\<rparr>)"
proof -
  have r: "free_lock l s" "hart_ok h s" "noff (cpus s h) = 0" for l
    using assms(1) by (simp_all add: at_rest_def hart_ok_def)
  have t: "settle h t = t" using settle_deep [of t h] assms(4) r(3) by simp
  have "\<And>j. Proc_lock j \<noteq> l" using assms(2) by metis
  then have "quiet h t"
    using assms r(1) by (simp add: quiet_def hart_ok_def free_lock_def at_rest_def held_def off_cpu_def)
  from wakeup_run [OF this, of c] have "wakeup h c t = Some (t\<lparr>procs := woken (cproc (cpus s h)) c (procs s)\<rparr>)"
    using t assms(4,5) by simp
  then show ?thesis
    using release_held [OF r(1,2), where s' = "t\<lparr>procs := woken (cproc (cpus s h)) c (procs s)\<rparr>" and l = l] assms(3,4)
    by simp
qed

text \<open>Hart \<open>h\<close> changed the process table and its own record only; the locks are as before.\<close>

definition kframe :: "nat \<Rightarrow> 'a kproc_scheme \<Rightarrow> 'a kproc_scheme \<Rightarrow> bool" where
  "kframe h s s' \<longleftrightarrow> locks s' = locks s \<and> noff (cpus s' h) = noff (cpus s h) \<and> (\<forall>h'. h' \<noteq> h \<longrightarrow> cpus s' h' = cpus s h') \<and>
     length (procs s') = length (procs s) \<and> initproc s' = initproc s \<and> nextpid s' = nextpid s \<and> ticks s' = ticks s \<and>
     kproc.more s' = kproc.more s \<and> pages s' = pages s \<and> freelist s' = freelist s \<and> kernel_end s' = kernel_end s"

lemma kframe_refl [simp]: "kframe h s s"
  by (simp add: kframe_def)

lemma kframe_trans: "kframe h s s' \<Longrightarrow> kframe h s' s'' \<Longrightarrow> kframe h s s''"
  by (simp add: kframe_def)

lemma kframe_rest: "kframe h s s' \<Longrightarrow> at_rest s \<Longrightarrow> at_rest s'"
  by (simp add: kframe_def at_rest_def free_lock_def) metis

lemma release_run:
  fixes s :: "'a kproc_scheme"
  assumes "holding h l s" "1 \<le> noff (cpus s h)" "\<not> sie (cpus s h)"
  shows "release h l s = Some (s\<lparr>locks := (locks s)(l := (locks s l)\<lparr>lk_locked := 0, lk_cpu := None\<rparr>),
     cpus := (cpus s)(h := (cpus s h)\<lparr>noff := noff (cpus s h) - 1, sie := noff (cpus s h) = 1 \<and> intena (cpus s h)\<rparr>)\<rparr>)"
  using assms by (cases "cpus s h") (auto simp: release_def holding_def pop_off_def kern_defs Let_def)

lemma yield_run:
  fixes s :: "'a kproc_scheme"
  assumes "at_rest s" "cproc (cpus s h) = Some p" "p < NPROC"
  shows "\<exists>i s1 s2. yield_begin h s = Some (p, s1) \<and> scheduler_back h p s1 = Some s2 \<and> kframe h s s2 \<and>
     procs s2 = (procs s)[p := (procs s ! p)\<lparr>p_state := RUNNABLE, last_executed := ticks s, p_context := In_yield i\<rparr>] \<and>
     cproc (cpus s2 h) = None"
proof -
  have r: "free_lock l s" "noff (cpus s h') = 0" "length (procs s) = NPROC" for l h'
    using assms(1) by (simp_all add: at_rest_def)
  let ?s0 = "settle h s"
  have free0: "free_lock (Proc_lock p) ?s0" using r(1) by (simp add: free_lock_def)
  let ?ps = "(procs s)[p := (procs s ! p)\<lparr>p_state := RUNNABLE\<rparr>]"
  let ?s1 = "(held h (Proc_lock p) ?s0)\<lparr>procs := ?ps\<rparr>"
  have "free_lock Ticks_lock ?s1" using r(1) by (simp add: free_lock_def held_def)
  moreover have "holding h (Proc_lock p) ?s1" by (simp add: holding_def held_def)
  ultimately have sch: "sched h In_yield ?s1 = Some (upd_proc p (\<lambda>q. q\<lparr>last_executed := ticks s,
      p_context := In_yield (intena (cpus ?s1 h))\<rparr>) ?s1)" (is "_ = Some ?s2")
    using sched_run [of ?s1 h p In_yield] assms(2,3) r by (simp add: upd_proc_def)
  have y: "yield_begin h s = Some (p, ?s2)"
    using myproc_ok [of h s] assms(2) r sch acquire_free [OF free0, of h]
    by (simp add: yield_begin_def yield_lock_def hart_ok_def upd_proc_def)
  have b: "scheduler_back h p ?s2 = Some (?s2\<lparr>locks := locks ?s0, cpus := (cpus ?s2)
     (h := \<lparr>cproc = None, noff = 0, intena = intena (cpus ?s2 h), sie = intena (cpus ?s2 h)\<rparr>)\<rparr>)" (is "_ = Some ?s3")
    by (rule scheduler_back_run [OF free0]) (simp_all add: r upd_proc_def)
  have "kframe h s ?s3" using r by (simp add: kframe_def upd_proc_def held_def settle_def)
  moreover have "procs ?s3 = (procs s)[p := (procs s ! p)\<lparr>p_state := RUNNABLE, last_executed := ticks s,
      p_context := In_yield (intena (cpus ?s1 h))\<rparr>]"
    using assms(3) r(3) by (simp add: upd_proc_def)
  moreover have "cproc (cpus ?s3 h) = None" by simp
  ultimately show ?thesis using y b by blast
qed

text \<open>The statements of \<open>sleep\<close>, one by one.\<close>

lemma give_up_run:
  fixes s :: "'a kproc_scheme"
  assumes "at_rest s" "\<And>i. lk \<noteq> Proc_lock i"
  shows "release h lk (held h (Proc_lock p) (held h lk s)) = Some (held h (Proc_lock p) s)"
proof -
  have r: "free_lock l s" "noff (cpus s h') = 0" for l h'
    using assms(1) by (simp_all add: at_rest_def)
  have ne: "lk \<noteq> Proc_lock p" "Proc_lock p \<noteq> lk" using assms(2) by blast+
  let ?s0 = "held h (Proc_lock p) (held h lk s)"
  have "holding h lk ?s0" using ne by (simp add: holding_def held_def)
  from release_run [OF this]
  have rel: "release h lk ?s0 = Some (?s0\<lparr>locks := (locks ?s0)(lk := (locks ?s0 lk)\<lparr>lk_locked := 0, lk_cpu := None\<rparr>),
      cpus := (cpus ?s0)(h := (cpus ?s0 h)\<lparr>noff := noff (cpus ?s0 h) - 1, sie := noff (cpus ?s0 h) = 1 \<and> intena (cpus ?s0 h)\<rparr>)\<rparr>)"
    using r by simp
  also have "\<dots> = Some (held h (Proc_lock p) s)"
  proof -
    have "(locks s lk)\<lparr>lk_locked := 0, lk_cpu := None\<rparr> = locks s lk" using r(1) [of lk] by (simp add: free_lock_def)
    then have "(locks ?s0)(lk := (locks ?s0 lk)\<lparr>lk_locked := 0, lk_cpu := None\<rparr>) = locks (held h (Proc_lock p) s)"
      using ne by (intro ext) (simp add: held_def)
    moreover have "(cpus ?s0 h)\<lparr>noff := noff (cpus ?s0 h) - 1, sie := noff (cpus ?s0 h) = 1 \<and> intena (cpus ?s0 h)\<rparr> =
        off_cpu (cpus s h)"
      using r(2) [of h] by (simp add: held_def off_cpu_def)
    moreover have "cpus (held h (Proc_lock p) s) = (cpus s)(h := off_cpu (cpus s h))"
      "(cpus ?s0)(h := off_cpu (cpus s h)) = (cpus s)(h := off_cpu (cpus s h))"
      by (auto simp: held_def)
    moreover have "?s0\<lparr>locks := locks (held h (Proc_lock p) s), cpus := cpus (held h (Proc_lock p) s)\<rparr> = held h (Proc_lock p) s"
      by (simp add: held_def)
    ultimately show ?thesis by simp
  qed
  finally show ?thesis .
qed

lemma switch_run:
  fixes s :: "'a kproc_scheme"
  assumes "at_rest s" "cproc (cpus s h) = Some p" "p < NPROC"
  shows "\<exists>i s1 s2. sleep_do h chan lk p Switch (held h (Proc_lock p) s) = Some s1 \<and> scheduler_back h p s1 = Some s2 \<and>
     kframe h s s2 \<and>
     procs s2 = (procs s)[p := (procs s ! p)\<lparr>p_chan := chan, p_state := SLEEPING, last_executed := ticks s,
       p_context := In_sleep lk i\<rparr>] \<and>
     cproc (cpus s2 h) = None"
proof -
  have r: "free_lock l s" "noff (cpus s h') = 0" "length (procs s) = NPROC" for l h'
    using assms(1) by (simp_all add: at_rest_def)
  let ?ps = "(procs s)[p := (procs s ! p)\<lparr>p_chan := chan, p_state := SLEEPING\<rparr>]"
  let ?s1 = "(held h (Proc_lock p) s)\<lparr>procs := ?ps\<rparr>"
  have "free_lock Ticks_lock ?s1" using r(1) by (simp add: free_lock_def held_def)
  moreover have "holding h (Proc_lock p) ?s1" by (simp add: holding_def held_def)
  ultimately have "sched h (In_sleep lk) ?s1 = Some (upd_proc p (\<lambda>q. q\<lparr>last_executed := ticks s,
      p_context := In_sleep lk (intena (cpus ?s1 h))\<rparr>) ?s1)" (is "_ = Some ?s2")
    using sched_run [of ?s1 h p "In_sleep lk"] assms(2,3) r by (simp add: upd_proc_def)
  then have y: "sleep_do h chan lk p Switch (held h (Proc_lock p) s) = Some ?s2"
    using assms(3) r(3) by (simp add: upd_proc_def)
  have b: "scheduler_back h p ?s2 = Some (?s2\<lparr>locks := locks s, cpus := (cpus ?s2)
     (h := \<lparr>cproc = None, noff = 0, intena = intena (cpus ?s2 h), sie = intena (cpus ?s2 h)\<rparr>)\<rparr>)" (is "_ = Some ?s3")
    by (rule scheduler_back_run [OF r(1)]) (simp_all add: r upd_proc_def)
  have "kframe h s ?s3" using r by (simp add: kframe_def upd_proc_def held_def)
  moreover have "procs ?s3 = (procs s)[p := (procs s ! p)\<lparr>p_chan := chan, p_state := SLEEPING, last_executed := ticks s,
      p_context := In_sleep lk (intena (cpus ?s1 h))\<rparr>]"
    using assms(3) r(3) by (simp add: upd_proc_def)
  moreover have "cproc (cpus ?s3 h) = None" by simp
  ultimately show ?thesis using y b by blast
qed

lemma sleep_run:
  fixes s :: "'a kproc_scheme"
  assumes "at_rest s" "cproc (cpus s h) = Some p" "p < NPROC" "\<And>i. lk \<noteq> Proc_lock i"
  shows "\<exists>i s1 s2. sleep_begin h chan lk (held h lk s) = Some (p, s1) \<and> scheduler_back h p s1 = Some s2 \<and> kframe h s s2 \<and>
     procs s2 = (procs s)[p := (procs s ! p)\<lparr>p_chan := chan, p_state := SLEEPING, last_executed := ticks s,
       p_context := In_sleep lk i\<rparr>] \<and>
     cproc (cpus s2 h) = None"
proof -
  have r: "free_lock l s" "noff (cpus s h) = 0" for l using assms(1) by (simp_all add: at_rest_def)
  have "myproc h (held h lk s) = Some (Some p, held h lk s)"
    using myproc_ok [of h "held h lk s"] assms(2) r by (simp add: hart_ok_def)
  moreover have "free_lock (Proc_lock p) (held h lk s)" using r(1) assms(4) by (metis free_lock_def held_simps(4))
  from acquire_free [OF this, of h]
  have "acquire h (Proc_lock p) (held h lk s) = Some (held h (Proc_lock p) (held h lk s))" .
  ultimately have "sleep_begin h chan lk (held h lk s) =
      do { s \<leftarrow> sleep_do h chan lk p Switch (held h (Proc_lock p) s); Some (p, s) }"
    using give_up_run [OF assms(1,4), of h p] by (simp add: sleep_begin_def sleep_code_def)
  with switch_run [OF assms(1-3), of chan lk] show ?thesis by (auto simp del: sleep_do.simps)
qed

lemma scheduler_try_run:
  fixes s :: "'a kproc_scheme"
  assumes "at_rest s" "i < NPROC"
  shows "p_state (procs s ! i) \<noteq> RUNNABLE \<Longrightarrow> scheduler_try h i s = Some (False, settle h s)"
    and "p_state (procs s ! i) = RUNNABLE \<Longrightarrow> scheduler_try h i s = Some (True,
      (held h (Proc_lock i) s)\<lparr>procs := (procs s)[i := (procs s ! i)\<lparr>p_state := RUNNING, ch_counter := ch_counter (procs s ! i) + 1\<rparr>],
        cpus := (cpus s)(h := (off_cpu (cpus s h))\<lparr>cproc := Some i\<rparr>)\<rparr>)"
proof -
  have r: "free_lock (Proc_lock i) s" "hart_ok h s" "i < length (procs s)"
    using assms by (simp_all add: at_rest_def hart_ok_def)
  show "scheduler_try h i s = Some (False, settle h s)" if "p_state (procs s ! i) \<noteq> RUNNABLE"
    using that r(3) acquire_free [OF r(1)] crit_procs [OF r(1,2)] by (simp add: scheduler_try_def get_proc_def aget_def)
  show "scheduler_try h i s = Some (True,
      (held h (Proc_lock i) s)\<lparr>procs := (procs s)[i := (procs s ! i)\<lparr>p_state := RUNNING, ch_counter := ch_counter (procs s ! i) + 1\<rparr>],
        cpus := (cpus s)(h := (off_cpu (cpus s h))\<lparr>cproc := Some i\<rparr>)\<rparr>)" if "p_state (procs s ! i) = RUNNABLE"
    using that r(3) acquire_free [OF r(1)]
    by (simp add: scheduler_try_def get_proc_def aget_def upd_proc_def upd_cpu_def held_def Let_def)
qed

text \<open>A process that the scheduler switches to goes on behind the \<open>swtch\<close> of its own function.\<close>

lemma resume_run:
  fixes s :: "'a kproc_scheme"
  assumes "at_rest s" "i < NPROC" "scheduler_try h i s = Some (True, s1)"
  shows "\<exists>s2. yield_end h i b s1 = Some s2 \<and> kframe h s s2 \<and> cproc (cpus s2 h) = Some i \<and>
     procs s2 = (procs s)[i := (procs s ! i)\<lparr>p_state := RUNNING, ch_counter := ch_counter (procs s ! i) + 1\<rparr>]"
    and "\<exists>s2. sleep_end h i lk b s1 = Some (held h lk s2) \<and> sleep_awake h i b s1 = Some s2 \<and> kframe h s s2 \<and> cproc (cpus s2 h) = Some i \<and>
     procs s2 = (procs s)[i := (procs s ! i)\<lparr>p_state := RUNNING, ch_counter := ch_counter (procs s ! i) + 1, p_chan := None\<rparr>]"
proof -
  let ?q = "(procs s ! i)\<lparr>p_state := RUNNING, ch_counter := ch_counter (procs s ! i) + 1\<rparr>"
  have r: "free_lock l s" "noff (cpus s h) = 0" "i < length (procs s)" for l
    using assms(1,2) by (simp_all add: at_rest_def)
  have s1: "s1 = (held h (Proc_lock i) s)\<lparr>procs := (procs s)[i := ?q],
      cpus := (cpus s)(h := (off_cpu (cpus s h))\<lparr>cproc := Some i\<rparr>)\<rparr>"
    using scheduler_try_run [OF assms(1,2), of h] assms(3) by (cases "p_state (procs s ! i) = RUNNABLE") auto
  have lk: "(locks s)(Proc_lock i := (locks s (Proc_lock i))\<lparr>lk_locked := 0, lk_cpu := None\<rparr>) = locks s"
    using r(1) [of "Proc_lock i"] by (intro ext) (simp add: free_lock_def)
  have rel: "release h (Proc_lock i) ((sched_return h b s1)\<lparr>procs := ps\<rparr>) = Some (s\<lparr>procs := ps,
      cpus := (cpus s)(h := \<lparr>cproc = Some i, noff = 0, intena = b, sie = b\<rparr>)\<rparr>)" for ps
    using release_run [of h "Proc_lock i" "(sched_return h b s1)\<lparr>procs := ps\<rparr>"] lk r(2)
    by (simp add: s1 sched_return_def upd_cpu_def holding_def held_def off_cpu_def)
  have own: "(sched_return h b s1)\<lparr>procs := procs s1\<rparr> = sched_return h b s1"
    by (simp add: sched_return_def upd_cpu_def)
  show "\<exists>s2. yield_end h i b s1 = Some s2 \<and> kframe h s s2 \<and> cproc (cpus s2 h) = Some i \<and> procs s2 = (procs s)[i := ?q]"
    using rel [of "procs s1"] r unfolding own by (simp add: yield_end_def kframe_def s1)
  let ?s2 = "s\<lparr>procs := (procs s)[i := ?q\<lparr>p_chan := None\<rparr>], cpus := (cpus s)(h := \<lparr>cproc = Some i, noff = 0, intena = b, sie = b\<rparr>)\<rparr>"
  have "upd_proc i (\<lambda>q. q\<lparr>p_chan := None\<rparr>) (sched_return h b s1) =
      (sched_return h b s1)\<lparr>procs := (procs s)[i := ?q\<lparr>p_chan := None\<rparr>]\<rparr>"
    using r(3) by (simp add: upd_proc_def sched_return_def upd_cpu_def s1)
  moreover have "acquire h lk ?s2 = Some (held h lk ?s2)"
    by (rule acquire_free) (use r(1) [of lk] in \<open>simp add: free_lock_def\<close>)
  ultimately have "sleep_awake h i b s1 = Some ?s2" "sleep_end h i lk b s1 = Some (held h lk ?s2)"
    using rel by (simp_all add: sleep_end_def sleep_awake_def)
  moreover have "kframe h s ?s2" using r by (simp add: kframe_def)
  ultimately show "\<exists>s2. sleep_end h i lk b s1 = Some (held h lk s2) \<and> sleep_awake h i b s1 = Some s2 \<and> kframe h s s2 \<and> cproc (cpus s2 h) = Some i \<and>
     procs s2 = (procs s)[i := ?q\<lparr>p_chan := None\<rparr>]"
    by (intro exI [of _ ?s2]) simp
qed

section \<open>The processors and the processes as one system\<close>

text \<open>
  What a hart is doing: its scheduler is about to look at process \<open>i\<close> of its loop (at \<open>NPROC\<close> the
  round is over), or it executes process \<open>p\<close>, which the scheduler switched to.
\<close>

datatype control = Scanning nat | Executing nat

record ksys = kproc +
  ctl :: "nat \<Rightarrow> control"

definition goto :: "nat \<Rightarrow> control \<Rightarrow> 'a ksys_scheme \<Rightarrow> 'a ksys_scheme" where
  "goto h c s = s\<lparr>ctl := (ctl s)(h := c)\<rparr>"

text \<open>\<open>forkret\<close>, where a new process starts: it gives back its own lock.\<close>

definition forkret_begin :: "nat \<Rightarrow> 'a kproc_scheme \<Rightarrow> 'a kproc_scheme option" where
  "forkret_begin h s = do {
     (p, s) \<leftarrow> myproc h s;
     p \<leftarrow> p;
     release h (Proc_lock p) s }"

text \<open>The timer interrupt: \<open>clockintr\<close> of \<open>trap.c\<close>.\<close>

definition clock_lock :: "nat \<Rightarrow> 'a kproc_scheme \<Rightarrow> 'a kproc_scheme option" where
  "clock_lock h s = do {
     s \<leftarrow> acquire h Ticks_lock s;
     Some (s\<lparr>ticks := ticks s + 1\<rparr>) }"

definition clockintr :: "nat \<Rightarrow> 'a kproc_scheme \<Rightarrow> 'a kproc_scheme option" where
  "clockintr h s = do {
     s \<leftarrow> clock_lock h s;
     s \<leftarrow> wakeup h (Some At_ticks) s;
     release h Ticks_lock s }"

datatype event = Skip | Wrap | Pick | Leave | Signal

text \<open>
  The steps of hart \<open>h\<close>. Between two steps the hart holds no lock. A process that sleeps does so
  under a lock \<open>lk\<close> of its own, which it takes before and gives back after.
\<close>

inductive proc_step :: "nat \<Rightarrow> event \<Rightarrow> 'a ksys_scheme \<Rightarrow> 'a ksys_scheme \<Rightarrow> bool" where
  skip: "ctl s h = Scanning i \<Longrightarrow> i < NPROC \<Longrightarrow> scheduler_try h i s = Some (False, s') \<Longrightarrow>
    proc_step h Skip s (goto h (Scanning (Suc i)) s')"
| wrap: "ctl s h = Scanning NPROC \<Longrightarrow> proc_step h Wrap s (goto h (Scanning 0) (intr_on h s))"
| pick_yield: "ctl s h = Scanning i \<Longrightarrow> i < NPROC \<Longrightarrow> scheduler_try h i s = Some (True, s1) \<Longrightarrow>
    p_context (procs s ! i) = In_yield b \<Longrightarrow> yield_end h i b s1 = Some s2 \<Longrightarrow>
    proc_step h Pick s (goto h (Executing i) s2)"
| pick_sleep: "ctl s h = Scanning i \<Longrightarrow> i < NPROC \<Longrightarrow> scheduler_try h i s = Some (True, s1) \<Longrightarrow>
    p_context (procs s ! i) = In_sleep lk b \<Longrightarrow> sleep_end h i lk b s1 = Some s2 \<Longrightarrow> release h lk s2 = Some s3 \<Longrightarrow>
    proc_step h Pick s (goto h (Executing i) s3)"
| pick_fork: "ctl s h = Scanning i \<Longrightarrow> i < NPROC \<Longrightarrow> scheduler_try h i s = Some (True, s1) \<Longrightarrow>
    p_context (procs s ! i) = In_forkret \<Longrightarrow> forkret_begin h s1 = Some s2 \<Longrightarrow>
    proc_step h Pick s (goto h (Executing i) s2)"
| leave_yield: "ctl s h = Executing i \<Longrightarrow> yield_begin h s = Some (p, s1) \<Longrightarrow> scheduler_back h p s1 = Some s2 \<Longrightarrow>
    proc_step h Leave s (goto h (Scanning (Suc i)) s2)"
| leave_sleep: "ctl s h = Executing i \<Longrightarrow> (\<forall>j. lk \<noteq> Proc_lock j) \<Longrightarrow> acquire h lk s = Some s0 \<Longrightarrow>
    sleep_begin h chan lk s0 = Some (p, s1) \<Longrightarrow> scheduler_back h p s1 = Some s2 \<Longrightarrow>
    proc_step h Leave s (goto h (Scanning (Suc i)) s2)"
| signal_wakeup: "wakeup h chan s = Some s' \<Longrightarrow> proc_step h Signal s s'"
| signal_kill: "kill h pid s = Some (r, s') \<Longrightarrow> proc_step h Signal s s'"
| signal_tick: "clockintr h s = Some s' \<Longrightarrow> proc_step h Signal s s'"

text \<open>A process is RUNNING exactly when one hart executes it, and the hart's record says so.\<close>

definition resumable :: "resume \<Rightarrow> bool" where
  "resumable k \<longleftrightarrow> k = In_forkret \<or> (\<exists>b. k = In_yield b) \<or> (\<exists>b lk. k = In_sleep lk b \<and> (\<forall>j. lk \<noteq> Proc_lock j))"

definition ctl_ok :: "'a ksys_scheme \<Rightarrow> nat \<Rightarrow> bool" where
  "ctl_ok s h \<longleftrightarrow> cproc (cpus s h) = (case ctl s h of Executing p \<Rightarrow> Some p | Scanning i \<Rightarrow> None) \<and>
     (case ctl s h of Executing p \<Rightarrow> p < NPROC | Scanning i \<Rightarrow> i \<le> NPROC)"

definition proc_ok :: "'a ksys_scheme \<Rightarrow> nat \<Rightarrow> bool" where
  "proc_ok s p \<longleftrightarrow> (p_state (procs s ! p) = RUNNING \<longleftrightarrow> (\<exists>h. ctl s h = Executing p)) \<and>
     (p_state (procs s ! p) = RUNNABLE \<or> p_state (procs s ! p) = SLEEPING \<longrightarrow> resumable (p_context (procs s ! p)))"

definition sys_inv :: "'a ksys_scheme \<Rightarrow> bool" where
  "sys_inv s \<longleftrightarrow> at_rest s \<and> (\<forall>h. ctl_ok s h) \<and> (\<forall>p<NPROC. proc_ok s p) \<and>
     (\<forall>h h' p. ctl s h = Executing p \<and> ctl s h' = Executing p \<longrightarrow> h = h')"

lemma sys_inv_simps:
  assumes "sys_inv s"
  shows "at_rest s" "ctl_ok s h" "p < NPROC \<Longrightarrow> proc_ok s p" "length (procs s) = NPROC"
    "ctl s h = Executing p \<Longrightarrow> ctl s h' = Executing p \<Longrightarrow> h = h'"
    "ctl s h = Executing p \<Longrightarrow> p < NPROC \<and> cproc (cpus s h) = Some p"
  using assms by (auto simp: sys_inv_def at_rest_def ctl_ok_def split: control.splits)

text \<open>Waking and killing leave alone who is running and where the others go on.\<close>

definition calm :: "proc_s \<Rightarrow> proc_s \<Rightarrow> bool" where
  "calm p q \<longleftrightarrow> (p_state q = RUNNING \<longleftrightarrow> p_state p = RUNNING) \<and>
     (p_state q = RUNNABLE \<or> p_state q = SLEEPING \<longrightarrow>
        (p_state p = RUNNABLE \<or> p_state p = SLEEPING) \<and> p_context q = p_context p)"

lemma calm_refl [simp]: "calm p p"
  by (simp add: calm_def)

lemma calm_wake [simp]: "calm p (wake_if c p)"
  by (simp add: calm_def wake_if_def)

lemma inv_calm:
  fixes s s' :: "'a ksys_scheme"
  assumes "sys_inv s" "at_rest s'" "\<And>h. cproc (cpus s' h) = cproc (cpus s h)"
    "\<And>h. ctl s' h = (case ctl s h of Executing p \<Rightarrow> Executing p | Scanning i \<Rightarrow> Scanning (f h i))"
    "\<And>h i. ctl s h = Scanning i \<Longrightarrow> f h i \<le> NPROC"
    "\<And>p. p < NPROC \<Longrightarrow> calm (procs s ! p) (procs s' ! p)"
  shows "sys_inv s'"
proof -
  have ex: "ctl s' h = Executing p \<longleftrightarrow> ctl s h = Executing p" for h p
    using assms(4) [of h] by (simp split: control.splits)
  have c: "p_state (procs s' ! p) = RUNNING \<longleftrightarrow> p_state (procs s ! p) = RUNNING"
    "p_state (procs s' ! p) = RUNNABLE \<or> p_state (procs s' ! p) = SLEEPING \<Longrightarrow>
      (p_state (procs s ! p) = RUNNABLE \<or> p_state (procs s ! p) = SLEEPING) \<and> p_context (procs s' ! p) = p_context (procs s ! p)"
    if "p < NPROC" for p
    using assms(6) [OF that] by (auto simp: calm_def)
  note inv = sys_inv_simps [OF assms(1)]
  have "ctl_ok s' h" for h
    using inv(2) [of h] assms(3,4) [of h] assms(5) [of h] by (simp add: ctl_ok_def split: control.splits)
  moreover have "proc_ok s' p" if "p < NPROC" for p
    using inv(3) [OF that] c(1) [OF that] c(2) [OF that] unfolding proc_ok_def ex by metis
  moreover have "h = h'" if "ctl s' h = Executing p" "ctl s' h' = Executing p" for h h' p
    using inv(5) [of h p h'] that by (simp only: ex)
  ultimately show ?thesis using assms(2) unfolding sys_inv_def by blast
qed

lemma inv_leave:
  fixes s s2 :: "'a ksys_scheme"
  assumes "sys_inv s" "ctl s h = Executing i" "kframe h s s2" "ctl s2 = ctl s" "procs s2 = (procs s)[i := q]"
    "cproc (cpus s2 h) = None" "p_state q \<noteq> RUNNING" "resumable (p_context q)"
  shows "sys_inv (goto h (Scanning (Suc i)) s2)"
proof -
  note inv = sys_inv_simps [OF assms(1)]
  have i: "i < NPROC" using inv(6) [OF assms(2)] by simp
  have others: "ctl s h' \<noteq> Executing i" if "h' \<noteq> h" for h' using inv(5) [OF assms(2), of h'] that by blast
  let ?s = "goto h (Scanning (Suc i)) s2"
  have "at_rest ?s" using kframe_rest [OF assms(3) inv(1)] by (simp add: at_rest_def goto_def free_lock_def)
  moreover have "ctl_ok ?s h'" for h'
    using inv(2) [of h'] assms(3,4,6) i by (simp add: ctl_ok_def goto_def kframe_def)
  moreover have "proc_ok ?s p" if "p < NPROC" for p
  proof -
    have ex: "(\<exists>h'. ctl ?s h' = Executing p) \<longleftrightarrow> p \<noteq> i \<and> (\<exists>h'. ctl s h' = Executing p)"
      using assms(2,4) others unfolding goto_def by simp (metis control.inject(2))
    have "procs ?s ! p = (if p = i then q else procs s ! p)" using assms(5) i inv(4) by (simp add: goto_def)
    then show ?thesis using inv(3) [OF that] assms(7,8) unfolding proc_ok_def ex by simp
  qed
  moreover have "h1 = h2" if "ctl ?s h1 = Executing p" "ctl ?s h2 = Executing p" for h1 h2 p
    using inv(5) [of h1 p h2] that assms(4) by (simp add: goto_def split: if_splits)
  ultimately show ?thesis unfolding sys_inv_def by blast
qed

lemma inv_enter:
  fixes s s2 :: "'a ksys_scheme"
  assumes "sys_inv s" "ctl s h = Scanning i" "i < NPROC" "kframe h s s2" "ctl s2 = ctl s" "procs s2 = (procs s)[i := q]"
    "cproc (cpus s2 h) = Some i" "p_state q = RUNNING" "p_state (procs s ! i) = RUNNABLE"
  shows "sys_inv (goto h (Executing i) s2)"
proof -
  note inv = sys_inv_simps [OF assms(1)]
  have others: "ctl s h' \<noteq> Executing i" for h' using inv(3) [OF assms(3)] assms(9) by (simp add: proc_ok_def)
  let ?s = "goto h (Executing i) s2"
  have "at_rest ?s" using kframe_rest [OF assms(4) inv(1)] by (simp add: at_rest_def goto_def free_lock_def)
  moreover have "ctl_ok ?s h'" for h'
    using inv(2) [of h'] assms(3-7) by (simp add: ctl_ok_def goto_def kframe_def)
  moreover have "proc_ok ?s p" if "p < NPROC" for p
  proof -
    have ex: "(\<exists>h'. ctl ?s h' = Executing p) \<longleftrightarrow> p = i \<or> (\<exists>h'. ctl s h' = Executing p)"
      using assms(2,5) others unfolding goto_def by simp (metis control.distinct(1) control.inject(2))
    have "procs ?s ! p = (if p = i then q else procs s ! p)" using assms(3,6) inv(4) by (simp add: goto_def)
    then show ?thesis using inv(3) [OF that] assms(8) unfolding proc_ok_def ex by simp
  qed
  moreover have "h1 = h2" if "ctl ?s h1 = Executing p" "ctl ?s h2 = Executing p" for h1 h2 p
    using inv(5) [of h1 p h2] that assms(5) others by (simp add: goto_def split: if_splits)
  ultimately show ?thesis unfolding sys_inv_def by blast
qed

definition kill_proc :: "proc_s \<Rightarrow> proc_s" where
  "kill_proc p = (if p_state p = SLEEPING then p\<lparr>p_killed := 1, p_state := RUNNABLE\<rparr> else p\<lparr>p_killed := 1\<rparr>)"

lemma calm_kill [simp]: "calm p (kill_proc p)"
  by (simp add: calm_def kill_proc_def)

lemma kill_loop_run:
  fixes s :: "'a kproc_scheme"
  assumes "quiet h s" "set is \<subseteq> {..<NPROC}"
  shows "kill_loop h pid is s =
    (case find (\<lambda>i. p_pid (procs s ! i) = pid) is of
       None \<Rightarrow> Some (-1, if is = [] then s else settle h s)
     | Some i \<Rightarrow> Some (0, (settle h s)\<lparr>procs := (procs s)[i := kill_proc (procs s ! i)]\<rparr>))"
  using assms
proof (induction "is" arbitrary: s)
  case (Cons i "is")
  have q: "hart_ok h s" "free_lock (Proc_lock i) s" "i < length (procs s)"
    using Cons.prems by (auto simp: quiet_def)
  have "kill_loop h pid is (settle h s) = (case find (\<lambda>i. p_pid (procs s ! i) = pid) is of
       None \<Rightarrow> Some (-1, settle h s)
     | Some i \<Rightarrow> Some (0, (settle h s)\<lparr>procs := (procs s)[i := kill_proc (procs s ! i)]\<rparr>))"
    using Cons.IH [OF quiet_settle [OF Cons.prems(1)]] Cons.prems(2) by (simp cong: option.case_cong)
  then show ?case
    using acquire_free [OF q(2), of h] crit_procs [OF q(2,1)] q(3)
    by (simp add: get_proc_def aget_def upd_proc_def kill_proc_def Let_def)
qed simp

lemma kill_run:
  fixes s :: "'a kproc_scheme"
  assumes "quiet h s"
  shows "kill h pid s =
    (case find (\<lambda>i. p_pid (procs s ! i) = pid) [0..<NPROC] of
       None \<Rightarrow> Some (-1, settle h s)
     | Some i \<Rightarrow> Some (0, (settle h s)\<lparr>procs := (procs s)[i := kill_proc (procs s ! i)]\<rparr>))"
proof -
  have "set [0..<NPROC] \<subseteq> {..<NPROC}" "[0..<NPROC] \<noteq> []" by (auto simp: NPROC_def)
  then show ?thesis using kill_loop_run [OF assms] by (simp only: kill_def if_False)
qed

lemma clockintr_run:
  fixes s :: "'a kproc_scheme"
  assumes "at_rest s"
  shows "clockintr h s = Some ((settle h s)\<lparr>ticks := ticks s + 1,
     procs := woken (cproc (cpus s h)) (Some At_ticks) (procs s)\<rparr>)"
proof -
  have r: "free_lock l s" "hart_ok h s" "noff (cpus s h) = 0" for l
    using assms by (simp_all add: at_rest_def hart_ok_def)
  let ?s = "(held h Ticks_lock s)\<lparr>ticks := ticks s + 1\<rparr>"
  have "quiet h ?s"
    using assms by (simp add: quiet_def at_rest_def hart_ok_def free_lock_def held_def off_cpu_def)
  from wakeup_run [OF this, of "Some At_ticks"] have w: "wakeup h (Some At_ticks) ?s =
      Some (?s\<lparr>procs := woken (cproc (cpus s h)) (Some At_ticks) (procs s)\<rparr>)"
    using r(3) by simp
  show ?thesis
    using acquire_free [OF r(1), of h Ticks_lock] w
      release_held [OF r(1) [of Ticks_lock] r(2), of "?s\<lparr>procs := woken (cproc (cpus s h)) (Some At_ticks) (procs s)\<rparr>"]
    by (simp add: clockintr_def clock_lock_def Let_def held_def settle_def)
qed

lemma forkret_run:
  fixes s :: "'a kproc_scheme"
  assumes "at_rest s" "i < NPROC" "scheduler_try h i s = Some (True, s1)"
  shows "\<exists>s2. forkret_begin h s1 = Some s2 \<and> kframe h s s2 \<and> cproc (cpus s2 h) = Some i \<and>
     procs s2 = (procs s)[i := (procs s ! i)\<lparr>p_state := RUNNING, ch_counter := ch_counter (procs s ! i) + 1\<rparr>]"
proof -
  have r: "free_lock l s" "noff (cpus s h) = 0" "i < length (procs s)" for l
    using assms(1,2) by (simp_all add: at_rest_def)
  have s1: "s1 = (held h (Proc_lock i) s)\<lparr>procs := (procs s)[i := (procs s ! i)\<lparr>p_state := RUNNING, ch_counter := ch_counter (procs s ! i) + 1\<rparr>],
      cpus := (cpus s)(h := (off_cpu (cpus s h))\<lparr>cproc := Some i\<rparr>)\<rparr>"
    using scheduler_try_run [OF assms(1,2), of h] assms(3) by (cases "p_state (procs s ! i) = RUNNABLE") auto
  have lk: "(locks s)(Proc_lock i := (locks s (Proc_lock i))\<lparr>lk_locked := 0, lk_cpu := None\<rparr>) = locks s"
    using r(1) [of "Proc_lock i"] by (intro ext) (simp add: free_lock_def)
  have c: "cproc (cpus s1 h) = Some i" "noff (cpus s1 h) = 1" "\<not> sie (cpus s1 h)"
    using r(2) by (simp_all add: s1 off_cpu_def)
  have "myproc h s1 = Some (Some i, s1)" using myproc_ok [of h s1] c by (simp add: hart_ok_def)
  moreover have "holding h (Proc_lock i) s1" by (simp add: s1 holding_def held_def)
  from release_run [OF this] c have "release h (Proc_lock i) s1 = Some (s1\<lparr>locks := locks s,
      cpus := (cpus s1)(h := (cpus s1 h)\<lparr>noff := 0, sie := intena (cpus s1 h)\<rparr>)\<rparr>)" (is "_ = Some ?s2")
    using lk by (simp add: s1 held_def)
  ultimately have "forkret_begin h s1 = Some ?s2" by (simp add: forkret_begin_def)
  moreover have "kframe h s ?s2" "cproc (cpus ?s2 h) = Some i" using r(2) c by (simp_all add: kframe_def s1)
  ultimately show ?thesis by (intro exI [of _ ?s2]) (simp add: s1)
qed


section \<open>Every reachable state is sound\<close>

lemma settle_ctl [simp]:
  fixes s :: "'a ksys_scheme"
  shows "ctl (settle h s) = ctl s" "ctl (held h l s) = ctl s"
  by (simp_all add: settle_def held_def)

lemma kframe_ctl:
  fixes s s' :: "'a ksys_scheme"
  shows "kframe h s s' \<Longrightarrow> ctl s' = ctl s"
  by (cases s; cases s') (simp add: kframe_def)

text \<open>What a signal makes of a process.\<close>

definition signalled :: "proc_s \<Rightarrow> proc_s \<Rightarrow> bool" where
  "signalled p q \<longleftrightarrow> q = p \<or> q = kill_proc p \<or> (\<exists>c. q = wake_if c p)"

lemma signalled_calm: "signalled p q \<Longrightarrow> calm p q"
  by (auto simp: signalled_def)

lemma signal_effect:
  fixes s :: "'a ksys_scheme"
  assumes "at_rest s" "proc_step h Signal s s'"
  shows "\<exists>t ps. s' = (settle h s)\<lparr>ticks := t, procs := ps\<rparr> \<and> length ps = NPROC \<and>
     (\<forall>p<NPROC. signalled (procs s ! p) (ps ! p))"
proof -
  have len: "length (procs s) = NPROC" using assms(1) by (simp add: at_rest_def)
  note quiet = at_rest_quiet [OF assms(1), of h]
  have w: "signalled (procs s ! p) (woken me c (procs s) ! p)" if "p < NPROC" for me c p
    using that len by (auto simp: nth_woken signalled_def)
  show ?thesis
    using assms(2)
  proof cases
    case (signal_wakeup chan)
    have "s' = (settle h s)\<lparr>ticks := ticks s, procs := woken (cproc (cpus s h)) chan (procs s)\<rparr>"
      using signal_wakeup wakeup_run [OF quiet, of chan] by (simp add: settle_def)
    then show ?thesis using w len by (metis length_woken)
  next
    case (signal_kill pid r)
    show ?thesis
    proof (cases "find (\<lambda>i. p_pid (procs s ! i) = pid) [0..<NPROC]")
      case None
      then have "s' = settle h s" using signal_kill kill_run [OF quiet, of pid] by simp
      moreover have "settle h s = (settle h s)\<lparr>ticks := ticks s, procs := procs s\<rparr>" by (cases s) (simp add: settle_def)
      ultimately have "s' = (settle h s)\<lparr>ticks := ticks s, procs := procs s\<rparr>" by simp
      then show ?thesis using len signalled_def by metis
    next
      case (Some i)
      then have "s' = (settle h s)\<lparr>ticks := ticks s, procs := (procs s)[i := kill_proc (procs s ! i)]\<rparr>"
        using signal_kill kill_run [OF quiet, of pid] by (simp add: settle_def)
      moreover have "signalled (procs s ! p) ((procs s)[i := kill_proc (procs s ! i)] ! p)" if "p < NPROC" for p
        using that len by (cases "p = i") (simp_all add: signalled_def)
      ultimately show ?thesis using len length_list_update by metis
    qed
  next
    case signal_tick
    then show ?thesis using clockintr_run [OF assms(1), of h] w len by (metis length_woken option.inject)
  qed
qed

lemma inv_procs:
  fixes s s' :: "'a ksys_scheme"
  assumes "sys_inv s" "locks s' = locks s" "\<And>h. noff (cpus s' h) = noff (cpus s h)" "\<And>h. cproc (cpus s' h) = cproc (cpus s h)"
    "ctl s' = ctl s" "length (procs s') = NPROC" "\<And>p. p < NPROC \<Longrightarrow> calm (procs s ! p) (procs s' ! p)"
  shows "sys_inv s'"
proof (rule inv_calm [OF assms(1), where f = "\<lambda>h i. i"])
  show "at_rest s'" using sys_inv_simps(1) [OF assms(1)] assms(2,3,6) by (simp add: at_rest_def free_lock_def)
  show "i \<le> NPROC" if "ctl s h = Scanning i" for h i
    using sys_inv_simps(2) [OF assms(1), of h] that by (simp add: ctl_ok_def)
qed (use assms in \<open>auto split: control.splits\<close>)

lemma inv_signal:
  fixes s :: "'a ksys_scheme"
  assumes "sys_inv s" "proc_step h Signal s s'"
  shows "sys_inv s'"
proof -
  obtain t ps where s': "s' = (settle h s)\<lparr>ticks := t, procs := ps\<rparr>" "length ps = NPROC"
    "\<forall>p<NPROC. signalled (procs s ! p) (ps ! p)"
    using signal_effect [OF sys_inv_simps(1) [OF assms(1)] assms(2)] by blast
  show ?thesis by (rule inv_procs [OF assms(1)]) (use s' signalled_calm in auto)
qed

text \<open>What a pick does, whichever way the process left.\<close>

lemma pick_run:
  fixes s :: "'a ksys_scheme"
  assumes "sys_inv s" "ctl s h = Scanning i" "i < NPROC" "p_state (procs s ! i) = RUNNABLE"
  shows "\<exists>s2 c. proc_step h Pick s (goto h (Executing i) s2) \<and> kframe h s s2 \<and> cproc (cpus s2 h) = Some i \<and>
     procs s2 = (procs s)[i := (procs s ! i)\<lparr>p_state := RUNNING, ch_counter := ch_counter (procs s ! i) + 1, p_chan := c\<rparr>]"
proof -
  have rest: "at_rest s" using sys_inv_simps [OF assms(1)] by simp
  obtain s1 where s1: "scheduler_try h i s = Some (True, s1)" using scheduler_try_run(2) [OF rest assms(3,4)] by blast
  let ?q = "(procs s ! i)\<lparr>p_state := RUNNING, ch_counter := ch_counter (procs s ! i) + 1\<rparr>"
  have q: "?q\<lparr>p_chan := p_chan (procs s ! i)\<rparr> = ?q" by (cases "procs s ! i") simp
  have "resumable (p_context (procs s ! i))"
    using sys_inv_simps(3) [OF assms(1,3)] assms(4) by (simp add: proc_ok_def)
  then consider b where "p_context (procs s ! i) = In_yield b" | "p_context (procs s ! i) = In_forkret"
    | b lk where "p_context (procs s ! i) = In_sleep lk b" by (auto simp: resumable_def)
  then show ?thesis
  proof cases
    case 1
    obtain s2 where "yield_end h i b s1 = Some s2" "kframe h s s2" "cproc (cpus s2 h) = Some i" "procs s2 = (procs s)[i := ?q]"
      using resume_run(1) [OF rest assms(3) s1] by blast
    then show ?thesis using pick_yield [OF assms(2,3) s1 1] q by metis
  next
    case 2
    obtain s2 where "forkret_begin h s1 = Some s2" "kframe h s s2" "cproc (cpus s2 h) = Some i" "procs s2 = (procs s)[i := ?q]"
      using forkret_run [OF rest assms(3) s1] by blast
    then show ?thesis using pick_fork [OF assms(2,3) s1 2] q by metis
  next
    case 3
    obtain s2 where s2: "sleep_end h i lk b s1 = Some (held h lk s2)" "kframe h s s2" "cproc (cpus s2 h) = Some i"
      "procs s2 = (procs s)[i := ?q\<lparr>p_chan := None\<rparr>]"
      using resume_run(2) [OF rest assms(3) s1] by blast
    have "free_lock lk s2" "hart_ok h s2"
      using kframe_rest [OF s2(2) rest] by (simp_all add: at_rest_def hart_ok_def)
    from crit_procs(1) [OF this] have rel: "release h lk (held h lk s2) = Some (settle h s2)" .
    have "kframe h s (settle h s2)"
      using s2(2) by (simp add: kframe_def) (simp add: settle_def)
    then show ?thesis
      using pick_sleep [OF assms(2,3) s1 3 s2(1) rel] s2(3,4)
      by (intro exI [of _ "settle h s2"] exI [of _ None]) simp
  qed
qed

lemma try_True:
  fixes s :: "'a ksys_scheme"
  assumes "sys_inv s" "i < NPROC" "scheduler_try h i s = Some (True, s1)"
  shows "p_state (procs s ! i) = RUNNABLE"
  using scheduler_try_run(1) [OF sys_inv_simps(1) [OF assms(1)] assms(2), of h] assms(3) by auto

text \<open>The effect of a pick: the process is RUNNING on the hart, and chosen once more.\<close>

lemma pick_effect:
  fixes s :: "'a ksys_scheme"
  assumes "sys_inv s" "proc_step h Pick s s'"
  shows "\<exists>i s2 c. ctl s h = Scanning i \<and> i < NPROC \<and> p_state (procs s ! i) = RUNNABLE \<and> s' = goto h (Executing i) s2 \<and>
     kframe h s s2 \<and> cproc (cpus s2 h) = Some i \<and>
     procs s2 = (procs s)[i := (procs s ! i)\<lparr>p_state := RUNNING, ch_counter := ch_counter (procs s ! i) + 1, p_chan := c\<rparr>]"
proof -
  note rest = sys_inv_simps(1) [OF assms(1)]
  have q: "(procs s ! i)\<lparr>p_state := RUNNING, ch_counter := ch_counter (procs s ! i) + 1, p_chan := p_chan (procs s ! i)\<rparr> =
      (procs s ! i)\<lparr>p_state := RUNNING, ch_counter := ch_counter (procs s ! i) + 1\<rparr>" for i
    by (cases "procs s ! i") simp
  show ?thesis
    using assms(2)
  proof cases
    case (pick_yield i s1 b s2)
    then show ?thesis using resume_run(1) [OF rest pick_yield(3,4), of b] try_True [OF assms(1) pick_yield(3,4)] q
      by (metis option.inject)
  next
    case (pick_fork i s1 s2)
    then show ?thesis using forkret_run [OF rest pick_fork(3,4)] try_True [OF assms(1) pick_fork(3,4)] q
      by (metis option.inject)
  next
    case (pick_sleep i s1 lk b s2 s3)
    obtain t where t: "s2 = held h lk t" "kframe h s t" "cproc (cpus t h) = Some i"
      "procs t = (procs s)[i := (procs s ! i)\<lparr>p_state := RUNNING, ch_counter := ch_counter (procs s ! i) + 1, p_chan := None\<rparr>]"
      using resume_run(2) [OF rest pick_sleep(3,4), of lk b] pick_sleep(6) by auto
    have "free_lock lk t" "hart_ok h t" using kframe_rest [OF t(2) rest] by (simp_all add: at_rest_def hart_ok_def)
    from crit_procs(1) [OF this] have "s3 = settle h t" using pick_sleep(7) t(1) by simp
    moreover have "kframe h s (settle h t)" using t(2) by (simp add: kframe_def) (simp add: settle_def)
    ultimately show ?thesis
      using t(3,4) pick_sleep(1-3) try_True [OF assms(1) pick_sleep(3,4)]
      by (intro exI [of _ i] exI [of _ s3] exI [of _ None]) simp
  qed
qed

lemma leave_effect:
  fixes s :: "'a ksys_scheme"
  assumes "sys_inv s" "proc_step h Leave s s'"
  shows "\<exists>i s2 q. ctl s h = Executing i \<and> s' = goto h (Scanning (Suc i)) s2 \<and> kframe h s s2 \<and> cproc (cpus s2 h) = None \<and>
     procs s2 = (procs s)[i := q] \<and> (p_state q = RUNNABLE \<or> p_state q = SLEEPING) \<and> resumable (p_context q)"
  using assms(2)
proof cases
  case (leave_yield i p s1 s2)
  have "cproc (cpus s h) = Some i" "i < NPROC" using sys_inv_simps(6) [OF assms(1) leave_yield(2)] by simp_all
  from yield_run [OF sys_inv_simps(1) [OF assms(1)] this] obtain b where t: "kframe h s s2" "cproc (cpus s2 h) = None"
    "procs s2 = (procs s)[i := (procs s ! i)\<lparr>p_state := RUNNABLE, last_executed := ticks s, p_context := In_yield b\<rparr>]"
    using leave_yield(3,4) by auto
  show ?thesis
    by (rule exI [of _ i], rule exI [of _ s2], rule exI, intro conjI, rule leave_yield(2), rule leave_yield(1),
        rule t(1), rule t(2), rule t(3)) (simp_all add: resumable_def)
next
  case (leave_sleep i lk s0 chan p s1 s2)
  have c: "cproc (cpus s h) = Some i" "i < NPROC" using sys_inv_simps(6) [OF assms(1) leave_sleep(2)] by simp_all
  note rest = sys_inv_simps(1) [OF assms(1)]
  have "s0 = held h lk s" using leave_sleep(4) acquire_free [of lk s h] rest by (simp add: at_rest_def)
  with sleep_run [OF rest c, of lk chan] obtain b where t: "kframe h s s2" "cproc (cpus s2 h) = None"
    "procs s2 = (procs s)[i := (procs s ! i)\<lparr>p_chan := chan, p_state := SLEEPING, last_executed := ticks s, p_context := In_sleep lk b\<rparr>]"
    using leave_sleep(3,5,6) by auto
  show ?thesis
    by (rule exI [of _ i], rule exI [of _ s2], rule exI, intro conjI, rule leave_sleep(2), rule leave_sleep(1),
        rule t(1), rule t(2), rule t(3)) (use leave_sleep(3) in \<open>simp_all add: resumable_def\<close>)
qed

lemma inv_step:
  fixes s :: "'a ksys_scheme"
  assumes "sys_inv s" "proc_step h ev s s'"
  shows "sys_inv s'"
proof (cases ev)
  case Signal
  then show ?thesis using inv_signal assms by blast
next
  case Pick
  then obtain i s2 c where "ctl s h = Scanning i" "i < NPROC" "p_state (procs s ! i) = RUNNABLE" "s' = goto h (Executing i) s2"
     "kframe h s s2" "cproc (cpus s2 h) = Some i"
     "procs s2 = (procs s)[i := (procs s ! i)\<lparr>p_state := RUNNING, ch_counter := ch_counter (procs s ! i) + 1, p_chan := c\<rparr>]"
    using pick_effect [OF assms(1)] assms(2) by blast
  then show ?thesis using inv_enter [OF assms(1), of h i s2] kframe_ctl [of h s s2] by simp
next
  case Leave
  then obtain i s2 q where "ctl s h = Executing i" "s' = goto h (Scanning (Suc i)) s2" "kframe h s s2" "cproc (cpus s2 h) = None"
     "procs s2 = (procs s)[i := q]" "p_state q = RUNNABLE \<or> p_state q = SLEEPING" "resumable (p_context q)"
    using leave_effect [OF assms(1)] assms(2) by blast
  then show ?thesis using inv_leave [OF assms(1), of h i s2 q] kframe_ctl [of h s s2] by auto
next
  case Wrap
  then have w: "ctl s h = Scanning NPROC" "s' = goto h (Scanning 0) (intr_on h s)" using assms(2) by (auto elim: proc_step.cases)
  show ?thesis
  proof (rule inv_calm [OF assms(1), where f = "\<lambda>h' i. if h' = h then 0 else i"])
    show "(if h' = h then 0 else i) \<le> NPROC" if "ctl s h' = Scanning i" for h' i
      using sys_inv_simps(2) [OF assms(1), of h'] that by (simp add: ctl_ok_def)
  qed (use w sys_inv_simps(1) [OF assms(1)] in
      \<open>auto simp: goto_def intr_on_def upd_cpu_def at_rest_def free_lock_def split: control.splits\<close>)
next
  case Skip
  then obtain i s2 where w: "ctl s h = Scanning i" "i < NPROC" "scheduler_try h i s = Some (False, s2)"
    "s' = goto h (Scanning (Suc i)) s2" using assms(2) by (auto elim: proc_step.cases)
  have s2: "s2 = settle h s"
    using scheduler_try_run [OF sys_inv_simps(1) [OF assms(1)] w(2), of h] w(3)
    by (cases "p_state (procs s ! i) = RUNNABLE") auto
  show ?thesis
  proof (rule inv_calm [OF assms(1), where f = "\<lambda>h' i. if h' = h then Suc i else i"])
    show "(if h' = h then Suc j else j) \<le> NPROC" if "ctl s h' = Scanning j" for h' j
      using sys_inv_simps(2) [OF assms(1), of h'] that w(1,2) by (auto simp: ctl_ok_def)
  qed (use w(1,4) s2 sys_inv_simps(1) [OF assms(1)] in
      \<open>auto simp: goto_def at_rest_def free_lock_def split: control.splits\<close>)
qed

text \<open>A run of the system: who did what, and the state it reached.\<close>

inductive proc_run :: "'a ksys_scheme \<Rightarrow> (nat \<times> event \<times> 'a ksys_scheme) list \<Rightarrow> bool" where
  run_nil: "proc_run s []"
| run_step: "proc_step h ev s s' \<Longrightarrow> proc_run s' r \<Longrightarrow> proc_run s ((h, ev, s') # r)"

lemma inv_run: "proc_run s r \<Longrightarrow> sys_inv s \<Longrightarrow> x \<in> set r \<Longrightarrow> sys_inv (snd (snd x))"
  by (induction rule: proc_run.induct) (auto dest: inv_step)

text \<open>The machine after boot: every scheduler at the start of its loop, no process running.\<close>

definition boot_sys :: "'a ksys_scheme \<Rightarrow> bool" where
  "boot_sys s \<longleftrightarrow> at_rest s \<and> (\<forall>h. ctl s h = Scanning 0 \<and> cproc (cpus s h) = None) \<and>
     (\<forall>p<NPROC. p_state (procs s ! p) \<noteq> RUNNING \<and>
       (p_state (procs s ! p) = RUNNABLE \<or> p_state (procs s ! p) = SLEEPING \<longrightarrow> resumable (p_context (procs s ! p))))"

lemma inv_boot: "boot_sys s \<Longrightarrow> sys_inv s"
  by (simp add: sys_inv_def boot_sys_def ctl_ok_def proc_ok_def)

text \<open>
  C16. No process runs twice. After any interleaving of scheduler rounds, yields, sleeps, wakeups, kills
  and clock ticks on any number of harts, a process is RUNNING exactly when exactly one hart
  has it as its current process, and between steps every lock is free.
\<close>

theorem scheduler_exclusive:
  assumes "boot_sys s" and "proc_run s r" and "(h, ev, s') \<in> set r" and "p < NPROC"
  shows "(p_state (procs s' ! p) = RUNNING \<longleftrightarrow> (\<exists>!h. cproc (cpus s' h) = Some p)) \<and> (\<forall>l. free_lock l s')"
proof -
  have inv: "sys_inv s'" using inv_run [OF assms(2) inv_boot [OF assms(1)] assms(3)] by simp
  have c: "cproc (cpus s' h) = Some p \<longleftrightarrow> ctl s' h = Executing p" for h
    using sys_inv_simps(2) [OF inv, of h] by (auto simp: ctl_ok_def split: control.splits)
  show ?thesis
    using sys_inv_simps(1) [OF inv] sys_inv_simps(3) [OF inv assms(4)] sys_inv_simps(5) [OF inv, of _ p]
    unfolding c by (auto simp: proc_ok_def at_rest_def)
qed

text \<open>
  In this system, whose steps are whole critical sections, every hart has a step of its own in every
  reachable state. In the code a hart can be stopped inside of a critical section, by the lock of another
  one: see the deadlock below.
\<close>

lemma own_step:
  fixes s :: "'a ksys_scheme"
  assumes inv: "sys_inv s"
  obtains ev s' where "ev \<noteq> Signal" "proc_step h ev s s'"
    "ev \<in> {Skip, Pick} \<or> (ev = Leave \<and> (\<exists>i. ctl s' h = Scanning (Suc i) \<and> i < NPROC)) \<or> (ev = Wrap \<and> ctl s' h = Scanning 0)"
proof -
  note rest = sys_inv_simps(1) [OF inv]
  show thesis
  proof (cases "ctl s h")
    case (Scanning i)
    then consider "i = NPROC" | "i < NPROC" "p_state (procs s ! i) = RUNNABLE" | "i < NPROC" "p_state (procs s ! i) \<noteq> RUNNABLE"
      using sys_inv_simps(2) [OF inv, of h] by (force simp: ctl_ok_def)
    then show thesis
    proof cases
      case 1
      then show thesis using that [OF _ wrap [of s h]] Scanning by (simp add: goto_def)
    next
      case 2
      then show thesis using pick_run [OF inv Scanning] that by blast
    next
      case 3
      then show thesis using that [OF _ skip [OF Scanning 3(1) scheduler_try_run(1) [OF rest 3]]] by simp
    qed
  next
    case (Executing p)
    with sys_inv_simps(6) [OF inv Executing] yield_run [OF rest, of h p] obtain i s1 s2 where
      "yield_begin h s = Some (p, s1)" "scheduler_back h p s1 = Some s2" "p < NPROC" by blast
    then show thesis using that [OF _ leave_yield [OF Executing]] by (simp add: goto_def)
  qed
qed

text \<open>How many processes hart \<open>h\<close> looks at before it comes to process \<open>p\<close>.\<close>

fun dist_to :: "nat \<Rightarrow> control \<Rightarrow> nat" where
  "dist_to p (Scanning i) = (if i \<le> p then p - i else NPROC - i + p)"
| "dist_to p (Executing i) = (if Suc i \<le> p then p - Suc i else NPROC - Suc i + p)"

definition looks :: "nat \<Rightarrow> (nat \<times> event \<times> 'a) list \<Rightarrow> nat" where
  "looks h r = length (filter (\<lambda>(h', ev, _). h' = h \<and> ev \<in> {Skip, Pick}) r)"

lemma dist_step:
  fixes s :: "'a ksys_scheme"
  assumes "sys_inv s" "proc_step h' ev s s'" "p < NPROC"
    "p_state (procs s ! p) = RUNNABLE" "p_state (procs s' ! p) = RUNNABLE"
  shows "(if h' = h \<and> ev \<in> {Skip, Pick} then 1 else 0) + dist_to p (ctl s' h) \<le> dist_to p (ctl s h)"
proof (cases ev)
  case Signal
  have "ctl s' = ctl s" using assms(2)
  proof cases
    case (signal_wakeup chan)
    then show ?thesis using wakeup_run [OF at_rest_quiet [OF sys_inv_simps(1) [OF assms(1)]], of h' chan] by auto
  next
    case (signal_kill pid r)
    then show ?thesis using kill_run [OF at_rest_quiet [OF sys_inv_simps(1) [OF assms(1)]], of h' pid]
      by (auto split: option.splits)
  next
    case signal_tick
    then show ?thesis using clockintr_run [OF sys_inv_simps(1) [OF assms(1)], of h'] by auto
  qed (use Signal in simp_all)
  then show ?thesis using Signal by simp
next
  case Pick
  then obtain i s2 c where w: "ctl s h' = Scanning i" "i < NPROC" "s' = goto h' (Executing i) s2" "kframe h' s s2"
     "procs s2 = (procs s)[i := (procs s ! i)\<lparr>p_state := RUNNING, ch_counter := ch_counter (procs s ! i) + 1, p_chan := c\<rparr>]"
    using pick_effect [OF assms(1)] assms(2) by blast
  have "i \<noteq> p" using assms(3,5) w(3,5) sys_inv_simps(4) [OF assms(1)] by (auto simp: goto_def)
  then show ?thesis using w(1-3) kframe_ctl [OF w(4)] assms(3) by (auto simp: goto_def)
next
  case Leave
  then obtain i s2 where "ctl s h' = Executing i" "s' = goto h' (Scanning (Suc i)) s2" "kframe h' s s2"
    using leave_effect [OF assms(1)] assms(2) by blast
  then show ?thesis using kframe_ctl [of h' s s2] Leave by (auto simp: goto_def)
next
  case Wrap
  then have w: "ctl s h' = Scanning NPROC" "s' = goto h' (Scanning 0) (intr_on h' s)" using assms(2) by (auto elim: proc_step.cases)
  then show ?thesis using Wrap assms(3) by (auto simp: goto_def intr_on_def upd_cpu_def)
next
  case Skip
  then obtain i s2 where w: "ctl s h' = Scanning i" "i < NPROC" "scheduler_try h' i s = Some (False, s2)"
    "s' = goto h' (Scanning (Suc i)) s2" using assms(2) by (auto elim: proc_step.cases)
  note tries = scheduler_try_run [OF sys_inv_simps(1) [OF assms(1)] w(2), of h']
  have "p_state (procs s ! i) \<noteq> RUNNABLE" using tries(2) w(3) by auto
  then have "s2 = settle h' s" "i \<noteq> p" using tries(1) w(3) assms(4) by auto
  then show ?thesis using w assms(3) Skip by (auto simp: goto_def)
qed

text \<open>A RUNNABLE process stays so until a hart switches to it.\<close>

lemma runnable_until_pick:
  fixes s :: "'a ksys_scheme"
  assumes "sys_inv s" "proc_step h ev s s'" "p < NPROC" "p_state (procs s ! p) = RUNNABLE"
  shows "p_state (procs s' ! p) = RUNNABLE \<or>
    (ev = Pick \<and> ctl s' h = Executing p \<and> p_state (procs s' ! p) = RUNNING)"
proof (cases ev)
  case Signal
  then obtain t ps where s': "s' = (settle h s)\<lparr>ticks := t, procs := ps\<rparr>" "\<forall>p<NPROC. signalled (procs s ! p) (ps ! p)"
    using signal_effect [OF sys_inv_simps(1) [OF assms(1)]] assms(2) by blast
  then have "signalled (procs s ! p) (procs s' ! p)" using assms(3) by simp
  then show ?thesis using assms(4) by (auto simp: signalled_def kill_proc_def wake_if_def)
next
  case Pick
  then obtain i s2 c where w: "i < NPROC" "s' = goto h (Executing i) s2"
     "procs s2 = (procs s)[i := (procs s ! i)\<lparr>p_state := RUNNING, ch_counter := ch_counter (procs s ! i) + 1, p_chan := c\<rparr>]"
    using pick_effect [OF assms(1)] assms(2) by blast
  then show ?thesis using Pick assms(4) sys_inv_simps(4) [OF assms(1)] by (cases "i = p") (simp_all add: goto_def)
next
  case Leave
  then obtain i s2 q where w: "ctl s h = Executing i" "s' = goto h (Scanning (Suc i)) s2" "procs s2 = (procs s)[i := q]"
    using leave_effect [OF assms(1)] assms(2) by blast
  have "i \<noteq> p" using w(1) sys_inv_simps(3) [OF assms(1,3)] assms(4) by (auto simp: proc_ok_def)
  then show ?thesis using w assms(4) by (simp add: goto_def)
next
  case Wrap
  then have "s' = goto h (Scanning 0) (intr_on h s)" using assms(2) by (auto elim: proc_step.cases)
  then show ?thesis using assms(4) by (simp add: goto_def intr_on_def upd_cpu_def)
next
  case Skip
  then obtain i s2 where w: "i < NPROC" "scheduler_try h i s = Some (False, s2)" "s' = goto h (Scanning (Suc i)) s2"
    using assms(2) by (auto elim: proc_step.cases)
  have "s2 = settle h s"
    using scheduler_try_run [OF sys_inv_simps(1) [OF assms(1)] w(1), of h] w(2)
    by (cases "p_state (procs s ! i) = RUNNABLE") auto
  then show ?thesis using w(3) assms(4) by (simp add: goto_def)
qed

text \<open>Some hart switched to the process in a run.\<close>

definition switched_to :: "nat \<Rightarrow> (nat \<times> event \<times> 'a ksys_scheme) list \<Rightarrow> bool" where
  "switched_to p r \<longleftrightarrow> (\<exists>h t. (h, Pick, t) \<in> set r \<and> ctl t h = Executing p \<and> p_state (procs t ! p) = RUNNING)"

lemma dist_run:
  assumes "proc_run s r" "sys_inv s" "p < NPROC" "p_state (procs s ! p) = RUNNABLE" "\<not> switched_to p r"
  shows "looks h r \<le> dist_to p (ctl s h)"
  using assms
proof (induction rule: proc_run.induct)
  case (run_step h' ev s s' r)
  have no: "\<not> (ev = Pick \<and> ctl s' h' = Executing p \<and> p_state (procs s' ! p) = RUNNING)" "\<not> switched_to p r"
    using run_step.prems(4) by (auto simp: switched_to_def)
  have st: "p_state (procs s' ! p) = RUNNABLE"
    using runnable_until_pick [OF run_step.prems(1) run_step.hyps(1) run_step.prems(2,3)] no(1) by blast
  have "looks h r \<le> dist_to p (ctl s' h)"
    using run_step.IH inv_step [OF run_step.prems(1) run_step.hyps(1)] run_step.prems(2) st no(2) by simp
  then show ?case using dist_step [OF run_step.prems(1) run_step.hyps(1) run_step.prems(2,3) st, of h]
    by (cases "h' = h \<and> ev \<in> {Skip, Pick}") (auto simp: looks_def)
qed (simp add: looks_def)

lemma proc_run_append: "proc_run s (r1 @ (h, ev, s') # r2) \<Longrightarrow> proc_run s' r2"
  by (induction r1 arbitrary: s) (auto elim: proc_run.cases)

text \<open>
  C17. Round robin. Once a hart's scheduler has looked at 64 (\<open>NPROC\<close>) entries of the table since a
  process was RUNNABLE, that process has been switched to, by this hart or another one, whatever the
  other harts did in between: no RUNNABLE process is passed over in a whole round of a scheduler.
\<close>

theorem scheduler_round_robin:
  fixes s' :: "'a ksys_scheme"
  assumes "boot_sys s" and "proc_run s (r1 @ (h', ev, s') # r2)" and "p < NPROC"
    and "p_state (procs s' ! p) = RUNNABLE" and "64 \<le> looks h r2"
  shows "switched_to p r2"
proof (rule ccontr)
  assume no: "\<not> switched_to p r2"
  have inv: "sys_inv s'" using inv_run [OF assms(2) inv_boot [OF assms(1)], of "(h', ev, s')"] by simp
  have "looks h r2 \<le> dist_to p (ctl s' h)"
    by (rule dist_run [OF proc_run_append [OF assms(2)] inv assms(3,4) no])
  also have "\<dots> \<le> 63"
    using assms(3) sys_inv_simps(2) [OF inv, of h]
    by (cases "ctl s' h") (auto simp: ctl_ok_def NPROC_def)
  finally show False using assms(5) by simp
qed

text \<open>A hart can go on looking.\<close>

lemma looks_cons: "looks h ((h, ev, s) # r) = (if ev \<in> {Skip, Pick} then 1 else 0) + looks h r"
  by (simp add: looks_def)

lemma next_look:
  fixes s :: "'a ksys_scheme"
  assumes "sys_inv s"
  shows "\<exists>r s' ev. proc_run s (r @ [(h, ev, s')]) \<and> ev \<in> {Skip, Pick}"
proof -
  have look: "\<exists>s' ev. proc_step h ev s s' \<and> ev \<in> {Skip, Pick}" if inv: "sys_inv s" and c: "ctl s h = Scanning i" "i < NPROC" for s :: "'a ksys_scheme" and i
  proof -
    obtain ev s' where st: "proc_step h ev s s'" "ev \<noteq> Signal" using own_step [OF inv, of h] by blast
    have "ev \<noteq> Wrap" "ev \<noteq> Leave" using st(1) c by (auto elim: proc_step.cases)
    then have "ev \<in> {Skip, Pick}" using st(2) by (cases ev) simp_all
    then show ?thesis using st(1) by blast
  qed
  have turn: "\<exists>r s' ev. proc_run s (r @ [(h, ev, s')]) \<and> ev \<in> {Skip, Pick}" if inv: "sys_inv s" and c: "ctl s h = Scanning i" for s :: "'a ksys_scheme" and i
  proof (cases "i < NPROC")
    case True
    then obtain s' ev where "proc_step h ev s s'" "ev \<in> {Skip, Pick}" using look [OF inv c] by blast
    then show ?thesis by (intro exI [of _ "[]"] exI [of _ s'] exI [of _ ev]) (simp add: run_step run_nil)
  next
    case False
    then have "i = NPROC" using sys_inv_simps(2) [OF inv, of h] c by (simp add: ctl_ok_def)
    then have w: "proc_step h Wrap s (goto h (Scanning 0) (intr_on h s))" using wrap [of s h] c by simp
    moreover have "0 < NPROC" by (simp add: NPROC_def)
    ultimately obtain s' ev where "proc_step h ev (goto h (Scanning 0) (intr_on h s)) s'" "ev \<in> {Skip, Pick}"
      using look [OF inv_step [OF inv w], of 0] by (auto simp: goto_def)
    with w have "proc_run s ([(h, Wrap, goto h (Scanning 0) (intr_on h s))] @ [(h, ev, s')])"
      by (simp add: run_step run_nil)
    with \<open>ev \<in> {Skip, Pick}\<close> show ?thesis by blast
  qed
  show ?thesis
  proof (cases "ctl s h")
    case (Scanning i)
    then show ?thesis by (rule turn [OF assms])
  next
    case (Executing p)
    obtain ev s1 where s1: "ev \<noteq> Signal" "proc_step h ev s s1"
      "ev \<in> {Skip, Pick} \<or> (ev = Leave \<and> (\<exists>i. ctl s1 h = Scanning (Suc i) \<and> i < NPROC)) \<or> (ev = Wrap \<and> ctl s1 h = Scanning 0)"
      using own_step [OF assms] by blast
    show ?thesis
    proof (cases "ev \<in> {Skip, Pick}")
      case True
      then show ?thesis using s1(2) by (intro exI [of _ "[]"] exI [of _ s1] exI [of _ ev]) (simp add: run_step run_nil)
    next
      case False
      then obtain i where "ctl s1 h = Scanning i" using s1(3) by auto
      from turn [OF inv_step [OF assms s1(2)] this] obtain r s' ev' where
        "proc_run s1 (r @ [(h, ev', s')])" "ev' \<in> {Skip, Pick}" by blast
      then show ?thesis using run_step [OF s1(2)] by (intro exI [of _ "(h, ev, s1) # r"] exI [of _ s'] exI [of _ ev']) simp
    qed
  qed
qed

inductive_cases run_consE: "proc_run s ((h, ev, s') # r)"

lemma proc_run_app: "proc_run s (r1 @ [(h, ev, s')]) \<Longrightarrow> proc_run s' r2 \<Longrightarrow> proc_run s ((r1 @ [(h, ev, s')]) @ r2)"
proof (induction r1 arbitrary: s)
  case Nil
  then show ?case by (auto elim!: run_consE intro: run_step)
next
  case (Cons x r1)
  obtain h1 ev1 s1 where x: "x = (h1, ev1, s1)" by (cases x)
  have "proc_step h1 ev1 s s1" "proc_run s1 (r1 @ [(h, ev, s')])"
    using Cons.prems(1) unfolding x append_Cons by (auto elim: run_consE)
  then show ?case using run_step Cons.IH Cons.prems(2) unfolding x append_Cons by blast
qed

lemma many_looks:
  fixes s :: "'a ksys_scheme"
  assumes "sys_inv s"
  shows "\<exists>r. proc_run s r \<and> n \<le> looks h r"
  using assms
proof (induction n arbitrary: s)
  case 0
  then show ?case using run_nil by blast
next
  case (Suc n)
  obtain r s' ev where r: "proc_run s (r @ [(h, ev, s')])" "ev \<in> {Skip, Pick}" using next_look [OF Suc.prems] by blast
  have "sys_inv s'" using inv_run [OF r(1) Suc.prems, of "(h, ev, s')"] by simp
  then obtain r2 where "proc_run s' r2" "n \<le> looks h r2" using Suc.IH by blast
  with proc_run_app [OF r(1)] r(2) show ?case
    by (intro exI [of _ "(r @ [(h, ev, s')]) @ r2"]) (simp add: looks_def)
qed

section \<open>A deadlock of two locks\<close>

lemma acquire_others:
  "acquire h l s = Some s' \<Longrightarrow> (l' \<noteq> l \<longrightarrow> locks s' l' = locks s l') \<and> cproc (cpus s' h') = cproc (cpus s h')"
  by (auto simp: acquire_def push_off_eq kern_defs Let_def off_cpu_def split: if_splits)

lemma release_others:
  "release h l s = Some s' \<Longrightarrow> (l' \<noteq> l \<longrightarrow> locks s' l' = locks s l') \<and> cproc (cpus s' h') = cproc (cpus s h')"
  by (auto simp: release_def pop_off_def kern_defs Let_def split: if_splits)

lemma myproc_others:
  assumes "myproc h s = Some (q, s')"
  shows "locks s' = locks s" "cproc (cpus s' h') = cproc (cpus s h')" "q = cproc (cpus s h)"
  using assms by (auto simp: myproc_def pop_off_def push_off_eq kern_defs Let_def off_cpu_def split: if_splits)

text \<open>A wakeup does not get past the lock of a process that another hart holds.\<close>

lemma wakeup_blocked:
  "p \<in> set xs \<Longrightarrow> lk_locked (locks s (Proc_lock p)) \<noteq> 0 \<Longrightarrow> cproc (cpus s h) \<noteq> Some p \<Longrightarrow>
   wakeup_loop h c xs s = None"
proof (induction xs arbitrary: s)
  case (Cons i xs)
  show ?case
  proof (cases "myproc h s")
    case (Some y)
    obtain me s1 where y: "y = (me, s1)" by (cases y)
    note my = myproc_others [OF Some [unfolded y]]
    show ?thesis
    proof (cases "i = p")
      case True
      have "acquire h (Proc_lock p) s1 = None" by (rule acquire_blocked) (use my(1) Cons.prems(2) in simp)
      then show ?thesis using Some y my(3) Cons.prems(3) True by simp
    next
      case False
      let ?b = "if Some i \<noteq> me then do {
              s \<leftarrow> acquire h (Proc_lock i) s1;
              p \<leftarrow> get_proc i s;
              let s = (if p_state p = SLEEPING \<and> p_chan p = c
                       then upd_proc i (\<lambda>q. q\<lparr>p_state := RUNNABLE\<rparr>) s else s);
              release h (Proc_lock i) s }
            else Some s1"
      have "wakeup_loop h c xs s2 = None" if b: "?b = Some s2" for s2
      proof -
        have "locks s2 (Proc_lock p) = locks s1 (Proc_lock p) \<and> cproc (cpus s2 h) = cproc (cpus s1 h)"
          using b False
          by (auto simp: bind_eq_Some_conv upd_proc_def Let_def dest!: acquire_others [where l' = "Proc_lock p" and h' = h]
              release_others [where l' = "Proc_lock p" and h' = h] split: if_splits)
        then show ?thesis using Cons.IH [of s2] Cons.prems False my(1,2) by simp
      qed
      then have "do { s \<leftarrow> ?b; wakeup_loop h c xs s } = None" by (cases ?b) (simp_all only: Option.bind.simps)
      then show ?thesis using Some y by simp
    qed
  qed simp
qed simp

text \<open>
  C28. The lock of the process and the lock of the clock are taken in both orders. Hart \<open>h\<close> runs \<open>p\<close>,
  and its \<open>yield\<close> takes the lock of \<open>p\<close>; hart \<open>h'\<close> gets a timer interrupt, and its \<open>clockintr\<close> takes
  \<open>tickslock\<close>. Then \<open>sched\<close> passes all its checks and waits for \<open>tickslock\<close>, which \<open>h'\<close> holds, while the
  \<open>wakeup\<close> of \<open>clockintr\<close> waits for the lock of \<open>p\<close>, which \<open>h\<close> holds: as long as both locks are
  held, whatever the others do, neither function can return.
\<close>

theorem sched_clockintr_deadlock:
  fixes s :: "'a kproc_scheme"
  assumes "at_rest s" and "cproc (cpus s h) = Some p" and "p < NPROC" and "h' \<noteq> h" and "cproc (cpus s h') \<noteq> Some p"
  shows "\<exists>s1 s2. yield_lock h s = Some (p, s1) \<and> clock_lock h' s1 = Some s2 \<and>
     holding h (Proc_lock p) s2 \<and> holding h' Ticks_lock s2 \<and>
     noff (cpus s2 h) = 1 \<and> p_state (procs s2 ! p) \<noteq> RUNNING \<and> \<not> intr_get h s2 \<and>
     (\<forall>t :: 'a kproc_scheme. holding h (Proc_lock p) t \<and> holding h' Ticks_lock t \<and> cproc (cpus t h') = cproc (cpus s h') \<longrightarrow>
        sched h In_yield t = None \<and> wakeup h' (Some At_ticks) t = None)"
proof -
  have r: "free_lock l s" "noff (cpus s g) = 0" "length (procs s) = NPROC" for l g
    using assms(1) by (simp_all add: at_rest_def)
  let ?s0 = "settle h s"
  let ?s1 = "upd_proc p (\<lambda>q. q\<lparr>p_state := RUNNABLE\<rparr>) (held h (Proc_lock p) ?s0)"
  let ?s2 = "(held h' Ticks_lock ?s1)\<lparr>ticks := ticks s + 1\<rparr>"
  have "free_lock (Proc_lock p) ?s0" using r(1) by (simp add: free_lock_def)
  from acquire_free [OF this, of h] have y: "yield_lock h s = Some (p, ?s1)"
    using myproc_ok [of h s] assms(2) r(2) by (simp add: yield_lock_def hart_ok_def)
  have "free_lock Ticks_lock ?s1" using r(1) by (simp add: free_lock_def held_def upd_proc_def)
  from acquire_free [OF this, of h'] have c: "clock_lock h' ?s1 = Some ?s2"
    by (simp add: clock_lock_def upd_proc_def)
  have st: "holding h (Proc_lock p) ?s2" "holding h' Ticks_lock ?s2" "noff (cpus ?s2 h) = 1"
    "p_state (procs ?s2 ! p) \<noteq> RUNNING" "\<not> intr_get h ?s2"
    using r(2) [of h] r(3) assms(3,4) by (simp_all add: holding_def held_def upd_proc_def intr_get_def off_cpu_def)
  have stuck: "sched h In_yield t = None \<and> wakeup h' (Some At_ticks) t = None"
    if t: "holding h (Proc_lock p) t" "holding h' Ticks_lock t" "cproc (cpus t h') = cproc (cpus s h')"
    for t :: "'a kproc_scheme"
  proof
    have "acquire h Ticks_lock u = None" if "myproc h t = Some (q, u)" for q u
      by (rule acquire_blocked) (use myproc_others(1) [OF that] t(2) in \<open>simp add: holding_def\<close>)
    then show "sched h In_yield t = None"
      by (cases "myproc h t") (auto simp: sched_def bind_eq_None_conv split: prod.splits)
    show "wakeup h' (Some At_ticks) t = None"
      unfolding wakeup_def by (rule wakeup_blocked [of p]) (use assms(3,5) t(1,3) in \<open>simp_all add: holding_def\<close>)
  qed
  show ?thesis
    by (rule exI [of _ ?s1], rule exI [of _ ?s2], intro conjI allI impI; (elim conjE)?)
      (rule y c st conjunct1 [OF stuck] conjunct2 [OF stuck]; assumption?)+
qed

text \<open>A machine with two new processes.\<close>

definition new_proc :: "procstate \<Rightarrow> proc_s" where
  "new_proc st = \<lparr>p_state = st, p_chan = None, p_killed = 0, p_xstate = 0, p_pid = 1, p_parent = None, p_kstack = 0,
     p_sz = 0, p_context = In_forkret, p_name = [], ch_counter = 0, p_prio = 0, last_executed = 0\<rparr>"

definition two_procs :: ksys where
  "two_procs = \<lparr>locks = locks idle_kern, cpus = cpus idle_kern, pages = pages two_pages, freelist = freelist two_pages,
     kernel_end = kernel_end two_pages,
     procs = replicate 2 (new_proc RUNNABLE) @ replicate 62 (new_proc UNUSED),
     initproc = None, nextpid = 2, ticks = 0, ctl = (\<lambda>_. Scanning 0)\<rparr>"

lemma two_procs_boot: "boot_sys two_procs"
proof -
  have "p_state (procs two_procs ! p) \<noteq> RUNNING \<and> resumable (p_context (procs two_procs ! p))" if "p < NPROC" for p
    using that by (simp add: two_procs_def new_proc_def nth_append resumable_def NPROC_def nth_Cons split: nat.split)
  moreover have "at_rest two_procs"
    by (simp add: at_rest_def two_procs_def idle_kern_def free_lock_def NPROC_def)
  ultimately show ?thesis by (simp add: boot_sys_def two_procs_def idle_kern_def)
qed

lemma two_procs_pick:
  "\<exists>s1. proc_step 0 Pick two_procs s1 \<and> cproc (cpus s1 0) = Some 0 \<and> ctl s1 0 = Executing 0 \<and> p_state (procs s1 ! 1) = RUNNABLE"
proof -
  have "ctl two_procs 0 = Scanning 0" "p_state (procs two_procs ! 0) = RUNNABLE" "p_state (procs two_procs ! 1) = RUNNABLE" "0 < NPROC"
    by (simp_all add: two_procs_def new_proc_def NPROC_def nth_append)
  with pick_run [OF inv_boot [OF two_procs_boot], of 0 0] show ?thesis by (fastforce simp: goto_def)
qed

theorem scheduler_exclusive_witness:
  "\<exists>s'. p_state (procs s' ! 0) = RUNNING \<and> (\<exists>!h. cproc (cpus (s' :: ksys) h) = Some 0)"
proof -
  obtain s1 where s1: "proc_step 0 Pick two_procs s1" "cproc (cpus s1 0) = Some 0" "ctl s1 0 = Executing 0"
    using two_procs_pick by blast
  have "proc_run two_procs [(0, Pick, s1)]" using s1(1) by (intro run_step run_nil)
  from scheduler_exclusive [OF two_procs_boot this, of 0 Pick s1 0] s1(2)
  have "p_state (procs s1 ! 0) = RUNNING \<longleftrightarrow> (\<exists>!h. cproc (cpus s1 h) = Some 0)" by (simp add: NPROC_def)
  moreover have "p_state (procs s1 ! 0) = RUNNING"
    using sys_inv_simps(3) [OF inv_step [OF inv_boot [OF two_procs_boot] s1(1)], of 0] s1(3) by (auto simp: proc_ok_def NPROC_def)
  ultimately show ?thesis by blast
qed

theorem scheduler_round_robin_witness:
  "\<exists>s1 r2. proc_run two_procs ((0, Pick, s1) # r2) \<and> p_state (procs s1 ! 1) = RUNNABLE \<and> switched_to 1 r2"
proof -
  obtain s1 where s1: "proc_step 0 Pick two_procs s1" "p_state (procs s1 ! 1) = RUNNABLE" using two_procs_pick by blast
  obtain r2 where r2: "proc_run s1 r2" "64 \<le> looks 0 r2"
    using many_looks [OF inv_step [OF inv_boot [OF two_procs_boot] s1(1)], of 64 0] by blast
  have r: "proc_run two_procs ([] @ (0, Pick, s1) # r2)" using run_step [OF s1(1) r2(1)] by simp
  from scheduler_round_robin [OF two_procs_boot r _ s1(2) r2(2)] r s1(2) show ?thesis by (auto simp: NPROC_def)
qed

theorem sched_clockintr_deadlock_witness:
  "\<exists>s s1 s2 :: ksys. cproc (cpus s 0) = Some 0 \<and> yield_lock 0 s = Some (0, s1) \<and> clock_lock 1 s1 = Some s2 \<and>
     sched 0 In_yield s2 = None \<and> wakeup 1 (Some At_ticks) s2 = None"
proof -
  obtain s where s: "proc_step 0 Pick two_procs s" "cproc (cpus s 0) = Some 0" using two_procs_pick by blast
  note inv = inv_step [OF inv_boot [OF two_procs_boot] s(1)]
  obtain i s2 where "s = goto 0 (Executing i) s2" "kframe 0 two_procs s2"
    using pick_effect [OF inv_boot [OF two_procs_boot] s(1)] by blast
  then have "ctl s 1 = Scanning 0" using kframe_ctl [of 0 two_procs s2] by (simp add: goto_def) (simp add: two_procs_def)
  then have "cproc (cpus s 1) = None" using sys_inv_simps(2) [OF inv, of 1] by (simp add: ctl_ok_def)
  with sched_clockintr_deadlock [OF sys_inv_simps(1) [OF inv] s(2), of 1] obtain s1 s2 where
    "yield_lock 0 s = Some (0, s1)" "clock_lock 1 s1 = Some s2" "holding 0 (Proc_lock 0) s2" "holding 1 Ticks_lock s2"
    "\<forall>t :: ksys. holding 0 (Proc_lock 0) t \<and> holding 1 Ticks_lock t \<and> cproc (cpus t 1) = cproc (cpus s 1) \<longrightarrow>
        sched 0 In_yield t = None \<and> wakeup 1 (Some At_ticks) t = None" by (auto simp: NPROC_def)
  moreover have "cproc (cpus s1 1) = cproc (cpus s 1)"
    using \<open>yield_lock 0 s = Some (0, s1)\<close>
    by (auto simp: yield_lock_def bind_eq_Some_conv upd_proc_def dest!: acquire_others [where h' = 1] myproc_others(2) [where h' = 1])
  moreover have "cproc (cpus s2 1) = cproc (cpus s1 1)"
    using \<open>clock_lock 1 s1 = Some s2\<close>
    by (auto simp: clock_lock_def bind_eq_Some_conv dest!: acquire_others [where h' = 1])
  ultimately have "sched 0 In_yield s2 = None \<and> wakeup 1 (Some At_ticks) s2 = None" by simp
  then show ?thesis using s(2) \<open>yield_lock 0 s = Some (0, s1)\<close> \<open>clock_lock 1 s1 = Some s2\<close>
    by (intro exI [of _ s] exI [of _ s1] exI [of _ s2]) simp
qed

end
