(* ===== verification/Semaphore.thy ===== *)
theory Semaphore
  imports Proc
begin

text \<open>
  The semaphores that \<open>lab2\<close> adds to the kernel: \<open>sem_open\<close>, \<open>sem_close\<close>, \<open>sem_up\<close> and \<open>sem_down\<close> of
  \<open>kernel/proc.c\<close>, with the conversion of numbers of \<open>kernel/fun_aux.c\<close>. They run on the processes of
  \<^theory_text>\<open>Proc\<close>; \<open>sleep\<close>, \<open>wakeup\<close> and the locks are the same code in \<open>lab2\<close>.
\<close>

section \<open>Numbers as text\<close>

text \<open>The do-while loop of \<open>intToString\<close>: the digits from the last one on. The number is not negative here.\<close>

function digits_loop :: "u8 list \<Rightarrow> nat \<Rightarrow> int \<Rightarrow> (nat \<times> u8 list) option" where
  "digits_loop str i num = do {
     str \<leftarrow> aset str i (word_of_int (num mod 10 + 48));
     let num = num div 10;
     if num > 0 then digits_loop str (i + 1) num else Some (i + 1, str) }"
  by pat_completeness auto
termination by (relation "measure (\<lambda>(_, _, n). nat n)") auto

declare digits_loop.simps [simp del]

fun swap_loop :: "u8 list \<Rightarrow> nat \<Rightarrow> nat list \<Rightarrow> u8 list option" where
  "swap_loop str i [] = Some str"
| "swap_loop str i (j # js) = do {
     temp \<leftarrow> aget str j;
     b \<leftarrow> aget str (i - j - 1);
     str \<leftarrow> aset str j b;
     str \<leftarrow> aset str (i - j - 1) temp;
     swap_loop str i js }"

text \<open>The negation of the least \<open>int\<close> overflows.\<close>

definition INT_MIN :: int where "INT_MIN = - (2 ^ 31)"

definition intToString :: "int \<Rightarrow> u8 list \<Rightarrow> u8 list option" where
  "intToString num str = do {
     assert_c (num \<noteq> INT_MIN);
     (i, str) \<leftarrow> digits_loop str 0 \<bar>num\<bar>;
     (i, str) \<leftarrow> (if num < 0 then do { str \<leftarrow> aset str i 45; Some (i + 1, str) } else Some (i, str));
     str \<leftarrow> aset str i 0;
     swap_loop str i [0..<i div 2] }"

function length_loop :: "nat \<Rightarrow> int \<Rightarrow> nat" where
  "length_loop len num = (let len = len + 1; num = num div 10 in if num > 0 then length_loop len num else len)"
  by pat_completeness auto
termination by (relation "measure (\<lambda>(_, n). nat n)") auto

declare length_loop.simps [simp del]

definition intLength :: "int \<Rightarrow> nat option" where
  "intLength num = do {
     assert_c (num \<noteq> INT_MIN);
     Some (length_loop (if num < 0 then 1 else 0) \<bar>num\<bar>) }"

text \<open>Reference: the decimal notation.\<close>

fun decimal :: "nat \<Rightarrow> u8 list" where
  "decimal n = (if n < 10 then [of_nat (n + 48)] else decimal (n div 10) @ [of_nat (n mod 10 + 48)])"

declare decimal.simps [simp del]

definition decimal_int :: "int \<Rightarrow> u8 list" where
  "decimal_int n = (if n < 0 then 45 # decimal (nat (- n)) else decimal (nat n))"

lemma decimal_nonempty [simp]: "decimal n \<noteq> []"
  by (subst decimal.simps) simp

lemma digits_loop_run:
  "i + length (decimal n) \<le> length str \<Longrightarrow>
   digits_loop str i (int n) = Some (i + length (decimal n), put str i (rev (decimal n)))"
proof (induction n arbitrary: str i rule: decimal.induct)
  case (1 n)
  have d: "word_of_int (int n mod 10 + 48) = (of_nat (n mod 10 + 48) :: u8)"
  proof -
    have "int n mod 10 + 48 = int (n mod 10 + 48)" by (simp add: zmod_int)
    then show ?thesis by (simp only: of_int_of_nat_eq)
  qed
  show ?case
  proof (cases "n < 10")
    case True
    then show ?thesis
      using 1(2) d decimal.simps [of n] put_Cons [of i str _ "[]"]
      by (subst digits_loop.simps) (simp add: aset_def)
  next
    case False
    then have dec: "decimal n = decimal (n div 10) @ [of_nat (n mod 10 + 48)]" by (subst decimal.simps) simp
    have pos: "int n div 10 > 0" "int n div 10 = int (n div 10)" using False by (simp_all add: zdiv_int)
    show ?thesis
      using 1(1) [OF False, of "Suc i" "str[i := of_nat (n mod 10 + 48)]"] 1(2) d pos
      by (subst digits_loop.simps) (simp add: aset_def dec put_Cons)
  qed
qed

lemma swap_loop_append:
  "swap_loop str i (xs @ ys) = do { str \<leftarrow> swap_loop str i xs; swap_loop str i ys }"
proof (induction xs arbitrary: str)
  case (Cons j xs)
  then show ?case by (simp add: bind_eq_None_conv cong: Option.bind_cong)
qed simp

lemma swap_loop_run:
  "k \<le> i div 2 \<Longrightarrow> i \<le> length str \<Longrightarrow>
   \<exists>t. swap_loop str i [0..<k] = Some t \<and> length t = length str \<and>
     (\<forall>x<length str. t ! x = (if x < k \<or> (i - k \<le> x \<and> x < i) then str ! (i - 1 - x) else str ! x))"
proof (induction k)
  case (Suc k)
  then obtain t where t: "swap_loop str i [0..<k] = Some t" "length t = length str"
    "\<forall>x<length str. t ! x = (if x < k \<or> (i - k \<le> x \<and> x < i) then str ! (i - 1 - x) else str ! x)" by auto
  have k: "k < i - k - 1" "i - k - 1 < length str" "\<not> i - k \<le> k" using Suc.prems by auto
  let ?t = "t[k := t ! (i - k - 1), i - k - 1 := t ! k]"
  have "swap_loop str i [0..<Suc k] = Some ?t"
    using t(1,2) k by (simp add: swap_loop_append aget_def aset_def)
  moreover have "?t ! x = (if x < Suc k \<or> (i - Suc k \<le> x \<and> x < i) then str ! (i - 1 - x) else str ! x)"
    if x: "x < length str" for x
  proof -
    consider "x = k" | "x = i - k - 1" | "x \<noteq> k" "x \<noteq> i - k - 1" by blast
    then show ?thesis
    proof cases
      case 1
      then show ?thesis using t(2,3) k by (simp add: nth_list_update)
    next
      case 2
      then show ?thesis using t(2,3) k by (simp add: nth_list_update)
    next
      case 3
      then have "x < Suc k \<or> (i - Suc k \<le> x \<and> x < i) \<longleftrightarrow> x < k \<or> (i - k \<le> x \<and> x < i)" using k by auto
      then show ?thesis using 3 t(2,3) x by simp
    qed
  qed
  ultimately show ?case using t(2) by auto
qed (use Suc_leI in \<open>auto\<close>)

lemma swap_loop_rev:
  assumes "i \<le> length str"
  shows "swap_loop str i [0..<i div 2] = Some (rev (take i str) @ drop i str)"
proof -
  obtain t where t: "swap_loop str i [0..<i div 2] = Some t" "length t = length str"
    "\<forall>x<length str. t ! x = (if x < i div 2 \<or> (i - i div 2 \<le> x \<and> x < i) then str ! (i - 1 - x) else str ! x)"
    using swap_loop_run [OF order_refl assms] by blast
  have "t = rev (take i str) @ drop i str"
  proof (rule nth_equalityI)
    fix x assume x: "x < length t"
    then have "t ! x = (if x < i then str ! (i - 1 - x) else str ! x)"
    proof (cases "x < i div 2 \<or> (i - i div 2 \<le> x \<and> x < i)")
      case False
      then have "x < i \<Longrightarrow> x = i - 1 - x" by linarith
      then show ?thesis using False t(2,3) x by auto
    qed (use t(2,3) x in auto)
    then show "t ! x = (rev (take i str) @ drop i str) ! x"
      using assms t(2) x by (simp add: nth_append rev_nth min_def)
  qed (use assms t(2) in simp)
  then show ?thesis using t(1) by simp
qed

lemma length_loop_run: "length_loop len (int n) = len + length (decimal n)"
proof (induction n arbitrary: len rule: decimal.induct)
  case (1 n)
  have pos: "int n div 10 = int (n div 10)" by (simp add: zdiv_int)
  show ?case
    using 1 [of "Suc len"] pos by (subst length_loop.simps, subst decimal.simps) (auto simp: Let_def)
qed

lemma intToString_run:
  assumes "num \<noteq> INT_MIN" and "length (decimal_int num) < length str"
  shows "intToString num str = Some (decimal_int num @ [0] @ drop (length (decimal_int num) + 1) str) \<and>
     intLength num = Some (length (decimal_int num))"
proof -
  let ?n = "nat \<bar>num\<bar>"
  let ?d = "decimal ?n"
  have n: "\<bar>num\<bar> = int ?n" by simp
  have dec: "decimal_int num = (if num < 0 then 45 # ?d else ?d)" by (simp add: decimal_int_def)
  have run: "digits_loop str 0 \<bar>num\<bar> = Some (length ?d, rev ?d @ drop (length ?d) str)"
    using digits_loop_run [of 0 ?n str] assms(2) dec by (simp add: put_def split: if_splits)
  let ?e = "decimal_int num"
  have sign: "(if num < 0 then do { str \<leftarrow> aset (rev ?d @ drop (length ?d) str) (length ?d) 45; Some (length ?d + 1, str) }
      else Some (length ?d, rev ?d @ drop (length ?d) str)) = Some (length ?e, rev ?e @ drop (length ?e) str)"
    using assms(2) dec by (auto simp: aset_def list_update_append upd_conv_take_nth_drop)
  have zero: "aset (rev ?e @ drop (length ?e) str) (length ?e) 0 = Some (rev ?e @ [0] @ drop (length ?e + 1) str)"
    using assms(2) by (simp add: aset_def list_update_append upd_conv_take_nth_drop)
  have "swap_loop (rev ?e @ [0] @ drop (length ?e + 1) str) (length ?e) [0..<length ?e div 2] =
      Some (?e @ [0] @ drop (length ?e + 1) str)"
    using swap_loop_rev [of "length ?e" "rev ?e @ [0] @ drop (length ?e + 1) str"] assms(2) by simp
  then have "intToString num str = Some (?e @ [0] @ drop (length ?e + 1) str)"
    using assms(1) by (simp only: intToString_def assert_c_bind simp_thms if_True run sign zero Option.bind.bind_lunit prod.case)
  moreover have "intLength num = Some (length ?e)"
    using assms(1) length_loop_run [of _ ?n] dec by (simp add: intLength_def)
  ultimately show ?thesis by simp
qed

text \<open>
  Numbers as text. For every number but the least one, \<open>intToString\<close> writes its decimal notation and a 0 at
  the start of the buffer and nothing else, and \<open>intLength\<close> is the length of that notation.
\<close>

theorem intToString_decimal:
  assumes "num \<noteq> INT_MIN" and "length (decimal_int num) < length str"
  shows "intToString num str = Some (decimal_int num @ [0] @ drop (length (decimal_int num) + 1) str) \<and>
     intLength num = Some (length (decimal_int num))"
  by (rule intToString_run [OF assms])

theorem intToString_decimal_witness:
  "intToString (-17) (replicate 6 9) = Some [45, 49, 55, 0, 9, 9] \<and> intLength (-17) = Some 3"
proof -
  have "decimal_int (-17) = [45, 49, 55]" by (simp add: decimal_int_def decimal.simps)
  then show ?thesis using intToString_decimal [of "-17" "replicate 6 9"] by (simp add: INT_MIN_def numeral_eq_Suc)
qed

section \<open>The semaphores\<close>

definition NSEM :: nat where "NSEM = 10"

record semaphore =
  s_open :: u32
  s_value :: u32
  s_name :: u64

record ksem = ksys +
  sems :: "semaphore list"

text \<open>\<open>s_name\<close> is the pointer \<open>locked.name\<close>, a page of the allocator. An index outside the array is no semaphore.\<close>

definition get_sem :: "int \<Rightarrow> 'a ksem_scheme \<Rightarrow> semaphore option" where
  "get_sem sem s = (if sem < 0 then None else aget (sems s) (nat sem))"

definition upd_sem :: "int \<Rightarrow> (semaphore \<Rightarrow> semaphore) \<Rightarrow> 'a ksem_scheme \<Rightarrow> 'a ksem_scheme" where
  "upd_sem sem f s = s\<lparr>sems := (sems s)[nat sem := f (sems s ! nat sem)]\<rparr>"

definition sem_open :: "nat \<Rightarrow> int \<Rightarrow> u32 \<Rightarrow> 'a ksem_scheme \<Rightarrow> (int \<times> 'a ksem_scheme) option" where
  "sem_open h sem v s = do {
     (name, s) \<leftarrow> kalloc h s;
     if name = 0 then Some (0, s)
     else if sem < 0 \<or> sem > int NSEM then Some (0, s)
     else do {
       sm \<leftarrow> get_sem sem s;
       if s_open sm = 1 then do {
         s \<leftarrow> kfree h name s;
         Some (0, s) }
       else do {
         len \<leftarrow> intLength sem;
         text \<leftarrow> intToString sem (pages s name);
         let s = set_page name text s;
         let s = upd_sem sem (\<lambda>m. m\<lparr>s_open := 1\<rparr>) s;
         let s = upd_sem sem (\<lambda>m. m\<lparr>s_value := v\<rparr>) s;
         let s = initlock (Sem_lock (nat sem)) (takeWhile (\<lambda>c. c \<noteq> 0) text) s;
         Some (1, upd_sem sem (\<lambda>m. m\<lparr>s_name := name\<rparr>) s) } } }"

text \<open>
  The other operations read \<open>s->open\<close> without the lock; \<open>sem_check\<close> is that test, and the rest of each
  operation follows it.
\<close>

definition sem_check :: "int \<Rightarrow> 'a ksem_scheme \<Rightarrow> bool option" where
  "sem_check sem s = map_option (\<lambda>m. s_open m = 1) (get_sem sem s)"

definition close_locked :: "nat \<Rightarrow> int \<Rightarrow> 'a ksem_scheme \<Rightarrow> 'a ksem_scheme option" where
  "close_locked h sem s = do {
     s \<leftarrow> acquire h (Sem_lock (nat sem)) s;
     sm \<leftarrow> get_sem sem s;
     let s = upd_sem sem (\<lambda>m. m\<lparr>s_open := 0\<rparr>) s;
     s \<leftarrow> kfree h (s_name sm) s;
     s \<leftarrow> wakeup h (Some (At_lock (Sem_lock (nat sem)))) s;
     release h (Sem_lock (nat sem)) s }"

definition sem_close :: "nat \<Rightarrow> int \<Rightarrow> 'a ksem_scheme \<Rightarrow> (int \<times> 'a ksem_scheme) option" where
  "sem_close h sem s = do {
     opened \<leftarrow> sem_check sem s;
     if opened then do { s \<leftarrow> close_locked h sem s; Some (1, s) } else Some (0, s) }"

definition up_locked :: "nat \<Rightarrow> int \<Rightarrow> 'a ksem_scheme \<Rightarrow> 'a ksem_scheme option" where
  "up_locked h sem s = do {
     s \<leftarrow> acquire h (Sem_lock (nat sem)) s;
     sm \<leftarrow> get_sem sem s;
     let s = upd_sem sem (\<lambda>m. m\<lparr>s_value := s_value m + 1\<rparr>) s;
     s \<leftarrow> wakeup h (Some (At_sem (nat sem))) s;
     release h (Sem_lock (nat sem)) s }"

definition sem_up :: "nat \<Rightarrow> int \<Rightarrow> 'a ksem_scheme \<Rightarrow> (int \<times> 'a ksem_scheme) option" where
  "sem_up h sem s = do {
     opened \<leftarrow> sem_check sem s;
     if opened then do { s \<leftarrow> up_locked h sem s; Some (1, s) } else Some (0, s) }"

text \<open>
  The loop of \<open>sem_down\<close>, entered with the lock held: the process takes a unit and returns (\<open>Inr\<close>), or it
  is asleep, on its way to the scheduler (\<open>Inl\<close>). When it wakes up, it holds the lock again and the loop goes on.
\<close>

definition down_loop :: "nat \<Rightarrow> int \<Rightarrow> 'a ksem_scheme \<Rightarrow> ((nat + int) \<times> 'a ksem_scheme) option" where
  "down_loop h sem s = do {
     sm \<leftarrow> get_sem sem s;
     if sint (s_value sm) \<le> 0 then do {
       (p, s) \<leftarrow> sleep_begin h (Some (At_sem (nat sem))) (Sem_lock (nat sem)) s;
       Some (Inl p, s) }
     else do {
       let s = upd_sem sem (\<lambda>m. m\<lparr>s_value := s_value m - 1\<rparr>) s;
       s \<leftarrow> release h (Sem_lock (nat sem)) s;
       Some (Inr 1, s) } }"

definition down_locked :: "nat \<Rightarrow> int \<Rightarrow> 'a ksem_scheme \<Rightarrow> ((nat + int) \<times> 'a ksem_scheme) option" where
  "down_locked h sem s = do {
     s \<leftarrow> acquire h (Sem_lock (nat sem)) s;
     down_loop h sem s }"

definition sem_down :: "nat \<Rightarrow> int \<Rightarrow> 'a ksem_scheme \<Rightarrow> ((nat + int) \<times> 'a ksem_scheme) option" where
  "sem_down h sem s = do {
     opened \<leftarrow> sem_check sem s;
     if opened then down_locked h sem s else Some (Inr 0, s) }"

definition down_again :: "nat \<Rightarrow> nat \<Rightarrow> int \<Rightarrow> bool \<Rightarrow> 'a ksem_scheme \<Rightarrow> ((nat + int) \<times> 'a ksem_scheme) option" where
  "down_again h p sem b s = do {
     s \<leftarrow> sleep_end h p (Sem_lock (nat sem)) b s;
     down_loop h sem s }"

section \<open>What each operation does when no lock is held\<close>

definition sem_ready :: "'a ksem_scheme \<Rightarrow> bool" where
  "sem_ready s \<longleftrightarrow> at_rest s \<and> length (sems s) = NSEM"

lemma sems_held [simp]:
  fixes s :: "'a ksem_scheme"
  shows "sems (held h l s) = sems s" "sems (settle h s) = sems s"
  by (simp_all add: held_def settle_def)

lemma get_sem_in: "i < length (sems s) \<Longrightarrow> get_sem (int i) s = Some (sems s ! i)"
  by (simp add: get_sem_def aget_def)

text \<open>A wakeup in the critical section of a semaphore.\<close>

lemma wakeup_in_sem:
  fixes s t :: "'a ksem_scheme"
  assumes "at_rest s" "locks t = locks (held h (Sem_lock i) s)" "cpus t = cpus (held h (Sem_lock i) s)" "procs t = procs s"
  shows "do { t \<leftarrow> wakeup h c t; release h (Sem_lock i) t } =
     Some (t\<lparr>locks := locks s, cpus := cpus (settle h s), procs := woken (cproc (cpus s h)) c (procs s)\<rparr>)"
  by (rule wakeup_in_section [OF assms(1) _ assms(2-4)]) simp

lemma up_run:
  fixes s :: "'a ksem_scheme"
  assumes "sem_ready s" "i < NSEM"
  shows "up_locked h (int i) s = Some ((settle h s)\<lparr>sems := (sems s)[i := (sems s ! i)\<lparr>s_value := s_value (sems s ! i) + 1\<rparr>],
     procs := woken (cproc (cpus s h)) (Some (At_sem i)) (procs s)\<rparr>)"
proof -
  have r: "free_lock (Sem_lock i) s" "at_rest s" "i < length (sems s)" using assms by (simp_all add: sem_ready_def at_rest_def)
  let ?t = "upd_sem (int i) (\<lambda>m. m\<lparr>s_value := s_value m + 1\<rparr>) (held h (Sem_lock i) s)"
  have "up_locked h (int i) s = do { t \<leftarrow> wakeup h (Some (At_sem i)) ?t; release h (Sem_lock i) t }"
    using acquire_free [OF r(1), of h] r(3) by (simp add: up_locked_def get_sem_in)
  also have "\<dots> = Some (?t\<lparr>locks := locks s, cpus := cpus (settle h s), procs := woken (cproc (cpus s h)) (Some (At_sem i)) (procs s)\<rparr>)"
    by (rule wakeup_in_sem [OF r(2)]) (simp_all add: upd_sem_def)
  finally show ?thesis by (simp add: upd_sem_def held_def settle_def)
qed

lemma close_run:
  fixes s s' :: "'a ksem_scheme"
  assumes "sem_ready s" "i < NSEM" "close_locked h (int i) s = Some s'"
  shows "s' = (settle h s)\<lparr>pages := pages s', freelist := freelist s', sems := (sems s)[i := (sems s ! i)\<lparr>s_open := 0\<rparr>],
     procs := woken (cproc (cpus s h)) (Some (At_lock (Sem_lock i))) (procs s)\<rparr>"
proof -
  have r: "free_lock (Sem_lock i) s" "at_rest s" "i < length (sems s)" "hart_ok h s" "noff (cpus s h) = 0"
    using assms(1,2) by (simp_all add: sem_ready_def at_rest_def hart_ok_def)
  let ?t = "upd_sem (int i) (\<lambda>m. m\<lparr>s_open := 0\<rparr>) (held h (Sem_lock i) s)"
  have fr: "free_lock Kmem_lock ?t" "hart_ok h ?t"
    using r by (simp_all add: upd_sem_def free_lock_def hart_ok_def at_rest_def held_def off_cpu_def)
  have st: "settle h ?t = ?t" using r(5) by (simp add: upd_sem_def held_def off_cpu_def)
  obtain u where u: "kfree h (s_name (sems s ! i)) ?t = Some u"
    "do { v \<leftarrow> wakeup h (Some (At_lock (Sem_lock i))) u; release h (Sem_lock i) v } = Some s'"
    using assms(3) acquire_free [OF r(1), of h] r(3) by (auto simp: close_locked_def get_sem_in bind_eq_Some_conv)
  have ut: "u = ?t\<lparr>pages := pages u, freelist := freelist u\<rparr>" using kfree_frame [OF u(1) fr] st by simp
  have "do { v \<leftarrow> wakeup h (Some (At_lock (Sem_lock i))) u; release h (Sem_lock i) v } =
      Some (u\<lparr>locks := locks s, cpus := cpus (settle h s), procs := woken (cproc (cpus s h)) (Some (At_lock (Sem_lock i))) (procs s)\<rparr>)"
    by (rule wakeup_in_sem [OF r(2)]; subst ut) (simp_all add: upd_sem_def)
  then have s': "s' = u\<lparr>locks := locks s, cpus := cpus (settle h s), procs := woken (cproc (cpus s h)) (Some (At_lock (Sem_lock i))) (procs s)\<rparr>"
    using u(2) by simp
  have "u\<lparr>locks := locks s, cpus := cpus (settle h s), procs := ps\<rparr> =
      (settle h s)\<lparr>pages := pages u, freelist := freelist u, sems := (sems s)[i := (sems s ! i)\<lparr>s_open := 0\<rparr>], procs := ps\<rparr>" for ps
    by (subst ut) (simp add: upd_sem_def held_def settle_def)
  then show ?thesis using s' by simp
qed

text \<open>Taking a unit, or going to sleep, with the lock held.\<close>

lemma down_take:
  fixes s :: "'a ksem_scheme"
  assumes "sem_ready s" "i < NSEM" "0 < sint (s_value (sems s ! i))"
  shows "down_loop h (int i) (held h (Sem_lock i) s) =
     Some (Inr 1, (settle h s)\<lparr>sems := (sems s)[i := (sems s ! i)\<lparr>s_value := s_value (sems s ! i) - 1\<rparr>]\<rparr>)"
proof -
  have r: "free_lock (Sem_lock i) s" "hart_ok h s" "i < length (sems s)"
    using assms(1,2) by (simp_all add: sem_ready_def at_rest_def hart_ok_def)
  let ?t = "upd_sem (int i) (\<lambda>m. m\<lparr>s_value := s_value m - 1\<rparr>) (held h (Sem_lock i) s)"
  have "release h (Sem_lock i) ?t = Some (?t\<lparr>locks := locks s, cpus := cpus (settle h s)\<rparr>)"
    by (rule release_held [OF r(1,2)]) (simp_all add: upd_sem_def)
  then show ?thesis using assms(3) r(3) by (simp add: down_loop_def get_sem_in) (simp add: upd_sem_def held_def settle_def)
qed

lemma down_sleep:
  fixes s :: "'a ksem_scheme"
  assumes "sem_ready s" "i < NSEM" "sint (s_value (sems s ! i)) \<le> 0" "cproc (cpus s h) = Some p" "p < NPROC"
  shows "\<exists>b s1 s2. down_loop h (int i) (held h (Sem_lock i) s) = Some (Inl p, s1) \<and> scheduler_back h p s1 = Some s2 \<and>
     kframe h s s2 \<and> cproc (cpus s2 h) = None \<and>
     procs s2 = (procs s)[p := (procs s ! p)\<lparr>p_chan := Some (At_sem i), p_state := SLEEPING, last_executed := ticks s,
       p_context := In_sleep (Sem_lock i) b\<rparr>]"
proof -
  have r: "at_rest s" "i < length (sems s)" using assms(1,2) by (simp_all add: sem_ready_def)
  from sleep_run [OF r(1) assms(4,5), of "Sem_lock i" "Some (At_sem i)"] obtain b s1 s2 where
    "sleep_begin h (Some (At_sem i)) (Sem_lock i) (held h (Sem_lock i) s) = Some (p, s1)" "scheduler_back h p s1 = Some s2"
    "kframe h s s2" "cproc (cpus s2 h) = None"
    "procs s2 = (procs s)[p := (procs s ! p)\<lparr>p_chan := Some (At_sem i), p_state := SLEEPING, last_executed := ticks s,
       p_context := In_sleep (Sem_lock i) b\<rparr>]" by auto
  then show ?thesis using assms(3) r(2) by (simp add: down_loop_def get_sem_in) blast
qed

section \<open>Processes that use semaphores\<close>

text \<open>
  Where a process is: in user code, between the test of \<open>s->open\<close> and the lock, or asleep or
  just woken in the loop of \<open>sem_down\<close>. It can be preempted wherever it holds no lock.
\<close>

datatype sempc = User | Down_at nat | Down_in nat | Up_at nat | Close_at nat

record sem_sys = ksem +
  spc :: "nat \<Rightarrow> sempc"

definition set_pc :: "nat \<Rightarrow> sempc \<Rightarrow> 'a sem_sys_scheme \<Rightarrow> 'a sem_sys_scheme" where
  "set_pc p c s = s\<lparr>spc := (spc s)(p := c)\<rparr>"

datatype sem_event = Quiet | Upped nat | Downed nat

inductive sem_step :: "sem_event \<Rightarrow> 'a sem_sys_scheme \<Rightarrow> 'a sem_sys_scheme \<Rightarrow> bool" where
  call: "ctl s h = Executing p \<Longrightarrow> spc s p = User \<Longrightarrow> i < NSEM \<Longrightarrow> sem_check (int i) s = Some True \<Longrightarrow>
    c \<in> {Down_at i, Up_at i, Close_at i} \<Longrightarrow> sem_step Quiet s (set_pc p c s)"
| up: "ctl s h = Executing p \<Longrightarrow> spc s p = Up_at i \<Longrightarrow> i < NSEM \<Longrightarrow> up_locked h (int i) s = Some s' \<Longrightarrow>
    sem_step (Upped i) s (set_pc p User s')"
| close: "ctl s h = Executing p \<Longrightarrow> spc s p = Close_at i \<Longrightarrow> i < NSEM \<Longrightarrow> close_locked h (int i) s = Some s' \<Longrightarrow>
    sem_step Quiet s (set_pc p User s')"
| down_get: "ctl s h = Executing p \<Longrightarrow> spc s p = Down_at i \<Longrightarrow> i < NSEM \<Longrightarrow>
    down_locked h (int i) s = Some (Inr r, s') \<Longrightarrow> sem_step (Downed i) s (set_pc p User s')"
| down_wait: "ctl s h = Executing p \<Longrightarrow> spc s p = Down_at i \<Longrightarrow> i < NSEM \<Longrightarrow>
    down_locked h (int i) s = Some (Inl q, s1) \<Longrightarrow> scheduler_back h q s1 = Some s2 \<Longrightarrow>
    sem_step Quiet s (set_pc p (Down_in i) (goto h (Scanning (Suc p)) s2))"
| again_get: "ctl s h = Scanning j \<Longrightarrow> j < NPROC \<Longrightarrow> spc s j = Down_in i \<Longrightarrow> i < NSEM \<Longrightarrow>
    scheduler_try h j s = Some (True, s1) \<Longrightarrow> p_context (procs s ! j) = In_sleep (Sem_lock i) b \<Longrightarrow>
    down_again h j (int i) b s1 = Some (Inr r, s2) \<Longrightarrow>
    sem_step (Downed i) s (set_pc j User (goto h (Executing j) s2))"
| again_wait: "ctl s h = Scanning j \<Longrightarrow> j < NPROC \<Longrightarrow> spc s j = Down_in i \<Longrightarrow> i < NSEM \<Longrightarrow>
    scheduler_try h j s = Some (True, s1) \<Longrightarrow> p_context (procs s ! j) = In_sleep (Sem_lock i) b \<Longrightarrow>
    down_again h j (int i) b s1 = Some (Inl q, s2) \<Longrightarrow> scheduler_back h q s2 = Some s3 \<Longrightarrow>
    sem_step Quiet s (goto h (Scanning (Suc j)) s3)"
| preempt: "ctl s h = Executing p \<Longrightarrow> yield_begin h s = Some (q, s1) \<Longrightarrow> scheduler_back h q s1 = Some s2 \<Longrightarrow>
    sem_step Quiet s (goto h (Scanning (Suc p)) s2)"
| other: "proc_step h ev s s' \<Longrightarrow> ev \<noteq> Leave \<Longrightarrow>
    (\<And>j i. ev = Pick \<Longrightarrow> ctl s h = Scanning j \<Longrightarrow> spc s j \<noteq> Down_in i) \<Longrightarrow> sem_step Quiet s s'"

inductive sem_run :: "'a sem_sys_scheme \<Rightarrow> sem_event list \<Rightarrow> 'a sem_sys_scheme \<Rightarrow> bool" where
  sem_run_nil: "sem_run s [] s"
| sem_run_step: "sem_run s evs s1 \<Longrightarrow> sem_step e s1 s2 \<Longrightarrow> sem_run s (evs @ [e]) s2"

definition sleeping_on :: "'a ksem_scheme \<Rightarrow> nat \<Rightarrow> nat \<Rightarrow> bool" where
  "sleeping_on s p i \<longleftrightarrow> p_state (procs s ! p) = SLEEPING \<and> p_chan (procs s ! p) = Some (At_sem i)"

text \<open>Nobody sleeps on a semaphore that has units.\<close>

definition sem_inv :: "'a ksem_scheme \<Rightarrow> bool" where
  "sem_inv s \<longleftrightarrow> sys_inv s \<and> length (sems s) = NSEM \<and>
     (\<forall>i<NSEM. 0 < sint (s_value (sems s ! i)) \<longrightarrow> (\<forall>p<NPROC. \<not> sleeping_on s p i))"

definition delta :: "sem_event \<Rightarrow> nat \<Rightarrow> u32" where
  "delta e i = (if e = Upped i then 1 else if e = Downed i then - 1 else 0)"

lemma kframe_more:
  fixes s s' :: "'a sem_sys_scheme"
  assumes "kframe h s s'"
  shows "sems s' = sems s" "spc s' = spc s" "ctl s' = ctl s"
  using assms by (cases s; cases s'; simp add: kframe_def)+

lemma sem_inv_simps:
  assumes "sem_inv s"
  shows "sys_inv s" "length (sems s) = NSEM" "at_rest s" "sem_ready s"
    "i < NSEM \<Longrightarrow> 0 < sint (s_value (sems s ! i)) \<Longrightarrow> p < NPROC \<Longrightarrow> \<not> sleeping_on s p i"
  using assms sys_inv_simps(1) [of s] by (auto simp: sem_inv_def sem_ready_def)

text \<open>The two ways in which the invariant is kept: no new sleepers and no new units, or units with a wakeup.\<close>

lemma sem_inv_keep:
  assumes "sem_inv s" "sys_inv s'" "sems s' = sems s"
    "\<And>p i. p < NPROC \<Longrightarrow> i < NSEM \<Longrightarrow> sleeping_on s' p i \<Longrightarrow> sleeping_on s p i \<or> sint (s_value (sems s ! i)) \<le> 0"
  shows "sem_inv s'"
  using assms unfolding sem_inv_def by (metis linorder_not_less)

lemma sem_inv_upd:
  assumes "sem_inv s" "sys_inv s'" "sems s' = (sems s)[i := m]" "i < NSEM"
    "\<And>p j. p < NPROC \<Longrightarrow> j < NSEM \<Longrightarrow> sleeping_on s' p j \<Longrightarrow> sleeping_on s p j"
    "0 < sint (s_value m) \<Longrightarrow> 0 < sint (s_value (sems s ! i)) \<or> (\<forall>p<NPROC. \<not> sleeping_on s' p i)"
  shows "sem_inv s'"
proof -
  note inv = sem_inv_simps [OF assms(1)]
  have "\<not> sleeping_on s' p j" if "j < NSEM" "0 < sint (s_value (sems s' ! j))" "p < NPROC" for j p
  proof (cases "j = i")
    case True
    then have "0 < sint (s_value m)" using that(2) assms(3,4) inv(2) by simp
    with assms(6) show ?thesis using inv(5) [OF that(1) _ that(3)] assms(5) [OF that(3,1)] True that(3) by blast
  next
    case False
    then have "0 < sint (s_value (sems s ! j))" using that(2) assms(3) by simp
    then show ?thesis using inv(5) [OF that(1) _ that(3)] assms(5) [OF that(3,1)] by blast
  qed
  then show ?thesis using assms(2,3) inv(2) by (simp add: sem_inv_def)
qed

lemma sleeping_signalled:
  assumes "signalled (procs s ! p) (procs s' ! p)" "sleeping_on s' p i"
  shows "sleeping_on s p i"
  using assms by (auto simp: signalled_def sleeping_on_def kill_proc_def wake_if_def split: if_splits)


text \<open>One lemma per kind of step: the invariant is kept, and the values change as the event says.\<close>

definition sem_ok_step :: "sem_event \<Rightarrow> 'a sem_sys_scheme \<Rightarrow> 'a sem_sys_scheme \<Rightarrow> bool" where
  "sem_ok_step e s s' \<longleftrightarrow> sem_inv s' \<and> (\<forall>j<NSEM. s_value (sems s' ! j) = s_value (sems s ! j) + delta e j) \<and>
     (\<forall>i. e = Downed i \<longrightarrow> 0 < sint (s_value (sems s ! i)))"

lemma set_pc_simps [simp]:
  "procs (set_pc p c s) = procs s" "sems (set_pc p c s) = sems s" "ctl (set_pc p c s) = ctl s"
  "cpus (set_pc p c s) = cpus s" "locks (set_pc p c s) = locks s"
  by (simp_all add: set_pc_def)

lemma goto_simps [simp]:
  fixes s :: "'a sem_sys_scheme"
  shows "procs (goto h c s) = procs s" "sems (goto h c s) = sems s" "spc (goto h c s) = spc s"
    "cpus (goto h c s) = cpus s" "locks (goto h c s) = locks s"
  by (simp_all add: goto_def)

lemma sem_ok_pc:
  "sem_ok_step e s s' \<Longrightarrow> sem_ok_step e s (set_pc p c s')"
proof -
  assume a: "sem_ok_step e s s'"
  have "sys_inv (set_pc p c s') = sys_inv s'"
    by (simp add: sys_inv_def at_rest_def ctl_ok_def proc_ok_def free_lock_def)
  then show ?thesis using a by (simp add: sem_ok_step_def sem_inv_def sleeping_on_def)
qed

lemma ok_up:
  fixes s s' :: "'a sem_sys_scheme"
  assumes "sem_inv s" "i < NSEM" "up_locked h (int i) s = Some s'" "ctl s h = Executing p"
  shows "sem_ok_step (Upped i) s s'"
proof -
  note inv = sem_inv_simps [OF assms(1)]
  have s': "s' = (settle h s)\<lparr>sems := (sems s)[i := (sems s ! i)\<lparr>s_value := s_value (sems s ! i) + 1\<rparr>],
     procs := woken (cproc (cpus s h)) (Some (At_sem i)) (procs s)\<rparr>"
    using up_run [OF inv(4) assms(2), of h] assms(3) by simp
  have len: "length (procs s) = NPROC" using sys_inv_simps(4) [OF inv(1)] .
  have sg: "signalled (procs s ! q) (procs s' ! q)" if "q < NPROC" for q
    using that len by (auto simp: s' nth_woken signalled_def)
  have "sys_inv s'"
    by (rule inv_procs [OF inv(1)]) (use s' len signalled_calm [OF sg] in auto)
  moreover have "\<not> sleeping_on s' q i" if "q < NPROC" for q
  proof (cases "Some q = cproc (cpus s h)")
    case True
    then have "p_state (procs s ! q) = RUNNING"
      using sys_inv_simps(3) [OF inv(1) that] sys_inv_simps(6) [OF inv(1) assms(4)] assms(4)
      by (auto simp: proc_ok_def)
    then show ?thesis using True that len by (simp add: s' sleeping_on_def nth_woken)
  next
    case False
    then show ?thesis using that len by (simp add: s' sleeping_on_def nth_woken wake_if_def)
  qed
  ultimately have "sem_inv s'"
    by (intro sem_inv_upd [OF assms(1), of s' i "(sems s ! i)\<lparr>s_value := s_value (sems s ! i) + 1\<rparr>"])
      (use sleeping_signalled [OF sg] assms(2) in \<open>auto simp: s'\<close>)
  then show ?thesis using inv(2) assms(2) by (auto simp: sem_ok_step_def s' delta_def nth_list_update)
qed

lemma ok_close:
  fixes s s' :: "'a sem_sys_scheme"
  assumes "sem_inv s" "i < NSEM" "close_locked h (int i) s = Some s'"
  shows "sem_ok_step Quiet s s'"
proof -
  note inv = sem_inv_simps [OF assms(1)]
  obtain pg fl where s': "s' = (settle h s)\<lparr>pages := pg, freelist := fl, sems := (sems s)[i := (sems s ! i)\<lparr>s_open := 0\<rparr>],
     procs := woken (cproc (cpus s h)) (Some (At_lock (Sem_lock i))) (procs s)\<rparr>"
    using close_run [OF inv(4) assms(2,3)] by blast
  have len: "length (procs s) = NPROC" using sys_inv_simps(4) [OF inv(1)] .
  have sg: "signalled (procs s ! q) (procs s' ! q)" if "q < NPROC" for q
    using that len by (auto simp: s' nth_woken signalled_def)
  have "sys_inv s'" by (rule inv_procs [OF inv(1)]) (use s' len signalled_calm [OF sg] in auto)
  then have "sem_inv s'"
    by (intro sem_inv_upd [OF assms(1), of s' i "(sems s ! i)\<lparr>s_open := 0\<rparr>"])
      (use sleeping_signalled [OF sg] assms(2) in \<open>auto simp: s'\<close>)
  then show ?thesis using inv(2) assms(2) by (auto simp: sem_ok_step_def s' delta_def nth_list_update)
qed

lemma ok_take:
  fixes s s' :: "'a sem_sys_scheme"
  assumes "sem_inv s" "i < NSEM" "down_loop h (int i) (held h (Sem_lock i) s) = Some (Inr r, s')" "cproc (cpus s h) = Some p" "p < NPROC"
  shows "sem_ok_step (Downed i) s s'" "s' = (settle h s)\<lparr>sems := (sems s)[i := (sems s ! i)\<lparr>s_value := s_value (sems s ! i) - 1\<rparr>]\<rparr>"
proof -
  note inv = sem_inv_simps [OF assms(1)]
  have pos: "0 < sint (s_value (sems s ! i))"
    using down_sleep [OF inv(4) assms(2) _ assms(4,5)] assms(3) by (cases "sint (s_value (sems s ! i)) \<le> 0") auto
  show s': "s' = (settle h s)\<lparr>sems := (sems s)[i := (sems s ! i)\<lparr>s_value := s_value (sems s ! i) - 1\<rparr>]\<rparr>"
    using down_take [OF inv(4) assms(2) pos, of h] assms(3) by simp
  have "sys_inv s'" by (rule inv_procs [OF inv(1)]) (use s' sys_inv_simps(4) [OF inv(1)] in auto)
  then have "sem_inv s'"
    by (intro sem_inv_upd [OF assms(1), of s' i "(sems s ! i)\<lparr>s_value := s_value (sems s ! i) - 1\<rparr>"])
      (use pos assms(2) in \<open>auto simp: s' sleeping_on_def\<close>)
  then show "sem_ok_step (Downed i) s s'"
    using inv(2) assms(2) pos by (auto simp: sem_ok_step_def s' delta_def nth_list_update)
qed

lemma ok_wait:
  fixes s s1 s2 :: "'a sem_sys_scheme"
  assumes "sem_inv s" "i < NSEM" "down_loop h (int i) (held h (Sem_lock i) s) = Some (Inl q, s1)"
    "scheduler_back h q s1 = Some s2" "ctl s h = Executing p"
  shows "sem_ok_step Quiet s (goto h (Scanning (Suc p)) s2)" "kframe h s s2"
proof -
  note inv = sem_inv_simps [OF assms(1)]
  note p = sys_inv_simps(6) [OF inv(1) assms(5)]
  have le: "sint (s_value (sems s ! i)) \<le> 0"
    using down_take [OF inv(4) assms(2), of h] assms(3) by (cases "0 < sint (s_value (sems s ! i))") auto
  obtain b where t: "kframe h s s2" "cproc (cpus s2 h) = None"
     "procs s2 = (procs s)[p := (procs s ! p)\<lparr>p_chan := Some (At_sem i), p_state := SLEEPING, last_executed := ticks s,
       p_context := In_sleep (Sem_lock i) b\<rparr>]"
    using down_sleep [OF inv(4) assms(2) le, of h p] p assms(3,4) by auto
  show "kframe h s s2" by (rule t(1))
  have "sys_inv (goto h (Scanning (Suc p)) s2)"
    by (rule inv_leave [OF inv(1) assms(5) t(1) _ t(3,2)]) (use kframe_more [OF t(1)] in \<open>simp_all add: resumable_def\<close>)
  moreover have "sleeping_on s q j \<or> sint (s_value (sems s ! j)) \<le> 0" if "sleeping_on (goto h (Scanning (Suc p)) s2) q j" for q j
    using that le t(3) p sys_inv_simps(4) [OF inv(1)] by (cases "q = p") (auto simp: sleeping_on_def)
  ultimately have "sem_inv (goto h (Scanning (Suc p)) s2)"
    by (intro sem_inv_keep [OF assms(1)]) (use kframe_more [OF t(1)] in auto)
  then show "sem_ok_step Quiet s (goto h (Scanning (Suc p)) s2)"
    using kframe_more [OF t(1)] by (simp add: sem_ok_step_def delta_def)
qed

lemma ok_yield:
  fixes s s1 s2 :: "'a sem_sys_scheme"
  assumes "sem_inv s" "ctl s h = Executing p" "yield_begin h s = Some (q, s1)" "scheduler_back h q s1 = Some s2"
  shows "sem_ok_step Quiet s (goto h (Scanning (Suc p)) s2)"
proof -
  note inv = sem_inv_simps [OF assms(1)]
  note p = sys_inv_simps(6) [OF inv(1) assms(2)]
  obtain b where t: "kframe h s s2" "cproc (cpus s2 h) = None"
     "procs s2 = (procs s)[p := (procs s ! p)\<lparr>p_state := RUNNABLE, last_executed := ticks s, p_context := In_yield b\<rparr>]"
    using yield_run [OF inv(3), of h p] p assms(3,4) by auto
  have "sys_inv (goto h (Scanning (Suc p)) s2)"
    by (rule inv_leave [OF inv(1) assms(2) t(1) _ t(3,2)]) (use kframe_more [OF t(1)] in \<open>simp_all add: resumable_def\<close>)
  moreover have "sleeping_on s q j" if "sleeping_on (goto h (Scanning (Suc p)) s2) q j" for q j
    using that t(3) p sys_inv_simps(4) [OF inv(1)] by (cases "q = p") (auto simp: sleeping_on_def)
  ultimately have "sem_inv (goto h (Scanning (Suc p)) s2)"
    by (intro sem_inv_keep [OF assms(1)]) (use kframe_more [OF t(1)] in auto)
  then show ?thesis using kframe_more [OF t(1)] by (simp add: sem_ok_step_def delta_def)
qed

lemma ok_other:
  fixes s s' :: "'a sem_sys_scheme"
  assumes "sem_inv s" "proc_step h ev s s'" "ev \<noteq> Leave"
  shows "sem_ok_step Quiet s s'"
proof -
  note inv = sem_inv_simps [OF assms(1)]
  have len: "length (procs s) = NPROC" using sys_inv_simps(4) [OF inv(1)] .
  have "sems s' = sems s \<and> (\<forall>p<NPROC. \<forall>i. sleeping_on s' p i \<longrightarrow> sleeping_on s p i)"
  proof (cases ev)
    case Signal
    then obtain t ps where "s' = (settle h s)\<lparr>ticks := t, procs := ps\<rparr>" "\<forall>p<NPROC. signalled (procs s ! p) (ps ! p)"
      using signal_effect [OF inv(3)] assms(2) by blast
    moreover from this have "signalled (procs s ! p) (procs s' ! p)" if "p < NPROC" for p using that by simp
    ultimately show ?thesis using sleeping_signalled [of s _ s'] by simp
  next
    case Pick
    then obtain i s2 c where w: "i < NPROC" "s' = goto h (Executing i) s2" "kframe h s s2"
     "procs s2 = (procs s)[i := (procs s ! i)\<lparr>p_state := RUNNING, ch_counter := ch_counter (procs s ! i) + 1, p_chan := c\<rparr>]"
      using pick_effect [OF inv(1)] assms(2) by blast
    have "sleeping_on s p j" if "sleeping_on s' p j" for p j
      using that w(1,2,4) len by (cases "p = i") (auto simp: sleeping_on_def)
    then show ?thesis using kframe_more [OF w(3)] w(2) by simp
  next
    case Wrap
    then have "s' = goto h (Scanning 0) (intr_on h s)" using assms(2) by (auto elim: proc_step.cases)
    then show ?thesis by (simp add: intr_on_def upd_cpu_def sleeping_on_def)
  next
    case Skip
    then obtain i s2 where w: "i < NPROC" "scheduler_try h i s = Some (False, s2)" "s' = goto h (Scanning (Suc i)) s2"
      using assms(2) by (auto elim: proc_step.cases)
    have "s2 = settle h s"
      using scheduler_try_run [OF inv(3) w(1), of h] w(2) by (cases "p_state (procs s ! i) = RUNNABLE") auto
    then show ?thesis using w(3) by (simp add: sleeping_on_def)
  qed (use assms(3) in simp)
  moreover have "sys_inv s'" by (rule inv_step [OF inv(1) assms(2)])
  ultimately show ?thesis
    using sem_inv_keep [OF assms(1), of s'] by (auto simp: sem_ok_step_def delta_def)
qed

text \<open>A sleeper that the scheduler picks: its state when it holds the lock of the semaphore again.\<close>

lemma woken_state:
  fixes s s1 :: "'a sem_sys_scheme"
  assumes "sem_inv s" "ctl s h = Scanning j" "j < NPROC" "scheduler_try h j s = Some (True, s1)" "i < NSEM"
  shows "\<exists>t. sleep_end h j (Sem_lock i) b s1 = Some (held h (Sem_lock i) t) \<and> sem_ready t \<and> kframe h s t \<and>
     cproc (cpus t h) = Some j \<and> p_state (procs t ! j) = RUNNING \<and> (\<forall>q. q \<noteq> j \<longrightarrow> procs t ! q = procs s ! q) \<and>
     sys_inv (goto h (Executing j) t)"
proof -
  note inv = sem_inv_simps [OF assms(1)]
  have len: "length (procs s) = NPROC" using sys_inv_simps(4) [OF inv(1)] .
  obtain t where t: "sleep_end h j (Sem_lock i) b s1 = Some (held h (Sem_lock i) t)" "kframe h s t" "cproc (cpus t h) = Some j"
    "procs t = (procs s)[j := (procs s ! j)\<lparr>p_state := RUNNING, ch_counter := ch_counter (procs s ! j) + 1, p_chan := None\<rparr>]"
    using resume_run(2) [OF inv(3) assms(3,4), of "Sem_lock i" b] by blast
  have "sys_inv (goto h (Executing j) t)"
    by (rule inv_enter [OF inv(1) assms(2,3) t(2) _ t(4,3)])
      (use kframe_more [OF t(2)] try_True [OF inv(1) assms(3,4)] in simp_all)
  moreover have "sem_ready t" using kframe_rest [OF t(2) inv(3)] kframe_more [OF t(2)] inv(2) by (simp add: sem_ready_def)
  ultimately show ?thesis using t len assms(3) by (intro exI [of _ t]) simp
qed

lemma ok_again_get:
  fixes s s1 s2 :: "'a sem_sys_scheme"
  assumes "sem_inv s" "ctl s h = Scanning j" "j < NPROC" "scheduler_try h j s = Some (True, s1)" "i < NSEM"
    "down_again h j (int i) b s1 = Some (Inr r, s2)"
  shows "sem_ok_step (Downed i) s (goto h (Executing j) s2)"
proof -
  note inv = sem_inv_simps [OF assms(1)]
  obtain t where t: "sleep_end h j (Sem_lock i) b s1 = Some (held h (Sem_lock i) t)" "sem_ready t" "kframe h s t"
     "cproc (cpus t h) = Some j" "p_state (procs t ! j) = RUNNING" "\<forall>q. q \<noteq> j \<longrightarrow> procs t ! q = procs s ! q"
     "sys_inv (goto h (Executing j) t)"
    using woken_state [OF assms(1-5)] by blast
  have loop: "down_loop h (int i) (held h (Sem_lock i) t) = Some (Inr r, s2)"
    using assms(6) t(1) by (simp add: down_again_def)
  note more = kframe_more [OF t(3)]
  have pos: "0 < sint (s_value (sems t ! i))"
    using down_sleep [OF t(2) assms(5) _ t(4) assms(3)] loop by (cases "sint (s_value (sems t ! i)) \<le> 0") auto
  have s2: "s2 = (settle h t)\<lparr>sems := (sems t)[i := (sems t ! i)\<lparr>s_value := s_value (sems t ! i) - 1\<rparr>]\<rparr>"
    using down_take [OF t(2) assms(5) pos, of h] loop by simp
  let ?s = "goto h (Executing j) s2"
  have "sys_inv ?s"
    by (rule inv_procs [OF t(7)]) (use s2 sys_inv_simps(4) [OF t(7)] in \<open>simp_all add: goto_def\<close>)
  moreover have "sleeping_on s q k" if "sleeping_on ?s q k" for q k
    using that t(5,6) by (cases "q = j") (simp_all add: s2 sleeping_on_def)
  ultimately have "sem_inv ?s"
    by (intro sem_inv_upd [OF assms(1), of ?s i "(sems s ! i)\<lparr>s_value := s_value (sems s ! i) - 1\<rparr>"])
      (use pos more assms(5) in \<open>auto simp: s2\<close>)
  then show ?thesis
    using inv(2) assms(5) pos more by (auto simp: sem_ok_step_def s2 delta_def nth_list_update)
qed

lemma ok_again_wait:
  fixes s s1 s2 s3 :: "'a sem_sys_scheme"
  assumes "sem_inv s" "ctl s h = Scanning j" "j < NPROC" "scheduler_try h j s = Some (True, s1)" "i < NSEM"
    "down_again h j (int i) b s1 = Some (Inl q, s2)" "scheduler_back h q s2 = Some s3"
  shows "sem_ok_step Quiet s (goto h (Scanning (Suc j)) s3)"
proof -
  note inv = sem_inv_simps [OF assms(1)]
  obtain t where t: "sleep_end h j (Sem_lock i) b s1 = Some (held h (Sem_lock i) t)" "sem_ready t" "kframe h s t"
     "cproc (cpus t h) = Some j" "p_state (procs t ! j) = RUNNING" "\<forall>q. q \<noteq> j \<longrightarrow> procs t ! q = procs s ! q"
     "sys_inv (goto h (Executing j) t)"
    using woken_state [OF assms(1-5)] by blast
  have loop: "down_loop h (int i) (held h (Sem_lock i) t) = Some (Inl q, s2)"
    using assms(6) t(1) by (simp add: down_again_def)
  note more = kframe_more [OF t(3)]
  have le: "sint (s_value (sems t ! i)) \<le> 0"
    using down_take [OF t(2) assms(5), of h] loop by (cases "0 < sint (s_value (sems t ! i))") auto
  obtain b' where u: "kframe h t s3" "cproc (cpus s3 h) = None"
     "procs s3 = (procs t)[j := (procs t ! j)\<lparr>p_chan := Some (At_sem i), p_state := SLEEPING, last_executed := ticks t,
       p_context := In_sleep (Sem_lock i) b'\<rparr>]"
    using down_sleep [OF t(2) assms(5) le t(4) assms(3)] loop assms(7) by auto
  let ?t = "goto h (Executing j) t"
  let ?u = "s3\<lparr>ctl := ctl ?t\<rparr>"
  have more3: "sems s3 = sems s" "ctl s3 = ctl s" "spc s3 = spc s" using kframe_more [OF u(1)] more by simp_all
  have "sys_inv (goto h (Scanning (Suc j)) ?u)"
  proof (rule inv_leave [OF t(7), where q = "(procs t ! j)\<lparr>p_chan := Some (At_sem i), p_state := SLEEPING,
      last_executed := ticks t, p_context := In_sleep (Sem_lock i) b'\<rparr>"])
    show "kframe h ?t ?u" using u(1) by (cases s3; cases t) (simp add: kframe_def goto_def)
  qed (use u in \<open>simp_all add: goto_def resumable_def\<close>)
  moreover have "goto h (Scanning (Suc j)) ?u = goto h (Scanning (Suc j)) s3"
    using more3(2) more(3) by (simp add: goto_def)
  ultimately have "sys_inv (goto h (Scanning (Suc j)) s3)" by simp
  moreover have "sleeping_on s p k \<or> sint (s_value (sems s ! k)) \<le> 0" if "sleeping_on (goto h (Scanning (Suc j)) s3) p k" for p k
  proof (cases "p = j")
    case True
    have "length (procs t) = NPROC" using t(2) by (simp add: sem_ready_def at_rest_def)
    then show ?thesis using that le True u(3) more assms(3) by (auto simp: sleeping_on_def)
  next
    case False
    then show ?thesis using that t(6) u(3) by (simp add: sleeping_on_def)
  qed
  ultimately have "sem_inv (goto h (Scanning (Suc j)) s3)"
    by (intro sem_inv_keep [OF assms(1)]) (use more3 in auto)
  then show ?thesis using more3 by (simp add: sem_ok_step_def delta_def)
qed

lemma sem_step_ok:
  fixes s s' :: "'a sem_sys_scheme"
  assumes "sem_inv s" "sem_step e s s'"
  shows "sem_ok_step e s s'"
  using assms(2)
proof cases
  case (call h p i c)
  have "sem_ok_step Quiet s s" using assms(1) by (simp add: sem_ok_step_def delta_def)
  then show ?thesis using call sem_ok_pc by blast
next
  case (up h p i t)
  then show ?thesis using ok_up [OF assms(1)] sem_ok_pc by blast
next
  case (close h p i t)
  then show ?thesis using ok_close [OF assms(1)] sem_ok_pc by blast
next
  case (down_get h p i r t)
  have "acquire h (Sem_lock i) s = Some (held h (Sem_lock i) s)"
    by (rule acquire_free) (use sem_inv_simps(3) [OF assms(1)] in \<open>simp add: at_rest_def\<close>)
  then have "down_loop h (int i) (held h (Sem_lock i) s) = Some (Inr r, t)" using down_get by (simp add: down_locked_def)
  moreover have "cproc (cpus s h) = Some p" "p < NPROC"
    using sys_inv_simps(6) [OF sem_inv_simps(1) [OF assms(1)]] down_get by auto
  ultimately show ?thesis using down_get ok_take(1) [OF assms(1)] sem_ok_pc by blast
next
  case (down_wait h p i q s1 s2)
  have "acquire h (Sem_lock i) s = Some (held h (Sem_lock i) s)"
    by (rule acquire_free) (use sem_inv_simps(3) [OF assms(1)] in \<open>simp add: at_rest_def\<close>)
  then have "down_loop h (int i) (held h (Sem_lock i) s) = Some (Inl q, s1)" using down_wait by (simp add: down_locked_def)
  then show ?thesis using down_wait ok_wait(1) [OF assms(1)] sem_ok_pc by blast
next
  case (again_get h j i s1 b r s2)
  then show ?thesis using ok_again_get [OF assms(1)] sem_ok_pc by blast
next
  case (again_wait h j i s1 b q s2 s3)
  then show ?thesis using ok_again_wait [OF assms(1)] by blast
next
  case (preempt h p q s1 s2)
  then show ?thesis using ok_yield [OF assms(1)] by blast
next
  case (other h ev)
  then show ?thesis using ok_other [OF assms(1)] by blast
qed

section \<open>What the semaphores guarantee\<close>

definition sem_boot :: "'a sem_sys_scheme \<Rightarrow> bool" where
  "sem_boot s \<longleftrightarrow> boot_sys s \<and> length (sems s) = NSEM \<and> (\<forall>p<NPROC. \<forall>i. \<not> sleeping_on s p i)"

lemma sem_boot_inv: "sem_boot s \<Longrightarrow> sem_inv s"
  by (simp add: sem_boot_def sem_inv_def inv_boot)

lemma sem_run_inv: "sem_run s evs s' \<Longrightarrow> sem_inv s \<Longrightarrow> sem_inv s'"
  by (induction rule: sem_run.induct) (use sem_step_ok in \<open>auto simp: sem_ok_step_def\<close>)


definition ups :: "nat \<Rightarrow> sem_event list \<Rightarrow> nat" where
  "ups i evs = count_list evs (Upped i)"

definition downs :: "nat \<Rightarrow> sem_event list \<Rightarrow> nat" where
  "downs i evs = count_list evs (Downed i)"

lemma sint_plus: "sint (v :: u32) + 1 < 2 ^ 31 \<Longrightarrow> sint (v + 1) = sint v + 1"
  using sint_ge [of v] by (simp add: sint_word_ariths signed_take_bit_int_eq_self)

lemma sint_minus: "0 < sint (v :: u32) \<Longrightarrow> sint (v - 1) = sint v - 1"
  using sint_lt [of v] by (simp add: sint_word_ariths signed_take_bit_int_eq_self)


section \<open>Opening and closing\<close>

lemma kalloc_sems:
  fixes s :: "'a ksem_scheme"
  assumes "kalloc h s = Some (p, s')" "at_rest s"
  shows "sems s' = sems s \<and> procs s' = procs s \<and> at_rest s'"
proof -
  have "s' = (settle h s)\<lparr>pages := pages s', freelist := freelist s'\<rparr>"
    by (rule kalloc_frame [OF assms(1)]) (use assms(2) in \<open>simp_all add: at_rest_def hart_ok_def\<close>)
  then obtain x y where "s' = (settle h s)\<lparr>pages := x, freelist := y\<rparr>" by blast
  then show ?thesis using assms(2) by (simp add: at_rest_def free_lock_def)
qed

text \<open>
  C34. Closing strands the sleepers. \<open>sem_close\<close> wakes the channel \<open>&s->locked\<close>, but \<open>sem_down\<close> sleeps on \<open>s\<close>: a
  process that sleeps on the semaphore goes on sleeping, also when the semaphore is opened again with units.
\<close>

theorem sem_close_strands:
  fixes s s1 s2 :: "'a ksem_scheme"
  assumes "sem_ready s" and "i < NSEM" and "sleeping_on s p i" and "p < NPROC"
    and "sem_close h (int i) s = Some (1, s1)" and "sem_open h' (int i) v s1 = Some (1, s2)"
  shows "sleeping_on s1 p i \<and> sleeping_on s2 p i \<and> s_value (sems s2 ! i) = v"
proof -
  have len: "length (procs s) = NPROC" "length (sems s) = NSEM" "at_rest s"
    using assms(1) by (simp_all add: sem_ready_def at_rest_def)
  have "close_locked h (int i) s = Some s1"
    using assms(5) by (auto simp: sem_close_def bind_eq_Some_conv split: if_splits)
  from close_run [OF assms(1,2) this] obtain x y where s1: "s1 = (settle h s)\<lparr>pages := x, freelist := y,
     sems := (sems s)[i := (sems s ! i)\<lparr>s_open := 0\<rparr>], procs := woken (cproc (cpus s h)) (Some (At_lock (Sem_lock i))) (procs s)\<rparr>"
    by blast
  have sl1: "sleeping_on s1 p i"
    using assms(3,4) len(1) by (simp add: s1 sleeping_on_def nth_woken wake_if_def)
  have "at_rest s1" "length (sems s1) = NSEM" using len by (simp_all add: s1 at_rest_def free_lock_def)
  moreover obtain name s3 where k: "kalloc h' s1 = Some (name, s3)" using assms(6) by (auto simp: sem_open_def bind_eq_Some_conv)
  ultimately have s3: "sems s3 = sems s1" "procs s3 = procs s1" using kalloc_sems by blast+
  have "procs s2 = procs s3 \<and> s_value (sems s2 ! i) = v"
    using assms(2,6) k s3 \<open>length (sems s1) = NSEM\<close>
    by (auto simp: sem_open_def bind_eq_Some_conv get_sem_def upd_sem_def initlock_def upd_lock_def set_page_def Let_def
        split: if_splits)
  then show ?thesis using sl1 s3(2) by (simp add: sleeping_on_def)
qed

text \<open>
  C35. Failing to open. For a number outside the documented range \<open>sem_open\<close> returns 0 and loses the page it
  allocated for the name; the number \<open>NSEM\<close> itself passes the test and is an access behind the array.
\<close>

theorem sem_open_out_of_range:
  fixes s :: "'a ksem_scheme"
  assumes "pool s (p # ps)" and "hart_ok h s" and "length (sems s) = NSEM" and "sem < 0 \<or> int NSEM \<le> sem"
  shows "if sem = int NSEM then sem_open h sem v s = None
     else \<exists>s'. sem_open h sem v s = Some (0, s') \<and> pool s' ps"
proof -
  obtain s' where s': "kalloc h s = Some (p, s')" "pool s' ps" "s' = (settle h s)\<lparr>pages := (pages s)(p := replicate 4096 5), freelist := freelist s'\<rparr>"
    using kalloc_some [OF assms(1,2)] by blast
  then obtain x y where "s' = (settle h s)\<lparr>pages := x, freelist := y\<rparr>" by blast
  then have "sems s' = sems s" by simp
  moreover have "p \<noteq> 0" using assms(1) by (auto simp: pool_def)
  ultimately show ?thesis using s'(1,2) assms(3,4) by (auto simp: sem_open_def get_sem_def aget_def)
qed

section \<open>Examples\<close>

definition unit_sem :: semaphore where
  "unit_sem = \<lparr>s_open = 1, s_value = 1, s_name = 0x87002000\<rparr>"

definition demo_sem :: sem_sys where
  "demo_sem = ksem.extend (ksys.extend two_procs \<lparr>sems = replicate 10 unit_sem\<rparr>) \<lparr>spc = (\<lambda>_. User)\<rparr>"

lemma demo_sem_simps [simp]:
  "procs demo_sem = procs two_procs" "sems demo_sem = replicate 10 unit_sem" "spc demo_sem = (\<lambda>_. User)"
  "ctl demo_sem = (\<lambda>_. Scanning 0)" "locks demo_sem = locks idle_kern" "cpus demo_sem = cpus idle_kern"
  "pages demo_sem = pages two_pages" "freelist demo_sem = freelist two_pages" "kernel_end demo_sem = kernel_end two_pages"
  by (simp_all add: demo_sem_def ksem.defs ksys.defs two_procs_def)

lemma demo_sem_boot: "sem_boot demo_sem"
proof -
  have "boot_sys demo_sem"
    using two_procs_boot by (simp add: boot_sys_def at_rest_def free_lock_def two_procs_def)
  moreover have "\<not> sleeping_on demo_sem p i" if "p < NPROC" for p i
    using that by (simp add: sleeping_on_def two_procs_def new_proc_def nth_append NPROC_def nth_Cons split: nat.split)
  ultimately show ?thesis by (simp add: sem_boot_def NSEM_def)
qed

lemma demo_sem_pick: "\<exists>s1. sem_step Quiet demo_sem s1 \<and> ctl s1 0 = Executing 0 \<and> spc s1 = (\<lambda>_. User) \<and> sems s1 = sems demo_sem"
proof -
  have st: "p_state (procs demo_sem ! 0) = RUNNABLE" by (simp add: two_procs_def new_proc_def nth_append)
  obtain t where t: "proc_step 0 Pick demo_sem (goto 0 (Executing 0) t)" "kframe 0 demo_sem t"
    using pick_run [OF sem_inv_simps(1) [OF sem_boot_inv [OF demo_sem_boot]], of 0 0] st by (auto simp: NPROC_def)
  then have "sem_step Quiet demo_sem (goto 0 (Executing 0) t)" by (intro other [OF t(1)]) simp_all
  then show ?thesis using kframe_more [OF t(2)] by (intro exI [of _ "goto 0 (Executing 0) t"]) (simp add: goto_def)
qed


lemma demo_sem_down: "\<exists>s'. sem_run demo_sem [Quiet, Quiet, Downed 0] s'"
proof -
  obtain s1 where s1: "sem_step Quiet demo_sem s1" "ctl s1 0 = Executing 0" "spc s1 = (\<lambda>_. User)" "sems s1 = sems demo_sem"
    using demo_sem_pick by blast
  have r1: "sem_run demo_sem [Quiet] s1" using sem_run_step [OF sem_run_nil s1(1)] by simp
  let ?s2 = "set_pc 0 (Down_at 0) s1"
  have "sem_check (int 0) s1 = Some True" by (simp add: sem_check_def get_sem_def aget_def s1(4) unit_sem_def)
  from call [OF s1(2) _ _ this, of "Down_at 0"] have st2: "sem_step Quiet s1 ?s2" by (simp add: s1(3) NSEM_def)
  have r2: "sem_run demo_sem [Quiet, Quiet] ?s2" using sem_run_step [OF r1 st2] by simp
  note inv = sem_inv_simps [OF sem_run_inv [OF r2 sem_boot_inv [OF demo_sem_boot]]]
  have "acquire 0 (Sem_lock 0) ?s2 = Some (held 0 (Sem_lock 0) ?s2)"
    by (rule acquire_free) (use inv(3) in \<open>simp add: at_rest_def free_lock_def\<close>)
  moreover have "0 < sint (s_value (sems ?s2 ! 0))" by (simp add: s1(4) unit_sem_def)
  ultimately obtain t where "down_locked 0 (int 0) ?s2 = Some (Inr 1, t)"
    using down_take [OF inv(4), of 0 0] by (auto simp: down_locked_def NSEM_def)
  from down_get [OF _ _ _ this, of 0] have "sem_step (Downed 0) ?s2 (set_pc 0 User t)"
    using s1(2) by (simp add: set_pc_def NSEM_def)
  from sem_run_step [OF r2 this] show ?thesis by auto
qed


text \<open>A process that sleeps on the first semaphore, which has no units.\<close>

definition demo_asleep :: sem_sys where
  "demo_asleep = demo_sem\<lparr>sems := \<lparr>s_open = 1, s_value = 0, s_name = 0x87002000\<rparr> # replicate 9 unit_sem,
     procs := (procs two_procs)[1 := (new_proc SLEEPING)\<lparr>p_chan := Some (At_sem 0), p_context := In_sleep (Sem_lock 0) True\<rparr>]\<rparr>"

lemma demo_asleep_ready: "sem_ready demo_asleep"
  by (simp add: sem_ready_def at_rest_def demo_asleep_def NSEM_def NPROC_def free_lock_def idle_kern_def two_procs_def)

lemma pool_cong:
  fixes s :: "'a kheap_scheme" and t :: "'b kheap_scheme"
  assumes "pool s ps" "pages t = pages s" "freelist t = freelist s" "kernel_end t = kernel_end s" "locks t Kmem_lock = locks s Kmem_lock"
  shows "pool t ps"
  using assms by (simp add: pool_def page_ok_def free_lock_def)

lemma demo_asleep_close:
  "\<exists>s1. sem_close 0 (int 0) demo_asleep = Some (1, s1) \<and> pool s1 [0x87002000, 0x87000000, 0x87001000]"
proof -
  let ?t = "upd_sem (int 0) (\<lambda>m. m\<lparr>s_open := 0\<rparr>) (held 0 (Sem_lock 0) demo_asleep)"
  have fr: "free_lock (Sem_lock 0) demo_asleep" "hart_ok 0 demo_asleep"
    by (simp_all add: free_lock_def demo_asleep_def idle_kern_def hart_ok_def)
  have "pool ?t [0x87000000, 0x87001000]"
    by (rule pool_cong [OF two_pages_pool(1)]) (simp_all add: upd_sem_def demo_asleep_def two_pages_def)
  moreover have "hart_ok 0 ?t" by (simp add: upd_sem_def hart_ok_def held_def off_cpu_def demo_asleep_def idle_kern_def)
  moreover have "page_ok ?t 0x87002000"
    by (simp add: page_ok_def upd_sem_def demo_asleep_def two_pages_def PGSIZE_def PHYSTOP_def KERNBASE_def)
  ultimately obtain u where u: "kfree 0 0x87002000 ?t = Some u" "pool u [0x87002000, 0x87000000, 0x87001000]"
    "u = (settle 0 ?t)\<lparr>pages := (pages ?t)(0x87002000 := pages u 0x87002000), freelist := 0x87002000\<rparr>"
    using kfree_some [of ?t "[0x87000000, 0x87001000]" 0 "0x87002000"] by auto
  have st: "settle 0 ?t = ?t" by (simp add: upd_sem_def held_def off_cpu_def demo_asleep_def idle_kern_def)
  obtain x y where ux: "u = ?t\<lparr>pages := x, freelist := y\<rparr>" using u(3) unfolding st by blast
  have at: "at_rest demo_asleep" using demo_asleep_ready by (simp add: sem_ready_def)
  have "do { v \<leftarrow> wakeup 0 (Some (At_lock (Sem_lock 0))) u; release 0 (Sem_lock 0) v } =
      Some (u\<lparr>locks := locks demo_asleep, cpus := cpus (settle 0 demo_asleep),
        procs := woken (cproc (cpus demo_asleep 0)) (Some (At_lock (Sem_lock 0))) (procs demo_asleep)\<rparr>)" (is "_ = Some ?s1")
    by (rule wakeup_in_sem [OF at]) (simp_all add: ux upd_sem_def)
  then have "close_locked 0 (int 0) demo_asleep = Some ?s1"
    using acquire_free [OF fr(1), of 0] u(1)
    by (simp add: close_locked_def get_sem_in) (simp add: get_sem_def aget_def demo_asleep_def)
  moreover have "sem_check (int 0) demo_asleep = Some True" by (simp add: sem_check_def get_sem_def aget_def demo_asleep_def)
  moreover have "pool ?s1 [0x87002000, 0x87000000, 0x87001000]"
    by (rule pool_cong [OF u(2)]) (simp_all add: ux upd_sem_def held_def)
  ultimately show ?thesis by (simp add: sem_close_def)
qed

theorem sem_close_strands_witness:
  "\<exists>s1 s2. sem_close 0 (int 0) demo_asleep = Some (1, s1) \<and> sem_open 0 (int 0) 1 s1 = Some (1, s2) \<and>
     sleeping_on s2 1 0 \<and> s_value (sems s2 ! 0) = 1"
proof -
  obtain s1 where s1: "sem_close 0 (int 0) demo_asleep = Some (1, s1)" "pool s1 [0x87002000, 0x87000000, 0x87001000]"
    using demo_asleep_close by blast
  have "close_locked 0 (int 0) demo_asleep = Some s1"
    using s1(1) by (auto simp: sem_close_def bind_eq_Some_conv split: if_splits)
  from close_run [OF demo_asleep_ready _ this] obtain x y ps where e: "s1 = (settle 0 demo_asleep)\<lparr>pages := x, freelist := y,
      sems := (sems demo_asleep)[0 := (sems demo_asleep ! 0)\<lparr>s_open := 0\<rparr>], procs := ps\<rparr>"
    by (auto simp: NSEM_def)
  have h: "hart_ok 0 s1" "get_sem (int 0) s1 = Some ((sems demo_asleep ! 0)\<lparr>s_open := 0\<rparr>)"
    by (simp_all add: e hart_ok_def demo_asleep_def idle_kern_def get_sem_def aget_def)
  obtain s2 where k: "kalloc 0 s1 = Some (0x87002000, s2)"
    "s2 = (settle 0 s1)\<lparr>pages := (pages s1)(0x87002000 := replicate 4096 5), freelist := freelist s2\<rparr>"
    using kalloc_some [OF s1(2) h(1)] by blast
  obtain z where z: "s2 = (settle 0 s1)\<lparr>pages := (pages s1)(0x87002000 := replicate 4096 5), freelist := z\<rparr>"
    using k(2) by blast
  have g2: "get_sem (int 0) s2 = Some ((sems demo_asleep ! 0)\<lparr>s_open := 0\<rparr>)" using h(2) by (simp add: z get_sem_def)
  have "decimal_int 0 = [48]" by (simp add: decimal_int_def decimal.simps)
  then have n: "intLength 0 \<noteq> None" "intToString 0 (pages s2 0x87002000) \<noteq> None"
    using intToString_run [of 0 "replicate 4096 5"] by (simp_all add: INT_MIN_def z)
  then obtain s3 where s3: "sem_open 0 (int 0) 1 s1 = Some (1, s3)"
    using k(1) g2 by (auto simp: sem_open_def Let_def)
  have "sleeping_on demo_asleep 1 0" by (simp add: sleeping_on_def demo_asleep_def two_procs_def new_proc_def)
  from sem_close_strands [OF demo_asleep_ready _ this _ s1(1) s3] s1(1) s3 show ?thesis
    by (auto simp: NSEM_def NPROC_def)
qed

theorem sem_open_out_of_range_witness:
  "sem_open 0 10 1 demo_sem = None \<and> (\<exists>s'. sem_open 0 (-1) 1 demo_sem = Some (0, s') \<and> pool s' [0x87001000])"
proof -
  have "pool demo_sem [0x87000000, 0x87001000]"
    by (rule pool_cong [OF two_pages_pool(1)]) (simp_all add: two_pages_def)
  moreover have "hart_ok 0 demo_sem" by (simp add: hart_ok_def idle_kern_def)
  ultimately show ?thesis
    using sem_open_out_of_range [of demo_sem "0x87000000" "[0x87001000]" 0 10 1]
      sem_open_out_of_range [of demo_sem "0x87000000" "[0x87001000]" 0 "-1" 1]
    by (simp add: NSEM_def)
qed

end
