(* ===== verification/Bio.thy ===== *)
theory Bio
  imports Proc
begin

text \<open>
  The cache of disk blocks (\<open>kernel/bio.c\<close> and the sleep locks of \<open>kernel/sleeplock.c\<close>, the same
  files in \<open>lab2\<close> and \<open>lab3\<close>). The buffers form a ring through \<open>prev\<close> and \<open>next\<close>, in the order of
  their last use, with \<open>bcache.head\<close> as the buffer number \<open>NBUF\<close>.

  A sleep lock that another process holds puts the caller to sleep (\<open>sleeplock_loop\<close>). The functions of the
  cache are modelled for callers that find the lock free: they are \<^const>\<open>None\<close> when they would sleep. The driver transfers one
  block at a time: \<open>disk\<close> is the contents of the device by block number, \<open>trace\<close> the writes in the
  order in which the device completed them.
\<close>

section \<open>State\<close>

definition NBUF :: nat where "NBUF = 30"
definition BSIZE :: nat where "BSIZE = 1024"

record buf_s =
  b_valid :: u32
  b_dev :: u32
  b_blockno :: u32
  b_locked :: u32
  b_name :: "u8 list"
  b_pid :: u32
  b_refcnt :: u32
  b_prev :: nat
  b_next :: nat
  b_data :: "u8 list"

record kbio = kproc +
  bufs :: "buf_s list"
  disk :: "u32 \<Rightarrow> u8 list"
  trace :: "(u32 \<times> u8 list) list"

definition get_buf :: "nat \<Rightarrow> 'a kbio_scheme \<Rightarrow> buf_s option" where
  "get_buf i s = aget (bufs s) i"

definition upd_buf :: "nat \<Rightarrow> (buf_s \<Rightarrow> buf_s) \<Rightarrow> 'a kbio_scheme \<Rightarrow> 'a kbio_scheme" where
  "upd_buf i f s = s\<lparr>bufs := (bufs s)[i := f (bufs s ! i)]\<rparr>"

section \<open>Sleep locks\<close>

definition initsleeplock :: "nat \<Rightarrow> u8 list \<Rightarrow> 'a kbio_scheme \<Rightarrow> 'a kbio_scheme" where
  "initsleeplock i name s = upd_buf i (\<lambda>b. b\<lparr>b_name := name, b_locked := 0, b_pid := 0\<rparr>)
     (initlock (Buf_lock i) [115, 108, 101, 101, 112, 32, 108, 111, 99, 107] s)"

text \<open>
  The loop of \<open>acquiresleep\<close>, entered with the spin lock held: the process takes the lock (\<open>Inr\<close>), or it
  is asleep, on its way to the scheduler (\<open>Inl\<close>), and the loop goes on when it has been woken up.
\<close>

definition sleeplock_loop :: "nat \<Rightarrow> nat \<Rightarrow> 'a kbio_scheme \<Rightarrow> ((nat + unit) \<times> 'a kbio_scheme) option" where
  "sleeplock_loop h i s = do {
     b \<leftarrow> get_buf i s;
     if b_locked b \<noteq> 0 then do {
       (p, s) \<leftarrow> sleep_begin h (Some (At_buf i)) (Buf_lock i) s;
       Some (Inl p, s) }
     else do {
       let s = upd_buf i (\<lambda>b. b\<lparr>b_locked := 1\<rparr>) s;
       (me, s) \<leftarrow> myproc h s;
       me \<leftarrow> me;
       p \<leftarrow> get_proc me s;
       let s = upd_buf i (\<lambda>b. b\<lparr>b_pid := p_pid p\<rparr>) s;
       s \<leftarrow> release h (Buf_lock i) s;
       Some (Inr (), s) } }"

definition sleeplock_enter :: "nat \<Rightarrow> nat \<Rightarrow> 'a kbio_scheme \<Rightarrow> ((nat + unit) \<times> 'a kbio_scheme) option" where
  "sleeplock_enter h i s = do {
     s \<leftarrow> acquire h (Buf_lock i) s;
     sleeplock_loop h i s }"

definition sleeplock_again :: "nat \<Rightarrow> nat \<Rightarrow> nat \<Rightarrow> bool \<Rightarrow> 'a kbio_scheme \<Rightarrow> ((nat + unit) \<times> 'a kbio_scheme) option" where
  "sleeplock_again h p i b s = do {
     s \<leftarrow> sleep_end h p (Buf_lock i) b s;
     sleeplock_loop h i s }"

text \<open>A call that does not have to sleep; the cache is modelled with these.\<close>

definition acquiresleep :: "nat \<Rightarrow> nat \<Rightarrow> 'a kbio_scheme \<Rightarrow> 'a kbio_scheme option" where
  "acquiresleep h i s = do {
     (r, s) \<leftarrow> sleeplock_enter h i s;
     case r of Inl p \<Rightarrow> None | Inr u \<Rightarrow> Some s }"

definition releasesleep :: "nat \<Rightarrow> nat \<Rightarrow> 'a kbio_scheme \<Rightarrow> 'a kbio_scheme option" where
  "releasesleep h i s = do {
     s \<leftarrow> acquire h (Buf_lock i) s;
     b \<leftarrow> get_buf i s;
     let s = upd_buf i (\<lambda>b. b\<lparr>b_locked := 0\<rparr>) s;
     let s = upd_buf i (\<lambda>b. b\<lparr>b_pid := 0\<rparr>) s;
     s \<leftarrow> wakeup h (Some (At_buf i)) s;
     release h (Buf_lock i) s }"

definition holdingsleep :: "nat \<Rightarrow> nat \<Rightarrow> 'a kbio_scheme \<Rightarrow> (bool \<times> 'a kbio_scheme) option" where
  "holdingsleep h i s = do {
     s \<leftarrow> acquire h (Buf_lock i) s;
     b \<leftarrow> get_buf i s;
     (r, s) \<leftarrow> (if b_locked b \<noteq> 0 then do {
                 (me, s) \<leftarrow> myproc h s;
                 me \<leftarrow> me;
                 p \<leftarrow> get_proc me s;
                 Some (b_pid b = p_pid p, s) }
               else Some (False, s));
     s \<leftarrow> release h (Buf_lock i) s;
     Some (r, s) }"

section \<open>The cache\<close>

fun binit_loop :: "nat list \<Rightarrow> 'a kbio_scheme \<Rightarrow> 'a kbio_scheme" where
  "binit_loop [] s = s"
| "binit_loop (b # bs) s =
     (let s = upd_buf b (\<lambda>x. x\<lparr>b_next := b_next (bufs s ! NBUF)\<rparr>) s;
          s = upd_buf b (\<lambda>x. x\<lparr>b_prev := NBUF\<rparr>) s;
          s = initsleeplock b [98, 117, 102, 102, 101, 114] s;
          s = upd_buf (b_next (bufs s ! NBUF)) (\<lambda>x. x\<lparr>b_prev := b\<rparr>) s;
          s = upd_buf NBUF (\<lambda>x. x\<lparr>b_next := b\<rparr>) s
      in binit_loop bs s)"

definition binit :: "'a kbio_scheme \<Rightarrow> 'a kbio_scheme" where
  "binit s =
     (let s = initlock Bcache_lock [98, 99, 97, 99, 104, 101] s;
          s = upd_buf NBUF (\<lambda>x. x\<lparr>b_prev := NBUF\<rparr>) s;
          s = upd_buf NBUF (\<lambda>x. x\<lparr>b_next := NBUF\<rparr>) s
      in binit_loop [0..<NBUF] s)"

text \<open>The two walks of \<open>bget\<close>: forward to a cached block, backward to an unused buffer.\<close>

partial_function (option) scan_next :: "buf_s list \<Rightarrow> u32 \<Rightarrow> u32 \<Rightarrow> nat \<Rightarrow> nat option option" where
  "scan_next bs dev blockno b =
     (if b = NBUF then Some None
      else do {
        x \<leftarrow> aget bs b;
        if b_dev x = dev \<and> b_blockno x = blockno then Some (Some b)
        else scan_next bs dev blockno (b_next x) })"

partial_function (option) scan_prev :: "buf_s list \<Rightarrow> nat \<Rightarrow> nat option option" where
  "scan_prev bs b =
     (if b = NBUF then Some None
      else do {
        x \<leftarrow> aget bs b;
        if b_refcnt x = 0 then Some (Some b) else scan_prev bs (b_prev x) })"

definition bget :: "nat \<Rightarrow> u32 \<Rightarrow> u32 \<Rightarrow> 'a kbio_scheme \<Rightarrow> (nat \<times> 'a kbio_scheme) option" where
  "bget h dev blockno s = do {
     s \<leftarrow> acquire h Bcache_lock s;
     head \<leftarrow> get_buf NBUF s;
     hit \<leftarrow> scan_next (bufs s) dev blockno (b_next head);
     case hit of
       Some b \<Rightarrow> do {
         let s = upd_buf b (\<lambda>x. x\<lparr>b_refcnt := b_refcnt x + 1\<rparr>) s;
         s \<leftarrow> release h Bcache_lock s;
         s \<leftarrow> acquiresleep h b s;
         Some (b, s) }
     | None \<Rightarrow> do {
         unused \<leftarrow> scan_prev (bufs s) (b_prev head);
         b \<leftarrow> unused;
         let s = upd_buf b (\<lambda>x. x\<lparr>b_dev := dev, b_blockno := blockno, b_valid := 0, b_refcnt := 1\<rparr>) s;
         s \<leftarrow> release h Bcache_lock s;
         s \<leftarrow> acquiresleep h b s;
         Some (b, s) } }"

text \<open>What a request to the driver amounts to when it returns.\<close>

definition virtio_disk_rw :: "nat \<Rightarrow> bool \<Rightarrow> 'a kbio_scheme \<Rightarrow> 'a kbio_scheme option" where
  "virtio_disk_rw i write s = do {
     b \<leftarrow> get_buf i s;
     Some (if write then s\<lparr>disk := (disk s)(b_blockno b := b_data b), trace := trace s @ [(b_blockno b, b_data b)]\<rparr>
           else upd_buf i (\<lambda>x. x\<lparr>b_data := disk s (b_blockno b)\<rparr>) s) }"

definition bread :: "nat \<Rightarrow> u32 \<Rightarrow> u32 \<Rightarrow> 'a kbio_scheme \<Rightarrow> (nat \<times> 'a kbio_scheme) option" where
  "bread h dev blockno s = do {
     (i, s) \<leftarrow> bget h dev blockno s;
     b \<leftarrow> get_buf i s;
     s \<leftarrow> (if b_valid b = 0 then do {
              s \<leftarrow> virtio_disk_rw i False s;
              Some (upd_buf i (\<lambda>x. x\<lparr>b_valid := 1\<rparr>) s) }
            else Some s);
     Some (i, s) }"

definition bwrite :: "nat \<Rightarrow> nat \<Rightarrow> 'a kbio_scheme \<Rightarrow> 'a kbio_scheme option" where
  "bwrite h i s = do {
     (r, s) \<leftarrow> holdingsleep h i s;
     assert_c r;
     virtio_disk_rw i True s }"

definition brelse :: "nat \<Rightarrow> nat \<Rightarrow> 'a kbio_scheme \<Rightarrow> 'a kbio_scheme option" where
  "brelse h i s = do {
     (r, s) \<leftarrow> holdingsleep h i s;
     assert_c r;
     s \<leftarrow> releasesleep h i s;
     s \<leftarrow> acquire h Bcache_lock s;
     let s = upd_buf i (\<lambda>x. x\<lparr>b_refcnt := b_refcnt x - 1\<rparr>) s;
     b \<leftarrow> get_buf i s;
     s \<leftarrow> (if b_refcnt b = 0 then do {
              let s = upd_buf (b_next b) (\<lambda>x. x\<lparr>b_prev := b_prev b\<rparr>) s;
              let s = upd_buf (b_prev b) (\<lambda>x. x\<lparr>b_next := b_next (bufs s ! i)\<rparr>) s;
              let s = upd_buf i (\<lambda>x. x\<lparr>b_next := b_next (bufs s ! NBUF)\<rparr>) s;
              let s = upd_buf i (\<lambda>x. x\<lparr>b_prev := NBUF\<rparr>) s;
              let s = upd_buf (b_next (bufs s ! NBUF)) (\<lambda>x. x\<lparr>b_prev := i\<rparr>) s;
              Some (upd_buf NBUF (\<lambda>x. x\<lparr>b_next := i\<rparr>) s) }
            else Some s);
     release h Bcache_lock s }"

definition bpin :: "nat \<Rightarrow> nat \<Rightarrow> 'a kbio_scheme \<Rightarrow> 'a kbio_scheme option" where
  "bpin h i s = do {
     s \<leftarrow> acquire h Bcache_lock s;
     b \<leftarrow> get_buf i s;
     release h Bcache_lock (upd_buf i (\<lambda>x. x\<lparr>b_refcnt := b_refcnt x + 1\<rparr>) s) }"

definition bunpin :: "nat \<Rightarrow> nat \<Rightarrow> 'a kbio_scheme \<Rightarrow> 'a kbio_scheme option" where
  "bunpin h i s = do {
     s \<leftarrow> acquire h Bcache_lock s;
     b \<leftarrow> get_buf i s;
     release h Bcache_lock (upd_buf i (\<lambda>x. x\<lparr>b_refcnt := b_refcnt x - 1\<rparr>) s) }"

section \<open>The ring of buffers\<close>

text \<open>Neighbours in the list point to each other.\<close>

fun linked :: "buf_s list \<Rightarrow> nat list \<Rightarrow> bool" where
  "linked bs (a # b # l) \<longleftrightarrow> b_next (bs ! a) = b \<and> b_prev (bs ! b) = a \<and> linked bs (b # l)"
| "linked bs l \<longleftrightarrow> True"

definition ring :: "buf_s list \<Rightarrow> nat list \<Rightarrow> bool" where
  "ring bs xs \<longleftrightarrow> length bs = NBUF + 1 \<and> distinct xs \<and> set xs = {..<NBUF} \<and> linked bs (NBUF # xs @ [NBUF])"

lemma linked_append: "linked bs (xs @ a # ys) \<longleftrightarrow> linked bs (xs @ [a]) \<and> linked bs (a # ys)"
  by (induction xs rule: induct_list012) auto

lemma linked_cong:
  "(\<And>a. a \<in> set (butlast l) \<Longrightarrow> b_next (bs' ! a) = b_next (bs ! a)) \<Longrightarrow>
   (\<And>a. a \<in> set (tl l) \<Longrightarrow> b_prev (bs' ! a) = b_prev (bs ! a)) \<Longrightarrow> linked bs' l = linked bs l"
  by (induction bs l rule: linked.induct) (auto split: if_splits)

lemma linked_ends:
  "linked bs (a # xs @ [b]) \<Longrightarrow> b_next (bs ! a) = hd (xs @ [b]) \<and> b_prev (bs ! b) = last (a # xs)"
proof (induction xs arbitrary: a)
  case (Cons x xs)
  then show ?case by (cases xs) auto
qed simp

lemma scan_next_run:
  assumes "linked bs (a # xs @ [NBUF])" "set xs \<subseteq> {..<NBUF}" "length bs = NBUF + 1"
  shows "scan_next bs dev bn (hd (xs @ [NBUF])) = Some (find (\<lambda>b. b_dev (bs ! b) = dev \<and> b_blockno (bs ! b) = bn) xs)"
  using assms
proof (induction xs arbitrary: a)
  case Nil
  then show ?case by (simp add: scan_next.simps)
next
  case (Cons x xs)
  then have "b_next (bs ! x) = hd (xs @ [NBUF])" "x < length bs" "x \<noteq> NBUF"
    using linked_ends [of bs x xs NBUF] by auto
  moreover have "scan_next bs dev bn (hd (xs @ [NBUF])) = Some (find (\<lambda>b. b_dev (bs ! b) = dev \<and> b_blockno (bs ! b) = bn) xs)"
    by (rule Cons.IH [of x]) (use Cons.prems in auto)
  ultimately show ?case by (subst hd_append2, simp, subst scan_next.simps) (simp add: aget_def)
qed

lemma scan_prev_run:
  assumes "linked bs (NBUF # xs @ [a])" "set xs \<subseteq> {..<NBUF}" "length bs = NBUF + 1"
  shows "scan_prev bs (last (NBUF # xs)) = Some (find (\<lambda>b. b_refcnt (bs ! b) = 0) (rev xs))"
  using assms
proof (induction xs arbitrary: a rule: rev_induct)
  case Nil
  then show ?case by (simp add: scan_prev.simps)
next
  case (snoc x xs)
  have l: "linked bs (NBUF # xs @ [x])" using snoc.prems(1) linked_append [of bs "NBUF # xs" x "[a]"] by simp
  then have "b_prev (bs ! x) = last (NBUF # xs)" "x < length bs" "x \<noteq> NBUF"
    using linked_ends [OF l] snoc.prems(2,3) by auto
  moreover have "scan_prev bs (last (NBUF # xs)) = Some (find (\<lambda>b. b_refcnt (bs ! b) = 0) (rev xs))"
    by (rule snoc.IH [OF l]) (use snoc.prems in auto)
  moreover have "scan_prev bs x = (if b_refcnt (bs ! x) = 0 then Some (Some x) else scan_prev bs (b_prev (bs ! x)))"
    using calculation(2,3) by (subst scan_prev.simps) (simp add: aget_def)
  ultimately show ?case by simp
qed

lemma linked_join:
  "linked bs xs \<Longrightarrow> linked bs ys \<Longrightarrow> xs \<noteq> [] \<Longrightarrow> ys \<noteq> [] \<Longrightarrow> b_next (bs ! last xs) = hd ys \<Longrightarrow>
   b_prev (bs ! hd ys) = last xs \<Longrightarrow> linked bs (xs @ ys)"
proof (induction xs rule: induct_list012)
  case (2 x)
  then show ?case by (cases ys) auto
qed auto

text \<open>A buffer is linked in behind the head.\<close>

lemma link_front:
  assumes "linked bs (NBUF # l @ [NBUF])" "distinct l" "NBUF \<notin> set l" "i \<notin> set l" "i \<noteq> NBUF"
    and "set l \<subseteq> {..<n}" "i < n" "NBUF < n"
    and next': "\<And>j. j < n \<Longrightarrow> b_next (bs' ! j) = (if j = NBUF then i else if j = i then hd (l @ [NBUF]) else b_next (bs ! j))"
    and prev': "\<And>j. j < n \<Longrightarrow> b_prev (bs' ! j) = (if j = hd (l @ [NBUF]) then i else if j = i then NBUF else b_prev (bs ! j))"
  shows "linked bs' (NBUF # i # l @ [NBUF])"
proof -
  define f where "f = hd (l @ [NBUF])"
  have f: "f \<in> insert NBUF (set l)" "f \<notin> set (tl (l @ [NBUF]))" using assms(2,3) by (cases l; simp add: f_def)+
  then have fn: "f < n" "f \<noteq> i" using assms(4-8) by auto
  have tl: "set (tl (l @ [NBUF])) \<subseteq> insert NBUF (set l)" by (cases l) auto
  have "b_next (bs' ! j) = b_next (bs ! j)" if "j \<in> set (butlast (l @ [NBUF]))" for j
  proof -
    have "j \<in> set l" using that by (simp only: butlast_snoc)
    then have "j < n" "j \<noteq> i" "j \<noteq> NBUF" using assms(3,4,6) by auto
    then show ?thesis using next' [of j] by simp
  qed
  moreover have "b_prev (bs' ! j) = b_prev (bs ! j)" if "j \<in> set (tl (l @ [NBUF]))" for j
  proof -
    have "j < n" "j \<noteq> i" using that tl assms(4-6,8) by auto
    moreover have "j \<noteq> f" using that f(2) by blast
    ultimately show ?thesis using prev' [of j] by (simp add: f_def)
  qed
  moreover have "linked bs (l @ [NBUF])" using assms(1) by (cases l) auto
  ultimately have "linked bs' (l @ [NBUF])" using linked_cong [of "l @ [NBUF]" bs' bs] by blast
  moreover have "b_next (bs' ! NBUF) = i" "b_next (bs' ! i) = f" "b_prev (bs' ! i) = NBUF" "b_prev (bs' ! f) = i"
    using next' [OF assms(8)] next' [OF assms(7)] prev' [OF assms(7)] prev' [OF fn(1)] fn(2) assms(5) by (simp_all add: f_def)
  ultimately show ?thesis by (cases l) (simp_all add: f_def)
qed

text \<open>The writes of \<open>brelse\<close>: out of the ring, and in again behind the head.\<close>

definition to_front :: "nat \<Rightarrow> buf_s list \<Rightarrow> buf_s list" where
  "to_front i bs =
     (let b = bs ! i;
          bs = bs[b_next b := (bs ! b_next b)\<lparr>b_prev := b_prev b\<rparr>];
          bs = bs[b_prev b := (bs ! b_prev b)\<lparr>b_next := b_next (bs ! i)\<rparr>];
          bs = bs[i := (bs ! i)\<lparr>b_next := b_next (bs ! NBUF)\<rparr>];
          bs = bs[i := (bs ! i)\<lparr>b_prev := NBUF\<rparr>];
          bs = bs[b_next (bs ! NBUF) := (bs ! b_next (bs ! NBUF))\<lparr>b_prev := i\<rparr>]
      in bs[NBUF := (bs ! NBUF)\<lparr>b_next := i\<rparr>])"

lemma unlink:
  assumes "linked bs (NBUF # ys @ i # zs @ [NBUF])" "distinct (ys @ i # zs)" "set (ys @ i # zs) \<subseteq> {..<NBUF}"
    and next': "\<And>j. j < NBUF + 1 \<Longrightarrow> b_next (bs' ! j) = (if j = last (NBUF # ys) then hd (zs @ [NBUF]) else b_next (bs ! j))"
    and prev': "\<And>j. j < NBUF + 1 \<Longrightarrow> b_prev (bs' ! j) = (if j = hd (zs @ [NBUF]) then last (NBUF # ys) else b_prev (bs ! j))"
  shows "linked bs' (NBUF # (ys @ zs) @ [NBUF])"
proof -
  define p where "p = last (NBUF # ys)"
  define n where "n = hd (zs @ [NBUF])"
  have l1: "linked bs (NBUF # ys @ [i])" "linked bs (i # zs @ [NBUF])"
    using assms(1) linked_append [of bs "NBUF # ys" i "zs @ [NBUF]"] by simp_all
  have mem: "p \<in> insert NBUF (set ys)" "n \<in> insert NBUF (set zs)"
    by (simp add: p_def) (cases zs, simp_all add: n_def)
  have sub: "set ys \<subseteq> {..<NBUF}" "set zs \<subseteq> {..<NBUF}" and ne: "NBUF \<notin> set ys" "NBUF \<notin> set zs"
    using assms(3) by auto
  then have lt: "p < NBUF + 1" "n < NBUF + 1" using mem by auto
  have ds: "distinct ys" "distinct zs" "set ys \<inter> set zs = {}" using assms(2) by auto
  have "linked bs' (NBUF # ys)"
  proof -
    have pb: "p \<notin> set (butlast (NBUF # ys))"
      using ds(1) ne(1) by (cases ys rule: rev_cases) (auto simp: p_def)
    have "b_next (bs' ! j) = b_next (bs ! j)" if "j \<in> set (butlast (NBUF # ys))" for j
    proof -
      have "j < NBUF + 1" using in_set_butlastD [OF that] sub(1) by auto
      moreover have "j \<noteq> p" using that pb by blast
      ultimately show ?thesis using next' [of j] unfolding p_def by simp
    qed
    moreover have "b_prev (bs' ! j) = b_prev (bs ! j)" if "j \<in> set (tl (NBUF # ys))" for j
    proof -
      have "j < NBUF + 1" "j \<noteq> n" using that sub(1) mem(2) ds(3) ne(1) by auto
      then show ?thesis using prev' [of j] by (simp add: n_def)
    qed
    moreover have "linked bs (NBUF # ys)"
      using l1(1) linked_append [of bs "NBUF # butlast ys" "last ys" "[i]"]
      by (cases ys rule: rev_cases) simp_all
    ultimately show ?thesis using linked_cong [of "NBUF # ys" bs' bs] by blast
  qed
  moreover have "linked bs' (zs @ [NBUF])"
  proof -
    have "b_next (bs' ! j) = b_next (bs ! j)" if "j \<in> set (butlast (zs @ [NBUF]))" for j
    proof -
      have "j \<in> set zs" using that by (simp only: butlast_snoc)
      then have "j < NBUF + 1" "j \<noteq> p" using sub(2) mem(1) ds(3) ne(2) by auto
      then show ?thesis using next' [of j] by (simp add: p_def)
    qed
    moreover have "b_prev (bs' ! j) = b_prev (bs ! j)" if "j \<in> set (tl (zs @ [NBUF]))" for j
    proof -
      have "j < NBUF + 1" "j \<noteq> n" using that sub(2) ds(2) ne(2) by (cases zs; auto simp: n_def)+
      then show ?thesis using prev' [of j] by (simp add: n_def)
    qed
    moreover have "linked bs (zs @ [NBUF])" using l1(2) by (cases zs) auto
    ultimately show ?thesis using linked_cong [of "zs @ [NBUF]" bs' bs] by blast
  qed
  moreover have "b_next (bs' ! p) = n" "b_prev (bs' ! n) = p"
    using next' [OF lt(1)] prev' [OF lt(2)] by (simp_all add: p_def n_def)
  ultimately show ?thesis using linked_join [of bs' "NBUF # ys" "zs @ [NBUF]"] by (simp add: p_def n_def)
qed

lemma ring_to_front:
  assumes "ring bs xs" "i < NBUF"
  shows "ring (to_front i bs) (i # remove1 i xs)"
proof -
  have len: "length bs = NBUF + 1" and d: "distinct xs" and s: "set xs = {..<NBUF}"
    and l: "linked bs (NBUF # xs @ [NBUF])" using assms(1) by (simp_all add: ring_def)
  have "i \<in> set xs" using assms(2) s by simp
  then obtain ys zs where xs: "xs = ys @ i # zs" by (meson split_list)
  define p where "p = last (NBUF # ys)"
  define n where "n = hd (zs @ [NBUF])"
  have l1: "linked bs (NBUF # ys @ [i])" "linked bs (i # zs @ [NBUF])"
    using l linked_append [of bs "NBUF # ys" i "zs @ [NBUF]"] by (simp_all add: xs)
  have pi: "b_prev (bs ! i) = p" "b_next (bs ! i) = n"
    using linked_ends [OF l1(1)] linked_ends [OF l1(2)] by (simp_all add: p_def n_def)
  have ni: "n \<noteq> i" using d assms(2) by (cases zs) (auto simp: xs n_def)
  define b1 where "b1 = bs[n := (bs ! n)\<lparr>b_prev := p\<rparr>]"
  define b2 where "b2 = b1[p := (b1 ! p)\<lparr>b_next := n\<rparr>]"
  have b1: "b1 ! j = (if j = n then (bs ! j)\<lparr>b_prev := p\<rparr> else bs ! j)" if "j < NBUF + 1" for j
    using that len by (simp add: b1_def)
  have b2: "b2 ! j = (if j = p then (b1 ! j)\<lparr>b_next := n\<rparr> else b1 ! j)" if "j < NBUF + 1" for j
    using that len by (simp add: b2_def b1_def)
  have out: "linked b2 (NBUF # (ys @ zs) @ [NBUF])"
  proof (rule unlink)
    show "linked bs (NBUF # ys @ i # zs @ [NBUF])" "distinct (ys @ i # zs)" "set (ys @ i # zs) \<subseteq> {..<NBUF}"
      using l d s by (simp_all add: xs)
    fix j
    assume j: "j < NBUF + 1"
    show "b_next (b2 ! j) = (if j = last (NBUF # ys) then hd (zs @ [NBUF]) else b_next (bs ! j))"
      "b_prev (b2 ! j) = (if j = hd (zs @ [NBUF]) then last (NBUF # ys) else b_prev (bs ! j))"
      unfolding b2 [OF j] b1 [OF j] p_def [symmetric] n_def [symmetric] by simp_all
  qed
  define f where "f = hd ((ys @ zs) @ [NBUF])"
  have nf: "b_next (b2 ! NBUF) = f" using linked_ends [OF out] by (simp add: f_def)
  define b3 where "b3 = b2[i := (b2 ! i)\<lparr>b_next := f\<rparr>]"
  define b4 where "b4 = b3[i := (b3 ! i)\<lparr>b_prev := NBUF\<rparr>]"
  define b5 where "b5 = b4[f := (b4 ! f)\<lparr>b_prev := i\<rparr>]"
  define b6 where "b6 = b5[NBUF := (b5 ! NBUF)\<lparr>b_next := i\<rparr>]"
  have len6: "length b2 = NBUF + 1" "length b3 = NBUF + 1" "length b4 = NBUF + 1" "length b5 = NBUF + 1" "length b6 = NBUF + 1"
    using len by (simp_all add: b1_def b2_def b3_def b4_def b5_def b6_def)
  have "b_next (b4 ! NBUF) = f" using nf assms(2) by (simp add: b4_def b3_def)
  moreover have "b_next (b1 ! i) = n" using pi(2) ni by (simp add: b1_def)
  ultimately have tf: "to_front i bs = b6"
    using nf unfolding to_front_def Let_def pi b1_def [symmetric]
    by (simp add: b2_def [symmetric] b3_def [symmetric] b4_def [symmetric] b5_def [symmetric] b6_def [symmetric])
  have b6: "b6 ! j = (if j = NBUF then (b5 ! j)\<lparr>b_next := i\<rparr> else b5 ! j)"
    "b5 ! j = (if j = f then (b4 ! j)\<lparr>b_prev := i\<rparr> else b4 ! j)"
    "b4 ! j = (if j = i then (b3 ! j)\<lparr>b_prev := NBUF\<rparr> else b3 ! j)"
    "b3 ! j = (if j = i then (b2 ! j)\<lparr>b_next := f\<rparr> else b2 ! j)" if "j < NBUF + 1" for j
    using that len6 by (simp_all add: b6_def b5_def b4_def b3_def)
  have "linked b6 (NBUF # i # (ys @ zs) @ [NBUF])"
  proof (rule link_front [OF out])
    have "i \<notin> set (ys @ zs)" "set (ys @ zs) \<subseteq> {..<NBUF}" using d s by (auto simp: xs)
    then show "distinct (ys @ zs)" "NBUF \<notin> set (ys @ zs)" "i \<notin> set (ys @ zs)" "i \<noteq> NBUF" "set (ys @ zs) \<subseteq> {..<NBUF + 1}"
      "i < NBUF + 1" "NBUF < NBUF + 1" using d assms(2) by (simp_all add: xs subset_iff less_SucI) auto
    fix j
    assume j: "j < NBUF + 1"
    show "b_next (b6 ! j) = (if j = NBUF then i else if j = i then hd ((ys @ zs) @ [NBUF]) else b_next (b2 ! j))"
      "b_prev (b6 ! j) = (if j = hd ((ys @ zs) @ [NBUF]) then i else if j = i then NBUF else b_prev (b2 ! j))"
      unfolding b6 [OF j] f_def [symmetric] by simp_all
  qed
  moreover have "remove1 i xs = ys @ zs" using d by (simp add: xs remove1_append)
  ultimately show ?thesis using tf d s len6(5) by (auto simp: ring_def xs)
qed

text \<open>Only the links of the buffers change.\<close>

lemma to_front_frame:
  assumes "ring bs xs" "i < NBUF" "j \<le> NBUF"
  shows "length (to_front i bs) = length bs"
    "\<exists>p n. to_front i bs ! j = (bs ! j)\<lparr>b_prev := p, b_next := n\<rparr>"
proof -
  show "length (to_front i bs) = length bs" by (simp add: to_front_def Let_def)
  have e: "\<exists>p n. x = x\<lparr>b_prev := p, b_next := n\<rparr>" for x :: buf_s
    by (intro exI [of _ "b_prev x"] exI [of _ "b_next x"]) simp
  define ok where "ok cs \<longleftrightarrow> length cs = length bs \<and> (\<exists>p n. cs ! j = (bs ! j)\<lparr>b_prev := p, b_next := n\<rparr>)" for cs
  have j: "j < length bs" using assms(1,3) by (simp add: ring_def)
  have up: "ok (cs[k := (cs ! k)\<lparr>b_prev := v\<rparr>])" "ok (cs[k := (cs ! k)\<lparr>b_next := v\<rparr>])" if "ok cs" for cs k v
  proof -
    from that obtain p n where c: "length cs = length bs" "cs ! j = (bs ! j)\<lparr>b_prev := p, b_next := n\<rparr>"
      unfolding ok_def by blast
    have "(cs[k := (cs ! k)\<lparr>b_prev := v\<rparr>]) ! j = (bs ! j)\<lparr>b_prev := (if k = j then v else p), b_next := n\<rparr>"
      "(cs[k := (cs ! k)\<lparr>b_next := v\<rparr>]) ! j = (bs ! j)\<lparr>b_prev := p, b_next := (if k = j then v else n)\<rparr>"
      using c j by simp_all
    then show "ok (cs[k := (cs ! k)\<lparr>b_prev := v\<rparr>])" "ok (cs[k := (cs ! k)\<lparr>b_next := v\<rparr>])"
      unfolding ok_def using c(1) by (metis length_list_update)+
  qed
  have "ok bs" using e [of "bs ! j"] by (simp add: ok_def)
  then have "ok (to_front i bs)" unfolding to_front_def Let_def by (intro up)
  then show "\<exists>p n. to_front i bs ! j = (bs ! j)\<lparr>b_prev := p, b_next := n\<rparr>" by (simp add: ok_def)
qed

section \<open>The operations between steady states\<close>

text \<open>No lock is held, and hart \<open>h\<close> runs a process.\<close>

definition steady :: "nat \<Rightarrow> 'a kproc_scheme \<Rightarrow> bool" where
  "steady h s \<longleftrightarrow> at_rest s \<and> intena (cpus s h) = sie (cpus s h) \<and> (\<exists>p<NPROC. cproc (cpus s h) = Some p)"

definition mypid :: "nat \<Rightarrow> 'a kproc_scheme \<Rightarrow> u32" where
  "mypid h s = p_pid (procs s ! the (cproc (cpus s h)))"

lemma steady_settle: "steady h s \<Longrightarrow> settle h s = s"
proof -
  assume "steady h s"
  then have "settle_cpu (cpus s h) = cpus s h"
    by (cases "cpus s h") (simp add: steady_def at_rest_def settle_cpu_def)
  then show ?thesis by (simp add: settle_def)
qed

lemma steady_free: "steady h s \<Longrightarrow> free_lock l s" "steady h s \<Longrightarrow> hart_ok h s"
  by (simp_all add: steady_def at_rest_def hart_ok_def)

lemma steady_acquire: "steady h s \<Longrightarrow> acquire h l s = Some (held h l s)"
  by (simp add: acquire_free steady_free)

lemma steady_release:
  fixes s :: "'a kbio_scheme"
  assumes "steady h s"
  shows "release h l ((held h l s)\<lparr>bufs := bs\<rparr>) = Some (s\<lparr>bufs := bs\<rparr>)" "release h l (held h l s) = Some s"
  using release_held [OF steady_free(1) [OF assms] steady_free(2) [OF assms], where l = l and s' = "(held h l s)\<lparr>bufs := bs\<rparr>"]
    release_held [OF steady_free(1) [OF assms] steady_free(2) [OF assms], where l = l and s' = "held h l s"] steady_settle [OF assms]
  by (simp_all add: held_def)

lemma held_bufs [simp]:
  fixes s :: "'a kbio_scheme"
  shows "bufs (held h l s) = bufs s" "disk (held h l s) = disk s" "trace (held h l s) = trace s"
  by (simp_all add: held_def)

lemma steady_cong:
  fixes s s' :: "'a kproc_scheme"
  assumes "steady h s" "locks s' = locks s" "cpus s' = cpus s" "length (procs s') = length (procs s)"
  shows "steady h s'"
  using assms by (simp add: steady_def at_rest_def free_lock_def)

lemma myproc_held:
  fixes s t :: "'a kbio_scheme"
  assumes "steady h s" "locks t = locks (held h l s)" "cpus t = cpus (held h l s)"
  shows "myproc h t = Some (cproc (cpus s h), t)"
proof -
  have "noff (cpus t h) \<noteq> 0" "hart_ok h t"
    using assms by (simp_all add: steady_def at_rest_def hart_ok_def held_def off_cpu_def)
  then show ?thesis using myproc_ok [of h t] settle_deep [of t h] assms(3) by simp
qed

lemma acquiresleep_run:
  fixes s :: "'a kbio_scheme"
  assumes "steady h s" "i < length (bufs s)" "b_locked (bufs s ! i) = 0"
  shows "acquiresleep h i s = Some (s\<lparr>bufs := (bufs s)[i := (bufs s ! i)\<lparr>b_locked := 1, b_pid := mypid h s\<rparr>]\<rparr>)"
proof -
  obtain p where p: "cproc (cpus s h) = Some p" "p < length (procs s)" using assms(1) by (auto simp: steady_def at_rest_def)
  have "myproc h (upd_buf i (\<lambda>b. b\<lparr>b_locked := 1\<rparr>) (held h (Buf_lock i) s)) =
      Some (Some p, upd_buf i (\<lambda>b. b\<lparr>b_locked := 1\<rparr>) (held h (Buf_lock i) s))"
    using myproc_held [OF assms(1), of _ "Buf_lock i"] p(1) by (simp add: upd_buf_def)
  then show ?thesis
    using p assms(2,3)
    by (simp add: acquiresleep_def sleeplock_enter_def sleeplock_loop_def steady_acquire [OF assms(1)] get_buf_def aget_def get_proc_def mypid_def Let_def)
       (simp add: upd_buf_def steady_release [OF assms(1)])
qed

lemma holdingsleep_run:
  fixes s :: "'a kbio_scheme"
  assumes "steady h s" "i < length (bufs s)"
  shows "holdingsleep h i s = Some (b_locked (bufs s ! i) \<noteq> 0 \<and> b_pid (bufs s ! i) = mypid h s, s)"
proof -
  obtain p where p: "cproc (cpus s h) = Some p" "p < length (procs s)" using assms(1) by (auto simp: steady_def at_rest_def)
  have "myproc h (held h (Buf_lock i) s) = Some (Some p, held h (Buf_lock i) s)"
    using myproc_held [OF assms(1), of _ "Buf_lock i"] p(1) by simp
  then show ?thesis
    using p assms(2) by (simp add: holdingsleep_def steady_acquire [OF assms(1)] get_buf_def aget_def get_proc_def
        mypid_def steady_release [OF assms(1)])
qed

lemma releasesleep_run:
  fixes s :: "'a kbio_scheme"
  assumes "steady h s" "i < length (bufs s)"
  shows "releasesleep h i s = Some (s\<lparr>bufs := (bufs s)[i := (bufs s ! i)\<lparr>b_locked := 0, b_pid := 0\<rparr>],
     procs := woken (cproc (cpus s h)) (Some (At_buf i)) (procs s)\<rparr>)"
proof -
  let ?t = "(held h (Buf_lock i) s)\<lparr>bufs := (bufs s)[i := (bufs s ! i)\<lparr>b_locked := 0, b_pid := 0\<rparr>]\<rparr>"
  have "do { t \<leftarrow> wakeup h (Some (At_buf i)) ?t; release h (Buf_lock i) t } =
      Some (?t\<lparr>locks := locks s, cpus := cpus s, procs := woken (cproc (cpus s h)) (Some (At_buf i)) (procs s)\<rparr>)"
    using wakeup_in_section [of s "Buf_lock i" ?t h] assms(1) steady_settle [OF assms(1)] by (simp add: steady_def)
  moreover have "upd_buf i (\<lambda>b. b\<lparr>b_pid := 0\<rparr>) (upd_buf i (\<lambda>b. b\<lparr>b_locked := 0\<rparr>) (held h (Buf_lock i) s)) = ?t"
    using assms(2) by (simp add: upd_buf_def)
  ultimately show ?thesis
    using assms(2) by (simp add: releasesleep_def steady_acquire [OF assms(1)] get_buf_def aget_def Let_def)
       (simp add: held_def)
qed

lemma mypid_woken [simp]:
  fixes s :: "'a kproc_scheme"
  assumes "steady h s"
  shows "mypid h (s\<lparr>procs := woken (cproc (cpus s h)) c (procs s)\<rparr>) = mypid h s"
  using assms by (auto simp: mypid_def steady_def at_rest_def nth_woken)

lemma nbuf_run:
  fixes s :: "'a kbio_scheme"
  assumes "steady h s" "ring (bufs s) xs"
  shows "bget h d bn s =
    (case find (\<lambda>b. b_dev (bufs s ! b) = d \<and> b_blockno (bufs s ! b) = bn) xs of
       Some b \<Rightarrow> do {
         s \<leftarrow> acquiresleep h b (s\<lparr>bufs := (bufs s)[b := (bufs s ! b)\<lparr>b_refcnt := b_refcnt (bufs s ! b) + 1\<rparr>]\<rparr>);
         Some (b, s) }
     | None \<Rightarrow> do {
         b \<leftarrow> find (\<lambda>b. b_refcnt (bufs s ! b) = 0) (rev xs);
         s \<leftarrow> acquiresleep h b (s\<lparr>bufs := (bufs s)[b := (bufs s ! b)\<lparr>b_dev := d, b_blockno := bn, b_valid := 0, b_refcnt := 1\<rparr>]\<rparr>);
         Some (b, s) })"
proof -
  have len: "length (bufs s) = NBUF + 1" and sub: "set xs \<subseteq> {..<NBUF}" and l: "linked (bufs s) (NBUF # xs @ [NBUF])"
    using assms(2) by (simp_all add: ring_def)
  have e: "b_next (bufs s ! NBUF) = hd (xs @ [NBUF])" "b_prev (bufs s ! NBUF) = last (NBUF # xs)"
    using linked_ends [OF l] by simp_all
  show ?thesis
    using scan_next_run [OF l sub len, of d bn] scan_prev_run [OF l sub len] len
    by (simp add: bget_def steady_acquire [OF assms(1)] get_buf_def aget_def e upd_buf_def steady_release [OF assms(1)]
        cong: option.case_cong)
qed

lemma upd_buf_steady:
  fixes s :: "'a kbio_scheme"
  shows "steady h s \<Longrightarrow> steady h (s\<lparr>bufs := bs\<rparr>)" "mypid h (s\<lparr>bufs := bs\<rparr>) = mypid h s"
  by (simp_all add: steady_def at_rest_def free_lock_def mypid_def)

text \<open>What the caller of \<open>bread\<close> gets: a buffer it has locked, with the block in it.\<close>

definition got :: "u32 \<Rightarrow> u8 list \<Rightarrow> buf_s \<Rightarrow> buf_s" where
  "got pid blk b = (if b_valid b = 0 then b\<lparr>b_locked := 1, b_pid := pid, b_data := blk, b_valid := 1\<rparr>
     else b\<lparr>b_locked := 1, b_pid := pid\<rparr>)"

lemma bread_hit:
  fixes s :: "'a kbio_scheme"
  assumes "steady h s" "ring (bufs s) xs" "find (\<lambda>b. b_dev (bufs s ! b) = d \<and> b_blockno (bufs s ! b) = bn) xs = Some i"
    "b_locked (bufs s ! i) = 0"
  shows "bread h d bn s = Some (i, s\<lparr>bufs := (bufs s)[i := got (mypid h s) (disk s bn)
     ((bufs s ! i)\<lparr>b_refcnt := b_refcnt (bufs s ! i) + 1\<rparr>)]\<rparr>)"
proof -
  have i: "i < length (bufs s)" "b_blockno (bufs s ! i) = bn"
    using assms(2,3) by (auto simp: ring_def find_Some_iff less_Suc_eq dest: nth_mem)
  let ?s = "s\<lparr>bufs := (bufs s)[i := (bufs s ! i)\<lparr>b_refcnt := b_refcnt (bufs s ! i) + 1\<rparr>]\<rparr>"
  have "acquiresleep h i ?s = Some (?s\<lparr>bufs := (bufs ?s)[i := (bufs ?s ! i)\<lparr>b_locked := 1, b_pid := mypid h ?s\<rparr>]\<rparr>)"
    using i(1) assms(4) by (intro acquiresleep_run upd_buf_steady assms(1)) simp_all
  then show ?thesis
    using i nbuf_run [OF assms(1,2), of d bn] assms(3)
    by (simp add: bread_def get_buf_def aget_def upd_buf_steady virtio_disk_rw_def upd_buf_def got_def)
qed

lemma bread_miss:
  fixes s :: "'a kbio_scheme"
  assumes "steady h s" "ring (bufs s) xs" "find (\<lambda>b. b_dev (bufs s ! b) = d \<and> b_blockno (bufs s ! b) = bn) xs = None"
    "find (\<lambda>b. b_refcnt (bufs s ! b) = 0) (rev xs) = Some i" "b_locked (bufs s ! i) = 0"
  shows "bread h d bn s = Some (i, s\<lparr>bufs := (bufs s)[i := got (mypid h s) (disk s bn)
     ((bufs s ! i)\<lparr>b_dev := d, b_blockno := bn, b_valid := 0, b_refcnt := 1\<rparr>)]\<rparr>)"
proof -
  have i: "i < length (bufs s)"
    using assms(2,4) by (auto simp: ring_def find_Some_iff less_Suc_eq rev_nth dest: nth_mem)
  let ?s = "s\<lparr>bufs := (bufs s)[i := (bufs s ! i)\<lparr>b_dev := d, b_blockno := bn, b_valid := 0, b_refcnt := 1\<rparr>]\<rparr>"
  have "acquiresleep h i ?s = Some (?s\<lparr>bufs := (bufs ?s)[i := (bufs ?s ! i)\<lparr>b_locked := 1, b_pid := mypid h ?s\<rparr>]\<rparr>)"
    using i assms(5) by (intro acquiresleep_run upd_buf_steady assms(1)) simp_all
  then show ?thesis
    using i nbuf_run [OF assms(1,2), of d bn] assms(3,4)
    by (simp add: bread_def get_buf_def aget_def upd_buf_steady virtio_disk_rw_def upd_buf_def got_def)
qed

lemma bwrite_run:
  fixes s :: "'a kbio_scheme"
  assumes "steady h s" "i < length (bufs s)" "b_locked (bufs s ! i) \<noteq> 0" "b_pid (bufs s ! i) = mypid h s"
  shows "bwrite h i s = Some (s\<lparr>disk := (disk s)(b_blockno (bufs s ! i) := b_data (bufs s ! i)),
     trace := trace s @ [(b_blockno (bufs s ! i), b_data (bufs s ! i))]\<rparr>)"
  using assms by (simp add: bwrite_def holdingsleep_run virtio_disk_rw_def get_buf_def aget_def)

lemma bpin_run:
  fixes s :: "'a kbio_scheme"
  assumes "steady h s" "i < length (bufs s)"
  shows "bpin h i s = Some (s\<lparr>bufs := (bufs s)[i := (bufs s ! i)\<lparr>b_refcnt := b_refcnt (bufs s ! i) + 1\<rparr>]\<rparr>)"
    "bunpin h i s = Some (s\<lparr>bufs := (bufs s)[i := (bufs s ! i)\<lparr>b_refcnt := b_refcnt (bufs s ! i) - 1\<rparr>]\<rparr>)"
  using assms by (simp_all add: bpin_def bunpin_def steady_acquire get_buf_def aget_def upd_buf_def steady_release)

lemma brelse_run:
  fixes s :: "'a kbio_scheme"
  assumes "steady h s" "i < length (bufs s)" "NBUF < length (bufs s)" "b_locked (bufs s ! i) \<noteq> 0" "b_pid (bufs s ! i) = mypid h s"
  defines "bs \<equiv> (bufs s)[i := (bufs s ! i)\<lparr>b_locked := 0, b_pid := 0, b_refcnt := b_refcnt (bufs s ! i) - 1\<rparr>]"
  shows "brelse h i s = Some (s\<lparr>bufs := (if b_refcnt (bs ! i) = 0 then to_front i bs else bs),
     procs := woken (cproc (cpus s h)) (Some (At_buf i)) (procs s)\<rparr>)"
proof -
  define t where "t = s\<lparr>bufs := (bufs s)[i := (bufs s ! i)\<lparr>b_locked := 0, b_pid := 0\<rparr>],
     procs := woken (cproc (cpus s h)) (Some (At_buf i)) (procs s)\<rparr>"
  have t: "steady h t" "i < length (bufs t)"
    using assms(1,2) by (simp_all add: t_def steady_def at_rest_def free_lock_def)
  have r: "holdingsleep h i s = Some (True, s)" "releasesleep h i s = Some t"
    using assms by (simp_all add: holdingsleep_run releasesleep_run t_def)
  have d: "upd_buf i (\<lambda>x. x\<lparr>b_refcnt := b_refcnt x - 1\<rparr>) (held h Bcache_lock t) = (held h Bcache_lock t)\<lparr>bufs := bs\<rparr>"
    using assms(2) by (simp add: upd_buf_def t_def bs_def)
  have tb: "t\<lparr>bufs := cs\<rparr> = s\<lparr>bufs := cs, procs := woken (cproc (cpus s h)) (Some (At_buf i)) (procs s)\<rparr>" for cs
    by (simp add: t_def)
  show ?thesis
  proof (cases "b_refcnt (bs ! i) = 0")
    case True
    then show ?thesis
      using r assms(2,3)
      by (simp add: brelse_def steady_acquire [OF t(1)] d get_buf_def aget_def Let_def)
        (simp add: upd_buf_def to_front_def Let_def steady_release [OF t(1)] tb bs_def)
  next
    case False
    then show ?thesis
      using r assms(2) by (simp add: brelse_def steady_acquire [OF t(1)] d get_buf_def aget_def Let_def bs_def)
        (simp add: steady_release [OF t(1)] tb)
  qed
qed

section \<open>The cache as a map of blocks\<close>

text \<open>
  What a file system sees of the cache: the blocks it holds (with the buffer of each), the contents
  a reader finds, the contents of the device, the completed writes, and the references to each block.
\<close>

record cview =
  c_held :: "u32 \<rightharpoonup> nat"
  c_view :: "u32 \<Rightarrow> u8 list"
  c_disk :: "u32 \<Rightarrow> u8 list"
  c_trace :: "(u32 \<times> u8 list) list"
  c_refs :: "u32 \<Rightarrow> nat"

definition slot :: "u32 \<Rightarrow> buf_s list \<Rightarrow> u32 \<Rightarrow> nat option" where
  "slot d bs bn = find (\<lambda>i. b_dev (bs ! i) = d \<and> b_blockno (bs ! i) = bn) [0..<NBUF]"

definition held_of :: "u32 \<Rightarrow> buf_s list \<Rightarrow> u32 \<Rightarrow> nat option" where
  "held_of d bs bn = (case slot d bs bn of Some i \<Rightarrow> if b_locked (bs ! i) \<noteq> 0 then Some i else None | None \<Rightarrow> None)"

definition view_of :: "u32 \<Rightarrow> buf_s list \<Rightarrow> (u32 \<Rightarrow> u8 list) \<Rightarrow> u32 \<Rightarrow> u8 list" where
  "view_of d bs dk bn = (case slot d bs bn of Some i \<Rightarrow> if b_valid (bs ! i) \<noteq> 0 then b_data (bs ! i) else dk bn | None \<Rightarrow> dk bn)"

definition refs_of :: "u32 \<Rightarrow> buf_s list \<Rightarrow> u32 \<Rightarrow> nat" where
  "refs_of d bs bn = (case slot d bs bn of Some i \<Rightarrow> unat (b_refcnt (bs ! i)) | None \<Rightarrow> 0)"

definition cache_abs :: "u32 \<Rightarrow> 'a kbio_scheme \<Rightarrow> cview" where
  "cache_abs d s = \<lparr>c_held = held_of d (bufs s), c_view = view_of d (bufs s) (disk s), c_disk = disk s,
     c_trace = trace s, c_refs = refs_of d (bufs s)\<rparr>"

text \<open>
  The cache of device \<open>d\<close> with one process using it: a buffer without references is unlocked and agrees with
  the device, a locked one holds its block for the process \<open>me\<close>, and no block is cached twice.
\<close>

definition buf_ok :: "u32 \<Rightarrow> u32 \<Rightarrow> (u32 \<Rightarrow> u8 list) \<Rightarrow> buf_s \<Rightarrow> bool" where
  "buf_ok d me dk b \<longleftrightarrow> length (b_data b) = BSIZE \<and> (b_dev b = d \<or> b_refcnt b = 0) \<and>
     (b_refcnt b = 0 \<longrightarrow> b_locked b = 0 \<and> (b_valid b \<noteq> 0 \<longrightarrow> b_dev b = d \<longrightarrow> b_data b = dk (b_blockno b))) \<and>
     (b_locked b \<noteq> 0 \<longrightarrow> b_pid b = me \<and> b_valid b \<noteq> 0)"

definition uniq :: "u32 \<Rightarrow> buf_s list \<Rightarrow> bool" where
  "uniq d bs \<longleftrightarrow> (\<forall>i<NBUF. \<forall>j<NBUF. b_dev (bs ! i) = d \<and> b_dev (bs ! j) = d \<and> b_blockno (bs ! i) = b_blockno (bs ! j) \<longrightarrow> i = j)"

definition bufs_ok :: "u32 \<Rightarrow> u32 \<Rightarrow> (u32 \<Rightarrow> u8 list) \<Rightarrow> buf_s list \<Rightarrow> bool" where
  "bufs_ok d me dk bs \<longleftrightarrow> (\<exists>xs. ring bs xs) \<and> uniq d bs \<and> (\<forall>i<NBUF. buf_ok d me dk (bs ! i)) \<and> (\<forall>b. length (dk b) = BSIZE)"

definition cache_ok :: "nat \<Rightarrow> u32 \<Rightarrow> 'a kbio_scheme \<Rightarrow> bool" where
  "cache_ok h d s \<longleftrightarrow> steady h s \<and> bufs_ok d (mypid h s) (disk s) (bufs s)"

lemma slot_in: "slot d bs bn = Some i \<Longrightarrow> i < NBUF \<and> b_dev (bs ! i) = d \<and> b_blockno (bs ! i) = bn"
  by (auto simp: slot_def find_Some_iff)

lemma slot_Some:
  assumes "uniq d bs"
  shows "slot d bs bn = Some i \<longleftrightarrow> i < NBUF \<and> b_dev (bs ! i) = d \<and> b_blockno (bs ! i) = bn"
proof
  assume i: "i < NBUF \<and> b_dev (bs ! i) = d \<and> b_blockno (bs ! i) = bn"
  show "slot d bs bn = Some i"
  proof (cases "slot d bs bn")
    case None
    have "i \<in> set [0..<NBUF]" using i by simp
    with None i show ?thesis unfolding slot_def find_None_iff by blast
  next
    case (Some j)
    then show ?thesis using slot_in [OF Some] i assms unfolding uniq_def by metis
  qed
qed (rule slot_in)

lemma slot_None: "slot d bs bn = None \<longleftrightarrow> (\<forall>i<NBUF. \<not> (b_dev (bs ! i) = d \<and> b_blockno (bs ! i) = bn))"
  unfolding slot_def find_None_iff by auto

lemma find_unique:
  "(\<And>x y. x \<in> set xs \<Longrightarrow> y \<in> set xs \<Longrightarrow> P x \<Longrightarrow> P y \<Longrightarrow> x = y) \<Longrightarrow> set xs = set ys \<Longrightarrow> find P xs = find P ys"
proof (cases "find P ys")
  case None
  assume "set xs = set ys"
  then have "find P xs = None" using None unfolding find_None_iff by metis
  with None show ?thesis by simp
next
  case (Some y)
  assume u: "\<And>x y. x \<in> set xs \<Longrightarrow> y \<in> set xs \<Longrightarrow> P x \<Longrightarrow> P y \<Longrightarrow> x = y" and s: "set xs = set ys"
  have y: "y \<in> set xs" "P y" using Some s by (auto simp: find_Some_iff)
  then obtain x where x: "find P xs = Some x" by (cases "find P xs") (auto simp: find_None_iff)
  then have "x \<in> set xs" "P x" by (auto simp: find_Some_iff)
  then show ?thesis using u y x Some by simp
qed

lemma find_ring:
  assumes "ring bs xs" "uniq d bs"
  shows "find (\<lambda>b. b_dev (bs ! b) = d \<and> b_blockno (bs ! b) = bn) xs = slot d bs bn"
  unfolding slot_def using assms by (intro find_unique) (auto simp: ring_def uniq_def)

text \<open>Changing the links only.\<close>

definition payload :: "buf_s \<Rightarrow> buf_s" where
  "payload b = b\<lparr>b_prev := 0, b_next := 0\<rparr>"

lemma payload_eq:
  "payload b' = payload b \<Longrightarrow> b_valid b' = b_valid b \<and> b_dev b' = b_dev b \<and> b_blockno b' = b_blockno b \<and>
     b_locked b' = b_locked b \<and> b_pid b' = b_pid b \<and> b_refcnt b' = b_refcnt b \<and> b_data b' = b_data b"
  by (cases b; cases b') (simp add: payload_def)

lemma relink:
  assumes "\<And>j. j < NBUF \<Longrightarrow> payload (bs' ! j) = payload (bs ! j)"
  shows "uniq d bs' = uniq d bs" "\<And>j. j < NBUF \<Longrightarrow> buf_ok d me dk (bs' ! j) = buf_ok d me dk (bs ! j)"
    "held_of d bs' = held_of d bs" "view_of d bs' dk = view_of d bs dk" "refs_of d bs' = refs_of d bs"
proof -
  note p = payload_eq [OF assms]
  show "uniq d bs' = uniq d bs" "\<And>j. j < NBUF \<Longrightarrow> buf_ok d me dk (bs' ! j) = buf_ok d me dk (bs ! j)"
    using p by (simp_all add: uniq_def buf_ok_def)
  have "find (\<lambda>i. b_dev (bs' ! i) = d \<and> b_blockno (bs' ! i) = bn) xs = find (\<lambda>i. b_dev (bs ! i) = d \<and> b_blockno (bs ! i) = bn) xs"
    if "set xs \<subseteq> {..<NBUF}" for xs bn using that p by (induction xs) auto
  then have s: "slot d bs' = slot d bs" by (intro ext) (simp add: slot_def subset_iff)
  have lt: "slot d bs bn = Some i \<Longrightarrow> i < NBUF" for bn i using slot_in by blast
  show "held_of d bs' = held_of d bs" "view_of d bs' dk = view_of d bs dk" "refs_of d bs' = refs_of d bs"
    using p lt by (auto intro!: ext simp: held_of_def view_of_def refs_of_def s split: option.splits)
qed

lemma payload_to_front:
  assumes "ring bs xs" "i < NBUF" "j < NBUF"
  shows "payload (to_front i bs ! j) = payload (bs ! j)"
  using to_front_frame(2) [OF assms(1,2), of j] assms(3) by (auto simp: payload_def)

text \<open>Changing one buffer, of block \<open>bn\<close> before and after.\<close>

lemma ring_upd:
  assumes "ring bs xs" "b_next b' = b_next (bs ! i)" "b_prev b' = b_prev (bs ! i)"
  shows "ring (bs[i := b']) xs"
proof -
  have e: "b_next (bs[i := b'] ! j) = b_next (bs ! j) \<and> b_prev (bs[i := b'] ! j) = b_prev (bs ! j)" for j
  proof (cases "j = i \<and> i < length bs")
    case True
    then show ?thesis using assms(2,3) by simp
  next
    case False
    then have "bs[i := b'] ! j = bs ! j" by (cases "j = i") (simp_all add: not_less list_update_beyond)
    then show ?thesis by simp
  qed
  have "linked (bs[i := b']) l = linked bs l" for l by (rule linked_cong) (simp_all add: e)
  then show ?thesis using assms(1) by (simp add: ring_def)
qed

lemma one_buf:
  assumes "uniq d bs" "length bs = NBUF + 1" "i < NBUF" "b_dev b' = d"
    "b_dev (bs ! i) = d \<and> b_blockno (bs ! i) = b_blockno b' \<or> slot d bs (b_blockno b') = None"
  shows "uniq d (bs[i := b'])"
    "\<And>bn. slot d (bs[i := b']) bn = (if bn = b_blockno b' then Some i else if slot d bs bn = Some i then None else slot d bs bn)"
proof -
  have other: "j < NBUF \<Longrightarrow> b_dev (bs ! j) = d \<Longrightarrow> b_blockno (bs ! j) = b_blockno b' \<Longrightarrow> j = i" for j
    using assms(5)
  proof
    assume j: "j < NBUF" "b_dev (bs ! j) = d" "b_blockno (bs ! j) = b_blockno b'"
      and "b_dev (bs ! i) = d \<and> b_blockno (bs ! i) = b_blockno b'"
    then show "j = i" using assms(1,3) unfolding uniq_def by simp
  next
    assume "j < NBUF" "b_dev (bs ! j) = d" "b_blockno (bs ! j) = b_blockno b'" "slot d bs (b_blockno b') = None"
    then show "j = i" by (simp add: slot_None)
  qed
  have u0: "j < NBUF \<Longrightarrow> k < NBUF \<Longrightarrow> b_dev (bs ! j) = d \<Longrightarrow> b_dev (bs ! k) = d \<Longrightarrow> b_blockno (bs ! j) = b_blockno (bs ! k) \<Longrightarrow> j = k" for j k
    using assms(1) unfolding uniq_def by blast
  have nth: "bs[i := b'] ! j = (if j = i then b' else bs ! j)" for j using assms(2,3) by simp
  show u: "uniq d (bs[i := b'])"
    unfolding uniq_def
  proof (intro allI impI)
    fix j k
    assume j: "j < NBUF" and k: "k < NBUF" and e: "b_dev (bs[i := b'] ! j) = d \<and> b_dev (bs[i := b'] ! k) = d \<and>
      b_blockno (bs[i := b'] ! j) = b_blockno (bs[i := b'] ! k)"
    consider "j = i" "k = i" | "j = i" "k \<noteq> i" | "j \<noteq> i" "k = i" | "j \<noteq> i" "k \<noteq> i" by blast
    then show "j = k"
    proof cases
      case 2
      then show ?thesis using other [OF k] e by (simp add: nth)
    next
      case 3
      then show ?thesis using other [OF j] e by (simp add: nth)
    next
      case 4
      then show ?thesis using u0 [OF j k] e by (simp only: nth if_False)
    qed simp
  qed
  fix bn
  show "slot d (bs[i := b']) bn = (if bn = b_blockno b' then Some i else if slot d bs bn = Some i then None else slot d bs bn)"
  proof (cases "slot d (bs[i := b']) bn")
    case None
    then have n: "\<And>j. j < NBUF \<Longrightarrow> \<not> (b_dev (bs[i := b'] ! j) = d \<and> b_blockno (bs[i := b'] ! j) = bn)"
      by (simp add: slot_None)
    have "bn \<noteq> b_blockno b'" using n [of i] assms(2-4) by simp
    moreover have "slot d bs bn = Some j \<Longrightarrow> j = i" for j
      using n [of j] slot_Some [OF assms(1), of bn j] by (cases "j = i") simp_all
    ultimately show ?thesis using None by (cases "slot d bs bn") simp_all
  next
    case (Some j)
    then have j: "j < NBUF" "b_dev (bs[i := b'] ! j) = d" "b_blockno (bs[i := b'] ! j) = bn"
      by (simp_all add: slot_Some [OF u])
    show ?thesis
    proof (cases "j = i")
      case True
      then show ?thesis using j Some assms(2) by simp
    next
      case False
      then have dj: "b_dev (bs ! j) = d" "b_blockno (bs ! j) = bn" using j by simp_all
      then have "slot d bs bn = Some j" using j(1) slot_Some [OF assms(1)] by simp
      moreover have "bn \<noteq> b_blockno b'" using dj j(1) other [of j] False by blast
      ultimately show ?thesis using Some False by simp
    qed
  qed
qed

lemma bufs_ok_parts:
  assumes "bufs_ok d me dk bs"
  shows "uniq d bs" "length bs = NBUF + 1" "i < NBUF \<Longrightarrow> buf_ok d me dk (bs ! i)" "length (dk b) = BSIZE"
  using assms by (auto simp: bufs_ok_def ring_def)

lemma replace_buf:
  assumes ok: "bufs_ok d me dk bs" and i: "i < NBUF" and b': "buf_ok d me dk b'" "b_dev b' = d"
    and links: "b_next b' = b_next (bs ! i)" "b_prev b' = b_prev (bs ! i)"
    and old: "b_dev (bs ! i) = d \<and> b_blockno (bs ! i) = b_blockno b' \<or>
      slot d bs (b_blockno b') = None \<and> b_refcnt (bs ! i) = 0"
  shows "bufs_ok d me dk (bs[i := b'])"
    "held_of d (bs[i := b']) = (held_of d bs)(b_blockno b' := if b_locked b' \<noteq> 0 then Some i else None)"
    "view_of d (bs[i := b']) dk = (view_of d bs dk)(b_blockno b' := if b_valid b' \<noteq> 0 then b_data b' else dk (b_blockno b'))"
    "refs_of d (bs[i := b']) = (refs_of d bs)(b_blockno b' := unat (b_refcnt b'))"
proof -
  note parts = bufs_ok_parts [OF ok]
  have sl: "b_dev (bs ! i) = d \<and> b_blockno (bs ! i) = b_blockno b' \<or> slot d bs (b_blockno b') = None" using old by (elim disjE conjE) (intro disjI1 disjI2 conjI; assumption)+
  note one = one_buf [OF parts(1,2) i b'(2) sl]
  have nth: "bs[i := b'] ! j = (if j = i then b' else bs ! j)" for j using i parts(2) by simp
  obtain xs where "ring bs xs" using ok by (auto simp: bufs_ok_def)
  from ring_upd [OF this links] one(1) ok show "bufs_ok d me dk (bs[i := b'])"
    using b'(1) unfolding bufs_ok_def nth by auto
  have evict: "b_refcnt (bs ! i) = 0 \<and> b_dev (bs ! i) = d \<and> b_blockno (bs ! i) = bn"
    if "slot d bs bn = Some i" "bn \<noteq> b_blockno b'" for bn
    using slot_in [OF that(1)] that(2) old by auto
  have clean: "b_locked (bs ! i) = 0" "b_valid (bs ! i) \<noteq> 0 \<Longrightarrow> b_data (bs ! i) = dk bn" "unat (b_refcnt (bs ! i)) = 0"
    if "slot d bs bn = Some i" "bn \<noteq> b_blockno b'" for bn
    using evict [OF that] parts(3) [OF i] by (auto simp: buf_ok_def)
  show "held_of d (bs[i := b']) = (held_of d bs)(b_blockno b' := if b_locked b' \<noteq> 0 then Some i else None)"
  proof
    fix bn
    show "held_of d (bs[i := b']) bn = ((held_of d bs)(b_blockno b' := if b_locked b' \<noteq> 0 then Some i else None)) bn"
      using clean [of bn] one(2) [of bn] by (cases "slot d bs bn") (auto simp: held_of_def nth)
  qed
  show "view_of d (bs[i := b']) dk = (view_of d bs dk)(b_blockno b' := if b_valid b' \<noteq> 0 then b_data b' else dk (b_blockno b'))"
  proof
    fix bn
    show "view_of d (bs[i := b']) dk bn = ((view_of d bs dk)(b_blockno b' := if b_valid b' \<noteq> 0 then b_data b' else dk (b_blockno b'))) bn"
      using clean [of bn] one(2) [of bn] by (cases "slot d bs bn") (auto simp: view_of_def nth)
  qed
  show "refs_of d (bs[i := b']) = (refs_of d bs)(b_blockno b' := unat (b_refcnt b'))"
  proof
    fix bn
    show "refs_of d (bs[i := b']) bn = ((refs_of d bs)(b_blockno b' := unat (b_refcnt b'))) bn"
      using clean [of bn] one(2) [of bn] by (cases "slot d bs bn") (auto simp: refs_of_def nth)
  qed
qed

lemma unused_buffer:
  assumes "bufs_ok d me dk bs" "card {b. refs_of d bs b \<noteq> 0} < NBUF"
  shows "\<exists>i<NBUF. b_refcnt (bs ! i) = 0"
proof (rule ccontr)
  note parts = bufs_ok_parts [OF assms(1)]
  assume "\<not> (\<exists>i<NBUF. b_refcnt (bs ! i) = 0)"
  then have r: "b_refcnt (bs ! i) \<noteq> 0" "b_dev (bs ! i) = d" if "i < NBUF" for i
    using that parts(3) [OF that] by (auto simp: buf_ok_def)
  have inj: "inj_on (\<lambda>i. b_blockno (bs ! i)) {..<NBUF}"
    using parts(1) r(2) unfolding inj_on_def uniq_def by blast
  have "refs_of d bs (b_blockno (bs ! i)) \<noteq> 0" if "i < NBUF" for i
  proof -
    have "slot d bs (b_blockno (bs ! i)) = Some i" using that r(2) by (simp add: slot_Some [OF parts(1)])
    then show ?thesis using r(1) [OF that] by (simp add: refs_of_def unat_eq_0)
  qed
  then have "(\<lambda>i. b_blockno (bs ! i)) ` {..<NBUF} \<subseteq> {b. refs_of d bs b \<noteq> 0}" by auto
  from card_mono [OF _ this] card_image [OF inj] assms(2) show False by simp
qed

text \<open>The operations on what a file system sees.\<close>

definition a_read :: "u32 \<Rightarrow> nat \<Rightarrow> cview \<Rightarrow> cview" where
  "a_read bn i a = a\<lparr>c_held := (c_held a)(bn \<mapsto> i), c_refs := (c_refs a)(bn := c_refs a bn + 1)\<rparr>"

definition a_set :: "u32 \<Rightarrow> u8 list \<Rightarrow> cview \<Rightarrow> cview" where
  "a_set bn x a = a\<lparr>c_view := (c_view a)(bn := x)\<rparr>"

definition a_write :: "u32 \<Rightarrow> cview \<Rightarrow> cview" where
  "a_write bn a = a\<lparr>c_disk := (c_disk a)(bn := c_view a bn), c_trace := c_trace a @ [(bn, c_view a bn)]\<rparr>"

definition a_release :: "u32 \<Rightarrow> cview \<Rightarrow> cview" where
  "a_release bn a = a\<lparr>c_held := (c_held a)(bn := None), c_refs := (c_refs a)(bn := c_refs a bn - 1)\<rparr>"

definition a_pin :: "u32 \<Rightarrow> cview \<Rightarrow> cview" where
  "a_pin bn a = a\<lparr>c_refs := (c_refs a)(bn := c_refs a bn + 1)\<rparr>"

definition a_unpin :: "u32 \<Rightarrow> cview \<Rightarrow> cview" where
  "a_unpin bn a = a\<lparr>c_refs := (c_refs a)(bn := c_refs a bn - 1)\<rparr>"

lemmas a_defs = a_read_def a_set_def a_write_def a_release_def a_pin_def a_unpin_def

lemma cache_held:
  assumes "cache_ok h d s" "c_held (cache_abs d s) bn = Some i"
  shows "slot d (bufs s) bn = Some i" "i < NBUF" "i < length (bufs s)" "b_dev (bufs s ! i) = d" "b_blockno (bufs s ! i) = bn"
    "b_locked (bufs s ! i) \<noteq> 0" "b_pid (bufs s ! i) = mypid h s" "b_valid (bufs s ! i) \<noteq> 0" "b_refcnt (bufs s ! i) \<noteq> 0"
    "b_data (bufs s ! i) = c_view (cache_abs d s) bn" "c_refs (cache_abs d s) bn = unat (b_refcnt (bufs s ! i))"
    "buf_ok d (mypid h s) (disk s) (bufs s ! i)"
proof -
  have ok: "bufs_ok d (mypid h s) (disk s) (bufs s)" using assms(1) by (simp add: cache_ok_def)
  show sl: "slot d (bufs s) bn = Some i" and l: "b_locked (bufs s ! i) \<noteq> 0"
    using assms(2) by (auto simp: cache_abs_def held_of_def split: option.splits if_splits)
  show i: "i < NBUF" "b_dev (bufs s ! i) = d" "b_blockno (bufs s ! i) = bn" using slot_in [OF sl] by simp_all
  show "i < length (bufs s)" using i(1) bufs_ok_parts(2) [OF ok] by simp
  show b: "buf_ok d (mypid h s) (disk s) (bufs s ! i)" using bufs_ok_parts(3) [OF ok i(1)] .
  with l show "b_pid (bufs s ! i) = mypid h s" "b_valid (bufs s ! i) \<noteq> 0" "b_refcnt (bufs s ! i) \<noteq> 0"
    by (auto simp: buf_ok_def)
  with sl show "b_data (bufs s ! i) = c_view (cache_abs d s) bn" "c_refs (cache_abs d s) bn = unat (b_refcnt (bufs s ! i))"
    by (simp_all add: cache_abs_def view_of_def refs_of_def)
qed

text \<open>The six laws. Each operation leaves the rest of the kernel state alone.\<close>

lemma law_set:
  fixes s :: "'a kbio_scheme"
  assumes "cache_ok h d s" "c_held (cache_abs d s) bn = Some i" "length x = BSIZE"
  shows "cache_ok h d (upd_buf i (\<lambda>b. b\<lparr>b_data := x\<rparr>) s)"
    "cache_abs d (upd_buf i (\<lambda>b. b\<lparr>b_data := x\<rparr>) s) = a_set bn x (cache_abs d s)"
    "kbio.more (upd_buf i (\<lambda>b. b\<lparr>b_data := x\<rparr>) s) = kbio.more s"
proof -
  note H = cache_held [OF assms(1,2)]
  have ok: "bufs_ok d (mypid h s) (disk s) (bufs s)" "steady h s" using assms(1) by (simp_all add: cache_ok_def)
  let ?b = "(bufs s ! i)\<lparr>b_data := x\<rparr>"
  have b: "buf_ok d (mypid h s) (disk s) ?b" using H(9,12) assms(3) by (simp add: buf_ok_def)
  have R: "bufs_ok d (mypid h s) (disk s) ((bufs s)[i := ?b])"
    "held_of d ((bufs s)[i := ?b]) = (held_of d (bufs s))(bn := Some i)"
    "view_of d ((bufs s)[i := ?b]) (disk s) = (view_of d (bufs s) (disk s))(bn := x)"
    "refs_of d ((bufs s)[i := ?b]) = (refs_of d (bufs s))(bn := unat (b_refcnt (bufs s ! i)))"
    using replace_buf [OF ok(1) H(2) b] H(4-8) by simp_all
  have "held_of d (bufs s) bn = Some i" "refs_of d (bufs s) bn = unat (b_refcnt (bufs s ! i))"
    using assms(2) H(11) by (simp_all add: cache_abs_def)
  then have "(held_of d (bufs s))(bn := Some i) = held_of d (bufs s)"
    "(refs_of d (bufs s))(bn := unat (b_refcnt (bufs s ! i))) = refs_of d (bufs s)" by (auto intro!: ext)
  with R ok(2) show "cache_ok h d (upd_buf i (\<lambda>b. b\<lparr>b_data := x\<rparr>) s)"
    "cache_abs d (upd_buf i (\<lambda>b. b\<lparr>b_data := x\<rparr>) s) = a_set bn x (cache_abs d s)"
    "kbio.more (upd_buf i (\<lambda>b. b\<lparr>b_data := x\<rparr>) s) = kbio.more s"
    by (simp_all add: cache_ok_def upd_buf_def upd_buf_steady cache_abs_def a_set_def)
qed

lemma law_refs:
  fixes s :: "'a kbio_scheme"
  assumes "cache_ok h d s" "c_held (cache_abs d s) bn = Some i" "r \<noteq> 0"
  defines "t \<equiv> s\<lparr>bufs := (bufs s)[i := (bufs s ! i)\<lparr>b_refcnt := r\<rparr>]\<rparr>"
  shows "cache_ok h d t" "cache_abs d t = (cache_abs d s)\<lparr>c_refs := (c_refs (cache_abs d s))(bn := unat r)\<rparr>"
    "kbio.more t = kbio.more s"
proof -
  note H = cache_held [OF assms(1,2)]
  have ok: "bufs_ok d (mypid h s) (disk s) (bufs s)" "steady h s" using assms(1) by (simp_all add: cache_ok_def)
  let ?b = "(bufs s ! i)\<lparr>b_refcnt := r\<rparr>"
  have b: "buf_ok d (mypid h s) (disk s) ?b" using H(4,12) assms(3) by (simp add: buf_ok_def)
  have R: "bufs_ok d (mypid h s) (disk s) ((bufs s)[i := ?b])"
    "held_of d ((bufs s)[i := ?b]) = (held_of d (bufs s))(bn := Some i)"
    "view_of d ((bufs s)[i := ?b]) (disk s) = (view_of d (bufs s) (disk s))(bn := b_data (bufs s ! i))"
    "refs_of d ((bufs s)[i := ?b]) = (refs_of d (bufs s))(bn := unat r)"
    using replace_buf [OF ok(1) H(2) b] H(4-8) by simp_all
  have "held_of d (bufs s) bn = Some i" "view_of d (bufs s) (disk s) bn = b_data (bufs s ! i)"
    using assms(2) H(10) by (simp_all add: cache_abs_def)
  then have "(held_of d (bufs s))(bn := Some i) = held_of d (bufs s)"
    "(view_of d (bufs s) (disk s))(bn := b_data (bufs s ! i)) = view_of d (bufs s) (disk s)" by (auto intro!: ext)
  with R ok(2) show "cache_ok h d t" "cache_abs d t = (cache_abs d s)\<lparr>c_refs := (c_refs (cache_abs d s))(bn := unat r)\<rparr>"
    "kbio.more t = kbio.more s"
    by (simp_all add: t_def cache_ok_def upd_buf_steady cache_abs_def)
qed

lemma unat_succ: "unat (x :: u32) + 1 < 2 ^ 32 \<Longrightarrow> unat (x + 1) = unat x + 1"
  by (simp add: unat_word_ariths)

lemma unat_pred: "x \<noteq> 0 \<Longrightarrow> unat ((x :: u32) - 1) = unat x - 1"
  using unat_minus_one by blast

lemma law_pin:
  fixes s :: "'a kbio_scheme"
  assumes "cache_ok h d s" "c_held (cache_abs d s) bn = Some i" "c_refs (cache_abs d s) bn + 1 < 2 ^ 32"
  shows "\<exists>s'. bpin h i s = Some s' \<and> cache_ok h d s' \<and> cache_abs d s' = a_pin bn (cache_abs d s) \<and> kbio.more s' = kbio.more s"
proof -
  note H = cache_held [OF assms(1,2)]
  have u: "unat (b_refcnt (bufs s ! i) + 1) = unat (b_refcnt (bufs s ! i)) + 1" using assms(3) H(11) by (simp add: unat_succ)
  then have "b_refcnt (bufs s ! i) + 1 \<noteq> 0" by (metis add_is_0 one_neq_zero unat_0)
  from law_refs [OF assms(1,2) this] u H(11) show ?thesis
    using bpin_run(1) [of h s i] assms(1) H(3) by (simp add: cache_ok_def a_pin_def)
qed

lemma law_unpin:
  fixes s :: "'a kbio_scheme"
  assumes "cache_ok h d s" "c_held (cache_abs d s) bn = Some i" "1 < c_refs (cache_abs d s) bn"
  shows "\<exists>s'. bunpin h i s = Some s' \<and> cache_ok h d s' \<and> cache_abs d s' = a_unpin bn (cache_abs d s) \<and> kbio.more s' = kbio.more s"
proof -
  note H = cache_held [OF assms(1,2)]
  have u: "unat (b_refcnt (bufs s ! i) - 1) = unat (b_refcnt (bufs s ! i)) - 1" using H(9) by (simp add: unat_pred)
  then have "b_refcnt (bufs s ! i) - 1 \<noteq> 0" using assms(3) H(11) by (metis less_numeral_extra(3) unat_0 zero_less_diff)
  from law_refs [OF assms(1,2) this] u H(11) show ?thesis
    using bpin_run(2) [of h s i] assms(1) H(3) by (simp add: cache_ok_def a_unpin_def)
qed

lemma law_write:
  fixes s :: "'a kbio_scheme"
  assumes "cache_ok h d s" "c_held (cache_abs d s) bn = Some i"
  shows "\<exists>s'. bwrite h i s = Some s' \<and> cache_ok h d s' \<and> cache_abs d s' = a_write bn (cache_abs d s) \<and> kbio.more s' = kbio.more s"
proof -
  note H = cache_held [OF assms]
  have ok: "bufs_ok d (mypid h s) (disk s) (bufs s)" "steady h s" using assms(1) by (simp_all add: cache_ok_def)
  note parts = bufs_ok_parts [OF ok(1)]
  let ?dk = "(disk s)(bn := b_data (bufs s ! i))"
  have other: "b_blockno (bufs s ! j) \<noteq> bn" if "j < NBUF" "b_dev (bufs s ! j) = d" "j \<noteq> i" for j
  proof
    assume "b_blockno (bufs s ! j) = bn"
    then have "slot d (bufs s) bn = Some j" using that slot_Some [OF parts(1)] by simp
    then show False using H(1) that(3) by simp
  qed
  have "buf_ok d (mypid h s) ?dk (bufs s ! j)" if "j < NBUF" for j
    using other [OF that] parts(3) [OF that] H(9) by (cases "j = i") (auto simp: buf_ok_def)
  moreover have "length (?dk b) = BSIZE" for b using parts(4) H(12) by (simp add: buf_ok_def)
  ultimately have "bufs_ok d (mypid h s) ?dk (bufs s)" using ok(1) by (simp add: bufs_ok_def)
  moreover have "view_of d (bufs s) ?dk = view_of d (bufs s) (disk s)"
    using H(1,8) by (auto intro!: ext simp: view_of_def split: option.splits)
  moreover have "steady h (s\<lparr>disk := ?dk, trace := trace s @ [(bn, b_data (bufs s ! i))]\<rparr>)"
    using ok(2) by (simp add: steady_def at_rest_def free_lock_def)
  ultimately show ?thesis
    using bwrite_run [OF ok(2) H(3,6,7)] H(5,10) by (simp add: cache_ok_def cache_abs_def a_write_def mypid_def)
qed

lemma got_simps [simp]:
  "b_dev (got pid blk b) = b_dev b" "b_blockno (got pid blk b) = b_blockno b" "b_refcnt (got pid blk b) = b_refcnt b"
  "b_locked (got pid blk b) = 1" "b_pid (got pid blk b) = pid" "b_valid (got pid blk b) \<noteq> 0"
  "b_next (got pid blk b) = b_next b" "b_prev (got pid blk b) = b_prev b"
  "b_data (got pid blk b) = (if b_valid b = 0 then blk else b_data b)"
  by (simp_all add: got_def)

lemma law_read:
  fixes s :: "'a kbio_scheme"
  assumes "cache_ok h d s" "c_held (cache_abs d s) bn = None" "c_refs (cache_abs d s) bn + 1 < 2 ^ 32"
    and "c_refs (cache_abs d s) bn \<noteq> 0 \<or> card {b. c_refs (cache_abs d s) b \<noteq> 0} < NBUF"
  shows "\<exists>i s'. bread h d bn s = Some (i, s') \<and> cache_ok h d s' \<and> cache_abs d s' = a_read bn i (cache_abs d s) \<and>
     kbio.more s' = kbio.more s"
proof -
  have ok: "bufs_ok d (mypid h s) (disk s) (bufs s)" "steady h s" using assms(1) by (simp_all add: cache_ok_def)
  note parts = bufs_ok_parts [OF ok(1)]
  obtain xs where ring: "ring (bufs s) xs" using ok(1) by (auto simp: bufs_ok_def)
  have "\<exists>i b'. bread h d bn s = Some (i, s\<lparr>bufs := (bufs s)[i := b']\<rparr>) \<and> bufs_ok d (mypid h s) (disk s) ((bufs s)[i := b']) \<and>
     held_of d ((bufs s)[i := b']) = (held_of d (bufs s))(bn := Some i) \<and>
     view_of d ((bufs s)[i := b']) (disk s) = view_of d (bufs s) (disk s) \<and>
     refs_of d ((bufs s)[i := b']) = (refs_of d (bufs s))(bn := refs_of d (bufs s) bn + 1)"
  proof (cases "slot d (bufs s) bn")
    case (Some i)
    note sl = slot_in [OF Some]
    have i: "i < NBUF" "b_dev (bufs s ! i) = d" "b_blockno (bufs s ! i) = bn" "b_locked (bufs s ! i) = 0"
      using sl assms(2) Some by (auto simp: cache_abs_def held_of_def split: if_splits)
    have r: "refs_of d (bufs s) bn = unat (b_refcnt (bufs s ! i))" by (simp add: refs_of_def Some)
    have u: "unat (b_refcnt (bufs s ! i) + 1) = unat (b_refcnt (bufs s ! i)) + 1"
      using assms(3) r by (simp add: unat_succ cache_abs_def)
    then have nz: "b_refcnt (bufs s ! i) + 1 \<noteq> 0" by (metis add_is_0 one_neq_zero unat_0)
    let ?b = "got (mypid h s) (disk s bn) ((bufs s ! i)\<lparr>b_refcnt := b_refcnt (bufs s ! i) + 1\<rparr>)"
    have "buf_ok d (mypid h s) (disk s) ?b" using parts(3) [OF i(1)] parts(4) i nz by (simp add: buf_ok_def)
    from replace_buf [OF ok(1) i(1) this] i
    have R: "bufs_ok d (mypid h s) (disk s) ((bufs s)[i := ?b])"
      "held_of d ((bufs s)[i := ?b]) = (held_of d (bufs s))(bn := Some i)"
      "view_of d ((bufs s)[i := ?b]) (disk s) = (view_of d (bufs s) (disk s))(bn := b_data ?b)"
      "refs_of d ((bufs s)[i := ?b]) = (refs_of d (bufs s))(bn := unat (b_refcnt (bufs s ! i) + 1))" by simp_all
    have v: "(view_of d (bufs s) (disk s))(bn := b_data ?b) = view_of d (bufs s) (disk s)"
      by (auto intro!: ext simp: view_of_def Some)
    have "find (\<lambda>b. b_dev (bufs s ! b) = d \<and> b_blockno (bufs s ! b) = bn) xs = Some i"
      using find_ring [OF ring parts(1)] Some by simp
    then have run: "bread h d bn s = Some (i, s\<lparr>bufs := (bufs s)[i := ?b]\<rparr>)" by (rule bread_hit [OF ok(2) ring _ i(4)])
    moreover have "refs_of d ((bufs s)[i := ?b]) = (refs_of d (bufs s))(bn := refs_of d (bufs s) bn + 1)"
      unfolding R(4) r u by (rule refl)
    ultimately show ?thesis using R(1-3) by (intro exI [of _ i] exI [of _ ?b] conjI) (simp_all only: v)
  next
    case None
    then have r: "refs_of d (bufs s) bn = 0" "view_of d (bufs s) (disk s) bn = disk s bn"
      by (simp_all add: refs_of_def view_of_def)
    then have "card {b. refs_of d (bufs s) b \<noteq> 0} < NBUF" using assms(4) by (simp add: cache_abs_def)
    then have "\<exists>i<NBUF. b_refcnt (bufs s ! i) = 0" using unused_buffer [OF ok(1)] by blast
    moreover have "set (rev xs) = {..<NBUF}" using ring by (simp add: ring_def)
    ultimately obtain i where f: "find (\<lambda>b. b_refcnt (bufs s ! b) = 0) (rev xs) = Some i"
      by (cases "find (\<lambda>b. b_refcnt (bufs s ! b) = 0) (rev xs)") (auto simp: find_None_iff)
    then have "i \<in> set (rev xs)" by (auto simp: find_Some_iff rev_nth)
    with \<open>set (rev xs) = {..<NBUF}\<close> f have i: "i < NBUF" "b_refcnt (bufs s ! i) = 0" by (auto simp: find_Some_iff)
    then have l: "b_locked (bufs s ! i) = 0" using parts(3) [OF i(1)] by (simp add: buf_ok_def)
    let ?b = "got (mypid h s) (disk s bn) ((bufs s ! i)\<lparr>b_dev := d, b_blockno := bn, b_valid := 0, b_refcnt := 1\<rparr>)"
    have "buf_ok d (mypid h s) (disk s) ?b" using parts(4) by (simp add: buf_ok_def)
    from replace_buf [OF ok(1) i(1) this] i None
    have R: "bufs_ok d (mypid h s) (disk s) ((bufs s)[i := ?b])"
      "held_of d ((bufs s)[i := ?b]) = (held_of d (bufs s))(bn := Some i)"
      "view_of d ((bufs s)[i := ?b]) (disk s) = (view_of d (bufs s) (disk s))(bn := disk s bn)"
      "refs_of d ((bufs s)[i := ?b]) = (refs_of d (bufs s))(bn := 1)" by simp_all
    have v: "(view_of d (bufs s) (disk s))(bn := disk s bn) = view_of d (bufs s) (disk s)" using r(2) by (auto intro!: ext)
    have miss: "find (\<lambda>b. b_dev (bufs s ! b) = d \<and> b_blockno (bufs s ! b) = bn) xs = None"
      using find_ring [OF ring parts(1)] None by simp
    have "(refs_of d (bufs s))(bn := 1) = (refs_of d (bufs s))(bn := refs_of d (bufs s) bn + 1)" using r(1) by simp
    moreover have "bread h d bn s = Some (i, s\<lparr>bufs := (bufs s)[i := ?b]\<rparr>)" by (rule bread_miss [OF ok(2) ring miss f l])
    ultimately show ?thesis using R by (intro exI [of _ i] exI [of _ ?b] conjI) (simp_all only: v)
  qed
  then obtain i b' where "bread h d bn s = Some (i, s\<lparr>bufs := (bufs s)[i := b']\<rparr>)"
    "bufs_ok d (mypid h s) (disk s) ((bufs s)[i := b'])" "held_of d ((bufs s)[i := b']) = (held_of d (bufs s))(bn := Some i)"
    "view_of d ((bufs s)[i := b']) (disk s) = view_of d (bufs s) (disk s)"
    "refs_of d ((bufs s)[i := b']) = (refs_of d (bufs s))(bn := refs_of d (bufs s) bn + 1)" by blast
  then show ?thesis using ok(2)
    by (intro exI [of _ i] exI [of _ "s\<lparr>bufs := (bufs s)[i := b']\<rparr>"])
      (simp add: cache_ok_def upd_buf_steady cache_abs_def a_read_def)
qed

lemma law_release:
  fixes s :: "'a kbio_scheme"
  assumes "cache_ok h d s" "c_held (cache_abs d s) bn = Some i"
    and "1 < c_refs (cache_abs d s) bn \<or> c_view (cache_abs d s) bn = c_disk (cache_abs d s) bn"
  shows "\<exists>s'. brelse h i s = Some s' \<and> cache_ok h d s' \<and> cache_abs d s' = a_release bn (cache_abs d s) \<and>
     kbio.more s' = kbio.more s"
proof -
  note H = cache_held [OF assms(1,2)]
  have ok: "bufs_ok d (mypid h s) (disk s) (bufs s)" "steady h s" using assms(1) by (simp_all add: cache_ok_def)
  note parts = bufs_ok_parts [OF ok(1)]
  let ?b = "(bufs s ! i)\<lparr>b_locked := 0, b_pid := 0, b_refcnt := b_refcnt (bufs s ! i) - 1\<rparr>"
  let ?bs = "(bufs s)[i := ?b]"
  let ?cs = "if b_refcnt (?bs ! i) = 0 then to_front i ?bs else ?bs"
  have u: "unat (b_refcnt (bufs s ! i) - 1) = unat (b_refcnt (bufs s ! i)) - 1" using H(9) by (simp add: unat_pred)
  have "b_data (bufs s ! i) = disk s bn" if "b_refcnt (bufs s ! i) - 1 = 0"
  proof -
    have "\<not> 1 < c_refs (cache_abs d s) bn" using that u H(11) by (metis less_numeral_extra(3) unat_0 zero_less_diff)
    then show ?thesis using assms(3) H(10) by (simp add: cache_abs_def)
  qed
  then have b: "buf_ok d (mypid h s) (disk s) ?b" using H(4,5,12) by (simp add: buf_ok_def)
  have R: "bufs_ok d (mypid h s) (disk s) ?bs" "held_of d ?bs = (held_of d (bufs s))(bn := None)"
    "view_of d ?bs (disk s) = (view_of d (bufs s) (disk s))(bn := b_data (bufs s ! i))"
    "refs_of d ?bs = (refs_of d (bufs s))(bn := unat (b_refcnt (bufs s ! i) - 1))"
    using replace_buf [OF ok(1) H(2) b] H(4-8) by simp_all
  have v: "(view_of d (bufs s) (disk s))(bn := b_data (bufs s ! i)) = view_of d (bufs s) (disk s)"
    using H(10) by (auto intro!: ext simp: cache_abs_def)
  have "bufs_ok d (mypid h s) (disk s) ?cs \<and> held_of d ?cs = held_of d ?bs \<and>
     view_of d ?cs (disk s) = view_of d ?bs (disk s) \<and> refs_of d ?cs = refs_of d ?bs"
  proof (cases "b_refcnt (?bs ! i) = 0")
    case True
    obtain xs where ring: "ring ?bs xs" using R(1) unfolding bufs_ok_def by blast
    note rl = relink [of "to_front i ?bs" ?bs, OF payload_to_front [OF ring H(2)]]
    have "ring (to_front i ?bs) (i # remove1 i xs)" by (rule ring_to_front [OF ring H(2)])
    then have "bufs_ok d (mypid h s) (disk s) (to_front i ?bs)" using R(1) rl(1,2) unfolding bufs_ok_def by blast
    then show ?thesis using True rl(3-5) by simp
  next
    case False
    then show ?thesis using R(1) by simp
  qed
  then have C: "bufs_ok d (mypid h s) (disk s) ?cs" "held_of d ?cs = (held_of d (bufs s))(bn := None)"
    "view_of d ?cs (disk s) = view_of d (bufs s) (disk s)"
    "refs_of d ?cs = (refs_of d (bufs s))(bn := refs_of d (bufs s) bn - 1)"
    using R v u H(11) by (simp_all add: cache_abs_def)
  let ?t = "s\<lparr>bufs := ?cs, procs := woken (cproc (cpus s h)) (Some (At_buf i)) (procs s)\<rparr>"
  have n: "NBUF < length (bufs s)" using parts(2) by simp
  have run: "brelse h i s = Some ?t" by (rule brelse_run [OF ok(2) H(3) n H(6,7)])
  have "steady h ?t" by (rule steady_cong [OF ok(2)]) simp_all
  moreover have "mypid h ?t = mypid h s"
    using mypid_woken [OF ok(2), of "Some (At_buf i)"] by (simp add: mypid_def)
  ultimately show ?thesis
    using C run unfolding a_release_def cache_ok_def cache_abs_def by (intro exI [of _ ?t]) simp
qed

section \<open>From the boot\<close>

text \<open>The memory of the cache before \<open>binit\<close>: zero but for the data.\<close>

definition blank_bufs :: "buf_s list \<Rightarrow> bool" where
  "blank_bufs bs \<longleftrightarrow> length bs = NBUF + 1 \<and>
     (\<forall>i\<le>NBUF. b_dev (bs ! i) = 0 \<and> b_refcnt (bs ! i) = 0 \<and> b_locked (bs ! i) = 0 \<and> length (b_data (bs ! i)) = BSIZE)"

definition insert_new :: "nat \<Rightarrow> buf_s list \<Rightarrow> buf_s list" where
  "insert_new i bs =
     (let f = b_next (bs ! NBUF);
          bs = bs[i := (bs ! i)\<lparr>b_next := f, b_prev := NBUF, b_name := [98, 117, 102, 102, 101, 114], b_locked := 0, b_pid := 0\<rparr>];
          bs = bs[f := (bs ! f)\<lparr>b_prev := i\<rparr>]
      in bs[NBUF := (bs ! NBUF)\<lparr>b_next := i\<rparr>])"

lemma steady_initlock:
  fixes s :: "'a kbio_scheme"
  assumes "steady h s"
  shows "steady h (initlock l nm s)" "mypid h (initlock l nm s) = mypid h s"
  using assms by (simp_all add: steady_def at_rest_def free_lock_def initlock_def upd_lock_def mypid_def)

lemma binit_step:
  fixes s :: "'a kbio_scheme"
  assumes "linked (bufs s) (NBUF # l @ [NBUF])" "blank_bufs (bufs s)" "set l = {..<i}" "i < NBUF" "distinct l"
  shows "\<exists>t. binit_loop (i # is) s = binit_loop is t \<and> linked (bufs t) (NBUF # (i # l) @ [NBUF]) \<and> blank_bufs (bufs t) \<and>
     t = (initlock (Buf_lock i) [115, 108, 101, 101, 112, 32, 108, 111, 99, 107] s)\<lparr>bufs := bufs t\<rparr>"
proof -
  let ?bs = "bufs s"
  define f where "f = b_next (?bs ! NBUF)"
  have f: "f = hd (l @ [NBUF])" using linked_ends [OF assms(1)] by (simp add: f_def)
  have len: "length ?bs = NBUF + 1" using assms(2) by (simp add: blank_bufs_def)
  have fl: "f \<le> NBUF" "f \<noteq> i"
  proof -
    have "hd (l @ [NBUF]) = NBUF \<or> hd (l @ [NBUF]) \<in> set l" by (cases "l = []") (simp_all only: hd_append2 hd_in_set append_Nil list.sel simp_thms)
    then have "f = NBUF \<or> f < i" unfolding f assms(3) lessThan_iff .
    then show "f \<le> NBUF" "f \<noteq> i" using assms(4) by linarith+
  qed
  let ?t = "(initlock (Buf_lock i) [115, 108, 101, 101, 112, 32, 108, 111, 99, 107] s)\<lparr>bufs := insert_new i ?bs\<rparr>"
  have run: "binit_loop (i # is) s = binit_loop is ?t"
    using assms(4) len fl by (simp add: upd_buf_def initsleeplock_def initlock_def upd_lock_def insert_new_def Let_def f_def [symmetric])
  define b1 where "b1 = ?bs[i := (?bs ! i)\<lparr>b_next := f, b_prev := NBUF, b_name := [98, 117, 102, 102, 101, 114], b_locked := 0, b_pid := 0\<rparr>]"
  define b2 where "b2 = b1[f := (b1 ! f)\<lparr>b_prev := i\<rparr>]"
  have new: "insert_new i ?bs = b2[NBUF := (b2 ! NBUF)\<lparr>b_next := i\<rparr>]"
    by (simp add: insert_new_def Let_def b1_def b2_def f_def)
  have a1: "b1 ! k = (if k = i then (?bs ! k)\<lparr>b_next := f, b_prev := NBUF, b_name := [98, 117, 102, 102, 101, 114], b_locked := 0, b_pid := 0\<rparr> else ?bs ! k)"
    if "k < NBUF + 1" for k using that len by (simp add: b1_def)
  have a2: "b2 ! k = (if k = f then (b1 ! k)\<lparr>b_prev := i\<rparr> else b1 ! k)" if "k < NBUF + 1" for k
    using that len by (simp add: b2_def b1_def)
  have a3: "insert_new i ?bs ! k = (if k = NBUF then (b2 ! k)\<lparr>b_next := i\<rparr> else b2 ! k)" if "k < NBUF + 1" for k
    using that len by (simp add: new b2_def b1_def)
  have nx: "b_next (insert_new i ?bs ! j) = (if j = NBUF then i else if j = i then f else b_next (?bs ! j))" if "j < NBUF + 1" for j
    unfolding a3 [OF that] a2 [OF that] a1 [OF that] by simp
  have pv: "b_prev (insert_new i ?bs ! j) = (if j = f then i else if j = i then NBUF else b_prev (?bs ! j))" if "j < NBUF + 1" for j
    unfolding a3 [OF that] a2 [OF that] a1 [OF that] by simp
  have rest: "b_dev (insert_new i ?bs ! j) = b_dev (?bs ! j)" "b_refcnt (insert_new i ?bs ! j) = b_refcnt (?bs ! j)"
      "b_data (insert_new i ?bs ! j) = b_data (?bs ! j)" "b_locked (insert_new i ?bs ! j) = (if j = i then 0 else b_locked (?bs ! j))"
    if "j < NBUF + 1" for j
    unfolding a3 [OF that] a2 [OF that] a1 [OF that] by simp_all
  have "linked (insert_new i ?bs) (NBUF # i # l @ [NBUF])"
  proof (rule link_front [OF assms(1,5)])
    show "NBUF \<notin> set l" "i \<notin> set l" "i \<noteq> NBUF" using assms(3,4) by simp_all
    show "set l \<subseteq> {..<NBUF + 1}" using assms(3,4) by auto
    show "i < NBUF + 1" "NBUF < NBUF + 1" using assms(4) by simp_all
    fix j
    assume "j < NBUF + 1"
    from nx [OF this] pv [OF this]
    show "b_next (insert_new i ?bs ! j) = (if j = NBUF then i else if j = i then hd (l @ [NBUF]) else b_next (?bs ! j))"
      "b_prev (insert_new i ?bs ! j) = (if j = hd (l @ [NBUF]) then i else if j = i then NBUF else b_prev (?bs ! j))"
      unfolding f .
  qed
  moreover have "blank_bufs (insert_new i ?bs)"
    using assms(2) rest by (simp add: blank_bufs_def new b2_def b1_def less_Suc_eq_le)
  ultimately show ?thesis using run by (intro exI [of _ ?t]) simp
qed

lemma binit_loop_ok:
  fixes s :: "'a kbio_scheme"
  assumes "linked (bufs s) (NBUF # rev [0..<k] @ [NBUF])" "blank_bufs (bufs s)" "k \<le> NBUF" "steady h s"
  shows "\<exists>t. binit_loop [k..<NBUF] s = t \<and> linked (bufs t) (NBUF # rev [0..<NBUF] @ [NBUF]) \<and> blank_bufs (bufs t) \<and>
     steady h t \<and> mypid h t = mypid h s \<and> disk t = disk s \<and> trace t = trace s \<and> kbio.more t = kbio.more s"
  using assms
proof (induction "NBUF - k" arbitrary: k s)
  case 0
  then show ?case by simp
next
  case (Suc m)
  then have k: "k < NBUF" "[k..<NBUF] = k # [Suc k..<NBUF]" by (simp_all add: upt_conv_Cons)
  have l: "set (rev [0..<k]) = {..<k}" "distinct (rev [0..<k])" by auto
  obtain t where t: "binit_loop (k # [Suc k..<NBUF]) s = binit_loop [Suc k..<NBUF] t"
    "linked (bufs t) (NBUF # (k # rev [0..<k]) @ [NBUF])" "blank_bufs (bufs t)"
    and ts: "t = (initlock (Buf_lock k) [115, 108, 101, 101, 112, 32, 108, 111, 99, 107] s)\<lparr>bufs := bufs t\<rparr>"
    using binit_step [OF Suc.prems(1,2) l(1) k(1) l(2)] by blast
  let ?u = "initlock (Buf_lock k) [115, 108, 101, 101, 112, 32, 108, 111, 99, 107] s"
  have "disk ?u = disk s" "trace ?u = trace s" "kbio.more ?u = kbio.more s" by (simp_all add: initlock_def upd_lock_def)
  with upd_buf_steady [where h = h and s = ?u and bs = "bufs t"] steady_initlock [OF Suc.prems(4)]
  have "steady h (?u\<lparr>bufs := bufs t\<rparr>) \<and> mypid h (?u\<lparr>bufs := bufs t\<rparr>) = mypid h s \<and> disk (?u\<lparr>bufs := bufs t\<rparr>) = disk s \<and>
    trace (?u\<lparr>bufs := bufs t\<rparr>) = trace s \<and> kbio.more (?u\<lparr>bufs := bufs t\<rparr>) = kbio.more s" by simp
  then have "steady h t" "mypid h t = mypid h s" "disk t = disk s" "trace t = trace s" "kbio.more t = kbio.more s"
    unfolding ts [symmetric] by blast+
  moreover have "linked (bufs t) (NBUF # rev [0..<Suc k] @ [NBUF])" using t(2) by simp
  ultimately show ?case
    using Suc.hyps(1) [of "Suc k" t] Suc.hyps(2) k t(1,3) by simp
qed

lemma binit_ok:
  fixes s :: "'a kbio_scheme"
  assumes "steady h s" "blank_bufs (bufs s)" "d \<noteq> 0" "\<forall>b. length (disk s b) = BSIZE"
  shows "cache_ok h d (binit s)"
    "cache_abs d (binit s) = \<lparr>c_held = Map.empty, c_view = disk s, c_disk = disk s, c_trace = trace s, c_refs = (\<lambda>_. 0)\<rparr>"
    "kbio.more (binit s) = kbio.more s"
proof -
  let ?s0 = "upd_buf NBUF (\<lambda>x. x\<lparr>b_next := NBUF\<rparr>) (upd_buf NBUF (\<lambda>x. x\<lparr>b_prev := NBUF\<rparr>)
    (initlock Bcache_lock [98, 99, 97, 99, 104, 101] s))"
  have len: "length (bufs s) = NBUF + 1" using assms(2) by (simp add: blank_bufs_def)
  then have b: "bufs ?s0 = (bufs s)[NBUF := (bufs s ! NBUF)\<lparr>b_prev := NBUF, b_next := NBUF\<rparr>]"
    by (simp add: upd_buf_def initlock_def upd_lock_def)
  have blank: "blank_bufs (bufs ?s0)" using assms(2) unfolding b blank_bufs_def by (auto simp: nth_list_update)
  have linked: "linked (bufs ?s0) (NBUF # rev [0..<0] @ [NBUF])" using len unfolding b by simp
  have rest: "steady h ?s0" "mypid h ?s0 = mypid h s" "disk ?s0 = disk s" "trace ?s0 = trace s" "kbio.more ?s0 = kbio.more s"
    using assms(1) by (simp_all add: upd_buf_def initlock_def upd_lock_def steady_def at_rest_def free_lock_def mypid_def)
  from binit_loop_ok [OF linked blank _ rest(1)] obtain t where t: "binit s = t"
    "linked (bufs t) (NBUF # rev [0..<NBUF] @ [NBUF])" "blank_bufs (bufs t)"
    "steady h t" "mypid h t = mypid h s" "disk t = disk s" "trace t = trace s" "kbio.more t = kbio.more s"
    using rest by (auto simp: binit_def Let_def)
  have B: "b_dev (bufs t ! i) = 0" "b_refcnt (bufs t ! i) = 0" "b_locked (bufs t ! i) = 0" "length (b_data (bufs t ! i)) = BSIZE"
    if "i < NBUF" for i using t(3) that by (simp_all add: blank_bufs_def)
  have "ring (bufs t) (rev [0..<NBUF])" using t(2,3) by (auto simp: ring_def blank_bufs_def)
  moreover have "uniq d (bufs t)" using B(1) assms(3) by (auto simp: uniq_def)
  moreover have "buf_ok d (mypid h t) (disk t) (bufs t ! i)" if "i < NBUF" for i
    using B [OF that] assms(3) by (simp add: buf_ok_def)
  ultimately show "cache_ok h d (binit s)"
    using t assms(4) by (auto simp: cache_ok_def bufs_ok_def)
  have "slot d (bufs t) bn = None" for bn using B(1) assms(3) by (auto simp: slot_None)
  then show "cache_abs d (binit s) = \<lparr>c_held = Map.empty, c_view = disk s, c_disk = disk s, c_trace = trace s, c_refs = (\<lambda>_. 0)\<rparr>"
    using t by (auto intro!: ext simp: cache_abs_def held_of_def view_of_def refs_of_def)
  show "kbio.more (binit s) = kbio.more s" using t by simp
qed

section \<open>The contract of the cache\<close>

text \<open>
  A client of the cache keeps the buffers it got by block number. \<open>Set\<close> is its change of the
  data of a buffer it holds.
\<close>

datatype cop = Read u32 | Set u32 "u8 list" | Write u32 | Release u32 | Pin u32 | Unpin u32

fun cache_op :: "nat \<Rightarrow> u32 \<Rightarrow> cop \<Rightarrow> (u32 \<rightharpoonup> nat) \<times> 'a kbio_scheme \<Rightarrow> ((u32 \<rightharpoonup> nat) \<times> 'a kbio_scheme) option" where
  "cache_op h d (Read bn) (K, s) = do { (i, s) \<leftarrow> bread h d bn s; Some (K(bn \<mapsto> i), s) }"
| "cache_op h d (Set bn x) (K, s) = do { i \<leftarrow> K bn; Some (K, upd_buf i (\<lambda>b. b\<lparr>b_data := x\<rparr>) s) }"
| "cache_op h d (Write bn) (K, s) = do { i \<leftarrow> K bn; s \<leftarrow> bwrite h i s; Some (K, s) }"
| "cache_op h d (Release bn) (K, s) = do { i \<leftarrow> K bn; s \<leftarrow> brelse h i s; Some (K(bn := None), s) }"
| "cache_op h d (Pin bn) (K, s) = do { i \<leftarrow> K bn; s \<leftarrow> bpin h i s; Some (K, s) }"
| "cache_op h d (Unpin bn) (K, s) = do { i \<leftarrow> K bn; s \<leftarrow> bunpin h i s; Some (K, s) }"

fun cache_run :: "nat \<Rightarrow> u32 \<Rightarrow> cop list \<Rightarrow> (u32 \<rightharpoonup> nat) \<times> 'a kbio_scheme \<Rightarrow> ((u32 \<rightharpoonup> nat) \<times> 'a kbio_scheme) option" where
  "cache_run h d [] ks = Some ks"
| "cache_run h d (c # cs) ks = do { ks \<leftarrow> cache_op h d c ks; cache_run h d cs ks }"

text \<open>The specification has no buffers: a set of blocks that are held, contents, and reference counts.\<close>

record cspec =
  s_held :: "u32 set"
  s_view :: "u32 \<Rightarrow> u8 list"
  s_disk :: "u32 \<Rightarrow> u8 list"
  s_trace :: "(u32 \<times> u8 list) list"
  s_refs :: "u32 \<Rightarrow> nat"

fun spec_op :: "cop \<Rightarrow> cspec \<Rightarrow> cspec option" where
  "spec_op (Read bn) a = (if bn \<notin> s_held a \<and> s_refs a bn + 1 < 2 ^ 32 \<and> (s_refs a bn \<noteq> 0 \<or> card {b. s_refs a b \<noteq> 0} < NBUF)
     then Some (a\<lparr>s_held := insert bn (s_held a), s_refs := (s_refs a)(bn := s_refs a bn + 1)\<rparr>) else None)"
| "spec_op (Set bn x) a = (if bn \<in> s_held a \<and> length x = BSIZE then Some (a\<lparr>s_view := (s_view a)(bn := x)\<rparr>) else None)"
| "spec_op (Write bn) a = (if bn \<in> s_held a
     then Some (a\<lparr>s_disk := (s_disk a)(bn := s_view a bn), s_trace := s_trace a @ [(bn, s_view a bn)]\<rparr>) else None)"
| "spec_op (Release bn) a = (if bn \<in> s_held a \<and> (1 < s_refs a bn \<or> s_view a bn = s_disk a bn)
     then Some (a\<lparr>s_held := s_held a - {bn}, s_refs := (s_refs a)(bn := s_refs a bn - 1)\<rparr>) else None)"
| "spec_op (Pin bn) a = (if bn \<in> s_held a \<and> s_refs a bn + 1 < 2 ^ 32
     then Some (a\<lparr>s_refs := (s_refs a)(bn := s_refs a bn + 1)\<rparr>) else None)"
| "spec_op (Unpin bn) a = (if bn \<in> s_held a \<and> 1 < s_refs a bn
     then Some (a\<lparr>s_refs := (s_refs a)(bn := s_refs a bn - 1)\<rparr>) else None)"

fun spec_run :: "cop list \<Rightarrow> cspec \<Rightarrow> cspec option" where
  "spec_run [] a = Some a"
| "spec_run (c # cs) a = do { a \<leftarrow> spec_op c a; spec_run cs a }"

definition seen :: "cview \<Rightarrow> cspec" where
  "seen c = \<lparr>s_held = dom (c_held c), s_view = c_view c, s_disk = c_disk c, s_trace = c_trace c, s_refs = c_refs c\<rparr>"

lemma cache_op_refines:
  fixes s :: "'a kbio_scheme"
  assumes "cache_ok h d s" "spec_op c (seen (cache_abs d s)) = Some a"
  shows "\<exists>s'. cache_op h d c (c_held (cache_abs d s), s) = Some (c_held (cache_abs d s'), s') \<and> cache_ok h d s' \<and>
     seen (cache_abs d s') = a"
proof (cases c)
  case (Read bn)
  then have "c_held (cache_abs d s) bn = None" "c_refs (cache_abs d s) bn + 1 < 2 ^ 32"
    "c_refs (cache_abs d s) bn \<noteq> 0 \<or> card {b. c_refs (cache_abs d s) b \<noteq> 0} < NBUF"
    using assms(2) by (auto simp: seen_def split: if_splits)
  from law_read [OF assms(1) this] assms(2) Read show ?thesis
    by (auto simp: seen_def a_read_def split: if_splits)
next
  case (Set bn x)
  then obtain i where i: "c_held (cache_abs d s) bn = Some i" "length x = BSIZE"
    using assms(2) by (auto simp: seen_def split: if_splits)
  from law_set [OF assms(1) i] assms(2) Set i(1) show ?thesis by (auto simp: seen_def a_set_def split: if_splits)
next
  case (Write bn)
  then obtain i where i: "c_held (cache_abs d s) bn = Some i" using assms(2) by (auto simp: seen_def split: if_splits)
  from law_write [OF assms(1) i] assms(2) Write i(1) show ?thesis by (auto simp: seen_def a_write_def split: if_splits)
next
  case (Release bn)
  then obtain i where i: "c_held (cache_abs d s) bn = Some i"
    "1 < c_refs (cache_abs d s) bn \<or> c_view (cache_abs d s) bn = c_disk (cache_abs d s) bn"
    using assms(2) by (auto simp: seen_def split: if_splits)
  from law_release [OF assms(1) i] assms(2) Release i(1) show ?thesis by (auto simp: seen_def a_release_def split: if_splits)
next
  case (Pin bn)
  then obtain i where i: "c_held (cache_abs d s) bn = Some i" "c_refs (cache_abs d s) bn + 1 < 2 ^ 32"
    using assms(2) by (auto simp: seen_def split: if_splits)
  from law_pin [OF assms(1) i] assms(2) Pin i(1) show ?thesis by (auto simp: seen_def a_pin_def split: if_splits)
next
  case (Unpin bn)
  then obtain i where i: "c_held (cache_abs d s) bn = Some i" "1 < c_refs (cache_abs d s) bn"
    using assms(2) by (auto simp: seen_def split: if_splits)
  from law_unpin [OF assms(1) i] assms(2) Unpin i(1) show ?thesis by (auto simp: seen_def a_unpin_def split: if_splits)
qed

lemma cache_run_refines:
  fixes s :: "'a kbio_scheme"
  assumes "cache_ok h d s" "spec_run cs (seen (cache_abs d s)) = Some a"
  shows "\<exists>s'. cache_run h d cs (c_held (cache_abs d s), s) = Some (c_held (cache_abs d s'), s') \<and> cache_ok h d s' \<and>
     seen (cache_abs d s') = a"
  using assms
proof (induction cs arbitrary: s)
  case (Cons c cs)
  then obtain a1 where a1: "spec_op c (seen (cache_abs d s)) = Some a1" "spec_run cs a1 = Some a"
    by (auto elim: bind_eq_SomeE)
  from cache_op_refines [OF Cons.prems(1) a1(1)] obtain s1 where
    "cache_op h d c (c_held (cache_abs d s), s) = Some (c_held (cache_abs d s1), s1)" "cache_ok h d s1"
    "seen (cache_abs d s1) = a1" by blast
  then show ?case using Cons.IH [of s1] a1(2) by simp
qed simp

definition fresh_cache :: "(u32 \<Rightarrow> u8 list) \<Rightarrow> (u32 \<times> u8 list) list \<Rightarrow> cspec" where
  "fresh_cache dk tr = \<lparr>s_held = {}, s_view = dk, s_disk = dk, s_trace = tr, s_refs = (\<lambda>_. 0)\<rparr>"

text \<open>
  C8. The block cache is what its header promises. After \<open>binit\<close>, any sequence of
  reads, changes, writes, releases, pins and unpins that the specification allows runs without a
  panic; a buffer that is held shows the current contents of its block, though buffers are recycled
  under it, and the device has exactly the blocks that were written, in the order of the writes.
\<close>

theorem cache_refinement:
  fixes s :: "'a kbio_scheme"
  assumes "steady h s" and "blank_bufs (bufs s)" and "d \<noteq> 0" and "\<forall>b. length (disk s b) = BSIZE"
    and "spec_run cs (fresh_cache (disk s) (trace s)) = Some a"
  shows "\<exists>K s'. cache_run h d cs (Map.empty, binit s) = Some (K, s') \<and> dom K = s_held a \<and>
     (\<forall>bn i. K bn = Some i \<longrightarrow> b_data (bufs s' ! i) = s_view a bn \<and> b_dev (bufs s' ! i) = d \<and> b_blockno (bufs s' ! i) = bn) \<and>
     disk s' = s_disk a \<and> trace s' = s_trace a"
proof -
  note boot = binit_ok [OF assms(1-4)]
  have "seen (cache_abs d (binit s)) = fresh_cache (disk s) (trace s)" "c_held (cache_abs d (binit s)) = Map.empty"
    by (simp_all add: boot(2) seen_def fresh_cache_def)
  with cache_run_refines [OF boot(1), of cs a] assms(5) obtain s' where
    run: "cache_run h d cs (Map.empty, binit s) = Some (c_held (cache_abs d s'), s')"
    and ok: "cache_ok h d s'" and a: "seen (cache_abs d s') = a" by auto
  have "dom (c_held (cache_abs d s')) = s_held a" "disk s' = s_disk a" "trace s' = s_trace a"
    "c_view (cache_abs d s') = s_view a" by (simp_all add: a [symmetric] seen_def, simp_all add: cache_abs_def)
  then show ?thesis using run cache_held [OF ok] by (intro exI [of _ "c_held (cache_abs d s')"] exI [of _ s']) simp
qed

definition empty_bufs :: "buf_s list" where
  "empty_bufs = replicate (NBUF + 1) \<lparr>b_valid = 0, b_dev = 0, b_blockno = 0, b_locked = 0, b_name = [], b_pid = 0, b_refcnt = 0,
     b_prev = 0, b_next = 0, b_data = replicate BSIZE 0\<rparr>"

text \<open>A hart that runs process 0 on a machine with an empty disk.\<close>

definition running :: "kproc \<Rightarrow> kproc" where
  "running s = s\<lparr>cpus := \<lambda>_. \<lparr>cproc = Some 0, noff = 0, intena = True, sie = True\<rparr>\<rparr>"

definition one_disk :: kbio where
  "one_disk = kproc.extend (running (kproc.truncate two_procs)) \<lparr>bufs = empty_bufs, disk = (\<lambda>_. replicate BSIZE 0), trace = []\<rparr>"

lemma one_disk_boot: "steady 0 one_disk" "blank_bufs (bufs one_disk)" "\<forall>b. length (disk one_disk b) = BSIZE"
proof -
  have "at_rest one_disk"
    by (simp add: at_rest_def one_disk_def running_def two_procs_def idle_kern_def free_lock_def NPROC_def kproc.defs)
  then show "steady 0 one_disk" by (simp add: steady_def one_disk_def running_def kproc.defs NPROC_def)
  show "blank_bufs (bufs one_disk)" "\<forall>b. length (disk one_disk b) = BSIZE"
    by (simp_all add: one_disk_def kproc.defs blank_bufs_def empty_bufs_def nth_Cons split: nat.split)
qed

text \<open>Block 5 is read, changed and written; then it is read again and changed in memory only.\<close>

definition sample_ops :: "cop list" where
  "sample_ops = [Read 5, Set 5 (replicate BSIZE 7), Write 5, Release 5, Read 5, Set 5 (replicate BSIZE 9)]"

theorem cache_refinement_witness:
  "\<exists>K s'. cache_run 0 1 sample_ops (Map.empty, binit one_disk) = Some (K, s') \<and> K \<noteq> Map.empty \<and>
     disk s' 5 = replicate BSIZE 7 \<and> trace s' = [(5, replicate BSIZE 7)]"
proof -
  let ?a = "\<lparr>s_held = {5}, s_view = (disk one_disk)(5 := replicate BSIZE 9), s_disk = (disk one_disk)(5 := replicate BSIZE 7),
    s_trace = trace one_disk @ [(5, replicate BSIZE 7)], s_refs = (\<lambda>_. 0)(5 := 1)\<rparr>"
  have "spec_run sample_ops (fresh_cache (disk one_disk) (trace one_disk)) = Some ?a"
    by (simp add: sample_ops_def fresh_cache_def BSIZE_def NBUF_def)
  from cache_refinement [OF one_disk_boot(1,2) one_neq_zero one_disk_boot(3) this]
  obtain K s' where "cache_run 0 1 sample_ops (Map.empty, binit one_disk) = Some (K, s')" "dom K = {5}"
    "disk s' = (disk one_disk)(5 := replicate BSIZE 7)" "trace s' = trace one_disk @ [(5, replicate BSIZE 7)]" by auto
  then show ?thesis by (intro exI [of _ K] exI [of _ s']) (auto simp: one_disk_def kproc.defs)
qed

text \<open>
  Who uses a block after a run of operations: its holder (\<open>Read\<close> to \<open>Release\<close>) and its pins
  (\<open>Pin\<close> to \<open>Unpin\<close>).
\<close>

fun users :: "cop list \<Rightarrow> u32 \<Rightarrow> int" where
  "users [] bn = 0"
| "users (Read b # cs) bn = (if b = bn then 1 else 0) + users cs bn"
| "users (Release b # cs) bn = users cs bn - (if b = bn then 1 else 0)"
| "users (Pin b # cs) bn = (if b = bn then 1 else 0) + users cs bn"
| "users (Unpin b # cs) bn = users cs bn - (if b = bn then 1 else 0)"
| "users (Set b x # cs) bn = users cs bn"
| "users (Write b # cs) bn = users cs bn"

lemma spec_users:
  "spec_run cs a = Some a' \<Longrightarrow> \<forall>b\<in>s_held a. 0 < s_refs a b \<Longrightarrow> int (s_refs a' bn) = int (s_refs a bn) + users cs bn"
proof (induction cs arbitrary: a)
  case (Cons c cs)
  then obtain a1 where a1: "spec_op c a = Some a1" "spec_run cs a1 = Some a'" by (auto simp: bind_eq_Some_conv)
  have "(\<forall>b\<in>s_held a1. 0 < s_refs a1 b) \<and> int (s_refs a1 bn) + users cs bn = int (s_refs a bn) + users (c # cs) bn"
    using a1(1) Cons.prems(2) by (cases c) (auto simp: of_nat_diff Suc_le_eq split: if_splits)
  then show ?case using Cons.IH [OF a1(2)] by simp
qed simp

text \<open>
  C9. Every sequence of operations that the specification allows keeps the cache well formed:
  the buffers form one ring through the head; each block is in at most one buffer; the reference count of a
  buffer is the number of users of its block, its holder and its pins, and every block with a user is in a buffer;
  a buffer is locked exactly when its block is held, it is then valid and its sleep lock belongs to the process that
  holds it; a buffer without users is unlocked, and it shows what the device has or its valid flag is
  clear (a pinned buffer may hold data that the device does not have yet).
\<close>

theorem cache_wellformed:
  fixes s :: "'a kbio_scheme"
  assumes "steady h s" and "blank_bufs (bufs s)" and "d \<noteq> 0" and "\<forall>b. length (disk s b) = BSIZE"
    and "spec_run cs (fresh_cache (disk s) (trace s)) = Some a"
  shows "\<exists>K s'. cache_run h d cs (Map.empty, binit s) = Some (K, s') \<and> steady h s' \<and>
     bufs_ok d (mypid h s') (disk s') (bufs s') \<and>
     (\<forall>i<NBUF. int (unat (b_refcnt (bufs s' ! i))) =
        (if b_dev (bufs s' ! i) = d then users cs (b_blockno (bufs s' ! i)) else 0)) \<and>
     (\<forall>bn. users cs bn \<noteq> 0 \<longrightarrow> (\<exists>i<NBUF. b_dev (bufs s' ! i) = d \<and> b_blockno (bufs s' ! i) = bn)) \<and>
     (\<forall>i<NBUF. b_locked (bufs s' ! i) \<noteq> 0 \<longleftrightarrow> b_dev (bufs s' ! i) = d \<and> b_blockno (bufs s' ! i) \<in> s_held a)"
proof -
  note boot = binit_ok [OF assms(1-4)]
  have "seen (cache_abs d (binit s)) = fresh_cache (disk s) (trace s)" "c_held (cache_abs d (binit s)) = Map.empty"
    by (simp_all add: boot(2) seen_def fresh_cache_def)
  with cache_run_refines [OF boot(1), of cs a] assms(5) obtain s' where
    run: "cache_run h d cs (Map.empty, binit s) = Some (c_held (cache_abs d s'), s')" and ok: "cache_ok h d s'"
    and a: "seen (cache_abs d s') = a" by auto
  have wf: "bufs_ok d (mypid h s') (disk s') (bufs s')" using ok by (simp add: cache_ok_def)
  then have u: "uniq d (bufs s')" and b: "buf_ok d (mypid h s') (disk s') (bufs s' ! i)" if "i < NBUF" for i
    using that by (simp_all add: bufs_ok_def)
  have "s_refs a = refs_of d (bufs s')" and held: "s_held a = dom (held_of d (bufs s'))"
    by (simp_all add: a [symmetric] seen_def cache_abs_def)
  with spec_users [OF assms(5)] have refs: "int (refs_of d (bufs s') bn) = users cs bn" for bn
    by (simp add: fresh_cache_def)
  have count: "int (unat (b_refcnt (bufs s' ! i))) = (if b_dev (bufs s' ! i) = d then users cs (b_blockno (bufs s' ! i)) else 0)"
    and lock: "b_locked (bufs s' ! i) \<noteq> 0 \<longleftrightarrow> b_dev (bufs s' ! i) = d \<and> b_blockno (bufs s' ! i) \<in> s_held a"
    if i: "i < NBUF" for i
  proof -
    have sl: "slot d (bufs s') (b_blockno (bufs s' ! i)) = Some i" if "b_dev (bufs s' ! i) = d"
      using slot_Some [OF u [OF i]] i that by blast
    show "int (unat (b_refcnt (bufs s' ! i))) = (if b_dev (bufs s' ! i) = d then users cs (b_blockno (bufs s' ! i)) else 0)"
      using sl b [OF i] refs [of "b_blockno (bufs s' ! i)"] by (auto simp: refs_of_def buf_ok_def)
    show "b_locked (bufs s' ! i) \<noteq> 0 \<longleftrightarrow> b_dev (bufs s' ! i) = d \<and> b_blockno (bufs s' ! i) \<in> s_held a"
      using sl b [OF i] by (auto simp: held held_of_def buf_ok_def dom_def split: option.splits if_splits)
  qed
  have "\<exists>i<NBUF. b_dev (bufs s' ! i) = d \<and> b_blockno (bufs s' ! i) = bn" if "users cs bn \<noteq> 0" for bn
    using that refs [of bn] by (auto simp: refs_of_def dest!: slot_in split: option.splits)
  then show ?thesis using run ok wf count lock
    by (intro exI [of _ "c_held (cache_abs d s')"] exI [of _ s']) (simp add: cache_ok_def)
qed

theorem cache_wellformed_witness:
  "\<exists>K s' i. cache_run 0 1 sample_ops (Map.empty, binit one_disk) = Some (K, s') \<and>
     bufs_ok 1 (mypid 0 s') (disk s') (bufs s') \<and> i < NBUF \<and> b_blockno (bufs s' ! i) = 5 \<and>
     b_refcnt (bufs s' ! i) \<noteq> 0 \<and> b_locked (bufs s' ! i) \<noteq> 0"
proof -
  let ?a = "\<lparr>s_held = {5}, s_view = (disk one_disk)(5 := replicate BSIZE 9), s_disk = (disk one_disk)(5 := replicate BSIZE 7),
    s_trace = trace one_disk @ [(5, replicate BSIZE 7)], s_refs = (\<lambda>_. 0)(5 := 1)\<rparr>"
  have "spec_run sample_ops (fresh_cache (disk one_disk) (trace one_disk)) = Some ?a"
    by (simp add: sample_ops_def fresh_cache_def BSIZE_def NBUF_def)
  from cache_wellformed [OF one_disk_boot(1,2) one_neq_zero one_disk_boot(3) this]
  obtain K s' where s': "cache_run 0 1 sample_ops (Map.empty, binit one_disk) = Some (K, s')"
    "bufs_ok 1 (mypid 0 s') (disk s') (bufs s')"
    "\<forall>i<NBUF. int (unat (b_refcnt (bufs s' ! i))) =
       (if b_dev (bufs s' ! i) = 1 then users sample_ops (b_blockno (bufs s' ! i)) else 0)"
    "\<forall>bn. users sample_ops bn \<noteq> 0 \<longrightarrow> (\<exists>i<NBUF. b_dev (bufs s' ! i) = 1 \<and> b_blockno (bufs s' ! i) = bn)"
    "\<forall>i<NBUF. b_locked (bufs s' ! i) \<noteq> 0 \<longleftrightarrow> b_dev (bufs s' ! i) = 1 \<and> b_blockno (bufs s' ! i) \<in> s_held ?a" by blast
  have one: "users sample_ops 5 = 1" by (simp add: sample_ops_def)
  then obtain i where i: "i < NBUF" "b_dev (bufs s' ! i) = 1" "b_blockno (bufs s' ! i) = 5" using s'(4) by force
  then have "int (unat (b_refcnt (bufs s' ! i))) = 1" "b_locked (bufs s' ! i) \<noteq> 0" using s'(3,5) one by simp_all
  then have "b_refcnt (bufs s' ! i) \<noteq> 0 \<and> b_locked (bufs s' ! i) \<noteq> 0" by auto
  then show ?thesis using s'(1,2) i by blast
qed

end
