(* ===== verification/Log.thy ===== *)
theory Log
  imports Bio
begin

text \<open>
  The redo log of the file system (\<open>kernel/log.c\<close>, the same file in \<open>lab2\<close> and \<open>lab3\<close>). The changes of a
  transaction stay in the block cache until \<open>commit\<close>, which writes them to the log, then the
  header of the log, then the blocks to their home locations. After a crash \<open>initlog\<close> repeats the
  last step from the log.

  A \<open>struct logheader\<close> in a block of the disk is a sequence of little-endian integers: \<open>n\<close>, then the block numbers.
  Reading or writing the array \<open>block\<close> of \<open>LOGSIZE\<close> entries out of range is \<^const>\<open>None\<close>.
\<close>

section \<open>State\<close>

definition MAXOPBLOCKS :: int where "MAXOPBLOCKS = 10"
definition LOGSIZE :: int where "LOGSIZE = MAXOPBLOCKS * 3"

record klog = kbio +
  lg_start :: int
  lg_size :: int
  lg_outstanding :: int
  lg_committing :: int
  lg_dev :: u32
  lh_n :: int
  lh_block :: "u32 list"

text \<open>The integer number \<open>k\<close> of a block, as \<open>struct logheader\<close> reads and writes it.\<close>

definition int_at :: "u8 list \<Rightarrow> nat \<Rightarrow> u32" where
  "int_at x k = le32_val (drop (4 * k) x)"

definition put_int :: "nat \<Rightarrow> u32 \<Rightarrow> u8 list \<Rightarrow> u8 list" where
  "put_int k w x = take (4 * k) x @ le32_bytes w @ drop (4 * k + 4) x"

section \<open>Reading and writing the log\<close>

definition log_block :: "'a klog_scheme \<Rightarrow> nat \<Rightarrow> u32" where
  "log_block s tail = word_of_int (lg_start s + int tail + 1)"

fun install_loop :: "nat \<Rightarrow> int \<Rightarrow> nat list \<Rightarrow> 'a klog_scheme \<Rightarrow> 'a klog_scheme option" where
  "install_loop h recovering [] s = Some s"
| "install_loop h recovering (tail # ts) s = do {
     (lbuf, s) \<leftarrow> bread h (lg_dev s) (log_block s tail) s;
     dst \<leftarrow> aget (lh_block s) tail;
     (dbuf, s) \<leftarrow> bread h (lg_dev s) dst s;
     l \<leftarrow> get_buf lbuf s;
     let s = upd_buf dbuf (\<lambda>b. b\<lparr>b_data := b_data l\<rparr>) s;
     s \<leftarrow> bwrite h dbuf s;
     s \<leftarrow> (if recovering = 0 then bunpin h dbuf s else Some s);
     s \<leftarrow> brelse h lbuf s;
     s \<leftarrow> brelse h dbuf s;
     install_loop h recovering ts s }"

definition install_trans :: "nat \<Rightarrow> int \<Rightarrow> 'a klog_scheme \<Rightarrow> 'a klog_scheme option" where
  "install_trans h recovering s = install_loop h recovering [0..<nat (lh_n s)] s"

fun read_head_loop :: "u8 list \<Rightarrow> nat list \<Rightarrow> 'a klog_scheme \<Rightarrow> 'a klog_scheme option" where
  "read_head_loop lh [] s = Some s"
| "read_head_loop lh (i # is) s = do {
     bl \<leftarrow> aset (lh_block s) i (int_at lh (i + 1));
     read_head_loop lh is (s\<lparr>lh_block := bl\<rparr>) }"

definition read_head :: "nat \<Rightarrow> 'a klog_scheme \<Rightarrow> 'a klog_scheme option" where
  "read_head h s = do {
     (buf, s) \<leftarrow> bread h (lg_dev s) (word_of_int (lg_start s)) s;
     lh \<leftarrow> get_buf buf s;
     let s = s\<lparr>lh_n := sint (int_at (b_data lh) 0)\<rparr>;
     s \<leftarrow> read_head_loop (b_data lh) [0..<nat (lh_n s)] s;
     brelse h buf s }"

fun write_head_loop :: "nat \<Rightarrow> nat list \<Rightarrow> 'a klog_scheme \<Rightarrow> 'a klog_scheme option" where
  "write_head_loop buf [] s = Some s"
| "write_head_loop buf (i # is) s = do {
     w \<leftarrow> aget (lh_block s) i;
     write_head_loop buf is (upd_buf buf (\<lambda>b. b\<lparr>b_data := put_int (i + 1) w (b_data b)\<rparr>) s) }"

definition write_head :: "nat \<Rightarrow> 'a klog_scheme \<Rightarrow> 'a klog_scheme option" where
  "write_head h s = do {
     (buf, s) \<leftarrow> bread h (lg_dev s) (word_of_int (lg_start s)) s;
     let s = upd_buf buf (\<lambda>b. b\<lparr>b_data := put_int 0 (word_of_int (lh_n s)) (b_data b)\<rparr>) s;
     s \<leftarrow> write_head_loop buf [0..<nat (lh_n s)] s;
     s \<leftarrow> bwrite h buf s;
     brelse h buf s }"

definition recover_from_log :: "nat \<Rightarrow> 'a klog_scheme \<Rightarrow> 'a klog_scheme option" where
  "recover_from_log h s = do {
     s \<leftarrow> read_head h s;
     s \<leftarrow> install_trans h 1 s;
     let s = s\<lparr>lh_n := 0\<rparr>;
     write_head h s }"

text \<open>\<open>initlog\<close> gets the start and the number of log blocks from the super block.\<close>

definition initlog :: "nat \<Rightarrow> u32 \<Rightarrow> u32 \<Rightarrow> u32 \<Rightarrow> 'a klog_scheme \<Rightarrow> 'a klog_scheme option" where
  "initlog h dev logstart nlog s =
     (let s = initlock Log_lock [108, 111, 103] s;
          s = s\<lparr>lg_start := sint logstart, lg_size := sint nlog, lg_dev := dev\<rparr>
      in recover_from_log h s)"

section \<open>Committing\<close>

fun write_log_loop :: "nat \<Rightarrow> nat list \<Rightarrow> 'a klog_scheme \<Rightarrow> 'a klog_scheme option" where
  "write_log_loop h [] s = Some s"
| "write_log_loop h (tail # ts) s = do {
     (to, s) \<leftarrow> bread h (lg_dev s) (log_block s tail) s;
     src \<leftarrow> aget (lh_block s) tail;
     (from_buf, s) \<leftarrow> bread h (lg_dev s) src s;
     f \<leftarrow> get_buf from_buf s;
     let s = upd_buf to (\<lambda>b. b\<lparr>b_data := b_data f\<rparr>) s;
     s \<leftarrow> bwrite h to s;
     s \<leftarrow> brelse h from_buf s;
     s \<leftarrow> brelse h to s;
     write_log_loop h ts s }"

definition write_log :: "nat \<Rightarrow> 'a klog_scheme \<Rightarrow> 'a klog_scheme option" where
  "write_log h s = write_log_loop h [0..<nat (lh_n s)] s"

definition commit :: "nat \<Rightarrow> 'a klog_scheme \<Rightarrow> 'a klog_scheme option" where
  "commit h s =
     (if 0 < lh_n s then do {
        s \<leftarrow> write_log h s;
        s \<leftarrow> write_head h s;
        s \<leftarrow> install_trans h 0 s;
        let s = s\<lparr>lh_n := 0\<rparr>;
        write_head h s }
      else Some s)"

section \<open>Transactions\<close>

text \<open>
  The loop of \<open>begin_op\<close>, entered with the lock held: the operation is admitted (\<open>Inr\<close>), or its process
  is asleep, on its way to the scheduler (\<open>Inl\<close>), and the loop goes on when it has been woken up.
\<close>

definition begin_loop :: "nat \<Rightarrow> 'a klog_scheme \<Rightarrow> ((nat + unit) \<times> 'a klog_scheme) option" where
  "begin_loop h s =
     (if lg_committing s \<noteq> 0 then do {
        (p, s) \<leftarrow> sleep_begin h (Some At_log) Log_lock s;
        Some (Inl p, s) }
      else if LOGSIZE < lh_n s + (lg_outstanding s + 1) * MAXOPBLOCKS then do {
        (p, s) \<leftarrow> sleep_begin h (Some At_log) Log_lock s;
        Some (Inl p, s) }
      else do {
        let s = s\<lparr>lg_outstanding := lg_outstanding s + 1\<rparr>;
        s \<leftarrow> release h Log_lock s;
        Some (Inr (), s) })"

definition begin_op :: "nat \<Rightarrow> 'a klog_scheme \<Rightarrow> ((nat + unit) \<times> 'a klog_scheme) option" where
  "begin_op h s = do {
     s \<leftarrow> acquire h Log_lock s;
     begin_loop h s }"

definition begin_again :: "nat \<Rightarrow> nat \<Rightarrow> bool \<Rightarrow> 'a klog_scheme \<Rightarrow> ((nat + unit) \<times> 'a klog_scheme) option" where
  "begin_again h p b s = do {
     s \<leftarrow> sleep_end h p Log_lock b s;
     begin_loop h s }"

definition end_op :: "nat \<Rightarrow> 'a klog_scheme \<Rightarrow> 'a klog_scheme option" where
  "end_op h s = do {
     s \<leftarrow> acquire h Log_lock s;
     let s = s\<lparr>lg_outstanding := lg_outstanding s - 1\<rparr>;
     assert_c (lg_committing s = 0);
     (do_commit, s) \<leftarrow> (if lg_outstanding s = 0 then Some (True, s\<lparr>lg_committing := 1\<rparr>)
                        else do { s \<leftarrow> wakeup h (Some At_log) s; Some (False, s) });
     s \<leftarrow> release h Log_lock s;
     if do_commit then do {
       s \<leftarrow> commit h s;
       s \<leftarrow> acquire h Log_lock s;
       let s = s\<lparr>lg_committing := 0\<rparr>;
       s \<leftarrow> wakeup h (Some At_log) s;
       release h Log_lock s }
     else Some s }"

text \<open>The position of a block in the log, or the end of the log.\<close>

fun log_find :: "u32 list \<Rightarrow> u32 \<Rightarrow> nat \<Rightarrow> nat list \<Rightarrow> nat" where
  "log_find bl b n [] = n"
| "log_find bl b n (i # is) = (if bl ! i = b then i else log_find bl b n is)"

definition log_write :: "nat \<Rightarrow> nat \<Rightarrow> 'a klog_scheme \<Rightarrow> 'a klog_scheme option" where
  "log_write h b s = do {
     s \<leftarrow> acquire h Log_lock s;
     assert_c (\<not> (LOGSIZE \<le> lh_n s \<or> lg_size s - 1 \<le> lh_n s));
     assert_c (\<not> lg_outstanding s < 1);
     x \<leftarrow> get_buf b s;
     let i = log_find (lh_block s) (b_blockno x) (nat (lh_n s)) [0..<nat (lh_n s)];
     bl \<leftarrow> aset (lh_block s) i (b_blockno x);
     let s = s\<lparr>lh_block := bl\<rparr>;
     s \<leftarrow> (if int i = lh_n s then do {
              s \<leftarrow> bpin h b s;
              Some (s\<lparr>lh_n := lh_n s + 1\<rparr>) }
            else Some s);
     release h Log_lock s }"

section \<open>Integers in a block\<close>

lemma length_put_int [simp]: "4 * k + 4 \<le> length x \<Longrightarrow> length (put_int k w x) = length x"
  by (simp add: put_int_def)

lemma le32_val_cong: "take 4 x = take 4 y \<Longrightarrow> 4 \<le> length x \<Longrightarrow> 4 \<le> length y \<Longrightarrow> le32_val x = le32_val y"
proof -
  assume t: "take 4 x = take 4 y" "4 \<le> length x" "4 \<le> length y"
  have "x ! i = y ! i" if "i < 4" for i using t that by (metis nth_take)
  then show ?thesis by (simp add: le32_val_def)
qed

lemma int_at_put [simp]:
  assumes "4 * k + 4 \<le> length x" "4 * j + 4 \<le> length x"
  shows "int_at (put_int k w x) j = (if j = k then w else int_at x j)"
proof -
  have "take 4 (drop (4 * j) (put_int k w x)) = (if j = k then le32_bytes w else take 4 (drop (4 * j) x))"
  proof (rule nth_equalityI)
    show "length (take 4 (drop (4 * j) (put_int k w x))) = length (if j = k then le32_bytes w else take 4 (drop (4 * j) x))"
      using assms by simp
    fix i
    assume "i < length (take 4 (drop (4 * j) (put_int k w x)))"
    then have i: "i < 4" by simp
    consider "j < k" | "j = k" | "k < j" by linarith
    then show "take 4 (drop (4 * j) (put_int k w x)) ! i = (if j = k then le32_bytes w else take 4 (drop (4 * j) x)) ! i"
    proof cases
      case 1
      then show ?thesis using assms i by (simp add: put_int_def nth_append)
    next
      case 2
      then show ?thesis using assms i by (simp add: put_int_def nth_append)
    next
      case 3
      then have "4 * j + i - (4 * k + 4) + (4 * k + 4) = 4 * j + i" using i by simp
      then show ?thesis using 3 assms i by (simp add: put_int_def nth_append add.commute)
    qed
  qed
  moreover have "le32_val (le32_bytes w @ y) = w" for y
    using le32_val_cong [of "le32_bytes w @ y" "le32_bytes w"] by simp
  ultimately show ?thesis
    using assms le32_val_cong [of "drop (4 * j) (put_int k w x)" "if j = k then le32_bytes w else drop (4 * j) x"]
    by (auto simp: int_at_def split: if_splits)
qed

text \<open>The header block as \<open>write_head\<close> makes it.\<close>

definition header :: "int \<Rightarrow> u32 list \<Rightarrow> u8 list \<Rightarrow> u8 list" where
  "header n bl x = fold (\<lambda>j. put_int (j + 1) (bl ! j)) [0..<nat n] (put_int 0 (word_of_int n) x)"

lemma header_fold:
  "4 * m + 4 \<le> length x \<Longrightarrow> length (fold (\<lambda>j. put_int (j + 1) (bl ! j)) [0..<m] x) = length x \<and>
     (\<forall>i. 4 * i + 4 \<le> length x \<longrightarrow> int_at (fold (\<lambda>j. put_int (j + 1) (bl ! j)) [0..<m] x) i =
        (if 0 < i \<and> i \<le> m then bl ! (i - 1) else int_at x i))"
proof (induction m)
  case (Suc m)
  let ?y = "fold (\<lambda>j. put_int (j + 1) (bl ! j)) [0..<m] x"
  have y: "length ?y = length x" "\<And>i. 4 * i + 4 \<le> length x \<Longrightarrow> int_at ?y i = (if 0 < i \<and> i \<le> m then bl ! (i - 1) else int_at x i)"
    using Suc by simp_all
  have "int_at (put_int (m + 1) (bl ! m) ?y) i = (if 0 < i \<and> i \<le> Suc m then bl ! (i - 1) else int_at x i)"
    if "4 * i + 4 \<le> length x" for i
    using that y Suc.prems by (simp add: le_Suc_eq)
  then show ?case using y(1) Suc.prems by simp
qed simp

lemma header_ints:
  assumes "0 \<le> n" "n \<le> LOGSIZE" "length x = BSIZE"
  shows "length (header n bl x) = BSIZE" "int_at (header n bl x) 0 = word_of_int n"
    "j < nat n \<Longrightarrow> int_at (header n bl x) (j + 1) = bl ! j"
proof -
  have n: "nat n \<le> 30" using assms(2) by (simp add: LOGSIZE_def MAXOPBLOCKS_def)
  let ?x = "put_int 0 (word_of_int n) x"
  have x: "length ?x = BSIZE" "int_at ?x 0 = word_of_int n" using assms(3) by (simp_all add: BSIZE_def)
  have "4 * nat n + 4 \<le> length ?x" using n x(1) by (simp add: BSIZE_def)
  note H = header_fold [OF this, of bl]
  show "length (header n bl x) = BSIZE" "int_at (header n bl x) 0 = word_of_int n"
    using H x by (simp_all add: header_def BSIZE_def)
  show "j < nat n \<Longrightarrow> int_at (header n bl x) (j + 1) = bl ! j"
    using H x(1) n by (simp add: header_def BSIZE_def)
qed

section \<open>The operations of the cache under the log\<close>

lemma same_more:
  fixes s s' :: "'a klog_scheme"
  assumes "kbio.more s' = kbio.more s"
  shows "lg_start s' = lg_start s" "lg_size s' = lg_size s" "lg_outstanding s' = lg_outstanding s"
    "lg_committing s' = lg_committing s" "lg_dev s' = lg_dev s" "lh_n s' = lh_n s" "lh_block s' = lh_block s"
  using assms by (cases s; cases s'; simp)+

lemma log_fields [simp]:
  fixes s :: "'a klog_scheme"
  shows "cache_ok h d (s\<lparr>lh_n := n\<rparr>) = cache_ok h d s" "cache_abs d (s\<lparr>lh_n := n\<rparr>) = cache_abs d s"
    "cache_ok h d (s\<lparr>lh_block := bl\<rparr>) = cache_ok h d s" "cache_abs d (s\<lparr>lh_block := bl\<rparr>) = cache_abs d s"
    "cache_ok h d (s\<lparr>lg_outstanding := n\<rparr>) = cache_ok h d s" "cache_abs d (s\<lparr>lg_outstanding := n\<rparr>) = cache_abs d s"
    "cache_ok h d (s\<lparr>lg_committing := n\<rparr>) = cache_ok h d s" "cache_abs d (s\<lparr>lg_committing := n\<rparr>) = cache_abs d s"
  by (simp_all add: cache_ok_def cache_abs_def steady_def at_rest_def free_lock_def mypid_def)

lemma room_for:
  assumes "card (insert (a :: 'a :: finite) S) \<le> N"
  shows "a \<in> S \<or> card S < N"
  using assms card_insert_if [of S a] by (auto simp: card_insert_if split: if_splits)

text \<open>Two blocks are read, one is overwritten with the other, written and both are released.\<close>

lemma read_two:
  fixes s :: "'a kbio_scheme"
  assumes "cache_ok h d s" "a \<noteq> b" "c_held (cache_abs d s) a = None" "c_held (cache_abs d s) b = None"
    and "c_refs (cache_abs d s) a \<le> 1" "c_refs (cache_abs d s) b \<le> 1"
    and "card (insert a (insert b {x. c_refs (cache_abs d s) x \<noteq> 0})) \<le> NBUF"
  shows "\<exists>i j s1 s2. bread h d a s = Some (i, s1) \<and> bread h d b s1 = Some (j, s2) \<and> cache_ok h d s2 \<and>
     cache_abs d s2 = a_read b j (a_read a i (cache_abs d s)) \<and> kbio.more s1 = kbio.more s \<and> kbio.more s2 = kbio.more s"
proof -
  let ?c = "cache_abs d s" and ?S = "{x. c_refs (cache_abs d s) x \<noteq> 0}"
  have "card (insert a ?S) \<le> card (insert a (insert b ?S))" by (intro card_mono) auto
  then have "a \<in> ?S \<or> card ?S < NBUF" using assms(7) by (intro room_for) linarith
  then obtain i s1 where s1: "bread h d a s = Some (i, s1)" "cache_ok h d s1" "cache_abs d s1 = a_read a i ?c"
    "kbio.more s1 = kbio.more s"
    using law_read [OF assms(1,3)] assms(5) by fastforce
  have S1: "{x. c_refs (cache_abs d s1) x \<noteq> 0} = insert a ?S" by (auto simp: s1(3) a_read_def)
  have "b \<in> insert a ?S \<or> card (insert a ?S) < NBUF" using assms(7) by (intro room_for) (simp add: insert_commute)
  then have room: "c_refs (cache_abs d s1) b \<noteq> 0 \<or> card {x. c_refs (cache_abs d s1) x \<noteq> 0} < NBUF" unfolding S1 using S1 by auto
  have "c_held (cache_abs d s1) b = None" "c_refs (cache_abs d s1) b + 1 < 2 ^ 32"
    using assms(2,4,6) by (simp_all add: s1(3) a_read_def)
  from law_read [OF s1(2) this room] obtain j s2 where s2: "bread h d b s1 = Some (j, s2)" "cache_ok h d s2"
    "cache_abs d s2 = a_read b j (cache_abs d s1)" "kbio.more s2 = kbio.more s1" by blast
  then show ?thesis using s1 by auto
qed

lemma copy_write:
  fixes s :: "'a kbio_scheme"
  assumes "cache_ok h d s" "c_held (cache_abs d s) src = Some i" "c_held (cache_abs d s) dst = Some j"
  shows "\<exists>x s'. get_buf i s = Some x \<and> bwrite h j (upd_buf j (\<lambda>b. b\<lparr>b_data := b_data x\<rparr>) s) = Some s' \<and> cache_ok h d s' \<and>
     cache_abs d s' = a_write dst (a_set dst (c_view (cache_abs d s) src) (cache_abs d s)) \<and> kbio.more s' = kbio.more s"
proof -
  note H = cache_held [OF assms(1,2)]
  have x: "get_buf i s = Some (bufs s ! i)" "length (b_data (bufs s ! i)) = BSIZE"
    using H(3,12) by (simp_all add: get_buf_def buf_ok_def)
  note set = law_set [OF assms(1,3) x(2)]
  have "c_held (cache_abs d (upd_buf j (\<lambda>b. b\<lparr>b_data := b_data (bufs s ! i)\<rparr>) s)) dst = Some j"
    using assms(3) by (simp add: set(2) a_set_def)
  from law_write [OF set(1) this] x(1) show ?thesis using set(2,3) H(10) by auto
qed

text \<open>A block is written from another: what the file system sees afterwards.\<close>

definition a_copy :: "u32 \<Rightarrow> u8 list \<Rightarrow> cview \<Rightarrow> cview" where
  "a_copy dst x c = c\<lparr>c_view := (c_view c)(dst := x), c_disk := (c_disk c)(dst := x), c_trace := c_trace c @ [(dst, x)]\<rparr>"

lemma install_step:
  fixes s :: "'a klog_scheme" and t :: nat
  defines "d \<equiv> lg_dev s" and "c \<equiv> cache_abs (lg_dev s) s" and "src \<equiv> log_block s t" and "dst \<equiv> lh_block s ! t"
  assumes ok: "cache_ok h d s" and t: "t < length (lh_block s)" and ne: "src \<noteq> dst"
    and held: "c_held c src = None" "c_held c dst = None"
    and refs: "c_refs c src = 0" "c_refs c dst = (if r = 0 then 1 else 0)" and clean: "c_view c src = c_disk c src"
    and room: "card (insert src (insert dst {x. c_refs c x \<noteq> 0})) \<le> NBUF"
  shows "\<exists>s'. install_loop h r (t # ts) s = install_loop h r ts s' \<and> cache_ok h d s' \<and>
     cache_abs d s' = (a_copy dst (c_view c src) c)\<lparr>c_refs := (c_refs c)(dst := 0)\<rparr> \<and> kbio.more s' = kbio.more s"
proof -
  have "c_refs (cache_abs d s) src \<le> 1" "c_refs (cache_abs d s) dst \<le> 1" using refs by (simp_all add: c_def d_def)
  from read_two [OF ok ne _ _ this] held room obtain i j s1 s2 where
    r: "bread h d src s = Some (i, s1)" "bread h d dst s1 = Some (j, s2)" "cache_ok h d s2"
    and c2: "cache_abs d s2 = a_read dst j (a_read src i c)" and m: "kbio.more s1 = kbio.more s" "kbio.more s2 = kbio.more s"
    by (auto simp: c_def d_def)
  have "c_held (cache_abs d s2) src = Some i" "c_held (cache_abs d s2) dst = Some j" using ne by (simp_all add: c2 a_read_def)
  from copy_write [OF r(3) this] obtain x s3 where
    w: "get_buf i s2 = Some x" "bwrite h j (upd_buf j (\<lambda>b. b\<lparr>b_data := b_data x\<rparr>) s2) = Some s3" "cache_ok h d s3"
    and c3: "cache_abs d s3 = a_write dst (a_set dst (c_view c src) (a_read dst j (a_read src i c)))" and m3: "kbio.more s3 = kbio.more s"
    using m(2) by (auto simp: c2 a_read_def)
  have "\<exists>s4. (if r = 0 then bunpin h j s3 else Some s3) = Some s4 \<and> cache_ok h d s4 \<and>
      cache_abs d s4 = (cache_abs d s3)\<lparr>c_refs := (c_refs c)(src := 1, dst := 1)\<rparr> \<and> kbio.more s4 = kbio.more s"
  proof (cases "r = 0")
    case True
    have "c_held (cache_abs d s3) dst = Some j" "1 < c_refs (cache_abs d s3) dst"
      using ne refs(2) True by (simp_all add: c3 a_defs)
    from law_unpin [OF w(3) this] True m3 refs ne show ?thesis
      by (auto simp: c3 a_defs intro!: ext)
  next
    case False
    have "(c_refs c)(src := 1, dst := 1) = c_refs (cache_abs d s3)" using False refs ne by (auto simp: c3 a_defs intro!: ext)
    then show ?thesis using False w(3) m3 by simp
  qed
  then obtain s4 where u: "(if r = 0 then bunpin h j s3 else Some s3) = Some s4" "cache_ok h d s4"
    and c4: "cache_abs d s4 = (cache_abs d s3)\<lparr>c_refs := (c_refs c)(src := 1, dst := 1)\<rparr>" and m4: "kbio.more s4 = kbio.more s" by blast
  have "c_held (cache_abs d s4) src = Some i" "c_view (cache_abs d s4) src = c_disk (cache_abs d s4) src"
    using ne clean by (simp_all add: c4 c3 a_defs)
  from law_release [OF u(2) this(1) disjI2 [OF this(2)]] obtain s5 where v: "brelse h i s4 = Some s5" "cache_ok h d s5"
    and c5: "cache_abs d s5 = a_release src (cache_abs d s4)" and m5: "kbio.more s5 = kbio.more s" using m4 by auto
  have "c_held (cache_abs d s5) dst = Some j" "c_view (cache_abs d s5) dst = c_disk (cache_abs d s5) dst"
    using ne by (simp_all add: c5 c4 c3 a_defs)
  from law_release [OF v(2) this(1) disjI2 [OF this(2)]] obtain s6 where z: "brelse h j s5 = Some s6" "cache_ok h d s6"
    and c6: "cache_abs d s6 = a_release dst (cache_abs d s5)" and m6: "kbio.more s6 = kbio.more s" using m5 by auto
  have "aget (lh_block s) t = Some dst" using t by (simp add: dst_def)
  then have "install_loop h r (t # ts) s = install_loop h r ts s6"
    using r(1,2) w(1,2) u(1) v(1) z(1) same_more(5,7) [OF m(1)]
    by (simp add: d_def [symmetric] src_def [symmetric] dst_def [symmetric] del: aget_Some)
  moreover have "cache_abs d s6 = (a_copy dst (c_view c src) c)\<lparr>c_refs := (c_refs c)(dst := 0)\<rparr>"
  proof -
    have e: "((c_held c)(src \<mapsto> i, dst \<mapsto> j))(src := None, dst := None) = c_held c"
      "((c_refs c)(src := 1, dst := 1))(src := 0, dst := 0) = (c_refs c)(dst := 0)"
      using held refs(1) ne by (auto intro!: ext)
    have "c_held (cache_abs d s6) = c_held c" "c_refs (cache_abs d s6) = (c_refs c)(dst := 0)"
      using ne e by (simp_all add: c6 c5 c4 c3 a_defs)
    moreover have "c_view (cache_abs d s6) = (c_view c)(dst := c_view c src)" "c_disk (cache_abs d s6) = (c_disk c)(dst := c_view c src)"
      "c_trace (cache_abs d s6) = c_trace c @ [(dst, c_view c src)]" by (simp_all add: c6 c5 c4 c3 a_defs)
    ultimately show ?thesis by (simp add: a_copy_def)
  qed
  ultimately show ?thesis using z(2) m6 by blast
qed

lemma write_log_step:
  fixes s :: "'a klog_scheme" and t :: nat
  defines "d \<equiv> lg_dev s" and "c \<equiv> cache_abs (lg_dev s) s" and "dst \<equiv> log_block s t" and "src \<equiv> lh_block s ! t"
  assumes ok: "cache_ok h d s" and t: "t < length (lh_block s)" and ne: "dst \<noteq> src"
    and held: "c_held c dst = None" "c_held c src = None"
    and refs: "c_refs c dst = 0" "c_refs c src = 1"
    and room: "card (insert dst (insert src {x. c_refs c x \<noteq> 0})) \<le> NBUF"
  shows "\<exists>s'. write_log_loop h (t # ts) s = write_log_loop h ts s' \<and> cache_ok h d s' \<and>
     cache_abs d s' = a_copy dst (c_view c src) c \<and> kbio.more s' = kbio.more s"
proof -
  have "c_refs (cache_abs d s) dst \<le> 1" "c_refs (cache_abs d s) src \<le> 1" using refs by (simp_all add: c_def d_def)
  from read_two [OF ok ne _ _ this] held room obtain i j s1 s2 where
    r: "bread h d dst s = Some (i, s1)" "bread h d src s1 = Some (j, s2)" "cache_ok h d s2"
    and c2: "cache_abs d s2 = a_read src j (a_read dst i c)" and m: "kbio.more s1 = kbio.more s" "kbio.more s2 = kbio.more s"
    by (auto simp: c_def d_def)
  have "c_held (cache_abs d s2) src = Some j" "c_held (cache_abs d s2) dst = Some i" using ne by (simp_all add: c2 a_read_def)
  from copy_write [OF r(3) this] obtain x s3 where
    w: "get_buf j s2 = Some x" "bwrite h i (upd_buf i (\<lambda>b. b\<lparr>b_data := b_data x\<rparr>) s2) = Some s3" "cache_ok h d s3"
    and c3: "cache_abs d s3 = a_write dst (a_set dst (c_view c src) (a_read src j (a_read dst i c)))" and m3: "kbio.more s3 = kbio.more s"
    using m(2) by (auto simp: c2 a_read_def)
  have "c_held (cache_abs d s3) src = Some j" "1 < c_refs (cache_abs d s3) src"
    using ne refs by (simp_all add: c3 a_defs)
  from law_release [OF w(3) this(1) disjI1 [OF this(2)]] obtain s4 where v: "brelse h j s3 = Some s4" "cache_ok h d s4"
    and c4: "cache_abs d s4 = a_release src (cache_abs d s3)" and m4: "kbio.more s4 = kbio.more s" using m3 by auto
  have "c_held (cache_abs d s4) dst = Some i" "c_view (cache_abs d s4) dst = c_disk (cache_abs d s4) dst"
    using ne by (simp_all add: c4 c3 a_defs)
  from law_release [OF v(2) this(1) disjI2 [OF this(2)]] obtain s5 where z: "brelse h i s4 = Some s5" "cache_ok h d s5"
    and c5: "cache_abs d s5 = a_release dst (cache_abs d s4)" and m5: "kbio.more s5 = kbio.more s" using m4 by auto
  have "aget (lh_block s) t = Some src" using t by (simp add: src_def)
  then have "write_log_loop h (t # ts) s = write_log_loop h ts s5"
    using r(1,2) w(1,2) v(1) z(1) same_more(5,7) [OF m(1)]
    by (simp add: d_def [symmetric] src_def [symmetric] dst_def [symmetric] del: aget_Some)
  moreover have "cache_abs d s5 = a_copy dst (c_view c src) c"
  proof -
    have e: "((c_held c)(dst \<mapsto> i, src \<mapsto> j))(src := None, dst := None) = c_held c"
      "((c_refs c)(dst := 1, src := 2))(src := 1, dst := 0) = c_refs c"
      using held refs ne by (auto intro!: ext)
    have "c_held (cache_abs d s5) = c_held c" "c_refs (cache_abs d s5) = c_refs c"
      using ne e refs by (simp_all add: c5 c4 c3 a_defs)
    moreover have "c_view (cache_abs d s5) = (c_view c)(dst := c_view c src)" "c_disk (cache_abs d s5) = (c_disk c)(dst := c_view c src)"
      "c_trace (cache_abs d s5) = c_trace c @ [(dst, c_view c src)]" by (simp_all add: c5 c4 c3 a_defs)
    ultimately show ?thesis by (simp add: a_copy_def)
  qed
  ultimately show ?thesis using z(2) m5 by blast
qed

section \<open>Sequences of writes\<close>

definition replay :: "(u32 \<times> u8 list) list \<Rightarrow> (u32 \<Rightarrow> u8 list) \<Rightarrow> u32 \<Rightarrow> u8 list" where
  "replay = fold (\<lambda>(b, x) dk. dk(b := x))"

lemma replay_simps [simp]: "replay [] dk = dk" "replay ((b, x) # tr) dk = replay tr (dk(b := x))"
  by (simp_all add: replay_def)

lemma replay_append [simp]: "replay (tr @ tr') dk = replay tr' (replay tr dk)"
  by (simp add: replay_def)

lemma replay_other: "b \<notin> fst ` set tr \<Longrightarrow> replay tr dk b = dk b"
  by (induction tr arbitrary: dk) auto

lemma replay_from: "b \<in> fst ` set tr \<Longrightarrow> replay tr dk b = replay tr dk' b"
proof (induction tr arbitrary: dk dk')
  case (Cons x tr)
  obtain a y where x: "x = (a, y)" by force
  show ?case
  proof (cases "b \<in> fst ` set tr")
    case True
    then show ?thesis using Cons.IH [OF True] by (simp add: x)
  next
    case False
    then show ?thesis using Cons.prems by (simp add: x replay_other)
  qed
qed simp

lemma replay_map:
  assumes "\<And>t. t \<in> set ts \<Longrightarrow> f t = b \<Longrightarrow> g t = x" "b \<in> f ` set ts"
  shows "replay (map (\<lambda>t. (f t, g t)) ts) dk b = x"
  using assms
proof (induction ts arbitrary: dk)
  case (Cons t ts)
  show ?case
  proof (cases "b \<in> f ` set ts")
    case True
    then show ?thesis using Cons.IH Cons.prems(1) by simp
  next
    case False
    then have "b = f t" "b \<notin> fst ` set (map (\<lambda>t. (f t, g t)) ts)" using Cons.prems(2) by auto
    then show ?thesis using Cons.prems(1) [of t] by (simp add: replay_other)
  qed
qed simp

definition a_copies :: "(u32 \<times> u8 list) list \<Rightarrow> cview \<Rightarrow> cview" where
  "a_copies tr c = c\<lparr>c_view := replay tr (c_view c), c_disk := replay tr (c_disk c), c_trace := c_trace c @ tr\<rparr>"

lemma a_copies_simps [simp]:
  "c_held (a_copies tr c) = c_held c" "c_view (a_copies tr c) = replay tr (c_view c)" "c_disk (a_copies tr c) = replay tr (c_disk c)"
  "c_trace (a_copies tr c) = c_trace c @ tr" "c_refs (a_copies tr c) = c_refs c"
  by (simp_all add: a_copies_def)

lemma install_run:
  fixes s :: "'a klog_scheme"
  assumes "cache_ok h (lg_dev s) s" "c_held (cache_abs (lg_dev s) s) = Map.empty"
    and "\<forall>t\<in>set ts. t < length (lh_block s) \<and> c_refs (cache_abs (lg_dev s) s) (log_block s t) = 0 \<and>
       c_view (cache_abs (lg_dev s) s) (log_block s t) = c_disk (cache_abs (lg_dev s) s) (log_block s t) \<and>
       c_refs (cache_abs (lg_dev s) s) (lh_block s ! t) = (if r = 0 then 1 else 0) \<and> (\<forall>u\<in>set ts. log_block s t \<noteq> lh_block s ! u)"
    and "r = 0 \<Longrightarrow> distinct (map (\<lambda>t. lh_block s ! t) ts)"
    and "card {x. c_refs (cache_abs (lg_dev s) s) x \<noteq> 0} + (if r = 0 then 1 else 2) \<le> NBUF"
  shows "\<exists>s'. install_loop h r ts s = Some s' \<and> cache_ok h (lg_dev s) s' \<and>
     cache_abs (lg_dev s) s' = (a_copies (map (\<lambda>t. (lh_block s ! t, c_view (cache_abs (lg_dev s) s) (log_block s t))) ts) (cache_abs (lg_dev s) s))
       \<lparr>c_refs := \<lambda>b. if b \<in> (\<lambda>t. lh_block s ! t) ` set ts then 0 else c_refs (cache_abs (lg_dev s) s) b\<rparr> \<and>
     kbio.more s' = kbio.more s"
  using assms
proof (induction ts arbitrary: s)
  case Nil
  then show ?case by (simp add: a_copies_def)
next
  case (Cons t ts)
  let ?c = "cache_abs (lg_dev s) s" and ?src = "log_block s t" and ?dst = "lh_block s ! t"
  let ?S = "{x. c_refs ?c x \<noteq> 0}"
  have t: "t < length (lh_block s)" "?src \<noteq> ?dst" "c_refs ?c ?src = 0" "c_view ?c ?src = c_disk ?c ?src"
    "c_refs ?c ?dst = (if r = 0 then 1 else 0)" using Cons.prems(3) by simp_all
  have "card (insert ?src (insert ?dst ?S)) \<le> NBUF"
    using Cons.prems(5) t(5) card_insert_le_m1 [of "NBUF - 1" ?S ?dst] card_insert_le_m1 [of NBUF "insert ?dst ?S" ?src]
      card_insert_if [of ?S ?dst] by (auto simp: card_insert_if split: if_splits)
  from install_step [OF Cons.prems(1) t(1,2) _ _ t(3,5,4) this, of ts] Cons.prems(2) obtain s1 where
    s1: "install_loop h r (t # ts) s = install_loop h r ts s1" "cache_ok h (lg_dev s) s1" "kbio.more s1 = kbio.more s"
    and c1: "cache_abs (lg_dev s) s1 = (a_copy ?dst (c_view ?c ?src) ?c)\<lparr>c_refs := (c_refs ?c)(?dst := 0)\<rparr>" by auto
  have m: "lg_dev s1 = lg_dev s" "lh_block s1 = lh_block s" "log_block s1 = log_block s"
    using same_more [OF s1(3)] by (simp_all add: log_block_def fun_eq_iff)
  have neq: "log_block s u \<noteq> ?dst" if "u \<in> set ts" for u using Cons.prems(3) that by auto
  have c1s: "c_held (cache_abs (lg_dev s) s1) = Map.empty" "c_view (cache_abs (lg_dev s) s1) = (c_view ?c)(?dst := c_view ?c ?src)"
    "c_disk (cache_abs (lg_dev s) s1) = (c_disk ?c)(?dst := c_view ?c ?src)" "c_refs (cache_abs (lg_dev s) s1) = (c_refs ?c)(?dst := 0)"
    using Cons.prems(2) by (simp_all add: c1 a_copy_def)
  have "\<exists>s'. install_loop h r ts s1 = Some s' \<and> cache_ok h (lg_dev s1) s' \<and>
     cache_abs (lg_dev s1) s' = (a_copies (map (\<lambda>t. (lh_block s1 ! t, c_view (cache_abs (lg_dev s1) s1) (log_block s1 t))) ts) (cache_abs (lg_dev s1) s1))
       \<lparr>c_refs := \<lambda>b. if b \<in> (\<lambda>t. lh_block s1 ! t) ` set ts then 0 else c_refs (cache_abs (lg_dev s1) s1) b\<rparr> \<and>
     kbio.more s' = kbio.more s1"
  proof (rule Cons.IH)
    show "cache_ok h (lg_dev s1) s1" "c_held (cache_abs (lg_dev s1) s1) = Map.empty" using s1(2) c1s(1) m(1) by simp_all
    show "r = 0 \<Longrightarrow> distinct (map (\<lambda>t. lh_block s1 ! t) ts)" using Cons.prems(4) m(2) by simp
    have "card {x. c_refs (cache_abs (lg_dev s) s1) x \<noteq> 0} \<le> card ?S" by (intro card_mono) (auto simp: c1s(4) split: if_splits)
    then show "card {x. c_refs (cache_abs (lg_dev s1) s1) x \<noteq> 0} + (if r = 0 then 1 else 2) \<le> NBUF" using Cons.prems(5) m(1) by simp
    have "lh_block s ! u \<noteq> ?dst \<or> r \<noteq> 0" if "u \<in> set ts" for u proof (cases "r = 0")
      case True
      then have "lh_block s ! t \<notin> (\<lambda>t. lh_block s ! t) ` set ts" using Cons.prems(4) by simp
      then have "lh_block s ! u \<noteq> ?dst" using that by (metis imageI)
      then show ?thesis by simp
    qed simp
    then show "\<forall>t\<in>set ts. t < length (lh_block s1) \<and> c_refs (cache_abs (lg_dev s1) s1) (log_block s1 t) = 0 \<and>
       c_view (cache_abs (lg_dev s1) s1) (log_block s1 t) = c_disk (cache_abs (lg_dev s1) s1) (log_block s1 t) \<and>
       c_refs (cache_abs (lg_dev s1) s1) (lh_block s1 ! t) = (if r = 0 then 1 else 0) \<and> (\<forall>u\<in>set ts. log_block s1 t \<noteq> lh_block s1 ! u)"
      using Cons.prems(3) neq unfolding m c1s by auto
  qed
  then obtain s' where s': "install_loop h r ts s1 = Some s'" "cache_ok h (lg_dev s) s'" "kbio.more s' = kbio.more s1"
    "cache_abs (lg_dev s) s' = (a_copies (map (\<lambda>t. (lh_block s ! t, c_view (cache_abs (lg_dev s) s1) (log_block s t))) ts) (cache_abs (lg_dev s) s1))
       \<lparr>c_refs := \<lambda>b. if b \<in> (\<lambda>t. lh_block s ! t) ` set ts then 0 else c_refs (cache_abs (lg_dev s) s1) b\<rparr>"
    unfolding m by blast
  have same: "map (\<lambda>t. (lh_block s ! t, c_view (cache_abs (lg_dev s) s1) (log_block s t))) ts =
      map (\<lambda>t. (lh_block s ! t, c_view ?c (log_block s t))) ts"
    using neq by (simp add: c1s(2))
  let ?tr = "map (\<lambda>t. (lh_block s ! t, c_view ?c (log_block s t))) ts"
  have "cache_abs (lg_dev s) s' = (a_copies ((?dst, c_view ?c ?src) # ?tr) ?c)
     \<lparr>c_refs := \<lambda>b. if b \<in> (\<lambda>t. lh_block s ! t) ` set (t # ts) then 0 else c_refs ?c b\<rparr>"
  proof -
    have "(\<lambda>b. if b \<in> (\<lambda>t. lh_block s ! t) ` set ts then 0 else c_refs (cache_abs (lg_dev s) s1) b) =
        (\<lambda>b. if b \<in> (\<lambda>t. lh_block s ! t) ` set (t # ts) then 0 else c_refs ?c b)" by (auto simp: c1s(4))
    then show ?thesis unfolding s'(4) same unfolding c1 by (simp add: a_copies_def a_copy_def)
  qed
  then show ?case using s1(1,3) s'(1-3) by (intro exI [of _ s']) (simp only: list.map simp_thms)
qed

lemma write_log_run:
  fixes s :: "'a klog_scheme"
  assumes "cache_ok h (lg_dev s) s" "c_held (cache_abs (lg_dev s) s) = Map.empty"
    and "\<forall>t\<in>set ts. t < length (lh_block s) \<and> c_refs (cache_abs (lg_dev s) s) (log_block s t) = 0 \<and>
       c_refs (cache_abs (lg_dev s) s) (lh_block s ! t) = 1"
    and "card {x. c_refs (cache_abs (lg_dev s) s) x \<noteq> 0} + 1 \<le> NBUF"
  shows "\<exists>s'. write_log_loop h ts s = Some s' \<and> cache_ok h (lg_dev s) s' \<and>
     cache_abs (lg_dev s) s' =
       a_copies (map (\<lambda>t. (log_block s t, c_view (cache_abs (lg_dev s) s) (lh_block s ! t))) ts) (cache_abs (lg_dev s) s) \<and>
     kbio.more s' = kbio.more s"
  using assms
proof (induction ts arbitrary: s)
  case Nil
  then show ?case by (simp add: a_copies_def)
next
  case (Cons t ts)
  let ?c = "cache_abs (lg_dev s) s" and ?dst = "log_block s t" and ?src = "lh_block s ! t"
  let ?S = "{x. c_refs ?c x \<noteq> 0}"
  have t: "t < length (lh_block s)" "c_refs ?c ?dst = 0" "c_refs ?c ?src = 1" using Cons.prems(3) by simp_all
  then have "?dst \<noteq> ?src" by (metis zero_neq_one)
  moreover have "insert ?src ?S = ?S" using t(3) by auto
  moreover have "card (insert ?dst ?S) \<le> NBUF" using Cons.prems(4) by (auto simp: card_insert_if)
  ultimately obtain s1 where
    s1: "write_log_loop h (t # ts) s = write_log_loop h ts s1" "cache_ok h (lg_dev s) s1" "kbio.more s1 = kbio.more s"
    and c1: "cache_abs (lg_dev s) s1 = a_copy ?dst (c_view ?c ?src) ?c"
    using write_log_step [OF Cons.prems(1) t(1) _ _ _ t(2,3), of ts] Cons.prems(2) by auto
  have m: "lg_dev s1 = lg_dev s" "lh_block s1 = lh_block s" "log_block s1 = log_block s"
    using same_more [OF s1(3)] by (simp_all add: log_block_def fun_eq_iff)
  have c1s: "c_held (cache_abs (lg_dev s) s1) = Map.empty" "c_view (cache_abs (lg_dev s) s1) = (c_view ?c)(?dst := c_view ?c ?src)"
    "c_refs (cache_abs (lg_dev s) s1) = c_refs ?c" using Cons.prems(2) by (simp_all add: c1 a_copy_def)
  have "\<exists>s'. write_log_loop h ts s1 = Some s' \<and> cache_ok h (lg_dev s1) s' \<and>
     cache_abs (lg_dev s1) s' =
       a_copies (map (\<lambda>t. (log_block s1 t, c_view (cache_abs (lg_dev s1) s1) (lh_block s1 ! t))) ts) (cache_abs (lg_dev s1) s1) \<and>
     kbio.more s' = kbio.more s1"
    by (rule Cons.IH) (use s1(2) Cons.prems(3,4) in \<open>simp_all add: m c1s\<close>)
  then obtain s' where s': "write_log_loop h ts s1 = Some s'" "cache_ok h (lg_dev s) s'" "kbio.more s' = kbio.more s1"
    "cache_abs (lg_dev s) s' =
       a_copies (map (\<lambda>t. (log_block s t, c_view (cache_abs (lg_dev s) s1) (lh_block s ! t))) ts) (cache_abs (lg_dev s) s1)"
    unfolding m by blast
  have "c_refs ?c (lh_block s ! u) = 1" if "u \<in> set ts" for u using Cons.prems(3) that by simp
  then have "lh_block s ! u \<noteq> ?dst" if "u \<in> set ts" for u using that t(2) by fastforce
  then have same: "map (\<lambda>t. (log_block s t, c_view (cache_abs (lg_dev s) s1) (lh_block s ! t))) ts =
      map (\<lambda>t. (log_block s t, c_view ?c (lh_block s ! t))) ts"
    by (simp add: c1s(2))
  have "cache_abs (lg_dev s) s' = a_copies ((?dst, c_view ?c ?src) # map (\<lambda>t. (log_block s t, c_view ?c (lh_block s ! t))) ts) ?c"
    unfolding s'(4) same unfolding c1 by (simp add: a_copies_def a_copy_def)
  then show ?case using s1(1,3) s'(1-3) by (intro exI [of _ s']) (simp only: list.map simp_thms)
qed

lemma view_length: "cache_ok h d s \<Longrightarrow> length (c_view (cache_abs d s) bn) = BSIZE" "cache_ok h d s \<Longrightarrow> length (disk s bn) = BSIZE"
proof -
  assume "cache_ok h d s"
  then have ok: "bufs_ok d (mypid h s) (disk s) (bufs s)" by (simp add: cache_ok_def)
  then show "length (disk s bn) = BSIZE" by (rule bufs_ok_parts(4))
  then show "length (c_view (cache_abs d s) bn) = BSIZE"
    using bufs_ok_parts(3) [OF ok] slot_in [of d "bufs s" bn]
    by (auto simp: cache_abs_def view_of_def buf_ok_def split: option.splits)
qed

lemma law_change:
  fixes s :: "'a kbio_scheme"
  assumes "cache_ok h d s" "c_held (cache_abs d s) bn = Some i" "length (f (c_view (cache_abs d s) bn)) = BSIZE"
  shows "cache_ok h d (upd_buf i (\<lambda>b. b\<lparr>b_data := f (b_data b)\<rparr>) s)"
    "cache_abs d (upd_buf i (\<lambda>b. b\<lparr>b_data := f (b_data b)\<rparr>) s) = a_set bn (f (c_view (cache_abs d s) bn)) (cache_abs d s)"
    "kbio.more (upd_buf i (\<lambda>b. b\<lparr>b_data := f (b_data b)\<rparr>) s) = kbio.more s"
proof -
  have e: "upd_buf i (\<lambda>b. b\<lparr>b_data := f (b_data b)\<rparr>) s = upd_buf i (\<lambda>b. b\<lparr>b_data := f (c_view (cache_abs d s) bn)\<rparr>) s"
    using cache_held(10) [OF assms(1,2)] by (simp add: upd_buf_def)
  show "cache_ok h d (upd_buf i (\<lambda>b. b\<lparr>b_data := f (b_data b)\<rparr>) s)"
    "cache_abs d (upd_buf i (\<lambda>b. b\<lparr>b_data := f (b_data b)\<rparr>) s) = a_set bn (f (c_view (cache_abs d s) bn)) (cache_abs d s)"
    "kbio.more (upd_buf i (\<lambda>b. b\<lparr>b_data := f (b_data b)\<rparr>) s) = kbio.more s"
    unfolding e using law_set [OF assms] by simp_all
qed

lemma write_head_loop_run:
  fixes s :: "'a klog_scheme"
  assumes "cache_ok h d s" "c_held (cache_abs d s) bn = Some i" "\<forall>t\<in>set ts. t < length (lh_block s) \<and> 4 * t + 8 \<le> BSIZE"
  shows "\<exists>s'. write_head_loop i ts s = Some s' \<and> cache_ok h d s' \<and>
     cache_abs d s' = a_set bn (fold (\<lambda>j. put_int (j + 1) (lh_block s ! j)) ts (c_view (cache_abs d s) bn)) (cache_abs d s) \<and>
     kbio.more s' = kbio.more s"
  using assms
proof (induction ts arbitrary: s)
  case Nil
  then show ?case by (simp add: a_set_def)
next
  case (Cons t ts)
  let ?x = "put_int (t + 1) (lh_block s ! t) (c_view (cache_abs d s) bn)"
  let ?s = "upd_buf i (\<lambda>b. b\<lparr>b_data := put_int (t + 1) (lh_block s ! t) (b_data b)\<rparr>) s"
  have "length ?x = BSIZE" using Cons.prems(3) view_length(1) [OF Cons.prems(1), of bn] by simp
  note ch = law_change [OF Cons.prems(1,2), where f = "put_int (t + 1) (lh_block s ! t)", OF this]
  have bl: "lh_block ?s = lh_block s" using same_more [OF ch(3)] by simp
  have "c_held (cache_abs d ?s) bn = Some i" using Cons.prems(2) unfolding ch(2) by (simp add: a_set_def)
  from Cons.IH [OF ch(1) this] Cons.prems(3) bl obtain s' where
    "write_head_loop i ts ?s = Some s'" "cache_ok h d s'" "kbio.more s' = kbio.more s"
    "cache_abs d s' = a_set bn (fold (\<lambda>j. put_int (j + 1) (lh_block s ! j)) ts ?x) (cache_abs d s)"
    using ch by (auto simp: a_set_def)
  moreover have "t < length (lh_block s)" using Cons.prems(3) by simp
  ultimately show ?case by (simp add: aget_def)
qed

lemma write_head_run:
  fixes s :: "'a klog_scheme"
  defines "d \<equiv> lg_dev s" and "c \<equiv> cache_abs (lg_dev s) s" and "bn \<equiv> word_of_int (lg_start s)"
  assumes ok: "cache_ok h d s" and held: "c_held c bn = None" and refs: "c_refs c bn = 0"
    and room: "card {x. c_refs c x \<noteq> 0} < NBUF" and n: "0 \<le> lh_n s" "lh_n s \<le> LOGSIZE" "nat (lh_n s) \<le> length (lh_block s)"
  shows "\<exists>s'. write_head h s = Some s' \<and> cache_ok h d s' \<and>
     cache_abs d s' = a_copy bn (header (lh_n s) (lh_block s) (c_view c bn)) c \<and> kbio.more s' = kbio.more s"
proof -
  from law_read [OF ok, of bn] held refs room obtain i s1 where
    s1: "bread h d bn s = Some (i, s1)" "cache_ok h d s1" "kbio.more s1 = kbio.more s" and c1: "cache_abs d s1 = a_read bn i c"
    by (auto simp: c_def d_def)
  have h1: "c_held (cache_abs d s1) bn = Some i" by (simp add: c1 a_read_def)
  let ?s2 = "upd_buf i (\<lambda>b. b\<lparr>b_data := put_int 0 (word_of_int (lh_n s)) (b_data b)\<rparr>) s1"
  let ?x = "put_int 0 (word_of_int (lh_n s)) (c_view c bn)"
  have v: "length (c_view c bn) = BSIZE" "c_view (cache_abs d s1) bn = c_view c bn"
    using view_length(1) [OF ok, of bn] by (simp add: c_def d_def, simp add: c1 a_read_def)
  then have "length (put_int 0 (word_of_int (lh_n s)) (c_view (cache_abs d s1) bn)) = BSIZE" by (simp add: BSIZE_def)
  note s2 = law_change [OF s1(2) h1, where f = "put_int 0 (word_of_int (lh_n s))", OF this]
  have h2: "c_held (cache_abs d ?s2) bn = Some i" using h1 by (simp add: s2(2) a_set_def)
  have m2: "lh_n ?s2 = lh_n s" "lh_block ?s2 = lh_block s" using same_more [OF s2(3)] same_more [OF s1(3)] by simp_all
  have "\<forall>t\<in>set [0..<nat (lh_n s)]. t < length (lh_block ?s2) \<and> 4 * t + 8 \<le> BSIZE"
    using n by (auto simp: m2 LOGSIZE_def MAXOPBLOCKS_def BSIZE_def)
  from write_head_loop_run [OF s2(1) h2 this] obtain s3 where
    s3: "write_head_loop i [0..<nat (lh_n s)] ?s2 = Some s3" "cache_ok h d s3" "kbio.more s3 = kbio.more s"
    and c3: "cache_abs d s3 = a_set bn (header (lh_n s) (lh_block s) (c_view c bn)) (cache_abs d ?s2)"
    using s2(3) s1(3) by (auto simp: m2 header_def s2(2) v a_set_def)
  have h3: "c_held (cache_abs d s3) bn = Some i" using h2 by (simp add: c3 a_set_def)
  from law_write [OF s3(2) h3] obtain s4 where s4: "bwrite h i s3 = Some s4" "cache_ok h d s4" "kbio.more s4 = kbio.more s"
    and c4: "cache_abs d s4 = a_write bn (cache_abs d s3)" using s3(3) by auto
  have "c_held (cache_abs d s4) bn = Some i" "c_view (cache_abs d s4) bn = c_disk (cache_abs d s4) bn"
    using h3 by (simp_all add: c4 a_write_def)
  from law_release [OF s4(2) this(1) disjI2 [OF this(2)]] obtain s5 where
    s5: "brelse h i s4 = Some s5" "cache_ok h d s5" "kbio.more s5 = kbio.more s"
    and c5: "cache_abs d s5 = a_release bn (cache_abs d s4)" using s4(3) by auto
  have dev: "lh_n s1 = lh_n s" using same_more [OF s1(3)] by simp
  have "write_head h s = Some s5"
    using s1(1) s3(1) s4(1) s5(1) by (simp add: write_head_def d_def [symmetric] bn_def [symmetric] dev m2 Let_def)
  moreover have "cache_abs d s5 = a_copy bn (header (lh_n s) (lh_block s) (c_view c bn)) c"
  proof -
    have "(c_held c)(bn := None) = c_held c" "(c_refs c)(bn := 0) = c_refs c" using held refs by (auto intro!: ext)
    then show ?thesis using refs by (simp add: c5 c4 c3 s2(2) c1 a_defs a_copy_def)
  qed
  ultimately show ?thesis using s5(2,3) by blast
qed

definition loaded :: "u8 list \<Rightarrow> nat \<Rightarrow> u32 list \<Rightarrow> u32 list" where
  "loaded lh m bl = fold (\<lambda>i bl. bl[i := int_at lh (i + 1)]) [0..<m] bl"

lemma read_head_loop_run:
  "\<forall>t\<in>set ts. t < length (lh_block s) \<Longrightarrow>
   read_head_loop lh ts s = Some (s\<lparr>lh_block := fold (\<lambda>i bl. bl[i := int_at lh (i + 1)]) ts (lh_block s)\<rparr>)"
  by (induction ts arbitrary: s) (simp_all add: aset_def)

lemma loaded_nth: "m \<le> length bl \<Longrightarrow> length (loaded lh m bl) = length bl \<and> (\<forall>j<m. loaded lh m bl ! j = int_at lh (j + 1))"
  by (induction m) (auto simp: loaded_def nth_list_update less_Suc_eq)

lemma read_head_run:
  fixes s :: "'a klog_scheme"
  defines "d \<equiv> lg_dev s" and "c \<equiv> cache_abs (lg_dev s) s" and "bn \<equiv> word_of_int (lg_start s)"
  defines "n \<equiv> sint (int_at (c_view c bn) 0)"
  assumes ok: "cache_ok h d s" and held: "c_held c bn = None" and refs: "c_refs c bn = 0" and clean: "c_view c bn = c_disk c bn"
    and room: "card {x. c_refs c x \<noteq> 0} < NBUF" and n: "nat n \<le> length (lh_block s)"
  shows "\<exists>s'. read_head h s = Some s' \<and> cache_ok h d s' \<and> cache_abs d s' = c \<and>
     kbio.more s' = kbio.more (s\<lparr>lh_n := n, lh_block := loaded (c_view c bn) (nat n) (lh_block s)\<rparr>)"
proof -
  from law_read [OF ok, of bn] held refs room obtain i s1 where
    s1: "bread h d bn s = Some (i, s1)" "cache_ok h d s1" "kbio.more s1 = kbio.more s" and c1: "cache_abs d s1 = a_read bn i c"
    by (auto simp: c_def d_def)
  have h1: "c_held (cache_abs d s1) bn = Some i" by (simp add: c1 a_read_def)
  have x: "get_buf i s1 = Some (bufs s1 ! i)" "b_data (bufs s1 ! i) = c_view c bn"
    using cache_held(3,10) [OF s1(2) h1] by (simp_all add: get_buf_def c1 a_read_def)
  have bl: "lh_block s1 = lh_block s" using same_more [OF s1(3)] by simp
  let ?s2 = "s1\<lparr>lh_n := n, lh_block := loaded (c_view c bn) (nat n) (lh_block s)\<rparr>"
  have l: "read_head_loop (c_view c bn) [0..<nat n] (s1\<lparr>lh_n := n\<rparr>) = Some ?s2"
    using n read_head_loop_run [of "[0..<nat n]" "s1\<lparr>lh_n := n\<rparr>" "c_view c bn"] by (simp add: bl loaded_def)
  have "c_held (cache_abs d ?s2) bn = Some i" "c_view (cache_abs d ?s2) bn = c_disk (cache_abs d ?s2) bn"
    using h1 clean by (simp_all add: c1 a_read_def)
  from law_release [OF _ this(1) disjI2 [OF this(2)]] s1(2) obtain s3 where
    s3: "brelse h i ?s2 = Some s3" "cache_ok h d s3" "kbio.more s3 = kbio.more ?s2" and c3: "cache_abs d s3 = a_release bn (cache_abs d ?s2)"
    by auto
  have "kbio.more ?s2 = kbio.more (s\<lparr>lh_n := n, lh_block := loaded (c_view c bn) (nat n) (lh_block s)\<rparr>)"
    using s1(3) by (cases s; cases s1) simp
  moreover have "read_head h s = Some s3"
    using s1(1) x l s3(1) by (simp add: read_head_def d_def [symmetric] bn_def [symmetric] n_def [symmetric] Let_def)
  moreover have "cache_abs d s3 = c"
  proof -
    have "(c_held c)(bn := None) = c_held c" "(c_refs c)(bn := 0) = c_refs c" using held refs by (auto intro!: ext)
    then show ?thesis using refs by (simp add: c3 c1 a_defs)
  qed
  ultimately show ?thesis using s3(2,3) by (intro exI [of _ s3]) simp
qed

section \<open>Commit\<close>

text \<open>The header block and the blocks of the log.\<close>

definition head_block :: "'a klog_scheme \<Rightarrow> u32" where
  "head_block s = word_of_int (lg_start s)"

definition logged :: "'a klog_scheme \<Rightarrow> u32 list" where
  "logged s = take (nat (lh_n s)) (lh_block s)"

text \<open>
  Between the calls of one process that uses the file system alone: the blocks in the log are pinned, every other block is as
  on the disk and unused, the header on the disk is empty, and the blocks of the log area are not among those that are logged. The log area has \<open>size\<close> blocks
  with the header, at most as many as the header has entries (\<open>mkfs\<close> makes it \<open>LOGSIZE\<close> blocks).
\<close>

definition log_area :: "'a klog_scheme \<Rightarrow> u32 set" where
  "log_area s = insert (head_block s) (log_block s ` {..<nat (lg_size s - 1)})"

definition log_shape :: "'a klog_scheme \<Rightarrow> bool" where
  "log_shape s \<longleftrightarrow> 1 \<le> lg_size s \<and> lg_size s \<le> LOGSIZE \<and> length (lh_block s) = nat LOGSIZE \<and>
     inj_on (log_block s) {..<nat (lg_size s - 1)} \<and> head_block s \<notin> log_block s ` {..<nat (lg_size s - 1)}"

definition log_inv :: "nat \<Rightarrow> 'a klog_scheme \<Rightarrow> bool" where
  "log_inv h s \<longleftrightarrow> log_shape s \<and> cache_ok h (lg_dev s) s \<and> c_held (cache_abs (lg_dev s) s) = Map.empty \<and>
     0 \<le> lh_n s \<and> lh_n s \<le> lg_size s - 1 \<and> distinct (logged s) \<and> set (logged s) \<inter> log_area s = {} \<and>
     int_at (disk s (head_block s)) 0 = 0 \<and>
     c_refs (cache_abs (lg_dev s) s) = (\<lambda>b. if b \<in> set (logged s) then 1 else 0) \<and>
     (\<forall>b. b \<notin> set (logged s) \<longrightarrow> c_view (cache_abs (lg_dev s) s) b = c_disk (cache_abs (lg_dev s) s) b)"

text \<open>The writes of a commit, in order.\<close>

definition log_writes :: "'a klog_scheme \<Rightarrow> (u32 \<times> u8 list) list" where
  "log_writes s = map (\<lambda>t. (log_block s t, c_view (cache_abs (lg_dev s) s) (lh_block s ! t))) [0..<nat (lh_n s)]"

definition home_writes :: "'a klog_scheme \<Rightarrow> (u32 \<times> u8 list) list" where
  "home_writes s = map (\<lambda>t. (lh_block s ! t, c_view (cache_abs (lg_dev s) s) (lh_block s ! t))) [0..<nat (lh_n s)]"

definition commit_head :: "'a klog_scheme \<Rightarrow> u8 list" where
  "commit_head s = header (lh_n s) (lh_block s) (c_view (cache_abs (lg_dev s) s) (head_block s))"

definition commit_writes :: "'a klog_scheme \<Rightarrow> (u32 \<times> u8 list) list" where
  "commit_writes s = (if lh_n s = 0 then [] else log_writes s @ (head_block s, commit_head s) # home_writes s @
     [(head_block s, header 0 (lh_block s) (commit_head s))])"

lemma log_inv_bounds:
  assumes "log_inv h s"
  shows "nat (lh_n s) < nat LOGSIZE" "nat (lh_n s) < length (lh_block s)" "nat (lh_n s) < NBUF"
    "set (logged s) = (\<lambda>t. lh_block s ! t) ` set [0..<nat (lh_n s)]" "distinct (map (\<lambda>t. lh_block s ! t) [0..<nat (lh_n s)])"
    "{x. c_refs (cache_abs (lg_dev s) s) x \<noteq> 0} = set (logged s)" "card (set (logged s)) = nat (lh_n s)"
    "t < nat (lh_n s) \<Longrightarrow> log_block s t \<in> log_area s" "head_block s \<in> log_area s"
    "t < nat (lh_n s) \<Longrightarrow> lh_block s ! t \<in> set (logged s)" "lh_n s \<le> LOGSIZE"
    "b \<in> log_area s \<Longrightarrow> b \<notin> set (logged s)"
proof -
  have n: "lh_n s < LOGSIZE" "0 \<le> lh_n s" "length (lh_block s) = nat LOGSIZE"
    and d: "distinct (logged s)" using assms by (auto simp: log_inv_def log_shape_def)
  then show b: "nat (lh_n s) < nat LOGSIZE" "nat (lh_n s) < length (lh_block s)" "nat (lh_n s) < NBUF" "lh_n s \<le> LOGSIZE"
    by (simp_all add: LOGSIZE_def MAXOPBLOCKS_def NBUF_def)
  have l: "logged s = map (\<lambda>t. lh_block s ! t) [0..<nat (lh_n s)]"
    using b(2) by (intro nth_equalityI) (simp_all add: logged_def)
  show "set (logged s) = (\<lambda>t. lh_block s ! t) ` set [0..<nat (lh_n s)]" "distinct (map (\<lambda>t. lh_block s ! t) [0..<nat (lh_n s)])"
    "t < nat (lh_n s) \<Longrightarrow> lh_block s ! t \<in> set (logged s)"
    using d by (simp_all add: l del: map_nth)
  show "{x. c_refs (cache_abs (lg_dev s) s) x \<noteq> 0} = set (logged s)" using assms by (auto simp: log_inv_def)
  show "card (set (logged s)) = nat (lh_n s)" using distinct_card [OF d] by (simp add: l)
  show "t < nat (lh_n s) \<Longrightarrow> log_block s t \<in> log_area s" "head_block s \<in> log_area s"
    using assms by (auto simp: log_area_def log_inv_def)
  show "b \<in> log_area s \<Longrightarrow> b \<notin> set (logged s)" using assms by (auto simp: log_inv_def)
qed

lemma a_copy_copies: "a_copy b x (a_copies tr c) = a_copies (tr @ [(b, x)]) c"
  by (simp add: a_copy_def a_copies_def)

lemma a_copies_append: "a_copies tr' (a_copies tr c) = a_copies (tr @ tr') c"
  by (simp add: a_copies_def)

lemma log_fields_eq:
  fixes s s' :: "'a klog_scheme"
  assumes "kbio.more s' = kbio.more s"
  shows "log_block s' = log_block s" "head_block s' = head_block s" "logged s' = logged s" "log_area s' = log_area s"
    "lh_n s' = lh_n s" "lh_block s' = lh_block s" "lg_dev s' = lg_dev s" "log_shape s' = log_shape s"
proof -
  note m = same_more [OF assms]
  show "log_block s' = log_block s" "head_block s' = head_block s" "logged s' = logged s" "lh_n s' = lh_n s"
    "lh_block s' = lh_block s" "lg_dev s' = lg_dev s" using m by (simp_all add: log_block_def head_block_def logged_def fun_eq_iff)
  then show "log_area s' = log_area s" "log_shape s' = log_shape s" using m by (simp_all add: log_area_def log_shape_def)
qed

lemma commit_run:
  fixes s :: "'a klog_scheme"
  assumes "log_inv h s"
  shows "\<exists>s'. commit h s = Some s' \<and> cache_ok h (lg_dev s) s' \<and>
     cache_abs (lg_dev s) s' = (a_copies (commit_writes s) (cache_abs (lg_dev s) s))\<lparr>c_refs := \<lambda>_. 0\<rparr> \<and>
     kbio.more s' = kbio.more (s\<lparr>lh_n := 0\<rparr>)"
proof (cases "lh_n s = 0")
  case True
  have "c_refs (cache_abs (lg_dev s) s) = (\<lambda>_. 0)" using assms True by (simp add: log_inv_def logged_def)
  then have "(cache_abs (lg_dev s) s)\<lparr>c_refs := \<lambda>_. 0\<rparr> = cache_abs (lg_dev s) s" by (cases "cache_abs (lg_dev s) s") simp
  moreover have "kbio.more (s\<lparr>lh_n := 0\<rparr>) = kbio.more s" using True by (cases s) simp
  ultimately show ?thesis using True assms by (simp add: commit_def commit_writes_def a_copies_def log_inv_def)
next
  case False
  let ?d = "lg_dev s" and ?n = "nat (lh_n s)" and ?c = "cache_abs (lg_dev s) s"
  note b = log_inv_bounds [OF assms]
  have I: "cache_ok h ?d s" "c_held ?c = Map.empty" "0 \<le> lh_n s"
    "c_refs ?c = (\<lambda>b. if b \<in> set (logged s) then 1 else 0)" "\<And>b. b \<notin> set (logged s) \<Longrightarrow> c_view ?c b = c_disk ?c b"
    using assms by (simp_all add: log_inv_def)
  have refs0: "c_refs ?c (log_block s t) = 0" "c_refs ?c (lh_block s ! t) = 1" if "t < ?n" for t
    using b(10,12) b(8) that I(4) by auto
  have "\<exists>s'. write_log_loop h [0..<?n] s = Some s' \<and> cache_ok h ?d s' \<and> cache_abs ?d s' = a_copies (log_writes s) ?c \<and> kbio.more s' = kbio.more s"
    unfolding log_writes_def by (rule write_log_run) (use I(1,2) refs0 b(2,3,6,7) in auto)
  then obtain s1 where s1: "write_log h s = Some s1" "cache_ok h ?d s1" "kbio.more s1 = kbio.more s"
    and c1: "cache_abs ?d s1 = a_copies (log_writes s) ?c" by (auto simp: write_log_def)
  note f1 = log_fields_eq [OF s1(3)]
  have hd: "c_refs ?c (head_block s) = 0" "c_view ?c (head_block s) = c_disk ?c (head_block s)"
    using b(9,12) I(4,5) by auto
  have nolog: "head_block s \<notin> fst ` set (log_writes s)"
    using assms by (auto simp: log_writes_def log_inv_def log_shape_def)
  have v1: "c_view (cache_abs ?d s1) (head_block s) = c_view ?c (head_block s)" using replay_other [OF nolog] by (simp add: c1)
  have "\<exists>s'. write_head h s1 = Some s' \<and> cache_ok h (lg_dev s1) s' \<and> cache_abs (lg_dev s1) s' =
     a_copy (word_of_int (lg_start s1)) (header (lh_n s1) (lh_block s1) (c_view (cache_abs (lg_dev s1) s1) (word_of_int (lg_start s1)))) (cache_abs (lg_dev s1) s1) \<and>
     kbio.more s' = kbio.more s1"
    by (rule write_head_run, unfold f1 head_block_def [symmetric])
      (use s1(2) I(2,3) hd(1) b(2,3,6,7,11) in \<open>simp_all add: c1\<close>)
  then obtain s2 where s2: "write_head h s1 = Some s2" "cache_ok h ?d s2" "kbio.more s2 = kbio.more s"
    and c2: "cache_abs ?d s2 = a_copies (log_writes s @ [(head_block s, commit_head s)]) ?c"
    unfolding f1 head_block_def [symmetric] v1 unfolding c1 a_copy_copies commit_head_def [symmetric] using s1(3) by auto
  note f2 = log_fields_eq [OF s2(3)]
  have inj: "inj_on (log_block s) {..<?n}"
    using assms by (auto simp: log_inv_def log_shape_def intro: inj_on_subset)
  have logv: "c_view (cache_abs ?d s2) (log_block s t) = c_view ?c (lh_block s ! t)"
    "c_disk (cache_abs ?d s2) (log_block s t) = c_view ?c (lh_block s ! t)" if "t < ?n" for t
  proof -
    have r: "replay (log_writes s) x (log_block s t) = c_view ?c (lh_block s ! t)" for x
      unfolding log_writes_def by (rule replay_map) (use inj that in \<open>auto simp: inj_on_def\<close>)
    have "nat (lh_n s) \<le> nat (lg_size s - 1)" using assms by (intro nat_mono) (simp add: log_inv_def)
    then have "log_block s t \<in> log_block s ` {..<nat (lg_size s - 1)}" using that by (intro imageI) simp
    then have "log_block s t \<noteq> head_block s" using assms unfolding log_inv_def log_shape_def by metis
    then show "c_view (cache_abs ?d s2) (log_block s t) = c_view ?c (lh_block s ! t)"
      "c_disk (cache_abs ?d s2) (log_block s t) = c_view ?c (lh_block s ! t)" using r by (simp_all add: c2)
  qed
  have w: "map (\<lambda>t. (lh_block s ! t, c_view (cache_abs ?d s2) (log_block s t))) [0..<?n] = home_writes s"
    unfolding home_writes_def using logv by simp
  have "\<exists>s'. install_loop h 0 [0..<nat (lh_n s2)] s2 = Some s' \<and> cache_ok h (lg_dev s2) s' \<and>
     cache_abs (lg_dev s2) s' = (a_copies (map (\<lambda>t. (lh_block s2 ! t, c_view (cache_abs (lg_dev s2) s2) (log_block s2 t))) [0..<nat (lh_n s2)]) (cache_abs (lg_dev s2) s2))
       \<lparr>c_refs := \<lambda>b. if b \<in> (\<lambda>t. lh_block s2 ! t) ` set [0..<nat (lh_n s2)] then 0 else c_refs (cache_abs (lg_dev s2) s2) b\<rparr> \<and>
     kbio.more s' = kbio.more s2"
  proof (rule install_run)
    have "log_block s t \<noteq> lh_block s ! u" if "t < ?n" "u < ?n" for t u using b(8,10,12) that by metis
    then show "\<forall>t\<in>set [0..<nat (lh_n s2)]. t < length (lh_block s2) \<and> c_refs (cache_abs (lg_dev s2) s2) (log_block s2 t) = 0 \<and>
       c_view (cache_abs (lg_dev s2) s2) (log_block s2 t) = c_disk (cache_abs (lg_dev s2) s2) (log_block s2 t) \<and>
       c_refs (cache_abs (lg_dev s2) s2) (lh_block s2 ! t) = (if 0 = (0::int) then 1 else 0) \<and>
       (\<forall>u\<in>set [0..<nat (lh_n s2)]. log_block s2 t \<noteq> lh_block s2 ! u)"
      using refs0 logv b(2) by (simp add: f2 c2)
    show "distinct (map (\<lambda>t. lh_block s2 ! t) [0..<nat (lh_n s2)])" using b(5) by (simp only: f2)
    show "cache_ok h (lg_dev s2) s2" "c_held (cache_abs (lg_dev s2) s2) = Map.empty"
      "card {x. c_refs (cache_abs (lg_dev s2) s2) x \<noteq> 0} + (if 0 = (0::int) then 1 else 2) \<le> NBUF"
      using s2(2) I(2) b(3,6,7) by (simp_all add: f2 c2)
  qed
  then obtain s3 where s3: "install_trans h 0 s2 = Some s3" "cache_ok h ?d s3" "kbio.more s3 = kbio.more s2"
    and c3: "cache_abs ?d s3 = (a_copies (home_writes s) (cache_abs ?d s2))
       \<lparr>c_refs := \<lambda>b. if b \<in> (\<lambda>t. lh_block s ! t) ` set [0..<?n] then 0 else c_refs (cache_abs ?d s2) b\<rparr>"
    unfolding f2 w install_trans_def by blast
  have r0: "(\<lambda>b. if b \<in> (\<lambda>t. lh_block s ! t) ` set [0..<?n] then 0 else c_refs (cache_abs ?d s2) b) = (\<lambda>_. 0)"
    unfolding c2 a_copies_simps I(4) b(4) by auto
  note c3 = c3 [unfolded r0]
  let ?s3 = "s3\<lparr>lh_n := 0\<rparr>"
  have m3: "kbio.more ?s3 = kbio.more (s\<lparr>lh_n := 0\<rparr>)" using s3(3) s2(3) by (cases s; cases s3) simp
  have f3: "lg_dev ?s3 = ?d" "head_block ?s3 = head_block s" "lh_n ?s3 = 0" "lh_block ?s3 = lh_block s"
    using log_fields_eq [OF m3] by (simp_all add: head_block_def)
  have nohome: "head_block s \<notin> fst ` set (home_writes s)" using b(9,10) b(12) [OF b(9)] by (fastforce simp: home_writes_def)
  have v3: "c_view (cache_abs ?d s3) (head_block s) = commit_head s" using replay_other [OF nohome] by (simp add: c3 c2)
  have "\<exists>s'. write_head h ?s3 = Some s' \<and> cache_ok h (lg_dev ?s3) s' \<and> cache_abs (lg_dev ?s3) s' =
     a_copy (word_of_int (lg_start ?s3)) (header (lh_n ?s3) (lh_block ?s3) (c_view (cache_abs (lg_dev ?s3) ?s3) (word_of_int (lg_start ?s3)))) (cache_abs (lg_dev ?s3) ?s3) \<and>
     kbio.more s' = kbio.more ?s3"
    by (rule write_head_run, unfold f3 head_block_def [symmetric])
      (use s3(2) I(2) in \<open>simp_all add: c3 c2 NBUF_def LOGSIZE_def MAXOPBLOCKS_def\<close>)
  then obtain s4 where s4: "write_head h ?s3 = Some s4" "cache_ok h ?d s4" "kbio.more s4 = kbio.more (s\<lparr>lh_n := 0\<rparr>)"
    and c4: "cache_abs ?d s4 = a_copy (head_block s) (header 0 (lh_block s) (commit_head s)) (cache_abs ?d s3)"
    unfolding f3 m3 head_block_def [symmetric] log_fields v3 by blast
  have "cache_abs ?d s4 = (a_copies (commit_writes s) ?c)\<lparr>c_refs := \<lambda>_. 0\<rparr>"
    unfolding c4 c3 c2 using False by (simp add: commit_writes_def a_copies_def a_copy_def)
  moreover have "commit h s = Some s4"
    using False I(3) s1(1) s2(1) s3(1) s4(1) by (simp add: commit_def)
  ultimately show ?thesis using s4(2,3) by blast
qed

section \<open>What a disk holds\<close>

text \<open>
  The contents of the file system on a disk with a log: the blocks that the header names are replaced with
  those in the log. Recovery makes them so; it is atomic if a crash in the middle changes nothing.
\<close>

definition disk_log :: "int \<Rightarrow> (u32 \<Rightarrow> u8 list) \<Rightarrow> (u32 \<times> u8 list) list" where
  "disk_log start dk = map (\<lambda>t. (int_at (dk (word_of_int start)) (t + 1), dk (word_of_int (start + int t + 1))))
     [0..<nat (sint (int_at (dk (word_of_int start)) 0))]"

definition durable :: "int \<Rightarrow> (u32 \<Rightarrow> u8 list) \<Rightarrow> u32 \<Rightarrow> u8 list" where
  "durable start dk = replay (disk_log start dk) dk"

definition valid_head :: "'a klog_scheme \<Rightarrow> (u32 \<Rightarrow> u8 list) \<Rightarrow> bool" where
  "valid_head s dk \<longleftrightarrow> sint (int_at (dk (head_block s)) 0) \<le> lg_size s - 1 \<and>
     (\<forall>t<nat (sint (int_at (dk (head_block s)) 0)). int_at (dk (head_block s)) (t + 1) \<notin> log_area s)"

text \<open>Writes that leave the log alone, and the last write, which empties it.\<close>

lemma disk_log_same:
  fixes s :: "'a klog_scheme"
  assumes "valid_head s dk" "fst ` set tr \<inter> log_area s = {}"
  shows "disk_log (lg_start s) (replay tr dk) = disk_log (lg_start s) dk"
proof -
  let ?n = "nat (sint (int_at (dk (head_block s)) 0))"
  have h: "replay tr dk (word_of_int (lg_start s)) = dk (word_of_int (lg_start s))"
    using assms(2) by (intro replay_other) (auto simp: log_area_def head_block_def)
  have "?n \<le> nat (lg_size s - 1)" using assms(1) by (intro nat_mono) (simp add: valid_head_def)
  then have "log_block s t \<in> log_area s" if "t < ?n" for t using that by (auto simp: log_area_def)
  then have "replay tr dk (log_block s t) = dk (log_block s t)" if "t < ?n" for t
    using assms(2) that by (intro replay_other) blast
  then have "replay tr dk (word_of_int (lg_start s + int t + 1)) = dk (word_of_int (lg_start s + int t + 1))"
    if "t < nat (sint (int_at (dk (word_of_int (lg_start s))) 0))" for t
    using that by (simp only: log_block_def head_block_def)
  then show ?thesis unfolding disk_log_def h by (intro map_cong refl) (simp only: set_upt atLeastLessThan_iff)
qed

lemma disk_log_blocks: "valid_head s dk \<Longrightarrow> fst ` set (disk_log (lg_start s) dk) \<inter> log_area s = {}"
  by (auto simp: disk_log_def valid_head_def head_block_def)

lemma durable_clear: "int_at (dk (word_of_int start)) 0 = 0 \<Longrightarrow> durable start dk = dk"
  by (simp add: durable_def disk_log_def)

lemma set_take_subset_fst: "fst ` set (take k tr) \<subseteq> fst ` set tr"
  using set_take_subset [of k tr] by blast

lemma durable_install:
  fixes s :: "'a klog_scheme"
  assumes "valid_head s dk"
  shows "durable (lg_start s) (replay (take k (disk_log (lg_start s) dk)) dk) = durable (lg_start s) dk"
proof
  fix b
  let ?B = "disk_log (lg_start s) dk"
  have "fst ` set (take k ?B) \<inter> log_area s = {}" using disk_log_blocks [OF assms] set_take_subset_fst [of k ?B] by blast
  then have "durable (lg_start s) (replay (take k ?B) dk) b = replay ?B (replay (take k ?B) dk) b"
    unfolding durable_def using disk_log_same [OF assms] by simp
  also have "\<dots> = replay ?B dk b"
  proof (cases "b \<in> fst ` set ?B")
    case True
    then show ?thesis by (rule replay_from)
  next
    case False
    then have "b \<notin> fst ` set (take k ?B)" using set_take_subset_fst [of k ?B] by blast
    with False show ?thesis by (simp add: replay_other)
  qed
  finally show "durable (lg_start s) (replay (take k ?B) dk) b = durable (lg_start s) dk b" by (simp add: durable_def)
qed

text \<open>The writes of a recovery, and every crash in the middle of it.\<close>

definition recovery_writes :: "'a klog_scheme \<Rightarrow> (u32 \<Rightarrow> u8 list) \<Rightarrow> (u32 \<times> u8 list) list" where
  "recovery_writes s dk = disk_log (lg_start s) dk @ [(head_block s, put_int 0 0 (dk (head_block s)))]"

lemma take_snoc_cases: "take k (xs @ [x]) = take k xs \<or> take k (xs @ [x]) = xs @ [x]"
  by (cases "k \<le> length xs") simp_all

lemma recovery_durable:
  fixes s :: "'a klog_scheme"
  assumes "valid_head s dk" "length (dk (head_block s)) = BSIZE" "b \<notin> log_area s"
  shows "durable (lg_start s) (replay (take k (recovery_writes s dk)) dk) b = durable (lg_start s) dk b"
    "replay (recovery_writes s dk) dk b = durable (lg_start s) dk b"
proof -
  let ?B = "disk_log (lg_start s) dk" and ?h = "head_block s"
  have hb: "b \<noteq> ?h" using assms(3) by (auto simp: log_area_def)
  have full: "replay (recovery_writes s dk) dk = (replay ?B dk)(?h := put_int 0 0 (dk ?h))" by (simp add: recovery_writes_def)
  show f: "replay (recovery_writes s dk) dk b = durable (lg_start s) dk b" using hb by (simp add: full durable_def)
  have "durable (lg_start s) (replay (recovery_writes s dk) dk) = replay (recovery_writes s dk) dk"
    by (rule durable_clear) (use assms(2) in \<open>simp add: full head_block_def BSIZE_def\<close>)
  show "durable (lg_start s) (replay (take k (recovery_writes s dk)) dk) b = durable (lg_start s) dk b"
  proof -
    consider "take k (recovery_writes s dk) = take k ?B" | "take k (recovery_writes s dk) = recovery_writes s dk"
      using take_snoc_cases [of k ?B "(?h, put_int 0 0 (dk ?h))"] unfolding recovery_writes_def by metis
    then show ?thesis
      using \<open>durable (lg_start s) (replay (recovery_writes s dk) dk) = replay (recovery_writes s dk) dk\<close> f
        durable_install [OF assms(1), of k] by cases (simp_all only:)
  qed
qed

text \<open>The writes of a commit, and every crash in the middle of it.\<close>

lemma sint_small: "0 \<le> n \<Longrightarrow> n \<le> LOGSIZE \<Longrightarrow> sint (word_of_int n :: u32) = n"
  by (simp add: LOGSIZE_def MAXOPBLOCKS_def sint_sbintrunc' signed_take_bit_int_eq_self)

lemma log_blocks:
  assumes "log_inv h s"
  shows "t < nat (lh_n s) \<Longrightarrow> log_block s t \<noteq> head_block s" "inj_on (log_block s) {..<nat (lh_n s)}"
    "disk s b = c_disk (cache_abs (lg_dev s) s) b"
proof -
  have shape: "log_shape s" "nat (lh_n s) \<le> nat (lg_size s - 1)" using assms by (simp_all add: log_inv_def nat_mono)
  then have sub: "{..<nat (lh_n s)} \<subseteq> {..<nat (lg_size s - 1)}" by auto
  show "inj_on (log_block s) {..<nat (lh_n s)}"
    by (rule inj_on_subset [OF _ sub]) (use shape(1) in \<open>simp add: log_shape_def\<close>)
  show "log_block s t \<noteq> head_block s" if "t < nat (lh_n s)"
  proof -
    have "log_block s t \<in> log_block s ` {..<nat (lg_size s - 1)}" using shape(2) that by (intro imageI) simp
    moreover have "head_block s \<notin> log_block s ` {..<nat (lg_size s - 1)}" using shape(1) by (simp add: log_shape_def)
    ultimately show ?thesis by metis
  qed
  show "disk s b = c_disk (cache_abs (lg_dev s) s) b" by (simp add: cache_abs_def)
qed

lemma commit_head_ints:
  assumes "log_inv h s"
  shows "length (commit_head s) = BSIZE" "sint (int_at (commit_head s) 0) = lh_n s"
    "t < nat (lh_n s) \<Longrightarrow> int_at (commit_head s) (t + 1) = lh_block s ! t"
proof -
  have n: "0 \<le> lh_n s" "lh_n s \<le> LOGSIZE" using assms log_inv_bounds(11) [OF assms] by (simp_all add: log_inv_def)
  have l: "length (c_view (cache_abs (lg_dev s) s) (head_block s)) = BSIZE"
    by (rule view_length(1) [of h]) (use assms in \<open>simp add: log_inv_def\<close>)
  note H = header_ints [OF n l, where bl = "lh_block s"]
  show "length (commit_head s) = BSIZE" "sint (int_at (commit_head s) 0) = lh_n s"
    "t < nat (lh_n s) \<Longrightarrow> int_at (commit_head s) (t + 1) = lh_block s ! t"
    using H sint_small [OF n] by (simp_all add: commit_head_def)
qed

text \<open>The disk once the header is written: it holds the new blocks.\<close>

lemma committed_disk:
  fixes s :: "'a klog_scheme"
  assumes "log_inv h s"
  defines "dk \<equiv> (replay (log_writes s) (disk s))(head_block s := commit_head s)"
  shows "valid_head s dk" "disk_log (lg_start s) dk = home_writes s"
    "b \<notin> log_area s \<Longrightarrow> replay (home_writes s) dk b = c_view (cache_abs (lg_dev s) s) b"
proof -
  note bd = log_inv_bounds [OF assms(1)] and H = commit_head_ints [OF assms(1)]
  let ?n = "nat (lh_n s)"
  have h: "dk (word_of_int (lg_start s)) = commit_head s" by (simp add: dk_def head_block_def)
  have area: "lh_block s ! t \<notin> log_area s" if "t < ?n" for t using bd(10,12) that by blast
  have "lh_n s \<le> lg_size s - 1" using assms(1) by (simp add: log_inv_def)
  then show v: "valid_head s dk" using H(2,3) area by (simp add: valid_head_def dk_def)
  have log: "dk (log_block s t) = c_view (cache_abs (lg_dev s) s) (lh_block s ! t)" if "t < ?n" for t
  proof -
    have "replay (log_writes s) (disk s) (log_block s t) = c_view (cache_abs (lg_dev s) s) (lh_block s ! t)"
      unfolding log_writes_def
    proof (rule replay_map)
      show "log_block s t \<in> log_block s ` set [0..<?n]" using that by simp
      fix u
      assume "u \<in> set [0..<?n]" "log_block s u = log_block s t"
      then have "u = t" using inj_onD [OF log_blocks(2) [OF assms(1)], of u t] that by simp
      then show "c_view (cache_abs (lg_dev s) s) (lh_block s ! u) = c_view (cache_abs (lg_dev s) s) (lh_block s ! t)" by simp
    qed
    moreover have "log_block s t \<noteq> head_block s" using log_blocks(1) [OF assms(1) that] .
    ultimately show ?thesis by (simp add: dk_def)
  qed
  show "disk_log (lg_start s) dk = home_writes s"
    unfolding disk_log_def home_writes_def h H(2)
    by (intro map_cong refl) (use H(3) log in \<open>simp add: log_block_def\<close>)
  assume b: "b \<notin> log_area s"
  show "replay (home_writes s) dk b = c_view (cache_abs (lg_dev s) s) b"
  proof (cases "b \<in> set (logged s)")
    case True
    then show ?thesis unfolding home_writes_def bd(4) by (intro replay_map) auto
  next
    case False
    then have "b \<notin> fst ` set (home_writes s)" by (auto simp: home_writes_def bd(4))
    moreover have "b \<notin> fst ` set (log_writes s)" "b \<noteq> head_block s" using b bd(8,9) by (auto simp: log_writes_def)
    moreover have "disk s b = c_view (cache_abs (lg_dev s) s) b"
      unfolding log_blocks(3) [OF assms(1)] using False assms(1) by (simp add: log_inv_def)
    ultimately show ?thesis by (simp add: replay_other dk_def)
  qed
qed

lemma commit_writes_split:
  "lh_n s \<noteq> 0 \<Longrightarrow> commit_writes s = log_writes s @ [(head_block s, commit_head s)] @ home_writes s @ [(head_block s, put_int 0 0 (commit_head s))]"
  by (simp add: commit_writes_def header_def)

lemma take_append_cases:
  "(\<exists>j. take k (xs @ ys) = take j xs) \<or> (\<exists>j>0. take k (xs @ ys) = xs @ take j ys)"
proof (cases "k \<le> length xs")
  case True
  then have "take k (xs @ ys) = take k xs" by simp
  then show ?thesis by blast
next
  case False
  then have "take k (xs @ ys) = xs @ take (k - length xs) ys" "0 < k - length xs" by simp_all
  then show ?thesis by blast
qed

lemma commit_durable:
  fixes s :: "'a klog_scheme"
  assumes "log_inv h s"
  shows "(\<forall>b. b \<notin> log_area s \<longrightarrow> durable (lg_start s) (replay (take k (commit_writes s)) (disk s)) b = disk s b) \<or>
     (\<forall>b. b \<notin> log_area s \<longrightarrow> durable (lg_start s) (replay (take k (commit_writes s)) (disk s)) b = c_view (cache_abs (lg_dev s) s) b)"
proof (cases "lh_n s = 0")
  case True
  have "durable (lg_start s) (disk s) = disk s" by (rule durable_clear) (use assms in \<open>simp add: log_inv_def head_block_def\<close>)
  then show ?thesis using True by (simp add: commit_writes_def)
next
  case False
  note bd = log_inv_bounds [OF assms] and H = commit_head_ints [OF assms] and C = committed_disk [OF assms]
  let ?hd = "head_block s" and ?v = "c_view (cache_abs (lg_dev s) s)"
  let ?D = "(replay (log_writes s) (disk s))(?hd := commit_head s)"
  let ?rest = "home_writes s @ [(?hd, put_int 0 0 (commit_head s))]"
  from take_append_cases [of k "log_writes s" "(?hd, commit_head s) # ?rest"] show ?thesis
  proof (elim disjE exE conjE)
    fix j
    assume t: "take k (log_writes s @ (?hd, commit_head s) # ?rest) = take j (log_writes s)"
    have "fst ` set (take j (log_writes s)) \<subseteq> fst ` set (log_writes s)" by (rule set_take_subset_fst)
    moreover have "fst ` set (log_writes s) \<subseteq> log_area s - {?hd}"
    proof -
      show ?thesis using bd(8) log_blocks(1) [OF assms] by (auto simp: log_writes_def)
    qed
    ultimately have sub: "fst ` set (take j (log_writes s)) \<subseteq> log_area s - {?hd}" by blast
    then have "replay (take j (log_writes s)) (disk s) ?hd = disk s ?hd" by (intro replay_other) blast
    then have "durable (lg_start s) (replay (take j (log_writes s)) (disk s)) = replay (take j (log_writes s)) (disk s)"
      by (intro durable_clear) (use assms in \<open>simp add: log_inv_def head_block_def\<close>)
    moreover have "replay (take j (log_writes s)) (disk s) b = disk s b" if "b \<notin> log_area s" for b
      using sub that by (intro replay_other) blast
    ultimately show ?thesis using t False by (simp add: commit_writes_split)
  next
    fix j :: nat
    assume t: "take k (log_writes s @ (?hd, commit_head s) # ?rest) = log_writes s @ take j ((?hd, commit_head s) # ?rest)" "0 < j"
    have w: "recovery_writes s ?D = ?rest" using C(2) by (simp add: recovery_writes_def)
    have "replay (take k (commit_writes s)) (disk s) = replay (take (j - 1) (recovery_writes s ?D)) ?D"
      unfolding w using t False by (cases j) (simp_all add: commit_writes_split del: take_append)
    moreover have "durable (lg_start s) (replay (take (j - 1) (recovery_writes s ?D)) ?D) b = ?v b" if "b \<notin> log_area s" for b
      using recovery_durable(1) [OF C(1) _ that, of "j - 1"] H(1) C(2) C(3) [OF that] by (simp add: durable_def)
    ultimately show ?thesis by simp
  qed
qed

section \<open>Recovery\<close>

lemma header_zero: "header 0 bl x = put_int 0 0 x"
  by (simp add: header_def)

lemma recover_run:
  fixes s :: "'a klog_scheme"
  defines "d \<equiv> lg_dev s" and "c \<equiv> cache_abs (lg_dev s) s"
  assumes shape: "log_shape s" and ok: "cache_ok h d s" and held: "c_held c = Map.empty" and refs: "c_refs c = (\<lambda>_. 0)"
    and clean: "c_view c = c_disk c" and valid: "valid_head s (c_disk c)"
  shows "\<exists>s'. recover_from_log h s = Some s' \<and> cache_ok h d s' \<and> cache_abs d s' = a_copies (recovery_writes s (c_disk c)) c \<and>
     (\<exists>bl. length bl = length (lh_block s) \<and> kbio.more s' = kbio.more (s\<lparr>lh_n := 0, lh_block := bl\<rparr>))"
proof -
  let ?h = "head_block s"
  define n where "n = sint (int_at (c_view c ?h) 0)"
  define bl where "bl = loaded (c_view c ?h) (nat n) (lh_block s)"
  have nle: "nat n \<le> nat (lg_size s - 1)" using valid by (simp add: valid_head_def n_def clean nat_mono)
  have len: "nat n \<le> length (lh_block s)" 
    using nle shape nat_mono [of "lg_size s - 1" LOGSIZE] by (simp add: log_shape_def)
  note bl = loaded_nth [OF len, of "c_view c ?h", folded bl_def]
  from read_head_run [of h s] ok held refs clean len obtain s1 where
    s1: "read_head h s = Some s1" "cache_ok h d s1" "cache_abs d s1 = c" "kbio.more s1 = kbio.more (s\<lparr>lh_n := n, lh_block := bl\<rparr>)"
    by (auto simp: d_def c_def head_block_def n_def bl_def NBUF_def)
  note m1 = same_more [OF s1(4)]
  have f1: "lg_dev s1 = d" "lh_n s1 = n" "lh_block s1 = bl" "log_block s1 = log_block s" "head_block s1 = ?h"
    using m1 by (simp_all add: d_def log_block_def head_block_def fun_eq_iff)
  have area: "bl ! t \<notin> log_area s" "log_block s t \<in> log_area s" if "t < nat n" for t
    using that valid nle bl by (auto simp: valid_head_def n_def clean log_area_def)
  let ?ts = "[0..<nat (lh_n s1)]"
  have "\<exists>s'. install_loop h 1 ?ts s1 = Some s' \<and> cache_ok h (lg_dev s1) s' \<and>
     cache_abs (lg_dev s1) s' = (a_copies (map (\<lambda>t. (lh_block s1 ! t, c_view (cache_abs (lg_dev s1) s1) (log_block s1 t))) ?ts) (cache_abs (lg_dev s1) s1))
       \<lparr>c_refs := \<lambda>b. if b \<in> (\<lambda>t. lh_block s1 ! t) ` set ?ts then 0 else c_refs (cache_abs (lg_dev s1) s1) b\<rparr> \<and>
     kbio.more s' = kbio.more s1"
  proof (rule install_run)
    have "log_block s t \<noteq> bl ! u" if "t < nat n" "u < nat n" for t u using area that by metis
    then show "\<forall>t\<in>set ?ts. t < length (lh_block s1) \<and> c_refs (cache_abs (lg_dev s1) s1) (log_block s1 t) = 0 \<and>
       c_view (cache_abs (lg_dev s1) s1) (log_block s1 t) = c_disk (cache_abs (lg_dev s1) s1) (log_block s1 t) \<and>
       c_refs (cache_abs (lg_dev s1) s1) (lh_block s1 ! t) = (if 1 = (0::int) then 1 else 0) \<and>
       (\<forall>u\<in>set ?ts. log_block s1 t \<noteq> lh_block s1 ! u)"
      using len bl refs clean by (simp add: f1 s1(3))
  qed (use s1(2) held refs in \<open>simp_all add: f1 s1(3) NBUF_def\<close>)
  moreover have "map (\<lambda>t. (lh_block s1 ! t, c_view (cache_abs (lg_dev s1) s1) (log_block s1 t))) ?ts = disk_log (lg_start s) (c_disk c)"
    unfolding disk_log_def f1 s1(3) clean [symmetric]
    by (intro map_cong) (use bl in \<open>simp_all add: n_def head_block_def log_block_def\<close>)
  ultimately obtain s2 where s2: "install_trans h 1 s1 = Some s2" "cache_ok h d s2" "kbio.more s2 = kbio.more s1"
    and c2: "cache_abs d s2 = (a_copies (disk_log (lg_start s) (c_disk c)) c)
       \<lparr>c_refs := \<lambda>b. if b \<in> (\<lambda>t. bl ! t) ` set [0..<nat n] then 0 else c_refs c b\<rparr>"
    unfolding install_trans_def f1 s1(3) by auto
  have "(\<lambda>b. if b \<in> (\<lambda>t. bl ! t) ` set [0..<nat n] then 0 else c_refs c b) = c_refs c" by (simp add: refs fun_eq_iff)
  then have c2: "cache_abs d s2 = a_copies (disk_log (lg_start s) (c_disk c)) c" using c2 by (simp add: a_copies_def)
  let ?s2 = "s2\<lparr>lh_n := 0\<rparr>"
  have m2: "kbio.more ?s2 = kbio.more (s\<lparr>lh_n := 0, lh_block := bl\<rparr>)" using s2(3) s1(4) by (cases s; cases s1; cases s2) simp
  note g2 = same_more [OF m2]
  have f2: "lg_dev ?s2 = d" "head_block ?s2 = ?h" "lh_n ?s2 = 0" "lh_block ?s2 = bl"
    using g2 by (simp_all add: d_def head_block_def)
  have "?h \<notin> fst ` set (disk_log (lg_start s) (c_disk c))" using disk_log_blocks [OF valid] by (auto simp: log_area_def)
  then have v2: "c_view (cache_abs d s2) ?h = c_disk c ?h" by (simp add: c2 replay_other clean)
  have "\<exists>s'. write_head h ?s2 = Some s' \<and> cache_ok h (lg_dev ?s2) s' \<and> cache_abs (lg_dev ?s2) s' =
     a_copy (word_of_int (lg_start ?s2)) (header (lh_n ?s2) (lh_block ?s2) (c_view (cache_abs (lg_dev ?s2) ?s2) (word_of_int (lg_start ?s2)))) (cache_abs (lg_dev ?s2) ?s2) \<and>
     kbio.more s' = kbio.more ?s2"
    by (rule write_head_run, unfold f2 head_block_def [symmetric])
      (use s2(2) held refs in \<open>simp_all add: c2 NBUF_def LOGSIZE_def MAXOPBLOCKS_def\<close>)
  then obtain s3 where s3: "write_head h ?s2 = Some s3" "cache_ok h d s3" "kbio.more s3 = kbio.more (s\<lparr>lh_n := 0, lh_block := bl\<rparr>)"
    and c3: "cache_abs d s3 = a_copy ?h (put_int 0 0 (c_disk c ?h)) (cache_abs d s2)"
    unfolding f2 m2 head_block_def [symmetric] log_fields v2 header_zero by blast
  have "recover_from_log h s = Some s3" using s1(1) s2(1) s3(1) by (simp add: recover_from_log_def)
  moreover have "cache_abs d s3 = a_copies (recovery_writes s (c_disk c)) c"
    unfolding c3 c2 a_copy_copies recovery_writes_def ..
  ultimately show ?thesis using s3(2,3) bl by blast
qed

lemma log_shape_cong:
  fixes s s' :: "'a klog_scheme"
  assumes "lg_start s' = lg_start s" "lg_size s' = lg_size s"
  shows "log_block s' = log_block s" "head_block s' = head_block s" "log_area s' = log_area s"
    "length (lh_block s') = length (lh_block s) \<Longrightarrow> log_shape s' = log_shape s"
proof -
  show "log_block s' = log_block s" "head_block s' = head_block s"
    using assms by (simp_all add: log_block_def head_block_def fun_eq_iff)
  then show "log_area s' = log_area s" "length (lh_block s') = length (lh_block s) \<Longrightarrow> log_shape s' = log_shape s"
    using assms by (simp_all add: log_area_def log_shape_def)
qed

text \<open>
  C7. Recovery is exact and may itself be interrupted. After any boot, \<open>initlog\<close> returns, empties the log and leaves
  on the device, outside the log, what the disk durably held: the blocks of a complete log in place of the blocks
  it names. Whatever prefix of its writes a crash leaves behind, the disk durably holds the same contents,
  so the next recovery gives the same result.
\<close>

theorem recovery_exact:
  fixes s :: "'a klog_scheme"
  assumes "steady h s" and "blank_bufs (bufs s)" and "d \<noteq> 0" and "\<forall>b. length (disk s b) = BSIZE"
    and "log_shape (s\<lparr>lg_start := sint start, lg_size := sint nlog\<rparr>)"
    and "valid_head (s\<lparr>lg_start := sint start, lg_size := sint nlog\<rparr>) (disk s)"
  shows "\<exists>s' W. initlog h d start nlog (binit s) = Some s' \<and> log_inv h s' \<and> lh_n s' = 0 \<and> trace s' = trace s @ W \<and>
     disk s' = replay W (disk s) \<and>
     (\<forall>b. b \<notin> log_area (s\<lparr>lg_start := sint start, lg_size := sint nlog\<rparr>) \<longrightarrow>
        disk s' b = durable (sint start) (disk s) b \<and>
        (\<forall>k. durable (sint start) (replay (take k W) (disk s)) b = durable (sint start) (disk s) b))"
proof -
  note boot = binit_ok [OF assms(1-4)]
  let ?s0 = "initlock Log_lock [108, 111, 103] (binit s)"
  let ?s1 = "?s0\<lparr>lg_start := sint start, lg_size := sint nlog, lg_dev := d\<rparr>"
  have st: "steady h (binit s)" and ok0: "bufs_ok d (mypid h (binit s)) (disk (binit s)) (bufs (binit s))"
    using boot(1) by (simp_all add: cache_ok_def)
  have parts: "bufs ?s1 = bufs (binit s)" "disk ?s1 = disk (binit s)" "trace ?s1 = trace (binit s)" "mypid h ?s1 = mypid h (binit s)"
    by (simp_all add: initlock_def upd_lock_def mypid_def)
  have "steady h ?s1" using steady_initlock(1) [OF st] by (simp add: steady_def at_rest_def free_lock_def)
  then have ok: "cache_ok h d ?s1" using ok0 by (simp add: cache_ok_def parts)
  have c: "cache_abs d ?s1 = \<lparr>c_held = Map.empty, c_view = disk s, c_disk = disk s, c_trace = trace s, c_refs = (\<lambda>_. 0)\<rparr>"
  proof -
    have "cache_abs d ?s1 = cache_abs d (binit s)" by (simp add: cache_abs_def parts)
    then show ?thesis using boot(2) by simp
  qed
  have more: "kbio.more ?s1 = kbio.more (s\<lparr>lg_start := sint start, lg_size := sint nlog, lg_dev := d\<rparr>)"
    using boot(3) by (cases s; cases "binit s") (simp add: initlock_def upd_lock_def)
  have shape: "log_shape ?s1" "valid_head ?s1 (disk s)"
    using same_more [OF more] assms(5,6)
    by (simp_all add: log_shape_def valid_head_def log_area_def head_block_def log_block_def [abs_def])
  have e: "lg_dev ?s1 = d" by simp
  have c1: "c_held (cache_abs d ?s1) = Map.empty" "c_refs (cache_abs d ?s1) = (\<lambda>_. 0)"
    "c_view (cache_abs d ?s1) = c_disk (cache_abs d ?s1)" "c_disk (cache_abs d ?s1) = disk s" unfolding c by simp_all
  have "valid_head ?s1 (c_disk (cache_abs d ?s1))" unfolding c1(4) by (rule shape(2))
  from recover_run [OF shape(1), unfolded e, OF ok c1(1,2,3) this]
  have "\<exists>s'. recover_from_log h ?s1 = Some s' \<and> cache_ok h d s' \<and>
     cache_abs d s' = a_copies (recovery_writes ?s1 (disk s)) (cache_abs d ?s1) \<and>
     (\<exists>bl. length bl = length (lh_block ?s1) \<and> kbio.more s' = kbio.more (?s1\<lparr>lh_n := 0, lh_block := bl\<rparr>))"
    unfolding c1(4) .
  then obtain s' bl where r: "recover_from_log h ?s1 = Some s'" "cache_ok h d s'" "length bl = length (lh_block ?s1)"
    "kbio.more s' = kbio.more (?s1\<lparr>lh_n := 0, lh_block := bl\<rparr>)"
    and c': "cache_abs d s' = a_copies (recovery_writes ?s1 (disk s)) (cache_abs d ?s1)" by blast
  note m' = same_more [OF r(4)]
  have f: "lg_dev s' = d" "lh_n s' = 0" "log_area s' = log_area ?s1" "head_block s' = head_block ?s1" "lg_start ?s1 = sint start"
    "log_shape s'" "logged s' = []"
    using m' r(3) shape(1) by (simp_all add: log_area_def head_block_def log_block_def [abs_def] log_shape_def logged_def)
  let ?W = "recovery_writes ?s1 (disk s)"
  have d': "disk s' = replay ?W (disk s)" "trace s' = trace s @ ?W"
  proof -
    have "c_disk (cache_abs d s') = replay ?W (disk s)" "c_trace (cache_abs d s') = trace s @ ?W" by (simp_all add: c' c)
    then show "disk s' = replay ?W (disk s)" "trace s' = trace s @ ?W" by (simp_all add: cache_abs_def)
  qed
  have "int_at (disk s' (head_block s')) 0 = 0"
    unfolding d' f using assms(4) by (simp add: recovery_writes_def BSIZE_def)
  moreover have "c_view (cache_abs d s') = c_disk (cache_abs d s')" by (simp add: c' c)
  moreover have "1 \<le> lg_size s'" using f(6) by (simp add: log_shape_def)
  ultimately have "log_inv h s'" using r(2) f by (simp add: log_inv_def c' c)
  moreover have "initlog h d start nlog (binit s) = Some s'" using r(1) by (simp add: initlog_def)
  moreover have "disk s' b = durable (sint start) (disk s) b"
    "durable (sint start) (replay (take k ?W) (disk s)) b = durable (sint start) (disk s) b"
    if "b \<notin> log_area (s\<lparr>lg_start := sint start, lg_size := sint nlog\<rparr>)" for b k
  proof -
    have "log_area ?s1 = log_area (s\<lparr>lg_start := sint start, lg_size := sint nlog\<rparr>)" by (rule log_shape_cong(3)) simp_all
    then show "disk s' b = durable (sint start) (disk s) b"
      "durable (sint start) (replay (take k ?W) (disk s)) b = durable (sint start) (disk s) b"
      using recovery_durable [OF shape(2), of b] assms(4) that unfolding f d' by simp_all
  qed
  ultimately show ?thesis using f(2) d' by (intro exI [of _ s'] exI [of _ ?W]) simp
qed

lemma commit_ok:
  fixes s :: "'a klog_scheme"
  assumes "log_inv h s"
  shows "\<exists>s' W. commit h s = Some s' \<and> log_inv h s' \<and> lh_n s' = 0 \<and> trace s' = trace s @ W \<and> disk s' = replay W (disk s) \<and>
     (\<forall>b. b \<notin> log_area s \<longrightarrow> disk s' b = c_view (cache_abs (lg_dev s) s) b) \<and>
     (\<forall>k. (\<forall>b. b \<notin> log_area s \<longrightarrow> durable (lg_start s) (replay (take k W) (disk s)) b = disk s b) \<or>
          (\<forall>b. b \<notin> log_area s \<longrightarrow> durable (lg_start s) (replay (take k W) (disk s)) b = c_view (cache_abs (lg_dev s) s) b))"
proof -
  let ?d = "lg_dev s" and ?c = "cache_abs (lg_dev s) s" and ?W = "commit_writes s"
  obtain s' where r: "commit h s = Some s'" "cache_ok h ?d s'" "kbio.more s' = kbio.more (s\<lparr>lh_n := 0\<rparr>)"
    and c': "cache_abs ?d s' = (a_copies ?W ?c)\<lparr>c_refs := \<lambda>_. 0\<rparr>" using commit_run [OF assms] by blast
  note m = same_more [OF r(3)]
  have f: "lg_dev s' = ?d" "lh_n s' = 0" "head_block s' = head_block s" "logged s' = []" "log_shape s' = log_shape s"
    using m by (simp_all add: head_block_def logged_def log_shape_def log_block_def [abs_def])
  have D: "disk s b = c_disk ?c b" for b by (rule log_blocks(3) [OF assms])
  have d': "disk s' = replay ?W (disk s)" "trace s' = trace s @ ?W"
  proof -
    have "c_disk (cache_abs ?d s') = replay ?W (c_disk ?c)" "c_trace (cache_abs ?d s') = c_trace ?c @ ?W" by (simp_all add: c')
    then show "disk s' = replay ?W (disk s)" "trace s' = trace s @ ?W" by (simp_all add: cache_abs_def)
  qed
  have view: "c_view (cache_abs ?d s') b = c_disk (cache_abs ?d s') b" for b
  proof (cases "b \<in> fst ` set ?W")
    case True
    then show ?thesis by (simp add: c' replay_from [OF True, of "c_view ?c" "c_disk ?c"])
  next
    case False
    have "b \<notin> set (logged s)"
    proof (cases "lh_n s = 0")
      case False': False
      have "b \<notin> fst ` set (home_writes s)" using False by (auto simp: commit_writes_split [OF False'])
      moreover have "fst ` set (home_writes s) = set (logged s)"
        unfolding log_inv_bounds(4) [OF assms] home_writes_def set_map image_image fst_conv ..
      ultimately show ?thesis by simp
    qed (simp add: logged_def)
    then show ?thesis using False assms by (simp add: c' replay_other log_inv_def)
  qed
  have new: "replay ?W (disk s) b = c_view ?c b" if "b \<notin> log_area s" for b
  proof (cases "lh_n s = 0")
    case True
    then show ?thesis using assms D by (simp add: commit_writes_def log_inv_def logged_def)
  next
    case False
    have "b \<noteq> head_block s" using that log_inv_bounds(9) [OF assms] by blast
    then show ?thesis using committed_disk(3) [OF assms that] by (simp add: commit_writes_split [OF False])
  qed
  have "int_at (replay ?W (disk s) (head_block s)) 0 = 0"
  proof (cases "lh_n s = 0")
    case True
    then show ?thesis using assms by (simp add: commit_writes_def log_inv_def)
  next
    case False
    then show ?thesis using commit_head_ints(1) [OF assms] by (simp add: commit_writes_split BSIZE_def)
  qed
  then have hd: "int_at (disk s' (head_block s')) 0 = 0" unfolding f d'(1) .
  have inv0: "log_shape s" "c_held ?c = Map.empty" using assms by (simp_all add: log_inv_def)
  have "c_held (cache_abs ?d s') = Map.empty" "c_refs (cache_abs ?d s') = (\<lambda>_. 0)" by (simp_all add: c' inv0(2))
  moreover have "1 \<le> lg_size s'" using inv0(1) m(2) by (simp add: log_shape_def)
  ultimately have inv: "log_inv h s'" using r(2) f hd view inv0(1) unfolding log_inv_def by simp
  show ?thesis
  proof (intro exI [of _ s'] exI [of _ ?W] conjI)
    show "\<forall>b. b \<notin> log_area s \<longrightarrow> disk s' b = c_view ?c b" using new d'(1) by simp
    show "\<forall>k. (\<forall>b. b \<notin> log_area s \<longrightarrow> durable (lg_start s) (replay (take k ?W) (disk s)) b = disk s b) \<or>
        (\<forall>b. b \<notin> log_area s \<longrightarrow> durable (lg_start s) (replay (take k ?W) (disk s)) b = c_view ?c b)"
      using commit_durable [OF assms] by (rule allI)
  qed (fact r(1) inv f(2) d')+
qed

section \<open>Transactions\<close>

text \<open>\<open>log_write\<close> pins the buffer while it holds the lock of the log.\<close>

lemma bpin_inside:
  fixes s t :: "'a kbio_scheme"
  assumes "steady h s" "l \<noteq> Bcache_lock" "locks t = locks (held h l s)" "cpus t = cpus (held h l s)" "i < length (bufs t)"
  shows "bpin h i t = Some (t\<lparr>bufs := (bufs t)[i := (bufs t ! i)\<lparr>b_refcnt := b_refcnt (bufs t ! i) + 1\<rparr>]\<rparr>)"
proof -
  have n: "noff (cpus t h) = 1" "\<not> sie (cpus t h)"
    using assms(1,4) by (simp_all add: steady_def at_rest_def held_def off_cpu_def)
  then have ok: "hart_ok h t" "settle h t = t" by (simp_all add: hart_ok_def)
  have free: "free_lock Bcache_lock t" using steady_free(1) [OF assms(1)] assms(2,3) by (simp add: free_lock_def)
  let ?u = "(held h Bcache_lock t)\<lparr>bufs := (bufs t)[i := (bufs t ! i)\<lparr>b_refcnt := b_refcnt (bufs t ! i) + 1\<rparr>]\<rparr>"
  have "release h Bcache_lock ?u = Some (?u\<lparr>locks := locks t, cpus := cpus t\<rparr>)"
    using release_held [OF free ok(1), of ?u] ok(2) by simp
  then show ?thesis
    using acquire_free [OF free, of h] assms(5) by (simp add: bpin_def get_buf_def aget_def upd_buf_def) (simp add: held_def)
qed

lemma log_find_cases:
  "log_find bl b n ks \<in> set ks \<and> bl ! log_find bl b n ks = b \<or> log_find bl b n ks = n \<and> (\<forall>j\<in>set ks. bl ! j \<noteq> b)"
  by (induction ks) auto

lemma log_write_run:
  fixes s :: "'a klog_scheme"
  assumes "steady h s" "i < length (bufs s)" "0 \<le> lh_n s" "lh_n s < LOGSIZE" "lh_n s < lg_size s - 1" "1 \<le> lg_outstanding s"
    and "length (lh_block s) = nat LOGSIZE"
  defines "bn \<equiv> b_blockno (bufs s ! i)"
  shows "bn \<in> set (logged s) \<Longrightarrow> log_write h i s = Some s"
    "bn \<notin> set (logged s) \<Longrightarrow> log_write h i s = Some (s\<lparr>bufs := (bufs s)[i := (bufs s ! i)\<lparr>b_refcnt := b_refcnt (bufs s ! i) + 1\<rparr>],
       lh_n := lh_n s + 1, lh_block := (lh_block s)[nat (lh_n s) := bn]\<rparr>)"
proof -
  let ?n = "nat (lh_n s)" and ?k = "log_find (lh_block s) bn (nat (lh_n s)) [0..<nat (lh_n s)]"
  let ?t = "held h Log_lock s"
  have n: "?n < length (lh_block s)" "int ?n = lh_n s" using assms(3,4,7) by (simp_all add: LOGSIZE_def MAXOPBLOCKS_def)
  have set: "bn \<in> set (logged s) \<longleftrightarrow> (\<exists>j<?n. lh_block s ! j = bn)" using n(1) by (auto simp: logged_def in_set_conv_nth)
  have F: "?k < ?n \<and> lh_block s ! ?k = bn \<or> ?k = ?n \<and> (\<forall>j<?n. lh_block s ! j \<noteq> bn)"
    using log_find_cases [of "lh_block s" bn ?n "[0..<?n]"] by auto
  have fields: "bufs ?t = bufs s" "lh_n ?t = lh_n s" "lg_size ?t = lg_size s" "lg_outstanding ?t = lg_outstanding s" "lh_block ?t = lh_block s"
    by (simp_all add: held_def)
  have run: "log_write h i s = do {
     u \<leftarrow> (if int ?k = lh_n s then do {
              u \<leftarrow> bpin h i (?t\<lparr>lh_block := (lh_block s)[?k := bn]\<rparr>);
              Some (u\<lparr>lh_n := lh_n u + 1\<rparr>) }
            else Some (?t\<lparr>lh_block := (lh_block s)[?k := bn]\<rparr>));
     release h Log_lock u }"
  proof -
    have "?k < length (lh_block s)" using F n(1) by linarith
    then show ?thesis using assms(2-6) steady_acquire [OF assms(1), of Log_lock]
      by (simp add: log_write_def fields get_buf_def aget_def aset_def bn_def [symmetric] Let_def)
  qed
  note rel = release_held [OF steady_free(1) [OF assms(1)] steady_free(2) [OF assms(1)], where l = Log_lock]
  show "log_write h i s = Some s" if "bn \<in> set (logged s)"
  proof -
    have k: "?k < ?n" "lh_block s ! ?k = bn" using F that set by auto
    then have "(lh_block s)[?k := bn] = lh_block s" "int ?k \<noteq> lh_n s" using n(2) by (metis list_update_id, linarith)
    moreover have "?t\<lparr>lh_block := lh_block s\<rparr> = ?t" by (simp add: held_def)
    moreover have "release h Log_lock ?t = Some s" by (rule steady_release(2) [OF assms(1)])
    ultimately show ?thesis unfolding run by simp
  qed
  show "log_write h i s = Some (s\<lparr>bufs := (bufs s)[i := (bufs s ! i)\<lparr>b_refcnt := b_refcnt (bufs s ! i) + 1\<rparr>],
       lh_n := lh_n s + 1, lh_block := (lh_block s)[nat (lh_n s) := bn]\<rparr>)" if "bn \<notin> set (logged s)"
  proof -
    have k: "?k = ?n" using F that set by auto
    let ?u = "?t\<lparr>lh_block := (lh_block s)[?n := bn]\<rparr>"
    have p: "bpin h i ?u = Some (?u\<lparr>bufs := (bufs s)[i := (bufs s ! i)\<lparr>b_refcnt := b_refcnt (bufs s ! i) + 1\<rparr>]\<rparr>)"
      using bpin_inside [OF assms(1), of Log_lock ?u i] assms(2) by (simp add: fields)
    let ?v = "?u\<lparr>bufs := (bufs s)[i := (bufs s ! i)\<lparr>b_refcnt := b_refcnt (bufs s ! i) + 1\<rparr>], lh_n := lh_n s + 1\<rparr>"
    have "release h Log_lock ?v = Some (?v\<lparr>locks := locks s, cpus := cpus (settle h s)\<rparr>)" by (rule rel) simp_all
    moreover have "log_write h i s = release h Log_lock ?v" unfolding run k using n(2) p fields(2) by simp
    ultimately show ?thesis unfolding steady_settle [OF assms(1)] by (simp add: held_def)
  qed
qed

text \<open>The use of the log that \<open>log.c\<close> describes: read a block, change it, log it, release it.\<close>

definition log_update :: "nat \<Rightarrow> u32 \<times> u8 list \<Rightarrow> 'a klog_scheme \<Rightarrow> 'a klog_scheme option" where
  "log_update h u s = do {
     (bp, s) \<leftarrow> bread h (lg_dev s) (fst u) s;
     let s = upd_buf bp (\<lambda>b. b\<lparr>b_data := snd u\<rparr>) s;
     s \<leftarrow> log_write h bp s;
     brelse h bp s }"

fun log_updates :: "nat \<Rightarrow> (u32 \<times> u8 list) list \<Rightarrow> 'a klog_scheme \<Rightarrow> 'a klog_scheme option" where
  "log_updates h [] s = Some s"
| "log_updates h (u # us) s = do { s \<leftarrow> log_update h u s; log_updates h us s }"

definition transaction :: "nat \<Rightarrow> (u32 \<times> u8 list) list \<Rightarrow> 'a klog_scheme \<Rightarrow> 'a klog_scheme option" where
  "transaction h us s = do {
     (r, s) \<leftarrow> begin_op h s;
     case r of
       Inl p \<Rightarrow> None
     | Inr u \<Rightarrow> do { s \<leftarrow> log_updates h us s; end_op h s } }"

lemma log_update_ok:
  fixes s :: "'a klog_scheme"
  assumes inv: "log_inv h s" and bn: "bn \<notin> log_area s" and x: "length x = BSIZE" and room: "lh_n s < lg_size s - 1"
    and out: "1 \<le> lg_outstanding s"
  shows "\<exists>s'. log_update h (bn, x) s = Some s' \<and> log_inv h s' \<and> logged s' = (if bn \<in> set (logged s) then logged s else logged s @ [bn]) \<and>
     c_view (cache_abs (lg_dev s) s') = (c_view (cache_abs (lg_dev s) s))(bn := x) \<and> disk s' = disk s \<and> trace s' = trace s \<and>
     lg_start s' = lg_start s \<and> lg_size s' = lg_size s \<and> lg_dev s' = lg_dev s \<and> lg_outstanding s' = lg_outstanding s \<and>
     lg_committing s' = lg_committing s"
proof -
  let ?d = "lg_dev s" and ?c = "cache_abs (lg_dev s) s" and ?n = "nat (lh_n s)"
  note bd = log_inv_bounds [OF inv]
  have I: "cache_ok h ?d s" "c_held ?c = Map.empty" "0 \<le> lh_n s" "log_shape s"
    "c_refs ?c = (\<lambda>b. if b \<in> set (logged s) then 1 else 0)" "\<And>b. b \<notin> set (logged s) \<Longrightarrow> c_view ?c b = c_disk ?c b"
    "distinct (logged s)" "set (logged s) \<inter> log_area s = {}" "int_at (disk s (head_block s)) 0 = 0"
    using inv by (simp_all add: log_inv_def)
  have "c_refs ?c bn + 1 < 2 ^ 32" "c_refs ?c bn \<noteq> 0 \<or> card {b. c_refs ?c b \<noteq> 0} < NBUF" "c_held ?c bn = None"
    using I(2,5) bd(3,6,7) by simp_all
  from law_read [OF I(1) this(3,1,2)] obtain i s1 where
    s1: "bread h ?d bn s = Some (i, s1)" "cache_ok h ?d s1" "kbio.more s1 = kbio.more s" and c1: "cache_abs ?d s1 = a_read bn i ?c" by blast
  have h1: "c_held (cache_abs ?d s1) bn = Some i" by (simp add: c1 a_read_def)
  let ?s2 = "upd_buf i (\<lambda>b. b\<lparr>b_data := x\<rparr>) s1"
  note s2 = law_set [OF s1(2) h1 x]
  note m2 = same_more [OF trans [OF s2(3) s1(3)]]
  have h2: "c_held (cache_abs ?d ?s2) bn = Some i" by (simp add: s2(2) a_set_def c1 a_read_def)
  note H2 = cache_held [OF s2(1) h2]
  have steady2: "steady h ?s2" using s2(1) by (simp add: cache_ok_def)
  have l2: "logged ?s2 = logged s" by (simp add: logged_def m2)
  have pre: "0 \<le> lh_n ?s2" "lh_n ?s2 < LOGSIZE" "lh_n ?s2 < lg_size ?s2 - 1" "1 \<le> lg_outstanding ?s2"
    "length (lh_block ?s2) = nat LOGSIZE" using I(3,4) room out unfolding m2 log_shape_def by linarith+
  note W = log_write_run [OF steady2 H2(3) pre]
  have refs2: "c_refs (cache_abs ?d ?s2) bn = c_refs ?c bn + 1" by (simp add: s2(2) a_set_def c1 a_read_def)
  have "\<exists>s3. log_write h i ?s2 = Some s3 \<and> cache_ok h ?d s3 \<and> cache_abs ?d s3 = (cache_abs ?d ?s2)\<lparr>c_refs := (c_refs ?c)(bn := 2)\<rparr> \<and>
     (\<exists>bl. kbio.more s3 = kbio.more (s\<lparr>lh_n := lh_n s + (if bn \<in> set (logged s) then 0 else 1), lh_block := bl\<rparr>) \<and> length bl = length (lh_block s) \<and>
      take (nat (lh_n s + (if bn \<in> set (logged s) then 0 else 1))) bl = (if bn \<in> set (logged s) then logged s else logged s @ [bn]))"
  proof (cases "bn \<in> set (logged s)")
    case True
    have "log_write h i ?s2 = Some ?s2" using W(1) True by (simp add: H2(5) l2)
    moreover have "(cache_abs ?d ?s2)\<lparr>c_refs := (c_refs ?c)(bn := 2)\<rparr> = cache_abs ?d ?s2"
    proof -
      have "c_refs (cache_abs ?d ?s2) = (c_refs ?c)(bn := 2)" using True I(5) by (simp add: s2(2) a_set_def c1 a_read_def numeral_2_eq_2)
      moreover have "y\<lparr>c_refs := c_refs y\<rparr> = y" for y :: cview by (cases y) simp
      ultimately show ?thesis by metis
    qed
    moreover have "kbio.more ?s2 = kbio.more (s\<lparr>lh_n := lh_n s + 0, lh_block := lh_block s\<rparr>)" using s2(3) s1(3) by (cases s) simp
    ultimately show ?thesis using s2(1) True by (intro exI [of _ ?s2] conjI exI [of _ "lh_block s"]) (simp_all add: logged_def)
  next
    case False
    let ?b = "(bufs ?s2 ! i)\<lparr>b_refcnt := b_refcnt (bufs ?s2 ! i) + 1\<rparr>" and ?bl = "(lh_block s)[?n := bn]"
    let ?s3 = "?s2\<lparr>bufs := (bufs ?s2)[i := ?b]\<rparr>"
    have "c_refs (cache_abs ?d ?s2) bn = 1" using False I(5) refs2 by simp
    then have u: "unat (b_refcnt (bufs ?s2 ! i)) = 1" using H2(11) by simp
    then have v: "unat (b_refcnt (bufs ?s2 ! i) + 1) = 2" by (simp add: unat_succ)
    then have "b_refcnt (bufs ?s2 ! i) + 1 \<noteq> 0" by (metis unat_0 zero_neq_numeral)
    note R = law_refs [OF s2(1) h2 this]
    have "log_write h i ?s2 = Some (?s3\<lparr>lh_n := lh_n s + 1, lh_block := ?bl\<rparr>)"
      using W(2) False by (simp add: H2(5) l2 m2)
    moreover have "cache_ok h ?d (?s3\<lparr>lh_n := lh_n s + 1, lh_block := ?bl\<rparr>)" using R(1) by simp
    moreover have "cache_abs ?d (?s3\<lparr>lh_n := lh_n s + 1, lh_block := ?bl\<rparr>) = (cache_abs ?d ?s2)\<lparr>c_refs := (c_refs ?c)(bn := 2)\<rparr>"
      using R(2) by (simp add: v) (simp add: s2(2) a_set_def c1 a_read_def)
    moreover have "kbio.more (?s3\<lparr>lh_n := lh_n s + 1, lh_block := ?bl\<rparr>) = kbio.more (s\<lparr>lh_n := lh_n s + 1, lh_block := ?bl\<rparr>)"
      using R(3) s2(3) s1(3) by (cases s; cases s1) (simp add: upd_buf_def)
    moreover have "take (nat (lh_n s + 1)) ?bl = logged s @ [bn]"
      using bd(2) I(3) by (simp add: logged_def nat_add_distrib take_Suc_conv_app_nth)
    ultimately show ?thesis using False
      by (intro exI [of _ "?s3\<lparr>lh_n := lh_n s + 1, lh_block := ?bl\<rparr>"] conjI exI [of _ ?bl]) simp_all
  qed
  then obtain s3 bl where s3: "log_write h i ?s2 = Some s3" "cache_ok h ?d s3"
    and c3: "cache_abs ?d s3 = (cache_abs ?d ?s2)\<lparr>c_refs := (c_refs ?c)(bn := 2)\<rparr>"
    and m3: "kbio.more s3 = kbio.more (s\<lparr>lh_n := lh_n s + (if bn \<in> set (logged s) then 0 else 1), lh_block := bl\<rparr>)"
    and bl: "length bl = length (lh_block s)" "take (nat (lh_n s + (if bn \<in> set (logged s) then 0 else 1))) bl =
       (if bn \<in> set (logged s) then logged s else logged s @ [bn])" by blast
  have "c_held (cache_abs ?d s3) bn = Some i" "1 < c_refs (cache_abs ?d s3) bn" using h2 by (simp_all add: c3)
  from law_release [OF s3(2) this(1) disjI1 [OF this(2)]] obtain s4 where s4: "brelse h i s3 = Some s4" "cache_ok h ?d s4"
    and c4: "cache_abs ?d s4 = a_release bn (cache_abs ?d s3)" and m34: "kbio.more s4 = kbio.more s3" by blast
  note m4 = same_more [OF trans [OF m34 m3]]
  have abs4: "c_held (cache_abs ?d s4) = Map.empty" "c_view (cache_abs ?d s4) = (c_view ?c)(bn := x)" "c_disk (cache_abs ?d s4) = c_disk ?c"
    "c_trace (cache_abs ?d s4) = c_trace ?c" "c_refs (cache_abs ?d s4) = (c_refs ?c)(bn := 1)"
    using I(2) by (simp_all add: c4 c3 s2(2) c1 a_defs)
  have l4: "logged s4 = (if bn \<in> set (logged s) then logged s else logged s @ [bn])" using bl(2) m4 by (simp add: logged_def)
  have geo: "lg_start s4 = lg_start s" "lg_size s4 = lg_size s" using m4 by simp_all
  have area: "log_area s4 = log_area s" "head_block s4 = head_block s" "log_shape s4 = log_shape s"
    using log_shape_cong [OF geo] m4(7) bl(1) by simp_all
  have dk: "disk s4 = disk s" "trace s4 = trace s" using abs4(3,4) by (simp_all add: cache_abs_def)
  have dev: "lg_dev s4 = ?d" using m4 by simp
  have "c_refs (cache_abs ?d s4) = (\<lambda>b. if b \<in> set (logged s4) then 1 else 0)" using I(5) l4 by (auto simp: abs4(5) fun_eq_iff)
  moreover have "\<forall>b. b \<notin> set (logged s4) \<longrightarrow> c_view (cache_abs ?d s4) b = c_disk (cache_abs ?d s4) b"
    using I(6) l4 by (auto simp: abs4(2,3))
  moreover have "distinct (logged s4)" "set (logged s4) \<inter> log_area s4 = {}" using I(7,8) bn l4 by (auto simp: area)
  moreover have "0 \<le> lh_n s4" "lh_n s4 \<le> lg_size s4 - 1" using I(3) room m4(2,6) by (auto split: if_splits)
  moreover have "int_at (disk s4 (head_block s4)) 0 = 0" unfolding dk area by (rule I(9))
  ultimately have inv4: "log_inv h s4" using s4(2) I(4) abs4(1) unfolding log_inv_def area dev by blast
  have run: "log_update h (bn, x) s = Some s4" using s1(1) s3(1) s4(1) by (simp add: log_update_def)
  show ?thesis using m4(3,4,5) by (intro exI [of _ s4] conjI run inv4 l4 abs4(2) dk geo dev) simp_all
qed

lemma log_updates_ok:
  fixes s :: "'a klog_scheme"
  assumes "log_inv h s" "\<forall>(b, x)\<in>set us. b \<notin> log_area s \<and> length x = BSIZE" "1 \<le> lg_outstanding s"
    and "int (card (set (logged s) \<union> fst ` set us)) < lg_size s - 1"
  shows "\<exists>s'. log_updates h us s = Some s' \<and> log_inv h s' \<and> c_view (cache_abs (lg_dev s) s') = replay us (c_view (cache_abs (lg_dev s) s)) \<and>
     disk s' = disk s \<and> trace s' = trace s \<and> lg_start s' = lg_start s \<and> lg_size s' = lg_size s \<and> lg_dev s' = lg_dev s \<and>
     lg_outstanding s' = lg_outstanding s \<and> lg_committing s' = lg_committing s"
  using assms
proof (induction us arbitrary: s)
  case (Cons u us)
  obtain b x where u: "u = (b, x)" by force
  note bd = log_inv_bounds [OF Cons.prems(1)]
  have "card (set (logged s)) \<le> card (set (logged s) \<union> fst ` set (u # us))" by (intro card_mono) auto
  moreover have "0 \<le> lh_n s" using Cons.prems(1) by (simp add: log_inv_def)
  ultimately have "lh_n s < lg_size s - 1" using Cons.prems(4) bd(7) by linarith
  from log_update_ok [OF Cons.prems(1) _ _ this Cons.prems(3), of b x] Cons.prems(2) obtain s1 where
    s1: "log_update h (b, x) s = Some s1" "log_inv h s1" "logged s1 = (if b \<in> set (logged s) then logged s else logged s @ [b])"
    "c_view (cache_abs (lg_dev s) s1) = (c_view (cache_abs (lg_dev s) s))(b := x)" "disk s1 = disk s" "trace s1 = trace s"
    "lg_start s1 = lg_start s" "lg_size s1 = lg_size s" "lg_dev s1 = lg_dev s" "lg_outstanding s1 = lg_outstanding s"
    "lg_committing s1 = lg_committing s" unfolding u by auto
  have "set (logged s1) \<union> fst ` set us = set (logged s) \<union> fst ` set (u # us)" using s1(3) by (auto simp: u)
  then have "int (card (set (logged s1) \<union> fst ` set us)) < lg_size s1 - 1" using Cons.prems(4) s1(8) by simp
  moreover have "\<forall>(b, x)\<in>set us. b \<notin> log_area s1 \<and> length x = BSIZE"
    using Cons.prems(2) log_shape_cong(3) [OF s1(7,8)] by auto
  moreover have "1 \<le> lg_outstanding s1" using Cons.prems(3) s1(10) by simp
  ultimately obtain s2 where "log_updates h us s1 = Some s2" "log_inv h s2"
    "c_view (cache_abs (lg_dev s1) s2) = replay us (c_view (cache_abs (lg_dev s1) s1))" "disk s2 = disk s1" "trace s2 = trace s1"
    "lg_start s2 = lg_start s1" "lg_size s2 = lg_size s1" "lg_dev s2 = lg_dev s1" "lg_outstanding s2 = lg_outstanding s1"
    "lg_committing s2 = lg_committing s1" using Cons.IH [OF s1(2)] by blast
  then show ?case using s1 by (simp add: u)
qed simp

lemma log_inv_ctl [simp]:
  fixes s :: "'a klog_scheme"
  shows "log_inv h (s\<lparr>lg_outstanding := n\<rparr>) = log_inv h s" "log_inv h (s\<lparr>lg_committing := n\<rparr>) = log_inv h s"
  by (simp_all add: log_inv_def log_shape_def logged_def log_area_def head_block_def log_block_def [abs_def])

lemma log_inv_woken:
  fixes s :: "'a klog_scheme"
  assumes "log_inv h s"
  shows "log_inv h (s\<lparr>procs := woken (cproc (cpus s h)) c (procs s)\<rparr>)"
proof -
  have st: "steady h s" using assms by (simp add: log_inv_def cache_ok_def)
  then have "steady h (s\<lparr>procs := woken (cproc (cpus s h)) c (procs s)\<rparr>)" by (rule steady_cong) simp_all
  moreover have "mypid h (s\<lparr>procs := woken (cproc (cpus s h)) c (procs s)\<rparr>) = mypid h s" by (rule mypid_woken [OF st])
  ultimately have "cache_ok h (lg_dev s) (s\<lparr>procs := woken (cproc (cpus s h)) c (procs s)\<rparr>)"
    using assms by (simp add: log_inv_def cache_ok_def)
  moreover have "cache_abs (lg_dev s) (s\<lparr>procs := woken (cproc (cpus s h)) c (procs s)\<rparr>) = cache_abs (lg_dev s) s"
    by (simp add: cache_abs_def)
  ultimately show ?thesis
    using assms by (simp add: log_inv_def log_shape_def logged_def log_area_def head_block_def log_block_def [abs_def])
qed

lemma section_log:
  fixes s t :: "'a klog_scheme"
  assumes "steady h s" "locks t = locks (held h Log_lock s)" "cpus t = cpus (held h Log_lock s)"
  shows "release h Log_lock t = Some (t\<lparr>locks := locks s, cpus := cpus s\<rparr>)"
  using release_held [OF steady_free(1) [OF assms(1)] steady_free(2) [OF assms(1)] assms(2,3)] steady_settle [OF assms(1)] by simp

lemma begin_op_run:
  fixes s :: "'a klog_scheme"
  assumes "steady h s" "lg_committing s = 0" "lh_n s + (lg_outstanding s + 1) * MAXOPBLOCKS \<le> LOGSIZE"
  shows "begin_op h s = Some (Inr (), s\<lparr>lg_outstanding := lg_outstanding s + 1\<rparr>)"
proof -
  let ?t = "held h Log_lock s"
  have "lg_committing ?t = lg_committing s" "lh_n ?t = lh_n s" "lg_outstanding ?t = lg_outstanding s" by (simp_all add: held_def)
  then have "begin_op h s = do { s \<leftarrow> release h Log_lock (?t\<lparr>lg_outstanding := lg_outstanding s + 1\<rparr>); Some (Inr (), s) }"
    using steady_acquire [OF assms(1), of Log_lock] assms(2,3) by (simp add: begin_op_def begin_loop_def)
  moreover have "release h Log_lock (?t\<lparr>lg_outstanding := lg_outstanding s + 1\<rparr>) = Some (s\<lparr>lg_outstanding := lg_outstanding s + 1\<rparr>)"
    using section_log [OF assms(1), of "?t\<lparr>lg_outstanding := lg_outstanding s + 1\<rparr>"] by (simp add: held_def)
  ultimately show ?thesis by simp
qed

lemma end_op_run:
  fixes s :: "'a klog_scheme"
  assumes "steady h s" "lg_committing s = 0" "lg_outstanding s = 1"
    and "commit h (s\<lparr>lg_outstanding := 0, lg_committing := 1\<rparr>) = Some t" "steady h t"
  shows "end_op h s = Some (t\<lparr>lg_committing := 0, procs := woken (cproc (cpus t h)) (Some At_log) (procs t)\<rparr>)"
proof -
  let ?s = "held h Log_lock s" and ?t = "(held h Log_lock t)\<lparr>lg_committing := 0\<rparr>"
  have f: "lg_committing ?s = lg_committing s" "lg_outstanding ?s = lg_outstanding s" by (simp_all add: held_def)
  have r: "release h Log_lock (?s\<lparr>lg_outstanding := 0, lg_committing := 1\<rparr>) = Some (s\<lparr>lg_outstanding := 0, lg_committing := 1\<rparr>)"
    using section_log [OF assms(1), of "?s\<lparr>lg_outstanding := 0, lg_committing := 1\<rparr>"] by (simp add: held_def)
  have "do { t \<leftarrow> wakeup h (Some At_log) ?t; release h Log_lock t } =
      Some (?t\<lparr>locks := locks t, cpus := cpus (settle h t), procs := woken (cproc (cpus t h)) (Some At_log) (procs t)\<rparr>)"
    using assms(5) by (intro wakeup_in_section) (simp_all add: steady_def)
  then have w: "do { t \<leftarrow> wakeup h (Some At_log) ?t; release h Log_lock t } =
      Some (t\<lparr>lg_committing := 0, procs := woken (cproc (cpus t h)) (Some At_log) (procs t)\<rparr>)"
    unfolding steady_settle [OF assms(5)] by (simp add: held_def)
  have "end_op h s = do { t \<leftarrow> wakeup h (Some At_log) ?t; release h Log_lock t }"
    using assms(2,3) f r assms(4) steady_acquire [OF assms(1), of Log_lock] steady_acquire [OF assms(5), of Log_lock]
    by (simp add: end_op_def Let_def)
  then show ?thesis using w by simp
qed

lemma log_inv_steady: "log_inv h s \<Longrightarrow> steady h s"
  by (simp add: log_inv_def cache_ok_def)

text \<open>
  C6. File system operations are atomic with respect to crashes. An operation (\<open>begin_op\<close>, then up to \<open>MAXOPBLOCKS\<close> different blocks read,
  changed and given to \<open>log_write\<close>, then \<open>end_op\<close>) runs to its end without a panic, and the device then has all its changes. Whatever
  prefix of its writes a crash leaves behind, the disk durably holds either all the changes or none.
\<close>

theorem transaction_atomic:
  fixes s :: "'a klog_scheme"
  assumes "log_inv h s" and "lh_n s = 0" and "lg_outstanding s = 0" and "lg_committing s = 0" and "12 \<le> lg_size s"
    and "\<forall>(b, x)\<in>set us. b \<notin> log_area s \<and> length x = BSIZE" and "card (fst ` set us) \<le> nat MAXOPBLOCKS"
  shows "\<exists>s' W. transaction h us s = Some s' \<and> log_inv h s' \<and> lh_n s' = 0 \<and> lg_outstanding s' = 0 \<and> lg_committing s' = 0 \<and>
     trace s' = trace s @ W \<and> disk s' = replay W (disk s) \<and> (\<forall>b. b \<notin> log_area s \<longrightarrow> disk s' b = replay us (disk s) b) \<and>
     (\<forall>k. (\<forall>b. b \<notin> log_area s \<longrightarrow> durable (lg_start s) (replay (take k W) (disk s)) b = disk s b) \<or>
          (\<forall>b. b \<notin> log_area s \<longrightarrow> durable (lg_start s) (replay (take k W) (disk s)) b = replay us (disk s) b))"
proof -
  let ?s1 = "s\<lparr>lg_outstanding := 1\<rparr>"
  note st = log_inv_steady [OF assms(1)]
  have b: "begin_op h s = Some (Inr (), ?s1)"
    using begin_op_run [OF st assms(4)] assms(2,3) by (simp add: LOGSIZE_def MAXOPBLOCKS_def)
  have l0: "logged s = []" using assms(2) by (simp add: logged_def)
  have "c_view (cache_abs (lg_dev s) s) x = c_disk (cache_abs (lg_dev s) s) x" for x using assms(1) l0 by (simp add: log_inv_def)
  then have v0: "c_view (cache_abs (lg_dev s) s) = disk s" by (simp add: fun_eq_iff) (simp add: cache_abs_def)
  have geo1: "log_area ?s1 = log_area s" by (rule log_shape_cong(3)) simp_all
  have "\<exists>s'. log_updates h us ?s1 = Some s' \<and> log_inv h s' \<and> c_view (cache_abs (lg_dev ?s1) s') = replay us (c_view (cache_abs (lg_dev ?s1) ?s1)) \<and>
     disk s' = disk ?s1 \<and> trace s' = trace ?s1 \<and> lg_start s' = lg_start ?s1 \<and> lg_size s' = lg_size ?s1 \<and> lg_dev s' = lg_dev ?s1 \<and>
     lg_outstanding s' = lg_outstanding ?s1 \<and> lg_committing s' = lg_committing ?s1"
    by (rule log_updates_ok) (use assms geo1 l0 in \<open>simp_all add: MAXOPBLOCKS_def logged_def\<close>)
  then obtain s2 where s2: "log_updates h us ?s1 = Some s2" "log_inv h s2" "c_view (cache_abs (lg_dev s) s2) = replay us (disk s)"
    "disk s2 = disk s" "trace s2 = trace s" "lg_start s2 = lg_start s" "lg_size s2 = lg_size s" "lg_dev s2 = lg_dev s"
    "lg_outstanding s2 = 1" "lg_committing s2 = 0" using v0 assms(4) by auto
  let ?s3 = "s2\<lparr>lg_outstanding := 0, lg_committing := 1\<rparr>"
  have inv3: "log_inv h ?s3" using s2(2) by simp
  have geo3: "log_area ?s3 = log_area s" by (rule log_shape_cong(3)) (simp_all add: s2(6,7))
  have f3: "disk ?s3 = disk s" "trace ?s3 = trace s" "lg_start ?s3 = lg_start s" "c_view (cache_abs (lg_dev ?s3) ?s3) = replay us (disk s)"
    "lg_outstanding ?s3 = 0"
    using s2 by simp_all
  obtain t W where c: "commit h ?s3 = Some t" "log_inv h t" "lh_n t = 0" "trace t = trace s @ W" "disk t = replay W (disk s)"
    "\<forall>b. b \<notin> log_area s \<longrightarrow> disk t b = replay us (disk s) b"
    "\<forall>k. (\<forall>b. b \<notin> log_area s \<longrightarrow> durable (lg_start s) (replay (take k W) (disk s)) b = disk s b) \<or>
          (\<forall>b. b \<notin> log_area s \<longrightarrow> durable (lg_start s) (replay (take k W) (disk s)) b = replay us (disk s) b)"
    and o: "lg_outstanding t = 0"
  proof -
    obtain t where ct: "commit h ?s3 = Some t" "kbio.more t = kbio.more (?s3\<lparr>lh_n := 0\<rparr>)" using commit_run [OF inv3] by blast
    then have "lg_outstanding t = 0" using same_more(3) [OF ct(2)] by simp
    then show ?thesis using that [of t] commit_ok [OF inv3] ct(1) unfolding geo3 f3 by auto
  qed
  let ?t = "t\<lparr>lg_committing := 0, procs := woken (cproc (cpus t h)) (Some At_log) (procs t)\<rparr>"
  have e: "end_op h s2 = Some ?t"
    by (rule end_op_run [OF log_inv_steady [OF s2(2)] s2(10,9) c(1) log_inv_steady [OF c(2)]])
  have "transaction h us s = Some ?t" using b s2(1) e by (simp add: transaction_def)
  moreover have "log_inv h ?t" using log_inv_woken [of h "t\<lparr>lg_committing := 0\<rparr>" "Some At_log"] c(2) by simp
  ultimately show ?thesis using c(3-7) o by (intro exI [of _ ?t] exI [of _ W] conjI) simp_all
qed

text \<open>
  A commit is atomic. Between operations, with up to 29 blocks pinned in the log, \<open>commit\<close> returns without running out of the 30
  buffers and leaves on the device, outside the log, the blocks as the cache has them. Whatever prefix of its writes a
  crash leaves behind, the disk durably holds either all blocks as they were or all blocks as in the cache.
\<close>

theorem commit_atomic:
  fixes s :: "'a klog_scheme"
  assumes "log_inv h s"
  shows "\<exists>s' W. commit h s = Some s' \<and> lh_n s' = 0 \<and> trace s' = trace s @ W \<and> disk s' = replay W (disk s) \<and>
     (\<forall>b. b \<notin> log_area s \<longrightarrow> disk s' b = c_view (cache_abs (lg_dev s) s) b) \<and>
     (\<forall>k. (\<forall>b. b \<notin> log_area s \<longrightarrow> durable (lg_start s) (replay (take k W) (disk s)) b = disk s b) \<or>
          (\<forall>b. b \<notin> log_area s \<longrightarrow> durable (lg_start s) (replay (take k W) (disk s)) b = c_view (cache_abs (lg_dev s) s) b))"
  using commit_ok [OF assms] by blast

section \<open>A disk with a log\<close>

lemma inj_words:
  assumes "0 \<le> a" "a + int n \<le> 2 ^ 32"
  shows "inj_on (\<lambda>t. word_of_int (a + int t) :: u32) {..<n}"
proof (rule inj_onI)
  fix t u
  assume "t \<in> {..<n}" "u \<in> {..<n}" "(word_of_int (a + int t) :: u32) = word_of_int (a + int u)"
  moreover have "uint (word_of_int (a + int t) :: u32) = a + int t" if "t \<in> {..<n}" for t
    unfolding uint_word_of_int using that assms by (intro mod_pos_pos_trivial) simp_all
  ultimately show "t = u" by (metis add_left_cancel of_nat_eq_iff)
qed

lemma log_shapeI:
  fixes s :: "'a klog_scheme"
  assumes "0 \<le> lg_start s" "lg_start s + lg_size s \<le> 2 ^ 32" "1 \<le> lg_size s" "lg_size s \<le> LOGSIZE" "length (lh_block s) = nat LOGSIZE"
  shows "log_shape s"
proof -
  let ?f = "\<lambda>t. word_of_int (lg_start s + int t) :: u32"
  have inj: "inj_on ?f {..<nat (lg_size s)}" using assms(1-3) by (intro inj_words) simp_all
  have b: "log_block s t = ?f (Suc t)" for t by (simp add: log_block_def ac_simps)
  have "inj_on (log_block s) {..<nat (lg_size s - 1)}"
  proof (rule inj_onI)
    fix t u
    assume "t \<in> {..<nat (lg_size s - 1)}" "u \<in> {..<nat (lg_size s - 1)}" "log_block s t = log_block s u"
    then show "t = u" using inj_onD [OF inj, of "Suc t" "Suc u"] by (auto simp: b)
  qed
  moreover have "head_block s \<notin> log_block s ` {..<nat (lg_size s - 1)}"
  proof
    assume "head_block s \<in> log_block s ` {..<nat (lg_size s - 1)}"
    then obtain t where "t < nat (lg_size s - 1)" "?f 0 = ?f (Suc t)" by (auto simp: head_block_def b)
    moreover from this have "Suc t < nat (lg_size s)" "0 < nat (lg_size s)" by linarith+
    ultimately show False using inj_onD [OF inj, of 0 "Suc t"] unfolding lessThan_iff by blast
  qed
  ultimately show ?thesis using assms by (simp add: log_shape_def)
qed

text \<open>A machine whose disk has a log of 30 blocks at block 2, and block 50 in the log if \<open>b\<close>.\<close>

definition log_disk :: "bool \<Rightarrow> u32 \<Rightarrow> u8 list" where
  "log_disk b = (if b then (\<lambda>_. replicate BSIZE 0)(2 := header 1 [50] (replicate BSIZE 0), 3 := replicate BSIZE 7) else (\<lambda>_. replicate BSIZE 0))"

definition log_machine :: "bool \<Rightarrow> klog" where
  "log_machine b = kbio.extend (one_disk\<lparr>disk := log_disk b\<rparr>) \<lparr>lg_start = 2, lg_size = 30, lg_outstanding = 0, lg_committing = 0, lg_dev = 1,
     lh_n = 0, lh_block = replicate 30 0\<rparr>"

lemma length_log_disk: "length (log_disk c b) = BSIZE"
  using header_ints(1) [of 1 "replicate BSIZE 0" "[50]"] by (simp add: log_disk_def LOGSIZE_def MAXOPBLOCKS_def)

lemma log_machine_boot: "steady 0 (log_machine c)" "blank_bufs (bufs (log_machine c))" "\<forall>b. length (disk (log_machine c) b) = BSIZE"
  "log_shape (log_machine c)"
proof -
  show "steady 0 (log_machine c)" using one_disk_boot(1)
    by (simp add: log_machine_def kbio.defs steady_def at_rest_def free_lock_def)
  show "blank_bufs (bufs (log_machine c))" using one_disk_boot(2) by (simp add: log_machine_def kbio.defs)
  show "\<forall>b. length (disk (log_machine c) b) = BSIZE" using length_log_disk by (simp add: log_machine_def kbio.defs)
  show "log_shape (log_machine c)" by (rule log_shapeI) (simp_all add: log_machine_def kbio.defs LOGSIZE_def MAXOPBLOCKS_def)
qed

lemma fifty: "50 \<notin> log_area (log_machine c)"
proof
  let ?f = "\<lambda>t. word_of_int (2 + int t) :: u32"
  have inj: "inj_on ?f {..<49}" by (rule inj_words) simp_all
  assume "50 \<in> log_area (log_machine c)"
  then have "50 = ?f 0 \<or> (\<exists>t<29. 50 = ?f (Suc t))"
    by (auto simp: log_area_def head_block_def log_block_def log_machine_def kbio.defs ac_simps)
  then have "\<exists>t<30. 50 = ?f t"
  proof
    assume "50 = ?f 0"
    then show ?thesis by (intro exI [of _ 0] conjI) simp_all
  next
    assume "\<exists>t<29. 50 = ?f (Suc t)"
    then obtain t where "t < 29" "50 = ?f (Suc t)" by blast
    then show ?thesis by (intro exI [of _ "Suc t"] conjI) simp_all
  qed
  then obtain t where "t < 30" "?f 48 = ?f t" by auto
  then show False using inj_onD [OF inj, of 48 t] by simp
qed

lemma log_machine_inv: "log_inv 0 (binit (log_machine False))"
proof -
  let ?m = "log_machine False" and ?s = "binit (log_machine False)"
  note boot = binit_ok [OF log_machine_boot(1) [of False] log_machine_boot(2) one_neq_zero log_machine_boot(3)]
  have f: "lg_start ?s = 2" "lg_size ?s = 30" "lg_dev ?s = 1" "lh_n ?s = 0" "length (lh_block ?s) = length (lh_block ?m)"
    "disk ?m = (\<lambda>_. replicate BSIZE 0)"
    using same_more [OF boot(3)] by (simp_all add: log_machine_def kbio.defs log_disk_def)
  have "log_shape ?s" using log_shape_cong(4) [of ?s ?m] f(1,2,5) log_machine_boot(4) by (simp add: log_machine_def kbio.defs)
  moreover have "c_disk (cache_abs 1 ?s) = (\<lambda>_. replicate BSIZE 0)" by (simp add: boot(2) f(6))
  then have "disk ?s = (\<lambda>_. replicate BSIZE 0)" by (simp add: cache_abs_def)
  then have "int_at (disk ?s (head_block ?s)) 0 = 0" by (simp add: int_at_def le32_val_def BSIZE_def)
  moreover have "logged ?s = []" by (simp add: logged_def f)
  ultimately show ?thesis using boot(1,2) by (simp add: log_inv_def f)
qed

lemma log_machine_fields:
  "lg_start (binit (log_machine False)) = 2" "lg_size (binit (log_machine False)) = 30" "lg_dev (binit (log_machine False)) = 1"
  "lh_n (binit (log_machine False)) = 0" "lg_outstanding (binit (log_machine False)) = 0" "lg_committing (binit (log_machine False)) = 0"
  "disk (binit (log_machine False)) b = replicate BSIZE 0" "50 \<notin> log_area (binit (log_machine False))"
proof -
  let ?m = "log_machine False" and ?s = "binit (log_machine False)"
  note boot = binit_ok [OF log_machine_boot(1) [of False] log_machine_boot(2) one_neq_zero log_machine_boot(3)]
  show f: "lg_start ?s = 2" "lg_size ?s = 30" "lg_dev ?s = 1" "lh_n ?s = 0" "lg_outstanding ?s = 0" "lg_committing ?s = 0"
    using same_more [OF boot(3)] by (simp_all add: log_machine_def kbio.defs)
  have "c_disk (cache_abs 1 ?s) b = replicate BSIZE 0" unfolding boot(2) by (simp add: log_machine_def kbio.defs log_disk_def)
  then show "disk ?s b = replicate BSIZE 0" by (simp add: cache_abs_def)
  have "lg_start ?m = 2" "lg_size ?m = 30" by (simp_all add: log_machine_def kbio.defs)
  then have "log_area ?s = log_area ?m" by (intro log_shape_cong(3)) (simp_all only: f(1,2))
  then show "50 \<notin> log_area ?s" using fifty by simp
qed

theorem transaction_atomic_witness:
  "\<exists>s'. transaction 0 [(50, replicate BSIZE 7)] (binit (log_machine False)) = Some s' \<and> disk s' 50 = replicate BSIZE 7"
proof -
  let ?s = "binit (log_machine False)"
  have "card (fst ` set [(50 :: u32, replicate BSIZE (7 :: u8))]) \<le> nat MAXOPBLOCKS" by (simp add: MAXOPBLOCKS_def)
  moreover have "\<forall>(b, x)\<in>set [(50, replicate BSIZE 7)]. b \<notin> log_area ?s \<and> length x = BSIZE" using log_machine_fields(8) by simp
  moreover have "12 \<le> lg_size ?s" by (simp add: log_machine_fields)
  ultimately obtain s' where "transaction 0 [(50, replicate BSIZE 7)] ?s = Some s'"
    "\<forall>b. b \<notin> log_area ?s \<longrightarrow> disk s' b = replay [(50, replicate BSIZE 7)] (disk ?s) b"
    using transaction_atomic [OF log_machine_inv log_machine_fields(4-6)] by blast
  then show ?thesis using log_machine_fields(8) by simp
qed

theorem commit_atomic_witness:
  "\<exists>s s' :: klog. log_inv 0 s \<and> disk s 50 = replicate BSIZE 0 \<and> commit 0 s = Some s' \<and> disk s' 50 = replicate BSIZE 7"
proof -
  let ?s = "(binit (log_machine False))\<lparr>lg_outstanding := 1\<rparr>"
  have area: "log_area ?s = log_area (binit (log_machine False))" by (rule log_shape_cong(3)) simp_all
  have "\<exists>s'. log_updates 0 [(50, replicate BSIZE 7)] ?s = Some s' \<and> log_inv 0 s' \<and>
     c_view (cache_abs (lg_dev ?s) s') = replay [(50, replicate BSIZE 7)] (c_view (cache_abs (lg_dev ?s) ?s)) \<and>
     disk s' = disk ?s \<and> trace s' = trace ?s \<and> lg_start s' = lg_start ?s \<and> lg_size s' = lg_size ?s \<and> lg_dev s' = lg_dev ?s \<and>
     lg_outstanding s' = lg_outstanding ?s \<and> lg_committing s' = lg_committing ?s"
    by (rule log_updates_ok) (use log_machine_inv log_machine_fields area in \<open>simp_all add: logged_def\<close>)
  then obtain s :: klog where u: "log_inv 0 s" "c_view (cache_abs (lg_dev ?s) s) = replay [(50, replicate BSIZE 7)] (c_view (cache_abs (lg_dev ?s) ?s))"
    "disk s = disk ?s" "lg_start s = lg_start ?s" "lg_size s = lg_size ?s" "lg_dev s = lg_dev ?s"
    by blast
  then have s: "log_inv 0 s" "c_view (cache_abs (lg_dev s) s) 50 = replicate BSIZE 7" "disk s = disk ?s" "log_area s = log_area ?s"
    using log_shape_cong(3) [OF u(4,5)] by simp_all
  from commit_atomic [OF s(1)] obtain s' where "commit 0 s = Some s'" "\<forall>b. b \<notin> log_area s \<longrightarrow> disk s' b = c_view (cache_abs (lg_dev s) s) b"
    by blast
  then show ?thesis using s log_machine_fields(7,8) area by (intro exI [of _ s] exI [of _ s']) simp
qed

theorem recovery_exact_witness:
  "\<exists>s'. initlog 0 1 2 30 (binit (log_machine True)) = Some s' \<and> disk (log_machine True) 50 = replicate BSIZE 0 \<and>
     disk s' 50 = replicate BSIZE 7"
proof -
  let ?m = "log_machine True"
  have m: "?m\<lparr>lg_start := sint (2 :: u32), lg_size := sint (30 :: u32)\<rparr> = ?m" by (simp add: log_machine_def kbio.defs)
  note H = header_ints(2) [where n = 1 and x = "replicate BSIZE 0" and bl = "[50]"]
    header_ints(3) [where n = 1 and x = "replicate BSIZE 0" and bl = "[50]" and j = 0]
  have h: "int_at (disk ?m 2) 0 = 1" "int_at (disk ?m 2) (Suc 0) = 50" "disk ?m 3 = replicate BSIZE 7"
    using H by (simp_all add: log_machine_def kbio.defs log_disk_def LOGSIZE_def MAXOPBLOCKS_def)
  have g: "head_block ?m = 2" "lg_size ?m = 30" by (simp_all add: log_machine_def kbio.defs head_block_def)
  have v: "valid_head (?m\<lparr>lg_start := sint (2 :: u32), lg_size := sint (30 :: u32)\<rparr>) (disk ?m)"
    unfolding m using fifty [of True] h(1,2) by (simp add: valid_head_def g)
  have dur: "durable (sint (2 :: u32)) (disk ?m) 50 = replicate BSIZE 7"
    using h by (simp add: durable_def disk_log_def)
  have sh: "log_shape (?m\<lparr>lg_start := sint (2 :: u32), lg_size := sint (30 :: u32)\<rparr>)" unfolding m by (rule log_machine_boot(4))
  obtain s' where "initlog 0 1 2 30 (binit ?m) = Some s'"
    "\<forall>b. b \<notin> log_area ?m \<longrightarrow> disk s' b = durable (sint (2 :: u32)) (disk ?m) b"
    using recovery_exact [OF log_machine_boot(1,2) one_neq_zero log_machine_boot(3) sh v] unfolding m by blast
  moreover have "disk ?m 50 = replicate BSIZE 0" by (simp add: log_machine_def kbio.defs log_disk_def)
  ultimately show ?thesis using fifty dur by (intro exI [of _ s']) simp
qed

end
