(* ===== verification/Grep.thy ===== *)
theory Grep
  imports Kstring
begin

text \<open>
  A user program and the library it is linked with: \<open>user/ulib.c\<close> and \<open>user/grep.c\<close>, the same files in \<open>lab2\<close> and
  \<open>lab3\<close>. A string is the list of the bytes from the pointer on, an object that is written the list of all its bytes;
  an access outside is \<^const>\<open>None\<close>. A \<open>char\<close> is unsigned, as on RISC-V.

  The file that \<open>grep\<close> reads is a list of bytes. A \<open>read\<close> returns at least one byte when there is one and room for it;
  how many, up to the room, is decided by a list of sizes, read after read.
\<close>

section \<open>The user library\<close>

fun strcpy :: "u8 list \<Rightarrow> nat \<Rightarrow> u8 list \<Rightarrow> u8 list option" where
  "strcpy s i [] = None"
| "strcpy s i (c # t) = do { s \<leftarrow> aset s i c; if c \<noteq> 0 then strcpy s (i + 1) t else Some s }"

fun strcmp :: "u8 list \<Rightarrow> u8 list \<Rightarrow> int option" where
  "strcmp (a # p) (b # q) = (if a \<noteq> 0 \<and> a = b then strcmp p q else Some (uint a - uint b))"
| "strcmp p q = None"

fun u_strlen :: "u8 list \<Rightarrow> nat option" where
  "u_strlen [] = None"
| "u_strlen (c # s) = (if c = 0 then Some 0 else map_option Suc (u_strlen s))"

fun u_memset :: "u8 list \<Rightarrow> nat \<Rightarrow> u8 \<Rightarrow> nat \<Rightarrow> u8 list option" where
  "u_memset m i c 0 = Some m"
| "u_memset m i c (Suc n) = do { m \<leftarrow> aset m i c; u_memset m (i + 1) c n }"

text \<open>\<open>strchr\<close> gives the distance to the first \<open>c\<close>, if there is one.\<close>

fun strchr :: "u8 list \<Rightarrow> u8 \<Rightarrow> nat option option" where
  "strchr [] c = None"
| "strchr (x # s) c =
     (if x = 0 then Some None else if x = c then Some (Some 0) else map_option (map_option Suc) (strchr s c))"

text \<open>\<open>gets\<close> reads byte by byte from standard input, which is what is left of \<open>inp\<close>.\<close>

fun gets_loop :: "u8 list \<Rightarrow> nat \<Rightarrow> int \<Rightarrow> u8 list \<Rightarrow> (u8 list \<times> u8 list) option" where
  "gets_loop buf i max_len [] = do { buf \<leftarrow> aset buf i 0; Some (buf, []) }"
| "gets_loop buf i max_len (c # inp) =
     (if int i + 1 < max_len then do {
        buf \<leftarrow> aset buf i c;
        if c = 10 \<or> c = 13 then do { buf \<leftarrow> aset buf (i + 1) 0; Some (buf, inp) }
        else gets_loop buf (i + 1) max_len inp }
      else do { buf \<leftarrow> aset buf i 0; Some (buf, c # inp) })"

definition gets :: "u8 list \<Rightarrow> int \<Rightarrow> u8 list \<Rightarrow> (u8 list \<times> u8 list) option" where
  "gets buf max_len inp = gets_loop buf 0 max_len inp"

text \<open>A number that does not fit into an \<open>int\<close> is \<^const>\<open>None\<close>: its computation overflows.\<close>

fun atoi_loop :: "int \<Rightarrow> u8 list \<Rightarrow> int option" where
  "atoi_loop n [] = None"
| "atoi_loop n (c # s) =
     (if 48 \<le> c \<and> c \<le> 57 then
        (if n * 10 + uint c < 2 ^ 31 then atoi_loop (n * 10 + uint c - 48) s else None)
      else Some n)"

definition atoi :: "u8 list \<Rightarrow> int option" where
  "atoi s = atoi_loop 0 s"

fun copy_up :: "u8 list \<Rightarrow> nat \<Rightarrow> nat \<Rightarrow> nat \<Rightarrow> u8 list option" where
  "copy_up m d s 0 = Some m"
| "copy_up m d s (Suc n) = do { c \<leftarrow> aget m s; m \<leftarrow> aset m d c; copy_up m (d + 1) (s + 1) n }"

fun copy_down :: "u8 list \<Rightarrow> nat \<Rightarrow> nat \<Rightarrow> nat \<Rightarrow> u8 list option" where
  "copy_down m d s 0 = Some m"
| "copy_down m d s (Suc n) = do { c \<leftarrow> aget m (s - 1); m \<leftarrow> aset m (d - 1) c; copy_down m (d - 1) (s - 1) n }"

text \<open>The two pointers of \<open>memmove\<close> are into one object; \<open>n\<close> is an \<open>int\<close>.\<close>

definition u_memmove :: "u8 list \<Rightarrow> nat \<Rightarrow> nat \<Rightarrow> int \<Rightarrow> u8 list option" where
  "u_memmove m dst src n = (if dst < src then copy_up m dst src (nat n) else copy_down m (dst + nat n) (src + nat n) (nat n))"

definition u_memcpy :: "u8 list \<Rightarrow> nat \<Rightarrow> nat \<Rightarrow> nat \<Rightarrow> u8 list option" where
  "u_memcpy m dst src n = u_memmove m dst src (int n)"

fun u_memcmp :: "u8 list \<Rightarrow> u8 list \<Rightarrow> nat \<Rightarrow> int option" where
  "u_memcmp s1 s2 0 = Some 0"
| "u_memcmp s1 s2 (Suc n) = do {
     a \<leftarrow> aget s1 0;
     b \<leftarrow> aget s2 0;
     if a \<noteq> b then Some (uint a - uint b) else u_memcmp (tl s1) (tl s2) n }"

section \<open>The matcher\<close>

text \<open>The operators: \<open>^\<close> is 94, \<open>*\<close> is 42, \<open>.\<close> is 46 and \<open>$\<close> is 36.\<close>

function matchhere :: "u8 list \<Rightarrow> u8 list \<Rightarrow> bool option"
  and matchstar :: "u8 \<Rightarrow> u8 list \<Rightarrow> u8 list \<Rightarrow> bool option" where
  "matchhere re text = do {
     r0 \<leftarrow> aget re 0;
     if r0 = 0 then Some True
     else do {
       r1 \<leftarrow> aget re 1;
       if r1 = 42 then matchstar r0 (drop 2 re) text
       else if r0 = 36 \<and> r1 = 0 then do { t \<leftarrow> aget text 0; Some (t = 0) }
       else do {
         t \<leftarrow> aget text 0;
         if t \<noteq> 0 \<and> (r0 = 46 \<or> r0 = t) then matchhere (drop 1 re) (drop 1 text) else Some False } } }"
| "matchstar c re text = do {
     b \<leftarrow> matchhere re text;
     if b then Some True
     else do {
       t \<leftarrow> aget text 0;
       if t \<noteq> 0 \<and> (t = c \<or> c = 46) then matchstar c re (drop 1 text) else Some False } }"
  by pat_completeness auto

termination
  by (relation "measures [case_sum (\<lambda>(re, t). length re) (\<lambda>(c, re, t). length re),
        case_sum (\<lambda>(re, t). length t) (\<lambda>(c, re, t). length t), case_sum (\<lambda>_. 0) (\<lambda>_. 1)]") auto

declare matchhere.simps [simp del] matchstar.simps [simp del]

fun match_loop :: "u8 list \<Rightarrow> u8 list \<Rightarrow> bool option" where
  "match_loop re [] = do { b \<leftarrow> matchhere re []; if b then Some True else None }"
| "match_loop re (t # text) = do {
     b \<leftarrow> matchhere re (t # text);
     if b then Some True else if t \<noteq> 0 then match_loop re text else Some False }"

definition match :: "u8 list \<Rightarrow> u8 list \<Rightarrow> bool option" where
  "match re text = do {
     r0 \<leftarrow> aget re 0;
     if r0 = 94 then matchhere (drop 1 re) text else match_loop re text }"

section \<open>The loop over the file\<close>

text \<open>What a \<open>read\<close> into a room of \<open>n\<close> bytes returns: 0 bytes at the end of the file, or when there is no room.\<close>

definition read_size :: "nat \<Rightarrow> nat list \<Rightarrow> u8 list \<Rightarrow> nat" where
  "read_size n ks inp = min (min n (length inp)) (case ks of [] \<Rightarrow> n | k # ks \<Rightarrow> max 1 k)"

text \<open>The lines in the buffer, from \<open>p\<close> on.\<close>

function grep_lines :: "u8 list \<Rightarrow> u8 list \<Rightarrow> nat \<Rightarrow> u8 list \<Rightarrow> (u8 list \<times> nat \<times> u8 list) option" where
  "grep_lines pattern buf p out = do {
     q \<leftarrow> strchr (drop p buf) 10;
     case q of
       None \<Rightarrow> Some (buf, p, out)
     | Some j \<Rightarrow> do {
         let buf0 = buf[p + j := 0];
         b \<leftarrow> match pattern (drop p buf0);
         let buf1 = (if b then buf0[p + j := 10] else buf0);
         let out = (if b then out @ take (j + 1) (drop p buf1) else out);
         grep_lines pattern buf1 (p + j + 1) out } }"
  by pat_completeness auto

lemma strchr_bound: "strchr s c = Some (Some j) \<Longrightarrow> j < length s"
proof (induction s arbitrary: j)
  case (Cons x s)
  then show ?case by (auto split: if_splits)
qed simp

termination grep_lines
proof (relation "measure (\<lambda>(pattern, buf, p, out). length buf - p)", goal_cases)
  case (2 pattern buf p out q j)
  then have "j < length (drop p buf)" using strchr_bound by blast
  then show ?case using 2 by simp
qed simp

declare grep_lines.simps [simp del]

function grep_loop :: "u8 list \<Rightarrow> u8 list \<Rightarrow> nat \<Rightarrow> nat list \<Rightarrow> u8 list \<Rightarrow> u8 list \<Rightarrow> u8 list option" where
  "grep_loop pattern buf m ks inp out =
     (let n = read_size (1024 - m - 1) ks inp
      in if n = 0 then Some out
         else do {
           let buf = take m buf @ take n inp @ drop (m + n) buf;
           let m = m + n;
           buf \<leftarrow> aset buf m 0;
           (buf, p, out) \<leftarrow> grep_lines pattern buf 0 out;
           (buf, m) \<leftarrow> (if 0 < m then do {
                        let m = m - p;
                        buf \<leftarrow> u_memmove buf 0 p (int m);
                        Some (buf, m) }
                      else Some (buf, m));
           grep_loop pattern buf m (tl ks) (drop n inp) out })"
  by pat_completeness auto

termination
proof (relation "measure (\<lambda>(pattern, buf, m, ks, inp, out). length inp)", goal_cases)
  case (2 pattern buf m ks inp out n)
  from 2(1,2) have "0 < n" "n \<le> length inp" unfolding read_size_def by linarith+
  then show ?case by simp
qed simp

declare grep_loop.simps [simp del]

definition grep :: "u8 list \<Rightarrow> u8 list \<Rightarrow> nat list \<Rightarrow> u8 list \<Rightarrow> u8 list option" where
  "grep pattern buf ks inp = grep_loop pattern buf 0 ks inp []"

section \<open>What the matcher matches\<close>

datatype atom = One u8 | Any
datatype piece = Single atom | Star atom | At_end

definition atom_of :: "u8 \<Rightarrow> atom" where
  "atom_of c = (if c = 46 then Any else One c)"

fun atom_ok :: "atom \<Rightarrow> u8 \<Rightarrow> bool" where
  "atom_ok (One a) c \<longleftrightarrow> c = a"
| "atom_ok Any c \<longleftrightarrow> True"

fun pieces :: "u8 list \<Rightarrow> piece list" where
  "pieces [] = []"
| "pieces [c] = [if c = 36 then At_end else Single (atom_of c)]"
| "pieces (c # d # re) = (if d = 42 then Star (atom_of c) # pieces re else Single (atom_of c) # pieces (d # re))"

text \<open>The texts that begin with something a pattern describes.\<close>

inductive accepts :: "piece list \<Rightarrow> u8 list \<Rightarrow> bool" where
  accepts_nil: "accepts [] s"
| accepts_single: "atom_ok a c \<Longrightarrow> accepts ps s \<Longrightarrow> accepts (Single a # ps) (c # s)"
| accepts_star: "\<forall>c\<in>set xs. atom_ok a c \<Longrightarrow> accepts ps s \<Longrightarrow> accepts (Star a # ps) (xs @ s)"
| accepts_end: "accepts ps [] \<Longrightarrow> accepts (At_end # ps) []"

inductive_simps accepts_simps: "accepts [] s" "accepts (Single a # ps) s" "accepts (At_end # ps) s"
inductive_cases accepts_starE: "accepts (Star a # ps) s"

definition matches :: "u8 list \<Rightarrow> u8 list \<Rightarrow> bool" where
  "matches re text = (case re of
     c # r \<Rightarrow> if c = 94 then accepts (pieces r) text else (\<exists>k\<le>length text. accepts (pieces re) (drop k text))
   | [] \<Rightarrow> True)"

lemma star_Nil: "accepts (Star a # ps) [] \<longleftrightarrow> accepts ps []"
  using accepts_star [of "[]" a ps "[]"] by (auto elim: accepts_starE)

lemma star_Cons: "accepts (Star a # ps) (c # s) \<longleftrightarrow> accepts ps (c # s) \<or> atom_ok a c \<and> accepts (Star a # ps) s"
proof
  assume "accepts (Star a # ps) (c # s)"
  then obtain xs t where xs: "c # s = xs @ t" "\<forall>c\<in>set xs. atom_ok a c" "accepts ps t" by (auto elim: accepts_starE)
  show "accepts ps (c # s) \<or> atom_ok a c \<and> accepts (Star a # ps) s"
  proof (cases xs)
    case Nil
    then show ?thesis using xs by simp
  next
    case (Cons x ys)
    then show ?thesis using xs accepts_star [of ys a ps t] by simp
  qed
next
  assume "accepts ps (c # s) \<or> atom_ok a c \<and> accepts (Star a # ps) s"
  then show "accepts (Star a # ps) (c # s)"
  proof
    assume "accepts ps (c # s)"
    then show ?thesis using accepts_star [of "[]" a ps "c # s"] by simp
  next
    assume s: "atom_ok a c \<and> accepts (Star a # ps) s"
    then obtain xs t where "s = xs @ t" "\<forall>c\<in>set xs. atom_ok a c" "accepts ps t" by (auto elim: accepts_starE)
    then show ?thesis using s accepts_star [of "c # xs" a ps t] by simp
  qed
qed

lemma atom_of_ok: "atom_ok (atom_of c) t \<longleftrightarrow> t = c \<or> c = 46"
  by (simp add: atom_of_def)

text \<open>Both functions of the matcher, on strings in memory: a text, its end, and whatever follows.\<close>

lemma matchstar_rec:
  assumes "\<And>tx. 0 \<notin> set tx \<Longrightarrow> matchhere (re @ 0 # x) (tx @ 0 # y) = Some (accepts ps tx)"
  shows "0 \<notin> set tx \<Longrightarrow> matchstar c (re @ 0 # x) (tx @ 0 # y) = Some (accepts (Star (atom_of c) # ps) tx)"
proof (induction tx)
  case Nil
  then show ?case using assms [of "[]"] by (subst matchstar.simps) (simp add: aget_def star_Nil)
next
  case (Cons t tx)
  then show ?case using assms [of "t # tx"]
    by (subst matchstar.simps) (auto simp: aget_def star_Cons atom_of_ok)
qed

lemma matchhere_accepts:
  "0 \<notin> set re \<Longrightarrow> 0 \<notin> set tx \<Longrightarrow> matchhere (re @ 0 # x) (tx @ 0 # y) = Some (accepts (pieces re) tx)"
proof (induction re arbitrary: tx rule: pieces.induct)
  case 1
  then show ?case by (simp add: matchhere.simps aget_def accepts_simps)
next
  case (2 c)
  have e: "matchhere (0 # x) s = Some True" for s by (simp add: matchhere.simps aget_def)
  show ?case
    using 2 by (subst matchhere.simps) (cases tx; auto simp: aget_def accepts_simps atom_of_ok e)
next
  case (3 c d re)
  show ?case
  proof (cases "d = 42")
    case True
    have "matchhere ((c # d # re) @ 0 # x) (tx @ 0 # y) = matchstar c (re @ 0 # x) (tx @ 0 # y)"
      using 3 True by (subst matchhere.simps) (simp add: aget_def)
    also have "\<dots> = Some (accepts (Star (atom_of c) # pieces re) tx)"
      by (rule matchstar_rec) (use 3 True in auto)
    finally show ?thesis using True by simp
  next
    case False
    then show ?thesis
      using 3 by (subst matchhere.simps) (cases tx; auto simp: aget_def accepts_simps atom_of_ok)
  qed
qed

lemma match_loop_accepts:
  assumes "\<And>tx. 0 \<notin> set tx \<Longrightarrow> matchhere re (tx @ 0 # y) = Some (accepts ps tx)"
  shows "0 \<notin> set tx \<Longrightarrow> match_loop re (tx @ 0 # y) = Some (\<exists>k\<le>length tx. accepts ps (drop k tx))"
proof (induction tx)
  case Nil
  then show ?case using assms [of "[]"] by simp
next
  case (Cons t tx)
  have "(\<exists>k\<le>length (t # tx). accepts ps (drop k (t # tx))) \<longleftrightarrow>
      accepts ps (t # tx) \<or> (\<exists>k\<le>length tx. accepts ps (drop k tx))"
    by (metis Suc_le_mono drop0 drop_Suc_Cons le0 length_Cons not0_implies_Suc)
  then show ?case using Cons assms [of "t # tx"] by auto
qed

lemma match_correct_mem:
  assumes "0 \<notin> set re" and "0 \<notin> set tx"
  shows "match (re @ 0 # x) (tx @ 0 # y) = Some (matches re tx)"
proof (cases re)
  case Nil
  have "matchhere (0 # x) (tx @ 0 # y) = Some True" by (simp add: matchhere.simps aget_def)
  then show ?thesis using Nil by (cases tx) (simp_all add: match_def matches_def aget_def)
next
  case (Cons c r)
  show ?thesis
  proof (cases "c = 94")
    case True
    then show ?thesis using Cons assms matchhere_accepts [of r tx x y] by (simp add: match_def matches_def aget_def)
  next
    case False
    have "match_loop (re @ 0 # x) (tx @ 0 # y) = Some (\<exists>k\<le>length tx. accepts (pieces re) (drop k tx))"
      by (rule match_loop_accepts [OF matchhere_accepts]) (use assms in auto)
    then show ?thesis using False Cons by (simp add: match_def matches_def aget_def)
  qed
qed

text \<open>
  C31. \<open>match\<close> is the search for a regular expression. For every pattern and text, as strings in memory, it returns without reading
  past the end of either, and says whether some part of the text - the beginning, after a \<open>^\<close> - is described by the
  pattern, where \<open>c*\<close> is any number of \<open>c\<close>, a dot any character, and a final dollar the end of the text.
\<close>

theorem match_correct:
  assumes "0 \<notin> set re" and "0 \<notin> set tx"
  shows "match (re @ 0 # x) (tx @ 0 # y) = Some (matches re tx)"
  by (rule match_correct_mem [OF assms])

theorem match_correct_witness:
  "match ([97, 42, 98] @ 0 # []) ([99, 97, 97, 98] @ 0 # []) = Some True"
proof -
  have "accepts (pieces [97, 42, 98]) (drop 1 [99, 97, 97, 98])"
    by (simp add: star_Cons accepts_simps atom_of_def)
  then have "matches [97, 42, 98] [99, 97, 97, 98]" by (auto simp: matches_def intro: exI [of _ 1])
  then show ?thesis using match_correct [of "[97, 42, 98]" "[99, 97, 97, 98]" "[]" "[]"] by simp
qed

section \<open>Lines\<close>

text \<open>The complete lines of a text, and what follows the last of them; \<open>cur\<close> is the line that has begun.\<close>

fun file_lines :: "u8 list \<Rightarrow> u8 list \<Rightarrow> u8 list list" where
  "file_lines cur [] = []"
| "file_lines cur (c # s) = (if c = 10 then cur # file_lines [] s else file_lines (cur @ [c]) s)"

fun last_line :: "u8 list \<Rightarrow> u8 list \<Rightarrow> u8 list" where
  "last_line cur [] = cur"
| "last_line cur (c # s) = (if c = 10 then last_line [] s else last_line (cur @ [c]) s)"

definition printed :: "u8 list \<Rightarrow> u8 list list \<Rightarrow> u8 list" where
  "printed re ls = concat (map (\<lambda>l. l @ [10]) (filter (matches re) ls))"

lemma printed_simps [simp]: "printed re [] = []" "printed re (ls @ ms) = printed re ls @ printed re ms"
  "printed re (l # ls) = (if matches re l then l @ [10] else []) @ printed re ls"
  by (simp_all add: printed_def)

lemma lines_append:
  "file_lines cur (s @ t) = file_lines cur s @ file_lines (last_line cur s) t"
  "last_line cur (s @ t) = last_line (last_line cur s) t"
  by (induction s arbitrary: cur) auto

lemma lines_within: "10 \<notin> set l \<Longrightarrow> file_lines cur l = []" "10 \<notin> set l \<Longrightarrow> last_line cur l = cur @ l"
  by (induction l arbitrary: cur) auto

lemma last_line_chars: "10 \<notin> set cur \<Longrightarrow> 10 \<notin> set (last_line cur s) \<and> set (last_line cur s) \<subseteq> set cur \<union> set s"
proof (induction s arbitrary: cur)
  case (Cons c s)
  then show ?case using Cons.IH [of "[]"] Cons.IH [of "cur @ [c]"] by (cases "c = 10") auto
qed simp

lemma last_line_length: "length (last_line cur s) \<le> length cur + length s"
proof (induction s arbitrary: cur)
  case (Cons c s)
  then show ?case using Cons.IH [of "[]"] Cons.IH [of "cur @ [c]"] by (cases "c = 10") auto
qed simp

lemma strchr_none: "0 \<notin> set s \<Longrightarrow> c \<notin> set s \<Longrightarrow> strchr (s @ 0 # t) c = Some None"
  by (induction s) auto

lemma strchr_some: "0 \<notin> set s \<Longrightarrow> c \<notin> set s \<Longrightarrow> c \<noteq> 0 \<Longrightarrow> strchr (s @ c # t) c = Some (Some (length s))"
  by (induction s) auto

lemma grep_lines_run:
  assumes "0 \<notin> set re" "0 \<notin> set s"
  shows "\<exists>pre'. grep_lines (re @ 0 # x) (pre @ s @ 0 # post) (length pre) out =
      Some (pre' @ last_line [] s @ 0 # post, length pre', out @ printed re (file_lines [] s)) \<and>
    length pre' + length (last_line [] s) = length pre + length s"
  using assms(2)
proof (induction "length s" arbitrary: s pre out rule: less_induct)
  case less
  show ?case
  proof (cases "10 \<in> set s")
    case False
    then show ?thesis
      using less.prems by (intro exI [of _ pre], subst grep_lines.simps) (simp add: strchr_none lines_within)
  next
    case True
    then obtain l t where s: "s = l @ 10 # t" "10 \<notin> set l" by (meson split_list_first)
    define nl where "nl = (if matches re l then 10 else (0 :: u8))"
    have m: "match (re @ 0 # x) (l @ 0 # t @ 0 # post) = Some (matches re l)"
      using match_correct_mem assms(1) less.prems s(1) by simp
    have c: "strchr (l @ 10 # t @ 0 # post) 10 = Some (Some (length l))"
      using less.prems s by (intro strchr_some) auto
    have "grep_lines (re @ 0 # x) (pre @ s @ 0 # post) (length pre) out =
        grep_lines (re @ 0 # x) ((pre @ l @ [nl]) @ t @ 0 # post) (length (pre @ l @ [nl]))
          (out @ (if matches re l then l @ [10] else []))"
      by (subst grep_lines.simps) (simp add: s(1) c m list_update_append nl_def Let_def)
    moreover have "length t < length s" "0 \<notin> set t" using less.prems by (simp_all add: s(1))
    ultimately obtain pre' where
      "grep_lines (re @ 0 # x) (pre @ s @ 0 # post) (length pre) out =
       Some (pre' @ last_line [] t @ 0 # post, length pre', out @ (if matches re l then l @ [10] else []) @ printed re (file_lines [] t))"
      "length pre' + length (last_line [] t) = length (pre @ l @ [nl]) + length t"
      using less.hyps [of t "pre @ l @ [nl]" "out @ (if matches re l then l @ [10] else [])"] by auto
    moreover have "file_lines [] s = l # file_lines [] t" "last_line [] s = last_line [] t"
      using s by (simp_all add: lines_append lines_within)
    ultimately show ?thesis by (intro exI [of _ pre']) (simp add: s(1))
  qed
qed

lemma copy_is_move: "copy_up m d s n = move_up m d s n" "copy_down m d s n = move_down m d s n"
  by (induction n arbitrary: m d s) (simp_all cong: Option.bind_cong)

lemma u_memmove_put: "src + n \<le> length m \<Longrightarrow> dst \<le> src \<Longrightarrow> u_memmove m dst src (int n) = Some (put m dst (take n (drop src m)))"
  using move_up_put [of dst src n m] move_down_put [of src dst n m]
  by (cases "dst = src") (simp_all add: u_memmove_def copy_is_move)

section \<open>The whole file\<close>

lemma take_put: "put (a @ b @ c) 0 b = b @ drop (length b) (a @ b @ c)"
  by (simp add: put_def)

text \<open>One round of the loop: what is read completes lines, and the rest moves to the front of the buffer.\<close>

lemma grep_round:
  fixes pend inp re junk x out :: "u8 list" and ks :: "nat list"
  assumes "length (pend @ junk) = 1024" "0 \<notin> set re" "0 \<notin> set pend" "10 \<notin> set pend" "0 \<notin> set inp" "inp \<noteq> []" "length pend < 1023"
  defines "n \<equiv> read_size (1023 - length pend) ks inp"
  defines "s \<equiv> pend @ take n inp"
  shows "\<exists>junk'. grep_loop (re @ 0 # x) (pend @ junk) (length pend) ks inp out =
      grep_loop (re @ 0 # x) (last_line [] s @ junk') (length (last_line [] s)) (tl ks) (drop n inp) (out @ printed re (file_lines [] s)) \<and>
    length (last_line [] s @ junk') = 1024 \<and> 0 < n"
proof -
  have n: "0 < n" "n \<le> length inp" "length pend + n \<le> 1023"
    using assms(6,7) by (cases ks; simp add: n_def read_size_def)+
  define post where "post = drop (n + 1) junk"
  have len: "length s = length pend + n" "length post = 1023 - length s" using n assms(1) by (simp_all add: s_def post_def)
  have buf: "(take (length pend) (pend @ junk) @ take n inp @ drop (length pend + n) (pend @ junk))[length pend + n := 0] = [] @ s @ 0 # post"
    using n assms(1) Cons_nth_drop_Suc [of n junk] by (simp add: s_def post_def list_update_append upd_conv_take_nth_drop)
  have "0 \<notin> set s" using assms(3,5) by (auto simp: s_def dest: in_set_takeD)
  from grep_lines_run [OF assms(2) this, of x "[]" post out] obtain pre' where
    g: "grep_lines (re @ 0 # x) ([] @ s @ 0 # post) 0 out = Some (pre' @ last_line [] s @ 0 # post, length pre', out @ printed re (file_lines [] s))"
    and l: "length pre' + length (last_line [] s) = length s" by auto
  have diff: "length pend + n - length pre' = length (last_line [] s)" using l len(1) by simp
  let ?b = "pre' @ last_line [] s @ 0 # post"
  have mv: "u_memmove ?b 0 (length pre') (int (length (last_line [] s))) = Some (put ?b 0 (last_line [] s))"
    by (subst u_memmove_put) simp_all
  have "grep_loop (re @ 0 # x) (pend @ junk) (length pend) ks inp out =
      grep_loop (re @ 0 # x) (put ?b 0 (last_line [] s)) (length (last_line [] s)) (tl ks) (drop n inp) (out @ printed re (file_lines [] s))"
    using n g mv diff assms(1) buf by (subst grep_loop.simps) (simp add: n_def [symmetric] Let_def aset_def)
  moreover have "put ?b 0 (last_line [] s) = last_line [] s @ drop (length (last_line [] s)) ?b" by (simp add: put_def)
  moreover have "length ?b = 1024" using l len n by simp
  ultimately show ?thesis using n(1) by (intro exI [of _ "drop (length (last_line [] s)) ?b"]) simp
qed

lemma grep_loop_run:
  assumes "length (pend @ junk) = 1024" "0 \<notin> set re" "0 \<notin> set pend" "10 \<notin> set pend" "0 \<notin> set inp"
    and "\<forall>l\<in>set (file_lines pend inp). length l < 1023" "length (last_line pend inp) < 1023"
  shows "grep_loop (re @ 0 # x) (pend @ junk) (length pend) ks inp out = Some (out @ printed re (file_lines pend inp))"
  using assms
proof (induction "length inp" arbitrary: pend junk ks inp out rule: less_induct)
  case less
  show ?case
  proof (cases "inp = []")
    case True
    then show ?thesis by (subst grep_loop.simps) (simp add: read_size_def)
  next
    case False
    have fits: "length cur < 1023" if "\<forall>l\<in>set (file_lines cur s). length l < 1023" "length (last_line cur s) < 1023" for cur s
      using that
    proof (induction s arbitrary: cur)
      case (Cons c s)
      then show ?case using Cons.IH [of "cur @ [c]"] by (cases "c = 10") auto
    qed simp
    have p: "length pend < 1023" using fits less.prems(6,7) by blast
    define n where "n = read_size (1023 - length pend) ks inp"
    define s where "s = pend @ take n inp"
    obtain junk' where r: "grep_loop (re @ 0 # x) (pend @ junk) (length pend) ks inp out =
        grep_loop (re @ 0 # x) (last_line [] s @ junk') (length (last_line [] s)) (tl ks) (drop n inp) (out @ printed re (file_lines [] s))"
      "length (last_line [] s @ junk') = 1024" "0 < n"
      using grep_round [OF less.prems(1-5) False p, where ks = ks and x = x and out = out] unfolding n_def s_def by blast
    have cur: "file_lines [] s = file_lines pend (take n inp)" "last_line [] s = last_line pend (take n inp)"
      using less.prems(4) by (simp_all add: s_def lines_append lines_within)
    have all: "file_lines pend inp = file_lines [] s @ file_lines (last_line [] s) (drop n inp)"
      "last_line pend inp = last_line (last_line [] s) (drop n inp)"
      unfolding cur using lines_append [of pend "take n inp" "drop n inp"] by simp_all
    have chars: "10 \<notin> set (last_line [] s)" "set (last_line [] s) \<subseteq> set pend \<union> set inp"
      using last_line_chars [OF less.prems(4), of "take n inp"] set_take_subset [of n inp] unfolding cur by blast+
    have "length (drop n inp) < length inp" using r(3) False by (cases inp) auto
    moreover have "0 \<notin> set (last_line [] s)" "0 \<notin> set (drop n inp)" using chars(2) less.prems(3,5) by (auto dest: in_set_dropD)
    ultimately have "grep_loop (re @ 0 # x) (last_line [] s @ junk') (length (last_line [] s)) (tl ks) (drop n inp) (out @ printed re (file_lines [] s)) =
        Some ((out @ printed re (file_lines [] s)) @ printed re (file_lines (last_line [] s) (drop n inp)))"
      using less.hyps [of "drop n inp" "last_line [] s" junk'] r(2) chars(1) less.prems(2,6,7) unfolding all by simp
    then show ?thesis unfolding r(1) all by simp
  qed
qed

text \<open>
  C32. \<open>grep\<close> prints the lines that match, whatever the sizes of the reads. On a file without NUL bytes whose
  lines have at most 1022 characters it returns, and prints the complete lines that match, in their order; a
  last line without a newline is not among them.
\<close>

theorem grep_prints:
  assumes "0 \<notin> set re" and "0 \<notin> set inp" and "length buf = 1024"
    and "\<forall>l\<in>set (file_lines [] inp). length l < 1023" and "length (last_line [] inp) < 1023"
  shows "grep (re @ 0 # x) buf ks inp = Some (printed re (file_lines [] inp))"
  using grep_loop_run [of "[]" buf re inp x ks "[]"] assms by (simp add: grep_def)

theorem grep_prints_witness:
  "grep [98, 0] (replicate 1024 0) [1, 2, 1] [97, 98, 10, 99, 10, 98, 10, 98] = Some [97, 98, 10, 98, 10]"
proof -
  have m: "matches re l \<longleftrightarrow> match (re @ [0]) (l @ [0]) = Some True" if "0 \<notin> set re" "0 \<notin> set l" for re l
    using match_correct_mem [OF that, of "[]" "[]"] by simp
  have "printed [98] (file_lines [] [97, 98, 10, 99, 10, 98, 10, 98]) = [97, 98, 10, 98, 10]"
    by (simp add: m match_def aget_def matchhere.simps)
  then show ?thesis
    using grep_prints [of "[98]" "[97, 98, 10, 99, 10, 98, 10, 98]" "replicate 1024 0" "[]" "[1, 2, 1]"] by simp
qed

text \<open>
  C39. \<open>grep\<close> gives up at a long line. When the first line of the file has 1023 characters or more, the buffer
  fills up, the next \<open>read\<close> is asked for 0 bytes, and its answer is taken for the end of the file: nothing
  is printed, whatever the rest of the file says.
\<close>

theorem grep_long_line:
  assumes "0 \<notin> set re" and "0 \<notin> set (l @ rest)" and "length buf = 1024" and "10 \<notin> set l" and "1023 \<le> length l"
  shows "grep (re @ 0 # x) buf ks (l @ rest) = Some []"
proof -
  have "grep_loop (re @ 0 # x) (take m l @ junk) m ks (drop m l @ rest) [] = Some []"
    if "length (take m l @ junk) = 1024" "m \<le> 1023" for m junk ks
    using that
  proof (induction "1023 - m" arbitrary: m junk ks rule: less_induct)
    case less
    show ?case
    proof (cases "m = 1023")
      case True
      then show ?thesis by (subst grep_loop.simps) (simp add: read_size_def)
    next
      case False
      let ?inp = "drop m l @ rest"
      define n where "n = read_size (1023 - m) ks ?inp"
      have m: "length (take m l) = m" "m < 1023" using less.prems(2) assms(5) False by simp_all
      have "n \<le> 1023 - m" by (simp add: n_def read_size_def)
      then have k: "m + n \<le> length l" "m + n \<le> 1023" using assms(5) m(2) by linarith+
      have s: "take m l @ take n ?inp = take (m + n) l" "drop n ?inp = drop (m + n) l @ rest"
        using k(1) by (simp_all add: take_add add.commute)
      have nn: "10 \<notin> set (take (m + n) l)" using assms(4) by (auto dest: in_set_takeD)
      have "?inp \<noteq> []" using m(2) assms(5) by simp
      moreover have "0 \<notin> set (take m l)" "10 \<notin> set (take m l)" "0 \<notin> set ?inp"
        using assms(2,4) by (auto dest: in_set_takeD in_set_dropD)
      ultimately obtain junk' where "grep_loop (re @ 0 # x) (take m l @ junk) m ks ?inp [] =
          grep_loop (re @ 0 # x) (take (m + n) l @ junk') (m + n) (tl ks) (drop (m + n) l @ rest) []"
        "length (take (m + n) l @ junk') = 1024" "0 < n"
        using grep_round [where pend = "take m l" and junk = junk and re = re and inp = ?inp and ks = ks and x = x and out = "[]"] less.prems(1) assms(1) m k(1) s lines_within [OF nn]
        unfolding m(1) n_def [symmetric] s by auto
      then show ?thesis using less.hyps [of "m + n"] k(2) m(2) by simp
    qed
  qed
  from this [of 0 buf ks] show ?thesis using assms(3) by (simp add: grep_def)
qed


theorem grep_long_line_witness:
  "grep [97, 0] (replicate 1024 0) [500] (replicate 1023 97 @ [10, 97, 10]) = Some []"
  using grep_long_line [of "[97]" "replicate 1023 97" "[10, 97, 10]" "replicate 1024 0" "[]" "[500]"] by simp

end
