(* ===== verification/Vm.thy ===== *)
theory Vm
  imports Proc
begin

text \<open>
  Page tables (\<open>kernel/vm.c\<close>, the same file in \<open>lab2\<close> and \<open>lab3\<close>). A page of a page table is a page of the allocator that holds 512 entries of eight
  bytes; a pointer to an entry is the address of its page and its index, a null pointer \<^const>\<open>None\<close>.

  The kernel's own objects that \<open>copyout\<close>, \<open>copyin\<close> and \<open>copyinstr\<close> read or write are lists of bytes with an index. A count of bytes
  is a natural number: it only decreases. Sizes and addresses of a user are words, because they may wrap around.
\<close>

section \<open>Entries of a page table\<close>

definition PTE_V :: u64 where "PTE_V = 1"
definition PTE_R :: u64 where "PTE_R = 2"
definition PTE_W :: u64 where "PTE_W = 4"
definition PTE_X :: u64 where "PTE_X = 8"
definition PTE_U :: u64 where "PTE_U = 16"

definition PA2PTE :: "u64 \<Rightarrow> u64" where
  "PA2PTE pa = push_bit 10 (drop_bit 12 pa)"

definition PTE2PA :: "u64 \<Rightarrow> u64" where
  "PTE2PA pte = push_bit 12 (drop_bit 10 pte)"

definition PTE_FLAGS :: "u64 \<Rightarrow> u64" where
  "PTE_FLAGS pte = pte AND 0x3FF"

definition PXSHIFT :: "nat \<Rightarrow> nat" where
  "PXSHIFT level = 12 + 9 * level"

definition PX :: "nat \<Rightarrow> u64 \<Rightarrow> nat" where
  "PX level va = unat (drop_bit (PXSHIFT level) va AND 0x1FF)"

definition PGROUNDDOWN :: "u64 \<Rightarrow> u64" where
  "PGROUNDDOWN a = a AND NOT (PGSIZE - 1)"

definition get_pte :: "u64 \<times> nat \<Rightarrow> 'a kheap_scheme \<Rightarrow> u64" where
  "get_pte pte s = le64_val (drop (8 * snd pte) (pages s (fst pte)))"

definition set_pte :: "u64 \<times> nat \<Rightarrow> u64 \<Rightarrow> 'a kheap_scheme \<Rightarrow> 'a kheap_scheme" where
  "set_pte pte v s = set_page (fst pte) (put (pages s (fst pte)) (8 * snd pte) (le64_bytes v)) s"

text \<open>\<open>memset(pg, 0, PGSIZE)\<close>, and \<open>memmove\<close> between two different objects.\<close>

definition zero_page :: "u64 \<Rightarrow> 'a kheap_scheme \<Rightarrow> 'a kheap_scheme option" where
  "zero_page pg s = do {
     assert_c (pg \<noteq> 0);
     m \<leftarrow> memset (pages s pg) 0 0 (unat PGSIZE);
     Some (set_page pg m s) }"

definition mem_copy :: "u8 list \<Rightarrow> nat \<Rightarrow> u8 list \<Rightarrow> nat \<Rightarrow> nat \<Rightarrow> u8 list option" where
  "mem_copy dst d src p n = do {
     assert_c (d + n \<le> length dst \<and> p + n \<le> length src);
     Some (put dst d (take n (drop p src))) }"

section \<open>Walking\<close>

fun walk_loop :: "nat \<Rightarrow> nat \<Rightarrow> u64 \<Rightarrow> u64 \<Rightarrow> bool \<Rightarrow> 'a kheap_scheme \<Rightarrow> ((u64 \<times> nat) option \<times> 'a kheap_scheme) option" where
  "walk_loop h 0 pagetable va alloc s = Some (Some (pagetable, PX 0 va), s)"
| "walk_loop h (Suc l) pagetable va alloc s = do {
     let pte = (pagetable, PX (Suc l) va);
     if get_pte pte s AND PTE_V \<noteq> 0 then walk_loop h l (PTE2PA (get_pte pte s)) va alloc s
     else if \<not> alloc then Some (None, s)
     else do {
       (pg, s) \<leftarrow> kalloc h s;
       if pg = 0 then Some (None, s)
       else do {
         s \<leftarrow> zero_page pg s;
         walk_loop h l pg va alloc (set_pte pte (PA2PTE pg OR PTE_V) s) } } }"

definition walk :: "nat \<Rightarrow> u64 \<Rightarrow> u64 \<Rightarrow> bool \<Rightarrow> 'a kheap_scheme \<Rightarrow> ((u64 \<times> nat) option \<times> 'a kheap_scheme) option" where
  "walk h pagetable va alloc s = do {
     assert_c (va < MAXVA);
     walk_loop h 2 pagetable va alloc s }"

definition walkaddr :: "nat \<Rightarrow> u64 \<Rightarrow> u64 \<Rightarrow> 'a kheap_scheme \<Rightarrow> (u64 \<times> 'a kheap_scheme) option" where
  "walkaddr h pagetable va s =
     (if va \<ge> MAXVA then Some (0, s)
      else do {
        (pte, s) \<leftarrow> walk h pagetable va False s;
        case pte of
          None \<Rightarrow> Some (0, s)
        | Some pte \<Rightarrow>
            if get_pte pte s AND PTE_V = 0 then Some (0, s)
            else if get_pte pte s AND PTE_U = 0 then Some (0, s)
            else Some (PTE2PA (get_pte pte s), s) })"

lemma walk_below: "walk h pt va alloc s = Some r \<Longrightarrow> va < MAXVA"
  by (simp add: walk_def split: if_splits)

text \<open>The loops over addresses end, because \<open>walk\<close> panics at \<open>MAXVA\<close>.\<close>

lemma page_step: "a < MAXVA \<Longrightarrow> unat MAXVA - unat (a + PGSIZE) < unat MAXVA - unat a"
proof -
  assume a: "a < MAXVA"
  then have "unat a < 2 ^ 38" by (simp add: MAXVA_def word_less_nat_alt)
  then have "unat (a + PGSIZE) = unat a + 4096" by (simp add: PGSIZE_def unat_word_ariths)
  then show ?thesis using a by (simp add: word_less_nat_alt)
qed

section \<open>Mapping\<close>

function mappages_loop ::
  "nat \<Rightarrow> u64 \<Rightarrow> u64 \<Rightarrow> u64 \<Rightarrow> u64 \<Rightarrow> u64 \<Rightarrow> 'a kheap_scheme \<Rightarrow> (int \<times> 'a kheap_scheme) option" where
  "mappages_loop h pagetable a last_a pa perm s = do {
     (pte, s) \<leftarrow> walk h pagetable a True s;
     case pte of
       None \<Rightarrow> Some (-1, s)
     | Some pte \<Rightarrow> do {
         assert_c (get_pte pte s AND PTE_V = 0);
         let s = set_pte pte (PA2PTE pa OR perm OR PTE_V) s;
         if a = last_a then Some (0, s)
         else mappages_loop h pagetable (a + PGSIZE) last_a (pa + PGSIZE) perm s } }"
  by pat_completeness auto

termination
proof (relation "measure (\<lambda>(h, pt, a, l, pa, perm, s). unat MAXVA - unat a)", goal_cases)
  case (2 h pt a l pa perm s)
  from page_step [OF walk_below [OF 2(1)]] show ?case by simp
qed simp

definition mappages ::
  "nat \<Rightarrow> u64 \<Rightarrow> u64 \<Rightarrow> u64 \<Rightarrow> u64 \<Rightarrow> u64 \<Rightarrow> 'a kheap_scheme \<Rightarrow> (int \<times> 'a kheap_scheme) option" where
  "mappages h pagetable va sz pa perm s = do {
     assert_c (sz \<noteq> 0);
     mappages_loop h pagetable (PGROUNDDOWN va) (PGROUNDDOWN (va + sz - 1)) pa perm s }"

definition kvmmap :: "nat \<Rightarrow> u64 \<Rightarrow> u64 \<Rightarrow> u64 \<Rightarrow> u64 \<Rightarrow> u64 \<Rightarrow> 'a kheap_scheme \<Rightarrow> 'a kheap_scheme option" where
  "kvmmap h kpgtbl va pa sz perm s = do {
     (r, s) \<leftarrow> mappages h kpgtbl va sz pa perm s;
     assert_c (r = 0);
     Some s }"

function uvmunmap_loop :: "nat \<Rightarrow> u64 \<Rightarrow> u64 \<Rightarrow> u64 \<Rightarrow> bool \<Rightarrow> 'a kheap_scheme \<Rightarrow> 'a kheap_scheme option" where
  "uvmunmap_loop h pagetable a end_a do_free s =
     (if a < end_a then do {
        (pte, s) \<leftarrow> walk h pagetable a False s;
        pte \<leftarrow> pte;
        assert_c (get_pte pte s AND PTE_V \<noteq> 0);
        assert_c (PTE_FLAGS (get_pte pte s) \<noteq> PTE_V);
        s \<leftarrow> (if do_free then kfree h (PTE2PA (get_pte pte s)) s else Some s);
        uvmunmap_loop h pagetable (a + PGSIZE) end_a do_free (set_pte pte 0 s) }
      else Some s)"
  by pat_completeness auto

termination
proof (relation "measure (\<lambda>(h, pt, a, e, f, s). unat MAXVA - unat a)", goal_cases)
  case (2 h pt a l pa perm s)
  from page_step [OF walk_below [OF 2(2)]] show ?case by simp
qed simp

definition uvmunmap :: "nat \<Rightarrow> u64 \<Rightarrow> u64 \<Rightarrow> u64 \<Rightarrow> bool \<Rightarrow> 'a kheap_scheme \<Rightarrow> 'a kheap_scheme option" where
  "uvmunmap h pagetable va npages do_free s = do {
     assert_c (va mod PGSIZE = 0);
     uvmunmap_loop h pagetable va (va + npages * PGSIZE) do_free s }"


declare mappages_loop.simps [simp del] uvmunmap_loop.simps [simp del]

section \<open>User memory\<close>

definition uvmcreate :: "nat \<Rightarrow> 'a kheap_scheme \<Rightarrow> (u64 \<times> 'a kheap_scheme) option" where
  "uvmcreate h s = do {
     (pagetable, s) \<leftarrow> kalloc h s;
     if pagetable = 0 then Some (0, s)
     else do {
       s \<leftarrow> zero_page pagetable s;
       Some (pagetable, s) } }"

text \<open>The results of \<open>kalloc\<close> and \<open>mappages\<close> are not tested: \<open>memset\<close> at address 0 is a fault.\<close>

definition uvmfirst :: "nat \<Rightarrow> u64 \<Rightarrow> u8 list \<Rightarrow> u32 \<Rightarrow> 'a kheap_scheme \<Rightarrow> 'a kheap_scheme option" where
  "uvmfirst h pagetable src sz s = do {
     assert_c (ucast sz < PGSIZE);
     (mem, s) \<leftarrow> kalloc h s;
     s \<leftarrow> zero_page mem s;
     (r, s) \<leftarrow> mappages h pagetable 0 PGSIZE mem (PTE_W OR PTE_R OR PTE_X OR PTE_U) s;
     m \<leftarrow> mem_copy (pages s mem) 0 src 0 (unat sz);
     Some (set_page mem m s) }"

text \<open>\<open>npages\<close> is an \<open>int\<close>, converted back to 64 bits in the call.\<close>

definition uvmdealloc :: "nat \<Rightarrow> u64 \<Rightarrow> u64 \<Rightarrow> u64 \<Rightarrow> 'a kheap_scheme \<Rightarrow> (u64 \<times> 'a kheap_scheme) option" where
  "uvmdealloc h pagetable oldsz newsz s =
     (if newsz \<ge> oldsz then Some (oldsz, s)
      else do {
        s \<leftarrow> (if PGROUNDUP newsz < PGROUNDUP oldsz then
                let npages = ucast ((PGROUNDUP oldsz - PGROUNDUP newsz) div PGSIZE) :: u32
                in uvmunmap h pagetable (PGROUNDUP newsz) (scast npages) True s
              else Some s);
        Some (newsz, s) })"

lemma PGROUNDDOWN_nat: "unat (PGROUNDDOWN a) = 4096 * (unat a div 4096)"
proof -
  have "PGROUNDDOWN a = push_bit 12 (drop_bit 12 a)"
  proof -
    have "PGSIZE - 1 = mask 12" by (simp add: PGSIZE_def mask_eq_exp_minus_1)
    then show ?thesis unfolding PGROUNDDOWN_def by (intro bit_word_eqI) (auto simp: bit_simps)
  qed
  also have "\<dots> = a div 4096 * 4096" by (simp add: push_bit_eq_mult drop_bit_eq_div)
  finally have "unat (PGROUNDDOWN a) = (unat a div 4096 * 4096) mod 2 ^ 64" by (simp add: unat_word_ariths unat_div mod_simps)
  moreover have "unat a div 4096 * 4096 < 2 ^ 64"
    using order.strict_trans1 [OF div_times_less_eq_dividend [of "unat a" 4096], of "2 ^ 64"] unsigned_less [of a] by simp
  ultimately show ?thesis by simp
qed

lemma MAXVA_nat: "va < MAXVA \<longleftrightarrow> unat va < 2 ^ 38"
  by (simp add: MAXVA_def word_less_nat_alt)

lemma mappages_below: "mappages h pt a sz pa perm s = Some r \<Longrightarrow> a < MAXVA"
proof -
  assume "mappages h pt a sz pa perm s = Some r"
  then have "PGROUNDDOWN a < MAXVA"
    by (auto simp: mappages_def mappages_loop.simps bind_eq_Some_conv dest: walk_below split: if_splits)
  then have "4096 * (unat a div 4096) < 274877906944" unfolding MAXVA_nat PGROUNDDOWN_nat by simp
  then have "unat a div 4096 < 67108864" by simp
  then have "unat a < 67108864 * 4096" by (metis div_less_iff_less_mult zero_less_numeral)
  then show ?thesis unfolding MAXVA_nat by simp
qed

function uvmalloc_loop :: "nat \<Rightarrow> u64 \<Rightarrow> u64 \<Rightarrow> u64 \<Rightarrow> u64 \<Rightarrow> u64 \<Rightarrow> 'a kheap_scheme \<Rightarrow> (u64 \<times> 'a kheap_scheme) option" where
  "uvmalloc_loop h pagetable a oldsz newsz xperm s =
     (if a < newsz then do {
        (mem, s) \<leftarrow> kalloc h s;
        if mem = 0 then do {
          (r, s) \<leftarrow> uvmdealloc h pagetable a oldsz s;
          Some (0, s) }
        else do {
          s \<leftarrow> zero_page mem s;
          (r, s) \<leftarrow> mappages h pagetable a PGSIZE mem (PTE_R OR PTE_U OR xperm) s;
          if r \<noteq> 0 then do {
            s \<leftarrow> kfree h mem s;
            (r, s) \<leftarrow> uvmdealloc h pagetable a oldsz s;
            Some (0, s) }
          else uvmalloc_loop h pagetable (a + PGSIZE) oldsz newsz xperm s } }
      else Some (newsz, s))"
  by pat_completeness auto

termination
proof (relation "measure (\<lambda>(h, pt, a, old, new, x, s). unat MAXVA - unat a)", goal_cases)
  case (2 h pt a old new xperm s)
  then have "a < MAXVA" using mappages_below by blast
  from page_step [OF this] show ?case by simp
qed simp

declare uvmalloc_loop.simps [simp del]

definition uvmalloc :: "nat \<Rightarrow> u64 \<Rightarrow> u64 \<Rightarrow> u64 \<Rightarrow> u64 \<Rightarrow> 'a kheap_scheme \<Rightarrow> (u64 \<times> 'a kheap_scheme) option" where
  "uvmalloc h pagetable oldsz newsz xperm s =
     (if newsz < oldsz then Some (oldsz, s)
      else uvmalloc_loop h pagetable (PGROUNDUP oldsz) (PGROUNDUP oldsz) newsz xperm s)"

text \<open>
  \<open>freewalk\<close> at entry \<open>i\<close> of a page: a recursive call starts at entry 0 of the child. On a table with a cycle it
  would not return.
\<close>

partial_function (option) freewalk :: "nat \<Rightarrow> nat \<Rightarrow> u64 \<Rightarrow> 'a kheap_scheme \<Rightarrow> 'a kheap_scheme option" where
  "freewalk h i pagetable s =
     (if i < 512 then
        let pte = get_pte (pagetable, i) s
        in if pte AND PTE_V \<noteq> 0 \<and> pte AND (PTE_R OR PTE_W OR PTE_X) = 0 then do {
             s \<leftarrow> freewalk h 0 (PTE2PA pte) s;
             freewalk h (i + 1) pagetable (set_pte (pagetable, i) 0 s) }
           else if pte AND PTE_V \<noteq> 0 then None
           else freewalk h (i + 1) pagetable s
      else kfree h pagetable s)"

definition uvmfree :: "nat \<Rightarrow> u64 \<Rightarrow> u64 \<Rightarrow> 'a kheap_scheme \<Rightarrow> 'a kheap_scheme option" where
  "uvmfree h pagetable sz s = do {
     s \<leftarrow> (if sz > 0 then uvmunmap h pagetable 0 (PGROUNDUP sz div PGSIZE) True s else Some s);
     freewalk h 0 pagetable s }"

function uvmcopy_loop :: "nat \<Rightarrow> u64 \<Rightarrow> u64 \<Rightarrow> u64 \<Rightarrow> u64 \<Rightarrow> 'a kheap_scheme \<Rightarrow> (int \<times> 'a kheap_scheme) option" where
  "uvmcopy_loop h old_pt new_pt i sz s =
     (if i < sz then do {
        (pte, s) \<leftarrow> walk h old_pt i False s;
        pte \<leftarrow> pte;
        assert_c (get_pte pte s AND PTE_V \<noteq> 0);
        let pa = PTE2PA (get_pte pte s);
        let flags = PTE_FLAGS (get_pte pte s);
        (mem, s) \<leftarrow> kalloc h s;
        if mem = 0 then do {
          s \<leftarrow> uvmunmap h new_pt 0 (i div PGSIZE) True s;
          Some (-1, s) }
        else do {
          m \<leftarrow> mem_copy (pages s mem) 0 (pages s pa) 0 (unat PGSIZE);
          let s = set_page mem m s;
          (r, s) \<leftarrow> mappages h new_pt i PGSIZE mem flags s;
          if r \<noteq> 0 then do {
            s \<leftarrow> kfree h mem s;
            s \<leftarrow> uvmunmap h new_pt 0 (i div PGSIZE) True s;
            Some (-1, s) }
          else uvmcopy_loop h old_pt new_pt (i + PGSIZE) sz s } }
      else Some (0, s))"
  by pat_completeness auto

termination
proof (relation "measure (\<lambda>(h, old, new, a, sz, s). unat MAXVA - unat a)", goal_cases)
  case (2 h old new a sz s)
  from page_step [OF walk_below [OF 2(2)]] show ?case by simp
qed simp

declare uvmcopy_loop.simps [simp del]

definition uvmcopy :: "nat \<Rightarrow> u64 \<Rightarrow> u64 \<Rightarrow> u64 \<Rightarrow> 'a kheap_scheme \<Rightarrow> (int \<times> 'a kheap_scheme) option" where
  "uvmcopy h old_pt new_pt sz s = uvmcopy_loop h old_pt new_pt 0 sz s"

definition uvmclear :: "nat \<Rightarrow> u64 \<Rightarrow> u64 \<Rightarrow> 'a kheap_scheme \<Rightarrow> 'a kheap_scheme option" where
  "uvmclear h pagetable va s = do {
     (pte, s) \<leftarrow> walk h pagetable va False s;
     pte \<leftarrow> pte;
     Some (set_pte pte (get_pte pte s AND NOT PTE_U) s) }"

section \<open>Between the kernel and a user\<close>

lemma chunk_pos: "0 < unat (PGSIZE - (a - PGROUNDDOWN a))"
proof -
  have "PGROUNDDOWN a \<le> a" unfolding word_le_nat_alt PGROUNDDOWN_nat by simp
  then have "unat (a - PGROUNDDOWN a) = unat a mod 4096"
    by (simp add: unat_sub PGROUNDDOWN_nat minus_mult_div_eq_mod)
  then have "a - PGROUNDDOWN a < 4096" by (simp add: word_less_nat_alt)
  then show ?thesis by (simp add: PGSIZE_def unat_gt_0)
qed

function copyout :: "nat \<Rightarrow> u64 \<Rightarrow> u64 \<Rightarrow> u8 list \<Rightarrow> nat \<Rightarrow> nat \<Rightarrow> 'a kheap_scheme \<Rightarrow> (int \<times> 'a kheap_scheme) option" where
  "copyout h pagetable dstva src p len s =
     (if 0 < len then do {
        let va0 = PGROUNDDOWN dstva;
        (pa0, s) \<leftarrow> walkaddr h pagetable va0 s;
        if pa0 = 0 then Some (-1, s)
        else do {
          let n = min (unat (PGSIZE - (dstva - va0))) len;
          m \<leftarrow> mem_copy (pages s pa0) (unat (dstva - va0)) src p n;
          copyout h pagetable (va0 + PGSIZE) src (p + n) (len - n) (set_page pa0 m s) } }
      else Some (0, s))"
  by pat_completeness auto

termination
proof (relation "measure (\<lambda>(h, pt, a, src, p, len, s). len)", goal_cases)
  case (2 h pt a src p len s)
  then show ?case using chunk_pos [of a] by simp
qed simp

declare copyout.simps [simp del]

function copyin ::
  "nat \<Rightarrow> u64 \<Rightarrow> u8 list \<Rightarrow> nat \<Rightarrow> u64 \<Rightarrow> nat \<Rightarrow> 'a kheap_scheme \<Rightarrow> (int \<times> u8 list \<times> 'a kheap_scheme) option" where
  "copyin h pagetable dst d srcva len s =
     (if 0 < len then do {
        let va0 = PGROUNDDOWN srcva;
        (pa0, s) \<leftarrow> walkaddr h pagetable va0 s;
        if pa0 = 0 then Some (-1, dst, s)
        else do {
          let n = min (unat (PGSIZE - (srcva - va0))) len;
          dst \<leftarrow> mem_copy dst d (pages s pa0) (unat (srcva - va0)) n;
          copyin h pagetable dst (d + n) (va0 + PGSIZE) (len - n) s } }
      else Some (0, dst, s))"
  by pat_completeness auto

termination
proof (relation "measure (\<lambda>(h, pt, dst, d, a, len, s). len)", goal_cases)
  case (2 h pt dst d a len s)
  then show ?case using chunk_pos [of a] by simp
qed simp

declare copyin.simps [simp del]

text \<open>The inner loop of \<open>copyinstr\<close> over at most \<open>n\<close> bytes of one page.\<close>

fun copystr_page :: "u8 list \<Rightarrow> nat \<Rightarrow> u8 list \<Rightarrow> nat \<Rightarrow> nat \<Rightarrow> nat \<Rightarrow> (bool \<times> u8 list \<times> nat \<times> nat) option" where
  "copystr_page page p dst d max_len 0 = Some (False, dst, d, max_len)"
| "copystr_page page p dst d max_len (Suc n) = do {
     c \<leftarrow> aget page p;
     if c = 0 then do { dst \<leftarrow> aset dst d 0; Some (True, dst, d, max_len) }
     else do { dst \<leftarrow> aset dst d c; copystr_page page (p + 1) dst (d + 1) (max_len - 1) n } }"

lemma copystr_page_max: "copystr_page page p dst d m n = Some (False, dst', d', m') \<Longrightarrow> m' = m - n"
  by (induction page p dst d m n rule: copystr_page.induct) (auto simp: bind_eq_Some_conv split: if_splits)

function copyinstr_loop ::
  "nat \<Rightarrow> u64 \<Rightarrow> bool \<Rightarrow> u8 list \<Rightarrow> nat \<Rightarrow> u64 \<Rightarrow> nat \<Rightarrow> 'a kheap_scheme \<Rightarrow> (int \<times> u8 list \<times> 'a kheap_scheme) option" where
  "copyinstr_loop h pagetable got_null dst d srcva max_len s =
     (if \<not> got_null \<and> 0 < max_len then do {
        let va0 = PGROUNDDOWN srcva;
        (pa0, s) \<leftarrow> walkaddr h pagetable va0 s;
        if pa0 = 0 then Some (-1, dst, s)
        else do {
          let n = min (unat (PGSIZE - (srcva - va0))) max_len;
          (got_null, dst, d, max_len) \<leftarrow> copystr_page (pages s pa0) (unat (srcva - va0)) dst d max_len n;
          copyinstr_loop h pagetable got_null dst d (va0 + PGSIZE) max_len s } }
      else Some (if got_null then 0 else -1, dst, s))"
  by pat_completeness auto

termination
proof (relation "measure (\<lambda>(h, pt, got, dst, d, a, mx, s). if got then 0 else Suc mx)", goal_cases)
  case (2 h pt got dst d a mx s va0 x pa0 t n y got' z dst' w d' mx')
  then have "\<not> got' \<Longrightarrow> mx' = mx - n" by (auto dest: copystr_page_max)
  then show ?case using 2 chunk_pos [of a] by simp
qed simp

declare copyinstr_loop.simps [simp del]

definition copyinstr ::
  "nat \<Rightarrow> u64 \<Rightarrow> u8 list \<Rightarrow> nat \<Rightarrow> u64 \<Rightarrow> nat \<Rightarrow> 'a kheap_scheme \<Rightarrow> (int \<times> u8 list \<times> 'a kheap_scheme) option" where
  "copyinstr h pagetable dst d srcva max_len s = copyinstr_loop h pagetable False dst d srcva max_len s"

section \<open>Entries, bit by bit\<close>

definition valid :: "u64 \<Rightarrow> bool" where
  "valid e \<longleftrightarrow> e AND PTE_V \<noteq> 0"

lemma valid_bit: "valid e \<longleftrightarrow> bit e 0"
  by (simp add: valid_def PTE_V_def and_one_eq odd_iff_mod_2_eq_one bit_0)

lemma not_valid_0 [simp]: "\<not> valid 0"
  by (simp add: valid_def)

lemma low_bits: "bit f n \<Longrightarrow> (f :: u64) < 1024 \<Longrightarrow> n < 10"
proof (rule ccontr)
  assume b: "bit f n" "f < 1024" "\<not> n < 10"
  have "unat f < 2 ^ 10" using b(2) by (simp add: word_less_nat_alt)
  then have "take_bit 10 f = f" by (simp add: word_unat_eq_iff unsigned_take_bit_eq take_bit_nat_eq_self)
  then show False using b by (metis bit_take_bit_iff)
qed

lemma aligned_bits: "a mod PGSIZE = 0 \<Longrightarrow> bit a n \<Longrightarrow> 12 \<le> n"
proof (rule ccontr)
  assume a: "a mod PGSIZE = 0" "bit a n" "\<not> 12 \<le> n"
  then have "take_bit 12 a = 0" by (simp add: take_bit_eq_mod PGSIZE_def)
  then show False using a by (metis bit_take_bit_iff bit_0_eq bot_apply bot_bool_def linorder_not_le)
qed

lemma bit_1023: "bit (1023 :: int) n \<longleftrightarrow> n < 10"
proof -
  have "bit (mask 10 :: int) n \<longleftrightarrow> n < 10" by (simp only: bit_mask_iff) simp
  then show ?thesis by (simp add: mask_eq_exp_minus_1)
qed

lemma PTE2PA_make: "a mod PGSIZE = 0 \<Longrightarrow> f < 1024 \<Longrightarrow> PTE2PA (PA2PTE a OR f) = a"
proof (rule bit_word_eqI)
  fix n assume a: "a mod PGSIZE = 0" "f < 1024" "n < LENGTH(64)"
  then show "bit (PTE2PA (PA2PTE a OR f)) n = bit a n"
    using aligned_bits [OF a(1), of n] low_bits [OF _ a(2), of "n - 2"]
    by (auto simp: PTE2PA_def PA2PTE_def bit_simps)
qed

lemma PTE_FLAGS_make: "f < 1024 \<Longrightarrow> PTE_FLAGS (PA2PTE a OR f) = f"
proof (rule bit_word_eqI)
  fix n assume a: "f < 1024" "n < LENGTH(64)"
  then show "bit (PTE_FLAGS (PA2PTE a OR f)) n = bit f n"
    using low_bits [OF _ a(1), of n] by (auto simp: PTE_FLAGS_def PA2PTE_def bit_simps bit_1023)
qed

lemma and_flags: "m < 1024 \<Longrightarrow> e AND m = PTE_FLAGS e AND m"
proof (rule bit_word_eqI)
  fix n assume a: "m < 1024" "n < LENGTH(64)"
  then show "bit (e AND m) n = bit (PTE_FLAGS e AND m) n"
    using low_bits [OF _ a(1), of n] by (auto simp: PTE_FLAGS_def bit_simps bit_1023)
qed

lemma valid_flags: "valid e \<longleftrightarrow> PTE_FLAGS e AND PTE_V \<noteq> 0"
  using and_flags [of 1 e] by (simp add: valid_def PTE_V_def)

lemma make_valid: "f < 1024 \<Longrightarrow> valid (PA2PTE a OR f) \<longleftrightarrow> f AND PTE_V \<noteq> 0"
  by (simp add: valid_flags PTE_FLAGS_make)

lemma unat_take_64: "take_bit 64 (unat (w :: u64)) = unat w"
  by (simp flip: unsigned_take_bit_eq add: take_bit_word_beyond_length_eq)

lemma PX_nat: "PX l va = unat va div 2 ^ (12 + 9 * l) mod 512"
proof -
  have "(0x1FF :: u64) = mask 9" by (simp add: mask_eq_exp_minus_1)
  then have "PX l va = unat (take_bit 9 (drop_bit (12 + 9 * l) va))"
    by (simp add: PX_def PXSHIFT_def take_bit_eq_mask)
  also have "\<dots> = take_bit 9 (drop_bit (12 + 9 * l) (unat va))"
    by (simp add: unsigned_take_bit_eq unsigned_drop_bit_eq unat_take_64)
  finally show ?thesis by (simp add: take_bit_eq_mod drop_bit_eq_div)
qed

lemma PX_small: "PX l va < 512"
  by (simp add: PX_nat)

text \<open>The number of a virtual page, and the indices of its entry in the three levels.\<close>

definition vpn :: "u64 \<Rightarrow> nat" where
  "vpn va = unat va div 4096"

definition path :: "nat \<Rightarrow> nat list" where
  "path v = [v div 262144 mod 512, v div 512 mod 512]"

lemma PX_path: "path (vpn va) = [PX 2 va, PX 1 va]" "PX 0 va = vpn va mod 512"
  by (simp_all add: path_def vpn_def PX_nat div_mult2_eq [symmetric])

lemma path_inj:
  assumes "path v = path w" "v mod 512 = w mod 512" "v < 2 ^ 27" "w < 2 ^ 27"
  shows "v = w"
proof -
  have "v div 262144 = w div 262144" "v div 512 mod 512 = w div 512 mod 512"
    using assms by (auto simp: path_def)
  moreover have "v div 262144 = v div 512 div 512" "w div 262144 = w div 512 div 512"
    by (simp_all add: div_mult2_eq [symmetric])
  ultimately have "v div 512 = w div 512" by (metis div_mult_mod_eq)
  then show ?thesis using assms(2) by (metis div_mult_mod_eq)
qed

lemma vpn_MAXVA: "va < MAXVA \<longleftrightarrow> vpn va < 2 ^ 26"
proof -
  have "unat va < 67108864 * 4096 \<longleftrightarrow> vpn va < 67108864" unfolding vpn_def by (rule div_less_iff_less_mult [symmetric]) simp
  then show ?thesis by (simp add: MAXVA_nat)
qed

section \<open>Memory as a function from addresses and indices to entries\<close>

type_synonym mem = "u64 \<Rightarrow> u8 list"

definition pte_of :: "mem \<Rightarrow> u64 \<Rightarrow> nat \<Rightarrow> u64" where
  "pte_of m a i = le64_val (drop (8 * i) (m a))"

lemma get_pte_of: "get_pte (a, i) s = pte_of (pages s) a i"
  by (simp add: get_pte_def pte_of_def)

lemma le64_cong: "(\<And>k. k < 8 \<Longrightarrow> b ! k = c ! k) \<Longrightarrow> le64_val b = le64_val c"
  by (simp add: le64_val_def)

lemma length_le64 [simp]: "length (le64_bytes w) = 8"
  by (simp add: le64_bytes_def)

lemma nth_put: "d + length xs \<le> length m \<Longrightarrow> k < length m \<Longrightarrow>
  put m d xs ! k = (if d \<le> k \<and> k < d + length xs then xs ! (k - d) else m ! k)"
  by (auto simp: put_def nth_append min_def)

lemma length_put [simp]: "d + length xs \<le> length m \<Longrightarrow> length (put m d xs) = length m"
  by (auto simp: put_def min_def)

lemma pte_of_upd:
  assumes "length (m a) = 4096" "i < 512" "j < 512"
  shows "pte_of (m(a := put (m a) (8 * i) (le64_bytes v))) b j = (if b = a \<and> j = i then v else pte_of m b j)"
proof (cases "b = a")
  case True
  show ?thesis
  proof (cases "j = i")
    case j: True
    have "drop (8 * i) (put (m a) (8 * i) (le64_bytes v)) = le64_bytes v @ drop (8 * i + 8) (m a)"
      using assms by (simp add: put_def)
    then show ?thesis using True j by (simp add: pte_of_def le64_roundtrip)
  next
    case False
    have "le64_val (drop (8 * j) (put (m a) (8 * i) (le64_bytes v))) = le64_val (drop (8 * j) (m a))"
    proof (rule le64_cong)
      fix k :: nat assume "k < 8"
      then show "drop (8 * j) (put (m a) (8 * i) (le64_bytes v)) ! k = drop (8 * j) (m a) ! k"
        using assms False nth_put [of "8 * i" "le64_bytes v" "m a" "8 * j + k"] by (cases "j < i") auto
    qed
    then show ?thesis using True False by (simp add: pte_of_def)
  qed
qed (simp add: pte_of_def)

lemma pte_of_zero: "m a = replicate 4096 0 \<Longrightarrow> i < 512 \<Longrightarrow> pte_of m a i = 0"
proof -
  assume m: "m a = replicate 4096 0" "i < 512"
  then have "pte_of m a i = le64_val (replicate 8 0)"
    unfolding pte_of_def by (intro le64_cong) simp
  then show ?thesis by (simp add: le64_val_def)
qed

section \<open>A page table as a trie\<close>

text \<open>The page of the table that a list of indices leads to.\<close>

definition child :: "mem \<Rightarrow> u64 \<Rightarrow> nat \<Rightarrow> u64 option" where
  "child m a i = (if valid (pte_of m a i) then Some (PTE2PA (pte_of m a i)) else None)"

definition node :: "mem \<Rightarrow> u64 \<Rightarrow> nat list \<Rightarrow> u64 option" where
  "node m pt is = foldl (\<lambda>r i. Option.bind r (\<lambda>a. child m a i)) (Some pt) is"

lemma node_simps [simp]: "node m pt [] = Some pt" "node m pt (is @ [i]) = Option.bind (node m pt is) (\<lambda>a. child m a i)"
  by (simp_all add: node_def)

lemma node_Cons: "node m pt (i # is) = Option.bind (child m pt i) (\<lambda>a. node m a is)"
proof (induction "is" rule: rev_induct)
  case Nil
  show ?case using node_simps(2) [of m pt "[]" i] by (simp del: node_simps(2))
next
  case (snoc j "is")
  then show ?case using node_simps(2) [of m pt "i # is" j] by simp
qed

definition idx :: "nat list \<Rightarrow> bool" where
  "idx is \<longleftrightarrow> set is \<subseteq> {..<512} \<and> length is \<le> 2"

definition tpages :: "mem \<Rightarrow> u64 \<Rightarrow> u64 set" where
  "tpages m pt = {a. \<exists>is. idx is \<and> node m pt is = Some a}"

text \<open>Every page has one place in the table, and an entry that leads to a page of the table has no other flag than \<open>PTE_V\<close>.\<close>

definition table_ok :: "mem \<Rightarrow> u64 \<Rightarrow> bool" where
  "table_ok m pt \<longleftrightarrow>
     (\<forall>is js a. idx is \<and> idx js \<and> node m pt is = Some a \<and> node m pt js = Some a \<longrightarrow> is = js) \<and>
     (\<forall>is i a. idx is \<and> length is < 2 \<and> i < 512 \<and> node m pt is = Some a \<and> valid (pte_of m a i) \<longrightarrow>
        PTE_FLAGS (pte_of m a i) = PTE_V)"

text \<open>The entry of a virtual page, 0 where there is none.\<close>

definition pmap :: "mem \<Rightarrow> u64 \<Rightarrow> nat \<Rightarrow> u64" where
  "pmap m pt v = (case node m pt (path v) of None \<Rightarrow> 0 | Some a \<Rightarrow> pte_of m a (v mod 512))"

lemma idx_path [simp]: "idx (path v)"
  by (simp add: idx_def path_def)

lemma length_path [simp]: "length (path v) = 2"
  by (simp add: path_def)

lemma idx_snoc: "idx (is @ [i]) \<longleftrightarrow> idx is \<and> i < 512 \<and> length is < 2"
  by (auto simp: idx_def)

lemma tpagesI: "idx is \<Longrightarrow> node m pt is = Some a \<Longrightarrow> a \<in> tpages m pt"
  by (auto simp: tpages_def)

lemma root_in [simp]: "pt \<in> tpages m pt"
  by (rule tpagesI [of "[]"]) (simp_all add: idx_def)

lemma node_cong:
  assumes "\<And>a i. a \<in> tpages m pt \<Longrightarrow> i < 512 \<Longrightarrow> pte_of m' a i = pte_of m a i"
  shows "idx is \<Longrightarrow> node m' pt is = node m pt is"
proof (induction "is" rule: rev_induct)
  case (snoc i "is")
  then have i: "idx is" "i < 512" by (simp_all add: idx_snoc)
  show ?case
  proof (cases "node m pt is")
    case (Some a)
    then show ?thesis using snoc.IH [OF i(1)] assms [OF tpagesI [OF i(1) Some] i(2)] by (simp add: child_def)
  qed (use snoc.IH [OF i(1)] in simp)
qed simp

lemma table_cong:
  assumes "\<And>a i. a \<in> tpages m pt \<Longrightarrow> i < 512 \<Longrightarrow> pte_of m' a i = pte_of m a i"
  shows "tpages m' pt = tpages m pt" "table_ok m' pt \<longleftrightarrow> table_ok m pt" "pmap m' pt v = pmap m pt v"
proof -
  have n: "node m' pt is = node m pt is" if "idx is" for "is" using node_cong [of m pt m', OF _ that] assms by blast
  show t: "tpages m' pt = tpages m pt" unfolding tpages_def using n by auto
  have e: "pte_of m' a i = pte_of m a i" if "idx is" "i < 512" "node m pt is = Some a" for "is" i a
    using assms tpagesI that by blast
  show "table_ok m' pt \<longleftrightarrow> table_ok m pt"
    unfolding table_ok_def using n e by (smt (verit, best))
  show "pmap m' pt v = pmap m pt v"
    using n [OF idx_path] e [OF idx_path, of "v mod 512" v] by (auto simp: pmap_def split: option.split)
qed

lemma table_inj: "table_ok m pt \<Longrightarrow> idx is \<Longrightarrow> idx js \<Longrightarrow> node m pt is = Some a \<Longrightarrow> node m pt js = Some a \<Longrightarrow> is = js"
  unfolding table_ok_def by blast

lemma table_flags: "table_ok m pt \<Longrightarrow> idx is \<Longrightarrow> length is < 2 \<Longrightarrow> i < 512 \<Longrightarrow> node m pt is = Some a \<Longrightarrow>
  valid (pte_of m a i) \<Longrightarrow> PTE_FLAGS (pte_of m a i) = PTE_V"
  unfolding table_ok_def by blast

text \<open>Writing an entry of the last level changes the map at one page.\<close>

lemma leaf_upd:
  assumes ok: "table_ok m pt" and p: "node m pt p = Some a" "idx p" "length p = 2" "i < 512"
    and m': "\<And>b j. b \<in> tpages m pt \<Longrightarrow> j < 512 \<Longrightarrow> pte_of m' b j = (if b = a \<and> j = i then e else pte_of m b j)"
  shows "idx q \<Longrightarrow> node m' pt q = node m pt q" "tpages m' pt = tpages m pt" "table_ok m' pt"
    "v < 2 ^ 27 \<Longrightarrow> pmap m' pt v = (if path v = p \<and> v mod 512 = i then e else pmap m pt v)"
proof -
  have other: "pte_of m' b j = pte_of m b j" if "idx is" "node m pt is = Some b" "j < 512" "is \<noteq> p" for "is" b j
  proof -
    have "b \<noteq> a" using table_inj [OF ok that(1) p(2) that(2)] p(1) that(4) by blast
    then show ?thesis using m' [OF tpagesI [OF that(1,2)] that(3)] by simp
  qed
  show n: "node m' pt q = node m pt q" if "idx q" for q
    using that
  proof (induction q rule: rev_induct)
    case (snoc j q)
    then have i: "idx q" "j < 512" "q \<noteq> p" using p(3) by (auto simp: idx_snoc)
    then show ?case using snoc.IH [OF i(1)] other [OF i(1) _ i(2,3)] by (cases "node m pt q") (simp_all add: child_def)
  qed simp
  show "tpages m' pt = tpages m pt" unfolding tpages_def using n by auto
  have "PTE_FLAGS (pte_of m' b j) = PTE_V"
    if "idx is" "length is < 2" "j < 512" "node m' pt is = Some b" "valid (pte_of m' b j)" for "is" b j
  proof -
    have "node m pt is = Some b" "is \<noteq> p" using n [OF that(1)] that(2,4) p(3) by auto
    then show ?thesis using other [OF that(1) _ that(3)] table_flags [OF ok that(1-3)] that(5) by simp
  qed
  moreover have "is = js" if "idx is" "idx js" "node m' pt is = Some b" "node m' pt js = Some b" for "is" js b
    using table_inj [OF ok that(1,2)] that n by metis
  ultimately show "table_ok m' pt" unfolding table_ok_def by blast
  show "pmap m' pt v = (if path v = p \<and> v mod 512 = i then e else pmap m pt v)" if "v < 2 ^ 27"
  proof (cases "path v = p")
    case True
    then show ?thesis using n [OF idx_path, of v] p m' [OF tpagesI [OF p(2,1)], of "v mod 512"] by (simp add: pmap_def)
  next
    case False
    then show ?thesis using n [OF idx_path, of v] other [OF idx_path _ _ False, of _ "v mod 512"]
      by (simp add: pmap_def split: option.split)
  qed
qed

text \<open>A new page of the table.\<close>

lemma node_grow:
  assumes ok: "table_ok m pt" and p: "node m pt p = Some a" "idx (p @ [i])" "child m a i = None"
    and e: "valid e" "PTE2PA e = b" "PTE_FLAGS e = PTE_V" and b: "b \<notin> tpages m pt" "\<And>j. j < 512 \<Longrightarrow> pte_of m' b j = 0"
    and m': "\<And>c j. c \<in> tpages m pt \<Longrightarrow> j < 512 \<Longrightarrow> pte_of m' c j = (if c = a \<and> j = i then e else pte_of m c j)"
  shows "idx q \<Longrightarrow> node m' pt q = (if q = p @ [i] then Some b else node m pt q)"
    "tpages m' pt = insert b (tpages m pt)" "table_ok m' pt" "pmap m' pt v = pmap m pt v"
proof -
  have p': "idx p" "i < 512" "length p < 2" using p(2) by (simp_all add: idx_snoc)
  have old: "node m pt (p @ [i]) = None" using p by simp
  show n: "node m' pt q = (if q = p @ [i] then Some b else node m pt q)" if "idx q" for q
    using that
  proof (induction q rule: rev_induct)
    case (snoc j r)
    then have r: "idx r" "j < 512" by (simp_all add: idx_snoc)
    note IH = snoc.IH [OF r(1)]
    show ?case
    proof (cases "r = p @ [i]")
      case True
      then have "node m' pt r = Some b" "node m pt r = None" "r @ [j] \<noteq> p @ [i]" using IH old by simp_all
      then show ?thesis using b(2) [OF r(2)] by (simp add: child_def)
    next
      case False
      show ?thesis
      proof (cases "node m pt r")
        case None
        then show ?thesis using IH False p(1) by auto
      next
        case (Some c)
        have "c = a \<longleftrightarrow> r = p" using table_inj [OF ok r(1) p'(1) Some] p(1) Some by auto
        then show ?thesis using IH False Some m' [OF tpagesI [OF r(1) Some] r(2)] e
          by (cases "r = p \<and> j = i") (auto simp: child_def)
      qed
    qed
  qed simp
  have new: "b \<noteq> c" if "idx is" "node m pt is = Some c" for "is" c using tpagesI [OF that] b(1) by blast
  show "tpages m' pt = insert b (tpages m pt)"
  proof (intro set_eqI iffI)
    fix c assume "c \<in> tpages m' pt"
    then obtain q where "idx q" "node m' pt q = Some c" by (auto simp: tpages_def)
    then show "c \<in> insert b (tpages m pt)" using n [of q] tpagesI [of q m pt c] by (auto split: if_splits)
  next
    fix c assume "c \<in> insert b (tpages m pt)"
    then consider "c = b" | q where "idx q" "node m pt q = Some c" by (auto simp: tpages_def)
    then show "c \<in> tpages m' pt"
    proof cases
      case 1
      then show ?thesis using n [OF p(2)] tpagesI [OF p(2)] by simp
    next
      case 2
      then show ?thesis using n [OF 2(1)] old tpagesI [OF 2(1)] by (cases "q = p @ [i]") simp_all
    qed
  qed
  have "is = js" if "idx is" "idx js" "node m' pt is = Some c" "node m' pt js = Some c" for "is" js c
    using that n [OF that(1)] n [OF that(2)] new [OF that(1)] new [OF that(2)] table_inj [OF ok that(1,2)]
    by (metis option.inject)
  moreover have "PTE_FLAGS (pte_of m' c j) = PTE_V"
    if "idx is" "length is < 2" "j < 512" "node m' pt is = Some c" "valid (pte_of m' c j)" for "is" c j
  proof (cases "is = p @ [i]")
    case True
    then have "c = b" using n [OF that(1)] that(4) by simp
    then show ?thesis using b(2) [OF that(3)] that(5) by simp
  next
    case False
    then have s: "node m pt is = Some c" using n [OF that(1)] that(4) by simp
    show ?thesis using m' [OF tpagesI [OF that(1) s] that(3)] e table_flags [OF ok that(1-3) s] that(5) by (simp split: if_splits)
  qed
  ultimately show "table_ok m' pt" unfolding table_ok_def by blast
  show "pmap m' pt v = pmap m pt v"
  proof (cases "path v = p @ [i]")
    case True
    then show ?thesis using n [OF idx_path, of v] old b(2) [of "v mod 512"] by (simp add: pmap_def)
  next
    case False
    show ?thesis
    proof (cases "node m pt (path v)")
      case (Some c)
      then have "c \<noteq> a" using table_inj [OF ok idx_path p'(1) Some] p(1) p'(3) length_path [of v] by force
      then show ?thesis using n [OF idx_path, of v] False Some m' [OF tpagesI [OF idx_path Some], of "v mod 512"]
        by (simp add: pmap_def)
    qed (use n [OF idx_path, of v] False in \<open>simp add: pmap_def\<close>)
  qed
qed

section \<open>Walking a well-formed table\<close>

text \<open>The table has its own pages, none of them free.\<close>

definition vm :: "nat \<Rightarrow> 'a kheap_scheme \<Rightarrow> u64 \<Rightarrow> u64 list \<Rightarrow> bool" where
  "vm h s pt ps \<longleftrightarrow> pool s ps \<and> hart_ok h s \<and> table_ok (pages s) pt \<and> tpages (pages s) pt \<inter> set ps = {} \<and>
     (\<forall>a\<in>tpages (pages s) pt. page_ok s a)"

text \<open>The table may have got more pages, from the allocator; the rest of the memory did not change.\<close>

definition kept :: "'a kheap_scheme \<Rightarrow> u64 \<Rightarrow> u64 list \<Rightarrow> 'a kheap_scheme \<Rightarrow> u64 list \<Rightarrow> bool" where
  "kept s pt ps s' ps' \<longleftrightarrow> tpages (pages s) pt \<subseteq> tpages (pages s') pt \<and> set ps' \<subseteq> set ps \<and>
     tpages (pages s') pt \<union> set ps' = tpages (pages s) pt \<union> set ps \<and> kernel_end s' = kernel_end s \<and>
     (\<forall>b. b \<notin> tpages (pages s) pt \<union> set ps \<longrightarrow> pages s' b = pages s b)"

definition grown :: "'a kheap_scheme \<Rightarrow> u64 \<Rightarrow> u64 list \<Rightarrow> 'a kheap_scheme \<Rightarrow> u64 list \<Rightarrow> bool" where
  "grown s pt ps s' ps' \<longleftrightarrow> kept s pt ps s' ps' \<and> (\<forall>v. pmap (pages s') pt v = pmap (pages s) pt v)"

lemma kept_trans: "kept s pt ps s1 ps1 \<Longrightarrow> kept s1 pt ps1 s2 ps2 \<Longrightarrow> kept s pt ps s2 ps2"
  unfolding kept_def by auto

lemma grown_refl: "grown s pt ps s ps"
  by (simp add: grown_def kept_def)

lemma grown_trans: "grown s pt ps s1 ps1 \<Longrightarrow> grown s1 pt ps1 s2 ps2 \<Longrightarrow> grown s pt ps s2 ps2"
  unfolding grown_def using kept_trans by metis

lemma walk_find:
  assumes "va < MAXVA"
  shows "walk h pt va False s = Some (map_option (\<lambda>a. (a, vpn va mod 512)) (node (pages s) pt (path (vpn va))), s)"
  unfolding PX_path(1) PX_path(2) [symmetric]
  using assms by (simp add: walk_def numeral_2_eq_2 node_Cons child_def get_pte_of valid_def)

lemma pool_set_page: "pool s ps \<Longrightarrow> b \<notin> set ps \<Longrightarrow> length x = 4096 \<Longrightarrow> pool (set_page b x s) ps"
proof -
  assume a: "pool s ps" "b \<notin> set ps" "length x = 4096"
  have "flist ((pages s)(b := x)) r ps = flist (pages s) r ps" for r by (rule flist_cong) (use a(2) in auto)
  then show ?thesis using a by (auto simp: pool_def set_page_def page_ok_def free_lock_def PGSIZE_def)
qed

lemma pool_length: "pool s ps \<Longrightarrow> length (pages s p) = 4096"
  by (simp add: pool_def PGSIZE_def)

lemma page_ok_cong: "kernel_end s' = kernel_end s \<Longrightarrow> page_ok s' p = page_ok s p"
  by (simp add: page_ok_def)

lemma zero_page_run: "pool s ps \<Longrightarrow> b \<noteq> 0 \<Longrightarrow> zero_page b s = Some (set_page b (replicate 4096 0) s)"
  using memset_page [of "pages s b" 0] by (simp add: zero_page_def pool_def PGSIZE_def)

lemma page_entry: "page_ok s b \<Longrightarrow> f < 1024 \<Longrightarrow> PTE2PA (PA2PTE b OR f) = b"
  by (simp add: page_ok_def PTE2PA_make)

lemma set_pte_pages: "pages (set_pte (a, i) e s) = (pages s)(a := put (pages s a) (8 * i) (le64_bytes e))"
  by (simp add: set_pte_def set_page_def)

text \<open>One round of \<open>walk\<close> that allocates.\<close>

lemma walk_grow:
  assumes vm: "vm h s pt (b # ps)" and p: "node (pages s) pt p = Some a" "idx (p @ [i])" "child (pages s) a i = None"
  shows "\<exists>s1 s2 s3. kalloc h s = Some (b, s1) \<and> b \<noteq> 0 \<and> zero_page b s1 = Some s2 \<and> s3 = set_pte (a, i) (PA2PTE b OR PTE_V) s2 \<and>
    vm h s3 pt ps \<and> node (pages s3) pt (p @ [i]) = Some b \<and> grown s pt (b # ps) s3 ps"
proof -
  have v: "pool s (b # ps)" "hart_ok h s" "table_ok (pages s) pt" "tpages (pages s) pt \<inter> set (b # ps) = {}"
    "\<forall>a\<in>tpages (pages s) pt. page_ok s a" using vm by (simp_all add: vm_def)
  have b: "page_ok s b" "b \<notin> set ps" "b \<noteq> 0" "b \<notin> tpages (pages s) pt"
    using v(1,4) by (auto simp: pool_def page_ok_def)
  have i: "i < 512" "idx p" using p(2) by (simp_all add: idx_snoc)
  have a: "a \<in> tpages (pages s) pt" using tpagesI [OF i(2) p(1)] .
  then have ab: "a \<noteq> b" "a \<notin> set ps" using b(4) v(4) by auto
  obtain s1 where s1: "kalloc h s = Some (b, s1)" "pool s1 ps"
    "s1 = (settle h s)\<lparr>pages := (pages s)(b := replicate 4096 5), freelist := freelist s1\<rparr>"
    using kalloc_some [OF v(1,2)] by blast
  have k: "kernel_end s1 = kernel_end s" "hart_ok h s1" "pages s1 = (pages s)(b := replicate 4096 5)"
    by (subst s1(3); use v(2) in \<open>simp add: hart_ok_def\<close>)+
  define s2 where "s2 = set_page b (replicate 4096 0) s1"
  define e where "e = PA2PTE b OR PTE_V"
  define s3 where "s3 = set_pte (a, i) e s2"
  have p2: "pages s2 = (pages s)(b := replicate 4096 0)" using k(3) by (simp add: s2_def set_page_def)
  have len: "length (pages s a) = 4096" using pool_length [OF v(1)] .
  have p3: "pages s3 = (pages s2)(a := put (pages s2 a) (8 * i) (le64_bytes e))" by (simp add: s3_def set_pte_pages)
  have e: "valid e" "PTE2PA e = b" "PTE_FLAGS e = PTE_V"
    using page_entry [OF b(1), of PTE_V] by (simp_all add: e_def make_valid PTE_FLAGS_make PTE_V_def)
  have upd: "pte_of (pages s3) c j = (if c = a \<and> j = i then e else pte_of (pages s2) c j)" if "j < 512" for c j
    unfolding p3 by (rule pte_of_upd) (use len ab(1) i(1) that p2 in simp_all)
  have zero: "pte_of (pages s3) b j = 0" if "j < 512" for j
    using upd [OF that, of b] ab(1) pte_of_zero [of "pages s2" b j] that by (simp add: p2)
  have old: "pte_of (pages s3) c j = (if c = a \<and> j = i then e else pte_of (pages s) c j)"
    if "c \<in> tpages (pages s) pt" "j < 512" for c j
  proof -
    have "c \<noteq> b" using that(1) b(4) by blast
    then show ?thesis using upd [OF that(2), of c] by (simp add: p2 pte_of_def)
  qed
  have g: "node (pages s3) pt (p @ [i]) = Some b" "tpages (pages s3) pt = insert b (tpages (pages s) pt)"
    "table_ok (pages s3) pt" "pmap (pages s3) pt w = pmap (pages s) pt w" for w
  proof -
    have "node (pages s3) pt (p @ [i]) = (if p @ [i] = p @ [i] then Some b else node (pages s) pt (p @ [i]))"
      by (rule node_grow(1) [OF v(3) p e b(4)]) (fact p(2) | rule zero old; assumption)+
    then show "node (pages s3) pt (p @ [i]) = Some b" by simp
  qed (rule node_grow(2-4) [OF v(3) p e b(4)]; rule zero old; assumption)+
  have pool: "pool s3 ps"
  proof -
    have "pool s2 ps" using pool_set_page [OF s1(2) b(2)] by (simp add: s2_def)
    moreover have "length (put (pages s2 a) (8 * i) (le64_bytes e)) = 4096" using len i(1) ab(1) p2 by simp
    ultimately show ?thesis using pool_set_page [OF _ ab(2)] by (simp add: s3_def set_pte_def)
  qed
  have ke: "kernel_end s3 = kernel_end s" "hart_ok h s3"
    using k(1,2) by (simp_all add: s3_def s2_def set_pte_def set_page_def hart_ok_def)
  have "vm h s3 pt ps"
    unfolding vm_def g(2) using pool ke(2) g(3) v(4,5) b(1,2) by (simp add: page_ok_cong [OF ke(1)])
  moreover have "grown s pt (b # ps) s3 ps"
    unfolding grown_def kept_def g(2) using g(4) ke(1) p2 p3 a by auto
  moreover have "zero_page b s1 = Some s2" using zero_page_run [OF s1(2) b(3)] by (simp add: s2_def)
  ultimately show ?thesis
    using s1(1) b(3) g(1) by (intro exI [of _ s1] exI [of _ s2] exI [of _ s3]) (simp add: s3_def e_def)
qed

lemma vm_settle:
  assumes "vm h s pt ps"
  shows "vm h (settle h s) pt ps" "grown s pt ps (settle h s) ps"
  using assms by (simp_all add: vm_def grown_def kept_def pool_def page_ok_def free_lock_def hart_ok_def)

lemma walk_loop_alloc:
  "l \<le> 2 \<Longrightarrow> vm h s pt ps \<Longrightarrow> node (pages s) pt (take (2 - l) (path (vpn va))) = Some a \<Longrightarrow>
   \<exists>r s' ps'. walk_loop h l a va True s = Some (r, s') \<and> vm h s' pt ps' \<and> grown s pt ps s' ps' \<and>
     (case r of None \<Rightarrow> ps' = [] \<and> length ps < l
      | Some (b, i) \<Rightarrow> node (pages s') pt (path (vpn va)) = Some b \<and> i = vpn va mod 512 \<and> length ps \<le> length ps' + l)"
proof (induction l arbitrary: s ps a)
  case 0
  then show ?case using grown_refl [of s pt ps] by (auto simp: PX_path(2) intro!: exI [of _ ps])
next
  case (Suc l)
  let ?p = "take (2 - Suc l) (path (vpn va))" and ?i = "PX (Suc l) va"
  have pi: "?p @ [?i] = take (2 - l) (path (vpn va))"
    using Suc.prems(1) by (cases l) (auto simp: PX_path numeral_2_eq_2)
  have idx: "idx (?p @ [?i])" unfolding pi using set_take_subset [of "2 - l" "path (vpn va)"] idx_path [of "vpn va"]
    by (auto simp: idx_def simp del: idx_path)
  show ?case
  proof (cases "valid (pte_of (pages s) a ?i)")
    case True
    then have "node (pages s) pt (take (2 - l) (path (vpn va))) = Some (PTE2PA (pte_of (pages s) a ?i))"
      unfolding pi [symmetric] using Suc.prems(3) by (simp add: child_def)
    from Suc.IH [OF _ Suc.prems(2) this] Suc.prems(1) obtain r s' ps' where
      "walk_loop h l (PTE2PA (pte_of (pages s) a ?i)) va True s = Some (r, s')" "vm h s' pt ps'" "grown s pt ps s' ps'"
      "case r of None \<Rightarrow> ps' = [] \<and> length ps < l
        | Some (b, i) \<Rightarrow> node (pages s') pt (path (vpn va)) = Some b \<and> i = vpn va mod 512 \<and> length ps \<le> length ps' + l"
      by auto
    then show ?thesis using True
      by (intro exI [of _ r] exI [of _ s'] exI [of _ ps']) (simp add: get_pte_of valid_def split: option.splits prod.splits)
  next
    case False
    then have c: "child (pages s) a ?i = None" by (simp add: child_def)
    show ?thesis
    proof (cases ps)
      case Nil
      then show ?thesis
        using kalloc_none [of s h] Suc.prems(2) False vm_settle [OF Suc.prems(2)]
        by (auto simp: get_pte_of valid_def vm_def)
    next
      case (Cons b qs)
      obtain s1 s2 s3 where g: "kalloc h s = Some (b, s1)" "b \<noteq> 0" "zero_page b s1 = Some s2"
        "s3 = set_pte (a, ?i) (PA2PTE b OR PTE_V) s2" "vm h s3 pt qs" "node (pages s3) pt (?p @ [?i]) = Some b"
        "grown s pt ps s3 qs"
        using walk_grow [OF Suc.prems(2) [unfolded Cons] Suc.prems(3) idx c] unfolding Cons by blast
      have l: "l \<le> 2" using Suc.prems(1) by simp
      from Suc.IH [OF l g(5) g(6) [unfolded pi]] obtain r s' ps' where
        "walk_loop h l b va True s3 = Some (r, s')" "vm h s' pt ps'" "grown s3 pt qs s' ps'"
        "case r of None \<Rightarrow> ps' = [] \<and> length qs < l
          | Some (b, i) \<Rightarrow> node (pages s') pt (path (vpn va)) = Some b \<and> i = vpn va mod 512 \<and> length qs \<le> length ps' + l"
        by blast
      then show ?thesis using g False grown_trans [OF g(7)] Cons
        by (intro exI [of _ r] exI [of _ s'] exI [of _ ps']) (simp add: get_pte_of valid_def Let_def split: option.splits prod.splits)
    qed
  qed
qed

lemma walk_alloc:
  assumes "vm h s pt ps" "va < MAXVA"
  shows "\<exists>r s' ps'. walk h pt va True s = Some (r, s') \<and> vm h s' pt ps' \<and> grown s pt ps s' ps' \<and>
    (case r of None \<Rightarrow> ps' = [] \<and> length ps < 2
      | Some (b, i) \<Rightarrow> node (pages s') pt (path (vpn va)) = Some b \<and> i = vpn va mod 512 \<and> length ps \<le> length ps' + 2)"
  using walk_loop_alloc [of 2 h s pt ps va pt] assms by (simp add: walk_def)

section \<open>Mapping pages\<close>

definition page :: "nat \<Rightarrow> u64" where
  "page v = of_nat (4096 * v)"

lemma page_nat: "v < 2 ^ 52 \<Longrightarrow> unat (page v) = 4096 * v"
  unfolding page_def by (simp only: unat_of_nat) (simp add: take_bit_nat_eq_self)

lemma vpn_page [simp]: "v < 2 ^ 52 \<Longrightarrow> vpn (page v) = v"
  using page_nat [of v] by (simp add: vpn_def)

lemma page_Suc: "page v + PGSIZE = page (Suc v)"
  by (simp add: page_def PGSIZE_def)

lemma page_eq: "v < 2 ^ 52 \<Longrightarrow> w < 2 ^ 52 \<Longrightarrow> page v = page w \<longleftrightarrow> v = w"
  by (metis vpn_page)

lemma page_MAXVA: "v < 2 ^ 26 \<Longrightarrow> page v < MAXVA"
  by (simp add: vpn_MAXVA)

lemma PGROUNDDOWN_page: "PGROUNDDOWN a = page (vpn a)"
proof -
  have "vpn a < 2 ^ 52"
  proof -
    have "unat a < 2 ^ 64" using unat_take_64 [of a] take_bit_nat_less_exp [of 64 "unat a"] by simp
    then show ?thesis by (simp add: vpn_def)
  qed
  then show ?thesis by (simp add: word_unat_eq_iff PGROUNDDOWN_nat page_nat) (simp add: vpn_def)
qed

text \<open>Writing the entry of one virtual page.\<close>

lemma vm_set_leaf:
  assumes vm: "vm h s pt ps" and a: "node (pages s) pt (path v) = Some a"
    and s': "s' = set_pte (a, v mod 512) e s" and v: "v < 2 ^ 27"
  shows "vm h s' pt ps" "kept s pt ps s' ps" "tpages (pages s') pt = tpages (pages s) pt"
    "w < 2 ^ 27 \<Longrightarrow> pmap (pages s') pt w = (if w = v then e else pmap (pages s) pt w)"
    "kernel_end s' = kernel_end s" "b \<notin> tpages (pages s) pt \<Longrightarrow> pages s' b = pages s b"
proof -
  have p: "pool s ps" "hart_ok h s" "table_ok (pages s) pt" "tpages (pages s) pt \<inter> set ps = {}"
    "\<forall>a\<in>tpages (pages s) pt. page_ok s a" using vm by (simp_all add: vm_def)
  have at: "a \<in> tpages (pages s) pt" using tpagesI [OF idx_path a] .
  have len: "length (pages s a) = 4096" using pool_length [OF p(1)] .
  have upd: "pte_of (pages s') c j = (if c = a \<and> j = v mod 512 then e else pte_of (pages s) c j)"
    if "c \<in> tpages (pages s) pt" "j < 512" for c j
    unfolding s' set_pte_pages by (rule pte_of_upd) (use len that in simp_all)
  have l: "tpages (pages s') pt = tpages (pages s) pt" "table_ok (pages s') pt"
    "w < 2 ^ 27 \<Longrightarrow> pmap (pages s') pt w = (if path w = path v \<and> w mod 512 = v mod 512 then e else pmap (pages s) pt w)" for w
    by (rule leaf_upd(2-4) [OF p(3) a idx_path length_path]; (rule upd; assumption)?; simp)+
  show t: "tpages (pages s') pt = tpages (pages s) pt" by (rule l(1))
  show k: "kernel_end s' = kernel_end s" by (simp add: s' set_pte_def set_page_def)
  have "pool s' ps"
    unfolding s' set_pte_def using pool_set_page [OF p(1), of a] at p(4) len by (simp add: disjoint_iff)
  moreover have "hart_ok h s'" using p(2) by (simp add: s' set_pte_def set_page_def hart_ok_def)
  ultimately show "vm h s' pt ps"
    using p(4,5) l(2) page_ok_cong [OF k] by (simp add: vm_def t)
  show o: "b \<notin> tpages (pages s) pt \<Longrightarrow> pages s' b = pages s b" for b
    using at by (auto simp: s' set_pte_pages)
  show "kept s pt ps s' ps" using t k o by (simp add: kept_def)
  show "w < 2 ^ 27 \<Longrightarrow> pmap (pages s') pt w = (if w = v then e else pmap (pages s) pt w)"
    using l(3) [of w] path_inj [of w v] v by auto
qed

lemma pmap_node: "node m pt (path v) = Some a \<Longrightarrow> pte_of m a (v mod 512) = pmap m pt v"
  by (simp add: pmap_def)

lemma map_page:
  assumes "vm h s pt ps" "v < 2 ^ 26" "\<not> valid (pmap (pages s) pt v)"
  obtains s1 where "walk h pt (page v) True s = Some (None, s1)" "vm h s1 pt []" "grown s pt ps s1 []" "length ps < 2"
  | a s1 ps1 where "walk h pt (page v) True s = Some (Some (a, v mod 512), s1)" "\<not> valid (get_pte (a, v mod 512) s1)"
    "\<And>e. vm h (set_pte (a, v mod 512) e s1) pt ps1" "\<And>e. kept s pt ps (set_pte (a, v mod 512) e s1) ps1"
    "\<And>e w. w < 2 ^ 27 \<Longrightarrow> pmap (pages (set_pte (a, v mod 512) e s1)) pt w = (if w = v then e else pmap (pages s) pt w)"
    "length ps \<le> length ps1 + 2"
proof -
  have v: "vpn (page v) = v" "page v < MAXVA" "v < 2 ^ 27" using assms(2) page_MAXVA by simp_all
  obtain r s1 ps1 where w: "walk h pt (page v) True s = Some (r, s1)" "vm h s1 pt ps1" "grown s pt ps s1 ps1"
    "case r of None \<Rightarrow> ps1 = [] \<and> length ps < 2
      | Some (b, i) \<Rightarrow> node (pages s1) pt (path v) = Some b \<and> i = v mod 512 \<and> length ps \<le> length ps1 + 2"
    using walk_alloc [OF assms(1) v(2)] unfolding v(1) by blast
  show ?thesis
  proof (cases r)
    case None
    then show ?thesis using that(1) w by simp
  next
    case (Some bi)
    then obtain a where r: "r = Some (a, v mod 512)" "node (pages s1) pt (path v) = Some a" "length ps \<le> length ps1 + 2"
      using w(4) by (cases bi) simp
    have g: "kept s pt ps s1 ps1" "\<And>v. pmap (pages s1) pt v = pmap (pages s) pt v" using w(3) by (simp_all add: grown_def)
    note l = vm_set_leaf [OF w(2) r(2) refl v(3)]
    show ?thesis
    proof (rule that(2))
      show "walk h pt (page v) True s = Some (Some (a, v mod 512), s1)" using w(1) r(1) by simp
      show "\<not> valid (get_pte (a, v mod 512) s1)" using assms(3) pmap_node [OF r(2)] g(2) by (simp add: get_pte_of)
      show "vm h (set_pte (a, v mod 512) e s1) pt ps1" for e by (rule l(1))
      show "kept s pt ps (set_pte (a, v mod 512) e s1) ps1" for e by (rule kept_trans [OF g(1) l(2)])
      show "pmap (pages (set_pte (a, v mod 512) e s1)) pt w = (if w = v then e else pmap (pages s) pt w)" if "w < 2 ^ 27" for e w
        using l(4) [OF that] g(2) by simp
      show "length ps \<le> length ps1 + 2" by (rule r(3))
    qed
  qed
qed

text \<open>Some of the first \<open>k\<close> of \<open>Suc n\<close> pages are mapped: all of them, or as many as there was memory for.\<close>

lemma mappages_loop_run:
  assumes "vm h s pt ps" "v + n < 2 ^ 26" "\<forall>w\<in>{v..v + n}. \<not> valid (pmap (pages s) pt w)"
  shows "\<exists>r s' ps' k. mappages_loop h pt (page v) (page (v + n)) pa perm s = Some (r, s') \<and> vm h s' pt ps' \<and>
    kept s pt ps s' ps' \<and> (if r = 0 then k = Suc n \<and> length ps \<le> length ps' + 2 * Suc n else r = -1 \<and> k \<le> n \<and> ps' = [] \<and> length ps < 2 * Suc n) \<and>
    (\<forall>w<2 ^ 27. pmap (pages s') pt w =
       (if v \<le> w \<and> w < v + k then PA2PTE (pa + page (w - v)) OR perm OR PTE_V else pmap (pages s) pt w))"
  using assms
proof (induction n arbitrary: v s ps pa)
  case 0
  have v: "v < 2 ^ 26" "\<not> valid (pmap (pages s) pt v)" using 0(2,3) by simp_all
  show ?case
  proof (rule map_page [OF 0(1) v])
    fix s1 assume "walk h pt (page v) True s = Some (None, s1)" "vm h s1 pt []" "grown s pt ps s1 []" "length ps < 2"
    then show ?case
      by (subst mappages_loop.simps) (intro exI [of _ "-1"] exI [of _ s1] exI [of _ "[]"] exI [of _ 0], auto simp: grown_def)
  next
    fix a s1 ps1 let ?e = "PA2PTE pa OR perm OR PTE_V"
    assume "walk h pt (page v) True s = Some (Some (a, v mod 512), s1)" "\<not> valid (get_pte (a, v mod 512) s1)"
      "\<And>e. vm h (set_pte (a, v mod 512) e s1) pt ps1" "\<And>e. kept s pt ps (set_pte (a, v mod 512) e s1) ps1"
      "\<And>e w. w < 2 ^ 27 \<Longrightarrow> pmap (pages (set_pte (a, v mod 512) e s1)) pt w = (if w = v then e else pmap (pages s) pt w)"
      "length ps \<le> length ps1 + 2"
    then show ?case
      by (subst mappages_loop.simps)
        (intro exI [of _ 0] exI [of _ "set_pte (a, v mod 512) ?e s1"] exI [of _ ps1] exI [of _ 1], simp add: valid_def page_def)
  qed
next
  case (Suc n)
  have v: "v < 2 ^ 26" "\<not> valid (pmap (pages s) pt v)" using Suc(3,4) by simp_all
  have ne: "page v \<noteq> page (v + Suc n)" using Suc(3) page_eq [of v "v + Suc n"] by simp
  show ?case
  proof (rule map_page [OF Suc(2) v])
    fix s1 assume "walk h pt (page v) True s = Some (None, s1)" "vm h s1 pt []" "grown s pt ps s1 []" "length ps < 2"
    then show ?case
      by (subst mappages_loop.simps) (intro exI [of _ "-1"] exI [of _ s1] exI [of _ "[]"] exI [of _ 0], auto simp: grown_def)
  next
    fix a s1 ps1 let ?e = "PA2PTE pa OR perm OR PTE_V"
    assume a: "walk h pt (page v) True s = Some (Some (a, v mod 512), s1)" "\<not> valid (get_pte (a, v mod 512) s1)"
      "\<And>e. vm h (set_pte (a, v mod 512) e s1) pt ps1" "\<And>e. kept s pt ps (set_pte (a, v mod 512) e s1) ps1"
      "\<And>e w. w < 2 ^ 27 \<Longrightarrow> pmap (pages (set_pte (a, v mod 512) e s1)) pt w = (if w = v then e else pmap (pages s) pt w)"
      "length ps \<le> length ps1 + 2"
    define s2 where "s2 = set_pte (a, v mod 512) ?e s1"
    have rest: "Suc v + n < 2 ^ 26" "\<forall>w\<in>{Suc v..Suc v + n}. \<not> valid (pmap (pages s2) pt w)"
      using Suc(3,4) a(5) by (auto simp: s2_def)
    obtain r s' ps' k where IH: "mappages_loop h pt (page (Suc v)) (page (Suc v + n)) (pa + PGSIZE) perm s2 = Some (r, s')"
      "vm h s' pt ps'" "kept s2 pt ps1 s' ps'" "if r = 0 then k = Suc n \<and> length ps1 \<le> length ps' + 2 * Suc n else r = -1 \<and> k \<le> n \<and> ps' = [] \<and> length ps1 < 2 * Suc n"
      "\<forall>w<2 ^ 27. pmap (pages s') pt w =
         (if Suc v \<le> w \<and> w < Suc v + k then PA2PTE (pa + PGSIZE + page (w - Suc v)) OR perm OR PTE_V else pmap (pages s2) pt w)"
      using Suc.IH [OF a(3) rest [unfolded s2_def]] unfolding s2_def by blast
    have step: "mappages_loop h pt (page v) (page (v + Suc n)) pa perm s = Some (r, s')"
      using a(1,2) IH(1) ne by (subst mappages_loop.simps) (simp add: valid_def s2_def page_Suc)
    have "pmap (pages s') pt w =
        (if v \<le> w \<and> w < v + Suc k then PA2PTE (pa + page (w - v)) OR perm OR PTE_V else pmap (pages s) pt w)"
      if w: "w < 2 ^ 27" for w
    proof -
      consider "w = v" | "Suc v \<le> w" | "w < v" by linarith
      then show ?thesis
      proof cases
        case 1
        then show ?thesis using IH(5) w a(5) [OF w] by (simp add: s2_def page_def)
      next
        case 2
        then have eq: "pa + PGSIZE + page (w - Suc v) = pa + page (w - v)"
          using page_Suc [of "w - Suc v"] by (simp add: add.assoc add.commute [of PGSIZE] Suc_diff_Suc)
        show ?thesis using 2 IH(5) [rule_format, OF w] a(5) [OF w] unfolding eq s2_def by simp
      next
        case 3
        then show ?thesis using IH(5) w a(5) [OF w] by (simp add: s2_def)
      qed
    qed
    moreover have "kept s pt ps s' ps'" using kept_trans [OF a(4) IH(3) [unfolded s2_def]] .
    ultimately show ?case
      using step IH(2,4) a(6) by (intro exI [of _ r] exI [of _ s'] exI [of _ ps'] exI [of _ "Suc k"]) (simp split: if_splits)
  qed
qed


text \<open>
  Mapping a range. On a well-formed table and addresses below \<open>MAXVA\<close> that are not mapped, \<open>mappages\<close> enters all pages
  of the range and returns 0, or it runs out of memory, returns -1, and has entered a proper initial part of them; this cannot happen
  while there are two free pages for each page of the range. The other mappings are as before, the table stays
  well-formed, and the pages it gained are those the allocator lost.
\<close>

theorem mappages_correct:
  assumes "vm h s pt ps" and "sz \<noteq> 0" and "unat va + unat sz \<le> 2 ^ 38"
    and "\<forall>w\<in>{vpn va..vpn (va + sz - 1)}. \<not> valid (pmap (pages s) pt w)"
  shows "\<exists>r s' ps' k. mappages h pt va sz pa perm s = Some (r, s') \<and> vm h s' pt ps' \<and> kept s pt ps s' ps' \<and>
    (if r = 0 then k = Suc (vpn (va + sz - 1) - vpn va)
     else r = -1 \<and> k \<le> vpn (va + sz - 1) - vpn va \<and> ps' = [] \<and> length ps < 2 * Suc (vpn (va + sz - 1) - vpn va)) \<and>
    (\<forall>w<2 ^ 27. pmap (pages s') pt w =
       (if vpn va \<le> w \<and> w < vpn va + k then PA2PTE (pa + page (w - vpn va)) OR perm OR PTE_V else pmap (pages s) pt w))"
proof -
  let ?n = "vpn (va + sz - 1) - vpn va"
  have sz: "1 \<le> unat sz" using assms(2) by (simp add: Suc_le_eq unat_gt_0)
  have u: "unat (va + sz - 1) = unat va + unat sz - 1"
  proof -
    have "unat va + unat sz - 1 < 2 ^ 64" using assms(3) by simp
    moreover have "va + sz - 1 = of_nat (unat va + unat sz - 1)" using sz by (simp add: of_nat_diff)
    ultimately show ?thesis by (simp only: unat_of_nat) (simp add: take_bit_nat_eq_self)
  qed
  have "va + sz - 1 < MAXVA" unfolding MAXVA_nat u using sz assms(3) by simp
  then have v: "vpn (va + sz - 1) < 2 ^ 26" by (simp only: vpn_MAXVA)
  have "vpn va \<le> vpn (va + sz - 1)" unfolding vpn_def u by (rule div_le_mono) (use sz in simp)
  then have n: "vpn va + ?n = vpn (va + sz - 1)" by simp
  have "vpn va + ?n < 2 ^ 26" "\<forall>w\<in>{vpn va..vpn va + ?n}. \<not> valid (pmap (pages s) pt w)"
    using v assms(4) unfolding n by simp_all
  from mappages_loop_run [OF assms(1) this, of pa perm] obtain r s' ps' k where
    "mappages_loop h pt (page (vpn va)) (page (vpn va + ?n)) pa perm s = Some (r, s')" "vm h s' pt ps'" "kept s pt ps s' ps'"
    and r: "if r = 0 then k = Suc ?n \<and> length ps \<le> length ps' + 2 * Suc ?n else r = -1 \<and> k \<le> ?n \<and> ps' = [] \<and> length ps < 2 * Suc ?n"
    and "\<forall>w<2 ^ 27. pmap (pages s') pt w =
      (if vpn va \<le> w \<and> w < vpn va + k then PA2PTE (pa + page (w - vpn va)) OR perm OR PTE_V else pmap (pages s) pt w)"
    by blast
  moreover have "if r = 0 then k = Suc ?n else r = -1 \<and> k \<le> ?n \<and> ps' = [] \<and> length ps < 2 * Suc ?n"
    using r by (meson)
  ultimately show ?thesis
    using assms(2) unfolding mappages_def PGROUNDDOWN_page n by (intro exI [of _ r] exI [of _ s'] exI [of _ ps'] exI [of _ k]) simp
qed


section \<open>Pages of a user\<close>

lemma empty_node: "(\<And>i. i < 512 \<Longrightarrow> pte_of m pt i = 0) \<Longrightarrow> idx is \<Longrightarrow> node m pt is = (if is = [] then Some pt else None)"
  by (cases "is") (auto simp: node_Cons child_def idx_def)

lemma empty_table:
  assumes "\<And>i. i < 512 \<Longrightarrow> pte_of m pt i = 0"
  shows "tpages m pt = {pt}" "table_ok m pt" "pmap m pt v = 0"
proof -
  have n: "node m pt is = (if is = [] then Some pt else None)" if "idx is" for "is"
    by (rule empty_node [OF _ that]) (rule assms)
  then show "tpages m pt = {pt}" by (auto simp: tpages_def idx_def intro!: exI [of _ "[]"] split: if_splits)
  show "table_ok m pt" unfolding table_ok_def using n assms by (auto split: if_splits)
  have "path v \<noteq> []" by (simp add: path_def)
  then show "pmap m pt v = 0" using n [OF idx_path, of v] by (simp add: pmap_def)
qed

text \<open>The virtual pages \<open>N\<close> are mapped to pages of their own, of which the user is the owner.\<close>

definition space :: "nat \<Rightarrow> 'a kheap_scheme \<Rightarrow> u64 \<Rightarrow> u64 list \<Rightarrow> nat set \<Rightarrow> bool" where
  "space h s pt ps N \<longleftrightarrow> vm h s pt ps \<and> N \<subseteq> {..<2 ^ 26} \<and> inj_on (\<lambda>v. PTE2PA (pmap (pages s) pt v)) N \<and>
     (\<forall>v\<in>N. valid (pmap (pages s) pt v) \<and> PTE_FLAGS (pmap (pages s) pt v) \<noteq> PTE_V \<and>
        page_ok s (PTE2PA (pmap (pages s) pt v)) \<and>
        PTE2PA (pmap (pages s) pt v) \<notin> tpages (pages s) pt \<union> set ps)"

definition data :: "mem \<Rightarrow> u64 \<Rightarrow> nat set \<Rightarrow> u64 set" where
  "data m pt N = (\<lambda>v. PTE2PA (pmap m pt v)) ` N"

lemma mapped_node: "valid (pmap m pt v) \<Longrightarrow> \<exists>a. node m pt (path v) = Some a"
  by (cases "node m pt (path v)") (simp_all add: pmap_def)

lemma vm_set_page:
  assumes "vm h s pt ps" "b \<notin> tpages (pages s) pt" "b \<notin> set ps" "length x = 4096"
  shows "vm h (set_page b x s) pt ps" "tpages (pages (set_page b x s)) pt = tpages (pages s) pt"
    "pmap (pages (set_page b x s)) pt v = pmap (pages s) pt v"
proof -
  have e: "pte_of (pages (set_page b x s)) a i = pte_of (pages s) a i" if "a \<in> tpages (pages s) pt" for a i
    using that assms(2) by (auto simp: set_page_def pte_of_def)
  note c = table_cong [of "pages s" pt "pages (set_page b x s)", OF e]
  show t: "tpages (pages (set_page b x s)) pt = tpages (pages s) pt"
    and p: "pmap (pages (set_page b x s)) pt v = pmap (pages s) pt v" by (rule c; assumption)+
  have "table_ok (pages (set_page b x s)) pt" using c(2) assms(1) by (simp add: vm_def)
  moreover have k: "kernel_end (set_page b x s) = kernel_end s" "hart_ok h (set_page b x s) = hart_ok h s"
    by (simp_all add: set_page_def hart_ok_def)
  ultimately show "vm h (set_page b x s) pt ps"
    using assms pool_set_page [of s ps b x] unfolding vm_def t by (simp add: page_ok_cong [OF k(1)])
qed

text \<open>A page that is neither free nor of the table is given back.\<close>

lemma kfree_vm:
  assumes "vm h s pt ps" "page_ok s d" "d \<notin> tpages (pages s) pt" "d \<notin> set ps"
  obtains s1 where "kfree h d s = Some s1" "vm h s1 pt (d # ps)" "tpages (pages s1) pt = tpages (pages s) pt"
    "\<And>v. pmap (pages s1) pt v = pmap (pages s) pt v" "\<And>b. b \<noteq> d \<Longrightarrow> pages s1 b = pages s b"
    "kernel_end s1 = kernel_end s"
proof -
  have p: "pool s ps" "hart_ok h s" using assms(1) by (simp_all add: vm_def)
  obtain s1 where s1: "kfree h d s = Some s1" "pool s1 (d # ps)"
    "s1 = (settle h s)\<lparr>pages := (pages s)(d := pages s1 d), freelist := d\<rparr>"
    using kfree_some [OF p assms(2,4)] by blast
  have k: "kernel_end s1 = kernel_end s" "hart_ok h s1" by (subst s1(3); use p(2) in \<open>simp add: hart_ok_def\<close>)+
  have o: "pages s1 b = pages s b" if "b \<noteq> d" for b by (subst s1(3)) (use that in simp)
  have e: "pte_of (pages s1) a i = pte_of (pages s) a i" if "a \<in> tpages (pages s) pt" for a i
  proof -
    have "a \<noteq> d" using that assms(3) by blast
    then show ?thesis using o [of a] by (simp add: pte_of_def)
  qed
  note c = table_cong [of "pages s" pt "pages s1", OF e]
  have t: "tpages (pages s1) pt = tpages (pages s) pt" "pmap (pages s1) pt v = pmap (pages s) pt v" for v by (rule c; assumption)+
  have "table_ok (pages s1) pt" using c(2) assms(1) by (simp add: vm_def)
  then have "vm h s1 pt (d # ps)"
    using assms s1(2) k(2) by (simp add: vm_def t(1) page_ok_cong [OF k(1)])
  then show ?thesis using that s1(1) t o k(1) by blast
qed

lemma unmap_page:
  assumes sp: "space h s pt ps N" and v: "v \<in> N"
  obtains a s1 where "walk h pt (page v) False s = Some (Some (a, v mod 512), s)"
    "get_pte (a, v mod 512) s = pmap (pages s) pt v"
    "kfree h (PTE2PA (pmap (pages s) pt v)) s = Some s1"
    "space h (set_pte (a, v mod 512) 0 s1) pt (PTE2PA (pmap (pages s) pt v) # ps) (N - {v})"
    "tpages (pages (set_pte (a, v mod 512) 0 s1)) pt = tpages (pages s) pt"
    "\<And>w. w < 2 ^ 27 \<Longrightarrow> pmap (pages (set_pte (a, v mod 512) 0 s1)) pt w = (if w = v then 0 else pmap (pages s) pt w)"
    "\<And>b. b \<notin> insert (PTE2PA (pmap (pages s) pt v)) (tpages (pages s) pt) \<Longrightarrow> pages (set_pte (a, v mod 512) 0 s1) b = pages s b"
    "kernel_end (set_pte (a, v mod 512) 0 s1) = kernel_end s"
proof -
  let ?d = "PTE2PA (pmap (pages s) pt v)"
  have o: "vm h s pt ps" "N \<subseteq> {..<2 ^ 26}" "inj_on (\<lambda>v. PTE2PA (pmap (pages s) pt v)) N"
    "\<And>w. w \<in> N \<Longrightarrow> valid (pmap (pages s) pt w) \<and> PTE_FLAGS (pmap (pages s) pt w) \<noteq> PTE_V \<and>
      page_ok s (PTE2PA (pmap (pages s) pt w)) \<and> PTE2PA (pmap (pages s) pt w) \<notin> tpages (pages s) pt \<union> set ps"
    using sp by (simp_all add: space_def)
  have vs: "v < 2 ^ 26" "vpn (page v) = v" "v < 2 ^ 27" using o(2) v by auto
  obtain a where a: "node (pages s) pt (path v) = Some a" using mapped_node o(4) [OF v] by blast
  have w: "walk h pt (page v) False s = Some (Some (a, v mod 512), s)"
    using walk_find [OF page_MAXVA [OF vs(1)], of h pt s] a vs(2) by simp
  have d: "page_ok s ?d" "?d \<notin> tpages (pages s) pt" "?d \<notin> set ps" using o(4) [OF v] by simp_all
  obtain s1 where s1: "kfree h ?d s = Some s1" "vm h s1 pt (?d # ps)" "tpages (pages s1) pt = tpages (pages s) pt"
    "\<And>v. pmap (pages s1) pt v = pmap (pages s) pt v" "\<And>b. b \<noteq> ?d \<Longrightarrow> pages s1 b = pages s b" "kernel_end s1 = kernel_end s"
    using kfree_vm [OF o(1) d] by blast
  have a1: "node (pages s1) pt (path v) = Some a"
  proof -
    have "pte_of (pages s1) b i = pte_of (pages s) b i" if "b \<in> tpages (pages s) pt" for b i
    proof -
      have "b \<noteq> ?d" using that d(2) by blast
      then show ?thesis using s1(5) [of b] by (simp add: pte_of_def)
    qed
    then show ?thesis using node_cong [of "pages s" pt "pages s1" "path v"] a by simp
  qed
  note l = vm_set_leaf [where e = 0, OF s1(2) a1 refl vs(3)]
  have pm: "pmap (pages (set_pte (a, v mod 512) 0 s1)) pt w = (if w = v then 0 else pmap (pages s) pt w)" if "w < 2 ^ 27" for w
    using l(4) [OF that] s1(4) by simp
  have N: "w < 2 ^ 27" if "w \<in> N" for w using o(2) that by auto
  have "space h (set_pte (a, v mod 512) 0 s1) pt (?d # ps) (N - {v})"
    unfolding space_def
  proof (intro conjI ballI)
    show "inj_on (\<lambda>w. PTE2PA (pmap (pages (set_pte (a, v mod 512) 0 s1)) pt w)) (N - {v})"
      using inj_on_subset [OF o(3), of "N - {v}"] pm N by (auto simp: inj_on_def)
    fix w assume w: "w \<in> N - {v}"
    have e: "pmap (pages (set_pte (a, v mod 512) 0 s1)) pt w = pmap (pages s) pt w" using pm [OF N] w by simp
    have "PTE2PA (pmap (pages s) pt w) \<noteq> ?d" using o(3) w v by (auto simp: inj_on_def)
    then show "PTE2PA (pmap (pages (set_pte (a, v mod 512) 0 s1)) pt w) \<notin>
        tpages (pages (set_pte (a, v mod 512) 0 s1)) pt \<union> set (?d # ps)"
      and "valid (pmap (pages (set_pte (a, v mod 512) 0 s1)) pt w)"
      and "PTE_FLAGS (pmap (pages (set_pte (a, v mod 512) 0 s1)) pt w) \<noteq> PTE_V"
      and "page_ok (set_pte (a, v mod 512) 0 s1) (PTE2PA (pmap (pages (set_pte (a, v mod 512) 0 s1)) pt w))"
      unfolding e l(3) s1(3) page_ok_cong [OF trans [OF l(5) s1(6)]] using o(4) w by auto
  qed (use l(1) o(2) in auto)
  then show ?thesis
    using that [OF w _ s1(1)] pm l(3,5,6) s1(3,5,6) pmap_node [OF a] by (simp add: get_pte_of)
qed

lemma page_less: "v < 2 ^ 52 \<Longrightarrow> w < 2 ^ 52 \<Longrightarrow> page v < page w \<longleftrightarrow> v < w"
  by (simp add: word_less_nat_alt page_nat)

lemma page_aligned: "v < 2 ^ 52 \<Longrightarrow> page v mod PGSIZE = 0"
proof -
  assume "v < 2 ^ 52"
  then have "unat (page v mod PGSIZE) = 0" by (simp add: unat_mod page_nat PGSIZE_def)
  then show ?thesis by (simp only: unsigned_eq_0_iff)
qed

lemma page_add: "page v + of_nat n * PGSIZE = page (v + n)"
  by (simp add: page_def PGSIZE_def algebra_simps)

lemma page_div: "v < 2 ^ 52 \<Longrightarrow> page v div PGSIZE = of_nat v"
proof (rule word_unat_eq_iff [THEN iffD2])
  assume v: "v < 2 ^ 52"
  then have "unat (of_nat v :: u64) = v" by (simp only: unat_of_nat) (simp add: take_bit_nat_eq_self)
  then show "unat (page v div PGSIZE) = unat (of_nat v :: u64)" using v by (simp add: unat_div page_nat PGSIZE_def)
qed

lemma data_insert: "data m pt (insert v N) = insert (PTE2PA (pmap m pt v)) (data m pt N)"
  by (simp add: data_def)

lemma data_cong: "(\<And>v. v \<in> N \<Longrightarrow> pmap m' pt v = pmap m pt v) \<Longrightarrow> data m' pt N = data m pt N"
  by (simp add: data_def cong: image_cong)

lemma data_Un: "data m pt (M \<union> N) = data m pt M \<union> data m pt N"
  by (simp add: data_def image_Un)

text \<open>Taking a range of pages from a user: the table keeps its pages, the allocator gets the others.\<close>

definition unmapped :: "nat \<Rightarrow> 'a kheap_scheme \<Rightarrow> u64 \<Rightarrow> u64 list \<Rightarrow> nat set \<Rightarrow> nat set \<Rightarrow> 'a kheap_scheme \<Rightarrow> u64 list \<Rightarrow> bool" where
  "unmapped h s pt ps N R s' ps' \<longleftrightarrow> space h s' pt ps' (N - R) \<and> set ps' = set ps \<union> data (pages s) pt R \<and>
     tpages (pages s') pt = tpages (pages s) pt \<and> kernel_end s' = kernel_end s \<and>
     (\<forall>w<2 ^ 27. pmap (pages s') pt w = (if w \<in> R then 0 else pmap (pages s) pt w)) \<and>
     (\<forall>b. b \<notin> data (pages s) pt R \<union> tpages (pages s) pt \<longrightarrow> pages s' b = pages s b)"

lemma uvmunmap_loop_run:
  assumes "space h s pt ps N" "{v..<v + n} \<subseteq> N"
  shows "\<exists>s' ps'. uvmunmap_loop h pt (page v) (page (v + n)) True s = Some s' \<and> unmapped h s pt ps N {v..<v + n} s' ps'"
  using assms
proof (induction n arbitrary: v s ps N)
  case 0
  then show ?case
    by (subst uvmunmap_loop.simps) (auto simp: unmapped_def data_def)
next
  case (Suc n)
  have v: "v \<in> N" "{Suc v..<Suc v + n} \<subseteq> N - {v}" using Suc.prems(2) by auto
  have N: "N \<subseteq> {..<2 ^ 26}" using Suc.prems(1) by (simp add: space_def)
  have bound: "w < 2 ^ 26" if "w \<in> {v..<v + Suc n}" for w using that Suc.prems(2) N by auto
  have le: "v + n < 2 ^ 26" "v < 2 ^ 26" using bound [of "v + n"] bound [of v] by simp_all
  let ?d = "PTE2PA (pmap (pages s) pt v)"
  obtain a s1 where w: "walk h pt (page v) False s = Some (Some (a, v mod 512), s)"
    "get_pte (a, v mod 512) s = pmap (pages s) pt v" "kfree h ?d s = Some s1"
    and sp: "space h (set_pte (a, v mod 512) 0 s1) pt (?d # ps) (N - {v})"
    and t: "tpages (pages (set_pte (a, v mod 512) 0 s1)) pt = tpages (pages s) pt"
    and pm: "\<And>w. w < 2 ^ 27 \<Longrightarrow> pmap (pages (set_pte (a, v mod 512) 0 s1)) pt w = (if w = v then 0 else pmap (pages s) pt w)"
    and o: "\<And>b. b \<notin> insert ?d (tpages (pages s) pt) \<Longrightarrow> pages (set_pte (a, v mod 512) 0 s1) b = pages s b"
    and k: "kernel_end (set_pte (a, v mod 512) 0 s1) = kernel_end s"
    using unmap_page [OF Suc.prems(1) v(1)] by blast
  define s2 where "s2 = set_pte (a, v mod 512) 0 s1"
  obtain s' ps' where IH: "uvmunmap_loop h pt (page (Suc v)) (page (Suc v + n)) True s2 = Some s'"
    "unmapped h s2 pt (?d # ps) (N - {v}) {Suc v..<Suc v + n} s' ps'"
    using Suc.IH [OF sp v(2)] unfolding s2_def by blast
  have ok: "valid (pmap (pages s) pt v)" "PTE_FLAGS (pmap (pages s) pt v) \<noteq> PTE_V"
    using Suc.prems(1) v(1) by (auto simp: space_def)
  have "page v < page (v + Suc n)" using page_less [of v "v + Suc n"] le by simp
  then have "uvmunmap_loop h pt (page v) (page (v + Suc n)) True s = Some s'"
    using w ok IH(1) by (subst uvmunmap_loop.simps) (simp add: valid_def s2_def page_Suc)
  moreover have "unmapped h s pt ps N {v..<v + Suc n} s' ps'"
  proof -
    have R: "{v..<v + Suc n} = insert v {Suc v..<Suc v + n}" by auto
    have dt: "data (pages s2) pt {Suc v..<Suc v + n} = data (pages s) pt {Suc v..<Suc v + n}"
      using pm le by (intro data_cong) (auto simp: s2_def)
    have "N - {v} - {Suc v..<Suc v + n} = N - {v..<v + Suc n}" by auto
    then show ?thesis
      using IH(2) t pm o k unfolding unmapped_def R data_insert dt s2_def [symmetric] by auto
  qed
  ultimately show ?case by blast
qed

lemma uvmunmap_run:
  assumes "space h s pt ps N" "{v..<v + n} \<subseteq> N" "v < 2 ^ 26"
  shows "\<exists>s' ps'. uvmunmap h pt (page v) (of_nat n) True s = Some s' \<and> unmapped h s pt ps N {v..<v + n} s' ps'"
  using uvmunmap_loop_run [OF assms(1,2)] page_aligned [of v] assms(3) by (simp add: uvmunmap_def page_add)

text \<open>The number of pages of a size.\<close>

definition pgs :: "u64 \<Rightarrow> nat" where
  "pgs sz = (unat sz + 4095) div 4096"

lemma PGROUNDUP_page: "unat a \<le> 2 ^ 38 \<Longrightarrow> PGROUNDUP a = page (pgs a)"
proof -
  assume a: "unat a \<le> 2 ^ 38"
  have u: "unat (a + PGSIZE - 1) = unat a + 4095"
  proof -
    have "a + PGSIZE - 1 = of_nat (unat a + 4095)" by (simp add: PGSIZE_def)
    moreover have "unat a + 4095 < 2 ^ 64" using a by simp
    ultimately show ?thesis by (simp only: unat_of_nat) (simp add: take_bit_nat_eq_self)
  qed
  have "PGROUNDUP a = PGROUNDDOWN (a + PGSIZE - 1)" by (simp add: PGROUNDUP_def PGROUNDDOWN_def)
  then show ?thesis unfolding PGROUNDDOWN_page vpn_def u pgs_def .
qed

lemma pgs_le: "unat a \<le> 2 ^ 38 \<Longrightarrow> pgs a \<le> 2 ^ 26"
proof -
  assume "unat a \<le> 2 ^ 38"
  then have "pgs a \<le> (2 ^ 38 + 4095) div 4096" unfolding pgs_def by (intro div_le_mono) simp
  then show ?thesis by simp
qed

lemma uvmdealloc_run:
  assumes "space h s pt ps N" "m \<le> v" "v \<le> 2 ^ 26" "{m..<v} \<subseteq> N"
  shows "\<exists>s' ps'. uvmdealloc h pt (page v) (page m) s = Some (page m, s') \<and> unmapped h s pt ps N {m..<v} s' ps'"
proof (cases "m = v")
  case True
  then show ?thesis using assms(1) by (auto simp: uvmdealloc_def unmapped_def data_def)
next
  case False
  then have mv: "m < v" "m < 2 ^ 26" "unat (page m) \<le> 2 ^ 38" "unat (page v) \<le> 2 ^ 38" using assms(2,3) by (simp_all add: page_nat)
  have p: "pgs (page m) = m" "pgs (page v) = v" using mv assms(3) by (simp_all add: pgs_def page_nat)
  have u: "PGROUNDUP (page m) = page m" "PGROUNDUP (page v) = page v"
    using PGROUNDUP_page [OF mv(3)] PGROUNDUP_page [OF mv(4)] p by simp_all
  have lt: "page m < page v" using page_less [of m v] mv assms(3) by simp
  have n: "(page v - page m) div PGSIZE = of_nat (v - m)"
  proof (rule word_unat_eq_iff [THEN iffD2])
    have "unat (page v - page m) = 4096 * v - 4096 * m"
      using unat_sub [OF order.strict_implies_order [OF lt]] mv assms(3) by (simp add: page_nat)
    also have "\<dots> = (v - m) * 4096" by (simp add: diff_mult_distrib)
    finally have "unat ((page v - page m) div PGSIZE) = v - m" by (simp add: unat_div PGSIZE_def)
    moreover have "unat (of_nat (v - m) :: u64) = v - m" by (simp only: unat_of_nat) (use assms(3) in \<open>simp add: take_bit_nat_eq_self\<close>)
    ultimately show "unat ((page v - page m) div PGSIZE) = unat (of_nat (v - m) :: u64)" by simp
  qed
  have c: "scast (ucast (of_nat (v - m) :: u64) :: u32) = (of_nat (v - m) :: u64)"
  proof -
    have "sint (of_nat (v - m) :: u32) = int (v - m)"
      using assms(3) by (simp add: signed_of_nat signed_take_bit_int_eq_self)
    then have "scast (of_nat (v - m) :: u32) = (word_of_int (int (v - m)) :: u64)" by (metis scast_eq)
    moreover have "ucast (of_nat (v - m) :: u64) = (of_nat (v - m) :: u32)"
      using assms(3) by (simp add: unsigned_of_nat take_bit_nat_eq_self)
    ultimately show ?thesis by simp
  qed
  have vm: "v = m + (v - m)" using mv(1) by simp
  have "{m..<m + (v - m)} \<subseteq> N" using assms(4) vm by simp
  from uvmunmap_run [OF assms(1) this mv(2)] obtain s' ps' where
    "uvmunmap h pt (page m) (of_nat (v - m)) True s = Some s'" "unmapped h s pt ps N {m..<v} s' ps'"
    using vm by auto
  moreover have "\<not> page v \<le> page m" using lt by simp
  ultimately show ?thesis using lt by (intro exI [of _ s'] exI [of _ ps']) (simp add: uvmdealloc_def u n c Let_def)
qed

section \<open>Growing the memory of a user\<close>

lemma bits_below: "(f :: u64) < 1024 \<longleftrightarrow> (\<forall>n. bit f n \<longrightarrow> n < 10)"
proof
  assume "\<forall>n. bit f n \<longrightarrow> n < 10"
  then have "take_bit 10 f = f" by (intro bit_word_eqI) (auto simp: bit_simps)
  then have "unat f = take_bit 10 (unat f)" by (metis unsigned_take_bit_eq)
  then have "unat f < 1024" using take_bit_nat_less_exp [of 10 "unat f"] by simp
  then show "f < 1024" by (simp add: word_less_nat_alt)
qed (use low_bits in blast)

lemma or_below: "f < 1024 \<Longrightarrow> g < 1024 \<Longrightarrow> (f OR g :: u64) < 1024"
  by (auto simp: bits_below bit_simps)

lemma make_entry:
  assumes "page_ok s b" "f < 1024"
  shows "valid (PA2PTE b OR f OR PTE_V)" "PTE2PA (PA2PTE b OR f OR PTE_V) = b"
    "PTE_FLAGS (PA2PTE b OR f OR PTE_V) = f OR PTE_V"
proof -
  have f: "f OR PTE_V < 1024" by (rule or_below [OF assms(2)]) (simp add: PTE_V_def)
  have "(f OR PTE_V) AND PTE_V = PTE_V" by (rule bit_word_eqI) (auto simp: bit_simps)
  then have "(f OR PTE_V) AND PTE_V \<noteq> 0" by (simp add: PTE_V_def)
  then show "valid (PA2PTE b OR f OR PTE_V)" using make_valid [OF f, of b] by (simp add: or.assoc)
  show "PTE2PA (PA2PTE b OR f OR PTE_V) = b" using page_entry [OF assms(1) f] by (simp add: or.assoc)
  show "PTE_FLAGS (PA2PTE b OR f OR PTE_V) = f OR PTE_V" using PTE_FLAGS_make [OF f, of b] by (simp add: or.assoc)
qed

lemma alloc_page:
  assumes "vm h s pt (b # ps)"
  obtains s1 s2 where "kalloc h s = Some (b, s1)" "b \<noteq> 0" "zero_page b s1 = Some s2" "vm h s2 pt ps"
    "s2 = set_page b (replicate 4096 0) s1" "vm h s1 pt ps"
    "tpages (pages s1) pt = tpages (pages s) pt" "\<And>v. pmap (pages s1) pt v = pmap (pages s) pt v"
    "tpages (pages s2) pt = tpages (pages s) pt" "\<And>v. pmap (pages s2) pt v = pmap (pages s) pt v"
    "pages s2 = (pages s)(b := replicate 4096 0)" "kernel_end s2 = kernel_end s"
    "page_ok s b" "b \<notin> set ps" "b \<notin> tpages (pages s) pt"
    "pages s1 = (pages s)(b := replicate 4096 5)" "kernel_end s1 = kernel_end s"
proof -
  have p: "pool s (b # ps)" "hart_ok h s" using assms by (simp_all add: vm_def)
  have b: "page_ok s b" "b \<notin> set ps" "b \<noteq> 0" "b \<notin> tpages (pages s) pt"
    using assms p(1) by (auto simp: vm_def pool_def page_ok_def)
  obtain s1 where s1: "kalloc h s = Some (b, s1)" "pool s1 ps"
    "s1 = (settle h s)\<lparr>pages := (pages s)(b := replicate 4096 5), freelist := freelist s1\<rparr>"
    using kalloc_some [OF p] by blast
  have k: "kernel_end s1 = kernel_end s" "hart_ok h s1" "pages s1 = (pages s)(b := replicate 4096 5)"
    by (subst s1(3); use p(2) in \<open>simp add: hart_ok_def\<close>)+
  have e: "pte_of (pages s1) a i = pte_of (pages s) a i" if "a \<in> tpages (pages s) pt" for a i
    using that b(4) k(3) by (auto simp: pte_of_def)
  note c = table_cong [of "pages s" pt "pages s1", OF e]
  have t: "tpages (pages s1) pt = tpages (pages s) pt" "pmap (pages s1) pt v = pmap (pages s) pt v" for v by (rule c; assumption)+
  have "table_ok (pages s1) pt" using c(2) assms by (simp add: vm_def)
  then have v1: "vm h s1 pt ps" using assms s1(2) k(2) by (simp add: vm_def t(1) page_ok_cong [OF k(1)])
  have "b \<notin> tpages (pages s1) pt" using b(4) t(1) by simp
  note v2 = vm_set_page [OF v1 this b(2), of "replicate 4096 0"]
  let ?s2 = "set_page b (replicate 4096 0) s1"
  have "zero_page b s1 = Some ?s2" using zero_page_run [OF s1(2) b(3)] .
  moreover have "pages ?s2 = (pages s)(b := replicate 4096 0)" "kernel_end ?s2 = kernel_end s"
    using k by (simp_all add: set_page_def)
  ultimately show ?thesis using that [OF s1(1) b(3)] v1 v2 t b k by simp
qed

lemma mappages_one:
  assumes "vm h s pt ps" "v < 2 ^ 26" "\<not> valid (pmap (pages s) pt v)"
  obtains s' ps' where "mappages h pt (page v) PGSIZE pa perm s = Some (0, s')" "vm h s' pt ps'" "kept s pt ps s' ps'"
    "\<And>w. w < 2 ^ 27 \<Longrightarrow> pmap (pages s') pt w = (if w = v then PA2PTE pa OR perm OR PTE_V else pmap (pages s) pt w)"
    "length ps \<le> length ps' + 2"
  | s' where "mappages h pt (page v) PGSIZE pa perm s = Some (-1, s')" "vm h s' pt []" "kept s pt ps s' []"
    "\<And>w. w < 2 ^ 27 \<Longrightarrow> pmap (pages s') pt w = pmap (pages s) pt w" "length ps < 2"
proof -
  have u: "unat (page v + PGSIZE - 1) = 4096 * v + 4095"
  proof -
    have "page v + PGSIZE - 1 = of_nat (4096 * v + 4095)" by (simp add: page_def PGSIZE_def)
    moreover have "4096 * v + 4095 < 2 ^ 64" using assms(2) by simp
    ultimately show ?thesis by (simp only: unat_of_nat) (simp add: take_bit_nat_eq_self)
  qed
  have r: "PGROUNDDOWN (page v) = page v" "PGROUNDDOWN (page v + PGSIZE - 1) = page (v + 0)"
  proof -
    have "vpn (page v + PGSIZE - 1) = v" unfolding vpn_def u by simp
    then show "PGROUNDDOWN (page v) = page v" "PGROUNDDOWN (page v + PGSIZE - 1) = page (v + 0)"
      using assms(2) by (simp_all only: PGROUNDDOWN_page add_0_right) simp
  qed
  have m: "mappages h pt (page v) PGSIZE pa perm s = mappages_loop h pt (page v) (page (v + 0)) pa perm s"
    unfolding mappages_def r by (simp add: PGSIZE_def)
  obtain r s' ps' k where run: "mappages_loop h pt (page v) (page (v + 0)) pa perm s = Some (r, s')" "vm h s' pt ps'" "kept s pt ps s' ps'"
    "if r = 0 then k = Suc 0 \<and> length ps \<le> length ps' + 2 * Suc 0 else r = -1 \<and> k \<le> 0 \<and> ps' = [] \<and> length ps < 2 * Suc 0"
    "\<forall>w<2 ^ 27. pmap (pages s') pt w =
      (if v \<le> w \<and> w < v + k then PA2PTE (pa + page (w - v)) OR perm OR PTE_V else pmap (pages s) pt w)"
    using mappages_loop_run [OF assms(1), of v 0 pa perm] assms(2,3) by auto
  show ?thesis
  proof (cases "r = 0")
    case True
    then have "pmap (pages s') pt w = (if w = v then PA2PTE pa OR perm OR PTE_V else pmap (pages s) pt w)" if "w < 2 ^ 27" for w
      using run(4,5) that by (auto simp: page_def)
    then show ?thesis using that(1) run(1-4) True m by simp
  next
    case False
    then have "pmap (pages s') pt w = pmap (pages s) pt w" if "w < 2 ^ 27" for w using run(4,5) that by auto
    then show ?thesis using that(2) run(1-4) False m by simp
  qed
qed

lemma space_other:
  assumes "space h s pt ps N" "vm h s' pt ps'" "tpages (pages s') pt \<union> set ps' \<subseteq> tpages (pages s) pt \<union> set ps"
    "kernel_end s' = kernel_end s" "\<And>w. w < 2 ^ 27 \<Longrightarrow> w \<in> N \<Longrightarrow> pmap (pages s') pt w = pmap (pages s) pt w"
  shows "space h s' pt ps' N"
proof -
  have N: "w < 2 ^ 27" if "w \<in> N" for w using assms(1) that by (auto simp: space_def)
  note pm = assms(5) [OF N]
  have "inj_on (\<lambda>v. PTE2PA (pmap (pages s') pt v)) N"
    using assms(1) pm by (simp add: space_def inj_on_def)
  moreover have "valid (pmap (pages s') pt v) \<and> PTE_FLAGS (pmap (pages s') pt v) \<noteq> PTE_V \<and>
      page_ok s' (PTE2PA (pmap (pages s') pt v)) \<and> PTE2PA (pmap (pages s') pt v) \<notin> tpages (pages s') pt \<union> set ps'"
    if "v \<in> N" for v
    using that assms(1,3) pm [OF that that] by (auto simp: space_def page_ok_cong [OF assms(4)])
  ultimately show ?thesis using assms(1,2) by (simp add: space_def)
qed

lemma space_insert:
  assumes "space h s pt ps N" "v < 2 ^ 26" "valid (pmap (pages s) pt v)" "PTE_FLAGS (pmap (pages s) pt v) \<noteq> PTE_V"
    "page_ok s (PTE2PA (pmap (pages s) pt v))" "PTE2PA (pmap (pages s) pt v) \<notin> tpages (pages s) pt \<union> set ps \<union> data (pages s) pt N"
  shows "space h s pt ps (insert v N)"
proof -
  have "inj_on (\<lambda>v. PTE2PA (pmap (pages s) pt v)) (insert v N)"
    using assms(1,6) unfolding inj_on_insert data_def space_def by blast
  then show ?thesis using assms unfolding space_def by blast
qed

text \<open>New pages \<open>M\<close> with flags \<open>fl\<close> and contents \<open>c\<close>; and a range \<open>R\<close> taken back.\<close>

definition added ::
  "nat \<Rightarrow> 'a kheap_scheme \<Rightarrow> u64 \<Rightarrow> u64 list \<Rightarrow> nat set \<Rightarrow> nat set \<Rightarrow> (nat \<Rightarrow> u64) \<Rightarrow> (nat \<Rightarrow> u8 list) \<Rightarrow>
    'a kheap_scheme \<Rightarrow> u64 list \<Rightarrow> bool" where
  "added h s pt ps N M fl c s' ps' \<longleftrightarrow> space h s' pt ps' (N \<union> M) \<and> kernel_end s' = kernel_end s \<and>
     (\<forall>w<2 ^ 27. w \<notin> M \<longrightarrow> pmap (pages s') pt w = pmap (pages s) pt w) \<and>
     (\<forall>w\<in>M. PTE_FLAGS (pmap (pages s') pt w) = fl w \<and> pages s' (PTE2PA (pmap (pages s') pt w)) = c w) \<and>
     (\<forall>b. b \<notin> tpages (pages s) pt \<union> set ps \<longrightarrow> pages s' b = pages s b) \<and>
     tpages (pages s') pt \<union> data (pages s') pt M \<union> set ps' = tpages (pages s) pt \<union> set ps"

definition undone :: "nat \<Rightarrow> 'a kheap_scheme \<Rightarrow> u64 \<Rightarrow> u64 list \<Rightarrow> nat set \<Rightarrow> nat set \<Rightarrow> 'a kheap_scheme \<Rightarrow> u64 list \<Rightarrow> bool" where
  "undone h s pt ps N R s' ps' \<longleftrightarrow> space h s' pt ps' (N - R) \<and> kernel_end s' = kernel_end s \<and>
     (\<forall>w<2 ^ 27. if w \<in> R then \<not> valid (pmap (pages s') pt w)
        else pmap (pages s') pt w = pmap (pages s) pt w \<or> \<not> valid (pmap (pages s) pt w) \<and> \<not> valid (pmap (pages s') pt w)) \<and>
     (\<forall>b. b \<notin> tpages (pages s) pt \<union> set ps \<union> data (pages s) pt R \<longrightarrow> pages s' b = pages s b) \<and>
     tpages (pages s') pt \<union> set ps' = tpages (pages s) pt \<union> set ps \<union> data (pages s) pt R"

lemma space_data: "space h s pt ps N \<Longrightarrow> data (pages s) pt N \<inter> (tpages (pages s) pt \<union> set ps) = {}"
  by (auto simp: space_def data_def)

lemma added_step:
  assumes a: "added h s pt ps N {v} fl c s1 ps1" and b: "added h s1 pt ps1 (insert v N) M fl c s' ps'"
    and v: "v \<notin> M" "v < 2 ^ 27"
  shows "added h s pt ps N (insert v M) fl c s' ps'"
proof -
  have e: "pmap (pages s') pt v = pmap (pages s1) pt v" using b v by (simp add: added_def)
  have d: "PTE2PA (pmap (pages s1) pt v) \<notin> tpages (pages s1) pt \<union> set ps1" using a by (auto simp: added_def space_def)
  have z: "pages s' (PTE2PA (pmap (pages s1) pt v)) = c v"
    using a b d unfolding added_def by simp
  have dt: "data (pages s') pt (insert v M) = data (pages s1) pt {v} \<union> data (pages s') pt M" using e by (simp add: data_def)
  have t: "tpages (pages s1) pt \<union> data (pages s1) pt {v} \<union> set ps1 = tpages (pages s) pt \<union> set ps"
    "tpages (pages s') pt \<union> data (pages s') pt M \<union> set ps' = tpages (pages s1) pt \<union> set ps1"
    using a b by (simp_all add: added_def)
  have "insert v N \<union> M = N \<union> insert v M" by auto
  moreover have "tpages (pages s') pt \<union> data (pages s') pt (insert v M) \<union> set ps' = tpages (pages s) pt \<union> set ps"
    unfolding dt using t by blast
  moreover have "pages s' b = pages s b" if "b \<notin> tpages (pages s) pt \<union> set ps" for b
  proof -
    have "b \<notin> tpages (pages s1) pt \<union> set ps1" using that t(1) by blast
    then show ?thesis using a b that by (simp add: added_def)
  qed
  ultimately show ?thesis
    using a b e z unfolding added_def by (auto simp del: Un_iff)
qed

lemma undone_step:
  assumes a: "added h s pt ps N {v} fl c s1 ps1" and b: "undone h s1 pt ps1 (insert v N) {m..<Suc v} s' ps'"
    and v: "m \<le> v" "v < 2 ^ 27" "v \<notin> N" "\<not> valid (pmap (pages s) pt v)"
  shows "undone h s pt ps N {m..<v} s' ps'"
proof -
  have e: "pmap (pages s1) pt w = pmap (pages s) pt w" if "w < 2 ^ 27" "w \<noteq> v" for w using a that by (simp add: added_def)
  have R: "{m..<Suc v} = insert v {m..<v}" "N - insert v {m..<v} = N - {m..<v}"
    using v(1,3) by (auto simp: atLeastLessThanSuc)
  have dt: "data (pages s1) pt {m..<v} = data (pages s) pt {m..<v}" using e v(2) by (intro data_cong) auto
  have t: "tpages (pages s1) pt \<union> data (pages s1) pt {v} \<union> set ps1 = tpages (pages s) pt \<union> set ps"
    "tpages (pages s') pt \<union> set ps' = tpages (pages s1) pt \<union> set ps1 \<union> (data (pages s1) pt {v} \<union> data (pages s) pt {m..<v})"
    using a b dt by (simp_all add: added_def undone_def R data_def)
  have "tpages (pages s') pt \<union> set ps' = tpages (pages s) pt \<union> set ps \<union> data (pages s) pt {m..<v}" using t by blast
  moreover have "pages s' c = pages s c" if c: "c \<notin> tpages (pages s) pt \<union> set ps \<union> data (pages s) pt {m..<v}" for c
  proof -
    have "c \<notin> tpages (pages s1) pt \<union> set ps1 \<union> data (pages s1) pt {m..<Suc v}" using c t(1) dt by (auto simp: R data_def)
    then have "pages s' c = pages s1 c" using b by (simp add: undone_def)
    then show ?thesis using a c by (simp add: added_def)
  qed
  moreover have "if w \<in> {m..<v} then \<not> valid (pmap (pages s') pt w)
      else pmap (pages s') pt w = pmap (pages s) pt w \<or> \<not> valid (pmap (pages s) pt w) \<and> \<not> valid (pmap (pages s') pt w)"
    if w: "w < 2 ^ 27" for w
  proof (cases "w = v")
    case True
    then show ?thesis using b w v(1,4) by (simp add: undone_def R)
  next
    case False
    have "if w \<in> {m..<Suc v} then \<not> valid (pmap (pages s') pt w)
        else pmap (pages s') pt w = pmap (pages s1) pt w \<or> \<not> valid (pmap (pages s1) pt w) \<and> \<not> valid (pmap (pages s') pt w)"
      using b w unfolding undone_def by blast
    then show ?thesis using False e [OF w False] by (simp add: R split: if_splits)
  qed
  ultimately show ?thesis using a b unfolding undone_def added_def R by (simp add: R(2))
qed

text \<open>An allocation that is given back, then the unmapping of a range.\<close>

lemma unmapped_undone:
  assumes u: "unmapped h s1 pt ps1 N R s' ps'" and t: "tpages (pages s1) pt \<union> set ps1 = tpages (pages s) pt \<union> set ps"
    and k: "kernel_end s1 = kernel_end s" and p: "\<And>w. w < 2 ^ 27 \<Longrightarrow> pmap (pages s1) pt w = pmap (pages s) pt w"
    and o: "\<And>b. b \<notin> tpages (pages s) pt \<union> set ps \<Longrightarrow> pages s1 b = pages s b" and R: "R \<subseteq> {..<2 ^ 26}"
  shows "undone h s pt ps N R s' ps'"
proof -
  have "data (pages s1) pt R = data (pages s) pt R" using p R by (intro data_cong) auto
  then show ?thesis using u t k p o unfolding undone_def unmapped_def by auto
qed

lemma undone_unmapped:
  assumes sp: "space h s pt ps N" and vm: "vm h s1 pt ps1" and t: "tpages (pages s1) pt \<union> set ps1 = tpages (pages s) pt \<union> set ps"
    and k: "kernel_end s1 = kernel_end s" and p: "\<And>w. w < 2 ^ 27 \<Longrightarrow> pmap (pages s1) pt w = pmap (pages s) pt w"
    and o: "\<And>b. b \<notin> tpages (pages s) pt \<union> set ps \<Longrightarrow> pages s1 b = pages s b"
    and mv: "m \<le> v" "v \<le> 2 ^ 26" "{m..<v} \<subseteq> N"
  shows "\<exists>s' ps'. uvmdealloc h pt (page v) (page m) s1 = Some (page m, s') \<and> undone h s pt ps N {m..<v} s' ps'"
proof -
  have "space h s1 pt ps1 N" by (rule space_other [OF sp vm _ k]) (use t p in auto)
  from uvmdealloc_run [OF this mv] obtain s' ps' where "uvmdealloc h pt (page v) (page m) s1 = Some (page m, s')"
    "unmapped h s1 pt ps1 N {m..<v} s' ps'" by blast
  then show ?thesis using unmapped_undone [OF _ t k p o] mv(2) by fastforce
qed

lemma leaf_flags: "(PTE_R OR PTE_U OR x) OR PTE_V \<noteq> PTE_V"
proof
  assume "(PTE_R OR PTE_U OR x) OR PTE_V = PTE_V"
  then have "bit ((PTE_R OR PTE_U OR x) OR PTE_V) 1 = bit PTE_V 1" by simp
  then show False by (simp add: bit_simps PTE_R_def PTE_V_def)
qed

text \<open>A page is allocated, filled with \<open>x\<close> and mapped, or given back when there is no memory for the table.\<close>

lemma alloc_map:
  assumes sp: "space h s pt (b # qs) N" and v: "v < 2 ^ 26" "v \<notin> N" "\<not> valid (pmap (pages s) pt v)"
    and f: "f < 1024" "f OR PTE_V \<noteq> PTE_V" and x: "length x = 4096"
  obtains s1 s3 ps3 where "kalloc h s = Some (b, s1)" "pages s1 = (pages s)(b := replicate 4096 5)" "b \<noteq> 0" "zero_page b s1 = Some (set_page b (replicate 4096 0) s1)"
    "mappages h pt (page v) PGSIZE b f (set_page b x s1) = Some (0, s3)"
    "added h s pt (b # qs) N {v} (\<lambda>_. f OR PTE_V) (\<lambda>_. x) s3 ps3" "length (b # qs) \<le> length ps3 + 3"
  | s1 s3 s4 where "kalloc h s = Some (b, s1)" "pages s1 = (pages s)(b := replicate 4096 5)" "b \<noteq> 0" "zero_page b s1 = Some (set_page b (replicate 4096 0) s1)"
    "mappages h pt (page v) PGSIZE b f (set_page b x s1) = Some (-1, s3)" "kfree h b s3 = Some s4" "vm h s4 pt [b]"
    "tpages (pages s4) pt \<union> set [b] = tpages (pages s) pt \<union> set (b # qs)" "kernel_end s4 = kernel_end s"
    "\<And>w. w < 2 ^ 27 \<Longrightarrow> pmap (pages s4) pt w = pmap (pages s) pt w"
    "\<And>c. c \<notin> tpages (pages s) pt \<union> set (b # qs) \<Longrightarrow> pages s4 c = pages s c" "length (b # qs) < 3"
proof -
  have vm: "vm h s pt (b # qs)" using sp by (simp add: space_def)
  have v27: "v < 2 ^ 27" using v(1) by simp
  obtain s1 where a: "kalloc h s = Some (b, s1)" "b \<noteq> 0" "zero_page b s1 = Some (set_page b (replicate 4096 0) s1)" "vm h s1 pt qs"
    "tpages (pages s1) pt = tpages (pages s) pt" "\<And>v. pmap (pages s1) pt v = pmap (pages s) pt v"
    "pages s1 = (pages s)(b := replicate 4096 5)" "kernel_end s1 = kernel_end s" "page_ok s b" "b \<notin> set qs"
    "b \<notin> tpages (pages s) pt"
    using alloc_page [OF vm] by metis
  let ?s2 = "set_page b x s1"
  have b1: "b \<notin> tpages (pages s1) pt" using a(5,11) by simp
  note c = vm_set_page [OF a(4) b1 a(10) x]
  have p2: "pages ?s2 c = (if c = b then x else pages s c)" "kernel_end ?s2 = kernel_end s" for c using a(7,8) by (simp_all add: set_page_def)
  have nv2: "\<not> valid (pmap (pages ?s2) pt v)" using v(3) a(6) c(3) by simp
  show ?thesis
  proof (rule mappages_one [where pa = b and perm = f, OF c(1) v(1) nv2])
    fix s3 ps3 assume m: "mappages h pt (page v) PGSIZE b f ?s2 = Some (0, s3)" "vm h s3 pt ps3" "kept ?s2 pt qs s3 ps3"
      "\<And>w. w < 2 ^ 27 \<Longrightarrow> pmap (pages s3) pt w = (if w = v then PA2PTE b OR f OR PTE_V else pmap (pages ?s2) pt w)"
      "length qs \<le> length ps3 + 2"
    have t: "tpages (pages s3) pt \<union> set ps3 = tpages (pages s) pt \<union> set qs" "kernel_end s3 = kernel_end s"
      using m(3) a(5) c(2) p2(2) by (simp_all add: kept_def)
    have o: "pages s3 d = (if d = b then x else pages s d)" if "d \<notin> tpages (pages s) pt \<union> set qs" for d
      using m(3) a(5) c(2) that p2(1) by (simp add: kept_def)
    note en = make_entry [OF a(9) f(1)]
    have pm: "pmap (pages s3) pt w = (if w = v then PA2PTE b OR f OR PTE_V else pmap (pages s) pt w)" if "w < 2 ^ 27" for w
      using m(4) [OF that] a(6) c(3) by simp
    note pv = pm [OF v27, simplified]
    have N: "w < 2 ^ 27 \<and> w \<noteq> v" if "w \<in> N" for w using sp that v(2) by (auto simp: space_def)
    have sp3: "space h s3 pt ps3 N"
      by (rule space_other [OF sp m(2) _ t(2)]) (use t(1) pm N in auto)
    have dN: "data (pages s3) pt N = data (pages s) pt N" using pm N by (intro data_cong) auto
    have bo: "b \<notin> tpages (pages s3) pt \<union> set ps3 \<union> data (pages s3) pt N"
      unfolding t(1) dN using a(10,11) space_data [OF sp] by auto
    have sv: "space h s3 pt ps3 (insert v N)"
      by (rule space_insert [OF sp3 v(1)]) (use en bo a(9) page_ok_cong [OF t(2)] f(2) in \<open>simp_all add: pv\<close>)
    have "added h s pt (b # qs) N {v} (\<lambda>_. f OR PTE_V) (\<lambda>_. x) s3 ps3"
      unfolding added_def
    proof (intro conjI)
      show "\<forall>w\<in>{v}. PTE_FLAGS (pmap (pages s3) pt w) = f OR PTE_V \<and> pages s3 (PTE2PA (pmap (pages s3) pt w)) = x"
        using en o [of b] a(10,11) by (simp add: pv)
      show "tpages (pages s3) pt \<union> data (pages s3) pt {v} \<union> set ps3 = tpages (pages s) pt \<union> set (b # qs)"
        using t(1) en(2) by (auto simp: data_def pv)
    qed (use sv pm t o in auto)
    then show ?thesis using that(1) a(1-3,7) m(1,5) by simp
  next
    fix s3 assume m: "mappages h pt (page v) PGSIZE b f ?s2 = Some (-1, s3)" "vm h s3 pt []" "kept ?s2 pt qs s3 []"
      "\<And>w. w < 2 ^ 27 \<Longrightarrow> pmap (pages s3) pt w = pmap (pages ?s2) pt w" "length qs < 2"
    have t: "tpages (pages s3) pt = tpages (pages s) pt \<union> set qs" "kernel_end s3 = kernel_end s"
      using m(3) a(5) c(2) p2(2) by (simp_all add: kept_def)
    have o: "pages s3 d = (if d = b then x else pages s d)" if "d \<notin> tpages (pages s) pt \<union> set qs" for d
      using m(3) a(5) c(2) that p2(1) by (simp add: kept_def)
    have "b \<notin> tpages (pages s3) pt" "page_ok s3 b" using t a(10,11) page_ok_cong [OF t(2)] a(9) by auto
    then obtain s4 where g: "kfree h b s3 = Some s4" "vm h s4 pt [b]" "tpages (pages s4) pt = tpages (pages s3) pt"
      "\<And>v. pmap (pages s4) pt v = pmap (pages s3) pt v" "\<And>c. c \<noteq> b \<Longrightarrow> pages s4 c = pages s3 c" "kernel_end s4 = kernel_end s3"
      using kfree_vm [OF m(2)] by (metis empty_iff empty_set)
    have "tpages (pages s4) pt \<union> set [b] = tpages (pages s) pt \<union> set (b # qs)" using g(3) t(1) by auto
    moreover have "pages s4 d = pages s d" if "d \<notin> tpages (pages s) pt \<union> set (b # qs)" for d
      using that g(5) [of d] o [of d] by simp
    moreover have "pmap (pages s4) pt w = pmap (pages s) pt w" if "w < 2 ^ 27" for w using g(4) m(4) [OF that] a(6) c(3) by simp
    ultimately show ?thesis using that(2) [OF a(1,7,2,3) m(1) g(1,2)] g(6) t(2) m(5) by simp
  qed
qed

abbreviation zeros :: "nat \<Rightarrow> u8 list" where
  "zeros \<equiv> \<lambda>_. replicate 4096 0"

abbreviation user_flags :: "u64 \<Rightarrow> nat \<Rightarrow> u64" where
  "user_flags xperm \<equiv> \<lambda>_. (PTE_R OR PTE_U OR xperm) OR PTE_V"

lemma uvmalloc_loop_run:
  assumes "space h s pt ps N" "m \<le> v" "v \<le> pgs newsz" "unat newsz \<le> 2 ^ 38" "{m..<v} \<subseteq> N" "xperm < 1024"
    "\<forall>w\<in>{v..<pgs newsz}. w \<notin> N \<and> \<not> valid (pmap (pages s) pt w)"
  shows "\<exists>s' ps'. uvmalloc_loop h pt (page v) (page m) newsz xperm s = Some (newsz, s') \<and>
      added h s pt ps N {v..<pgs newsz} (user_flags xperm) zeros s' ps' \<and> length ps \<le> length ps' + 3 * (pgs newsz - v) \<or>
    uvmalloc_loop h pt (page v) (page m) newsz xperm s = Some (0, s') \<and> undone h s pt ps N {m..<v} s' ps' \<and>
      length ps < 3 * (pgs newsz - v)"
  using assms(1-3,5,7)
proof (induction "pgs newsz - v" arbitrary: v s ps N)
  case 0
  then have v: "v = pgs newsz" by simp
  have "\<not> page v < newsz"
    using pgs_le [OF assms(4)] by (simp add: v word_less_nat_alt page_nat) (simp add: pgs_def)
  then have "uvmalloc_loop h pt (page v) (page m) newsz xperm s = Some (newsz, s)" by (subst uvmalloc_loop.simps) simp
  moreover have "added h s pt ps N {v..<pgs newsz} (user_flags xperm) zeros s ps"
    using 0 v by (simp add: added_def data_def)
  ultimately show ?case by (intro exI [of _ s] exI [of _ ps]) simp
next
  case (Suc n)
  let ?f = "PTE_R OR PTE_U OR xperm"
  have v: "v < pgs newsz" "v < 2 ^ 26" "v < 2 ^ 27" "v \<le> 2 ^ 26" using Suc.hyps(2) pgs_le [OF assms(4)] by simp_all
  have lt: "page v < newsz" using v unfolding word_less_nat_alt by (simp add: page_nat) (simp add: pgs_def)
  have f: "?f < 1024" by (intro or_below assms(6)) (simp_all add: PTE_R_def PTE_U_def)
  have nv: "v \<notin> N" "\<not> valid (pmap (pages s) pt v)" using Suc.prems(5) v(1) by auto
  have vm: "vm h s pt ps" using Suc.prems(1) by (simp add: space_def)
  have undo: "\<exists>s' ps'. uvmdealloc h pt (page v) (page m) s1 = Some (page m, s') \<and> undone h s pt ps N {m..<v} s' ps'"
    if "vm h s1 pt ps1" "tpages (pages s1) pt \<union> set ps1 = tpages (pages s) pt \<union> set ps" "kernel_end s1 = kernel_end s"
      "\<And>w. w < 2 ^ 27 \<Longrightarrow> pmap (pages s1) pt w = pmap (pages s) pt w"
      "\<And>b. b \<notin> tpages (pages s) pt \<union> set ps \<Longrightarrow> pages s1 b = pages s b" for s1 ps1
    by (rule undone_unmapped [OF Suc.prems(1) that Suc.prems(2) v(4) Suc.prems(4)])
  show ?case
  proof (cases ps)
    case Nil
    have k: "kalloc h s = Some (0, settle h s)" using kalloc_none [of s h] vm Nil by (simp add: vm_def)
    obtain s' ps' where u: "uvmdealloc h pt (page v) (page m) (settle h s) = Some (page m, s')" "undone h s pt ps N {m..<v} s' ps'"
      using undo [OF vm_settle(1) [OF vm]] by auto
    have "uvmalloc_loop h pt (page v) (page m) newsz xperm s = Some (0, s')"
      using lt k u(1) by (subst uvmalloc_loop.simps) simp
    then show ?thesis using u(2) Nil v(1) by (intro exI [of _ s'] exI [of _ ps']) simp
  next
    case (Cons b qs)
    show ?thesis
    proof (rule alloc_map [where x = "replicate 4096 0", OF Suc.prems(1) [unfolded Cons] v(2) nv f leaf_flags])
      fix s1 s3 ps3 assume a: "kalloc h s = Some (b, s1)" "b \<noteq> 0" "zero_page b s1 = Some (set_page b (replicate 4096 0) s1)"
        "mappages h pt (page v) PGSIZE b ?f (set_page b (replicate 4096 0) s1) = Some (0, s3)"
        and ad: "added h s pt (b # qs) N {v} (\<lambda>_. ?f OR PTE_V) zeros s3 ps3" and len: "length (b # qs) \<le> length ps3 + 3"
      have step: "uvmalloc_loop h pt (page v) (page m) newsz xperm s = uvmalloc_loop h pt (page (Suc v)) (page m) newsz xperm s3"
        using lt a by (subst uvmalloc_loop.simps) (simp add: page_Suc)
      have sv: "space h s3 pt ps3 (insert v N)" using ad by (simp add: added_def)
      have l: "n = pgs newsz - Suc v" "m \<le> Suc v" "Suc v \<le> pgs newsz" "{m..<Suc v} \<subseteq> insert v N"
        using Suc.hyps(2) v(1) Suc.prems(2,4) by (auto simp: less_Suc_eq)
      have nx: "\<forall>w\<in>{Suc v..<pgs newsz}. w \<notin> insert v N \<and> \<not> valid (pmap (pages s3) pt w)"
        using Suc.prems(5) ad pgs_le [OF assms(4)] by (auto simp: added_def)
      have R: "{v..<pgs newsz} = insert v {Suc v..<pgs newsz}" using v(1) by auto
      from Suc.hyps(1) [OF l(1) sv l(2-4) nx] consider
        s' ps' where "uvmalloc_loop h pt (page (Suc v)) (page m) newsz xperm s3 = Some (newsz, s')"
          "added h s3 pt ps3 (insert v N) {Suc v..<pgs newsz} (user_flags xperm) zeros s' ps'"
          "length ps3 \<le> length ps' + 3 * (pgs newsz - Suc v)"
        | s' ps' where "uvmalloc_loop h pt (page (Suc v)) (page m) newsz xperm s3 = Some (0, s')"
          "undone h s3 pt ps3 (insert v N) {m..<Suc v} s' ps'" "length ps3 < 3 * (pgs newsz - Suc v)" by blast
      then show ?thesis
      proof cases
        case (1 s' ps')
        have "added h s pt ps N {v..<pgs newsz} (user_flags xperm) zeros s' ps'"
          unfolding R Cons by (rule added_step [OF ad 1(2)]) (use v(3) in auto)
        moreover have "length ps \<le> length ps' + 3 * (pgs newsz - v)" using 1(3) len Cons v(1) by simp
        ultimately show ?thesis using 1(1) step by auto
      next
        case (2 s' ps')
        have "undone h s pt ps N {m..<v} s' ps'" unfolding Cons by (rule undone_step [OF ad 2(2) Suc.prems(2) v(3) nv])
        moreover have "length ps < 3 * (pgs newsz - v)" using 2(3) len Cons v(1) by simp
        ultimately show ?thesis using 2(1) step by auto
      qed
    next
      fix s1 s3 s4 assume a: "kalloc h s = Some (b, s1)" "b \<noteq> 0" "zero_page b s1 = Some (set_page b (replicate 4096 0) s1)"
        "mappages h pt (page v) PGSIZE b ?f (set_page b (replicate 4096 0) s1) = Some (-1, s3)" "kfree h b s3 = Some s4"
        and u: "vm h s4 pt [b]" "tpages (pages s4) pt \<union> set [b] = tpages (pages s) pt \<union> set (b # qs)" "kernel_end s4 = kernel_end s"
        "\<And>w. w < 2 ^ 27 \<Longrightarrow> pmap (pages s4) pt w = pmap (pages s) pt w"
        "\<And>c. c \<notin> tpages (pages s) pt \<union> set (b # qs) \<Longrightarrow> pages s4 c = pages s c" and len: "length (b # qs) < 3"
      obtain s' ps' where d: "uvmdealloc h pt (page v) (page m) s4 = Some (page m, s')" "undone h s pt ps N {m..<v} s' ps'"
        using undo [OF u(1) u(2-5) [folded Cons]] by blast
      have "uvmalloc_loop h pt (page v) (page m) newsz xperm s = Some (0, s')"
        using lt a d(1) by (subst uvmalloc_loop.simps) simp
      then show ?thesis using d(2) len Cons v(1) by (intro exI [of _ s'] exI [of _ ps'] disjI2) simp
    qed simp
  qed
qed

text \<open>
  C13. Growing a process. For a process that owns its first pages, \<open>uvmalloc\<close> returns the new size and the process owns the
  additional pages too, each a page of its own full of zeros that the user may read, with the permissions asked for; or it runs
  out of memory, returns 0, and everything is given back, except pages that the table itself has got. In both cases the old
  mappings and the rest of the memory are as before, and no page is lost. With three free pages for each new page it succeeds.
\<close>

theorem uvmalloc_correct:
  assumes "space h s pt ps {..<pgs oldsz}" and "oldsz \<le> newsz" and "unat newsz \<le> 2 ^ 38" and "xperm < 1024"
    and "\<forall>w\<in>{pgs oldsz..<pgs newsz}. \<not> valid (pmap (pages s) pt w)"
  shows "\<exists>s' ps'. uvmalloc h pt oldsz newsz xperm s = Some (newsz, s') \<and> space h s' pt ps' {..<pgs newsz} \<and>
      added h s pt ps {..<pgs oldsz} {pgs oldsz..<pgs newsz} (user_flags xperm) zeros s' ps' \<or>
    uvmalloc h pt oldsz newsz xperm s = Some (0, s') \<and> undone h s pt ps {..<pgs oldsz} {} s' ps' \<and>
      length ps < 3 * (pgs newsz - pgs oldsz)"
proof -
  have le: "unat oldsz \<le> unat newsz" using assms(2) by (simp add: word_le_nat_alt)
  then have n: "pgs oldsz \<le> pgs newsz" unfolding pgs_def by (intro div_le_mono) simp
  have u: "uvmalloc h pt oldsz newsz xperm s = uvmalloc_loop h pt (page (pgs oldsz)) (page (pgs oldsz)) newsz xperm s"
    using PGROUNDUP_page [of oldsz] le assms(2,3) by (simp add: uvmalloc_def not_less [symmetric])
  have "{..<pgs oldsz} \<union> {pgs oldsz..<pgs newsz} = {..<pgs newsz}" using n by auto
  then have sp: "space h s' pt ps' {..<pgs newsz}"
    if "added h s pt ps {..<pgs oldsz} {pgs oldsz..<pgs newsz} (user_flags xperm) zeros s' ps'" for s' ps'
    using that by (simp add: added_def)
  show ?thesis
    using uvmalloc_loop_run [OF assms(1) order_refl n assms(3) _ assms(4)] assms(5) sp unfolding u by force
qed

section \<open>Copying the memory of a user\<close>

lemma flags_below: "PTE_FLAGS e < 1024"
  by (auto simp: bits_below PTE_FLAGS_def bit_simps bit_1023)

lemma flags_valid: "valid e \<Longrightarrow> PTE_FLAGS e OR PTE_V = PTE_FLAGS e"
  by (rule bit_word_eqI) (auto simp: valid_bit PTE_FLAGS_def PTE_V_def bit_simps bit_1023 bit_1_iff)

text \<open>The parent's table and pages are apart from the child's table and from the free pages.\<close>

definition apart :: "'a kheap_scheme \<Rightarrow> u64 \<Rightarrow> nat set \<Rightarrow> u64 \<Rightarrow> u64 list \<Rightarrow> bool" where
  "apart s old_pt N pt ps \<longleftrightarrow> (\<forall>w\<in>N. valid (pmap (pages s) old_pt w) \<and> PTE_FLAGS (pmap (pages s) old_pt w) \<noteq> PTE_V) \<and>
     (tpages (pages s) old_pt \<union> data (pages s) old_pt N) \<inter> (tpages (pages s) pt \<union> set ps) = {}"

lemma apart_added:
  assumes "apart s old_pt N pt ps" "added h s pt ps M K fl c s' ps'"
  shows "apart s' old_pt N pt ps'" "w \<in> N \<Longrightarrow> pages s' (PTE2PA (pmap (pages s) old_pt w)) = pages s (PTE2PA (pmap (pages s) old_pt w))"
    "pmap (pages s') old_pt w = pmap (pages s) old_pt w"
proof -
  have o: "pages s' b = pages s b" if "b \<in> tpages (pages s) old_pt \<union> data (pages s) old_pt N" for b
    using assms that unfolding apart_def added_def by blast
  have e: "pte_of (pages s') a i = pte_of (pages s) a i" if "a \<in> tpages (pages s) old_pt" for a i
    using that o [of a] by (simp add: pte_of_def)
  note c = table_cong [of "pages s" old_pt "pages s'", OF e]
  have t: "tpages (pages s') old_pt = tpages (pages s) old_pt" "pmap (pages s') old_pt v = pmap (pages s) old_pt v" for v
    by (rule c; assumption)+
  then show "pmap (pages s') old_pt w = pmap (pages s) old_pt w" by simp
  show "w \<in> N \<Longrightarrow> pages s' (PTE2PA (pmap (pages s) old_pt w)) = pages s (PTE2PA (pmap (pages s) old_pt w))"
    using o by (simp add: data_def)
  have "tpages (pages s') pt \<union> set ps' \<subseteq> tpages (pages s) pt \<union> set ps" using assms(2) by (auto simp: added_def)
  moreover have "data (pages s') old_pt N = data (pages s) old_pt N" using t(2) by (intro data_cong) simp
  ultimately show "apart s' old_pt N pt ps'" using assms(1) t unfolding apart_def by auto
qed

lemma uvmcopy_loop_run:
  assumes "space h s pt ps {..<i}" "apart s old_pt {..<pgs sz} pt ps" "i \<le> pgs sz" "unat sz \<le> 2 ^ 38"
    "\<forall>w\<in>{i..<pgs sz}. \<not> valid (pmap (pages s) pt w)"
  shows "\<exists>s' ps'. uvmcopy_loop h old_pt pt (page i) sz s = Some (0, s') \<and>
      added h s pt ps {..<i} {i..<pgs sz} (\<lambda>w. PTE_FLAGS (pmap (pages s) old_pt w))
        (\<lambda>w. pages s (PTE2PA (pmap (pages s) old_pt w))) s' ps' \<or>
    uvmcopy_loop h old_pt pt (page i) sz s = Some (-1, s') \<and> undone h s pt ps {..<i} {0..<i} s' ps' \<and> length ps < 3 * (pgs sz - i)"
  using assms(1-3,5)
proof (induction "pgs sz - i" arbitrary: i s ps)
  case 0
  then have v: "i = pgs sz" by simp
  have "\<not> page i < sz"
    using pgs_le [OF assms(4)] by (simp add: v word_less_nat_alt page_nat) (simp add: pgs_def)
  then have "uvmcopy_loop h old_pt pt (page i) sz s = Some (0, s)" by (subst uvmcopy_loop.simps) simp
  moreover have "added h s pt ps {..<i} {i..<pgs sz} fl c s ps" for fl c
    using 0 v by (simp add: added_def data_def)
  ultimately show ?case by blast
next
  case (Suc n)
  have v: "i < pgs sz" "i < 2 ^ 26" "i < 2 ^ 27" "i \<le> 2 ^ 26" using Suc.hyps(2) pgs_le [OF assms(4)] by simp_all
  have lt: "page i < sz" using v unfolding word_less_nat_alt by (simp add: page_nat) (simp add: pgs_def)
  have nv: "i \<notin> {..<i}" "\<not> valid (pmap (pages s) pt i)" using Suc.prems(4) v(1) by auto
  have vm: "vm h s pt ps" using Suc.prems(1) by (simp add: space_def)
  let ?e = "pmap (pages s) old_pt i"
  let ?f = "PTE_FLAGS ?e" and ?x = "pages s (PTE2PA ?e)"
  have old: "valid ?e" "?f \<noteq> PTE_V" "?f OR PTE_V = ?f"
    using Suc.prems(2) v(1) flags_valid by (auto simp: apart_def)
  obtain a where a: "node (pages s) old_pt (path i) = Some a" using mapped_node [OF old(1)] by blast
  have w: "walk h old_pt (page i) False s = Some (Some (a, i mod 512), s)"
    using walk_find [OF page_MAXVA [OF v(2)], of h old_pt s] a v(2) by simp
  have g: "get_pte (a, i mod 512) s = ?e" using pmap_node [OF a] by (simp add: get_pte_of)
  have id: "page i div PGSIZE = of_nat i" using page_div v(2) by simp
  have undo: "\<exists>s' ps'. uvmunmap h pt 0 (of_nat i) True s1 = Some s' \<and> undone h s pt ps {..<i} {0..<i} s' ps'"
    if u: "vm h s1 pt ps1" "tpages (pages s1) pt \<union> set ps1 = tpages (pages s) pt \<union> set ps" "kernel_end s1 = kernel_end s"
      "\<And>w. w < 2 ^ 27 \<Longrightarrow> pmap (pages s1) pt w = pmap (pages s) pt w"
      "\<And>b. b \<notin> tpages (pages s) pt \<union> set ps \<Longrightarrow> pages s1 b = pages s b" for s1 ps1
  proof -
    have sp: "space h s1 pt ps1 {..<i}" by (rule space_other [OF Suc.prems(1) u(1) _ u(3)]) (use u in auto)
    obtain s' ps' where r: "uvmunmap h pt (page 0) (of_nat i) True s1 = Some s'" "unmapped h s1 pt ps1 {..<i} {0..<i} s' ps'"
      using uvmunmap_run [OF sp, of 0 i] by (auto simp: atLeast0LessThan)
    have "{0..<i} \<subseteq> {..<2 ^ 26}" using v(4) by auto
    with unmapped_undone [OF r(2) u(2-5)] have "undone h s pt ps {..<i} {0..<i} s' ps'" by blast
    then show ?thesis using r(1) by (auto simp: page_def)
  qed
  show ?case
  proof (cases ps)
    case Nil
    have k: "kalloc h s = Some (0, settle h s)" using kalloc_none [of s h] vm Nil by (simp add: vm_def)
    obtain s' ps' where u: "uvmunmap h pt 0 (of_nat i) True (settle h s) = Some s'" "undone h s pt ps {..<i} {0..<i} s' ps'"
      using undo [OF vm_settle(1) [OF vm]] by auto
    have "uvmcopy_loop h old_pt pt (page i) sz s = Some (-1, s')"
      using lt w k u(1) old g by (subst uvmcopy_loop.simps) (simp add: valid_def id)
    then show ?thesis using u(2) Nil v(1) by (intro exI [of _ s'] exI [of _ ps']) simp
  next
    case (Cons b qs)
    have xl: "length ?x = 4096" using pool_length [of s ps] vm by (simp add: vm_def)
    have copy: "mem_copy (pages s1 b) 0 (pages s1 (PTE2PA ?e)) 0 (unat PGSIZE) = Some ?x"
      if "pages s1 = (pages s)(b := replicate 4096 5)" for s1
    proof -
      have "PTE2PA ?e \<noteq> b" using Suc.prems(2) v(1) Cons by (auto simp: apart_def data_def)
      then show ?thesis using that xl by (simp add: mem_copy_def put_def PGSIZE_def)
    qed
    show ?thesis
    proof (rule alloc_map [OF Suc.prems(1) [unfolded Cons] v(2) nv flags_below [of ?e] _ xl])
      show "?f OR PTE_V \<noteq> PTE_V" using old by simp
    next
      fix s1 s3 ps3 assume a: "kalloc h s = Some (b, s1)" "pages s1 = (pages s)(b := replicate 4096 5)" "b \<noteq> 0"
        "mappages h pt (page i) PGSIZE b ?f (set_page b ?x s1) = Some (0, s3)"
        and ad: "added h s pt (b # qs) {..<i} {i} (\<lambda>_. ?f OR PTE_V) (\<lambda>_. ?x) s3 ps3" and len: "length (b # qs) \<le> length ps3 + 3"
      have step: "uvmcopy_loop h old_pt pt (page i) sz s = uvmcopy_loop h old_pt pt (page (Suc i)) sz s3"
        using lt w a g old copy [OF a(2)] by (subst uvmcopy_loop.simps) (simp add: page_Suc valid_def Let_def)
      have I: "insert i {..<i} = {..<Suc i}" by auto
      have sv: "space h s3 pt ps3 {..<Suc i}" using ad by (simp add: added_def I)
      note ap = apart_added [OF Suc.prems(2) [unfolded Cons] ad]
      have l: "n = pgs sz - Suc i" "Suc i \<le> pgs sz" using Suc.hyps(2) v(1) by simp_all
      have nx: "\<forall>w\<in>{Suc i..<pgs sz}. \<not> valid (pmap (pages s3) pt w)"
        using Suc.prems(4) ad pgs_le [OF assms(4)] by (auto simp: added_def)
      have R: "{i..<pgs sz} = insert i {Suc i..<pgs sz}" "{0..<Suc i} = {0..<Suc i}" using v(1) by auto
      from Suc.hyps(1) [OF l(1) sv ap(1) l(2) nx] consider
        s' ps' where "uvmcopy_loop h old_pt pt (page (Suc i)) sz s3 = Some (0, s')"
          "added h s3 pt ps3 {..<Suc i} {Suc i..<pgs sz} (\<lambda>w. PTE_FLAGS (pmap (pages s3) old_pt w))
            (\<lambda>w. pages s3 (PTE2PA (pmap (pages s3) old_pt w))) s' ps'"
        | s' ps' where "uvmcopy_loop h old_pt pt (page (Suc i)) sz s3 = Some (-1, s')"
          "undone h s3 pt ps3 {..<Suc i} {0..<Suc i} s' ps'" "length ps3 < 3 * (pgs sz - Suc i)" by blast
      then show ?thesis
      proof cases
        case (1 s' ps')
        let ?fl = "\<lambda>w. PTE_FLAGS (pmap (pages s) old_pt w)" and ?c = "\<lambda>w. pages s (PTE2PA (pmap (pages s) old_pt w))"
        have "added h s pt (b # qs) {..<i} {i} ?fl ?c s3 ps3" using ad old(3) by (simp add: added_def)
        moreover have "added h s3 pt ps3 (insert i {..<i}) {Suc i..<pgs sz} ?fl ?c s' ps'"
          using 1(2) ap(2,3) by (simp add: added_def I)
        ultimately have "added h s pt (b # qs) {..<i} (insert i {Suc i..<pgs sz}) ?fl ?c s' ps'"
          by (rule added_step) (use v(3) in auto)
        then show ?thesis using 1(1) step Cons R(1) by auto
      next
        case (2 s' ps')
        have "undone h s pt ps {..<i} {0..<i} s' ps'"
          unfolding Cons by (rule undone_step [OF ad 2(2) [folded I] _ v(3) nv]) simp
        moreover have "length ps < 3 * (pgs sz - i)" using 2(3) len Cons v(1) by simp
        ultimately show ?thesis using 2(1) step by auto
      qed
    next
      fix s1 s3 s4 assume a: "kalloc h s = Some (b, s1)" "pages s1 = (pages s)(b := replicate 4096 5)" "b \<noteq> 0"
        "mappages h pt (page i) PGSIZE b ?f (set_page b ?x s1) = Some (-1, s3)" "kfree h b s3 = Some s4"
        and u: "vm h s4 pt [b]" "tpages (pages s4) pt \<union> set [b] = tpages (pages s) pt \<union> set (b # qs)" "kernel_end s4 = kernel_end s"
        "\<And>w. w < 2 ^ 27 \<Longrightarrow> pmap (pages s4) pt w = pmap (pages s) pt w"
        "\<And>c. c \<notin> tpages (pages s) pt \<union> set (b # qs) \<Longrightarrow> pages s4 c = pages s c" and len: "length (b # qs) < 3"
      obtain s' ps' where d: "uvmunmap h pt 0 (of_nat i) True s4 = Some s'" "undone h s pt ps {..<i} {0..<i} s' ps'"
        using undo [OF u(1) u(2-5) [folded Cons]] by blast
      have "uvmcopy_loop h old_pt pt (page i) sz s = Some (-1, s')"
        using lt w a g old d(1) copy [OF a(2)] by (subst uvmcopy_loop.simps) (simp add: valid_def Let_def id)
      then show ?thesis using d(2) len Cons v(1) by (intro exI [of _ s'] exI [of _ ps'] disjI2) simp
    qed
  qed
qed

text \<open>
  C12. The memory of a fork. For a child whose pages are not mapped yet and whose table is apart from the parent, \<open>uvmcopy\<close>
  returns 0 and the child owns as many pages as the parent, with the same flags and the same contents, each a page of
  its own; or it runs out of memory, returns -1, and what was given to the child is given back. The memory of the parent
  is as before. With three free pages for each page of the parent it succeeds.
\<close>

theorem uvmcopy_correct:
  assumes "space h s pt ps {}" and "apart s old_pt {..<pgs sz} pt ps" and "unat sz \<le> 2 ^ 38"
    and "\<forall>w<pgs sz. \<not> valid (pmap (pages s) pt w)"
  shows "\<exists>s' ps'. uvmcopy h old_pt pt sz s = Some (0, s') \<and>
      added h s pt ps {} {..<pgs sz} (\<lambda>w. PTE_FLAGS (pmap (pages s) old_pt w))
        (\<lambda>w. pages s (PTE2PA (pmap (pages s) old_pt w))) s' ps' \<and>
      apart s' old_pt {..<pgs sz} pt ps' \<and> (\<forall>w. pmap (pages s') old_pt w = pmap (pages s) old_pt w) \<and>
      (\<forall>w<pgs sz. pages s' (PTE2PA (pmap (pages s) old_pt w)) = pages s (PTE2PA (pmap (pages s) old_pt w))) \<or>
    uvmcopy h old_pt pt sz s = Some (-1, s') \<and> undone h s pt ps {} {} s' ps' \<and> length ps < 3 * pgs sz"
proof -
  have z: "{..<0} = ({} :: nat set)" "{0..<0} = ({} :: nat set)" "{0..<pgs sz} = {..<pgs sz}" by auto
  have e: "space h s pt ps {..<0}" "\<forall>w\<in>{0..<pgs sz}. \<not> valid (pmap (pages s) pt w)" "page 0 = 0"
    using assms(1,4) by (simp_all add: z page_def)
  from uvmcopy_loop_run [OF e(1) assms(2) _ assms(3) e(2)] consider
    s' ps' where "uvmcopy h old_pt pt sz s = Some (0, s')" "added h s pt ps {} {..<pgs sz} (\<lambda>w. PTE_FLAGS (pmap (pages s) old_pt w))
        (\<lambda>w. pages s (PTE2PA (pmap (pages s) old_pt w))) s' ps'"
    | s' ps' where "uvmcopy h old_pt pt sz s = Some (-1, s')" "undone h s pt ps {} {} s' ps'" "length ps < 3 * pgs sz"
    unfolding uvmcopy_def e(3) z by auto
  then show ?thesis
  proof cases
    case (1 s' ps')
    then show ?thesis using apart_added [OF assms(2) 1(2)] by (intro exI [of _ s'] exI [of _ ps'] disjI1) simp
  qed blast
qed

section \<open>Giving a table back\<close>

text \<open>The pages of a tree with \<open>l\<close> levels below its root, and trees in which no page occurs twice and nothing is mapped.\<close>

fun below :: "mem \<Rightarrow> nat \<Rightarrow> u64 \<Rightarrow> u64 set" where
  "below m 0 a = {a}"
| "below m (Suc l) a = insert a (\<Union>i<512. case child m a i of None \<Rightarrow> {} | Some b \<Rightarrow> below m l b)"

fun tree_ok :: "mem \<Rightarrow> nat \<Rightarrow> u64 \<Rightarrow> bool" where
  "tree_ok m 0 a \<longleftrightarrow> (\<forall>i<512. \<not> valid (pte_of m a i))"
| "tree_ok m (Suc l) a \<longleftrightarrow> (\<forall>i<512. valid (pte_of m a i) \<longrightarrow> PTE_FLAGS (pte_of m a i) = PTE_V) \<and>
     (\<forall>i<512. \<forall>b. child m a i = Some b \<longrightarrow> tree_ok m l b \<and> a \<notin> below m l b \<and>
        (\<forall>j<512. \<forall>c. j \<noteq> i \<longrightarrow> child m a j = Some c \<longrightarrow> below m l b \<inter> below m l c = {}))"

lemma below_root [simp]: "a \<in> below m l a"
  by (cases l) auto

lemma below_node: "below m l a = {b. \<exists>is. set is \<subseteq> {..<512} \<and> length is \<le> l \<and> node m a is = Some b}"
proof (induction l arbitrary: a)
  case 0
  show ?case by auto
next
  case (Suc l)
  have "b \<in> below m (Suc l) a \<longleftrightarrow> (\<exists>is. set is \<subseteq> {..<512} \<and> length is \<le> Suc l \<and> node m a is = Some b)" for b
  proof
    assume "b \<in> below m (Suc l) a"
    then consider "b = a" | i c where "i < 512" "child m a i = Some c" "b \<in> below m l c" by (auto split: option.splits)
    then show "\<exists>is. set is \<subseteq> {..<512} \<and> length is \<le> Suc l \<and> node m a is = Some b"
    proof cases
      case 1
      then show ?thesis by (intro exI [of _ "[]"]) simp
    next
      case 2
      then obtain "is" where "set is \<subseteq> {..<512}" "length is \<le> l" "node m c is = Some b" using Suc.IH by auto
      then show ?thesis using 2 by (intro exI [of _ "i # is"]) (simp add: node_Cons)
    qed
  next
    assume "\<exists>is. set is \<subseteq> {..<512} \<and> length is \<le> Suc l \<and> node m a is = Some b"
    then obtain "is" where i: "set is \<subseteq> {..<512}" "length is \<le> Suc l" "node m a is = Some b" by blast
    show "b \<in> below m (Suc l) a"
    proof (cases "is")
      case (Cons j js)
      then obtain c where "child m a j = Some c" "node m c js = Some b" using i(3) by (auto simp: node_Cons bind_eq_Some_conv)
      moreover from this(2) have "b \<in> below m l c" unfolding Suc.IH using i Cons by auto
      ultimately show ?thesis using i Cons by (auto intro!: bexI [of _ j])
    qed (use i in simp)
  qed
  then show ?case by blast
qed

lemma tree_okI:
  assumes "\<And>is js b. set is \<subseteq> {..<512} \<Longrightarrow> set js \<subseteq> {..<512} \<Longrightarrow> length is \<le> l \<Longrightarrow> length js \<le> l \<Longrightarrow>
      node m a is = Some b \<Longrightarrow> node m a js = Some b \<Longrightarrow> is = js"
    and "\<And>is i b. set is \<subseteq> {..<512} \<Longrightarrow> length is < l \<Longrightarrow> i < 512 \<Longrightarrow> node m a is = Some b \<Longrightarrow> valid (pte_of m b i) \<Longrightarrow>
      PTE_FLAGS (pte_of m b i) = PTE_V"
    and "\<And>is i b. set is \<subseteq> {..<512} \<Longrightarrow> length is = l \<Longrightarrow> i < 512 \<Longrightarrow> node m a is = Some b \<Longrightarrow> \<not> valid (pte_of m b i)"
  shows "tree_ok m l a"
  using assms
proof (induction l arbitrary: a)
  case 0
  show ?case using 0(3) [of "[]"] by simp
next
  case (Suc l)
  have step: "node m a (i # is) = node m b is" if "child m a i = Some b" for i b "is" using that by (simp add: node_Cons)
  have "tree_ok m l b" if "i < 512" "child m a i = Some b" for i b
  proof (rule Suc.IH)
    fix "is" js :: "nat list" and c assume "set is \<subseteq> {..<512}" "set js \<subseteq> {..<512}" "length is \<le> l" "length js \<le> l" "node m b is = Some c" "node m b js = Some c"
    then show "is = js" using Suc.prems(1) [of "i # is" "i # js" c] that step by simp
  next
    fix "is" :: "nat list" and j :: nat and c assume "set is \<subseteq> {..<512}" "length is < l" "j < 512" "node m b is = Some c" "valid (pte_of m c j)"
    then show "PTE_FLAGS (pte_of m c j) = PTE_V" using Suc.prems(2) [of "i # is" j c] that step by simp
  next
    fix "is" :: "nat list" and j :: nat and c assume "set is \<subseteq> {..<512}" "length is = l" "j < 512" "node m b is = Some c"
    then show "\<not> valid (pte_of m c j)" using Suc.prems(3) [of "i # is" j c] that step by simp
  qed
  moreover have "a \<notin> below m l b" if "i < 512" "child m a i = Some b" for i b
  proof
    assume "a \<in> below m l b"
    then obtain "is" where "set is \<subseteq> {..<512}" "length is \<le> l" "node m b is = Some a" by (auto simp: below_node)
    then show False using Suc.prems(1) [of "i # is" "[]" a] that step by simp
  qed
  moreover have "below m l b \<inter> below m l c = {}" if "i < 512" "child m a i = Some b" "j < 512" "child m a j = Some c" "j \<noteq> i" for i b j c
  proof (rule equals0I)
    fix d assume "d \<in> below m l b \<inter> below m l c"
    then obtain "is" js where "set is \<subseteq> {..<512}" "length is \<le> l" "node m b is = Some d"
      "set js \<subseteq> {..<512}" "length js \<le> l" "node m c js = Some d" by (auto simp: below_node)
    then show False using Suc.prems(1) [of "i # is" "j # js" d] that step by simp
  qed
  moreover have "PTE_FLAGS (pte_of m a i) = PTE_V" if "i < 512" "valid (pte_of m a i)" for i
    using Suc.prems(2) [of "[]" i a] that by simp
  ultimately show ?case by auto
qed

lemma below_cong:
  "(\<And>c. c \<in> below m l a \<Longrightarrow> m' c = m c) \<Longrightarrow> below m' l a = below m l a \<and> tree_ok m' l a = tree_ok m l a"
proof (induction l arbitrary: a)
  case 0
  then show ?case by (simp add: pte_of_def)
next
  case (Suc l)
  have e: "pte_of m' a i = pte_of m a i" "child m' a i = child m a i" for i
    using Suc.prems [of a] by (simp_all add: pte_of_def child_def)
  have IH: "below m' l b = below m l b \<and> tree_ok m' l b = tree_ok m l b" if "i < 512" "child m a i = Some b" for i b
    by (rule Suc.IH, rule Suc.prems) (use that in \<open>auto intro!: bexI [of _ i]\<close>)
  have "below m' (Suc l) a = below m (Suc l) a" using IH e by (auto split: option.splits)
  moreover have "tree_ok m' (Suc l) a = tree_ok m (Suc l) a" unfolding tree_ok.simps e using IH by (smt (verit, best))
  ultimately show ?case by simp
qed

definition kids :: "mem \<Rightarrow> nat \<Rightarrow> u64 \<Rightarrow> nat \<Rightarrow> u64 set" where
  "kids m l a i = (\<Union>j\<in>{i..<512}. case child m a j of None \<Rightarrow> {} | Some b \<Rightarrow> below m l b)"

lemma kids_step: "i < 512 \<Longrightarrow> kids m l a i = (case child m a i of None \<Rightarrow> {} | Some b \<Rightarrow> below m l b) \<union> kids m l a (Suc i)"
proof -
  assume "i < 512"
  then have "{i..<512} = insert i {Suc i..<512}" by auto
  then show ?thesis by (simp add: kids_def)
qed

lemma kids_end [simp]: "kids m l a 512 = {}"
  by (simp add: kids_def)

lemma below_kids: "below m (Suc l) a = insert a (kids m l a 0)"
  by (simp add: kids_def atLeast0LessThan)

lemma kidsE: "c \<in> kids m l a i \<Longrightarrow> \<exists>j b. i \<le> j \<and> j < 512 \<and> child m a j = Some b \<and> c \<in> below m l b"
  by (auto simp: kids_def split: option.splits)

lemma tree_child:
  assumes "tree_ok m (Suc l) a" "i < 512" "child m a i = Some b"
  shows "tree_ok m l b" "a \<notin> below m l b" "PTE_FLAGS (pte_of m a i) = PTE_V"
    "j < 512 \<Longrightarrow> child m a j = Some c \<Longrightarrow> j \<noteq> i \<Longrightarrow> below m l b \<inter> below m l c = {}"
proof -
  have "valid (pte_of m a i)" using assms(3) by (simp add: child_def split: if_splits)
  then show "PTE_FLAGS (pte_of m a i) = PTE_V" using assms(1,2) unfolding tree_ok.simps by blast
qed (use assms in \<open>unfold tree_ok.simps, blast+\<close>)

text \<open>What \<open>freewalk\<close> gives back, and that it changes nothing else.\<close>

definition returned :: "nat \<Rightarrow> 'a kheap_scheme \<Rightarrow> u64 list \<Rightarrow> u64 set \<Rightarrow> 'a kheap_scheme \<Rightarrow> bool" where
  "returned h t qs B s' \<longleftrightarrow> (\<exists>qs'. pool s' qs' \<and> set qs' = set qs \<union> B) \<and> hart_ok h s' \<and> kernel_end s' = kernel_end t \<and>
     (\<forall>b. b \<notin> B \<longrightarrow> pages s' b = pages t b)"

lemma kfree_returned:
  assumes "pool t qs" "hart_ok h t" "page_ok t a" "a \<notin> set qs"
  shows "\<exists>s'. kfree h a t = Some s' \<and> returned h t qs {a} s'"
proof -
  obtain s1 where s1: "kfree h a t = Some s1" "pool s1 (a # qs)"
    "s1 = (settle h t)\<lparr>pages := (pages t)(a := pages s1 a), freelist := a\<rparr>"
    using kfree_some [OF assms] by blast
  have "kernel_end s1 = kernel_end t" "hart_ok h s1" by (subst s1(3); use assms(2) in \<open>simp add: hart_ok_def\<close>)+
  moreover have "pages s1 b = pages t b" if "b \<noteq> a" for b by (subst s1(3)) (use that in simp)
  ultimately show ?thesis using s1(1,2) unfolding returned_def by (intro exI [of _ s1]) auto
qed

lemma freewalk_no_entries:
  "i \<le> 512 \<Longrightarrow> \<forall>j\<in>{i..<512}. \<not> valid (pte_of (pages t) a j) \<Longrightarrow> freewalk h i a t = kfree h a t"
proof (induction "512 - i" arbitrary: i)
  case 0
  then show ?case by (subst freewalk.simps) simp
next
  case (Suc n)
  then have "\<not> valid (pte_of (pages t) a i)" "i < 512" by auto
  then show ?case using Suc.hyps(1) [of "i + 1"] Suc.hyps(2) Suc.prems
    by (subst freewalk.simps) (simp add: get_pte_of valid_def Let_def)
qed

lemma interior_flags: "PTE_FLAGS e = PTE_V \<Longrightarrow> e AND (PTE_R OR PTE_W OR PTE_X) = 0"
  using and_flags [of "PTE_R OR PTE_W OR PTE_X" e] by (simp add: PTE_R_def PTE_W_def PTE_X_def PTE_V_def)

text \<open>The loop over the entries from \<open>i\<close> on, when a call for the level below does what it should.\<close>

lemma freewalk_entries:
  fixes t :: "'a kheap_scheme"
  assumes IH: "\<And>b (t :: 'a kheap_scheme) qs. tree_ok m l b \<Longrightarrow> \<forall>c\<in>below m l b. page_ok t c \<and> pages t c = m c \<Longrightarrow> pool t qs \<Longrightarrow> hart_ok h t \<Longrightarrow>
      below m l b \<inter> set qs = {} \<Longrightarrow> \<exists>s'. freewalk h 0 b t = Some s' \<and> returned h t qs (below m l b) s'"
    and tree: "tree_ok m (Suc l) a"
  shows "i \<le> 512 \<Longrightarrow> pool t qs \<Longrightarrow> hart_ok h t \<Longrightarrow> page_ok t a \<Longrightarrow> a \<notin> set qs \<Longrightarrow> kids m l a i \<inter> set qs = {} \<Longrightarrow>
    \<forall>c\<in>kids m l a i. page_ok t c \<and> pages t c = m c \<Longrightarrow> \<forall>j\<in>{i..<512}. pte_of (pages t) a j = pte_of m a j \<Longrightarrow>
    \<exists>s'. freewalk h i a t = Some s' \<and> returned h t qs (insert a (kids m l a i)) s'"
proof (induction "512 - i" arbitrary: i t qs)
  case 0
  then have "i = 512" by simp
  then show ?case using kfree_returned [OF 0(3-6)] by (subst freewalk.simps) simp
next
  case (Suc n)
  have i: "i < 512" "n = 512 - Suc i" "Suc i \<le> 512" using Suc.hyps(2) by simp_all
  have pe: "pte_of (pages t) a i = pte_of m a i" using Suc.prems(8) i(1) by simp
  have next_j: "\<forall>j\<in>{Suc i..<512}. pte_of (pages t) a j = pte_of m a j" using Suc.prems(8) by auto
  show ?case
  proof (cases "valid (pte_of m a i)")
    case False
    then have k: "kids m l a i = kids m l a (Suc i)" using kids_step [OF i(1), of m l a] by (simp add: child_def)
    have "freewalk h i a t = freewalk h (i + 1) a t"
      using False pe i(1) by (subst freewalk.simps) (simp add: get_pte_of valid_def Let_def)
    then show ?thesis
      using Suc.hyps(1) [OF i(2,3) Suc.prems(2-5) Suc.prems(6,7) [unfolded k] next_j] unfolding k by simp
  next
    case True
    define b where "b = PTE2PA (pte_of m a i)"
    have ch: "child m a i = Some b" using True by (simp add: child_def b_def)
    have k: "kids m l a i = below m l b \<union> kids m l a (Suc i)" using kids_step [OF i(1), of m l a] ch by simp
    note tr = tree_child [OF tree i(1) ch]
    have dj: "below m l b \<inter> kids m l a (Suc i) = {}"
    proof (rule equals0I)
      fix c assume c: "c \<in> below m l b \<inter> kids m l a (Suc i)"
      then obtain j d where "Suc i \<le> j" "j < 512" "child m a j = Some d" "c \<in> below m l d"
        using kidsE [of c m l a "Suc i"] by blast
      then show False using tr(4) [of j d] c by auto
    qed
    have db: "below m l b \<inter> set qs = {}" using Suc.prems(6) k by auto
    have pb: "\<forall>c\<in>below m l b. page_ok t c \<and> pages t c = m c" using Suc.prems(7) k by simp
    obtain s1 where s1: "freewalk h 0 b t = Some s1" "returned h t qs (below m l b) s1"
      using IH [OF tr(1) pb Suc.prems(2,3) db] by blast
    then obtain q1 where q1: "pool s1 q1" "set q1 = set qs \<union> below m l b" by (auto simp: returned_def)
    have o1: "pages s1 c = pages t c" if "c \<notin> below m l b" for c using s1(2) that by (simp add: returned_def)
    have h1: "hart_ok h s1" "kernel_end s1 = kernel_end t" using s1(2) by (simp_all add: returned_def)
    define s2 where "s2 = set_pte (a, i) 0 s1"
    have p2: "pages s2 = (pages s1)(a := put (pages s1 a) (8 * i) (le64_bytes 0))" by (simp add: s2_def set_pte_pages)
    have a1: "a \<notin> set q1" using q1(2) Suc.prems(5) tr(2) by simp
    have len: "length (pages s1 a) = 4096" using pool_length [OF q1(1)] .
    have k2: "kernel_end s2 = kernel_end t" "hart_ok h s2" using h1 by (simp_all add: s2_def set_pte_def set_page_def hart_ok_def)
    have pool2: "pool s2 q1"
      unfolding s2_def set_pte_def using pool_set_page [OF q1(1) a1] len i(1) by simp
    have step: "freewalk h i a t = freewalk h (Suc i) a s2"
      using True pe i(1) s1(1) interior_flags [OF tr(3)]
      by (subst freewalk.simps) (simp add: get_pte_of valid_def Let_def b_def s2_def)
    have e2: "\<forall>j\<in>{Suc i..<512}. pte_of (pages s2) a j = pte_of m a j"
    proof
      fix j assume j: "j \<in> {Suc i..<512}"
      then have "pte_of (pages s2) a j = pte_of (pages s1) a j"
        unfolding p2 using pte_of_upd [of "pages s1" a i j 0 a] len i(1) by simp
      then show "pte_of (pages s2) a j = pte_of m a j" using o1 [OF tr(2)] next_j j by (simp add: pte_of_def)
    qed
    have ak: "a \<notin> kids m l a (Suc i)" using kidsE [of a m l a "Suc i"] tree_child(2) [OF tree] by blast
    have c2: "\<forall>c\<in>kids m l a (Suc i). page_ok s2 c \<and> pages s2 c = m c"
    proof
      fix c assume c: "c \<in> kids m l a (Suc i)"
      then have "c \<notin> below m l b" "c \<noteq> a" using dj ak by auto
      then show "page_ok s2 c \<and> pages s2 c = m c"
        using Suc.prems(7) c k o1 [of c] page_ok_cong [OF k2(1)] by (simp add: p2)
    qed
    have d2: "kids m l a (Suc i) \<inter> set q1 = {}" using q1(2) dj Suc.prems(6) k by auto
    have pa: "page_ok s2 a" using Suc.prems(4) page_ok_cong [OF k2(1)] by simp
    obtain s' where s': "freewalk h (Suc i) a s2 = Some s'" "returned h s2 q1 (insert a (kids m l a (Suc i))) s'"
      using Suc.hyps(1) [OF i(2,3) pool2 k2(2) pa a1 d2 c2 e2] by blast
    have "returned h t qs (insert a (kids m l a i)) s'"
      unfolding returned_def k
    proof (intro conjI allI impI)
      show "\<exists>qs'. pool s' qs' \<and> set qs' = set qs \<union> insert a (below m l b \<union> kids m l a (Suc i))"
        using s'(2) q1(2) unfolding returned_def by auto
      fix c assume "c \<notin> insert a (below m l b \<union> kids m l a (Suc i))"
      then show "pages s' c = pages t c" using s'(2) o1 [of c] by (simp add: returned_def p2)
    qed (use s'(2) k2(1) in \<open>simp_all add: returned_def\<close>)
    then show ?thesis using s'(1) step by simp
  qed
qed

lemma freewalk_run:
  "tree_ok m l a \<Longrightarrow> \<forall>c\<in>below m l a. page_ok t c \<and> pages t c = m c \<Longrightarrow> pool t qs \<Longrightarrow> hart_ok h t \<Longrightarrow>
   below m l a \<inter> set qs = {} \<Longrightarrow> \<exists>s'. freewalk h 0 a t = Some s' \<and> returned h t qs (below m l a) s'"
proof (induction l arbitrary: a t qs)
  case 0
  then have "\<forall>j\<in>{0..<512}. \<not> valid (pte_of (pages t) a j)" by (simp add: pte_of_def)
  then show ?case using freewalk_no_entries [of 0 t a h] kfree_returned [of t qs h a] 0 by simp
next
  case (Suc l)
  have "kids m l a 0 \<inter> set qs = {}" "\<forall>c\<in>kids m l a 0. page_ok t c \<and> pages t c = m c" "a \<notin> set qs" "page_ok t a"
    "\<forall>j\<in>{0..<512}. pte_of (pages t) a j = pte_of m a j"
    using Suc.prems(2,5) [unfolded below_kids] by (auto simp: pte_of_def)
  then show ?case
    using freewalk_entries [OF Suc.IH Suc.prems(1), of 0 t qs] Suc.prems(3,4) unfolding below_kids by blast
qed

lemma tpages_below: "tpages m pt = below m 2 pt"
  by (auto simp: tpages_def below_node idx_def)

lemma table_tree:
  assumes "table_ok m pt" "\<And>v. v < 2 ^ 27 \<Longrightarrow> \<not> valid (pmap m pt v)"
  shows "tree_ok m 2 pt"
proof (rule tree_okI)
  fix "is" :: "nat list" and i :: nat and b assume a: "set is \<subseteq> {..<512}" "length is = 2" "i < 512" "node m pt is = Some b"
  then obtain x y where xy: "is = [x, y]" by (auto simp: numeral_2_eq_2 length_Suc_conv)
  define k where "k = y + 512 * x"
  define v where "v = i + 512 * k"
  have k: "k div 512 = x" "k mod 512 = y" "k < 2 ^ 18" using a(1) xy by (simp_all add: k_def)
  have v: "v div 512 = k" "v mod 512 = i" "v < 2 ^ 27" using a(3) k(3) by (simp_all add: v_def)
  have "v div 262144 = v div 512 div 512" by (simp add: div_mult2_eq [symmetric])
  then have "path v = is" using k v a(1) xy by (simp add: path_def)
  then show "\<not> valid (pte_of m b i)" using assms(2) [OF v(3)] a(4) v(2) by (simp add: pmap_def)
qed (use table_inj [OF assms(1)] table_flags [OF assms(1)] in \<open>auto simp: idx_def\<close>)

text \<open>
  C14. Nothing leaks. When a process whose only mappings are its first pages, all of its own, ends, \<open>uvmfree\<close> returns, and
  the allocator has got back the pages of the process and all pages of its table, and nothing else has changed.
\<close>

theorem uvmfree_correct:
  assumes "space h s pt ps {..<pgs sz}" and "unat sz \<le> 2 ^ 38"
    and "\<forall>w<2 ^ 27. pgs sz \<le> w \<longrightarrow> \<not> valid (pmap (pages s) pt w)"
  shows "\<exists>s'. uvmfree h pt sz s = Some s' \<and> returned h s ps (data (pages s) pt {..<pgs sz} \<union> tpages (pages s) pt) s'"
proof -
  have b: "pgs sz \<le> 2 ^ 26" by (rule pgs_le [OF assms(2)])
  obtain s1 ps1 where s1: "(if sz > 0 then uvmunmap h pt 0 (PGROUNDUP sz div PGSIZE) True s else Some s) = Some s1"
    "unmapped h s pt ps {..<pgs sz} {..<pgs sz} s1 ps1"
  proof (cases "sz > 0")
    case True
    have "{0..<0 + pgs sz} \<subseteq> {..<pgs sz}" by auto
    from uvmunmap_run [OF assms(1) this] obtain s1 ps1 where
      "uvmunmap h pt (page 0) (of_nat (pgs sz)) True s = Some s1" "unmapped h s pt ps {..<pgs sz} {..<pgs sz} s1 ps1"
      by (auto simp: atLeast0LessThan)
    moreover have "PGROUNDUP sz div PGSIZE = of_nat (pgs sz)" using PGROUNDUP_page [OF assms(2)] page_div b by simp
    ultimately show ?thesis using that True by (simp add: page_def)
  next
    case False
    then have "pgs sz = 0" by (simp add: pgs_def word_gt_0)
    then show ?thesis using that [of s ps] False assms(1) by (simp add: unmapped_def data_def)
  qed
  have u: "vm h s1 pt ps1" "set ps1 = set ps \<union> data (pages s) pt {..<pgs sz}" "tpages (pages s1) pt = tpages (pages s) pt"
    "kernel_end s1 = kernel_end s" "\<And>w. w < 2 ^ 27 \<Longrightarrow> \<not> valid (pmap (pages s1) pt w)"
    "\<And>c. c \<notin> data (pages s) pt {..<pgs sz} \<union> tpages (pages s) pt \<Longrightarrow> pages s1 c = pages s c"
    using s1(2) assms(3) by (auto simp: unmapped_def space_def)
  have v: "pool s1 ps1" "hart_ok h s1" "table_ok (pages s1) pt" "tpages (pages s1) pt \<inter> set ps1 = {}"
    "\<forall>a\<in>tpages (pages s1) pt. page_ok s1 a" using u(1) by (simp_all add: vm_def)
  have t: "tree_ok (pages s1) 2 pt" by (rule table_tree [OF v(3) u(5)])
  obtain s' where s': "freewalk h 0 pt s1 = Some s'" "returned h s1 ps1 (tpages (pages s) pt) s'"
    using freewalk_run [OF t _ v(1,2)] v(4,5) u(3) unfolding tpages_below [symmetric] by auto
  have "returned h s ps (data (pages s) pt {..<pgs sz} \<union> tpages (pages s) pt) s'"
    using s'(2) u(2,4,6) unfolding returned_def by auto
  then show ?thesis using s1(1) s'(1) by (simp add: uvmfree_def)
qed

section \<open>What a user sees\<close>

text \<open>The byte at a virtual address, where the user may access it.\<close>

definition user_page :: "mem \<Rightarrow> u64 \<Rightarrow> nat \<Rightarrow> bool" where
  "user_page m pt v \<longleftrightarrow> v < 2 ^ 26 \<and> valid (pmap m pt v) \<and> pmap m pt v AND PTE_U \<noteq> 0 \<and> PTE2PA (pmap m pt v) \<noteq> 0"

definition umem :: "mem \<Rightarrow> u64 \<Rightarrow> nat \<Rightarrow> u8 option" where
  "umem m pt a = (if user_page m pt (a div 4096) then Some (m (PTE2PA (pmap m pt (a div 4096))) ! (a mod 4096)) else None)"

definition user_ok :: "mem \<Rightarrow> u64 \<Rightarrow> bool" where
  "user_ok m pt \<longleftrightarrow> (\<forall>v. user_page m pt v \<longrightarrow> PTE2PA (pmap m pt v) \<notin> tpages m pt) \<and>
     inj_on (\<lambda>v. PTE2PA (pmap m pt v)) {v. user_page m pt v} \<and> (\<forall>p. length (m p) = 4096)"

lemma space_user_ok:
  assumes "space h s pt ps N" "\<And>v. user_page (pages s) pt v \<Longrightarrow> v \<in> N"
  shows "user_ok (pages s) pt"
proof -
  have "inj_on (\<lambda>v. PTE2PA (pmap (pages s) pt v)) {v. user_page (pages s) pt v}"
    by (rule inj_on_subset [of _ N]) (use assms in \<open>auto simp: space_def\<close>)
  moreover have "length (pages s p) = 4096" for p using assms(1) pool_length [of s ps] by (simp add: space_def vm_def)
  ultimately show ?thesis using assms by (auto simp: user_ok_def space_def)
qed

lemma walkaddr_run:
  "walkaddr h pt va s = Some (if user_page (pages s) pt (vpn va) then PTE2PA (pmap (pages s) pt (vpn va)) else 0, s)"
proof (cases "va < MAXVA")
  case True
  show ?thesis
  proof (cases "node (pages s) pt (path (vpn va))")
    case None
    then show ?thesis using True walk_find [OF True, of h pt s]
      by (simp add: walkaddr_def user_page_def pmap_def not_le [symmetric])
  next
    case (Some a)
    then show ?thesis using True True [unfolded vpn_MAXVA] walk_find [OF True, of h pt s] pmap_node [OF Some]
      by (auto simp: walkaddr_def user_page_def get_pte_of valid_def)
  qed
next
  case False
  then show ?thesis using False [unfolded vpn_MAXVA] by (simp add: walkaddr_def user_page_def not_less)
qed

text \<open>Writing a piece of one user page.\<close>

lemma user_write:
  fixes s :: "'a kheap_scheme"
  assumes ok: "user_ok (pages s) pt" and u: "user_page (pages s) pt v" and n: "off + length xs \<le> 4096"
  defines "s' \<equiv> set_page (PTE2PA (pmap (pages s) pt v)) (put (pages s (PTE2PA (pmap (pages s) pt v))) off xs) s"
  shows "tpages (pages s') pt = tpages (pages s) pt" "pmap (pages s') pt w = pmap (pages s) pt w"
    "user_page (pages s') pt w = user_page (pages s) pt w" "user_ok (pages s') pt"
    "umem (pages s') pt a = (if 4096 * v + off \<le> a \<and> a < 4096 * v + off + length xs then Some (xs ! (a - (4096 * v + off)))
       else umem (pages s) pt a)"
proof -
  let ?d = "PTE2PA (pmap (pages s) pt v)"
  have d: "?d \<notin> tpages (pages s) pt" "length (pages s ?d) = 4096" using ok u by (simp_all add: user_ok_def)
  have p: "pages s' b = (if b = ?d then put (pages s ?d) off xs else pages s b)" for b by (simp add: s'_def set_page_def)
  have e: "pte_of (pages s') b i = pte_of (pages s) b i" if "b \<in> tpages (pages s) pt" for b i
    using that d(1) p [of b] by (auto simp: pte_of_def)
  note c = table_cong [of "pages s" pt "pages s'", OF e]
  show t: "tpages (pages s') pt = tpages (pages s) pt" and pm: "pmap (pages s') pt w = pmap (pages s) pt w" for w
    by (rule c; assumption)+
  show up: "user_page (pages s') pt w = user_page (pages s) pt w" for w by (simp add: user_page_def pm)
  show "user_ok (pages s') pt"
    using ok d(2) n by (simp add: user_ok_def up pm t p)
  show "umem (pages s') pt a = (if 4096 * v + off \<le> a \<and> a < 4096 * v + off + length xs then Some (xs ! (a - (4096 * v + off)))
       else umem (pages s) pt a)"
  proof (cases "a div 4096 = v")
    case True
    then have a: "a = 4096 * v + a mod 4096" by (metis mult_div_mod_eq)
    then have "umem (pages s') pt a = Some (put (pages s ?d) off xs ! (a mod 4096))"
      using True u by (simp add: umem_def up pm p)
    moreover have "umem (pages s) pt a = Some (pages s ?d ! (a mod 4096))" using True u by (simp add: umem_def)
    moreover have "4096 * v + off \<le> a \<longleftrightarrow> off \<le> a mod 4096" "a < 4096 * v + off + length xs \<longleftrightarrow> a mod 4096 < off + length xs"
      "a - (4096 * v + off) = a mod 4096 - off" using a by linarith+
    ultimately show ?thesis using nth_put [of off xs "pages s ?d" "a mod 4096"] n d(2) by simp
  next
    case False
    have "\<not> (4096 * v + off \<le> a \<and> a < 4096 * v + off + length xs)"
    proof
      assume "4096 * v + off \<le> a \<and> a < 4096 * v + off + length xs"
      then have "4096 * v \<le> a" "a < 4096 * v + 4096" using n by linarith+
      then have "a div 4096 = v" by (intro div_nat_eqI) simp_all
      then show False using False by simp
    qed
    moreover have "PTE2PA (pmap (pages s) pt (a div 4096)) \<noteq> ?d" if "user_page (pages s) pt (a div 4096)"
      using ok u that False by (auto simp: user_ok_def inj_on_def)
    ultimately show ?thesis by (auto simp: umem_def up pm p)
  qed
qed

lemma chunk:
  "unat (a - PGROUNDDOWN a) = unat a mod 4096" "unat (PGSIZE - (a - PGROUNDDOWN a)) = 4096 - unat a mod 4096"
  "vpn (PGROUNDDOWN a) = vpn a" "a < MAXVA \<Longrightarrow> unat (PGROUNDDOWN a + PGSIZE) = 4096 * (vpn a + 1)"
proof -
  have "PGROUNDDOWN a \<le> a" unfolding word_le_nat_alt PGROUNDDOWN_nat by simp
  then show u: "unat (a - PGROUNDDOWN a) = unat a mod 4096"
    by (simp add: unat_sub PGROUNDDOWN_nat minus_mult_div_eq_mod)
  then have "a - PGROUNDDOWN a \<le> 4096" by (simp add: word_le_nat_alt)
  then show "unat (PGSIZE - (a - PGROUNDDOWN a)) = 4096 - unat a mod 4096" by (simp add: PGSIZE_def unat_sub u)
  show "vpn (PGROUNDDOWN a) = vpn a" by (simp add: vpn_def PGROUNDDOWN_nat)
  assume "a < MAXVA"
  then have v: "vpn a < 2 ^ 26" by (simp only: vpn_MAXVA)
  then have "unat (page (Suc (vpn a))) = 4096 * Suc (vpn a)" by (intro page_nat) simp
  then show "unat (PGROUNDDOWN a + PGSIZE) = 4096 * (vpn a + 1)" unfolding PGROUNDDOWN_page page_Suc by simp
qed

lemma chunk_next:
  assumes "a < MAXVA" "min (4096 - unat a mod 4096) len < len"
  shows "unat (PGROUNDDOWN a + PGSIZE) = unat a + min (4096 - unat a mod 4096) len"
proof -
  have "min (4096 - unat a mod 4096) len = 4096 - unat a mod 4096" using assms(2) by linarith
  moreover have "4096 * (vpn a + 1) = unat a + (4096 - unat a mod 4096)"
  proof -
    have "4096 * (q + 1) = u + (4096 - r)" if "4096 * q + r = u" "r < 4096" for q r u :: nat using that by simp
    from this [of "unat a div 4096" "unat a mod 4096" "unat a"] show ?thesis unfolding vpn_def by simp
  qed
  ultimately show ?thesis using chunk(4) [OF assms(1)] by (simp only:)
qed

text \<open>The first \<open>k\<close> of \<open>len\<close> addresses are a user's: all, or those before the first page that is not.\<close>

definition user_range :: "mem \<Rightarrow> u64 \<Rightarrow> nat \<Rightarrow> nat \<Rightarrow> nat \<Rightarrow> bool" where
  "user_range m pt d len k \<longleftrightarrow> k \<le> len \<and> (\<forall>a. d \<le> a \<and> a < d + k \<longrightarrow> user_page m pt (a div 4096)) \<and>
     (k < len \<longrightarrow> \<not> user_page m pt ((d + k) div 4096))"

lemma user_range_0: "user_range m pt d 0 0" "\<not> user_page m pt (d div 4096) \<Longrightarrow> user_range m pt d len 0"
  by (auto simp: user_range_def)

lemma user_range_chunk:
  assumes "user_page m pt (d div 4096)" "n = min (4096 - d mod 4096) len" "user_range m pt d' (len - n) k"
    "n < len \<Longrightarrow> d' = d + n"
  shows "user_range m pt d len (n + k)"
proof -
  have in_page: "user_page m pt (a div 4096)" if "d \<le> a" "a < d + n" for a
  proof -
    have "d = 4096 * (d div 4096) + d mod 4096" by simp
    then have "4096 * (d div 4096) \<le> a" "a < 4096 * (d div 4096) + 4096" using that assms(2) by linarith+
    then have "a div 4096 = d div 4096" by (intro div_nat_eqI) simp_all
    then show ?thesis using assms(1) by simp
  qed
  show ?thesis
  proof (cases "n < len")
    case True
    have e: "user_page m pt (a div 4096)" if "d \<le> a" "a < d + (n + k)" for a
      using in_page [of a] that assms(3) assms(4) [OF True] by (cases "a < d + n") (simp_all add: user_range_def)
    then show ?thesis using assms(3) assms(4) [OF True] True by (auto simp: user_range_def add.assoc)
  next
    case False
    then show ?thesis using assms(2,3) in_page by (auto simp: user_range_def)
  qed
qed

lemma copyout_run:
  fixes s :: "'a kheap_scheme"
  shows "user_ok (pages s) pt \<Longrightarrow> p + len \<le> length src \<Longrightarrow>
   \<exists>k s'. copyout h pt dstva src p len s = Some (if k = len then 0 else -1, s') \<and> user_range (pages s) pt (unat dstva) len k \<and>
     s' = s\<lparr>pages := pages s'\<rparr> \<and> user_ok (pages s') pt \<and> (\<forall>v. pmap (pages s') pt v = pmap (pages s) pt v) \<and>
     (\<forall>a. umem (pages s') pt a = (if unat dstva \<le> a \<and> a < unat dstva + k then Some (src ! (p + (a - unat dstva))) else umem (pages s) pt a))"
proof (induction len arbitrary: dstva p s rule: less_induct)
  case (less len)
  let ?d = "unat dstva" and ?v = "vpn dstva"
  let ?n = "min (4096 - ?d mod 4096) len"
  have dv: "?d div 4096 = ?v" by (simp add: vpn_def)
  have w: "walkaddr h pt (PGROUNDDOWN dstva) s = Some (if user_page (pages s) pt ?v then PTE2PA (pmap (pages s) pt ?v) else 0, s)"
    using walkaddr_run [of h pt "PGROUNDDOWN dstva" s] by (simp add: chunk)
  show ?case
  proof (cases "0 < len \<and> user_page (pages s) pt ?v")
    case False
    then have "copyout h pt dstva src p len s = Some (if 0 = len then 0 else -1, s)"
      using w by (subst copyout.simps) (auto simp: Let_def)
    moreover have "user_range (pages s) pt ?d len 0" using False user_range_0 dv by (cases len) auto
    ultimately show ?thesis using less.prems(1) by (intro exI [of _ 0] exI [of _ s]) auto
  next
    case True
    define xs where "xs = take ?n (drop p src)"
    have xs: "length xs = ?n" "?d mod 4096 + length xs \<le> 4096" using less.prems(2) by (auto simp: xs_def)
    let ?pa = "PTE2PA (pmap (pages s) pt ?v)"
    define s1 where "s1 = set_page ?pa (put (pages s ?pa) (?d mod 4096) xs) s"
    note uw = user_write [OF less.prems(1) _ xs(2), of ?v, folded s1_def]
    have up: "user_page (pages s) pt ?v" "?pa \<noteq> 0" "dstva < MAXVA" using True by (simp_all add: user_page_def vpn_MAXVA)
    have n: "0 < ?n" "?n \<le> len" using True by simp_all
    have len: "length (pages s ?pa) = 4096" using less.prems(1) by (simp add: user_ok_def)
    have next_va: "unat (PGROUNDDOWN dstva + PGSIZE) = ?d + ?n" if "?n < len"
      using chunk_next [OF up(3) that] .
    have pn: "p + ?n \<le> length src" using less.prems(2) n(2) by linarith
    have step: "copyout h pt dstva src p len s = copyout h pt (PGROUNDDOWN dstva + PGSIZE) src (p + ?n) (len - ?n) s1"
      using w True up(2) xs len pn
      by (subst copyout.simps) (simp add: chunk mem_copy_def Let_def s1_def xs_def)
    have ok1: "user_ok (pages s1) pt" "p + ?n + (len - ?n) \<le> length src" "len - ?n < len"
      using uw(4) up(1) less.prems(2) n by simp_all
    from less.IH [OF ok1(3,1,2), of "PGROUNDDOWN dstva + PGSIZE"] obtain k s' where
      IH: "copyout h pt (PGROUNDDOWN dstva + PGSIZE) src (p + ?n) (len - ?n) s1 = Some (if k = len - ?n then 0 else -1, s')"
      "user_range (pages s1) pt (unat (PGROUNDDOWN dstva + PGSIZE)) (len - ?n) k" "s' = s1\<lparr>pages := pages s'\<rparr>"
      "user_ok (pages s') pt" "\<forall>v. pmap (pages s') pt v = pmap (pages s1) pt v"
      "\<forall>a. umem (pages s') pt a = (if unat (PGROUNDDOWN dstva + PGSIZE) \<le> a \<and> a < unat (PGROUNDDOWN dstva + PGSIZE) + k
         then Some (src ! (p + ?n + (a - unat (PGROUNDDOWN dstva + PGSIZE)))) else umem (pages s1) pt a)" by blast
    have k: "k \<le> len - ?n" using IH(2) by (simp add: user_range_def)
    have "user_range (pages s1) pt (unat (PGROUNDDOWN dstva + PGSIZE)) (len - ?n) k
      \<longleftrightarrow> user_range (pages s) pt (unat (PGROUNDDOWN dstva + PGSIZE)) (len - ?n) k"
      using uw(3) [OF up(1)] by (simp add: user_range_def)
    then have r: "user_range (pages s) pt ?d len (?n + k)"
      using user_range_chunk [of "pages s" pt ?d ?n len _ k] IH(2) up(1) dv next_va by simp
    have m: "umem (pages s') pt a = (if ?d \<le> a \<and> a < ?d + (?n + k) then Some (src ! (p + (a - ?d))) else umem (pages s) pt a)" for a
    proof -
      have d: "4096 * ?v + ?d mod 4096 = ?d" by (simp add: vpn_def)
      have one: "umem (pages s1) pt a = (if ?d \<le> a \<and> a < ?d + ?n then Some (src ! (p + (a - ?d))) else umem (pages s) pt a)"
      proof -
        have "xs ! (a - ?d) = src ! (p + (a - ?d))" if "a < ?d + ?n" "?d \<le> a"
        proof -
          have "x - y < z" if "x < y + z" "y \<le> x" for x y z :: nat using that by arith
          then have "a - ?d < ?n" using that by blast
          then show ?thesis using less.prems(2) n(2) by (simp add: xs_def)
        qed
        then show ?thesis using uw(5) [OF up(1), of a] unfolding d xs(1) by (simp only:) metis
      qed
      show ?thesis
      proof (cases "?n < len")
        case True
        then show ?thesis using IH(6) [rule_format, of a] one unfolding next_va [OF True]
          by (cases "a < ?d + ?n") auto
      next
        case False
        then have "k = 0" using k by simp
        then show ?thesis using IH(6) [rule_format, of a] one by auto
      qed
    qed
    have "s' = s\<lparr>pages := pages s'\<rparr>" by (subst IH(3)) (simp add: s1_def set_page_def)
    moreover have "\<forall>v. pmap (pages s') pt v = pmap (pages s) pt v" using IH(5) uw(2) [OF up(1)] by simp
    moreover have "k = len - ?n \<longleftrightarrow> ?n + k = len" using k n by linarith
    ultimately show ?thesis
      using IH(1,4) r m step by (intro exI [of _ "?n + k"] exI [of _ s']) simp
  qed
qed

definition user_bytes :: "mem \<Rightarrow> u64 \<Rightarrow> nat \<Rightarrow> nat \<Rightarrow> u8 list" where
  "user_bytes m pt a k = map (\<lambda>j. the (umem m pt (a + j))) [0..<k]"

lemma length_user_bytes [simp]: "length (user_bytes m pt a k) = k"
  by (simp add: user_bytes_def)

lemma user_bytes_add: "user_bytes m pt a (n + k) = user_bytes m pt a n @ user_bytes m pt (a + n) k"
  by (induction k) (simp_all add: user_bytes_def add.assoc)

lemma put_put: "d + length xs + length ys \<le> length m \<Longrightarrow> put (put m d xs) (d + length xs) ys = put m d (xs @ ys)"
  by (cases xs) (auto simp: put_def min_def ac_simps)

lemma user_bytes_page:
  assumes "length (m (PTE2PA (pmap m pt v))) = 4096" "user_page m pt v" "off + n \<le> 4096"
  shows "take n (drop off (m (PTE2PA (pmap m pt v)))) = user_bytes m pt (4096 * v + off) n"
proof (rule nth_equalityI)
  fix j assume "j < length (take n (drop off (m (PTE2PA (pmap m pt v)))))"
  then have j: "j < n" by simp
  then have "(4096 * v + (off + j)) div 4096 = v" "(4096 * v + (off + j)) mod 4096 = off + j" using assms(3) by simp_all
  then show "take n (drop off (m (PTE2PA (pmap m pt v)))) ! j = user_bytes m pt (4096 * v + off) n ! j"
    using j assms by (simp add: user_bytes_def umem_def add.assoc)
qed (use assms in simp)

lemma copyin_run:
  "user_ok (pages s) pt \<Longrightarrow> d + len \<le> length dst \<Longrightarrow>
   \<exists>k. copyin h pt dst d srcva len s = Some (if k = len then 0 else -1, put dst d (user_bytes (pages s) pt (unat srcva) k), s) \<and>
     user_range (pages s) pt (unat srcva) len k"
proof (induction len arbitrary: srcva d dst rule: less_induct)
  case (less len)
  let ?a = "unat srcva" and ?v = "vpn srcva"
  let ?n = "min (4096 - ?a mod 4096) len"
  have dv: "?a div 4096 = ?v" by (simp add: vpn_def)
  have w: "walkaddr h pt (PGROUNDDOWN srcva) s = Some (if user_page (pages s) pt ?v then PTE2PA (pmap (pages s) pt ?v) else 0, s)"
    using walkaddr_run [of h pt "PGROUNDDOWN srcva" s] by (simp add: chunk)
  show ?case
  proof (cases "0 < len \<and> user_page (pages s) pt ?v")
    case False
    then have "copyin h pt dst d srcva len s = Some (if 0 = len then 0 else -1, dst, s)"
      using w by (subst copyin.simps) (auto simp: Let_def)
    moreover have "user_range (pages s) pt ?a len 0" using False user_range_0 dv by (cases len) auto
    ultimately show ?thesis by (intro exI [of _ 0]) (auto simp: user_bytes_def)
  next
    case True
    let ?pa = "PTE2PA (pmap (pages s) pt ?v)"
    let ?xs = "user_bytes (pages s) pt ?a ?n"
    have up: "user_page (pages s) pt ?v" "?pa \<noteq> 0" "srcva < MAXVA" using True by (simp_all add: user_page_def vpn_MAXVA)
    have n: "0 < ?n" "?n \<le> len" using True by simp_all
    have len: "length (pages s ?pa) = 4096" using less.prems(1) by (simp add: user_ok_def)
    have av: "4096 * ?v + ?a mod 4096 = ?a" by (simp add: vpn_def)
    have xs: "take ?n (drop (?a mod 4096) (pages s ?pa)) = ?xs"
      using user_bytes_page [OF len up(1), of "?a mod 4096" ?n] unfolding av by simp
    have dn: "d + ?n \<le> length dst" using less.prems(2) n(2) by linarith
    have off: "?a mod 4096 + ?n \<le> 4096" by simp
    have step: "copyin h pt dst d srcva len s = copyin h pt (put dst d ?xs) (d + ?n) (PGROUNDDOWN srcva + PGSIZE) (len - ?n) s"
      using w True up(2) len dn xs off by (subst copyin.simps) (simp add: chunk mem_copy_def Let_def)
    have l: "len - ?n < len" "d + ?n + (len - ?n) \<le> length (put dst d ?xs)" using n less.prems(2) dn by simp_all
    from less.IH [OF l(1) less.prems(1) l(2), of "PGROUNDDOWN srcva + PGSIZE"] obtain k where
      IH: "copyin h pt (put dst d ?xs) (d + ?n) (PGROUNDDOWN srcva + PGSIZE) (len - ?n) s = Some (if k = len - ?n then 0 else -1,
        put (put dst d ?xs) (d + ?n) (user_bytes (pages s) pt (unat (PGROUNDDOWN srcva + PGSIZE)) k), s)"
      "user_range (pages s) pt (unat (PGROUNDDOWN srcva + PGSIZE)) (len - ?n) k" by blast
    have k: "k \<le> len - ?n" using IH(2) by (simp add: user_range_def)
    have r: "user_range (pages s) pt ?a len (?n + k)"
      using user_range_chunk [of "pages s" pt ?a ?n len _ k] IH(2) up(1) dv chunk_next [OF up(3)] by simp
    have "user_bytes (pages s) pt (unat (PGROUNDDOWN srcva + PGSIZE)) k = user_bytes (pages s) pt (?a + ?n) k"
      using chunk_next [OF up(3), of len] k by (cases "?n < len") (simp_all add: user_bytes_def)
    moreover have "d + ?n + k \<le> length dst" using k less.prems(2) n(2) by linarith
    ultimately have "put (put dst d ?xs) (d + ?n) (user_bytes (pages s) pt (unat (PGROUNDDOWN srcva + PGSIZE)) k) =
        put dst d (user_bytes (pages s) pt ?a (?n + k))"
      using put_put [of d ?xs "user_bytes (pages s) pt (?a + ?n) k" dst] by (simp add: user_bytes_add)
    moreover have "k = len - ?n \<longleftrightarrow> ?n + k = len" using k n by linarith
    ultimately show ?thesis using IH(1) r step by (intro exI [of _ "?n + k"]) simp
  qed
qed

lemma copystr_page_run:
  "p + n \<le> length buf \<Longrightarrow> d + n \<le> length dst \<Longrightarrow>
   (0 \<notin> set (take n (drop p buf)) \<longrightarrow>
      copystr_page buf p dst d mx n = Some (False, put dst d (take n (drop p buf)), d + n, mx - n)) \<and>
   (\<forall>k<n. buf ! (p + k) = 0 \<longrightarrow> 0 \<notin> set (take k (drop p buf)) \<longrightarrow>
      copystr_page buf p dst d mx n = Some (True, put dst d (take k (drop p buf) @ [0]), d + k, mx - k))"
proof (induction n arbitrary: p dst d mx)
  case (Suc n)
  let ?c = "buf ! p"
  have p: "p < length buf" "d < length dst" using Suc.prems by simp_all
  have dr: "drop p buf = ?c # drop (Suc p) buf" using p(1) by (simp add: Cons_nth_drop_Suc)
  show ?case
  proof (cases "?c = 0")
    case True
    have "copystr_page buf p dst d mx (Suc n) = Some (True, put dst d [0], d, mx)"
      using p True by (simp add: aget_def aset_def put_def upd_conv_take_nth_drop)
    moreover have "k = 0" if "0 \<notin> set (take k (drop p buf))" for k using that True dr by (cases k) auto
    moreover have "0 \<in> set (take (Suc n) (drop p buf))" using True dr by simp
    ultimately show ?thesis by (metis append_Nil diff_zero take_0 add_0_right)
  next
    case False
    have step: "copystr_page buf p dst d mx (Suc n) = copystr_page buf (p + 1) (dst[d := ?c]) (d + 1) (mx - 1) n"
      using p False by (simp add: aget_def aset_def)
    have len: "p + 1 + n \<le> length buf" "d + 1 + n \<le> length (dst[d := ?c])" using Suc.prems by simp_all
    have pc: "put (dst[d := ?c]) (d + 1) xs = put dst d (?c # xs)" for xs using put_Cons [OF p(2)] by simp
    note IH = Suc.IH [OF len, of "mx - 1"]
    have "copystr_page buf p dst d mx (Suc n) = Some (False, put dst d (take (Suc n) (drop p buf)), d + Suc n, mx - Suc n)"
      if "0 \<notin> set (take (Suc n) (drop p buf))"
      using IH that unfolding step pc dr by simp
    moreover have "copystr_page buf p dst d mx (Suc n) = Some (True, put dst d (take k (drop p buf) @ [0]), d + k, mx - k)"
      if k: "k < Suc n" "buf ! (p + k) = 0" "0 \<notin> set (take k (drop p buf))" for k
    proof -
      have "k \<noteq> 0" using k(2) False by (intro notI) simp
      then obtain k' where k': "k = Suc k'" by (cases k) auto
      then show ?thesis using IH k unfolding step pc dr by simp
    qed
    ultimately show ?thesis by blast
  qed
qed simp

text \<open>A string of \<open>k\<close> characters at an address of the user.\<close>

definition user_string :: "mem \<Rightarrow> u64 \<Rightarrow> nat \<Rightarrow> nat \<Rightarrow> bool" where
  "user_string m pt a k \<longleftrightarrow> (\<forall>j<k. umem m pt (a + j) \<noteq> None \<and> umem m pt (a + j) \<noteq> Some 0) \<and> umem m pt (a + k) = Some 0"

lemma user_string_shift:
  "\<forall>j<n. umem m pt (a + j) \<noteq> None \<and> umem m pt (a + j) \<noteq> Some 0 \<Longrightarrow> n \<le> k \<Longrightarrow>
   user_string m pt a k = user_string m pt (a + n) (k - n)"
proof -
  assume n: "\<forall>j<n. umem m pt (a + j) \<noteq> None \<and> umem m pt (a + j) \<noteq> Some 0" "n \<le> k"
  have "(\<forall>j<k. umem m pt (a + j) \<noteq> None \<and> umem m pt (a + j) \<noteq> Some 0) \<longleftrightarrow>
      (\<forall>j<k - n. umem m pt (a + n + j) \<noteq> None \<and> umem m pt (a + n + j) \<noteq> Some 0)"
  proof (intro iffI allI impI)
    fix j assume a: "\<forall>j<k - n. umem m pt (a + n + j) \<noteq> None \<and> umem m pt (a + n + j) \<noteq> Some 0" "j < k"
    show "umem m pt (a + j) \<noteq> None \<and> umem m pt (a + j) \<noteq> Some 0"
    proof (cases "j < n")
      case False
      then show ?thesis using a(1) [rule_format, of "j - n"] a(2) by simp
    qed (use n(1) in blast)
  qed (auto simp: add.assoc)
  then show ?thesis using n(2) by (simp add: user_string_def add.assoc)
qed

lemma user_string_unique: "user_string m pt a j \<Longrightarrow> user_string m pt a k \<Longrightarrow> j = k"
  by (metis linorder_neqE_nat user_string_def)

lemma copyinstr_loop_run:
  "user_ok (pages s) pt \<Longrightarrow> d + mx \<le> length dst \<Longrightarrow>
   (\<forall>k<mx. user_string (pages s) pt (unat srcva) k \<longrightarrow>
      copyinstr_loop h pt False dst d srcva mx s = Some (0, put dst d (user_bytes (pages s) pt (unat srcva) k @ [0]), s)) \<and>
   ((\<forall>k<mx. \<not> user_string (pages s) pt (unat srcva) k) \<longrightarrow> (\<exists>k. user_range (pages s) pt (unat srcva) mx k \<and>
      copyinstr_loop h pt False dst d srcva mx s = Some (-1, put dst d (user_bytes (pages s) pt (unat srcva) k), s)))"
proof (induction mx arbitrary: srcva d dst rule: less_induct)
  case (less mx)
  let ?a = "unat srcva" and ?v = "vpn srcva"
  let ?n = "min (4096 - ?a mod 4096) mx"
  have w: "walkaddr h pt (PGROUNDDOWN srcva) s = Some (if user_page (pages s) pt ?v then PTE2PA (pmap (pages s) pt ?v) else 0, s)"
    using walkaddr_run [of h pt "PGROUNDDOWN srcva" s] by (simp add: chunk)
  show ?case
  proof (cases "0 < mx \<and> user_page (pages s) pt ?v")
    case False
    then have "copyinstr_loop h pt False dst d srcva mx s = Some (-1, dst, s)"
      using w by (subst copyinstr_loop.simps) (auto simp: Let_def)
    moreover have "\<not> user_string (pages s) pt ?a k" if "k < mx" for k
    proof -
      have "umem (pages s) pt ?a = None" using False that by (simp add: umem_def vpn_def)
      then show ?thesis by (cases k) (auto simp: user_string_def)
    qed
    moreover have "user_range (pages s) pt ?a mx 0" using False user_range_0 by (cases mx) (auto simp: vpn_def)
    moreover have "put dst d (user_bytes (pages s) pt ?a 0) = dst" by (simp add: user_bytes_def put_def)
    ultimately show ?thesis by metis
  next
    case True
    let ?pa = "PTE2PA (pmap (pages s) pt ?v)"
    let ?xs = "user_bytes (pages s) pt ?a ?n"
    have up: "user_page (pages s) pt ?v" "?pa \<noteq> 0" "srcva < MAXVA" using True by (simp_all add: user_page_def vpn_MAXVA)
    have n: "0 < ?n" "?n \<le> mx" using True by simp_all
    have len: "length (pages s ?pa) = 4096" using less.prems(1) by (simp add: user_ok_def)
    have av: "4096 * ?v + ?a mod 4096 = ?a" by (simp add: vpn_def)
    have off: "?a mod 4096 + ?n \<le> length (pages s ?pa)" "d + ?n \<le> length dst" using len less.prems(2) n(2) by simp_all
    have pg: "take k (drop (?a mod 4096) (pages s ?pa)) = user_bytes (pages s) pt ?a k" if "k \<le> ?n" for k
    proof -
      have "k \<le> 4096 - ?a mod 4096" using that by simp
      moreover have "?a mod 4096 < 4096" by simp
      ultimately have "?a mod 4096 + k \<le> 4096" by linarith
      then show ?thesis using user_bytes_page [OF len up(1), of "?a mod 4096" k] unfolding av by simp
    qed
    have um: "umem (pages s) pt (?a + j) = Some (pages s ?pa ! (?a mod 4096 + j))" if "j < ?n" for j
    proof -
      have "j < 4096 - ?a mod 4096" using that by simp
      then have "?a mod 4096 + j < 4096" by linarith
      moreover have "?a + j = 4096 * ?v + (?a mod 4096 + j)" using av by simp
      moreover have "x div 4096 = v \<and> x mod 4096 = r" if "x = 4096 * v + r" "r < 4096" for x v r :: nat using that by simp
      ultimately have "(?a + j) div 4096 = ?v" "(?a + j) mod 4096 = ?a mod 4096 + j" by blast+
      then show ?thesis using up(1) by (simp add: umem_def)
    qed
    have ub: "user_bytes (pages s) pt ?a k ! j = pages s ?pa ! (?a mod 4096 + j)" if "j < k" "k \<le> ?n" for j k
      using um [of j] that by (simp add: user_bytes_def)
    note cp = copystr_page_run [OF off, of mx]
    have unf: "copyinstr_loop h pt False dst d srcva mx s = do {
        (got, dst, d, mx) \<leftarrow> copystr_page (pages s ?pa) (?a mod 4096) dst d mx ?n;
        copyinstr_loop h pt got dst d (PGROUNDDOWN srcva + PGSIZE) mx s }"
      using w True up(2) by (subst copyinstr_loop.simps) (simp add: chunk Let_def)
    have nz: "0 \<notin> set (user_bytes (pages s) pt ?a k) \<longleftrightarrow> (\<forall>j<k. umem (pages s) pt (?a + j) \<noteq> Some 0)" if "k \<le> ?n" for k
      using um ub that by (auto simp: in_set_conv_nth)
    show ?thesis
    proof (cases "\<exists>k<?n. user_string (pages s) pt ?a k")
      case True
      then obtain k where k: "k < ?n" "user_string (pages s) pt ?a k" by blast
      have "pages s ?pa ! (?a mod 4096 + k) = 0" "0 \<notin> set (user_bytes (pages s) pt ?a k)"
        using k um [of k] nz [of k] by (auto simp: user_string_def)
      then have "copystr_page (pages s ?pa) (?a mod 4096) dst d mx ?n =
          Some (True, put dst d (user_bytes (pages s) pt ?a k @ [0]), d + k, mx - k)"
        using cp k(1) pg [of k] by simp
      then have "copyinstr_loop h pt False dst d srcva mx s = Some (0, put dst d (user_bytes (pages s) pt ?a k @ [0]), s)"
        unfolding unf by (simp add: copyinstr_loop.simps)
      moreover have "k' = k" if "user_string (pages s) pt ?a k'" for k' using user_string_unique [OF that k(2)] .
      moreover have "k < mx" using k(1) by simp
      ultimately show ?thesis using k(2) by blast
    next
      case False
      have no: "umem (pages s) pt (?a + j) \<noteq> None \<and> umem (pages s) pt (?a + j) \<noteq> Some 0" if "j < ?n" for j
        using that
      proof (induction j rule: less_induct)
        case (less j)
        then have "\<forall>i<j. umem (pages s) pt (?a + i) \<noteq> None \<and> umem (pages s) pt (?a + i) \<noteq> Some 0" by simp
        moreover have "\<not> user_string (pages s) pt ?a j" "umem (pages s) pt (?a + j) \<noteq> None"
          using False um [OF less.prems] less.prems by auto
        ultimately show ?case unfolding user_string_def by blast
      qed
      then have "0 \<notin> set ?xs" using nz [of ?n] by simp
      then have c: "copystr_page (pages s ?pa) (?a mod 4096) dst d mx ?n = Some (False, put dst d ?xs, d + ?n, mx - ?n)"
        using cp pg [of ?n] by simp
      have l: "mx - ?n < mx" "d + ?n + (mx - ?n) \<le> length (put dst d ?xs)" using n less.prems(2) off(2) by simp_all
      note IH = less.IH [OF l(1) less.prems(1) l(2), of "PGROUNDDOWN srcva + PGSIZE"]
      have step: "copyinstr_loop h pt False dst d srcva mx s =
          copyinstr_loop h pt False (put dst d ?xs) (d + ?n) (PGROUNDDOWN srcva + PGSIZE) (mx - ?n) s"
        unfolding unf c by simp
      have sh: "user_string (pages s) pt ?a k = user_string (pages s) pt (?a + ?n) (k - ?n)" if "?n \<le> k" for k
        by (rule user_string_shift [OF _ that]) (use no in blast)
      have ge: "?n \<le> k" if "user_string (pages s) pt ?a k" for k using False that by (meson not_less)
      show ?thesis
      proof (cases "?n < mx")
        case True
        note nx = chunk_next [OF up(3) True]
        have "copyinstr_loop h pt False dst d srcva mx s = Some (0, put dst d (user_bytes (pages s) pt ?a k @ [0]), s)"
          if k: "k < mx" "user_string (pages s) pt ?a k" for k
        proof -
          have "k - ?n < mx - ?n" "user_string (pages s) pt (?a + ?n) (k - ?n)" using ge [OF k(2)] k sh [OF ge [OF k(2)]] True by simp_all
          then have "copyinstr_loop h pt False dst d srcva mx s =
              Some (0, put (put dst d ?xs) (d + ?n) (user_bytes (pages s) pt (?a + ?n) (k - ?n) @ [0]), s)"
            using IH unfolding nx step by blast
          moreover have "put (put dst d ?xs) (d + ?n) (user_bytes (pages s) pt (?a + ?n) (k - ?n) @ [0]) =
              put dst d (user_bytes (pages s) pt ?a (?n + (k - ?n)) @ [0])"
          proof -
            have "d + ?n + (k - ?n + 1) \<le> length dst" using k(1) ge [OF k(2)] less.prems(2) by linarith
            then show ?thesis using put_put [of d ?xs "user_bytes (pages s) pt (?a + ?n) (k - ?n) @ [0]" dst]
              by (simp add: user_bytes_add)
          qed
          ultimately show ?thesis using ge [OF k(2)] by simp
        qed
        moreover have "\<exists>k. user_range (pages s) pt ?a mx k \<and>
            copyinstr_loop h pt False dst d srcva mx s = Some (-1, put dst d (user_bytes (pages s) pt ?a k), s)"
          if no_str: "\<forall>k<mx. \<not> user_string (pages s) pt ?a k"
        proof -
          have "\<not> user_string (pages s) pt (?a + ?n) k" if "k < mx - ?n" for k
          proof -
            have "?n + k < mx" using that by linarith
            then have "\<not> user_string (pages s) pt ?a (?n + k)" using no_str by blast
            then show ?thesis using sh [of "?n + k"] by simp
          qed
          then obtain k where k: "user_range (pages s) pt (?a + ?n) (mx - ?n) k"
            "copyinstr_loop h pt False dst d srcva mx s =
               Some (-1, put (put dst d ?xs) (d + ?n) (user_bytes (pages s) pt (?a + ?n) k), s)"
            using IH unfolding nx step by blast
          have "user_range (pages s) pt ?a mx (?n + k)"
            using user_range_chunk [of "pages s" pt ?a ?n mx _ k] k(1) up(1) by (simp add: vpn_def)
          moreover have "d + ?n + k \<le> length dst"
            using k(1) less.prems(2) n(2) by (auto simp: user_range_def)
          then have "put (put dst d ?xs) (d + ?n) (user_bytes (pages s) pt (?a + ?n) k) =
              put dst d (user_bytes (pages s) pt ?a (?n + k))"
            using put_put [of d ?xs "user_bytes (pages s) pt (?a + ?n) k" dst] by (simp add: user_bytes_add)
          ultimately show ?thesis using k(2) by metis
        qed
        ultimately show ?thesis by blast
      next
        case no_more: False
        then have m: "mx - ?n = 0" by simp
        then have "copyinstr_loop h pt False dst d srcva mx s = Some (-1, put dst d ?xs, s)"
          unfolding step by (subst copyinstr_loop.simps) simp
        moreover have "user_range (pages s) pt ?a mx ?n"
          using user_range_chunk [of "pages s" pt ?a ?n mx "?a + ?n" 0] m up(1) by (simp add: vpn_def user_range_0)
        moreover have "\<not> user_string (pages s) pt ?a k" if "k < mx" for k using that no_more ge [of k] n(2) by linarith
        ultimately show ?thesis by blast
      qed
    qed
  qed
qed

text \<open>
  C15. Writing to a user. On a table whose user pages are separate, \<open>copyout\<close> returns 0 exactly when every page of the range is the user's,
  and then the user sees the bytes at these addresses; otherwise it returns -1 and the bytes
  before the first other page are there. What the user sees at every other address is the same, and so is the table. Whether the user may
  write the page does not matter: \<open>PTE_W\<close> is not looked at.
\<close>

theorem copyout_correct:
  fixes s :: "'a kheap_scheme"
  assumes "user_ok (pages s) pt" and "p + len \<le> length src"
  shows "\<exists>k s'. copyout h pt dstva src p len s = Some (if k = len then 0 else -1, s') \<and>
    user_range (pages s) pt (unat dstva) len k \<and> s' = s\<lparr>pages := pages s'\<rparr> \<and> user_ok (pages s') pt \<and>
    (\<forall>v. pmap (pages s') pt v = pmap (pages s) pt v) \<and>
    (\<forall>a. umem (pages s') pt a =
      (if unat dstva \<le> a \<and> a < unat dstva + k then Some (src ! (p + (a - unat dstva))) else umem (pages s) pt a))"
  by (rule copyout_run [OF assms])

text \<open>
  C23. What the kernel writes to a user it reads back. When \<open>copyout\<close> succeeds, a \<open>copyin\<close> from the same address returns 0 and fills the
  buffer with the same bytes, without a change to the memory.
\<close>

theorem copy_roundtrip:
  assumes "user_ok (pages s) pt" and "copyout h pt va src 0 (length src) s = Some (0, s')" and "length src \<le> length dst"
  shows "copyin h pt dst 0 va (length src) s' = Some (0, src @ drop (length src) dst, s')"
proof -
  obtain k s1 where o: "copyout h pt va src 0 (length src) s = Some (if k = length src then 0 else -1, s1)"
    "user_range (pages s) pt (unat va) (length src) k" "user_ok (pages s1) pt"
    "\<forall>v. pmap (pages s1) pt v = pmap (pages s) pt v"
    "\<forall>a. umem (pages s1) pt a = (if unat va \<le> a \<and> a < unat va + k then Some (src ! (0 + (a - unat va))) else umem (pages s) pt a)"
    using copyout_run [OF assms(1), of 0 "length src" src h va] by auto
  then have k: "k = length src" "s1 = s'" using assms(2) by (auto split: if_splits)
  have up: "user_page (pages s') pt v = user_page (pages s) pt v" for v using o(4) k(2) by (simp add: user_page_def)
  have "0 + length src \<le> length dst" using assms(3) by simp
  from copyin_run [OF o(3) [unfolded k(2)] this, of h va] obtain j where
    i: "copyin h pt dst 0 va (length src) s' = Some (if j = length src then 0 else -1, put dst 0 (user_bytes (pages s') pt (unat va) j), s')"
    "user_range (pages s') pt (unat va) (length src) j" by auto
  have "j = length src"
  proof (rule ccontr)
    assume "j \<noteq> length src"
    then have "j < length src" "\<not> user_page (pages s') pt ((unat va + j) div 4096)" using i(2) by (auto simp: user_range_def)
    then show False using o(2) unfolding k(1) up by (simp add: user_range_def)
  qed
  moreover have "user_bytes (pages s') pt (unat va) (length src) = src"
    by (rule nth_equalityI) (use o(5) k in \<open>simp_all add: user_bytes_def\<close>)
  ultimately show ?thesis using i(1) by (simp add: put_def)
qed

text \<open>
  C24. Reading a string of a user. \<open>copyinstr\<close> returns 0 exactly when the user has a string of less than \<open>max\<close> characters at the
  address, all of it in the user's pages, and then the buffer holds that string and its 0 byte. Otherwise it returns -1, and has
  copied the user's bytes of the range up to the first page that is not the user's, none from there on. In both cases nothing
  but the buffer is written.
\<close>

theorem copyinstr_correct:
  assumes "user_ok (pages s) pt" and "d + mx \<le> length dst"
  shows "(\<forall>k<mx. user_string (pages s) pt (unat srcva) k \<longrightarrow>
      copyinstr h pt dst d srcva mx s = Some (0, put dst d (user_bytes (pages s) pt (unat srcva) k @ [0]), s)) \<and>
    ((\<forall>k<mx. \<not> user_string (pages s) pt (unat srcva) k) \<longrightarrow> (\<exists>k. user_range (pages s) pt (unat srcva) mx k \<and>
      copyinstr h pt dst d srcva mx s = Some (-1, put dst d (user_bytes (pages s) pt (unat srcva) k), s)))"
  using copyinstr_loop_run [OF assms] by (simp add: copyinstr_def)

section \<open>A machine with twelve free pages\<close>

definition twelve :: "u64 list" where
  "twelve = [0x87000000, 0x87001000, 0x87002000, 0x87003000, 0x87004000, 0x87005000, 0x87006000, 0x87007000,
    0x87008000, 0x87009000, 0x8700A000, 0x8700B000]"

definition twelve_pages :: kheap where
  "twelve_pages = \<lparr>locks = locks idle_kern, cpus = cpus idle_kern,
     pages = (\<lambda>p. put (replicate 4096 0) 0 (le64_bytes (if 0x87000000 \<le> p \<and> p < 0x8700B000 then p + 0x1000 else 0))),
     freelist = 0x87000000, kernel_end = 0x80020000\<rparr>"

lemma twelve_pool: "pool twelve_pages twelve" "hart_ok h twelve_pages"
proof -
  have "le64_val (put (replicate 4096 0) 0 (le64_bytes w)) = w" for w
    using le64_roundtrip [of w "drop 8 (replicate 4096 0)"] by (simp add: put_def)
  then have "flist (pages twelve_pages) (freelist twelve_pages) twelve" by (simp add: twelve_def twelve_pages_def)
  moreover have "distinct twelve" by (simp add: twelve_def)
  moreover have "\<forall>p\<in>set twelve. page_ok twelve_pages p"
    by (simp add: twelve_def twelve_pages_def page_ok_def PGSIZE_def PHYSTOP_def KERNBASE_def)
  moreover have "length (pages twelve_pages p) = unat PGSIZE" "free_lock Kmem_lock twelve_pages" for p
    by (simp_all add: twelve_pages_def PGSIZE_def free_lock_def idle_kern_def)
  ultimately show "pool twelve_pages twelve" by (simp add: pool_def)
  show "hart_ok h twelve_pages" by (simp add: hart_ok_def twelve_pages_def idle_kern_def)
qed

lemma le64_zero: "put (replicate 4096 0) 0 (le64_bytes 0) = replicate 4096 0"
proof -
  have "le64_bytes 0 = replicate 8 0" by (rule nth_equalityI) (simp_all add: le64_bytes_def)
  then show ?thesis by (simp add: put_def flip: replicate_add)
qed

abbreviation "root1 \<equiv> 0x87010000 :: u64"
abbreviation "root2 \<equiv> 0x87011000 :: u64"

lemma twelve_table:
  assumes "r \<in> {root1, root2}"
  shows "space h twelve_pages r twelve {}" "pmap (pages twelve_pages) r v = 0" "tpages (pages twelve_pages) r = {r}"
proof -
  have z: "pages twelve_pages r = replicate 4096 0" using assms le64_zero by (auto simp: twelve_pages_def)
  have "pte_of (pages twelve_pages) r i = 0" if "i < 512" for i using pte_of_zero [of "pages twelve_pages" r i] z that by simp
  note e = empty_table [of "pages twelve_pages" r, OF this]
  show "pmap (pages twelve_pages) r v = 0" "tpages (pages twelve_pages) r = {r}" by (rule e; assumption)+
  have "table_ok (pages twelve_pages) r" by (rule e)
  moreover have "r \<notin> set twelve" "page_ok twelve_pages r"
    using assms by (auto simp: twelve_def twelve_pages_def page_ok_def PGSIZE_def PHYSTOP_def KERNBASE_def)
  ultimately show "space h twelve_pages r twelve {}"
    using twelve_pool \<open>tpages (pages twelve_pages) r = {r}\<close> by (simp add: space_def vm_def)
qed

lemma pgs_numbers: "pgs 0 = 0" "pgs 4096 = 1" "pgs 0x1800 = 2"
  by (simp_all add: pgs_def)

theorem mappages_correct_witness:
  "\<exists>s'. mappages 0 root1 0x3064 4096 0x87008000 (PTE_R OR PTE_U) twelve_pages = Some (0, s') \<and>
     pmap (pages s') root1 4 = PA2PTE 0x87009000 OR (PTE_R OR PTE_U) OR PTE_V \<and> pmap (pages s') root1 5 = 0"
proof -
  have v: "vm 0 twelve_pages root1 twelve" using twelve_table(1) [of root1 0] by (simp add: space_def)
  have n: "vpn 0x3064 = 3" "vpn (0x3064 + 4096 - 1) = 4" by (simp_all add: vpn_def)
  have le: "(4096 :: u64) \<noteq> 0" "unat (0x3064 :: u64) + unat (4096 :: u64) \<le> 2 ^ 38" by simp_all
  have "\<forall>w\<in>{vpn 0x3064..vpn (0x3064 + 4096 - 1)}. \<not> valid (pmap (pages twelve_pages) root1 w)"
    using twelve_table(2) [of root1] by simp
  from mappages_correct [OF v le this, of "0x87008000" "PTE_R OR PTE_U", unfolded n] show ?thesis
  proof (elim exE conjE)
    fix r s' ps' k
    assume m: "mappages 0 root1 0x3064 4096 0x87008000 (PTE_R OR PTE_U) twelve_pages = Some (r, s')"
      "if r = 0 then k = Suc (4 - 3) else r = -1 \<and> k \<le> 4 - 3 \<and> ps' = [] \<and> length twelve < 2 * Suc (4 - 3)"
      "\<forall>w<2 ^ 27. pmap (pages s') root1 w =
         (if 3 \<le> w \<and> w < 3 + k then PA2PTE (0x87008000 + page (w - 3)) OR (PTE_R OR PTE_U) OR PTE_V
          else pmap (pages twelve_pages) root1 w)"
    then have "r = 0" "k = 2" by (auto simp: twelve_def split: if_splits)
    then show ?thesis using m(1) m(3) [rule_format, of 4] m(3) [rule_format, of 5] twelve_table(2) [of root1] by (simp add: page_def)
  qed
qed

lemma demo_user:
  "\<exists>s ps. space 0 s root1 ps {..<2} \<and> added 0 twelve_pages root1 twelve {} {0..<2} (user_flags 0) zeros s ps \<and> 6 \<le> length ps"
proof -
  have "\<exists>s' ps'. uvmalloc_loop 0 root1 (page 0) (page 0) 0x1800 0 twelve_pages = Some (0x1800, s') \<and>
      added 0 twelve_pages root1 twelve {} {0..<pgs 0x1800} (user_flags 0) zeros s' ps' \<and>
      length twelve \<le> length ps' + 3 * (pgs 0x1800 - 0) \<or>
    uvmalloc_loop 0 root1 (page 0) (page 0) 0x1800 0 twelve_pages = Some (0, s') \<and> undone 0 twelve_pages root1 twelve {} {0..<0} s' ps' \<and>
      length twelve < 3 * (pgs 0x1800 - 0)"
    by (rule uvmalloc_loop_run) (use twelve_table [of root1] in simp_all)
  moreover have "\<not> length twelve < 3 * (pgs 0x1800 - 0)" by (simp add: twelve_def pgs_numbers)
  moreover have "6 \<le> n" if "length twelve \<le> n + 3 * (2 - 0)" for n using that by (simp add: twelve_def)
  ultimately obtain s ps where "added 0 twelve_pages root1 twelve {} {0..<2} (user_flags 0) zeros s ps" "6 \<le> length ps"
    unfolding pgs_numbers by blast
  moreover have "{} \<union> {0..<2} = {..<2 :: nat}" by auto
  ultimately show ?thesis unfolding added_def by metis
qed

theorem uvmalloc_correct_witness:
  "\<exists>s' ps'. uvmalloc 0 root1 0 0x1800 PTE_W twelve_pages = Some (0x1800, s') \<and> space 0 s' root1 ps' {..<2}"
proof -
  have "space 0 twelve_pages root1 twelve {..<pgs 0}" "\<forall>w\<in>{pgs 0..<pgs 0x1800}. \<not> valid (pmap (pages twelve_pages) root1 w)"
    using twelve_table [of root1] by (simp_all add: pgs_numbers)
  from uvmalloc_correct [where xperm = PTE_W, OF this(1) _ _ _ this(2)] obtain s' ps' where
    "uvmalloc 0 root1 0 0x1800 PTE_W twelve_pages = Some (0x1800, s') \<and> space 0 s' root1 ps' {..<pgs 0x1800} \<or>
     length twelve < 3 * (pgs 0x1800 - pgs 0)"
    by (simp add: PTE_W_def) blast
  moreover have "\<not> length twelve < 3 * (pgs 0x1800 - pgs 0)" by (simp add: twelve_def pgs_numbers)
  ultimately show ?thesis unfolding pgs_numbers by blast
qed

lemma added_user: "added h s0 pt ps0 N {0..<2} (user_flags 0) zeros s ps \<Longrightarrow> v < 2 \<Longrightarrow> user_page (pages s) pt v"
proof -
  assume a: "added h s0 pt ps0 N {0..<2} (user_flags 0) zeros s ps" and v: "v < 2"
  let ?e = "pmap (pages s) pt v"
  have "valid ?e" "page_ok s (PTE2PA ?e)" "PTE_FLAGS ?e = (PTE_R OR PTE_U OR 0) OR PTE_V"
    using a v by (auto simp: added_def space_def)
  moreover have "?e AND PTE_U = PTE_FLAGS ?e AND PTE_U" by (rule and_flags) (simp add: PTE_U_def)
  ultimately show ?thesis using v by (simp add: user_page_def page_ok_def PTE_R_def PTE_U_def PTE_V_def)
qed

lemma demo_state:
  "\<exists>(s :: kheap) ps. space 0 s root1 ps {..<2} \<and> user_ok (pages s) root1 \<and> user_page (pages s) root1 0 \<and> user_page (pages s) root1 1 \<and>
     (\<forall>w<2 ^ 27. 2 \<le> w \<longrightarrow> pmap (pages s) root1 w = 0) \<and> pages s root2 = replicate 4096 0 \<and> page_ok s root2 \<and>
     root2 \<notin> tpages (pages s) root1 \<union> set ps \<union> data (pages s) root1 {..<2} \<and> 6 \<le> length ps"
proof -
  obtain s ps where s: "space 0 s root1 ps {..<2}" "added 0 twelve_pages root1 twelve {} {0..<2} (user_flags 0) zeros s ps" "6 \<le> length ps"
    using demo_user by blast
  have up: "user_page (pages s) root1 0" "user_page (pages s) root1 1" by (rule added_user [OF s(2)]; simp)+
  have z: "\<forall>w<2 ^ 27. 2 \<le> w \<longrightarrow> pmap (pages s) root1 w = 0" using s(2) twelve_table(2) [of root1] by (simp add: added_def)
  have "v \<in> {..<2}" if "user_page (pages s) root1 v" for v
  proof (rule ccontr)
    assume "v \<notin> {..<2}"
    moreover have "v < 2 ^ 27" using that by (simp add: user_page_def)
    ultimately have "pmap (pages s) root1 v = 0" using z by simp
    then show False using that by (simp add: user_page_def)
  qed
  then have ok: "user_ok (pages s) root1" by (rule space_user_ok [OF s(1)])
  have sets: "tpages (pages s) root1 \<union> data (pages s) root1 {0..<2} \<union> set ps = insert root1 (set twelve)"
    using s(2) twelve_table(3) [of root1] by (simp add: added_def)
  moreover have "root2 \<notin> insert root1 (set twelve)" by (simp add: twelve_def)
  ultimately have o: "root2 \<notin> tpages (pages s) root1 \<union> set ps \<union> data (pages s) root1 {..<2}"
    unfolding atLeast0LessThan by blast
  have "pages s root2 = pages twelve_pages root2"
    using s(2) twelve_table(3) [of root1] \<open>root2 \<notin> insert root1 (set twelve)\<close> by (simp add: added_def)
  then have r: "pages s root2 = replicate 4096 0" using le64_zero by (simp add: twelve_pages_def)
  have "page_ok s root2"
    using s(2) by (simp add: added_def page_ok_def twelve_pages_def PGSIZE_def PHYSTOP_def KERNBASE_def)
  then show ?thesis using s(1,3) up z ok o r by (intro exI [of _ s] exI [of _ ps]) simp
qed

theorem copyout_correct_witness:
  "\<exists>(s :: kheap) s'. copyout 0 root1 4094 [1, 2, 3] 0 3 s = Some (0, s') \<and> umem (pages s') root1 4095 = Some 2"
proof -
  obtain s :: kheap and ps where s: "user_ok (pages s) root1" "user_page (pages s) root1 0" "user_page (pages s) root1 1"
    using demo_state by blast
  have "0 + 3 \<le> length [1, 2, 3 :: u8]" by simp
  from copyout_correct [OF s(1) this, of 0 4094] obtain k s' where
    c: "copyout 0 root1 4094 [1, 2, 3] 0 3 s = Some (if k = 3 then 0 else -1, s')" "user_range (pages s) root1 4094 3 k"
    "\<forall>a. umem (pages s') root1 a = (if 4094 \<le> a \<and> a < 4094 + k then Some ([1, 2, 3] ! (0 + (a - 4094))) else umem (pages s) root1 a)"
    by auto
  have "k = 3"
  proof (rule ccontr)
    assume "k \<noteq> 3"
    then have "k < 3" "\<not> user_page (pages s) root1 ((4094 + k) div 4096)" using c(2) by (auto simp: user_range_def)
    moreover from this(1) have "(4094 + k) div 4096 \<in> {0, 1}" by auto
    ultimately show False using s(2,3) by auto
  qed
  then show ?thesis using c(1) c(3) [rule_format, of 4095] by (intro exI [of _ s] exI [of _ s']) simp
qed

lemma demo_copyout:
  "\<exists>(s :: kheap) s'. user_ok (pages s) root1 \<and> copyout 0 root1 4094 [7, 0, 3] 0 (length [7, 0, 3 :: u8]) s = Some (0, s') \<and>
     user_ok (pages s') root1 \<and> umem (pages s') root1 4094 = Some 7 \<and> umem (pages s') root1 4095 = Some 0"
proof -
  obtain s :: kheap and ps where s: "user_ok (pages s) root1" "user_page (pages s) root1 0" "user_page (pages s) root1 1"
    using demo_state by blast
  have "0 + 3 \<le> length [7, 0, 3 :: u8]" by simp
  from copyout_run [OF s(1) this, of 0 4094] obtain k s' where
    c: "copyout 0 root1 4094 [7, 0, 3] 0 3 s = Some (if k = 3 then 0 else -1, s')" "user_range (pages s) root1 4094 3 k"
    "\<forall>a. umem (pages s') root1 a = (if 4094 \<le> a \<and> a < 4094 + k then Some ([7, 0, 3] ! (0 + (a - 4094))) else umem (pages s) root1 a)"
    "user_ok (pages s') root1"
    by auto
  have "k = 3"
  proof (rule ccontr)
    assume "k \<noteq> 3"
    then have "k < 3" "\<not> user_page (pages s) root1 ((4094 + k) div 4096)" using c(2) by (auto simp: user_range_def)
    moreover from this(1) have "(4094 + k) div 4096 \<in> {0, 1}" by auto
    ultimately show False using s(2,3) by auto
  qed
  then show ?thesis using s(1) c(1,4) c(3) [rule_format, of 4095] c(3) [rule_format, of 4094]
    by - (rule exI [of _ s], rule exI [of _ s'], simp add: numeral_3_eq_3)
qed

theorem copy_roundtrip_witness:
  "\<exists>s' :: kheap. copyin 0 root1 [9, 9, 9, 9] 0 4094 3 s' = Some (0, [7, 0, 3, 9], s')"
proof -
  obtain s s' :: kheap where c: "user_ok (pages s) root1"
    "copyout 0 root1 4094 [7, 0, 3] 0 (length [7, 0, 3 :: u8]) s = Some (0, s')" using demo_copyout by blast
  have "length [7, 0, 3 :: u8] \<le> length [9, 9, 9, 9 :: u8]" by simp
  from copy_roundtrip [OF c this] show ?thesis by (intro exI [of _ s']) (simp add: numeral_3_eq_3)
qed

theorem copyinstr_correct_witness:
  "\<exists>s' :: kheap. copyinstr 0 root1 [9, 9, 9, 9] 0 4094 4 s' = Some (0, [7, 0, 9, 9], s')"
proof -
  obtain s' :: kheap where c: "user_ok (pages s') root1" "umem (pages s') root1 4094 = Some 7" "umem (pages s') root1 4095 = Some 0"
    using demo_copyout by blast
  have "0 + 4 \<le> length [9, 9, 9, 9 :: u8]" by simp
  note r = copyinstr_correct [OF c(1) this, of 4094 0]
  have "user_string (pages s') root1 (unat (4094 :: u64)) 1" using c(2,3) by (simp add: user_string_def)
  then have "copyinstr 0 root1 [9, 9, 9, 9] 0 4094 4 s' =
      Some (0, put [9, 9, 9, 9] 0 (user_bytes (pages s') root1 (unat (4094 :: u64)) 1 @ [0]), s')"
    using r by (metis one_less_numeral_iff semiring_norm(76))
  then show ?thesis using c(2) by (intro exI [of _ s']) (simp add: user_bytes_def put_def)
qed

theorem uvmfree_correct_witness:
  "\<exists>(s :: kheap) ps s'. space 0 s root1 ps {..<2} \<and> uvmfree 0 root1 0x1800 s = Some s' \<and>
     returned 0 s ps (data (pages s) root1 {..<2} \<union> tpages (pages s) root1) s'"
proof -
  obtain s :: kheap and ps where s: "space 0 s root1 ps {..<2}" "\<forall>w<2 ^ 27. 2 \<le> w \<longrightarrow> pmap (pages s) root1 w = 0"
    using demo_state by blast
  have p: "space 0 s root1 ps {..<pgs 0x1800}" "\<forall>w<2 ^ 27. pgs 0x1800 \<le> w \<longrightarrow> \<not> valid (pmap (pages s) root1 w)"
    using s by (simp_all add: pgs_numbers)
  have "unat (0x1800 :: u64) \<le> 2 ^ 38" by simp
  from uvmfree_correct [OF p(1) this p(2)] s(1) show ?thesis unfolding pgs_numbers by blast
qed

theorem uvmcopy_correct_witness:
  "\<exists>(s :: kheap) ps s' ps'. space 0 s root1 ps {..<2} \<and> uvmcopy 0 root1 root2 0x1800 s = Some (0, s') \<and> space 0 s' root2 ps' {..<2}"
proof -
  obtain s :: kheap and ps where s: "space 0 s root1 ps {..<2}" "pages s root2 = replicate 4096 0" "page_ok s root2"
    "root2 \<notin> tpages (pages s) root1 \<union> set ps \<union> data (pages s) root1 {..<2}" "6 \<le> length ps"
    using demo_state by blast
  have "pte_of (pages s) root2 i = 0" if "i < 512" for i using pte_of_zero [of "pages s" root2 i] s(2) that by simp
  note e = empty_table [of "pages s" root2, OF this]
  have t: "tpages (pages s) root2 = {root2}" "table_ok (pages s) root2" "pmap (pages s) root2 v = 0" for v by (rule e; assumption)+
  have sp: "space 0 s root2 ps {}" using s(1,3,4) t by (simp add: space_def vm_def)
  have ap: "apart s root1 {..<pgs 0x1800} root2 ps"
    using s(1,4) space_data [OF s(1)] t(1) by (auto simp: apart_def pgs_numbers space_def vm_def)
  have "unat (0x1800 :: u64) \<le> 2 ^ 38" "\<forall>w<pgs 0x1800. \<not> valid (pmap (pages s) root2 w)" using t(3) by simp_all
  from uvmcopy_correct [OF sp ap this] obtain s' ps' where
    "uvmcopy 0 root1 root2 0x1800 s = Some (0, s') \<and> space 0 s' root2 ps' ({} \<union> {..<pgs 0x1800}) \<or> length ps < 3 * pgs 0x1800"
    unfolding added_def by blast
  then show ?thesis using s(1,5) unfolding pgs_numbers by fastforce
qed

end
