(* ===== verification/Pipe.thy ===== *)
theory Pipe
  imports Vm "HOL-Library.Sublist"
begin

text \<open>
  Pipes (\<open>kernel/pipe.c\<close>, the same file in \<open>lab2\<close> and \<open>lab3\<close>), and the processes that read and write one.
  A \<open>struct pipe\<close> fills a page of the allocator; here it is a record of its own under the address of that page. \<open>pipealloc\<close>
  belongs to the file table and is not modelled.

  \<open>pipewrite\<close> and \<open>piperead\<close> give up the processor inside their loops: a function that is entered with the lock of the pipe
  returns \<open>Asleep\<close> when the process is on its way to the scheduler, and the loop goes on behind \<open>sleep_end\<close>.
\<close>

section \<open>State\<close>

definition PIPESIZE :: nat where "PIPESIZE = 512"

record pipe_s =
  pi_data :: "u8 list"
  nread :: u32
  nwrite :: u32
  readopen :: int
  writeopen :: int

text \<open>\<open>p_pagetable\<close> is the field of a process; \<open>pipes\<close> are the pipes by their address.\<close>

record kpipe = ksys +
  p_pagetable :: "nat \<Rightarrow> u64"
  pipes :: "u64 \<Rightarrow> pipe_s"

definition upd_pipe :: "u64 \<Rightarrow> (pipe_s \<Rightarrow> pipe_s) \<Rightarrow> 'a kpipe_scheme \<Rightarrow> 'a kpipe_scheme" where
  "upd_pipe pi f s = s\<lparr>pipes := (pipes s)(pi := f (pipes s pi))\<rparr>"

section \<open>Closing\<close>

definition pipeclose :: "nat \<Rightarrow> u64 \<Rightarrow> bool \<Rightarrow> 'a kpipe_scheme \<Rightarrow> 'a kpipe_scheme option" where
  "pipeclose h pi writable s = do {
     s \<leftarrow> acquire h (Pipe_lock pi) s;
     s \<leftarrow> (if writable then wakeup h (Some (At_pipe_nread pi)) (upd_pipe pi (\<lambda>p. p\<lparr>writeopen := 0\<rparr>) s)
           else wakeup h (Some (At_pipe_nwrite pi)) (upd_pipe pi (\<lambda>p. p\<lparr>readopen := 0\<rparr>) s));
     if readopen (pipes s pi) = 0 \<and> writeopen (pipes s pi) = 0 then do {
       s \<leftarrow> release h (Pipe_lock pi) s;
       kfree h pi s }
     else release h (Pipe_lock pi) s }"

section \<open>Writing\<close>

text \<open>How an iteration ends: the loop goes on at \<open>i\<close>, the process sleeps in it, or the call returns.\<close>

datatype pipe_res = More int | Asleep nat int | Done int

definition pipewrite_end :: "nat \<Rightarrow> u64 \<Rightarrow> int \<Rightarrow> 'a kpipe_scheme \<Rightarrow> (pipe_res \<times> 'a kpipe_scheme) option" where
  "pipewrite_end h pi i s = do {
     s \<leftarrow> wakeup h (Some (At_pipe_nread pi)) s;
     s \<leftarrow> release h (Pipe_lock pi) s;
     Some (Done i, s) }"

definition pipewrite_iter :: "nat \<Rightarrow> nat \<Rightarrow> u64 \<Rightarrow> u64 \<Rightarrow> int \<Rightarrow> int \<Rightarrow> 'a kpipe_scheme \<Rightarrow> (pipe_res \<times> 'a kpipe_scheme) option" where
  "pipewrite_iter h pr pi addr n i s =
     (if i < n then do {
        (stop, s) \<leftarrow> (if readopen (pipes s pi) = 0 then Some (True, s)
                       else do { (k, s) \<leftarrow> killed h pr s; Some (k \<noteq> 0, s) });
        if stop then do {
          s \<leftarrow> release h (Pipe_lock pi) s;
          Some (Done (-1), s) }
        else if nwrite (pipes s pi) = nread (pipes s pi) + of_nat PIPESIZE then do {
          s \<leftarrow> wakeup h (Some (At_pipe_nread pi)) s;
          (p, s) \<leftarrow> sleep_begin h (Some (At_pipe_nwrite pi)) (Pipe_lock pi) s;
          Some (Asleep p i, s) }
        else do {
          (r, ch, s) \<leftarrow> copyin h (p_pagetable s pr) [0] 0 (addr + word_of_int i) 1 s;
          if r = -1 then pipewrite_end h pi i s
          else do {
            ch \<leftarrow> aget ch 0;
            d \<leftarrow> aset (pi_data (pipes s pi)) (unat (nwrite (pipes s pi)) mod PIPESIZE) ch;
            Some (More (i + 1), upd_pipe pi (\<lambda>p. p\<lparr>pi_data := d, nwrite := nwrite p + 1\<rparr>) s) } } }
      else pipewrite_end h pi i s)"

lemma pipewrite_end_done: "pipewrite_end h pi i s = Some (r, s') \<Longrightarrow> r = Done i"
  by (auto simp: pipewrite_end_def bind_eq_Some_conv)

lemma pipewrite_iter_more: "pipewrite_iter h pr pi addr n i s = Some (More j, s') \<Longrightarrow> j = i + 1 \<and> i < n"
  by (auto simp: pipewrite_iter_def bind_eq_Some_conv dest: pipewrite_end_done split: if_splits)

function pipewrite_loop :: "nat \<Rightarrow> nat \<Rightarrow> u64 \<Rightarrow> u64 \<Rightarrow> int \<Rightarrow> int \<Rightarrow> 'a kpipe_scheme \<Rightarrow> (pipe_res \<times> 'a kpipe_scheme) option" where
  "pipewrite_loop h pr pi addr n i s = (case pipewrite_iter h pr pi addr n i s of
     Some (More j, s') \<Rightarrow> pipewrite_loop h pr pi addr n j s'
   | r \<Rightarrow> r)"
  by pat_completeness auto
termination
  by (relation "measure (\<lambda>(h, pr, pi, addr, n, i, s). nat (n - i))") (auto dest: pipewrite_iter_more)

declare pipewrite_loop.simps [simp del]

definition pipe_enter :: "nat \<Rightarrow> u64 \<Rightarrow> 'a kpipe_scheme \<Rightarrow> (nat \<times> 'a kpipe_scheme) option" where
  "pipe_enter h pi s = do {
     (pr, s) \<leftarrow> myproc h s;
     pr \<leftarrow> pr;
     s \<leftarrow> acquire h (Pipe_lock pi) s;
     Some (pr, s) }"

definition pipewrite :: "nat \<Rightarrow> u64 \<Rightarrow> u64 \<Rightarrow> int \<Rightarrow> 'a kpipe_scheme \<Rightarrow> (pipe_res \<times> 'a kpipe_scheme) option" where
  "pipewrite h pi addr n s = do {
     (pr, s) \<leftarrow> pipe_enter h pi s;
     pipewrite_loop h pr pi addr n 0 s }"

section \<open>Reading\<close>

definition piperead_end :: "nat \<Rightarrow> u64 \<Rightarrow> int \<Rightarrow> 'a kpipe_scheme \<Rightarrow> (pipe_res \<times> 'a kpipe_scheme) option" where
  "piperead_end h pi i s = do {
     s \<leftarrow> wakeup h (Some (At_pipe_nwrite pi)) s;
     s \<leftarrow> release h (Pipe_lock pi) s;
     Some (Done i, s) }"

function piperead_copy :: "nat \<Rightarrow> nat \<Rightarrow> u64 \<Rightarrow> u64 \<Rightarrow> int \<Rightarrow> int \<Rightarrow> 'a kpipe_scheme \<Rightarrow> (pipe_res \<times> 'a kpipe_scheme) option" where
  "piperead_copy h pr pi addr n i s =
     (if i < n then
        if nread (pipes s pi) = nwrite (pipes s pi) then piperead_end h pi i s
        else do {
          ch \<leftarrow> aget (pi_data (pipes s pi)) (unat (nread (pipes s pi)) mod PIPESIZE);
          let s = upd_pipe pi (\<lambda>p. p\<lparr>nread := nread p + 1\<rparr>) s;
          (r, s) \<leftarrow> copyout h (p_pagetable s pr) (addr + word_of_int i) [ch] 0 1 s;
          if r = -1 then piperead_end h pi i s
          else piperead_copy h pr pi addr n (i + 1) s }
      else piperead_end h pi i s)"
  by pat_completeness auto
termination by (relation "measure (\<lambda>(h, pr, pi, addr, n, i, s). nat (n - i))") auto

declare piperead_copy.simps [simp del]

text \<open>The first loop: a process that finds the pipe empty goes to sleep, and comes back to the same test.\<close>

definition piperead_loop :: "nat \<Rightarrow> nat \<Rightarrow> u64 \<Rightarrow> u64 \<Rightarrow> int \<Rightarrow> 'a kpipe_scheme \<Rightarrow> (pipe_res \<times> 'a kpipe_scheme) option" where
  "piperead_loop h pr pi addr n s =
     (if nread (pipes s pi) = nwrite (pipes s pi) \<and> writeopen (pipes s pi) \<noteq> 0 then do {
        (k, s) \<leftarrow> killed h pr s;
        if k \<noteq> 0 then do {
          s \<leftarrow> release h (Pipe_lock pi) s;
          Some (Done (-1), s) }
        else do {
          (p, s) \<leftarrow> sleep_begin h (Some (At_pipe_nread pi)) (Pipe_lock pi) s;
          Some (Asleep p 0, s) } }
      else piperead_copy h pr pi addr n 0 s)"

definition piperead :: "nat \<Rightarrow> u64 \<Rightarrow> u64 \<Rightarrow> int \<Rightarrow> 'a kpipe_scheme \<Rightarrow> (pipe_res \<times> 'a kpipe_scheme) option" where
  "piperead h pi addr n s = do {
     (pr, s) \<leftarrow> pipe_enter h pi s;
     piperead_loop h pr pi addr n s }"

section \<open>The ring of bytes\<close>

text \<open>The counters run freely and wrap around; their distance is the number of bytes in the pipe.\<close>

definition fill :: "pipe_s \<Rightarrow> nat" where
  "fill p = unat (nwrite p - nread p)"

definition content :: "pipe_s \<Rightarrow> u8 list" where
  "content p = map (\<lambda>k. pi_data p ! ((unat (nread p) + k) mod PIPESIZE)) [0..<fill p]"

definition pipe_ok :: "pipe_s \<Rightarrow> bool" where
  "pipe_ok p \<longleftrightarrow> length (pi_data p) = PIPESIZE \<and> fill p \<le> PIPESIZE"

definition pipe_push :: "u8 \<Rightarrow> pipe_s \<Rightarrow> pipe_s" where
  "pipe_push ch p = p\<lparr>pi_data := (pi_data p)[unat (nwrite p) mod PIPESIZE := ch], nwrite := nwrite p + 1\<rparr>"

definition pipe_pop :: "pipe_s \<Rightarrow> pipe_s" where
  "pipe_pop p = p\<lparr>nread := nread p + 1\<rparr>"

lemma length_content [simp]: "length (content p) = fill p"
  by (simp add: content_def)

lemma content_simps [simp]:
  "fill (p\<lparr>readopen := x\<rparr>) = fill p" "fill (p\<lparr>writeopen := x\<rparr>) = fill p"
  "content (p\<lparr>readopen := x\<rparr>) = content p" "content (p\<lparr>writeopen := x\<rparr>) = content p"
  "pipe_ok (p\<lparr>readopen := x\<rparr>) = pipe_ok p" "pipe_ok (p\<lparr>writeopen := x\<rparr>) = pipe_ok p"
  by (simp_all add: fill_def content_def pipe_ok_def)

lemma pipe_full_iff:
  assumes "pipe_ok p"
  shows "nwrite p = nread p + of_nat PIPESIZE \<longleftrightarrow> fill p = PIPESIZE"
proof
  assume "fill p = PIPESIZE"
  then have "of_nat (unat (nwrite p - nread p)) = (of_nat PIPESIZE :: u32)" by (simp only: fill_def)
  then have "nwrite p - nread p = of_nat PIPESIZE" by simp
  then show "nwrite p = nread p + of_nat PIPESIZE" by (simp add: algebra_simps)
qed (simp add: fill_def PIPESIZE_def)

lemma pipe_empty_iff: "nread p = nwrite p \<longleftrightarrow> fill p = 0"
  by (auto simp: fill_def unat_eq_0)

lemma ring_index: "unat (nwrite p) mod PIPESIZE = (unat (nread p) + fill p) mod PIPESIZE"
proof -
  have "unat (nwrite p) = unat (nread p + (nwrite p - nread p))" by simp
  also have "\<dots> = (unat (nread p) + fill p) mod 2 ^ 32" by (simp only: unat_word_ariths fill_def len_num1 len_bit0 len_bit1) simp
  finally have "unat (nwrite p) mod PIPESIZE = (unat (nread p) + fill p) mod 2 ^ 32 mod PIPESIZE" by simp
  also have "\<dots> = (unat (nread p) + fill p) mod PIPESIZE" by (rule mod_mod_cancel) (simp add: PIPESIZE_def)
  finally show ?thesis .
qed

lemma ring_inj:
  assumes "k < n" "n < PIPESIZE"
  shows "(a + k) mod PIPESIZE \<noteq> (a + n) mod PIPESIZE"
proof
  assume "(a + k) mod PIPESIZE = (a + n) mod PIPESIZE"
  then have "PIPESIZE dvd (a + n) - (a + k)" using assms by (subst (asm) eq_commute) (simp add: mod_eq_dvd_iff_nat)
  then have "PIPESIZE dvd n - k" by simp
  then show False using assms dvd_imp_le [of PIPESIZE "n - k"] by simp
qed

lemma push_content:
  assumes "pipe_ok p" "fill p < PIPESIZE"
  shows "content (pipe_push ch p) = content p @ [ch]" "pipe_ok (pipe_push ch p)"
proof -
  have "unat (nwrite p - nread p) < 512" using assms(2) by (simp add: fill_def PIPESIZE_def)
  then have "unat (nwrite p - nread p + 1) = unat (nwrite p - nread p) + 1" by (subst unat_word_ariths(1)) simp
  then have f: "fill (pipe_push ch p) = Suc (fill p)" by (simp add: fill_def pipe_push_def algebra_simps)
  have l: "length (pi_data p) = PIPESIZE" using assms(1) by (simp add: pipe_ok_def)
  have "(unat (nread p) + fill p) mod PIPESIZE < length (pi_data p)" unfolding l by (simp add: PIPESIZE_def)
  then show "content (pipe_push ch p) = content p @ [ch]"
    using ring_inj [OF _ assms(2), of _ "unat (nread p)", THEN not_sym] unfolding content_def f
    by (simp add: pipe_push_def ring_index)
  show "pipe_ok (pipe_push ch p)" using assms l unfolding pipe_ok_def f by (simp add: pipe_push_def)
qed

lemma pop_content:
  assumes "pipe_ok p" "0 < fill p"
  shows "content p = pi_data p ! (unat (nread p) mod PIPESIZE) # content (pipe_pop p)" "pipe_ok (pipe_pop p)"
    "fill p = Suc (fill (pipe_pop p))"
proof -
  have "nwrite p - nread p \<noteq> 0" using assms(2) by (auto simp: fill_def)
  then have "unat (nwrite p - nread p - 1) = unat (nwrite p - nread p) - 1" by (simp add: unat_minus_one)
  then show f: "fill p = Suc (fill (pipe_pop p))" using assms(2) by (simp add: fill_def pipe_pop_def algebra_simps)
  have i: "(unat (nread p + 1) + k) mod PIPESIZE = (unat (nread p) + Suc k) mod PIPESIZE" for k
  proof -
    have "unat (nread p + 1) mod PIPESIZE = (unat (nread p) + 1) mod 2 ^ 32 mod PIPESIZE"
      by (simp add: unat_word_ariths)
    also have "\<dots> = (unat (nread p) + 1) mod PIPESIZE" by (rule mod_mod_cancel) (simp add: PIPESIZE_def)
    finally have "(unat (nread p + 1) + k) mod PIPESIZE = (unat (nread p) + 1 + k) mod PIPESIZE"
      by (metis mod_add_left_eq)
    then show ?thesis by simp
  qed
  show "content p = pi_data p ! (unat (nread p) mod PIPESIZE) # content (pipe_pop p)"
    unfolding content_def f by (subst upt_conv_Cons) (simp_all add: pipe_pop_def i map_Suc_upt [symmetric] del: map_Suc_upt upt_Suc)
  show "pipe_ok (pipe_pop p)" using assms f by (simp add: pipe_ok_def pipe_pop_def)
qed

section \<open>What a critical section does\<close>

lemma sec_release:
  fixes t :: "'a kproc_scheme"
  assumes "at_rest t"
  shows "release h l (held h l t) = Some (settle h t)"
  by (rule crit_procs(1)) (use assms in \<open>simp_all add: at_rest_def hart_ok_def\<close>)

lemma held_procs_upd:
  fixes t :: "'a kproc_scheme"
  shows "(held h l t)\<lparr>procs := ps\<rparr> = held h l (t\<lparr>procs := ps\<rparr>)"
  by (simp add: held_def)

lemma sec_deep:
  assumes "at_rest t"
  shows "settle h (held h l t) = held h l t"
  using assms by (simp add: at_rest_def)

lemma sec_wakeup:
  fixes t :: "'a kproc_scheme"
  assumes "at_rest t" "\<forall>j. l \<noteq> Proc_lock j"
  shows "wakeup h c (held h l t) = Some (held h l (t\<lparr>procs := woken (cproc (cpus t h)) c (procs t)\<rparr>))"
proof -
  have "\<And>j. Proc_lock j \<noteq> l" using assms(2) by metis
  then have "quiet h (held h l t)"
    using assms(1) by (simp add: quiet_def hart_ok_def free_lock_def at_rest_def held_def off_cpu_def)
  from wakeup_run [OF this, of c] show ?thesis using sec_deep [OF assms(1)] by (simp add: held_procs_upd)
qed

lemma sec_killed:
  fixes t :: "'a kproc_scheme"
  assumes "at_rest t" "p < NPROC" "\<forall>j. l \<noteq> Proc_lock j"
  shows "killed h p (held h l t) = Some (p_killed (procs t ! p), held h l t)"
proof -
  have "Proc_lock p \<noteq> l" using assms(3) by metis
  then have f: "free_lock (Proc_lock p) (held h l t)" "hart_ok h (held h l t)"
    using assms(1) by (simp_all add: free_lock_def at_rest_def held_def hart_ok_def off_cpu_def)
  have "p < length (procs t)" using assms by (simp add: at_rest_def)
  then show ?thesis
    using acquire_free [OF f(1), of h] crit_procs(1) [OF f] sec_deep [OF assms(1)]
    by (simp add: killed_def get_proc_def aget_def)
qed

lemma pipe_held [simp]:
  fixes s :: "'a kpipe_scheme"
  shows "pipes (held h l s) = pipes s" "p_pagetable (held h l s) = p_pagetable s" "pages (held h l s) = pages s"
    "pipes (settle h s) = pipes s" "p_pagetable (settle h s) = p_pagetable s" "pages (settle h s) = pages s"
    "kpipe.more (held h l s) = kpipe.more s" "kpipe.more (settle h s) = kpipe.more s"
    "upd_pipe pi f (held h l s) = held h l (upd_pipe pi f s)" "set_page a b (held h l s) = held h l (set_page a b s)"
  by (simp_all add: held_def settle_def upd_pipe_def set_page_def)

text \<open>What other harts and the section itself may do to a process: nobody falls asleep, nobody starts or stops to run.\<close>

definition asleep_on :: "addr \<Rightarrow> 'a kproc_scheme \<Rightarrow> nat \<Rightarrow> bool" where
  "asleep_on c s p \<longleftrightarrow> p_state (procs s ! p) = SLEEPING \<and> p_chan (procs s ! p) = Some c"

definition nudged :: "proc_s \<Rightarrow> proc_s \<Rightarrow> bool" where
  "nudged p q \<longleftrightarrow> calm p q \<and> (p_state q = SLEEPING \<longrightarrow> p_state p = SLEEPING \<and> p_chan q = p_chan p)"

lemma nudged_refl [simp]: "nudged p p"
  by (simp add: nudged_def)

lemma nudged_trans: "nudged p q \<Longrightarrow> nudged q r \<Longrightarrow> nudged p r"
  by (auto simp: nudged_def calm_def)

lemma nudged_signalled: "signalled p q \<Longrightarrow> nudged p q"
  by (auto simp: nudged_def signalled_calm) (auto simp: signalled_def kill_proc_def wake_if_def split: if_splits)

lemma nudged_woken: "q < length ps \<Longrightarrow> nudged (ps ! q) (woken me c ps ! q)"
  by (rule nudged_signalled) (auto simp: nth_woken signalled_def)

definition pmoved :: "'a kpipe_scheme \<Rightarrow> 'a kpipe_scheme \<Rightarrow> bool" where
  "pmoved t t' \<longleftrightarrow> locks t' = locks t \<and> cpus t' = cpus t \<and> ctl t' = ctl t \<and> p_pagetable t' = p_pagetable t \<and>
     kpipe.more t' = kpipe.more t \<and> length (procs t') = length (procs t) \<and>
     (\<forall>q<NPROC. nudged (procs t ! q) (procs t' ! q))"

lemma pmoved_refl [simp]: "pmoved t t"
  by (simp add: pmoved_def)

lemma pmoved_trans: "pmoved t t' \<Longrightarrow> pmoved t' t'' \<Longrightarrow> pmoved t t''"
  using nudged_trans by (simp add: pmoved_def) blast

lemma asleep_moved: "pmoved t t' \<Longrightarrow> q < NPROC \<Longrightarrow> asleep_on c t' q \<Longrightarrow> asleep_on c t q"
  by (auto simp: pmoved_def nudged_def asleep_on_def)

text \<open>Process \<open>p\<close> is in a critical section of the pipe on hart \<open>h\<close>: the state without the lock.\<close>

definition in_pipe :: "nat \<Rightarrow> nat \<Rightarrow> u64 \<Rightarrow> 'a kpipe_scheme \<Rightarrow> bool" where
  "in_pipe h p pi t \<longleftrightarrow> at_rest t \<and> cproc (cpus t h) = Some p \<and> p < NPROC \<and> p_state (procs t ! p) = RUNNING \<and>
     pipe_ok (pipes t pi)"

lemma in_pipe_moved:
  fixes t t' :: "'a kpipe_scheme"
  assumes "in_pipe h p pi t" "pmoved t t'" "pipe_ok (pipes t' pi)"
  shows "in_pipe h p pi t'"
proof -
  have "calm (procs t ! p) (procs t' ! p)" using assms by (simp add: in_pipe_def pmoved_def nudged_def)
  then show ?thesis using assms by (auto simp: in_pipe_def pmoved_def at_rest_def free_lock_def calm_def)
qed

definition pwake :: "nat \<Rightarrow> addr \<Rightarrow> 'a kpipe_scheme \<Rightarrow> 'a kpipe_scheme" where
  "pwake h c t = t\<lparr>procs := woken (cproc (cpus t h)) (Some c) (procs t)\<rparr>"

lemma pwake_simps [simp]:
  fixes t :: "'a kpipe_scheme"
  shows "pipes (pwake h c t) = pipes t" "pages (pwake h c t) = pages t" "p_pagetable (pwake h c t) = p_pagetable t"
    "cpus (pwake h c t) = cpus t" "locks (pwake h c t) = locks t" "ctl (pwake h c t) = ctl t" "kpipe.more (pwake h c t) = kpipe.more t"
    "freelist (pwake h c t) = freelist t" "kernel_end (pwake h c t) = kernel_end t"
  by (simp_all add: pwake_def)

lemma pwake_moved:
  fixes t :: "'a kpipe_scheme"
  assumes "in_pipe h p pi t"
  shows "pmoved t (pwake h c t)" "\<forall>q<NPROC. \<not> asleep_on c (pwake h c t) q"
proof -
  have len: "length (procs t) = NPROC" using assms by (simp add: in_pipe_def at_rest_def)
  then show "pmoved t (pwake h c t)" using nudged_woken by (simp add: pmoved_def) (simp add: pwake_def)
  show "\<forall>q<NPROC. \<not> asleep_on c (pwake h c t) q"
    using assms len by (auto simp: asleep_on_def pwake_def nth_woken in_pipe_def wake_if_def)
qed

lemma pwake_section:
  assumes "in_pipe h p pi t"
  shows "wakeup h (Some c) (held h (Pipe_lock pi) t) = Some (held h (Pipe_lock pi) (pwake h c t))"
    "release h (Pipe_lock pi) (held h (Pipe_lock pi) t) = Some (settle h t)"
    "killed h p (held h (Pipe_lock pi) t) = Some (p_killed (procs t ! p), held h (Pipe_lock pi) t)"
proof -
  have a: "at_rest t" "p < NPROC" using assms by (simp_all add: in_pipe_def)
  show "wakeup h (Some c) (held h (Pipe_lock pi) t) = Some (held h (Pipe_lock pi) (pwake h c t))"
    unfolding pwake_def by (rule sec_wakeup [OF a(1)]) simp
  show "release h (Pipe_lock pi) (held h (Pipe_lock pi) t) = Some (settle h t)" by (rule sec_release [OF a(1)])
  show "killed h p (held h (Pipe_lock pi) t) = Some (p_killed (procs t ! p), held h (Pipe_lock pi) t)"
    by (rule sec_killed [OF a]) simp
qed

lemma pipe_sections_end:
  assumes "in_pipe h p pi t"
  shows "pipewrite_end h pi i (held h (Pipe_lock pi) t) = Some (Done i, settle h (pwake h (At_pipe_nread pi) t))"
    "piperead_end h pi i (held h (Pipe_lock pi) t) = Some (Done i, settle h (pwake h (At_pipe_nwrite pi) t))"
proof -
  have "in_pipe h p pi (pwake h c t)" for c
    by (rule in_pipe_moved [OF assms pwake_moved(1) [OF assms]]) (use assms in \<open>simp add: in_pipe_def\<close>)
  note w = pwake_section(1) [OF assms] pwake_section(2) [OF this]
  show "pipewrite_end h pi i (held h (Pipe_lock pi) t) = Some (Done i, settle h (pwake h (At_pipe_nread pi) t))"
    by (simp add: pipewrite_end_def w)
  show "piperead_end h pi i (held h (Pipe_lock pi) t) = Some (Done i, settle h (pwake h (At_pipe_nwrite pi) t))"
    by (simp add: piperead_end_def w)
qed

text \<open>One byte from and to a user.\<close>

lemma copyin_byte:
  assumes "user_ok (pages s) pt"
  shows "copyin h pt [x] 0 va 1 s =
    (if user_page (pages s) pt (unat va div 4096) then Some (0, [the (umem (pages s) pt (unat va))], s) else Some (-1, [x], s))"
proof -
  obtain k where k: "copyin h pt [x] 0 va 1 s = Some (if k = 1 then 0 else -1, put [x] 0 (user_bytes (pages s) pt (unat va) k), s)"
    "user_range (pages s) pt (unat va) 1 k"
    using copyin_run [OF assms, of 0 1 "[x]" h va] by auto
  then consider "k = 0" "\<not> user_page (pages s) pt (unat va div 4096)" | "k = 1" "user_page (pages s) pt (unat va div 4096)"
    by (cases k) (auto simp: user_range_def)
  then show ?thesis using k(1) by cases (simp_all add: put_def user_bytes_def)
qed

lemma copyout_byte:
  assumes "user_ok (pages s) pt"
  shows "\<not> user_page (pages s) pt (unat va div 4096) \<Longrightarrow> copyout h pt va [x] 0 1 s = Some (-1, s)"
    "user_page (pages s) pt (unat va div 4096) \<Longrightarrow> copyout h pt va [x] 0 1 s = Some (0,
      set_page (PTE2PA (pmap (pages s) pt (unat va div 4096)))
        (put (pages s (PTE2PA (pmap (pages s) pt (unat va div 4096)))) (unat va mod 4096) [x]) s)"
proof -
  have w: "walkaddr h pt (PGROUNDDOWN va) s =
      Some (if user_page (pages s) pt (unat va div 4096) then PTE2PA (pmap (pages s) pt (unat va div 4096)) else 0, s)"
    using walkaddr_run [of h pt "PGROUNDDOWN va" s] unfolding chunk(3) unfolding vpn_def .
  show "copyout h pt va [x] 0 1 s = Some (-1, s)" if "\<not> user_page (pages s) pt (unat va div 4096)"
    using w that by (subst copyout.simps) (simp add: Let_def)
  assume u: "user_page (pages s) pt (unat va div 4096)"
  have "unat va mod 4096 < 4096" by simp
  then have n: "min (4096 - unat va mod 4096) 1 = 1" "unat va mod 4096 + 1 \<le> 4096" by linarith+
  have l: "length (pages s (PTE2PA (pmap (pages s) pt (unat va div 4096)))) = 4096" using assms by (simp add: user_ok_def)
  have nz: "PTE2PA (pmap (pages s) pt (unat va div 4096)) \<noteq> 0" using u by (simp add: user_page_def)
  have fin: "copyout h pt va' [x] p 0 s' = Some (0, s')" for va' p s' by (subst copyout.simps) simp
  show "copyout h pt va [x] 0 1 s = Some (0, set_page (PTE2PA (pmap (pages s) pt (unat va div 4096)))
        (put (pages s (PTE2PA (pmap (pages s) pt (unat va div 4096)))) (unat va mod 4096) [x]) s)"
    using w u nz l n fin by (subst copyout.simps) (simp add: Let_def mem_copy_def chunk(1,2) n)
qed

section \<open>A writer in the pipe\<close>

lemma pipewrite_iter_run:
  fixes t :: "'a kpipe_scheme" and addr :: u64 and i n :: int
  assumes "in_pipe h p pi t" and "user_ok (pages t) (p_pagetable t p)"
  defines "va \<equiv> unat (addr + word_of_int i)"
  shows "\<not> i < n \<Longrightarrow> pipewrite_iter h p pi addr n i (held h (Pipe_lock pi) t) = Some (Done i, settle h (pwake h (At_pipe_nread pi) t))"
    "i < n \<Longrightarrow> readopen (pipes t pi) = 0 \<or> p_killed (procs t ! p) \<noteq> 0 \<Longrightarrow>
      pipewrite_iter h p pi addr n i (held h (Pipe_lock pi) t) = Some (Done (-1), settle h t)"
    "i < n \<Longrightarrow> readopen (pipes t pi) \<noteq> 0 \<Longrightarrow> p_killed (procs t ! p) = 0 \<Longrightarrow> fill (pipes t pi) = PIPESIZE \<Longrightarrow>
      \<exists>s1. pipewrite_iter h p pi addr n i (held h (Pipe_lock pi) t) = Some (Asleep p i, s1) \<and>
        sleep_begin h (Some (At_pipe_nwrite pi)) (Pipe_lock pi) (held h (Pipe_lock pi) (pwake h (At_pipe_nread pi) t)) = Some (p, s1)"
    "i < n \<Longrightarrow> readopen (pipes t pi) \<noteq> 0 \<Longrightarrow> p_killed (procs t ! p) = 0 \<Longrightarrow> fill (pipes t pi) < PIPESIZE \<Longrightarrow>
      pipewrite_iter h p pi addr n i (held h (Pipe_lock pi) t) =
        (if user_page (pages t) (p_pagetable t p) (va div 4096)
         then Some (More (i + 1), held h (Pipe_lock pi) (upd_pipe pi (pipe_push (the (umem (pages t) (p_pagetable t p) va))) t))
         else Some (Done i, settle h (pwake h (At_pipe_nread pi) t)))"
proof -
  have ok: "pipe_ok (pipes t pi)" using assms(1) by (simp add: in_pipe_def)
  note full = pipe_full_iff [OF ok]
  note sec = pwake_section [OF assms(1)] pipe_sections_end(1) [OF assms(1)]
  show "\<not> i < n \<Longrightarrow> pipewrite_iter h p pi addr n i (held h (Pipe_lock pi) t) = Some (Done i, settle h (pwake h (At_pipe_nread pi) t))"
    by (simp add: pipewrite_iter_def sec)
  show "i < n \<Longrightarrow> readopen (pipes t pi) = 0 \<or> p_killed (procs t ! p) \<noteq> 0 \<Longrightarrow>
      pipewrite_iter h p pi addr n i (held h (Pipe_lock pi) t) = Some (Done (-1), settle h t)"
    by (elim disjE) (simp_all add: pipewrite_iter_def sec)
  assume i: "i < n" "readopen (pipes t pi) \<noteq> 0" "p_killed (procs t ! p) = 0"
  have in_w: "in_pipe h p pi (pwake h c t)" for c
    by (rule in_pipe_moved [OF assms(1) pwake_moved(1) [OF assms(1)]]) (use ok in simp)
  show "\<exists>s1. pipewrite_iter h p pi addr n i (held h (Pipe_lock pi) t) = Some (Asleep p i, s1) \<and>
        sleep_begin h (Some (At_pipe_nwrite pi)) (Pipe_lock pi) (held h (Pipe_lock pi) (pwake h (At_pipe_nread pi) t)) = Some (p, s1)"
    if f: "fill (pipes t pi) = PIPESIZE"
  proof -
    note w = in_w [of "At_pipe_nread pi", unfolded in_pipe_def]
    obtain s1 where "sleep_begin h (Some (At_pipe_nwrite pi)) (Pipe_lock pi) (held h (Pipe_lock pi) (pwake h (At_pipe_nread pi) t)) = Some (p, s1)"
      using sleep_run [of "pwake h (At_pipe_nread pi) t" h p "Pipe_lock pi" "Some (At_pipe_nwrite pi)"] w by auto
    then show ?thesis using i f full by (simp add: pipewrite_iter_def sec)
  qed
  show "pipewrite_iter h p pi addr n i (held h (Pipe_lock pi) t) =
        (if user_page (pages t) (p_pagetable t p) (va div 4096)
         then Some (More (i + 1), held h (Pipe_lock pi) (upd_pipe pi (pipe_push (the (umem (pages t) (p_pagetable t p) va))) t))
         else Some (Done i, settle h (pwake h (At_pipe_nread pi) t)))"
    if f: "fill (pipes t pi) < PIPESIZE"
  proof -
    have "nwrite (pipes t pi) \<noteq> nread (pipes t pi) + of_nat PIPESIZE" using full f by simp
    moreover have "unat (nwrite (pipes t pi)) mod PIPESIZE < length (pi_data (pipes t pi))"
      using ok by (simp add: pipe_ok_def PIPESIZE_def)
    moreover have "upd_pipe pi (\<lambda>q. q\<lparr>pi_data := (pi_data (pipes t pi))[unat (nwrite (pipes t pi)) mod PIPESIZE := ch], nwrite := nwrite q + 1\<rparr>) t =
        upd_pipe pi (pipe_push ch) t" for ch
      by (simp add: upd_pipe_def pipe_push_def)
    ultimately show ?thesis
      using i copyin_byte [of "held h (Pipe_lock pi) t" "p_pagetable t p" h 0 "addr + word_of_int i"] assms(2)
      by (simp add: pipewrite_iter_def sec va_def aget_def aset_def)
  qed
qed

text \<open>
  The critical section of a writer, from iteration \<open>i\<close> on, with the bytes it puts into the pipe. The lock of the pipe does not
  keep other harts from killing or waking processes between two iterations.
\<close>

definition disturbed :: "'a kpipe_scheme \<Rightarrow> 'a kpipe_scheme \<Rightarrow> bool" where
  "disturbed s s' \<longleftrightarrow> (\<exists>ps. s' = s\<lparr>procs := ps\<rparr> \<and> length ps = length (procs s) \<and>
     (\<forall>q<length ps. signalled (procs s ! q) (ps ! q)))"

inductive writes :: "nat \<Rightarrow> nat \<Rightarrow> u64 \<Rightarrow> u64 \<Rightarrow> int \<Rightarrow> int \<Rightarrow> 'a kpipe_scheme \<Rightarrow> u8 list \<Rightarrow> pipe_res \<Rightarrow> 'a kpipe_scheme \<Rightarrow> bool"
  for h p pi addr n where
  writes_stop: "pipewrite_iter h p pi addr n i s = Some (r, s') \<Longrightarrow> (\<forall>j. r \<noteq> More j) \<Longrightarrow> writes h p pi addr n i s [] r s'"
| writes_more: "pipewrite_iter h p pi addr n i s = Some (More j, s1) \<Longrightarrow> disturbed s1 s2 \<Longrightarrow>
    writes h p pi addr n j s2 bs r s' \<Longrightarrow>
    writes h p pi addr n i s (the (umem (pages s) (p_pagetable s p) (unat (addr + word_of_int i))) # bs) r s'"

lemma disturbed_refl [simp]: "disturbed s s"
  unfolding disturbed_def by (rule exI [of _ "procs s"]) (simp add: signalled_def)

lemma pipewrite_loop_writes: "pipewrite_loop h p pi addr n i s = Some (r, s') \<Longrightarrow> \<exists>bs. writes h p pi addr n i s bs r s'"
proof (induction h p pi addr n i s rule: pipewrite_loop.induct)
  case (1 h p pi addr n i s)
  obtain r1 s1 where iter: "pipewrite_iter h p pi addr n i s = Some (r1, s1)"
    using 1(2) by (subst (asm) pipewrite_loop.simps) (auto split: option.splits)
  show ?case
  proof (cases r1)
    case (More j)
    then have "pipewrite_loop h p pi addr n j s1 = Some (r, s')"
      using 1(2) iter by (subst (asm) pipewrite_loop.simps) simp
    from 1(1) [OF iter refl More this] obtain bs where "writes h p pi addr n j s1 bs r s'" by blast
    from writes_more [OF iter [unfolded More] disturbed_refl this] show ?thesis by blast
  qed (use 1(2) iter in \<open>subst (asm) pipewrite_loop.simps, auto intro: writes_stop\<close>)+
qed

definition awake :: "addr \<Rightarrow> 'a kproc_scheme \<Rightarrow> bool" where
  "awake c s \<longleftrightarrow> (\<forall>q<NPROC. \<not> asleep_on c s q)"



text \<open>What the section does to the state without the lock: the bytes are appended, and how it ends.\<close>

definition wrote :: "nat \<Rightarrow> nat \<Rightarrow> u64 \<Rightarrow> int \<Rightarrow> 'a kpipe_scheme \<Rightarrow> u8 list \<Rightarrow> pipe_res \<Rightarrow> 'a kpipe_scheme \<Rightarrow> 'a kpipe_scheme \<Rightarrow> bool" where
  "wrote h p pi i t bs r t' s' \<longleftrightarrow> pmoved t t' \<and> in_pipe h p pi t' \<and> t' = t\<lparr>procs := procs t', pipes := (pipes t)(pi := pipes t' pi)\<rparr> \<and>
     content (pipes t' pi) = content (pipes t pi) @ bs \<and>
     readopen (pipes t' pi) = readopen (pipes t pi) \<and> writeopen (pipes t' pi) = writeopen (pipes t pi) \<and>
     (r = Done (-1) \<and> s' = settle h t' \<or>
      r = Done (i + int (length bs)) \<and> s' = settle h t' \<and> awake (At_pipe_nread pi) t' \<or>
      r = Asleep p (i + int (length bs)) \<and> awake (At_pipe_nread pi) t' \<and> fill (pipes t' pi) = PIPESIZE \<and> readopen (pipes t' pi) \<noteq> 0 \<and>
        sleep_begin h (Some (At_pipe_nwrite pi)) (Pipe_lock pi) (held h (Pipe_lock pi) t') = Some (p, s'))"

lemma wrote_wake:
  fixes t :: "'a kpipe_scheme"
  assumes "in_pipe h p pi t"
  shows "wrote h p pi i t [] (Done i) (pwake h (At_pipe_nread pi) t) (settle h (pwake h (At_pipe_nread pi) t))"
    "fill (pipes t pi) = PIPESIZE \<Longrightarrow> readopen (pipes t pi) \<noteq> 0 \<Longrightarrow>
     sleep_begin h (Some (At_pipe_nwrite pi)) (Pipe_lock pi) (held h (Pipe_lock pi) (pwake h (At_pipe_nread pi) t)) = Some (p, s1) \<Longrightarrow>
     wrote h p pi i t [] (Asleep p i) (pwake h (At_pipe_nread pi) t) s1"
proof -
  have "in_pipe h p pi (pwake h c t)" for c
    by (rule in_pipe_moved [OF assms pwake_moved(1) [OF assms]]) (use assms in \<open>simp add: in_pipe_def\<close>)
  moreover have "pwake h c t = t\<lparr>procs := procs (pwake h c t), pipes := (pipes t)(pi := pipes t pi)\<rparr>" for c
    by (simp add: pwake_def)
  ultimately show "wrote h p pi i t [] (Done i) (pwake h (At_pipe_nread pi) t) (settle h (pwake h (At_pipe_nread pi) t))"
    "fill (pipes t pi) = PIPESIZE \<Longrightarrow> readopen (pipes t pi) \<noteq> 0 \<Longrightarrow>
     sleep_begin h (Some (At_pipe_nwrite pi)) (Pipe_lock pi) (held h (Pipe_lock pi) (pwake h (At_pipe_nread pi) t)) = Some (p, s1) \<Longrightarrow>
     wrote h p pi i t [] (Asleep p i) (pwake h (At_pipe_nread pi) t) s1"
    using pwake_moved [OF assms] by (simp_all add: wrote_def awake_def)
qed

lemma wrote_more:
  fixes t :: "'a kpipe_scheme"
  assumes "in_pipe h p pi t" "fill (pipes t pi) < PIPESIZE" "length ps = length (procs t)"
    "\<forall>q<length ps. signalled (procs t ! q) (ps ! q)"
    "wrote h p pi (i + 1) ((upd_pipe pi (pipe_push b) t)\<lparr>procs := ps\<rparr>) bs r t' s'"
  shows "wrote h p pi i t (b # bs) r t' s'" "in_pipe h p pi ((upd_pipe pi (pipe_push b) t)\<lparr>procs := ps\<rparr>)"
proof -
  let ?u = "(upd_pipe pi (pipe_push b) t)\<lparr>procs := ps\<rparr>"
  have ok: "pipe_ok (pipes t pi)" and len: "length (procs t) = NPROC" using assms(1) by (simp_all add: in_pipe_def at_rest_def)
  have pu: "pipes ?u = (pipes t)(pi := pipe_push b (pipes t pi))" by (simp add: upd_pipe_def)
  note push = push_content [OF ok assms(2), of b]
  have mv: "pmoved t ?u"
    using assms(3,4) len nudged_signalled by (auto simp: pmoved_def upd_pipe_def)
  show "in_pipe h p pi ?u" by (rule in_pipe_moved [OF assms(1) mv]) (simp add: pu push)
  have e: "t' = ?u\<lparr>procs := procs t', pipes := (pipes ?u)(pi := pipes t' pi)\<rparr>" using assms(5) by (simp add: wrote_def)
  have "t' = t\<lparr>procs := procs t', pipes := (pipes t)(pi := pipes t' pi)\<rparr>"
    by (subst e) (simp add: upd_pipe_def)
  then show "wrote h p pi i t (b # bs) r t' s'"
    using assms(5) pmoved_trans [OF mv, of t'] push(1) by (simp add: wrote_def pu pipe_push_def) (auto simp: algebra_simps)
qed

lemma writes_run:
  fixes t :: "'a kpipe_scheme"
  assumes "writes h p pi addr n i s bs r s'" "s = held h (Pipe_lock pi) t" "in_pipe h p pi t" "user_ok (pages t) (p_pagetable t p)"
  shows "\<exists>t'. wrote h p pi i t bs r t' s'"
  using assms
proof (induction arbitrary: t rule: writes.induct)
  case (writes_stop i s r s')
  note iter = pipewrite_iter_run [OF writes_stop.prems(2,3), where i = i and n = n and addr = addr]
  have ok: "fill (pipes t pi) \<le> PIPESIZE" using writes_stop.prems(2) by (simp add: in_pipe_def pipe_ok_def)
  consider "\<not> i < n" | "i < n" "readopen (pipes t pi) = 0 \<or> p_killed (procs t ! p) \<noteq> 0"
    | "i < n" "readopen (pipes t pi) \<noteq> 0" "p_killed (procs t ! p) = 0" "fill (pipes t pi) = PIPESIZE"
    | "i < n" "readopen (pipes t pi) \<noteq> 0" "p_killed (procs t ! p) = 0" "fill (pipes t pi) < PIPESIZE"
    using ok by linarith
  then show ?case
  proof cases
    case 1
    then show ?thesis using iter(1) wrote_wake(1) [OF writes_stop.prems(2)] writes_stop by auto
  next
    case 2
    then have "r = Done (-1)" "s' = settle h t" using iter(2) writes_stop by simp_all
    then show ?thesis using writes_stop.prems(2) by (intro exI [of _ t]) (simp add: wrote_def)
  next
    case 3
    then show ?thesis using iter(3) wrote_wake(2) [OF writes_stop.prems(2)] writes_stop by auto
  next
    case 4
    then show ?thesis using iter(4) wrote_wake(1) [OF writes_stop.prems(2)] writes_stop by (auto split: if_splits)
  qed
next
  case (writes_more i s j s1 s2 bs r s')
  note iter = pipewrite_iter_run [OF writes_more.prems(2,3), where i = i and n = n and addr = addr]
  let ?b = "the (umem (pages t) (p_pagetable t p) (unat (addr + word_of_int i)))"
  have ok: "fill (pipes t pi) \<le> PIPESIZE" using writes_more.prems(2) by (simp add: in_pipe_def pipe_ok_def)
  have i: "i < n" and j: "j = i + 1" using pipewrite_iter_more [OF writes_more.hyps(1)] by simp_all
  have it: "pipewrite_iter h p pi addr n i (held h (Pipe_lock pi) t) = Some (More j, s1)"
    using writes_more.hyps(1) writes_more.prems(1) by simp
  have g: "readopen (pipes t pi) \<noteq> 0" "p_killed (procs t ! p) = 0" using it iter(2) [OF i] by auto
  have f: "fill (pipes t pi) < PIPESIZE" using it iter(3) [OF i g] ok by fastforce
  have s1: "s1 = held h (Pipe_lock pi) (upd_pipe pi (pipe_push ?b) t)"
    using it iter(4) [OF i g f] by (auto split: if_splits)
  obtain ps where ps: "s2 = s1\<lparr>procs := ps\<rparr>" "length ps = length (procs t)" "\<forall>q<length ps. signalled (procs t ! q) (ps ! q)"
    using writes_more.hyps(2) unfolding s1 disturbed_def by (auto simp: upd_pipe_def)
  let ?u = "(upd_pipe pi (pipe_push ?b) t)\<lparr>procs := ps\<rparr>"
  have s2: "s2 = held h (Pipe_lock pi) ?u" unfolding ps(1) s1 held_procs_upd ..
  have "in_pipe h p pi ?u"
    by (rule in_pipe_moved [OF writes_more.prems(2)])
      (use push_content(2) [of "pipes t pi"] writes_more.prems(2) f ps(2,3) nudged_signalled in
        \<open>auto simp: pmoved_def upd_pipe_def in_pipe_def at_rest_def\<close>)
  moreover have "user_ok (pages ?u) (p_pagetable ?u p)" using writes_more.prems(3) by (simp add: upd_pipe_def)
  ultimately obtain t' where "wrote h p pi j ?u bs r t' s'" using writes_more.IH [OF s2] by blast
  then have "wrote h p pi i t (?b # bs) r t' s'"
    using wrote_more(1) [OF writes_more.prems(2) f ps(2,3)] by (simp add: j)
  then show ?case using writes_more.prems(1) by auto
qed

section \<open>A reader in the pipe\<close>

text \<open>
  Between the tables and the pages of different processes there is nothing in common, and none of them is the page of the pipe.
\<close>

definition user_pages :: "mem \<Rightarrow> u64 \<Rightarrow> u64 set" where
  "user_pages m pt = {PTE2PA (pmap m pt v) |v. user_page m pt v}"

definition mem_apart :: "u64 \<Rightarrow> (nat \<Rightarrow> u64) \<Rightarrow> mem \<Rightarrow> bool" where
  "mem_apart pi pt m \<longleftrightarrow> (\<forall>p<NPROC. user_ok m (pt p) \<and> pi \<notin> user_pages m (pt p) \<union> tpages m (pt p) \<and>
     (\<forall>q<NPROC. q \<noteq> p \<longrightarrow> user_pages m (pt p) \<inter> (user_pages m (pt q) \<union> tpages m (pt q)) = {}))"

lemma user_cong:
  assumes "\<And>a. a \<in> tpages m pt \<Longrightarrow> m' a = m a"
  shows "tpages m' pt = tpages m pt" "pmap m' pt v = pmap m pt v" "user_page m' pt v = user_page m pt v"
    "user_pages m' pt = user_pages m pt"
proof -
  have "pte_of m' a i = pte_of m a i" if "a \<in> tpages m pt" for a i using assms [OF that] by (simp add: pte_of_def)
  note c = table_cong [of m pt m', OF this]
  show "tpages m' pt = tpages m pt" by (rule c; assumption)
  show pm: "pmap m' pt v = pmap m pt v" for v by (rule c; assumption)
  then show "user_page m' pt v = user_page m pt v" "user_pages m' pt = user_pages m pt"
    by (simp_all add: user_pages_def user_page_def)
qed

text \<open>A byte is stored in a page of process \<open>p\<close>: by the process itself, or by the kernel on its behalf.\<close>

definition store_byte :: "u64 \<Rightarrow> nat \<Rightarrow> u8 \<Rightarrow> mem \<Rightarrow> mem" where
  "store_byte pt a x m = m(PTE2PA (pmap m pt (a div 4096)) := put (m (PTE2PA (pmap m pt (a div 4096)))) (a mod 4096) [x])"

lemma store_apart:
  assumes "mem_apart pi pt m" "p < NPROC" "user_page m (pt p) (a div 4096)"
  shows "mem_apart pi pt (store_byte (pt p) a x m)"
    "q < NPROC \<Longrightarrow> user_page (store_byte (pt p) a x m) (pt q) v = user_page m (pt q) v"
    "q < NPROC \<Longrightarrow> umem (store_byte (pt p) a x m) (pt q) b = (if q = p \<and> b = a then Some x else umem m (pt q) b)"
proof -
  let ?d = "PTE2PA (pmap m (pt p) (a div 4096))" and ?m = "store_byte (pt p) a x m"
  have d: "?d \<in> user_pages m (pt p)" using assms(3) by (auto simp: user_pages_def)
  have am: "a mod 4096 + length [x] \<le> 4096" by (simp add: Suc_leI)
  have okp: "user_ok m (pt p)" using assms(1,2) by (simp add: mem_apart_def)
  have m': "?m b = m b" if "b \<noteq> ?d" for b using that by (simp add: store_byte_def)
  have other: "?d \<notin> tpages m (pt q)" if "q < NPROC" for q
  proof (cases "q = p")
    case True
    then show ?thesis using okp assms(3) by (simp add: user_ok_def)
  next
    case False
    then show ?thesis using assms(1,2) that d by (auto simp: mem_apart_def)
  qed
  have same: "?m b = m b" if "q < NPROC" "b \<in> tpages m (pt q)" for q b
    by (rule m') (use other [OF that(1)] that(2) in metis)
  have c: "tpages ?m (pt q) = tpages m (pt q)" "pmap ?m (pt q) v = pmap m (pt q) v" "user_page ?m (pt q) v = user_page m (pt q) v"
    "user_pages ?m (pt q) = user_pages m (pt q)" if "q < NPROC" for q v
    by (rule user_cong; rule same [OF that]; assumption)+
  show up: "user_page ?m (pt q) v = user_page m (pt q) v" if "q < NPROC" for q v by (rule c(3) [OF that])
  have len: "length (?m b) = 4096" for b using okp am by (simp add: store_byte_def user_ok_def)
  have ok: "user_ok ?m (pt q)" if "q < NPROC" for q
  proof -
    have "user_ok m (pt q)" using assms(1) that by (simp add: mem_apart_def)
    then show ?thesis using len unfolding user_ok_def c(1-3) [OF that] by blast
  qed
  show "mem_apart pi pt ?m"
    unfolding mem_apart_def
  proof (intro allI impI conjI)
    fix p' assume p': "p' < NPROC"
    note o = assms(1) [unfolded mem_apart_def, rule_format, OF p']
    show "user_ok ?m (pt p')" by (rule ok [OF p'])
    show "pi \<notin> user_pages ?m (pt p') \<union> tpages ?m (pt p')" unfolding c(1,4) [OF p'] using o by simp
    show "user_pages ?m (pt p') \<inter> (user_pages ?m (pt q') \<union> tpages ?m (pt q')) = {}" if q': "q' < NPROC" "q' \<noteq> p'" for q'
      unfolding c(4) [OF p'] c(1,4) [OF q'(1)] using o q' by simp
  qed
  show "umem ?m (pt q) b = (if q = p \<and> b = a then Some x else umem m (pt q) b)" if q: "q < NPROC" for q
  proof (cases "q = p")
    case True
    have e: "?m = pages (set_page ?d (put (m ?d) (a mod 4096) [x]) ((undefined :: kheap)\<lparr>pages := m\<rparr>))"
      by (simp add: set_page_def store_byte_def)
    have k: "pages ((undefined :: kheap)\<lparr>pages := m\<rparr>) = m" by simp
    have a: "4096 * (a div 4096) + a mod 4096 = a" by simp
    have "umem ?m (pt p) b = (if a \<le> b \<and> b < a + length [x] then Some ([x] ! (b - a)) else umem m (pt p) b)"
      using user_write(5) [of "(undefined :: kheap)\<lparr>pages := m\<rparr>" "pt p" "a div 4096" "a mod 4096" "[x]" b,
        unfolded k, OF okp assms(3) am] unfolding a e [symmetric] .
    then show ?thesis using True by (cases "a = b") auto
  next
    case False
    have "PTE2PA (pmap m (pt q) (b div 4096)) \<noteq> ?d" if "user_page m (pt q) (b div 4096)"
    proof -
      have "PTE2PA (pmap m (pt q) (b div 4096)) \<in> user_pages m (pt q)" using that by (auto simp: user_pages_def)
      moreover have "user_pages m (pt p) \<inter> (user_pages m (pt q) \<union> tpages m (pt q)) = {}"
        using assms(1,2) q False by (simp add: mem_apart_def)
      ultimately show ?thesis using d by (metis IntI UnCI empty_iff)
    qed
    then show ?thesis using False m' by (auto simp: umem_def c(2,3) [OF q])
  qed
qed

text \<open>The address of byte \<open>k\<close> of a user's buffer; within an \<open>int\<close> they are all different.\<close>

definition byte_at :: "u64 \<Rightarrow> int \<Rightarrow> nat" where
  "byte_at addr k = unat (addr + word_of_int k)"

lemma byte_at_inj:
  assumes "byte_at addr j = byte_at addr k" "0 \<le> j" "j < 2 ^ 31" "0 \<le> k" "k < 2 ^ 31"
  shows "j = k"
proof -
  have "addr + word_of_int j = addr + word_of_int k" using assms(1) unfolding byte_at_def word_unat_eq_iff .
  then have "(word_of_int j :: u64) = word_of_int k" by simp
  then have "uint (word_of_int j :: u64) = uint (word_of_int k :: u64)" by simp
  then show ?thesis using assms(2-5) by (simp add: uint_word_of_int)
qed

text \<open>
  What a reader does to the state without the lock, from byte \<open>i\<close> on, when it returns \<open>j\<close>: the bytes \<open>bs\<close> leave the pipe for the
  buffer of the process; \<open>l\<close> is a byte that left the pipe for an address that is not the user's.
\<close>

definition took :: "nat \<Rightarrow> nat \<Rightarrow> u64 \<Rightarrow> u64 \<Rightarrow> int \<Rightarrow> int \<Rightarrow> 'a kpipe_scheme \<Rightarrow> u8 list \<Rightarrow> u8 list \<Rightarrow> int \<Rightarrow> 'a kpipe_scheme \<Rightarrow> bool" where
  "took h p pi addr n i t bs l j t' \<longleftrightarrow> pmoved t t' \<and> in_pipe h p pi t' \<and>
     t' = t\<lparr>pages := pages t', procs := procs t', pipes := (pipes t)(pi := pipes t' pi)\<rparr> \<and>
     mem_apart pi (p_pagetable t) (pages t') \<and>
     readopen (pipes t' pi) = readopen (pipes t pi) \<and> writeopen (pipes t' pi) = writeopen (pipes t pi) \<and>
     nwrite (pipes t' pi) = nwrite (pipes t pi) \<and>
     content (pipes t pi) = bs @ l @ content (pipes t' pi) \<and> j = i + int (length bs) \<and>
     (l \<noteq> [] \<longrightarrow> length l = 1 \<and> j < n \<and> \<not> user_page (pages t) (p_pagetable t p) (byte_at addr j div 4096)) \<and>
     (j < n \<and> l = [] \<longrightarrow> content (pipes t' pi) = []) \<and>
     (\<forall>k<length bs. umem (pages t') (p_pagetable t p) (byte_at addr (i + int k)) = Some (bs ! k)) \<and>
     (\<forall>q<NPROC. \<forall>v. user_page (pages t') (p_pagetable t q) v = user_page (pages t) (p_pagetable t q) v) \<and>
     (\<forall>q<NPROC. \<forall>a. q \<noteq> p \<or> (\<forall>k<length bs. a \<noteq> byte_at addr (i + int k)) \<longrightarrow>
        umem (pages t') (p_pagetable t q) a = umem (pages t) (p_pagetable t q) a)"

lemma took_wake:
  fixes t :: "'a kpipe_scheme"
  assumes "in_pipe h p pi t" "mem_apart pi (p_pagetable t) (pages t)" "i < n \<Longrightarrow> content (pipes t pi) = []"
  shows "took h p pi addr n i t [] [] i (pwake h c t)"
proof -
  have "in_pipe h p pi (pwake h c t)"
    by (rule in_pipe_moved [OF assms(1) pwake_moved(1) [OF assms(1)]]) (use assms in \<open>simp add: in_pipe_def\<close>)
  moreover have "pwake h c t = t\<lparr>pages := pages t, procs := procs (pwake h c t), pipes := (pipes t)(pi := pipes t pi)\<rparr>"
    by (simp add: pwake_def)
  ultimately show ?thesis using pwake_moved(1) [OF assms(1)] assms(2,3) by (simp add: took_def)
qed

lemma took_lost:
  fixes t :: "'a kpipe_scheme"
  assumes "in_pipe h p pi t" "mem_apart pi (p_pagetable t) (pages t)" "0 < fill (pipes t pi)" "i < n"
    "\<not> user_page (pages t) (p_pagetable t p) (byte_at addr i div 4096)"
  shows "\<exists>b. took h p pi addr n i t [] [b] i (pwake h c (upd_pipe pi pipe_pop t))"
proof -
  let ?u = "upd_pipe pi pipe_pop t"
  have ok: "pipe_ok (pipes t pi)" using assms(1) by (simp add: in_pipe_def)
  note pop = pop_content [OF ok assms(3)]
  have mv: "pmoved t ?u" by (simp add: pmoved_def upd_pipe_def)
  have u: "in_pipe h p pi ?u" by (rule in_pipe_moved [OF assms(1) mv]) (simp add: upd_pipe_def pop)
  have w: "in_pipe h p pi (pwake h c ?u)"
    by (rule in_pipe_moved [OF u pwake_moved(1) [OF u]]) (use u in \<open>simp add: in_pipe_def\<close>)
  have e: "pwake h c ?u = t\<lparr>pages := pages t, procs := procs (pwake h c ?u), pipes := (pipes t)(pi := pipes ?u pi)\<rparr>"
    by (simp add: pwake_def upd_pipe_def)
  have "took h p pi addr n i t [] [pi_data (pipes t pi) ! (unat (nread (pipes t pi)) mod PIPESIZE)] i (pwake h c ?u)"
    unfolding took_def
    using w pmoved_trans [OF mv pwake_moved(1) [OF u]] assms(2,4,5) pop(1) e
    by (simp add: upd_pipe_def pipe_pop_def)
  then show ?thesis by blast
qed

text \<open>One byte is delivered, and the loop goes on.\<close>

definition deliver :: "nat \<Rightarrow> u64 \<Rightarrow> nat \<Rightarrow> 'a kpipe_scheme \<Rightarrow> 'a kpipe_scheme" where
  "deliver p pi a t = (upd_pipe pi pipe_pop t)\<lparr>pages := store_byte (p_pagetable t p) a
     (pi_data (pipes t pi) ! (unat (nread (pipes t pi)) mod PIPESIZE)) (pages t)\<rparr>"

lemma deliver_ok:
  fixes t :: "'a kpipe_scheme"
  assumes "in_pipe h p pi t" "mem_apart pi (p_pagetable t) (pages t)" "0 < fill (pipes t pi)"
    "user_page (pages t) (p_pagetable t p) (a div 4096)"
  shows "in_pipe h p pi (deliver p pi a t)" "mem_apart pi (p_pagetable t) (pages (deliver p pi a t))" "pmoved t (deliver p pi a t)"
proof -
  have ok: "pipe_ok (pipes t pi)" and p: "p < NPROC" using assms(1) by (simp_all add: in_pipe_def)
  show mv: "pmoved t (deliver p pi a t)" by (simp add: pmoved_def deliver_def upd_pipe_def)
  show "in_pipe h p pi (deliver p pi a t)"
    by (rule in_pipe_moved [OF assms(1) mv]) (simp add: deliver_def upd_pipe_def pop_content [OF ok assms(3)])
  show "mem_apart pi (p_pagetable t) (pages (deliver p pi a t))"
    using store_apart(1) [OF assms(2) p assms(4)] by (simp add: deliver_def)
qed

lemma took_more:
  fixes t :: "'a kpipe_scheme"
  assumes "in_pipe h p pi t" "mem_apart pi (p_pagetable t) (pages t)" "0 < fill (pipes t pi)" "0 \<le> i" "n < 2 ^ 31" "i < n"
    "user_page (pages t) (p_pagetable t p) (byte_at addr i div 4096)"
    "took h p pi addr n (i + 1) (deliver p pi (byte_at addr i) t) bs l j t'" "j \<le> n"
  shows "took h p pi addr n i t (pi_data (pipes t pi) ! (unat (nread (pipes t pi)) mod PIPESIZE) # bs) l j t'"
proof -
  let ?u = "deliver p pi (byte_at addr i) t"
  let ?b = "pi_data (pipes t pi) ! (unat (nread (pipes t pi)) mod PIPESIZE)"
  have ok: "pipe_ok (pipes t pi)" and p: "p < NPROC" using assms(1) by (simp_all add: in_pipe_def)
  note pop = pop_content [OF ok assms(3)]
  note del = deliver_ok [OF assms(1,2,3,7)]
  note st = store_apart [OF assms(2) p assms(7), where x = ?b]
  have u: "pipes ?u = (pipes t)(pi := pipe_pop (pipes t pi))" "p_pagetable ?u = p_pagetable t"
    "pages ?u = store_byte (p_pagetable t p) (byte_at addr i) ?b (pages t)"
    by (simp_all add: deliver_def upd_pipe_def)
  have pp: "(((pipes t)(pi := pipe_pop (pipes t pi))) pi) = pipe_pop (pipes t pi)" "readopen (pipe_pop x) = readopen x"
    "writeopen (pipe_pop x) = writeopen x" "nwrite (pipe_pop x) = nwrite x" for x by (simp_all add: pipe_pop_def)
  note tk = assms(8) [unfolded took_def u pp]
  have e: "t' = ?u\<lparr>pages := pages t', procs := procs t', pipes := (pipes ?u)(pi := pipes t' pi)\<rparr>" using tk by (simp add: u)
  have e': "t' = t\<lparr>pages := pages t', procs := procs t', pipes := (pipes t)(pi := pipes t' pi)\<rparr>"
    by (subst e) (simp add: deliver_def upd_pipe_def)
  have j: "j = i + 1 + int (length bs)" using tk by blast
  have ne: "byte_at addr i \<noteq> byte_at addr (i + 1 + int k)" if "k < length bs" for k
    using byte_at_inj [of addr i "i + 1 + int k"] assms(4,5,9) that j by auto
  have first: "umem (pages t') (p_pagetable t p) (byte_at addr i) = Some ?b"
  proof -
    have "umem (pages t') (p_pagetable t p) (byte_at addr i) = umem (pages ?u) (p_pagetable t p) (byte_at addr i)"
      using tk p ne unfolding u by blast
    then show ?thesis using st(3) [OF p] unfolding u by simp
  qed
  have "umem (pages t') (p_pagetable t p) (byte_at addr (i + int k)) = Some ((?b # bs) ! k)" if "k < length (?b # bs)" for k
  proof (cases k)
    case 0
    then show ?thesis using first by simp
  next
    case (Suc m)
    then have "umem (pages t') (p_pagetable t p) (byte_at addr (i + 1 + int m)) = Some (bs ! m)" using tk that by simp
    then show ?thesis by (simp add: Suc algebra_simps)
  qed
  moreover have "umem (pages t') (p_pagetable t q) a = umem (pages t) (p_pagetable t q) a"
    if "q < NPROC" "q \<noteq> p \<or> (\<forall>k<length (?b # bs). a \<noteq> byte_at addr (i + int k))" for q a
  proof -
    have "q \<noteq> p \<or> (\<forall>k<length bs. a \<noteq> byte_at addr (i + 1 + int k))" "\<not> (q = p \<and> a = byte_at addr i)"
      using that(2) by (force simp: algebra_simps)+
    then have "umem (pages t') (p_pagetable t q) a = umem (store_byte (p_pagetable t p) (byte_at addr i) ?b (pages t)) (p_pagetable t q) a"
      using tk that(1) by blast
    then show ?thesis using st(3) [OF that(1), of a] \<open>\<not> (q = p \<and> a = byte_at addr i)\<close> by auto
  qed
  moreover have "user_page (pages t') (p_pagetable t q) v = user_page (pages t) (p_pagetable t q) v" if "q < NPROC" for q v
    using tk that st(2) [OF that] by simp
  moreover have "content (pipes t pi) = (?b # bs) @ l @ content (pipes t' pi)" using pop(1) tk by simp
  moreover have "l \<noteq> [] \<longrightarrow> length l = 1 \<and> j < n \<and> \<not> user_page (pages t) (p_pagetable t p) (byte_at addr j div 4096)"
    using tk unfolding st(2) [OF p] by blast
  moreover have "pmoved t t'" using tk pmoved_trans [OF del(3)] by blast
  moreover have "j = i + int (length (?b # bs))" using j by simp
  ultimately show ?thesis unfolding took_def using tk e' by blast
qed

lemma piperead_copy_run:
  fixes t :: "'a kpipe_scheme"
  assumes "in_pipe h p pi t" "mem_apart pi (p_pagetable t) (pages t)" "0 \<le> i" "n < 2 ^ 31"
  shows "\<exists>bs l j u. took h p pi addr n i t bs l j (pwake h (At_pipe_nwrite pi) u) \<and> j \<le> max i n \<and> in_pipe h p pi u \<and>
     piperead_copy h p pi addr n i (held h (Pipe_lock pi) t) = Some (Done j, settle h (pwake h (At_pipe_nwrite pi) u))"
  using assms
proof (induction "nat (n - i)" arbitrary: i t)
  case 0
  then have "n \<le> i" by simp
  then have "piperead_copy h p pi addr n i (held h (Pipe_lock pi) t) = Some (Done i, settle h (pwake h (At_pipe_nwrite pi) t))"
    by (subst piperead_copy.simps) (simp add: pipe_sections_end [OF 0(2)])
  moreover have "took h p pi addr n i t [] [] i (pwake h (At_pipe_nwrite pi) t)"
    by (rule took_wake [OF 0(2,3)]) (use \<open>n \<le> i\<close> in simp)
  ultimately show ?case using 0(2) by (metis max.cobounded1)
next
  case (Suc m)
  then have i: "i < n" by simp
  have ok: "pipe_ok (pipes t pi)" and p: "p < NPROC" using Suc.prems(1) by (simp_all add: in_pipe_def)
  let ?ch = "pi_data (pipes t pi) ! (unat (nread (pipes t pi)) mod PIPESIZE)"
  show ?case
  proof (cases "fill (pipes t pi) = 0")
    case True
    then have "piperead_copy h p pi addr n i (held h (Pipe_lock pi) t) = Some (Done i, settle h (pwake h (At_pipe_nwrite pi) t))"
      using i by (subst piperead_copy.simps) (simp add: pipe_empty_iff pipe_sections_end [OF Suc.prems(1)])
    moreover have "took h p pi addr n i t [] [] i (pwake h (At_pipe_nwrite pi) t)"
      by (rule took_wake [OF Suc.prems(1,2)]) (use True in \<open>simp add: content_def\<close>)
    ultimately show ?thesis using Suc.prems(1) i by (meson max.cobounded1)
  next
    case False
    then have f: "0 < fill (pipes t pi)" and ne: "nread (pipes t pi) \<noteq> nwrite (pipes t pi)" by (simp_all add: pipe_empty_iff)
    note pop = pop_content [OF ok f]
    let ?u = "upd_pipe pi pipe_pop t"
    have get: "aget (pi_data (pipes t pi)) (unat (nread (pipes t pi)) mod PIPESIZE) = Some ?ch"
      using ok by (simp add: aget_def pipe_ok_def PIPESIZE_def)
    have pp: "(\<lambda>q. q\<lparr>nread := nread q + 1\<rparr>) = pipe_pop" by (simp add: pipe_pop_def fun_eq_iff)
    have "user_ok (pages t) (p_pagetable t p)" using Suc.prems(2) p by (simp add: mem_apart_def)
    then have uo: "user_ok (pages (held h (Pipe_lock pi) ?u)) (p_pagetable t p)" by (simp add: upd_pipe_def)
    have ug: "pages (held h (Pipe_lock pi) ?u) = pages t" "p_pagetable ?u = p_pagetable t" "pages ?u = pages t"
      by (simp_all add: upd_pipe_def)
    note co = copyout_byte [OF uo, where va = "addr + word_of_int i" and x = ?ch and h = h, folded byte_at_def, unfolded ug]
    have step: "piperead_copy h p pi addr n i (held h (Pipe_lock pi) t) = do {
          (r, s) \<leftarrow> copyout h (p_pagetable t p) (addr + word_of_int i) [?ch] 0 1 (held h (Pipe_lock pi) ?u);
          if r = -1 then piperead_end h pi i s else piperead_copy h p pi addr n (i + 1) s }"
      using i ne get by (subst piperead_copy.simps) (simp add: pp ug aget_def)
    show ?thesis
    proof (cases "user_page (pages t) (p_pagetable t p) (byte_at addr i div 4096)")
      case False
      have u: "in_pipe h p pi ?u"
        by (rule in_pipe_moved [OF Suc.prems(1)]) (simp_all add: pmoved_def upd_pipe_def pop)
      have "piperead_copy h p pi addr n i (held h (Pipe_lock pi) t) = Some (Done i, settle h (pwake h (At_pipe_nwrite pi) ?u))"
        using co(1) False pipe_sections_end(2) [OF u] by (simp add: step)
      then show ?thesis using took_lost [OF Suc.prems(1,2) f i False] u i by (meson max.cobounded1)
    next
      case True
      let ?v = "deliver p pi (byte_at addr i) t"
      note del = deliver_ok [OF Suc.prems(1,2) f True]
      have v: "set_page (PTE2PA (pmap (pages t) (p_pagetable t p) (byte_at addr i div 4096)))
          (put (pages t (PTE2PA (pmap (pages t) (p_pagetable t p) (byte_at addr i div 4096)))) (byte_at addr i mod 4096) [?ch])
          (held h (Pipe_lock pi) ?u) = held h (Pipe_lock pi) ?v"
        by (simp add: set_page_def deliver_def store_byte_def upd_pipe_def held_def)
      have "piperead_copy h p pi addr n i (held h (Pipe_lock pi) t) = piperead_copy h p pi addr n (i + 1) (held h (Pipe_lock pi) ?v)"
        using co(2) [OF True] unfolding v by (simp add: step)
      moreover have "mem_apart pi (p_pagetable ?v) (pages ?v)" using del(2) by (simp add: deliver_def upd_pipe_def)
      moreover have "m = nat (n - (i + 1))" "0 \<le> i + 1" "max (i + 1) n = n" using Suc.hyps(2) Suc.prems(3) i by simp_all
      ultimately obtain bs l j u where IH: "took h p pi addr n (i + 1) ?v bs l j (pwake h (At_pipe_nwrite pi) u)" "j \<le> n" "in_pipe h p pi u"
          "piperead_copy h p pi addr n i (held h (Pipe_lock pi) t) = Some (Done j, settle h (pwake h (At_pipe_nwrite pi) u))"
        using Suc.hyps(1) [of "i + 1" ?v] del(1) Suc.prems(4) by auto
      from took_more [OF Suc.prems(1,2) f Suc.prems(3,4) i True IH(1,2)] IH(2-4) i show ?thesis
        by (metis less_imp_le max.absorb2)
    qed
  qed
qed

text \<open>The whole section of a reader.\<close>

lemma piperead_loop_run:
  fixes t :: "'a kpipe_scheme"
  assumes "in_pipe h p pi t" "mem_apart pi (p_pagetable t) (pages t)" "n < 2 ^ 31"
  shows "fill (pipes t pi) = 0 \<Longrightarrow> writeopen (pipes t pi) \<noteq> 0 \<Longrightarrow> p_killed (procs t ! p) \<noteq> 0 \<Longrightarrow>
      piperead_loop h p pi addr n (held h (Pipe_lock pi) t) = Some (Done (-1), settle h t)"
    "fill (pipes t pi) = 0 \<Longrightarrow> writeopen (pipes t pi) \<noteq> 0 \<Longrightarrow> p_killed (procs t ! p) = 0 \<Longrightarrow>
      \<exists>s1. piperead_loop h p pi addr n (held h (Pipe_lock pi) t) = Some (Asleep p 0, s1) \<and>
        sleep_begin h (Some (At_pipe_nread pi)) (Pipe_lock pi) (held h (Pipe_lock pi) t) = Some (p, s1)"
    "\<not> (fill (pipes t pi) = 0 \<and> writeopen (pipes t pi) \<noteq> 0) \<Longrightarrow>
      \<exists>bs l j t'. took h p pi addr n 0 t bs l j t' \<and> awake (At_pipe_nwrite pi) t' \<and>
        piperead_loop h p pi addr n (held h (Pipe_lock pi) t) = Some (Done j, settle h t')"
proof -
  have t: "at_rest t" "cproc (cpus t h) = Some p" "p < NPROC" using assms(1) by (simp_all add: in_pipe_def)
  note sec = pwake_section [OF assms(1)]
  show "fill (pipes t pi) = 0 \<Longrightarrow> writeopen (pipes t pi) \<noteq> 0 \<Longrightarrow> p_killed (procs t ! p) \<noteq> 0 \<Longrightarrow>
      piperead_loop h p pi addr n (held h (Pipe_lock pi) t) = Some (Done (-1), settle h t)"
    by (simp add: piperead_loop_def pipe_empty_iff sec)
  show "\<exists>s1. piperead_loop h p pi addr n (held h (Pipe_lock pi) t) = Some (Asleep p 0, s1) \<and>
        sleep_begin h (Some (At_pipe_nread pi)) (Pipe_lock pi) (held h (Pipe_lock pi) t) = Some (p, s1)"
    if "fill (pipes t pi) = 0" "writeopen (pipes t pi) \<noteq> 0" "p_killed (procs t ! p) = 0"
  proof -
    obtain s1 where "sleep_begin h (Some (At_pipe_nread pi)) (Pipe_lock pi) (held h (Pipe_lock pi) t) = Some (p, s1)"
      using sleep_run [OF t, of "Pipe_lock pi" "Some (At_pipe_nread pi)"] by auto
    then show ?thesis using that by (simp add: piperead_loop_def pipe_empty_iff sec)
  qed
  assume "\<not> (fill (pipes t pi) = 0 \<and> writeopen (pipes t pi) \<noteq> 0)"
  then have "piperead_loop h p pi addr n (held h (Pipe_lock pi) t) = piperead_copy h p pi addr n 0 (held h (Pipe_lock pi) t)"
    by (auto simp: piperead_loop_def pipe_empty_iff)
  moreover have "awake (At_pipe_nwrite pi) (pwake h (At_pipe_nwrite pi) u)" if "in_pipe h p pi u" for u :: "'a kpipe_scheme"
    using pwake_moved(2) [OF that] by (simp add: awake_def)
  ultimately show "\<exists>bs l j t'. took h p pi addr n 0 t bs l j t' \<and> awake (At_pipe_nwrite pi) t' \<and>
        piperead_loop h p pi addr n (held h (Pipe_lock pi) t) = Some (Done j, settle h t')"
    using piperead_copy_run [OF assms(1,2) order_refl assms(3), of addr] by metis
qed

section \<open>Processes that share a pipe\<close>

text \<open>Where a process is: outside of the pipe, or asleep (or just woken) in \<open>pipewrite\<close> or \<open>piperead\<close>, with its arguments.\<close>

datatype pipepc = Idle | Write_in u64 u32 int | Read_in u64 u32

record pipe_sys = kpipe +
  ppc :: "nat \<Rightarrow> pipepc"

definition set_ppc :: "nat \<Rightarrow> pipepc \<Rightarrow> 'a pipe_sys_scheme \<Rightarrow> 'a pipe_sys_scheme" where
  "set_ppc p c s = s\<lparr>ppc := (ppc s)(p := c)\<rparr>"

text \<open>
  What a step moves: bytes of a writer into the pipe, as they stand in the writer's memory - \<open>Cut\<close> when the call then ends with -1 -
  or bytes out of the pipe, as they stand in the reader's memory behind the step, and the number of bytes that left the pipe otherwise.
\<close>

datatype pipe_event = Still | Put "u8 list" | Cut "u8 list" | Take "u8 list" nat

definition put_event :: "u8 list \<Rightarrow> int \<Rightarrow> pipe_event" where
  "put_event bs r = (if r = -1 \<and> bs \<noteq> [] then Cut bs else Put bs)"

definition take_event :: "u64 \<Rightarrow> nat \<Rightarrow> u64 \<Rightarrow> int \<Rightarrow> 'a kpipe_scheme \<Rightarrow> 'a kpipe_scheme \<Rightarrow> pipe_event" where
  "take_event pi p addr r s s' =
     Take (map (\<lambda>k. the (umem (pages s') (p_pagetable s p) (byte_at addr (int k)))) [0..<nat r])
       (fill (pipes s pi) - fill (pipes s' pi) - nat r)"

text \<open>
  The steps on the pipe \<open>pi\<close>. A process writes or reads as long as that end is open, which the file table sees to. A critical
  section is one step; a writer may be killed inside of it. In between a process stores bytes of its own, is preempted, woken or killed.
\<close>

inductive pipe_step :: "u64 \<Rightarrow> pipe_event \<Rightarrow> 'a pipe_sys_scheme \<Rightarrow> 'a pipe_sys_scheme \<Rightarrow> bool" for pi where
  write_now: "ctl s h = Executing p \<Longrightarrow> ppc s p = Idle \<Longrightarrow> writeopen (pipes s pi) \<noteq> 0 \<Longrightarrow> pipe_enter h pi s = Some (q, s0) \<Longrightarrow>
    writes h q pi addr (sint (n :: u32)) 0 s0 bs (Done r) s' \<Longrightarrow> pipe_step pi (put_event bs r) s s'"
| write_wait: "ctl s h = Executing p \<Longrightarrow> ppc s p = Idle \<Longrightarrow> writeopen (pipes s pi) \<noteq> 0 \<Longrightarrow> pipe_enter h pi s = Some (q, s0) \<Longrightarrow>
    writes h q pi addr (sint n) 0 s0 bs (Asleep q' i) s1 \<Longrightarrow> scheduler_back h q' s1 = Some s2 \<Longrightarrow>
    pipe_step pi (Put bs) s (set_ppc p (Write_in addr n i) (goto h (Scanning (Suc p)) s2))"
| write_again: "ctl s h = Scanning j \<Longrightarrow> j < NPROC \<Longrightarrow> ppc s j = Write_in addr n i \<Longrightarrow> scheduler_try h j s = Some (True, s1) \<Longrightarrow>
    p_context (procs s ! j) = In_sleep (Pipe_lock pi) b \<Longrightarrow> sleep_end h j (Pipe_lock pi) b s1 = Some s2 \<Longrightarrow>
    writes h j pi addr (sint n) i s2 bs (Done r) s3 \<Longrightarrow> pipe_step pi (put_event bs r) s (set_ppc j Idle (goto h (Executing j) s3))"
| write_again_wait: "ctl s h = Scanning j \<Longrightarrow> j < NPROC \<Longrightarrow> ppc s j = Write_in addr n i \<Longrightarrow> scheduler_try h j s = Some (True, s1) \<Longrightarrow>
    p_context (procs s ! j) = In_sleep (Pipe_lock pi) b \<Longrightarrow> sleep_end h j (Pipe_lock pi) b s1 = Some s2 \<Longrightarrow>
    writes h j pi addr (sint n) i s2 bs (Asleep q k) s3 \<Longrightarrow> scheduler_back h q s3 = Some s4 \<Longrightarrow>
    pipe_step pi (Put bs) s (set_ppc j (Write_in addr n k) (goto h (Scanning (Suc j)) s4))"
| read_now: "ctl s h = Executing p \<Longrightarrow> ppc s p = Idle \<Longrightarrow> readopen (pipes s pi) \<noteq> 0 \<Longrightarrow> pipe_enter h pi s = Some (q, s0) \<Longrightarrow>
    piperead_loop h q pi addr (sint (n :: u32)) s0 = Some (Done r, s') \<Longrightarrow> pipe_step pi (take_event pi p addr r s s') s s'"
| read_wait: "ctl s h = Executing p \<Longrightarrow> ppc s p = Idle \<Longrightarrow> readopen (pipes s pi) \<noteq> 0 \<Longrightarrow> pipe_enter h pi s = Some (q, s0) \<Longrightarrow>
    piperead_loop h q pi addr (sint n) s0 = Some (Asleep q' i, s1) \<Longrightarrow> scheduler_back h q' s1 = Some s2 \<Longrightarrow>
    pipe_step pi Still s (set_ppc p (Read_in addr n) (goto h (Scanning (Suc p)) s2))"
| read_again: "ctl s h = Scanning j \<Longrightarrow> j < NPROC \<Longrightarrow> ppc s j = Read_in addr n \<Longrightarrow> scheduler_try h j s = Some (True, s1) \<Longrightarrow>
    p_context (procs s ! j) = In_sleep (Pipe_lock pi) b \<Longrightarrow> sleep_end h j (Pipe_lock pi) b s1 = Some s2 \<Longrightarrow>
    piperead_loop h j pi addr (sint n) s2 = Some (Done r, s3) \<Longrightarrow>
    pipe_step pi (take_event pi j addr r s s3) s (set_ppc j Idle (goto h (Executing j) s3))"
| read_again_wait: "ctl s h = Scanning j \<Longrightarrow> j < NPROC \<Longrightarrow> ppc s j = Read_in addr n \<Longrightarrow> scheduler_try h j s = Some (True, s1) \<Longrightarrow>
    p_context (procs s ! j) = In_sleep (Pipe_lock pi) b \<Longrightarrow> sleep_end h j (Pipe_lock pi) b s1 = Some s2 \<Longrightarrow>
    piperead_loop h j pi addr (sint n) s2 = Some (Asleep q i, s3) \<Longrightarrow> scheduler_back h q s3 = Some s4 \<Longrightarrow>
    pipe_step pi Still s (goto h (Scanning (Suc j)) s4)"
| close: "ctl s h = Executing p \<Longrightarrow> ppc s p = Idle \<Longrightarrow> (if w then writeopen (pipes s pi) \<noteq> 0 else readopen (pipes s pi) \<noteq> 0) \<Longrightarrow>
    pipeclose h pi w s = Some s' \<Longrightarrow> pipe_step pi Still s s'"
| store: "ctl s h = Executing p \<Longrightarrow> ppc s p = Idle \<Longrightarrow> user_page (pages s) (p_pagetable s p) (a div 4096) \<Longrightarrow>
    pipe_step pi Still s (s\<lparr>pages := store_byte (p_pagetable s p) a x (pages s)\<rparr>)"
| preempted: "ctl s h = Executing p \<Longrightarrow> yield_begin h s = Some (q, s1) \<Longrightarrow> scheduler_back h q s1 = Some s2 \<Longrightarrow>
    pipe_step pi Still s (goto h (Scanning (Suc p)) s2)"
| outside: "proc_step h ev s s' \<Longrightarrow> ev \<noteq> Leave \<Longrightarrow> (\<And>j. ev = Pick \<Longrightarrow> ctl s h = Scanning j \<Longrightarrow> ppc s j = Idle) \<Longrightarrow>
    pipe_step pi Still s s'"

inductive pipe_run :: "u64 \<Rightarrow> 'a pipe_sys_scheme \<Rightarrow> pipe_event list \<Rightarrow> 'a pipe_sys_scheme \<Rightarrow> bool" for pi where
  pipe_run_nil: "pipe_run pi s [] s"
| pipe_run_step: "pipe_run pi s evs s1 \<Longrightarrow> pipe_step pi e s1 s2 \<Longrightarrow> pipe_run pi s (evs @ [e]) s2"

section \<open>The invariant of the pipe\<close>

text \<open>A sleeping writer has found the pipe full, a sleeping reader empty; the other end is open.\<close>

definition pipe_inv :: "u64 \<Rightarrow> 'a kpipe_scheme \<Rightarrow> bool" where
  "pipe_inv pi s \<longleftrightarrow> sys_inv s \<and> pipe_ok (pipes s pi) \<and> mem_apart pi (p_pagetable s) (pages s) \<and>
     (\<forall>p<NPROC. asleep_on (At_pipe_nwrite pi) s p \<longrightarrow> fill (pipes s pi) = PIPESIZE \<and> readopen (pipes s pi) \<noteq> 0)"

definition readers_ok :: "u64 \<Rightarrow> 'a kpipe_scheme \<Rightarrow> bool" where
  "readers_ok pi s \<longleftrightarrow> (\<forall>p<NPROC. asleep_on (At_pipe_nread pi) s p \<longrightarrow> fill (pipes s pi) = 0 \<and> writeopen (pipes s pi) \<noteq> 0)"

definition moved :: "pipe_event \<Rightarrow> u8 list \<Rightarrow> u8 list \<Rightarrow> bool" where
  "moved e c c' \<longleftrightarrow> (case e of Still \<Rightarrow> c' = c | Put bs \<Rightarrow> c' = c @ bs | Cut bs \<Rightarrow> c' = c @ bs
     | Take bs l \<Rightarrow> (\<exists>xs. c = xs @ c' \<and> length xs = length bs + l \<and> subseq bs xs))"

definition pipe_step_ok :: "u64 \<Rightarrow> pipe_event \<Rightarrow> 'a kpipe_scheme \<Rightarrow> 'a kpipe_scheme \<Rightarrow> bool" where
  "pipe_step_ok pi e s s' \<longleftrightarrow> pipe_inv pi s' \<and> moved e (content (pipes s pi)) (content (pipes s' pi)) \<and>
     (readers_ok pi s \<and> (\<forall>bs. e \<noteq> Cut bs) \<longrightarrow> readers_ok pi s')"

lemma kpipe_frame:
  fixes s s' :: "'a kpipe_scheme"
  assumes "kframe h s s'"
  shows "pipes s' = pipes s" "p_pagetable s' = p_pagetable s" "ctl s' = ctl s" "pages s' = pages s" "kpipe.more s' = kpipe.more s"
  using assms by (cases s; cases s'; simp add: kframe_def)+

lemma goto_kpipe [simp]:
  fixes s :: "'a kpipe_scheme"
  shows "pipes (goto h c s) = pipes s" "p_pagetable (goto h c s) = p_pagetable s" "pages (goto h c s) = pages s"
    "procs (goto h c s) = procs s" "cpus (goto h c s) = cpus s" "locks (goto h c s) = locks s"
    "asleep_on a (goto h c s) p = asleep_on a s p"
  by (simp_all add: goto_def asleep_on_def)

lemma settle_asleep [simp]: "asleep_on a (settle h s) p = asleep_on a s p"
  by (simp add: asleep_on_def)

text \<open>A section starts: the state without the lock, with the process executing on the hart.\<close>

definition pstart :: "nat \<Rightarrow> nat \<Rightarrow> u64 \<Rightarrow> 'a kpipe_scheme \<Rightarrow> 'a kpipe_scheme \<Rightarrow> bool" where
  "pstart h p pi s t \<longleftrightarrow> sys_inv (goto h (Executing p) t) \<and> in_pipe h p pi t \<and> pipes t = pipes s \<and> pages t = pages s \<and>
     p_pagetable t = p_pagetable s \<and> kpipe.more t = kpipe.more s \<and> ctl t = ctl s \<and>
     (\<forall>q<NPROC. \<forall>c. asleep_on c t q \<longrightarrow> asleep_on c s q)"

lemma pipe_inv_simps:
  assumes "pipe_inv pi s"
  shows "sys_inv s" "at_rest s" "pipe_ok (pipes s pi)" "mem_apart pi (p_pagetable s) (pages s)" "length (procs s) = NPROC"
  using assms sys_inv_simps(1,4) [of s] by (auto simp: pipe_inv_def)

lemma start_enter:
  fixes s :: "'a kpipe_scheme"
  assumes "pipe_inv pi s" "ctl s h = Executing p" "pipe_enter h pi s = Some (q, s0)"
  shows "q = p" "s0 = held h (Pipe_lock pi) (settle h s)" "pstart h p pi s (settle h s)"
proof -
  note inv = pipe_inv_simps [OF assms(1)]
  note p = sys_inv_simps(6) [OF inv(1) assms(2)]
  have r: "hart_ok h s" "free_lock (Pipe_lock pi) (settle h s)" using inv(2) by (simp_all add: at_rest_def hart_ok_def free_lock_def)
  show "q = p" "s0 = held h (Pipe_lock pi) (settle h s)"
    using assms(3) myproc_ok [OF r(1)] p acquire_free [OF r(2), of h] by (simp_all add: pipe_enter_def)
  have "p_state (procs s ! p) = RUNNING" using sys_inv_simps(3) [OF inv(1), of p] p assms(2) by (auto simp: proc_ok_def)
  moreover have "at_rest (settle h s)" using inv(2) by (simp add: at_rest_def free_lock_def)
  moreover have "sys_inv (goto h (Executing p) (settle h s))"
  proof -
    have "goto h (Executing p) (settle h s) = settle h s" using assms(2) by (auto simp: goto_def fun_upd_idem)
    moreover have "sys_inv (settle h s)" by (rule inv_procs [OF inv(1)]) (use inv(5) in simp_all)
    ultimately show ?thesis by simp
  qed
  ultimately show "pstart h p pi s (settle h s)" using inv(3) p by (simp add: pstart_def in_pipe_def)
qed

lemma start_again:
  fixes s :: "'a kpipe_scheme"
  assumes "pipe_inv pi s" "ctl s h = Scanning j" "j < NPROC" "scheduler_try h j s = Some (True, s1)"
    "sleep_end h j (Pipe_lock pi) b s1 = Some s2"
  shows "\<exists>t. s2 = held h (Pipe_lock pi) t \<and> pstart h j pi s t"
proof -
  note inv = pipe_inv_simps [OF assms(1)]
  obtain t where t: "sleep_end h j (Pipe_lock pi) b s1 = Some (held h (Pipe_lock pi) t)" "kframe h s t" "cproc (cpus t h) = Some j"
    "procs t = (procs s)[j := (procs s ! j)\<lparr>p_state := RUNNING, ch_counter := ch_counter (procs s ! j) + 1, p_chan := None\<rparr>]"
    using resume_run(2) [OF inv(2) assms(3,4), of "Pipe_lock pi" b] by blast
  note more = kpipe_frame [OF t(2)]
  have "sys_inv (goto h (Executing j) t)"
    by (rule inv_enter [OF inv(1) assms(2,3) t(2) _ t(4,3)]) (use more try_True [OF inv(1) assms(3,4)] in simp_all)
  moreover have "in_pipe h j pi t"
    using kframe_rest [OF t(2) inv(2)] t(3,4) assms(3) inv(3,5) more by (simp add: in_pipe_def)
  moreover have "asleep_on c s q" if "asleep_on c t q" for c q
    using that t(4) assms(3) inv(5) by (cases "q = j") (simp_all add: asleep_on_def)
  ultimately show ?thesis using t(1) assms(5) more by (intro exI [of _ t]) (simp add: pstart_def)
qed

text \<open>A section ends, with a return or with the switch to the scheduler.\<close>

lemma end_done:
  fixes t t' :: "'a kpipe_scheme"
  assumes "pstart h p pi s t" "pmoved t t'"
  shows "sys_inv (goto h (Executing p) (settle h t'))"
proof (rule inv_procs)
  show "sys_inv (goto h (Executing p) t)" using assms(1) by (simp add: pstart_def)
  show "length (procs (goto h (Executing p) (settle h t'))) = NPROC"
    using assms by (simp add: pstart_def in_pipe_def at_rest_def pmoved_def)
qed (use assms(2) in \<open>auto simp: pmoved_def nudged_def goto_def settle_def settle_cpu_def\<close>)

lemma end_sleep:
  fixes t t' :: "'a kpipe_scheme"
  assumes "pstart h p pi s t" "pmoved t t'" "in_pipe h p pi t'" "scheduler_back h p s1 = Some s2"
    "sleep_begin h (Some c) (Pipe_lock pi) (held h (Pipe_lock pi) t') = Some (p, s1)"
  shows "sys_inv (goto h (Scanning (Suc p)) s2)" "pipes s2 = pipes t'" "p_pagetable s2 = p_pagetable t'" "pages s2 = pages t'"
    "asleep_on a s2 q \<longleftrightarrow> (if q = p then a = c else asleep_on a t' q)" "ctl s2 = ctl t'" "kpipe.more s2 = kpipe.more t'"
proof -
  note t = assms(3) [unfolded in_pipe_def]
  obtain b where u: "kframe h t' s2" "cproc (cpus s2 h) = None"
    "procs s2 = (procs t')[p := (procs t' ! p)\<lparr>p_chan := Some c, p_state := SLEEPING, last_executed := ticks t', p_context := In_sleep (Pipe_lock pi) b\<rparr>]"
    using sleep_run [of t' h p "Pipe_lock pi" "Some c"] t assms(4,5) by auto
  note more = kpipe_frame [OF u(1)]
  show "pipes s2 = pipes t'" "p_pagetable s2 = p_pagetable t'" "pages s2 = pages t'" "ctl s2 = ctl t'" "kpipe.more s2 = kpipe.more t'"
    by (rule more)+
  have len: "length (procs t') = NPROC" using t by (simp add: at_rest_def)
  show "asleep_on a s2 q \<longleftrightarrow> (if q = p then a = c else asleep_on a t' q)"
    using u(3) t len by (auto simp: asleep_on_def)
  let ?e = "goto h (Executing p) t'" and ?u = "s2\<lparr>ctl := (ctl s2)(h := Executing p)\<rparr>"
  have "sys_inv ?e"
    by (rule inv_procs [of "goto h (Executing p) t"])
      (use assms(1,2) len in \<open>auto simp: pstart_def pmoved_def nudged_def goto_def\<close>)
  moreover have "ctl ?e h = Executing p" by (simp add: goto_def)
  moreover have "kframe h ?e ?u" using u(1) by (cases s2; cases t') (simp add: kframe_def goto_def)
  ultimately have "sys_inv (goto h (Scanning (Suc p)) ?u)"
    using inv_leave [of ?e h p ?u "(procs t' ! p)\<lparr>p_chan := Some c, p_state := SLEEPING, last_executed := ticks t', p_context := In_sleep (Pipe_lock pi) b\<rparr>"]
      u more(3) by (simp add: goto_def resumable_def)
  then show "sys_inv (goto h (Scanning (Suc p)) s2)" by (simp add: goto_def)
qed

lemma section_write:
  fixes s t s' :: "'a kpipe_scheme"
  assumes "pipe_inv pi s" "pstart h p pi s t" "writes h p pi addr n i (held h (Pipe_lock pi) t) bs r s'"
  shows "r = Done k \<Longrightarrow> pipe_step_ok pi (put_event bs k) s (goto h (Executing p) s') \<and> ctl s' = ctl s"
    "r = Asleep q k \<Longrightarrow> scheduler_back h q s' = Some s2 \<Longrightarrow> pipe_step_ok pi (Put bs) s (goto h (Scanning (Suc p)) s2)"
proof -
  note inv = pipe_inv_simps [OF assms(1)]
  note st = assms(2) [unfolded pstart_def]
  have t: "in_pipe h p pi t" "p < NPROC" using st by (blast, simp add: in_pipe_def)
  have "user_ok (pages t) (p_pagetable t p)" using inv(4) st t(2) by (simp add: mem_apart_def)
  from writes_run [OF assms(3) refl t(1) this] obtain t' where w: "wrote h p pi i t bs r t' s'" by blast
  note wr = w [unfolded wrote_def]
  have mv: "pmoved t t'" and in': "in_pipe h p pi t'" using wr by blast+
  have c: "content (pipes t' pi) = content (pipes s pi) @ bs" using wr st by simp
  have ok': "pipe_ok (pipes t' pi)" using in' by (simp add: in_pipe_def)
  have f: "fill (pipes t' pi) = fill (pipes s pi) + length bs" using arg_cong [OF c, of length] by simp
  have op: "readopen (pipes t' pi) = readopen (pipes s pi)" "writeopen (pipes t' pi) = writeopen (pipes s pi)" using wr st by simp_all
  have asl: "asleep_on a s q" if "q < NPROC" "asleep_on a t' q" for a q
    using asleep_moved [OF mv that(1,2)] st that(1) by blast
  have e: "t' = t\<lparr>procs := procs t', pipes := (pipes t)(pi := pipes t' pi)\<rparr>" using wr by blast
  have pg: "pages t' = pages t" "p_pagetable t' = p_pagetable t" "ctl t' = ctl t" by (subst e, simp)+
  have mem: "mem_apart pi (p_pagetable t') (pages t')" using inv(4) st pg by simp
  have sleepers: "fill (pipes t' pi) = PIPESIZE \<and> readopen (pipes t' pi) \<noteq> 0" if "q < NPROC" "asleep_on (At_pipe_nwrite pi) t' q" for q
    using assms(1) asl [OF that] that(1) ok' f op by (simp add: pipe_inv_def pipe_ok_def)
  show "pipe_step_ok pi (put_event bs k) s (goto h (Executing p) s') \<and> ctl s' = ctl s" if r: "r = Done k"
  proof -
    have s': "s' = settle h t'" using wr r by auto
    have "pipe_inv pi (goto h (Executing p) s')"
      using end_done [OF assms(2) mv] mem ok' sleepers by (simp add: pipe_inv_def s')
    moreover have "readers_ok pi (goto h (Executing p) s')" if "readers_ok pi s" "\<forall>bs'. put_event bs k \<noteq> Cut bs'"
    proof -
      have "k = -1 \<Longrightarrow> bs = []" using that(2) by (auto simp: put_event_def split: if_splits)
      then consider "awake (At_pipe_nread pi) t'" | "bs = []" using wr r by blast
      then show ?thesis
      proof cases
        case 2
        then show ?thesis using that(1) asl f op by (simp add: readers_ok_def s')
      qed (simp add: readers_ok_def s' awake_def)
    qed
    moreover have "moved (put_event bs k) (content (pipes s pi)) (content (pipes (goto h (Executing p) s') pi))"
      using c by (simp add: moved_def put_event_def s')
    ultimately show ?thesis using pg(3) st unfolding pipe_step_ok_def by (simp add: s')
  qed
  show "pipe_step_ok pi (Put bs) s (goto h (Scanning (Suc p)) s2)" if r: "r = Asleep q k" and b: "scheduler_back h q s' = Some s2"
  proof -
    have q: "q = p" "awake (At_pipe_nread pi) t'" "fill (pipes t' pi) = PIPESIZE" "readopen (pipes t' pi) \<noteq> 0"
      "sleep_begin h (Some (At_pipe_nwrite pi)) (Pipe_lock pi) (held h (Pipe_lock pi) t') = Some (p, s')"
      using wr r by auto
    note e = end_sleep [OF assms(2) mv in' b [unfolded q(1)] q(5)]
    have "pipe_inv pi (goto h (Scanning (Suc p)) s2)"
      using e(1-5) mem ok' q(3,4) by (simp add: pipe_inv_def)
    moreover have "readers_ok pi (goto h (Scanning (Suc p)) s2)"
      using e(5) q(2) by (simp add: readers_ok_def awake_def)
    ultimately show ?thesis using c e(2) by (simp add: pipe_step_ok_def moved_def)
  qed
qed

lemma section_read:
  fixes s t s' :: "'a kpipe_scheme"
  assumes "pipe_inv pi s" "pstart h p pi s t" "n < 2 ^ 31"
    "piperead_loop h p pi addr n (held h (Pipe_lock pi) t) = Some (r, s')"
  shows "r = Done k \<Longrightarrow> pipe_step_ok pi (take_event pi p addr k s s') s (goto h (Executing p) s') \<and> ctl s' = ctl s"
    "r = Asleep q k \<Longrightarrow> scheduler_back h q s' = Some s2 \<Longrightarrow> pipe_step_ok pi Still s (goto h (Scanning (Suc p)) s2)"
proof -
  note inv = pipe_inv_simps [OF assms(1)]
  note st = assms(2) [unfolded pstart_def]
  have t: "in_pipe h p pi t" "p < NPROC" "mem_apart pi (p_pagetable t) (pages t)" using st inv(4) by (blast, simp_all add: in_pipe_def)
  note run = piperead_loop_run [OF t(1,3) assms(3), of addr]
  have pt: "pipes t = pipes s" "pages t = pages s" "p_pagetable t = p_pagetable s" using st by simp_all
  have asl: "asleep_on a s q" if "q < NPROC" "asleep_on a t q" for a q using st that by blast
  consider (killed) "fill (pipes t pi) = 0" "writeopen (pipes t pi) \<noteq> 0" "p_killed (procs t ! p) \<noteq> 0"
    | (sleep) "fill (pipes t pi) = 0" "writeopen (pipes t pi) \<noteq> 0" "p_killed (procs t ! p) = 0"
    | (copy) "\<not> (fill (pipes t pi) = 0 \<and> writeopen (pipes t pi) \<noteq> 0)" by linarith
  then have "(r = Done k \<longrightarrow> pipe_step_ok pi (take_event pi p addr k s s') s (goto h (Executing p) s') \<and> ctl s' = ctl s) \<and>
    (r = Asleep q k \<longrightarrow> scheduler_back h q s' = Some s2 \<longrightarrow> pipe_step_ok pi Still s (goto h (Scanning (Suc p)) s2))"
  proof cases
    case killed
    then have s': "r = Done (-1)" "s' = settle h t" using run(1) assms(4) by simp_all
    have "pipe_inv pi (goto h (Executing p) s')"
      using end_done [OF assms(2) pmoved_refl] assms(1) asl by (simp add: pipe_inv_def s' pt)
    then show ?thesis
      using st asl by (auto simp: pipe_step_ok_def s' take_event_def moved_def pt readers_ok_def)
  next
    case sleep
    then have s': "r = Asleep p 0" "sleep_begin h (Some (At_pipe_nread pi)) (Pipe_lock pi) (held h (Pipe_lock pi) t) = Some (p, s')"
      using run(2) assms(4) by auto
    have "pipe_step_ok pi Still s (goto h (Scanning (Suc p)) s2)" if b: "scheduler_back h p s' = Some s2"
    proof -
      note e = end_sleep [OF assms(2) pmoved_refl t(1) b s'(2)]
      have "pipe_inv pi (goto h (Scanning (Suc p)) s2)"
        using e(1-5) assms(1) asl by (simp add: pipe_inv_def pt)
      moreover have "readers_ok pi s \<Longrightarrow> readers_ok pi (goto h (Scanning (Suc p)) s2)"
        using e(2,5) asl sleep by (simp add: readers_ok_def pt)
      ultimately show ?thesis using e(2) by (simp add: pipe_step_ok_def moved_def pt)
    qed
    then show ?thesis using s'(1) by auto
  next
    case copy
    obtain bs l j t' where tk: "took h p pi addr n 0 t bs l j t'" "awake (At_pipe_nwrite pi) t'" "r = Done j" "s' = settle h t'"
      using run(3) [OF copy] assms(4) by auto
    note tr = tk(1) [unfolded took_def]
    have mv: "pmoved t t'" and j: "j = int (length bs)" and c: "content (pipes t pi) = bs @ l @ content (pipes t' pi)"
      and ok': "pipe_ok (pipes t' pi)" and mem: "mem_apart pi (p_pagetable t) (pages t')"
      using tr by (auto simp: in_pipe_def)
    have pg: "p_pagetable t' = p_pagetable t" "ctl t' = ctl t" using mv by (simp_all add: pmoved_def)
    have f: "fill (pipes s pi) = length bs + length l + fill (pipes t' pi)" using arg_cong [OF c, of length] by (simp add: pt)
    have "pipe_inv pi (goto h (Executing p) s')"
      using end_done [OF assms(2) mv] mem ok' tk(2) by (simp add: pipe_inv_def tk(4) pg awake_def)
    moreover have "readers_ok pi (goto h (Executing p) s')" if "readers_ok pi s"
    proof -
      have "fill (pipes t' pi) = 0 \<and> writeopen (pipes t' pi) \<noteq> 0" if a: "q < NPROC" "asleep_on (At_pipe_nread pi) t' q" for q
      proof -
        have "asleep_on (At_pipe_nread pi) s q" using asl [OF a(1)] asleep_moved [OF mv a] by blast
        then have "fill (pipes s pi) = 0 \<and> writeopen (pipes s pi) \<noteq> 0" using \<open>readers_ok pi s\<close> a(1) by (simp add: readers_ok_def)
        then show ?thesis using f tr by (simp add: pt)
      qed
      then show ?thesis by (simp add: readers_ok_def tk(4))
    qed
    moreover have "moved (take_event pi p addr k s s') (content (pipes s pi)) (content (pipes s' pi))" if "k = j"
    proof -
      have "map (\<lambda>k. the (umem (pages t') (p_pagetable s p) (byte_at addr (int k)))) [0..<length bs] = bs"
        by (rule nth_equalityI) (use tr in \<open>simp_all add: pt\<close>)
      then have "take_event pi p addr k s s' = Take bs (length l)"
        using f by (simp add: take_event_def that j tk(4))
      moreover have "content (pipes s pi) = (bs @ l) @ content (pipes s' pi)" using c by (simp add: pt tk(4))
      moreover have "subseq bs (bs @ l)" by (rule prefix_imp_subseq) simp
      ultimately show ?thesis unfolding moved_def by (auto intro!: exI [of _ "bs @ l"])
    qed
    ultimately show ?thesis using tk(3) pg(2) st by (auto simp: pipe_step_ok_def tk(4))
  qed
  then show "r = Done k \<Longrightarrow> pipe_step_ok pi (take_event pi p addr k s s') s (goto h (Executing p) s') \<and> ctl s' = ctl s"
    "r = Asleep q k \<Longrightarrow> scheduler_back h q s' = Some s2 \<Longrightarrow> pipe_step_ok pi Still s (goto h (Scanning (Suc p)) s2)"
    by blast+
qed

lemma kfree_page:
  fixes s :: "'a kheap_scheme"
  assumes "kfree h p s = Some s'" "free_lock Kmem_lock s" "hart_ok h s" "length (pages s p) = 4096"
  shows "\<exists>b fl. s' = (settle h s)\<lparr>pages := (pages s)(p := b), freelist := fl\<rparr> \<and> length b = 4096"
proof -
  let ?m = "put (pages s p) 0 (replicate (unat PGSIZE) 1)"
  have m: "memset (pages s p) 0 1 (unat PGSIZE) = Some ?m"
    using memset_put [of 0 "unat PGSIZE" "pages s p" 1] assms(4) by (simp add: PGSIZE_def)
  let ?s0 = "set_page p ?m s"
  have fr: "free_lock Kmem_lock ?s0" "hart_ok h ?s0"
    using assms(2,3) by (simp_all add: free_lock_def set_page_def hart_ok_def)
  have rel: "release h Kmem_lock ((set_page q b (held h Kmem_lock ?s0))\<lparr>freelist := r\<rparr>) =
      Some ((set_page q b (settle h ?s0))\<lparr>freelist := r\<rparr>)" for q b r
    using release_held [OF fr, of "(set_page q b (held h Kmem_lock ?s0))\<lparr>freelist := r\<rparr>"]
    by (simp add: held_def settle_def set_page_def)
  have "s' = (set_page p (put ?m 0 (le64_bytes (freelist s))) (settle h ?s0))\<lparr>freelist := p\<rparr>"
    using assms(1) m acquire_free [OF fr(1), of h] rel
    by (simp add: kfree_def Let_def split: if_splits) (simp add: set_page_def)
  then have "s' = (settle h s)\<lparr>pages := (pages s)(p := put ?m 0 (le64_bytes (freelist s))), freelist := p\<rparr>"
    by (simp add: set_page_def settle_def)
  moreover have "length (put ?m 0 (le64_bytes (freelist s))) = 4096"
    using assms(4) by (simp add: put_def le64_bytes_def PGSIZE_def)
  ultimately show ?thesis by blast
qed

lemma mem_apart_pipe:
  assumes "mem_apart pi pt m" "length b = 4096"
  shows "mem_apart pi pt (m(pi := b))"
proof -
  let ?m = "m(pi := b)"
  have c: "tpages ?m (pt q) = tpages m (pt q)" "pmap ?m (pt q) v = pmap m (pt q) v" "user_page ?m (pt q) v = user_page m (pt q) v"
    "user_pages ?m (pt q) = user_pages m (pt q)" if "q < NPROC" for q v
    by (rule user_cong; use assms(1) that in \<open>auto simp: mem_apart_def\<close>)+
  show ?thesis
    unfolding mem_apart_def
  proof (intro allI impI conjI)
    fix p assume p: "p < NPROC"
    note o = assms(1) [unfolded mem_apart_def, rule_format, OF p]
    show "user_ok ?m (pt p)" using o assms(2) unfolding user_ok_def c(1-3) [OF p] by simp
    show "pi \<notin> user_pages ?m (pt p) \<union> tpages ?m (pt p)" unfolding c(1,4) [OF p] using o by simp
    show "user_pages ?m (pt p) \<inter> (user_pages ?m (pt q) \<union> tpages ?m (pt q)) = {}" if q: "q < NPROC" "q \<noteq> p" for q
      unfolding c(4) [OF p] c(1,4) [OF q(1)] using o q by simp
  qed
qed

lemma step_close:
  fixes s s' :: "'a kpipe_scheme"
  assumes "pipe_inv pi s" "ctl s h = Executing p" "pipeclose h pi w s = Some s'"
  shows "pipe_step_ok pi Still s s'"
proof -
  note inv = pipe_inv_simps [OF assms(1)]
  note p = sys_inv_simps(6) [OF inv(1) assms(2)]
  have run: "p_state (procs s ! p) = RUNNING" using sys_inv_simps(3) [OF inv(1), of p] p assms(2) by (auto simp: proc_ok_def)
  define f where "f = (if w then (\<lambda>x :: pipe_s. x\<lparr>writeopen := 0\<rparr>) else (\<lambda>x. x\<lparr>readopen := 0\<rparr>))"
  define c where "c = (if w then At_pipe_nread pi else At_pipe_nwrite pi)"
  let ?t = "upd_pipe pi f s"
  have fx: "fill (f x) = fill x" "content (f x) = content x" "pipe_ok (f x) = pipe_ok x" for x by (simp_all add: f_def)
  have mv: "pmoved s ?t" by (simp add: pmoved_def upd_pipe_def)
  have "in_pipe h p pi s" using inv p run by (simp add: in_pipe_def)
  then have t: "in_pipe h p pi ?t" by (rule in_pipe_moved [OF _ mv]) (use inv(3) in \<open>simp add: upd_pipe_def fx\<close>)
  let ?u = "pwake h c ?t"
  have mu: "pmoved s ?u" using pmoved_trans [OF mv pwake_moved(1) [OF t]] .
  have u: "in_pipe h p pi ?u" by (rule in_pipe_moved [OF t pwake_moved(1) [OF t]]) (use t in \<open>simp add: in_pipe_def\<close>)
  have pu: "pipes ?u pi = f (pipes s pi)" by (simp add: upd_pipe_def)
  have acq: "acquire h (Pipe_lock pi) s = Some (held h (Pipe_lock pi) s)"
    by (rule acquire_free) (use inv(2) in \<open>simp add: at_rest_def\<close>)
  have "pipeclose h pi w s = (if readopen (pipes ?u pi) = 0 \<and> writeopen (pipes ?u pi) = 0 then kfree h pi (settle h ?u)
      else Some (settle h ?u))"
    using acq pwake_section(1) [OF t, of c] pwake_section(2) [OF u]
    by (cases w) (simp_all add: pipeclose_def f_def c_def)
  then consider "s' = settle h ?u" | "kfree h pi (settle h ?u) = Some s'" using assms(3) by (auto split: if_splits)
  then obtain m fl where s': "s' = (settle h ?u)\<lparr>pages := m, freelist := fl\<rparr>" "mem_apart pi (p_pagetable s) m"
  proof cases
    case 1
    then have "s' = (settle h ?u)\<lparr>pages := pages s, freelist := freelist ?u\<rparr>" by (simp add: settle_def pwake_def upd_pipe_def)
    then show ?thesis using inv(4) that by blast
  next
    case 2
    have "free_lock Kmem_lock (settle h ?u)" "hart_ok h (settle h ?u)"
      using u by (simp_all add: in_pipe_def at_rest_def free_lock_def hart_ok_def)
    moreover have "user_ok (pages s) (p_pagetable s 0)" using inv(4) by (simp add: mem_apart_def NPROC_def)
    then have "length (pages (settle h ?u) pi) = 4096" by (simp add: user_ok_def upd_pipe_def)
    ultimately obtain b fl where "s' = (settle h (settle h ?u))\<lparr>pages := (pages (settle h ?u))(pi := b), freelist := fl\<rparr>" "length b = 4096"
      using kfree_page [OF 2] by blast
    then show ?thesis using that mem_apart_pipe [OF inv(4)] by (simp add: upd_pipe_def)
  qed
  have sys: "sys_inv s'"
    by (rule inv_procs [OF inv(1)]) (use mu inv(5) in \<open>auto simp: s' pmoved_def nudged_def settle_def settle_cpu_def\<close>)
  have same: "pipes s' pi = f (pipes s pi)" "p_pagetable s' = p_pagetable s" "pages s' = m"
    using pu by (simp_all add: s' upd_pipe_def)
  have asl: "asleep_on a s q" "a \<noteq> c" if "q < NPROC" "asleep_on a s' q" for a q
    using asleep_moved [OF mu that(1)] pwake_moved(2) [OF t, of c] that by (auto simp: s' asleep_on_def)
  have "pipe_inv pi s'"
    using sys inv(3) s'(2) assms(1) asl by (cases w) (auto simp: pipe_inv_def same f_def c_def)
  moreover have "readers_ok pi s'" if r: "readers_ok pi s"
    unfolding readers_ok_def
  proof (intro allI impI)
    fix q assume q: "q < NPROC" "asleep_on (At_pipe_nread pi) s' q"
    have "\<not> w" using asl(2) [OF q] by (auto simp: c_def)
    then show "fill (pipes s' pi) = 0 \<and> writeopen (pipes s' pi) \<noteq> 0"
      using r asl(1) [OF q] q(1) by (simp add: readers_ok_def same f_def)
  qed
  ultimately show ?thesis by (simp add: pipe_step_ok_def moved_def same fx)
qed

lemma step_store:
  fixes s :: "'a kpipe_scheme"
  assumes "pipe_inv pi s" "p < NPROC" "user_page (pages s) (p_pagetable s p) (a div 4096)"
  shows "pipe_step_ok pi Still s (s\<lparr>pages := store_byte (p_pagetable s p) a x (pages s)\<rparr>)"
proof -
  note inv = pipe_inv_simps [OF assms(1)]
  have "sys_inv (s\<lparr>pages := store_byte (p_pagetable s p) a x (pages s)\<rparr>)"
    by (rule inv_procs [OF inv(1)]) (use inv(5) in simp_all)
  then show ?thesis
    using assms(1) store_apart(1) [OF inv(4) assms(2,3)]
    by (simp add: pipe_step_ok_def pipe_inv_def moved_def readers_ok_def asleep_on_def)
qed

lemma step_calm:
  fixes s s' :: "'a kpipe_scheme"
  assumes "pipe_inv pi s" "sys_inv s'" "pipes s' = pipes s" "p_pagetable s' = p_pagetable s" "pages s' = pages s"
    "\<And>q c. q < NPROC \<Longrightarrow> asleep_on c s' q \<Longrightarrow> asleep_on c s q"
  shows "pipe_step_ok pi Still s s'"
  using assms by (auto simp: pipe_step_ok_def pipe_inv_def moved_def readers_ok_def)

lemma step_yield:
  fixes s s1 s2 :: "'a kpipe_scheme"
  assumes "pipe_inv pi s" "ctl s h = Executing p" "yield_begin h s = Some (q, s1)" "scheduler_back h q s1 = Some s2"
  shows "pipe_step_ok pi Still s (goto h (Scanning (Suc p)) s2)"
proof -
  note inv = pipe_inv_simps [OF assms(1)]
  note p = sys_inv_simps(6) [OF inv(1) assms(2)]
  obtain b where t: "kframe h s s2" "cproc (cpus s2 h) = None"
     "procs s2 = (procs s)[p := (procs s ! p)\<lparr>p_state := RUNNABLE, last_executed := ticks s, p_context := In_yield b\<rparr>]"
    using yield_run [OF inv(2), of h p] p assms(3,4) by auto
  note more = kpipe_frame [OF t(1)]
  show ?thesis
  proof (rule step_calm [OF assms(1)])
    show "sys_inv (goto h (Scanning (Suc p)) s2)"
      by (rule inv_leave [OF inv(1) assms(2) t(1) _ t(3,2)]) (use more in \<open>simp_all add: resumable_def\<close>)
    show "asleep_on c s q" if "asleep_on c (goto h (Scanning (Suc p)) s2) q" for q c
      using that t(3) p inv(5) by (cases "q = p") (auto simp: asleep_on_def)
  qed (use more in simp_all)
qed

lemma step_outside:
  fixes s s' :: "'a kpipe_scheme"
  assumes "pipe_inv pi s" "proc_step h ev s s'" "ev \<noteq> Leave"
  shows "pipe_step_ok pi Still s s'"
proof -
  note inv = pipe_inv_simps [OF assms(1)]
  have "pipes s' = pipes s \<and> p_pagetable s' = p_pagetable s \<and> pages s' = pages s \<and>
    (\<forall>q<NPROC. \<forall>c. asleep_on c s' q \<longrightarrow> asleep_on c s q)"
  proof (cases ev)
    case Signal
    then obtain t ps where w: "s' = (settle h s)\<lparr>ticks := t, procs := ps\<rparr>" "\<forall>p<NPROC. signalled (procs s ! p) (ps ! p)"
      using signal_effect [OF inv(2)] assms(2) by blast
    have "asleep_on c s q" if "q < NPROC" "asleep_on c s' q" for q c
      using nudged_signalled [of "procs s ! q" "ps ! q"] w that by (auto simp: asleep_on_def nudged_def)
    then show ?thesis using w(1) by (simp add: settle_def)
  next
    case Pick
    then obtain i s2 c where w: "i < NPROC" "s' = goto h (Executing i) s2" "kframe h s s2"
     "procs s2 = (procs s)[i := (procs s ! i)\<lparr>p_state := RUNNING, ch_counter := ch_counter (procs s ! i) + 1, p_chan := c\<rparr>]"
      using pick_effect [OF inv(1)] assms(2) by blast
    have "asleep_on c s p" if "asleep_on c s' p" for p c
      using that w(1,2,4) inv(5) by (cases "p = i") (auto simp: asleep_on_def)
    then show ?thesis using kpipe_frame [OF w(3)] w(2) by simp
  next
    case Wrap
    then have "s' = goto h (Scanning 0) (intr_on h s)" using assms(2) by (auto elim: proc_step.cases)
    then show ?thesis by (simp add: intr_on_def upd_cpu_def asleep_on_def)
  next
    case Skip
    then obtain i s2 where w: "i < NPROC" "scheduler_try h i s = Some (False, s2)" "s' = goto h (Scanning (Suc i)) s2"
      using assms(2) by (auto elim: proc_step.cases)
    have "s2 = settle h s"
      using scheduler_try_run [OF inv(2) w(1), of h] w(2) by (cases "p_state (procs s ! i) = RUNNABLE") auto
    then show ?thesis using w(3) by simp
  qed (use assms(3) in simp)
  then show ?thesis using step_calm [OF assms(1) inv_step [OF inv(1) assms(2)]] by blast
qed

lemma pipe_step_inv:
  fixes s s' :: "'a pipe_sys_scheme"
  assumes "pipe_inv pi s" "pipe_step pi e s s'"
  shows "pipe_step_ok pi e s s'"
proof -
  have ppc: "pipe_step_ok pi e s (set_ppc p c t)" if "pipe_step_ok pi e s t" for e p c t
  proof -
    have "sys_inv (set_ppc p c t) = sys_inv t"
      by (simp add: sys_inv_def at_rest_def ctl_ok_def proc_ok_def free_lock_def set_ppc_def)
    then show ?thesis
      using that by (simp add: pipe_step_ok_def pipe_inv_def readers_ok_def asleep_on_def set_ppc_def)
  qed
  have stay: "goto h (Executing p) t = t" if "ctl t = ctl s" "ctl s h = Executing p" for h p t
    using that by (auto simp: goto_def fun_upd_idem)
  have sm: "sint n < 2 ^ 31" for n :: u32 using sint_lt [of n] by simp
  show ?thesis
    using assms(2)
  proof cases
    case (write_now h p q s0 addr n bs r)
    note e = start_enter [OF assms(1) write_now(2,5)]
    from section_write(1) [OF assms(1) e(3) write_now(6) [unfolded e(1,2)] refl] show ?thesis
      using write_now(1,2) stay by metis
  next
    case (write_wait h p q s0 addr n bs q' i s1 s2)
    note e = start_enter [OF assms(1) write_wait(3,6)]
    from section_write(2) [OF assms(1) e(3) write_wait(7) [unfolded e(1,2)] refl write_wait(8)] show ?thesis
      using write_wait(1,2) ppc by simp
  next
    case (write_again h j addr n i s1 b s2 bs r s3)
    obtain t where t: "s2 = held h (Pipe_lock pi) t" "pstart h j pi s t"
      using start_again [OF assms(1) write_again(3,4,6,8)] by blast
    from section_write(1) [OF assms(1) t(2) write_again(9) [unfolded t(1)] refl] show ?thesis
      using write_again(1,2) ppc by simp
  next
    case (write_again_wait h j addr n i s1 b s2 bs q k s3 s4)
    obtain t where t: "s2 = held h (Pipe_lock pi) t" "pstart h j pi s t"
      using start_again [OF assms(1) write_again_wait(3,4,6,8)] by blast
    from section_write(2) [OF assms(1) t(2) write_again_wait(9) [unfolded t(1)] refl write_again_wait(10)] show ?thesis
      using write_again_wait(1,2) ppc by simp
  next
    case (read_now h p q s0 addr n r)
    note e = start_enter [OF assms(1) read_now(2,5)]
    from section_read(1) [OF assms(1) e(3) sm read_now(6) [unfolded e(1,2)] refl] show ?thesis
      using read_now(1,2) stay by metis
  next
    case (read_wait h p q s0 addr n q' i s1 s2)
    note e = start_enter [OF assms(1) read_wait(3,6)]
    from section_read(2) [OF assms(1) e(3) sm read_wait(7) [unfolded e(1,2)] refl read_wait(8)] show ?thesis
      using read_wait(1,2) ppc by simp
  next
    case (read_again h j addr n s1 b s2 r s3)
    obtain t where t: "s2 = held h (Pipe_lock pi) t" "pstart h j pi s t"
      using start_again [OF assms(1) read_again(3,4,6,8)] by blast
    from section_read(1) [OF assms(1) t(2) sm read_again(9) [unfolded t(1)] refl] show ?thesis
      using read_again(1,2) ppc by simp
  next
    case (read_again_wait h j addr n s1 b s2 q i s3 s4)
    obtain t where t: "s2 = held h (Pipe_lock pi) t" "pstart h j pi s t"
      using start_again [OF assms(1) read_again_wait(3,4,6,8)] by blast
    from section_read(2) [OF assms(1) t(2) sm read_again_wait(9) [unfolded t(1)] refl read_again_wait(10)] show ?thesis
      using read_again_wait(1,2) by simp
  next
    case (close h p w)
    then show ?thesis using step_close [OF assms(1)] by blast
  next
    case (store h p a x)
    have "p < NPROC" using sys_inv_simps(6) [OF pipe_inv_simps(1) [OF assms(1)] store(3)] by simp
    then show ?thesis using store step_store [OF assms(1)] by blast
  next
    case (preempted h p q s1 s2)
    then show ?thesis using step_yield [OF assms(1)] by blast
  next
    case (outside h ev)
    then show ?thesis using step_outside [OF assms(1)] by blast
  qed
qed

section \<open>What a pipe guarantees\<close>

text \<open>A machine before the first step: nobody sleeps, the pipe may hold bytes already.\<close>

definition pipe_boot :: "u64 \<Rightarrow> 'a kpipe_scheme \<Rightarrow> bool" where
  "pipe_boot pi s \<longleftrightarrow> boot_sys s \<and> pipe_ok (pipes s pi) \<and> mem_apart pi (p_pagetable s) (pages s) \<and>
     (\<forall>p<NPROC. p_state (procs s ! p) \<noteq> SLEEPING)"

lemma pipe_boot_inv: "pipe_boot pi s \<Longrightarrow> pipe_inv pi s \<and> readers_ok pi s"
  by (simp add: pipe_boot_def pipe_inv_def readers_ok_def asleep_on_def inv_boot)

fun put_in :: "pipe_event \<Rightarrow> u8 list" where
  "put_in (Put bs) = bs"
| "put_in (Cut bs) = bs"
| "put_in _ = []"

fun taken_out :: "pipe_event \<Rightarrow> u8 list" where
  "taken_out (Take bs l) = bs"
| "taken_out _ = []"

fun lost_in :: "pipe_event \<Rightarrow> nat" where
  "lost_in (Take bs l) = l"
| "lost_in _ = 0"

definition fifo_step :: "u8 list \<Rightarrow> u8 list \<Rightarrow> u8 list \<Rightarrow> nat \<Rightarrow> u8 list \<Rightarrow> bool" where
  "fifo_step c w r l c' \<longleftrightarrow> (\<exists>xs. c @ w = xs @ c' \<and> subseq r xs \<and> length xs = length r + l)"

lemma fifo_moved: "moved e c c' \<Longrightarrow> fifo_step c (put_in e) (taken_out e) (lost_in e) c'"
  by (cases e) (auto simp: moved_def fifo_step_def)

lemma fifo_trans:
  assumes "fifo_step c w r l c1" "fifo_step c1 w' r' l' c2"
  shows "fifo_step c (w @ w') (r @ r') (l + l') c2"
proof -
  obtain xs ys where x: "c @ w = xs @ c1" "subseq r xs" "length xs = length r + l"
    and y: "c1 @ w' = ys @ c2" "subseq r' ys" "length ys = length r' + l'"
    using assms by (auto simp: fifo_step_def)
  have "c @ w @ w' = (xs @ ys) @ c2" using x(1) y(1) by (metis append.assoc)
  moreover have "subseq (r @ r') (xs @ ys)" using x(2) y(2) by (rule list_emb_append_mono)
  ultimately show ?thesis using x(3) y(3) unfolding fifo_step_def by (intro exI [of _ "xs @ ys"]) simp
qed

lemma pipe_run_ok:
  assumes "pipe_run pi s evs s'" "pipe_inv pi s"
  shows "pipe_inv pi s' \<and> (readers_ok pi s \<and> (\<forall>bs. Cut bs \<notin> set evs) \<longrightarrow> readers_ok pi s') \<and>
     fifo_step (content (pipes s pi)) (concat (map put_in evs)) (concat (map taken_out evs)) (sum_list (map lost_in evs))
       (content (pipes s' pi))"
  using assms
proof (induction rule: pipe_run.induct)
  case (pipe_run_nil s)
  then show ?case by (simp add: fifo_step_def)
next
  case (pipe_run_step s evs s1 e s2)
  note IH = pipe_run_step.IH [OF pipe_run_step.prems]
  have ok: "pipe_step_ok pi e s1 s2" using pipe_step_inv [OF _ pipe_run_step.hyps(2)] IH by blast
  then have "moved e (content (pipes s1 pi)) (content (pipes s2 pi))" by (simp add: pipe_step_ok_def)
  from fifo_trans [OF _ fifo_moved [OF this]] IH ok show ?case by (auto simp: pipe_step_ok_def)
qed

lemma subseq_full: "subseq r xs \<Longrightarrow> length xs = length r \<Longrightarrow> xs = r"
  by (metis subseq_same_length)

text \<open>
  C10. A pipe is a queue. However many processes write to it and read from it, on any number of harts, preempted,
  woken and killed at any time: what was in the pipe and what the writers put in, one after the other, is what left it followed by what is in
  it now, at most 512 bytes. What the readers found in their memory is in order, without repetition, and missing are just the bytes counted
  as lost; with none lost, the readers got all that left the pipe.
\<close>

theorem pipe_fifo:
  assumes "pipe_boot pi s" and "pipe_run pi s evs s'"
  shows "\<exists>xs. content (pipes s pi) @ concat (map put_in evs) = xs @ content (pipes s' pi) \<and>
     subseq (concat (map taken_out evs)) xs \<and>
     length xs = length (concat (map taken_out evs)) + sum_list (map lost_in evs) \<and>
     length (content (pipes s' pi)) \<le> 512 \<and>
     (sum_list (map lost_in evs) = 0 \<longrightarrow> xs = concat (map taken_out evs))"
proof -
  note ok = pipe_run_ok [OF assms(2) conjunct1 [OF pipe_boot_inv [OF assms(1)]]]
  then have "pipe_ok (pipes s' pi)" by (simp add: pipe_inv_def)
  then have "length (content (pipes s' pi)) \<le> 512" by (simp add: pipe_ok_def PIPESIZE_def)
  then show ?thesis using ok subseq_full unfolding fifo_step_def by (metis add.right_neutral)
qed

text \<open>
  C11. Nobody waits in vain at a pipe. In every reachable state a process that sleeps in \<open>pipewrite\<close> has a full pipe with an open read end
  before it. A process that sleeps in \<open>piperead\<close> has an empty pipe with an open write end before it, as long as no writer was killed between
  two bytes of one call.
\<close>

theorem pipe_no_lost_wakeup:
  assumes "pipe_boot pi s" and "pipe_run pi s evs s'" and "p < NPROC"
  shows "(asleep_on (At_pipe_nwrite pi) s' p \<longrightarrow> fill (pipes s' pi) = PIPESIZE \<and> readopen (pipes s' pi) \<noteq> 0) \<and>
     ((\<forall>bs. Cut bs \<notin> set evs) \<longrightarrow> asleep_on (At_pipe_nread pi) s' p \<longrightarrow> fill (pipes s' pi) = 0 \<and> writeopen (pipes s' pi) \<noteq> 0)"
  using pipe_run_ok [OF assms(2)] pipe_boot_inv [OF assms(1)] assms(3) by (auto simp: pipe_inv_def readers_ok_def)

text \<open>
  C38. A writer that is killed between two bytes leaves the readers asleep. When another hart kills it behind its first byte, \<open>pipewrite\<close>
  returns -1 without the wakeup that ends it otherwise: the byte is in the pipe, and a process that sleeps in \<open>piperead\<close> goes on sleeping.
\<close>

theorem pipewrite_killed_strands:
  fixes t :: "'a kpipe_scheme"
  assumes "in_pipe h p pi t" and "user_ok (pages t) (p_pagetable t p)" and "2 \<le> n" and "fill (pipes t pi) = 0"
    and "readopen (pipes t pi) \<noteq> 0" and "p_killed (procs t ! p) = 0"
    and "user_page (pages t) (p_pagetable t p) (unat addr div 4096)" and "q < NPROC" and "asleep_on (At_pipe_nread pi) t q"
  shows "\<exists>b s'. writes h p pi addr n 0 (held h (Pipe_lock pi) t) [b] (Done (-1)) s' \<and>
     content (pipes s' pi) = [b] \<and> asleep_on (At_pipe_nread pi) s' q"
proof -
  let ?b = "the (umem (pages t) (p_pagetable t p) (unat addr))"
  have ok: "pipe_ok (pipes t pi)" and len: "length (procs t) = NPROC" and p: "p < NPROC" "p_state (procs t ! p) = RUNNING"
    using assms(1) by (simp_all add: in_pipe_def at_rest_def)
  have f: "fill (pipes t pi) < PIPESIZE" using assms(4) by (simp add: PIPESIZE_def)
  let ?t1 = "upd_pipe pi (pipe_push ?b) t"
  let ?ps = "(procs t)[p := kill_proc (procs t ! p)]"
  let ?t2 = "?t1\<lparr>procs := ?ps\<rparr>"
  have "0 < n" using assms(3) by simp
  from pipewrite_iter_run(4) [OF assms(1,2) this assms(5,6) f, of addr] assms(7)
  have it: "pipewrite_iter h p pi addr n 0 (held h (Pipe_lock pi) t) = Some (More 1, held h (Pipe_lock pi) ?t1)" by simp
  have "signalled (procs t ! q) (?ps ! q)" if "q < length (procs t)" for q
    using that by (cases "q = p") (simp_all add: signalled_def)
  then have sg: "\<forall>q<length ?ps. signalled (procs t ! q) (?ps ! q)" by simp
  have d: "disturbed (held h (Pipe_lock pi) ?t1) (held h (Pipe_lock pi) ?t2)"
    unfolding disturbed_def using sg by (intro exI [of _ ?ps]) (simp add: held_procs_upd, simp add: upd_pipe_def)
  have "in_pipe h p pi ?t2"
    by (rule in_pipe_moved [OF assms(1)])
      (use push_content(2) [OF ok f] sg nudged_signalled len in \<open>auto simp: pmoved_def upd_pipe_def\<close>)
  moreover have "user_ok (pages ?t2) (p_pagetable ?t2 p)" using assms(2) by (simp add: upd_pipe_def)
  moreover have "p_killed (procs ?t2 ! p) \<noteq> 0" using p len by (simp add: kill_proc_def)
  ultimately have "pipewrite_iter h p pi addr n 1 (held h (Pipe_lock pi) ?t2) = Some (Done (-1), settle h ?t2)"
    using assms(3) by (intro pipewrite_iter_run(2)) simp_all
  from writes_more [OF it d writes_stop [OF this]]
  have "writes h p pi addr n 0 (held h (Pipe_lock pi) t) [?b] (Done (-1)) (settle h ?t2)" by simp
  moreover have "content (pipes (settle h ?t2) pi) = [?b]"
    using push_content(1) [OF ok f] assms(4) by (simp add: upd_pipe_def content_def)
  moreover have "asleep_on (At_pipe_nread pi) (settle h ?t2) q"
    using assms(9) p by (cases "q = p") (auto simp: asleep_on_def)
  ultimately show ?thesis by blast
qed

section \<open>Two processes and a pipe\<close>

definition pipe1 :: u64 where "pipe1 = 0x87012000"

definition empty_pipe :: pipe_s where
  "empty_pipe = \<lparr>pi_data = replicate 512 0, nread = 0, nwrite = 0, readopen = 1, writeopen = 1\<rparr>"

abbreviation tables :: "nat \<Rightarrow> u64" where
  "tables p \<equiv> if p = 0 then root1 else root2"

definition demo_pipe :: "mem \<Rightarrow> pipe_sys" where
  "demo_pipe m = kpipe.extend (ksys.extend (two_procs\<lparr>pages := m\<rparr>) \<lparr>p_pagetable = tables, pipes = (\<lambda>_. empty_pipe)\<rparr>)
     \<lparr>ppc = (\<lambda>_. Idle)\<rparr>"

text \<open>The first process has two pages of its own, the others have none.\<close>

lemma demo_mem: "\<exists>m. mem_apart pipe1 tables m \<and> user_page m root1 0"
proof -
  obtain s :: kheap and ps where s: "space 0 s root1 ps {..<2}" "added 0 twelve_pages root1 twelve {} {0..<2} (user_flags 0) zeros s ps"
    using demo_user by blast
  let ?m = "pages s"
  have z: "\<forall>w<2 ^ 27. 2 \<le> w \<longrightarrow> pmap ?m root1 w = 0" using s(2) twelve_table(2) [of root1] by (simp add: added_def)
  have two: "v < 2" if "user_page ?m root1 v" for v
  proof (rule ccontr)
    assume "\<not> v < 2"
    moreover have "v < 2 ^ 27" using that by (simp add: user_page_def)
    ultimately have "pmap ?m root1 v = 0" using z by simp
    then show False using that by (simp add: user_page_def)
  qed
  have ok: "user_ok ?m root1" by (rule space_user_ok [OF s(1)]) (use two in simp)
  have sets: "tpages ?m root1 \<union> data ?m root1 {0..<2} \<union> set ps = insert root1 (set twelve)"
    using s(2) twelve_table(3) [of root1] by (simp add: added_def)
  have "user_pages ?m root1 \<subseteq> data ?m root1 {0..<2}" using two by (auto simp: user_pages_def data_def)
  then have sub: "user_pages ?m root1 \<union> tpages ?m root1 \<subseteq> insert root1 (set twelve)" using sets by blast
  moreover have "root2 \<notin> insert root1 (set twelve)" "pipe1 \<notin> insert root1 (set twelve)" by (simp_all add: twelve_def pipe1_def)
  ultimately have o: "root2 \<notin> user_pages ?m root1 \<union> tpages ?m root1" "pipe1 \<notin> user_pages ?m root1 \<union> tpages ?m root1" by blast+
  have "?m root2 = pages twelve_pages root2"
    using s(2) twelve_table(3) [of root1] \<open>root2 \<notin> insert root1 (set twelve)\<close> by (simp add: added_def)
  then have r: "?m root2 = replicate 4096 0" using le64_zero by (simp add: twelve_pages_def)
  have "pte_of ?m root2 i = 0" if "i < 512" for i using pte_of_zero [of ?m root2 i] r that by simp
  note e = empty_table [of ?m root2, OF this]
  have t: "tpages ?m root2 = {root2}" "pmap ?m root2 v = 0" for v by (rule e; assumption)+
  have none: "\<not> user_page ?m root2 v" for v using t(2) by (simp add: user_page_def)
  then have u: "user_pages ?m root2 = {}" by (simp add: user_pages_def)
  have "user_ok ?m root2" using ok none by (simp add: user_ok_def)
  moreover have "pipe1 \<noteq> root2" by (simp add: pipe1_def)
  ultimately have "mem_apart pipe1 tables ?m" using ok o t(1) u by (simp add: mem_apart_def)
  moreover have "user_page ?m root1 0" using added_user [OF s(2), of 0] by simp
  ultimately show ?thesis by blast
qed

lemma demo_pipe_simps [simp]:
  "procs (demo_pipe m) = procs two_procs" "pipes (demo_pipe m) = (\<lambda>_. empty_pipe)" "ppc (demo_pipe m) = (\<lambda>_. Idle)"
  "ctl (demo_pipe m) = (\<lambda>_. Scanning 0)" "locks (demo_pipe m) = locks idle_kern" "cpus (demo_pipe m) = cpus idle_kern"
  "pages (demo_pipe m) = m" "p_pagetable (demo_pipe m) = tables"
  by (simp_all add: demo_pipe_def kpipe.defs ksys.defs two_procs_def)

lemma empty_pipe_ok: "pipe_ok empty_pipe" "fill empty_pipe = 0" "content empty_pipe = []"
  by (simp_all add: pipe_ok_def fill_def content_def empty_pipe_def PIPESIZE_def)

lemma demo_pipe_boot: "mem_apart pipe1 tables m \<Longrightarrow> pipe_boot pipe1 (demo_pipe m)"
proof -
  assume m: "mem_apart pipe1 tables m"
  have "boot_sys (demo_pipe m)"
    using two_procs_boot by (simp add: boot_sys_def at_rest_def free_lock_def two_procs_def)
  moreover have "p_state (procs (demo_pipe m) ! p) \<noteq> SLEEPING" if "p < NPROC" for p
    using that by (simp add: two_procs_def new_proc_def nth_append NPROC_def nth_Cons split: nat.split)
  ultimately show ?thesis using m empty_pipe_ok by (simp add: pipe_boot_def)
qed

lemma demo_user_ok: "mem_apart pipe1 tables m \<Longrightarrow> user_ok m root1"
  unfolding mem_apart_def by (drule spec [of _ 0]) (simp add: NPROC_def)

text \<open>The first process writes one byte.\<close>

lemma demo_pipe_write:
  assumes "mem_apart pipe1 tables m" "user_page m root1 0"
  shows "\<exists>s' b. pipe_run pipe1 (demo_pipe m) [Still, Put [b]] s'"
proof -
  let ?s = "demo_pipe m"
  note boot = demo_pipe_boot [OF assms(1)]
  have st: "p_state (procs ?s ! 0) = RUNNABLE" by (simp add: two_procs_def new_proc_def nth_append)
  have "sys_inv ?s" using boot by (simp add: pipe_boot_def inv_boot)
  from pick_run [OF this, of 0 0] st obtain t where t: "proc_step 0 Pick ?s (goto 0 (Executing 0) t)" "kframe 0 ?s t"
    by (auto simp: NPROC_def)
  let ?s1 = "goto 0 (Executing 0) t"
  have "pipe_step pipe1 Still ?s ?s1" by (rule outside [OF t(1)]) simp_all
  from pipe_run_step [OF pipe_run_nil this] have r1: "pipe_run pipe1 ?s [Still] ?s1" by simp
  note inv = conjunct1 [OF pipe_run_ok [OF r1 conjunct1 [OF pipe_boot_inv [OF boot]]]]
  have pi1: "pipes ?s1 pipe1 = empty_pipe" "pages ?s1 = m" "p_pagetable ?s1 = tables" using kpipe_frame [OF t(2)] by simp_all
  have idle: "ppc ?s1 = (\<lambda>_. Idle)" using t(2) by (cases t) (simp add: kframe_def goto_def demo_pipe_def kpipe.defs ksys.defs)
  have ctl1: "ctl ?s1 0 = Executing 0" by (simp add: goto_def)
  have rest: "at_rest ?s1" using pipe_inv_simps(2) [OF inv] .
  have "hart_ok 0 ?s1" "free_lock (Pipe_lock pipe1) (settle 0 ?s1)" using rest by (simp_all add: at_rest_def hart_ok_def free_lock_def)
  then have enter: "pipe_enter 0 pipe1 ?s1 = Some (0, held 0 (Pipe_lock pipe1) (settle 0 ?s1))"
    using myproc_ok [of 0 ?s1] acquire_free [of "Pipe_lock pipe1" "settle 0 ?s1" 0] sys_inv_simps(6) [OF pipe_inv_simps(1) [OF inv] ctl1]
    by (simp add: pipe_enter_def)
  let ?t = "settle 0 ?s1"
  have i: "in_pipe 0 0 pipe1 ?t" using start_enter(3) [OF inv ctl1 enter] by (simp add: pstart_def)
  have uo: "user_ok (pages ?t) (p_pagetable ?t 0)" using demo_user_ok [OF assms(1)] pi1 by simp
  have alive: "p_killed (procs ?t ! 0) = 0"
  proof -
    obtain s2 c where e: "?s1 = goto 0 (Executing 0) s2"
      "procs s2 = (procs ?s)[0 := (procs ?s ! 0)\<lparr>p_state := RUNNING, ch_counter := ch_counter (procs ?s ! 0) + 1, p_chan := c\<rparr>]"
      using pick_effect [OF \<open>sys_inv ?s\<close> t(1)] by auto
    have "procs ?t = procs s2" by (subst e(1)) simp
    then show ?thesis using e(2) by (simp add: two_procs_def new_proc_def nth_append)
  qed
  define b where "b = the (umem m root1 0)"
  let ?u = "upd_pipe pipe1 (pipe_push b) ?t"
  note pi0 = pi1 [unfolded goto_kpipe]
  have it: "pipewrite_iter 0 0 pipe1 0 1 0 (held 0 (Pipe_lock pipe1) ?t) = Some (More 1, held 0 (Pipe_lock pipe1) ?u)"
    using pipewrite_iter_run(4) [OF i uo, of 0 1 0] alive assms(2) pi0 empty_pipe_ok
    by (simp add: empty_pipe_def PIPESIZE_def b_def)
  have "in_pipe 0 0 pipe1 ?u"
    by (rule in_pipe_moved [OF i]) (use push_content(2) [of empty_pipe] empty_pipe_ok pi0 in \<open>simp_all add: pmoved_def upd_pipe_def PIPESIZE_def\<close>)
  moreover have "user_ok (pages ?u) (p_pagetable ?u 0)" using uo by (simp add: upd_pipe_def)
  ultimately have "pipewrite_iter 0 0 pipe1 0 1 1 (held 0 (Pipe_lock pipe1) ?u) =
      Some (Done 1, settle 0 (pwake 0 (At_pipe_nread pipe1) ?u))" by (intro pipewrite_iter_run(1)) simp_all
  from writes_more [OF it disturbed_refl writes_stop [OF this]]
  have "writes 0 0 pipe1 0 (sint (1 :: u32)) 0 (held 0 (Pipe_lock pipe1) ?t) [b] (Done 1)
      (settle 0 (pwake 0 (At_pipe_nread pipe1) ?u))"
    using pi0 by (simp add: b_def)
  from write_now [OF ctl1 _ _ enter this] have "pipe_step pipe1 (Put [b]) ?s1 (settle 0 (pwake 0 (At_pipe_nread pipe1) ?u))"
    using idle pi1(1) by (simp add: put_event_def empty_pipe_def)
  from pipe_run_step [OF r1 this] show ?thesis by auto
qed

theorem pipe_fifo_witness:
  "\<exists>m s' b. pipe_run pipe1 (demo_pipe m) [Still, Put [b]] s' \<and> content (pipes s' pipe1) = [b]"
proof -
  obtain m where m: "mem_apart pipe1 tables m" "user_page m root1 0" using demo_mem by blast
  obtain s' b where r: "pipe_run pipe1 (demo_pipe m) [Still, Put [b]] s'" using demo_pipe_write [OF m] by blast
  from pipe_fifo [OF demo_pipe_boot [OF m(1)] r] have "content (pipes s' pipe1) = [b]"
    using empty_pipe_ok by simp
  then show ?thesis using r by blast
qed

theorem pipe_no_lost_wakeup_witness:
  "\<exists>m s' b. pipe_run pipe1 (demo_pipe m) [Still, Put [b]] s' \<and> \<not> asleep_on (At_pipe_nread pipe1) s' 1"
proof -
  obtain m where m: "mem_apart pipe1 tables m" "user_page m root1 0" using demo_mem by blast
  note boot = demo_pipe_boot [OF m(1)]
  obtain s' b where r: "pipe_run pipe1 (demo_pipe m) [Still, Put [b]] s'" using demo_pipe_write [OF m] by blast
  have "fifo_step [] [b] [] 0 (content (pipes s' pipe1))"
    using pipe_run_ok [OF r conjunct1 [OF pipe_boot_inv [OF boot]]] empty_pipe_ok by simp
  then have "content (pipes s' pipe1) = [b]" by (simp add: fifo_step_def)
  then have "fill (pipes s' pipe1) = 1" by (metis length_content length_Cons list.size(3) One_nat_def)
  then show ?thesis using pipe_no_lost_wakeup [OF boot r, of 1] r by (auto simp: NPROC_def)
qed

text \<open>The first process writes while the second sleeps in \<open>piperead\<close>.\<close>

definition demo_waiting :: "mem \<Rightarrow> pipe_sys" where
  "demo_waiting m = (demo_pipe m)\<lparr>cpus := \<lambda>_. \<lparr>cproc = Some 0, noff = 0, intena = True, sie = True\<rparr>,
     procs := new_proc RUNNING # (new_proc SLEEPING)\<lparr>p_chan := Some (At_pipe_nread pipe1)\<rparr> # replicate 62 (new_proc UNUSED)\<rparr>"

theorem pipewrite_killed_strands_witness:
  "\<exists>m b s'. writes 0 0 pipe1 0 2 0 (held 0 (Pipe_lock pipe1) (demo_waiting m)) [b] (Done (-1)) s' \<and>
     content (pipes s' pipe1) = [b] \<and> asleep_on (At_pipe_nread pipe1) s' 1"
proof -
  obtain m where m: "mem_apart pipe1 tables m" "user_page m root1 0" using demo_mem by blast
  let ?t = "demo_waiting m"
  have sel: "pipes ?t pipe1 = empty_pipe" "pages ?t = m" "p_pagetable ?t = tables" by (simp_all add: demo_waiting_def)
  have "in_pipe 0 0 pipe1 ?t"
    using empty_pipe_ok by (simp add: in_pipe_def at_rest_def free_lock_def demo_waiting_def idle_kern_def NPROC_def new_proc_def)
  moreover have "user_ok (pages ?t) (p_pagetable ?t 0)" using demo_user_ok [OF m(1)] by (simp add: sel)
  moreover have "asleep_on (At_pipe_nread pipe1) ?t 1" "p_killed (procs ?t ! 0) = 0"
    by (simp_all add: asleep_on_def demo_waiting_def new_proc_def)
  moreover have "fill (pipes ?t pipe1) = 0" "readopen (pipes ?t pipe1) \<noteq> 0"
    using empty_pipe_ok by (simp_all add: sel empty_pipe_def)
  moreover have "user_page (pages ?t) (p_pagetable ?t 0) (unat (0 :: u64) div 4096)" using m(2) by (simp add: sel)
  ultimately show ?thesis
    using pipewrite_killed_strands [of 0 0 pipe1 ?t 2 0 1] by (auto simp: NPROC_def)
qed

text \<open>
  A read to an address that is not the user's loses a byte: the call returns 0, as at the end of the file, and the first byte
  has left the pipe for nobody.
\<close>

theorem piperead_lost:
  fixes s :: "'a kpipe_scheme" and n :: u32
  assumes "pipe_inv pi s" and "ctl s h = Executing p" and "0 < fill (pipes s pi)" and "0 < sint n"
    and "\<not> user_page (pages s) (p_pagetable s p) (unat addr div 4096)"
  shows "\<exists>b s'. piperead h pi addr (sint n) s = Some (Done 0, s') \<and> content (pipes s pi) = b # content (pipes s' pi)"
proof -
  note inv = pipe_inv_simps [OF assms(1)]
  let ?t = "settle h s"
  have "hart_ok h s" "free_lock (Pipe_lock pi) ?t" using inv(2) by (simp_all add: at_rest_def hart_ok_def free_lock_def)
  then have enter: "pipe_enter h pi s = Some (p, held h (Pipe_lock pi) ?t)"
    using myproc_ok [of h s] acquire_free [of "Pipe_lock pi" ?t h] sys_inv_simps(6) [OF inv(1) assms(2)]
    by (simp add: pipe_enter_def)
  have i: "in_pipe h p pi ?t" using start_enter(3) [OF assms(1,2) enter] by (simp add: pstart_def)
  have p: "p < NPROC" using i by (simp add: in_pipe_def)
  have n: "sint n < 2 ^ 31" using sint_lt [of n] by simp
  have "mem_apart pi (p_pagetable ?t) (pages ?t)" "\<not> (fill (pipes ?t pi) = 0 \<and> writeopen (pipes ?t pi) \<noteq> 0)"
    using inv(4) assms(3) by simp_all
  from piperead_loop_run(3) [OF i this(1) n this(2), of addr] obtain bs l j t' where
    tk: "took h p pi addr (sint n) 0 ?t bs l j t'" and
    run: "piperead_loop h p pi addr (sint n) (held h (Pipe_lock pi) ?t) = Some (Done j, settle h t')" by blast
  have up: "user_page (pages t') (p_pagetable s p) v = user_page (pages s) (p_pagetable s p) v" for v
    using tk p by (simp add: took_def)
  have bs: "bs = []"
  proof (rule ccontr)
    assume "bs \<noteq> []"
    then have "0 < length bs" by simp
    then have "umem (pages t') (p_pagetable ?t p) (byte_at addr (0 + int 0)) = Some (bs ! 0)"
      using tk unfolding took_def by blast
    then show False using assms(5) up by (simp add: umem_def byte_at_def split: if_splits)
  qed
  then have j: "j = 0" using tk by (simp add: took_def)
  have c: "content (pipes s pi) = l @ content (pipes t' pi)" using tk bs by (simp add: took_def)
  have "content (pipes s pi) \<noteq> []" using assms(3) by (metis length_content less_numeral_extra(3) list.size(3))
  then have "l \<noteq> []" using tk c j assms(4) by (auto simp: took_def)
  then have "length l = 1" using tk by (simp add: took_def)
  then obtain b where "l = [b]" by (cases l) auto
  then show ?thesis using enter run c j by (intro exI [of _ b] exI [of _ "settle h t'"]) (simp add: piperead_def)
qed

end
