(* ===== verification/Spec2Isabelle.thy ===== *)
theory Spec2Isabelle
  imports Execute Fat_Ops Semaphore Log Grep Pipe
begin

text \<open>
  Verification of the programs of an operating-systems course: the shell of \<open>lab1\<close>, the xv6 kernel that
  \<open>lab2\<close> extends by semaphores and \<open>lab3\<close> by statistics of its scheduler, user programs of that kernel, and the
  user-space FAT32 driver of \<open>lab4/esqueleto\<close>.

  \<^bold>\<open>The shell\<close> (\<open>src/lab1\<close>). \<open>Command\<close> models \<open>command.c\<close>: a simple command is a record of its words and
  redirections, a pipeline a record of its commands and the wait flag. \<open>Parsing\<close> models
  \<open>parsing.c\<close>; the lexical analyser is object code in the repository, so its operations are a
  parameter with the laws of \<open>parser.h\<close>. \<open>Shell_Os\<close> holds the state of the process (descriptors,
  pipes, children), \<open>Builtin\<close> the internal commands, \<open>Execute\<close> the execution of a pipeline and
  the main loop. The lemmas show that printing and parsing are inverse, that each command of a pipeline
  gets its descriptors, and what a pipeline leaves open or waits for.

  \<^bold>\<open>The driver\<close> (\<open>src/lab4/esqueleto\<close>). \<open>Fat_Util\<close> models \<open>fat_util.c\<close> over a volume (its bytes, \<open>errno\<close> and a list of
  faults that decides how the next system calls fall short), \<open>Fat_Table\<close> the allocation table,
  \<open>Fat_Name\<close> names and paths, \<open>Fat_File\<close> file objects and their contents, \<open>H_Tree\<close> the search tree
  of nodes in a heap, \<open>Fat_Tree\<close> its instance for files ordered by path, \<open>Fat_Volume\<close> the
  mounting of a volume, \<open>Fat_Ops\<close> the operations that fuse calls. The states are records
  that extend one another (\<open>io\<close>, \<open>tstate\<close>, \<open>fstate\<close>, \<open>hstate\<close>, \<open>vstate\<close>). The lemmas refine the chain of clusters
  of a file to its list of bytes, the heap of nodes to a finite search tree, and the operations to
  changes of both.

  \<^bold>\<open>The kernel\<close> (\<open>src/lab3/xv6-riscv/kernel\<close>; the files are the same in \<open>src/lab2/kernel\<close> except \<open>proc.c\<close>, \<open>proc.h\<close>,
  \<open>defs.h\<close>, \<open>syscall.c\<close>, \<open>syscall.h\<close> and \<open>sysproc.c\<close>). \<open>Spinlock\<close> models \<open>spinlock.c\<close>, \<open>Kstring\<close> \<open>string.c\<close>, \<open>Kalloc\<close> \<open>kalloc.c\<close>,
  \<open>Proc\<close> the process table and the scheduler of \<open>proc.c\<close>, \<open>Semaphore\<close> the semaphores of \<open>lab2\<close> (\<open>proc.c\<close> and
  \<open>fun_aux.c\<close> there), \<open>Vm\<close> the page tables of \<open>vm.c\<close>, \<open>Pipe\<close> the pipes of \<open>pipe.c\<close>, \<open>Bio\<close> the block cache (\<open>bio.c\<close>, \<open>sleeplock.c\<close>),
  \<open>Log\<close> the redo log (\<open>log.c\<close>). The states extend one another: \<open>kern\<close> (locks and harts), \<open>kheap\<close> (pages), \<open>kproc\<close> (processes), then \<open>ksem\<close> and \<open>kpipe\<close> on one side and \<open>kbio\<close>, \<open>klog\<close> on
  the other. A function is a function of the hart it runs on and of the state, and \<^const>\<open>None\<close> is a panic
  or a spin that does not end in this state. A function that gives up the processor is cut into the parts before and
  after \<open>sched\<close>; the systems of the scheduler, of the semaphores and of a pipe are step relations over these parts,
  in which a critical section is one step, because nobody else gets past its lock (a writer of a pipe may be killed inside of it). The lemmas show
  mutual exclusion and the bookkeeping of interrupts, that no page is handed out twice, that a page table is a finite map from virtual
  pages which the operations of \<open>vm.c\<close> change as they promise and give back without loss, that a process runs on one
  hart at most and each gets its turn, that units of a semaphore are conserved and wakeups not lost, that a pipe is a queue of bytes whose readers and writers
  do not wait in vain, that the cache behaves as the disk, and that a crash at any point leaves each transaction done or not done.

  \<^bold>\<open>User programs\<close> (\<open>src/lab3/xv6-riscv/user\<close>, the same files in \<open>src/lab2/user\<close>). \<open>Grep\<close> models \<open>ulib.c\<close> and \<open>grep.c\<close>: the
  matcher decides the language of its patterns, and the loop prints the matching lines however the reads are cut,
  as long as no line fills the buffer.

  \<^bold>\<open>Interfaces.\<close> The queues of the shell meet \<open>fifo\<close>, the allocator of pages \<open>page_allocator\<close>, and further contracts stand in
  the theories whose definitions meet them; each locale is interpreted on the model of the code.

  \<^bold>\<open>Bounds and fuel.\<close> Fixed sizes are those of the code: 64 processes (\<open>NPROC\<close>), 30 buffers (\<open>NBUF\<close>), a log of at most 29
  blocks, so that a transaction that keeps its blocks pinned never exhausts the cache, 10 semaphores (\<open>NSEM\<close>).
  \<open>freerange_loop\<close> gets the end address as its fuel, more rounds than there are pages below it. Loops over chains of clusters, which a damaged
  volume may close to a ring, are partial functions. A signed C integer is an \<open>int\<close> where
  its overflow is excluded or written out as \<^const>\<open>None\<close>, an unsigned one a word.

  \<^bold>\<open>Not modelled.\<close> In the kernel: the page table of the kernel itself (\<open>kvmmake\<close>, \<open>kvminit\<close>, \<open>kvminithart\<close>, which run at boot), \<open>exec.c\<close>, traps and system calls, the layers of \<open>fs.c\<close>, \<open>file.c\<close>
  (with \<open>pipealloc\<close>) and \<open>sysfile.c\<close> above the log, the console and the drivers of devices; the disk driver is represented by its
  contract, one block per call. Of \<open>proc.c\<close>, \<open>fork\<close>, \<open>exit\<close>, \<open>wait\<close> and the functions that manage user memory: they rest on
  page tables and files. Of the user programs, all but \<open>grep\<close>; they only combine system calls. \<open>mkfs\<close>, the tests and
  the option parsing of the driver (\<open>fat_fuse.c\<close>) are left out, and functions that only print.
\<close>

end
